(* ===== verification/Prelude.thy ===== *)
theory Prelude imports Main "HOL-Library.Word" "HOL-Library.Monad_Syntax" "HOL-Library.Multiset" begin

text \<open>
  What the components share: the C integers the sources use, the C heap behind
  \<open>malloc\<close> and \<open>free\<close>, and list lemmas for the \<open>sys/queue.h\<close> chains.

  Undefined behaviour is a value. A function whose C text can run into it returns an
  \<open>option\<close>, and \<open>None\<close> means that the C standard gives the run no meaning (a shift of an
  \<open>int\<close> by 31 or more, an array index out of range, a \<open>LIST_REMOVE\<close> of a node on no list).
  Addresses are \<open>nat\<close>; the null pointer is \<open>None\<close> of \<open>addr option\<close>.
\<close>

type_synonym addr = nat

named_theorems csimps \<open>simplification rules for the C arithmetic of the models\<close>

section \<open>Unsigned arithmetic of width \<open>8 * w\<close>\<close>

text \<open>
  \<open>w\<close> is the size in bytes of a \<open>size_t\<close> and of a pointer: 4 on the 32-bit systems the code
  was written on, 8 on LP64 systems. An \<open>int\<close> has 32 bits on both.
\<close>

definition size_mod :: "nat \<Rightarrow> nat" where
  "size_mod w = 2 ^ (8 * w)"

definition sz_add :: "nat \<Rightarrow> nat \<Rightarrow> nat \<Rightarrow> nat" where
  "sz_add w a b = (a + b) mod size_mod w"

definition sz_sub :: "nat \<Rightarrow> nat \<Rightarrow> nat \<Rightarrow> nat" where
  "sz_sub w a b = (a + size_mod w - b) mod size_mod w"

lemma size_mod_pos [simp]: "0 < size_mod w"
  by (simp add: size_mod_def)

lemma size_mod_gt: "n < 2 ^ (8 * w) \<Longrightarrow> n < size_mod w"
  by (simp add: size_mod_def)

lemma sz_add_small [csimps]: "a + b < size_mod w \<Longrightarrow> sz_add w a b = a + b"
  by (simp add: sz_add_def)

lemma sz_add_less [simp]: "sz_add w a b < size_mod w"
  by (simp add: sz_add_def)

lemma sz_sub_small [csimps]: "b \<le> a \<Longrightarrow> a < size_mod w \<Longrightarrow> sz_sub w a b = a - b"
proof -
  assume "b \<le> a" "a < size_mod w"
  then have eq: "a + size_mod w - b = (a - b) + size_mod w" by linarith
  from \<open>a < size_mod w\<close> have "a - b < size_mod w" by linarith
  then show ?thesis by (simp only: sz_sub_def eq mod_add_self2 mod_less)
qed

lemma sz_sub_wrap: "a < b \<Longrightarrow> b \<le> size_mod w \<Longrightarrow> sz_sub w a b = a + size_mod w - b"
  unfolding sz_sub_def by (rule mod_less) linarith

text \<open>The shift \<open>1 << n\<close> of an \<open>int\<close>: undefined from 31 on.\<close>

definition shl1 :: "nat \<Rightarrow> nat option" where
  "shl1 n = (if n < 31 then Some (2 ^ n) else None)"

lemma shl1_defined [csimps]: "n < 31 \<Longrightarrow> shl1 n = Some (2 ^ n)"
  by (simp add: shl1_def)

lemma shl1_SomeD: "shl1 n = Some s \<Longrightarrow> n < 31 \<and> s = 2 ^ n"
  by (simp add: shl1_def split: if_splits)

section \<open>The C heap\<close>

text \<open>
  \<open>hp_live\<close> holds the addresses that \<open>malloc\<close> returned and \<open>free\<close> has not taken back.
  \<open>hp_sched\<close> says which of the coming calls the system refuses (\<open>True\<close>: the call returns
  NULL); an exhausted schedule refuses none. \<open>hp_limit\<close> bounds the address space.
  \<open>hp_bad\<close> records a \<open>free\<close> of an address that is not live, which is undefined behaviour.
  \<open>malloc(0)\<close> returns a unique address, as glibc and the BSDs do.
\<close>

record cheap =
  hp_next :: nat
  hp_limit :: nat
  hp_live :: "addr list"
  hp_sched :: "bool list"
  hp_bad :: bool

definition malloc :: "nat \<Rightarrow> cheap \<Rightarrow> addr option \<times> cheap" where
  "malloc n h =
     (let refused = (case hp_sched h of [] \<Rightarrow> False | b # _ \<Rightarrow> b);
          h' = h\<lparr>hp_sched := tl (hp_sched h)\<rparr>
      in if refused \<or> hp_limit h < hp_next h + max n 1 then (None, h')
         else (Some (hp_next h),
               h'\<lparr>hp_next := hp_next h + max n 1, hp_live := hp_next h # hp_live h\<rparr>))"

definition cfree :: "addr option \<Rightarrow> cheap \<Rightarrow> cheap" where
  "cfree p h =
     (case p of
        None \<Rightarrow> h
      | Some a \<Rightarrow> if a \<in> set (hp_live h) then h\<lparr>hp_live := remove1 a (hp_live h)\<rparr>
                  else h\<lparr>hp_bad := True\<rparr>)"

definition heap_wf :: "cheap \<Rightarrow> bool" where
  "heap_wf h \<longleftrightarrow> 0 < hp_next h \<and> distinct (hp_live h) \<and>
     (\<forall>a\<in>set (hp_live h). 0 < a \<and> a < hp_next h)"

text \<open>What one \<open>malloc\<close> does, and what \<open>free\<close> of the block just obtained undoes.\<close>

lemma malloc_NoneD: "malloc n h = (None, h') \<Longrightarrow>
    hp_live h' = hp_live h \<and> hp_bad h' = hp_bad h \<and> hp_next h' = hp_next h \<and>
    hp_limit h' = hp_limit h"
  by (auto simp: malloc_def Let_def split: if_splits)

lemma malloc_SomeD: "malloc n h = (Some a, h') \<Longrightarrow>
    a = hp_next h \<and> hp_live h' = a # hp_live h \<and> hp_bad h' = hp_bad h \<and>
    hp_next h' = a + max n 1 \<and> hp_limit h' = hp_limit h \<and> a + max n 1 \<le> hp_limit h"
  by (auto simp: malloc_def Let_def split: if_splits)

lemma malloc_wf: "heap_wf h \<Longrightarrow> malloc n h = (r, h') \<Longrightarrow> heap_wf h'"
  by (cases r) (force dest!: malloc_NoneD malloc_SomeD simp: heap_wf_def)+

lemma malloc_fresh: "heap_wf h \<Longrightarrow> malloc n h = (Some a, h') \<Longrightarrow> a \<notin> set (hp_live h)"
  by (auto dest!: malloc_SomeD simp: heap_wf_def)

lemma cfree_None [simp]: "cfree None h = h"
  by (simp add: cfree_def)

lemma cfree_live:
  "a \<in> set (hp_live h) \<Longrightarrow> cfree (Some a) h = h\<lparr>hp_live := remove1 a (hp_live h)\<rparr>"
  by (simp add: cfree_def)

lemma cfree_wf: "heap_wf h \<Longrightarrow> heap_wf (cfree p h)"
  by (auto simp: heap_wf_def cfree_def dest: notin_set_remove1 split: option.splits)

text \<open>Releasing several blocks.\<close>

lemma cfree_mset:
  "a \<in># mset (hp_live h) \<Longrightarrow>
    mset (hp_live (cfree (Some a) h)) = mset (hp_live h) - {#a#} \<and> hp_bad (cfree (Some a) h) = hp_bad h"
  by (simp add: cfree_def)

lemma cfrees_mset:
  "mset as \<subseteq># mset (hp_live h) \<Longrightarrow>
    mset (hp_live (fold (\<lambda>a. cfree (Some a)) as h)) = mset (hp_live h) - mset as \<and>
    hp_bad (fold (\<lambda>a. cfree (Some a)) as h) = hp_bad h"
proof (induction as arbitrary: h)
  case (Cons a as)
  then have a: "a \<in># mset (hp_live h)" by (intro mset_subset_eqD [of _ "mset (hp_live h)"]) auto
  have "mset as \<subseteq># mset (hp_live (cfree (Some a) h))"
    using Cons.prems cfree_mset [OF a] by (simp add: insert_subset_eq_iff)
  from Cons.IH [OF this] cfree_mset [OF a] show ?case by simp
qed simp

text \<open>Memory that suffices.\<close>

definition plenty :: "nat \<Rightarrow> cheap \<Rightarrow> bool" where
  \<comment> \<open>No call of \<open>malloc\<close> is refused until \<open>n\<close> bytes have been handed out.\<close>
  "plenty n h \<longleftrightarrow> hp_sched h = [] \<and> hp_next h + n \<le> hp_limit h"

lemma plenty_le: "plenty n h \<Longrightarrow> m \<le> n \<Longrightarrow> plenty m h"
  by (simp add: plenty_def)

lemma plenty_malloc:
  assumes "plenty n h" "max k 1 + m \<le> n"
  obtains a h' where "malloc k h = (Some a, h')" "plenty m h'"
  using assms by (auto simp: plenty_def malloc_def)

lemma plenty_free: "plenty n h \<Longrightarrow> plenty n (cfree p h)"
  by (auto simp: plenty_def cfree_def split: option.splits)

section \<open>Reading lines\<close>

fun fgets_line :: "nat \<Rightarrow> 8 word list \<Rightarrow> 8 word list \<times> 8 word list \<times> bool" where
  \<comment> \<open>\<open>fgets\<close> of at most \<open>n\<close> characters: what is read, the rest of the file, and whether its end was met.\<close>
  "fgets_line 0 inp = ([], inp, False)"
| "fgets_line (Suc n) [] = ([], [], True)"
| "fgets_line (Suc n) (c # cs) =
     (if c = 10 then ([c], cs, False) else let (line, rest, eof) = fgets_line n cs in (c # line, rest, eof))"

lemma fgets_line_rest: "fgets_line n inp = (line, rest, eof) \<Longrightarrow> inp = line @ rest"
  by (induction n inp arbitrary: line rule: fgets_line.induct) (auto split: if_splits prod.splits)

lemma fgets_line_some: "fgets_line (Suc n) inp = (line, rest, False) \<Longrightarrow> line \<noteq> []"
  by (cases inp) (auto split: if_splits prod.splits)

lemma fgets_line_shorter:
  assumes "fgets_line (Suc n) inp = (line, rest, False)"
  shows "length rest < length inp"
  using fgets_line_rest [OF assms] fgets_line_some [OF assms] by simp

lemma fgets_line_length: "fgets_line n inp = (line, rest, eof) \<Longrightarrow> length line \<le> n"
  by (induction n inp arbitrary: line rule: fgets_line.induct) (auto split: if_splits prod.splits)

lemma fgets_eof: "fgets_line n inp = (line, rest, True) \<Longrightarrow> rest = []"
  by (induction n inp arbitrary: line rule: fgets_line.induct) (auto split: if_splits prod.splits)

section \<open>Chains of \<open>sys/queue.h\<close> as lists\<close>

text \<open>
  A queue head with its chain of elements is the list of the elements' addresses (or of the
  elements) in chain order. A table of heads is a list of such lists.
\<close>

definition chain_remove :: "addr \<Rightarrow> addr list list \<Rightarrow> addr list list option" where
  \<comment> \<open>\<open>LIST_REMOVE\<close>: unlinks the node from the chain it is on; undefined when it is on none.\<close>
  "chain_remove a tbl =
     (if a \<in> set (concat tbl) then Some (map (remove1 a) tbl) else None)"

definition chain_insert_head :: "nat \<Rightarrow> addr \<Rightarrow> addr list list \<Rightarrow> addr list list option" where
  \<comment> \<open>\<open>LIST_INSERT_HEAD(&table[i], ...)\<close>: undefined when \<open>i\<close> is out of range.\<close>
  "chain_insert_head i a tbl =
     (if i < length tbl then Some (tbl[i := a # tbl ! i]) else None)"

lemma set_concat_nth: "x \<in> set (concat xss) \<longleftrightarrow> (\<exists>i<length xss. x \<in> set (xss ! i))"
  by (auto simp: in_set_conv_nth) (metis in_set_conv_nth nth_mem)+

lemma mset_concat_update:
  "i < length xss \<Longrightarrow> mset (concat (xss[i := a # xss ! i])) = add_mset a (mset (concat xss))"
proof (induction xss arbitrary: i)
  case (Cons xs xss)
  then show ?case by (cases i) (simp_all del: mset_concat)
qed simp

lemma mset_concat_append:
  "i < length xss \<Longrightarrow> mset (concat (xss[i := xss ! i @ [a]])) = mset (concat xss) + {#a#}"
proof (induction xss arbitrary: i)
  case (Cons xs xss)
  then show ?case by (cases i) (simp_all del: mset_concat)
qed simp

lemma mset_concat_remove1:
  "i < length xss \<Longrightarrow> a \<in> set (xss ! i) \<Longrightarrow>
    mset (concat (xss[i := remove1 a (xss ! i)])) = mset (concat xss) - {#a#}"
proof (induction xss arbitrary: i)
  case (Cons xs xss)
  show ?case
  proof (cases i)
    case (Suc j)
    with Cons have "a \<in># mset (concat xss)" by (auto simp del: mset_concat)
    with Suc Cons show ?thesis by (simp del: mset_concat)
  qed (use Cons.prems in \<open>simp del: mset_concat\<close>)
qed simp

lemma mset_balance_trans:
  assumes "(A' :: 'a multiset) + B = A + B'" "A'' + B' = A' + B''"
  shows "A'' + B = A + B''"
proof -
  have "(A'' + B') + (A' + B) = (A' + B'') + (A + B')" by (simp only: assms)
  then show ?thesis by (simp add: ac_simps)
qed

lemma mset_balance_subset:
  assumes "B \<subseteq># A" "(A' :: 'a multiset) + B = A + B'"
  shows "B' \<subseteq># A'"
proof -
  obtain C where "A = B + C" using assms(1) by (auto simp: mset_subset_eq_exists_conv)
  with assms(2) have "A' = B' + C" by (simp add: ac_simps)
  then show ?thesis by simp
qed

lemma mset_map_cong: "mset xs = mset ys \<Longrightarrow> mset (map f xs) = mset (map f ys)"
  by simp

lemma map_remove1_filter: "distinct (concat tbl) \<Longrightarrow> map (remove1 a) tbl = map (filter (\<lambda>x. x \<noteq> a)) tbl"
  by (induction tbl) (auto simp: distinct_remove1_removeAll removeAll_filter_not_eq eq_commute)

lemma chain_remove_distinct:
  "distinct (concat tbl) \<Longrightarrow> a \<in> set (concat tbl) \<Longrightarrow>
    chain_remove a tbl = Some (map (filter (\<lambda>x. x \<noteq> a)) tbl)"
  unfolding chain_remove_def by (simp only: map_remove1_filter if_True)

lemma chain_remove_SomeD: "chain_remove a tbl = Some t \<Longrightarrow> length t = length tbl"
  by (auto simp: chain_remove_def split: if_splits)

lemma set_concat_update_append:
  "i < length tbl \<Longrightarrow> set (concat (tbl[i := ys @ tbl ! i])) = set ys \<union> set (concat tbl)"
proof (induction tbl arbitrary: i)
  case (Cons xs xss)
  then show ?case by (cases i) auto
qed simp

lemma distinct_concat_update_append:
  "i < length tbl \<Longrightarrow> distinct (concat (tbl[i := ys @ tbl ! i])) \<longleftrightarrow>
     distinct ys \<and> distinct (concat tbl) \<and> set ys \<inter> set (concat tbl) = {}"
proof (induction tbl arbitrary: i)
  case (Cons xs xss)
  show ?case
  proof (cases i)
    case 0
    then show ?thesis by auto
  next
    case (Suc j)
    with Cons.prems have j: "j < length xss" by simp
    show ?thesis
      unfolding Suc by (simp add: Cons.IH [OF j] set_concat_update_append [OF j, simplified]) blast
  qed
qed simp

lemma length_concat_update_append:
  "i < length tbl \<Longrightarrow> length (concat (tbl[i := ys @ tbl ! i])) = length ys + length (concat tbl)"
proof (induction tbl arbitrary: i)
  case (Cons xs xss)
  then show ?case by (cases i) auto
qed simp

lemma concat_map_filter: "concat (map (filter P) xss) = filter P (concat xss)"
  by (simp add: filter_concat)

lemma distinct_via_mset: "mset xs = mset ys \<Longrightarrow> distinct xs = distinct ys"
  by (rule mset_eq_imp_distinct_iff)

end
