(* ===== verification/Mpool.thy ===== *)
theory Mpool imports Prelude begin

text \<open>
  The buddy allocator, \<open>buddy/mpool.h\<close> and \<open>buddy/mpool.c\<close>: its data and its operations.

  Every block of the pool starts with a header (\<open>blknode\<close>). The pool's memory is modelled by
  \<open>mp_hdr\<close>: \<open>mp_hdr p a\<close> is the header that the bytes at address \<open>a\<close> spell. It is a total
  function, so the stale headers that merging leaves behind and the bytes that were never
  written are there too, and reading them is modelled. The \<open>next_chunk\<close> links are the chains of
  \<open>mp_blktable\<close>. The parameter \<open>w\<close> is the size of \<open>size_t\<close> and of pointers, in bytes;
  \<open>sizeof (blknode_t)\<close> depends on it. \<open>MPOOL_STATS\<close> is defined, as in \<open>mpool.h\<close>, and \<open>DPRINTF\<close>
  expands to nothing, so \<open>mpool_printblks\<close> has no effect and no definition here.
\<close>

unbundle bit_operations_syntax

section \<open>Data\<close>

record blknode =
  bn_flags :: "8 word"
  bn_logsize :: nat
  bn_ptr :: addr

record mpool =
  mp_addr :: addr
  mp_mem :: addr
  mp_nblocks :: nat
  mp_maxlogsize :: nat
  mp_minlogsize :: nat
  mp_nsplits :: nat
  mp_nmerges :: nat
  mp_tbladdr :: addr
  mp_blktable :: "addr list list"
  mp_hdr :: "addr \<Rightarrow> blknode"

datatype mpret_t = MPOOL_OK | MPOOL_EBADVAL | MPOOL_ENOMEM | MPOOL_ERANGE

definition sizeof_blknode :: "nat \<Rightarrow> nat" where
  \<comment> \<open>flags (padded), logsize, ptr and the two links of \<open>LIST_ENTRY\<close>\<close>
  "sizeof_blknode w = 5 * w"

definition sizeof_mpool :: "nat \<Rightarrow> nat" where
  "sizeof_mpool w = 7 * w"

definition sizeof_blkhead :: "nat \<Rightarrow> nat" where
  "sizeof_blkhead w = w"

section \<open>The header macros\<close>

definition MPOOL_NODE_AVAIL :: "8 word" where "MPOOL_NODE_AVAIL = push_bit 0 1"
definition MPOOL_NODE_LR :: "8 word" where "MPOOL_NODE_LR = push_bit 1 1"
definition MPOOL_NODE_PARENT :: "8 word" where "MPOOL_NODE_PARENT = push_bit 2 1"

definition MPOOL_MARK_AVAIL :: "blknode \<Rightarrow> blknode" where
  "MPOOL_MARK_AVAIL n = n\<lparr>bn_flags := bn_flags n OR MPOOL_NODE_AVAIL\<rparr>"
definition MPOOL_MARK_USED :: "blknode \<Rightarrow> blknode" where
  "MPOOL_MARK_USED n = n\<lparr>bn_flags := bn_flags n AND NOT MPOOL_NODE_AVAIL\<rparr>"
definition MPOOL_MARK_LEFT :: "blknode \<Rightarrow> blknode" where
  "MPOOL_MARK_LEFT n = n\<lparr>bn_flags := bn_flags n AND NOT MPOOL_NODE_LR\<rparr>"
definition MPOOL_MARK_RIGHT :: "blknode \<Rightarrow> blknode" where
  "MPOOL_MARK_RIGHT n = n\<lparr>bn_flags := bn_flags n OR MPOOL_NODE_LR\<rparr>"
definition MPOOL_MARK_PARENT :: "blknode \<Rightarrow> blknode" where
  "MPOOL_MARK_PARENT n = n\<lparr>bn_flags := bn_flags n OR MPOOL_NODE_PARENT\<rparr>"
definition MPOOL_MARK_NOTPARENT :: "blknode \<Rightarrow> blknode" where
  "MPOOL_MARK_NOTPARENT n = n\<lparr>bn_flags := bn_flags n AND NOT MPOOL_NODE_PARENT\<rparr>"

definition MPOOL_IS_AVAIL :: "blknode \<Rightarrow> bool" where
  "MPOOL_IS_AVAIL n \<longleftrightarrow> bn_flags n AND MPOOL_NODE_AVAIL \<noteq> 0"
definition MPOOL_IS_USED :: "blknode \<Rightarrow> bool" where
  "MPOOL_IS_USED n \<longleftrightarrow> bn_flags n AND MPOOL_NODE_AVAIL = 0"
definition MPOOL_IS_LEFT :: "blknode \<Rightarrow> bool" where
  "MPOOL_IS_LEFT n \<longleftrightarrow> bn_flags n AND MPOOL_NODE_LR = 0"
definition MPOOL_IS_RIGHT :: "blknode \<Rightarrow> bool" where
  "MPOOL_IS_RIGHT n \<longleftrightarrow> bn_flags n AND MPOOL_NODE_LR \<noteq> 0"
definition MPOOL_IS_PARENT :: "blknode \<Rightarrow> bool" where
  "MPOOL_IS_PARENT n \<longleftrightarrow> bn_flags n AND MPOOL_NODE_PARENT \<noteq> 0"

definition MPOOL_BLOCK_USED :: int where "MPOOL_BLOCK_USED = 0"
definition MPOOL_BLOCK_AVAIL :: int where "MPOOL_BLOCK_AVAIL = 1"
definition MPOOL_BLOCK_LEFT :: int where "MPOOL_BLOCK_LEFT = 2"
definition MPOOL_BLOCK_RIGHT :: int where "MPOOL_BLOCK_RIGHT = 3"
definition MPOOL_BLOCK_PARENT :: int where "MPOOL_BLOCK_PARENT = 4"

definition MPOOL_BLOCK_INIT :: "blknode \<Rightarrow> addr \<Rightarrow> int \<Rightarrow> int \<Rightarrow> int \<Rightarrow> nat \<Rightarrow> blknode" where
  \<comment> \<open>The first argument is what the memory holds before: the unused flag bits keep it.\<close>
  "MPOOL_BLOCK_INIT n0 ptr avail lr parent logsize =
     (let n1 = n0\<lparr>bn_ptr := ptr, bn_logsize := logsize\<rparr>;
          n2 = (if avail = MPOOL_BLOCK_AVAIL then MPOOL_MARK_AVAIL n1 else MPOOL_MARK_USED n1);
          n3 = (if lr = MPOOL_BLOCK_RIGHT then MPOOL_MARK_RIGHT n2 else MPOOL_MARK_LEFT n2)
      in (if parent = MPOOL_BLOCK_PARENT then MPOOL_MARK_PARENT n3 else MPOOL_MARK_NOTPARENT n3))"

definition mp_set :: "mpool \<Rightarrow> addr \<Rightarrow> blknode \<Rightarrow> mpool" where
  "mp_set p a n = p\<lparr>mp_hdr := (mp_hdr p)(a := n)\<rparr>"

definition MPOOL_GET_LEFT_BUDDY_OF :: "nat \<Rightarrow> mpool \<Rightarrow> addr \<Rightarrow> addr option" where
  "MPOOL_GET_LEFT_BUDDY_OF w p a =
     do { s \<leftarrow> shl1 (bn_logsize (mp_hdr p a)); Some (sz_sub w a s) }"

definition MPOOL_GET_RIGHT_BUDDY_OF :: "nat \<Rightarrow> mpool \<Rightarrow> addr \<Rightarrow> addr option" where
  "MPOOL_GET_RIGHT_BUDDY_OF w p a =
     do { s \<leftarrow> shl1 (bn_logsize (mp_hdr p a)); Some (sz_add w a s) }"

section \<open>Creation and destruction\<close>

definition mpool_init ::
  "nat \<Rightarrow> (addr \<Rightarrow> blknode) \<Rightarrow> nat \<Rightarrow> nat \<Rightarrow> cheap \<Rightarrow> ((mpret_t \<times> mpool option) \<times> cheap) option" where
  \<comment> \<open>The second argument is what the pool's memory holds when \<open>malloc\<close> returns it.\<close>
  "mpool_init w g maxlogsize minlogsize h =
     (if maxlogsize > 8 * w then Some ((MPOOL_ERANGE, None), h)
      else if maxlogsize < minlogsize then Some ((MPOOL_EBADVAL, None), h)
      else do {
        smin \<leftarrow> shl1 minlogsize;
        if smin \<le> sizeof_blknode w then Some ((MPOOL_EBADVAL, None), h)
        else case malloc (sizeof_mpool w) h of
          (None, h1) \<Rightarrow> Some ((MPOOL_ENOMEM, None), h1)
        | (Some pm, h1) \<Rightarrow> do {
            smax \<leftarrow> shl1 maxlogsize;
            case malloc smax h1 of
              (None, h2) \<Rightarrow> Some ((MPOOL_ENOMEM, None), cfree (Some pm) h2)
            | (Some mem, h2) \<Rightarrow>
                (let nblocks = maxlogsize - minlogsize + 1 in
                 case malloc (nblocks * sizeof_blkhead w) h2 of
                   (None, h3) \<Rightarrow>
                     Some ((MPOOL_ENOMEM, None), cfree (Some pm) (cfree (Some mem) h3))
                 | (Some tbl, h3) \<Rightarrow> do {
                     blktable \<leftarrow> chain_insert_head 0 mem (replicate nblocks []);
                     Some ((MPOOL_OK, Some
                       \<lparr>mp_addr = pm, mp_mem = mem, mp_nblocks = nblocks,
                        mp_maxlogsize = maxlogsize, mp_minlogsize = minlogsize,
                        mp_nsplits = 0, mp_nmerges = 0, mp_tbladdr = tbl,
                        mp_blktable = blktable,
                        mp_hdr = g(mem := MPOOL_BLOCK_INIT (g mem) (mem + sizeof_blknode w)
                          MPOOL_BLOCK_AVAIL MPOOL_BLOCK_LEFT MPOOL_BLOCK_PARENT maxlogsize)\<rparr>), h3)
                   })
          }
      })"

definition mpool_destroy :: "mpool \<Rightarrow> cheap \<Rightarrow> cheap" where
  "mpool_destroy p h =
     cfree (Some (mp_addr p)) (cfree (Some (mp_mem p)) (cfree (Some (mp_tbladdr p)) h))"

section \<open>Allocation\<close>

fun mpool_find :: "mpool \<Rightarrow> nat \<Rightarrow> nat list \<Rightarrow> addr option \<Rightarrow> addr option option" where
  \<comment> \<open>The loop over the block lists: the last list with a fitting available block wins.\<close>
  "mpool_find p sz [] pavailnode = Some pavailnode"
| "mpool_find p sz (i # is) pavailnode =
     (if length (mp_blktable p) \<le> i then None
      else case mp_blktable p ! i of
        [] \<Rightarrow> mpool_find p sz is pavailnode
      | pnode # _ \<Rightarrow> do {
          s \<leftarrow> shl1 (bn_logsize (mp_hdr p pnode));
          if s \<ge> sz
          then mpool_find p sz is
                 (case List.find (\<lambda>a. MPOOL_IS_AVAIL (mp_hdr p a)) (mp_blktable p ! i) of
                    Some a \<Rightarrow> Some a
                  | None \<Rightarrow> pavailnode)
          else mpool_find p sz is pavailnode
        })"

definition mpool_no_split :: "nat \<Rightarrow> mpool \<Rightarrow> nat \<Rightarrow> addr \<Rightarrow> bool option" where
  \<comment> \<open>The three reasons not to split, evaluated in the order of the \<open>||\<close>.\<close>
  "mpool_no_split w p sz a =
     (let ls = bn_logsize (mp_hdr p a) in
      do { s \<leftarrow> shl1 ls;
           if sz = s then Some True
           else do { s' \<leftarrow> shl1 (sz_sub w ls 1);
                     Some (sz > s' \<or> mp_minlogsize p > sz_sub w ls 1) } })"

definition mpool_split :: "nat \<Rightarrow> mpool \<Rightarrow> addr \<Rightarrow> mpool option" where
  "mpool_split w p a =
     do { tbl1 \<leftarrow> chain_remove a (mp_blktable p);
          let n1 = (mp_hdr p a)\<lparr>bn_logsize := sz_sub w (bn_logsize (mp_hdr p a)) 1\<rparr>;
          let flag = bn_flags n1;
          let n2 = (if MPOOL_IS_RIGHT n1 then MPOOL_MARK_PARENT n1 else MPOOL_MARK_NOTPARENT n1);
          let n3 = MPOOL_MARK_LEFT n2;
          let newpos = sz_sub w (mp_maxlogsize p) (bn_logsize n3);
          tbl2 \<leftarrow> chain_insert_head newpos a tbl1;
          let p1 = (mp_set p a n3)\<lparr>mp_nsplits := sz_add w (mp_nsplits p) 1\<rparr>;
          r \<leftarrow> MPOOL_GET_RIGHT_BUDDY_OF w p1 a;
          let nr = MPOOL_BLOCK_INIT (mp_hdr p1 r) (sz_add w r (sizeof_blknode w))
                     MPOOL_BLOCK_AVAIL MPOOL_BLOCK_RIGHT
                     (if flag AND MPOOL_NODE_PARENT \<noteq> 0 then MPOOL_BLOCK_PARENT else -1)
                     (bn_logsize n3);
          tbl3 \<leftarrow> chain_insert_head newpos r tbl2;
          Some ((mp_set p1 r nr)\<lparr>mp_blktable := tbl3\<rparr>) }"

partial_function (option) mpool_again :: "nat \<Rightarrow> mpool \<Rightarrow> nat \<Rightarrow> addr \<Rightarrow> (addr \<times> mpool) option" where
  \<comment> \<open>The loop from the label \<open>AGAIN\<close>.\<close>
  "mpool_again w p sz a =
     do { stop \<leftarrow> mpool_no_split w p sz a;
          if stop
          then Some (bn_ptr (mp_hdr p a), mp_set p a (MPOOL_MARK_USED (mp_hdr p a)))
          else do { p' \<leftarrow> mpool_split w p a; mpool_again w p' sz a } }"

definition mpool_alloc :: "nat \<Rightarrow> mpool \<Rightarrow> nat \<Rightarrow> (addr option \<times> mpool) option" where
  "mpool_alloc w p blksize =
     (let sz = sz_add w blksize (sizeof_blknode w) in
      do { pavailnode \<leftarrow> mpool_find p sz [0..<mp_nblocks p] None;
           case pavailnode of
             None \<Rightarrow> Some (None, p)
           | Some a \<Rightarrow> do { (r, p') \<leftarrow> mpool_again w p sz a; Some (Some r, p') } })"

declare mpool_again.simps [code]

section \<open>Release\<close>

definition mpool_buddy :: "nat \<Rightarrow> mpool \<Rightarrow> addr \<Rightarrow> addr option option" where
  \<comment> \<open>The address of the possible buddy; \<open>Some None\<close> is \<open>buddy out of pool\<close>.\<close>
  "mpool_buddy w p pnode =
     (if MPOOL_IS_RIGHT (mp_hdr p pnode)
      then do { b \<leftarrow> MPOOL_GET_LEFT_BUDDY_OF w p pnode;
                Some (if b < mp_mem p then None else Some b) }
      else do { b \<leftarrow> MPOOL_GET_RIGHT_BUDDY_OF w p pnode;
                s \<leftarrow> shl1 (mp_maxlogsize p);
                Some (if b > mp_mem p + s - 1 then None else Some b) })"

definition mpool_merged_flags :: "blknode \<Rightarrow> blknode \<Rightarrow> blknode" where
  \<comment> \<open>The flags of the merged block, kept in the left buddy's header.\<close>
  "mpool_merged_flags l r =
     (let l1 = (if MPOOL_IS_PARENT l then MPOOL_MARK_RIGHT l else MPOOL_MARK_LEFT l)
      in (if MPOOL_IS_PARENT r then MPOOL_MARK_PARENT l1 else MPOOL_MARK_NOTPARENT l1))"

definition mpool_coalesce :: "nat \<Rightarrow> mpool \<Rightarrow> addr \<Rightarrow> addr \<Rightarrow> (mpool \<times> addr option) option" where
  \<comment> \<open>The final \<open>else\<close> branch; the address is \<open>pmerged\<close>, where the loop goes on.\<close>
  "mpool_coalesce w p pnode pbuddy =
     (let n = mp_hdr p pnode; nb = mp_hdr p pbuddy;
          p0 = p\<lparr>mp_nmerges := sz_add w (mp_nmerges p) 1\<rparr> in
      do { tbl1 \<leftarrow> chain_remove pnode (mp_blktable p0);
           tbl2 \<leftarrow> chain_remove pbuddy tbl1;
           let p1 = p0\<lparr>mp_blktable := tbl2\<rparr>;
           if \<not> MPOOL_IS_LEFT n \<and> \<not> MPOOL_IS_LEFT nb then Some (p1, None)
           else do {
             let pmerged = (if MPOOL_IS_LEFT n then pnode else pbuddy);
             let m = (if MPOOL_IS_LEFT n then mpool_merged_flags n nb
                      else mpool_merged_flags nb n);
             let m1 = MPOOL_MARK_AVAIL (m\<lparr>bn_logsize := sz_add w (bn_logsize n) 1\<rparr>);
             tbl3 \<leftarrow> chain_insert_head (sz_sub w (mp_maxlogsize p) (bn_logsize m1)) pmerged tbl2;
             Some ((mp_set p1 pmerged m1)\<lparr>mp_blktable := tbl3\<rparr>, Some pmerged)
           } })"

definition mpool_free_step :: "nat \<Rightarrow> mpool \<Rightarrow> addr \<Rightarrow> (mpool \<times> addr option) option" where
  \<comment> \<open>One pass from the label \<open>CHUNK_FOUND\<close>: \<open>None\<close> is \<open>return\<close>, \<open>Some pmerged\<close> the \<open>goto\<close>.\<close>
  "mpool_free_step w p pnode =
     (let n = mp_hdr p pnode in
      if bn_logsize n = mp_maxlogsize p
      then Some (if \<not> MPOOL_IS_AVAIL n then mp_set p pnode (MPOOL_MARK_AVAIL n) else p, None)
      else do {
        b \<leftarrow> mpool_buddy w p pnode;
        case b of
          None \<Rightarrow> Some (p, None)
        | Some pbuddy \<Rightarrow>
            (if bn_logsize (mp_hdr p pbuddy) \<noteq> bn_logsize n \<or> MPOOL_IS_USED (mp_hdr p pbuddy)
             then Some (mp_set p pnode (MPOOL_MARK_AVAIL n), None)
             else mpool_coalesce w p pnode pbuddy)
      })"

partial_function (option) mpool_chunk_found :: "nat \<Rightarrow> mpool \<Rightarrow> addr \<Rightarrow> mpool option" where
  "mpool_chunk_found w p pnode =
     do { (p', nxt) \<leftarrow> mpool_free_step w p pnode;
          case nxt of
            None \<Rightarrow> Some p'
          | Some pmerged \<Rightarrow> mpool_chunk_found w p' pmerged }"

declare mpool_chunk_found.simps [code]

definition mpool_free :: "nat \<Rightarrow> mpool \<Rightarrow> addr \<Rightarrow> mpool option" where
  "mpool_free w p ptr = mpool_chunk_found w p (sz_sub w ptr (sizeof_blknode w))"

text \<open>The build with \<open>MPOOL_OPT_FOR_SECURITY\<close> searches the lists for the block to release.\<close>

definition mpool_search_ptr :: "mpool \<Rightarrow> addr \<Rightarrow> addr option" where
  "mpool_search_ptr p ptr =
     List.find (\<lambda>a. bn_ptr (mp_hdr p a) = ptr) (concat (take (mp_nblocks p) (mp_blktable p)))"

definition mpool_free_secure :: "nat \<Rightarrow> mpool \<Rightarrow> addr \<Rightarrow> mpool option" where
  "mpool_free_secure w p ptr =
     (case mpool_search_ptr p ptr of
        None \<Rightarrow> Some p
      | Some pnode \<Rightarrow> mpool_chunk_found w p pnode)"

end
