(* ===== verification/Buddy_Blocks.thy ===== *)
theory Buddy_Blocks imports Prelude begin

text \<open>
  The geometry of a buddy system, apart from any program: sets of blocks \<open>(off, k)\<close>, each the
  interval of \<open>2 ^ k\<close> bytes at offset \<open>off\<close> of a pool of \<open>2 ^ M\<close> bytes. \<open>buddy_part\<close> says that
  the blocks are aligned, no smaller than \<open>2 ^ m\<close>, and tile the pool. Splitting a block and
  merging two buddies keep it, and the buddy of a block always starts a block.
\<close>

definition covers :: "nat \<times> nat \<Rightarrow> nat \<Rightarrow> bool" where
  "covers b x \<longleftrightarrow> fst b \<le> x \<and> x < fst b + 2 ^ snd b"

definition blk_wf :: "nat \<Rightarrow> nat \<Rightarrow> nat \<times> nat \<Rightarrow> bool" where
  "blk_wf M m b \<longleftrightarrow> m \<le> snd b \<and> snd b \<le> M \<and> 2 ^ snd b dvd fst b \<and> fst b + 2 ^ snd b \<le> 2 ^ M"

definition buddy_part :: "nat \<Rightarrow> nat \<Rightarrow> (nat \<times> nat) set \<Rightarrow> bool" where
  "buddy_part M m B \<longleftrightarrow>
     (\<forall>b\<in>B. blk_wf M m b) \<and> (\<forall>x<2 ^ M. \<exists>!b. b \<in> B \<and> covers b x)"

definition buddy_off :: "nat \<Rightarrow> nat \<Rightarrow> nat" where
  "buddy_off off k = (if even (off div 2 ^ k) then off + 2 ^ k else off - 2 ^ k)"

lemma covers_self [simp]: "covers (off, k) off"
  by (simp add: covers_def)

lemma covers_div: "2 ^ k dvd off \<Longrightarrow> covers (off, k) x \<longleftrightarrow> x div 2 ^ k = off div 2 ^ k"
proof -
  assume "2 ^ k dvd off"
  then obtain q where q: "off = q * 2 ^ k" by (metis dvdE mult.commute)
  have "x div 2 ^ k = q \<longleftrightarrow> q * 2 ^ k \<le> x \<and> x < Suc q * 2 ^ k"
    by (metis Suc_eq_plus1 div_less_iff_less_mult less_Suc_eq_le less_eq_div_iff_mult_less_eq
        nle_le order_antisym_conv zero_less_numeral zero_less_power)
  then show ?thesis by (auto simp: covers_def q)
qed

lemma buddy_partD: "buddy_part M m B \<Longrightarrow> b \<in> B \<Longrightarrow> blk_wf M m b"
  by (simp add: buddy_part_def)

lemma buddy_part_unique:
  "buddy_part M m B \<Longrightarrow> b \<in> B \<Longrightarrow> c \<in> B \<Longrightarrow> covers b x \<Longrightarrow> covers c x \<Longrightarrow> b = c"
proof -
  assume p: "buddy_part M m B" and bc: "b \<in> B" "c \<in> B" "covers b x" "covers c x"
  from buddy_partD [OF p bc(1)] bc(3) have "x < 2 ^ M" by (auto simp: blk_wf_def covers_def)
  with p bc show "b = c" unfolding buddy_part_def by blast
qed

lemma buddy_part_cover: "buddy_part M m B \<Longrightarrow> x < 2 ^ M \<Longrightarrow> \<exists>b\<in>B. covers b x"
  unfolding buddy_part_def by blast

lemma buddy_part_same_off:
  "buddy_part M m B \<Longrightarrow> (off, k) \<in> B \<Longrightarrow> (off, k') \<in> B \<Longrightarrow> k = k'"
  using buddy_part_unique [of M m B "(off, k)" "(off, k')" off] by simp

lemma buddy_part_finite: "buddy_part M m B \<Longrightarrow> finite B"
proof (rule finite_subset)
  assume p: "buddy_part M m B"
  show "B \<subseteq> {..2 ^ M} \<times> {..M}"
    using buddy_partD [OF p] by (auto simp: blk_wf_def) (metis add_leE)
qed simp

text \<open>Replacing some blocks by others that tile the same points keeps the partition.\<close>

lemma buddy_part_replace:
  assumes p: "buddy_part M m B" and sub: "Old \<subseteq> B" and wf: "\<forall>b\<in>New. blk_wf M m b"
    and old: "\<And>b x. b \<in> Old \<Longrightarrow> covers b x \<Longrightarrow> \<exists>!c. c \<in> New \<and> covers c x"
    and new: "\<And>c x. c \<in> New \<Longrightarrow> covers c x \<Longrightarrow> \<exists>b\<in>Old. covers b x"
  shows "buddy_part M m (B - Old \<union> New)"
  unfolding buddy_part_def
proof (intro conjI allI impI)
  show "\<forall>b\<in>B - Old \<union> New. blk_wf M m b" using wf buddy_partD [OF p] by blast
  fix x :: nat
  assume x: "x < 2 ^ M"
  obtain b where b: "b \<in> B" "covers b x" using buddy_part_cover [OF p x] by blast
  have uniq: "c = b" if "c \<in> B" "covers c x" for c
    using buddy_part_unique [OF p that(1) b(1) that(2) b(2)] .
  show "\<exists>!c. c \<in> B - Old \<union> New \<and> covers c x"
  proof (cases "b \<in> Old")
    case True
    from old [OF this b(2)] obtain c where "c \<in> New" "covers c x"
      and "\<And>d. d \<in> New \<Longrightarrow> covers d x \<Longrightarrow> d = c" by blast
    with True uniq show ?thesis by (intro ex1I [of _ c]) blast+
  next
    case False
    have "\<not> covers c x" if "c \<in> New" for c
    proof
      assume "covers c x"
      from new [OF that this] obtain d where "d \<in> Old" "covers d x" by blast
      with sub uniq False show False by blast
    qed
    with False b uniq show ?thesis by (intro ex1I [of _ b]) blast+
  qed
qed

lemma buddy_part_split:
  assumes p: "buddy_part M m B" and b: "(off, Suc k) \<in> B" and m: "m \<le> k"
  shows "buddy_part M m (B - {(off, Suc k)} \<union> {(off, k), (off + 2 ^ k, k)})"
proof (rule buddy_part_replace [OF p])
  have w: "blk_wf M m (off, Suc k)" by (rule buddy_partD [OF p b])
  have d: "2 ^ k dvd off" using w by (auto simp: blk_wf_def intro: dvd_trans [rotated] le_imp_power_dvd)
  show "\<forall>b\<in>{(off, k), (off + 2 ^ k, k)}. blk_wf M m b"
    using w m d by (auto simp: blk_wf_def)
  show "\<And>b x. b \<in> {(off, Suc k)} \<Longrightarrow> covers b x \<Longrightarrow>
      \<exists>!c. c \<in> {(off, k), (off + 2 ^ k, k)} \<and> covers c x"
    subgoal for b x
      by (cases "x < off + 2 ^ k")
        (auto simp: covers_def intro: ex1I [of _ "(off, k)"] ex1I [of _ "(off + 2 ^ k, k)"])
    done
  show "\<And>c x. c \<in> {(off, k), (off + 2 ^ k, k)} \<Longrightarrow> covers c x \<Longrightarrow> \<exists>b\<in>{(off, Suc k)}. covers b x"
    by (auto simp: covers_def)
qed (use b in simp)

lemma buddy_part_merge:
  assumes p: "buddy_part M m B" and l: "(off, k) \<in> B" and r: "(off + 2 ^ k, k) \<in> B"
    and d: "2 ^ Suc k dvd off"
  shows "buddy_part M m (B - {(off, k), (off + 2 ^ k, k)} \<union> {(off, Suc k)})"
proof (rule buddy_part_replace [OF p])
  have w: "blk_wf M m (off, k)" "blk_wf M m (off + 2 ^ k, k)"
    by (rule buddy_partD [OF p l], rule buddy_partD [OF p r])
  have "(2::nat) ^ Suc k \<le> 2 ^ M" using w by (simp add: blk_wf_def)
  then have "Suc k \<le> M" by (metis one_less_numeral_iff power_le_imp_le_exp semiring_norm(76))
  with w d show "\<forall>b\<in>{(off, Suc k)}. blk_wf M m b" by (auto simp: blk_wf_def)
qed (use l r in \<open>auto simp: covers_def\<close>)

lemma buddy_off_div: "2 ^ k dvd off \<Longrightarrow> buddy_off off k div 2 ^ Suc k = off div 2 ^ Suc k"
proof -
  assume "2 ^ k dvd off"
  then obtain q where q: "off = 2 ^ k * q" by (elim dvdE)
  have half: "(2 ^ k * n) div 2 ^ Suc k = n div 2" for n :: nat
    by (simp add: mult.commute [of 2])
  show ?thesis
  proof (cases "even q")
    case True
    then have "buddy_off off k = 2 ^ k * Suc q" by (simp add: buddy_off_def q)
    with True show ?thesis by (simp only: half q) simp
  next
    case False
    then have "buddy_off off k = 2 ^ k * (q - 1)" by (simp add: buddy_off_def q algebra_simps)
    with False show ?thesis by (simp only: half q) (auto elim: oddE)
  qed
qed

lemma buddy_off_wf:
  assumes w: "blk_wf M m (off, k)" and k: "k < M"
  shows "blk_wf M m (buddy_off off k, k)"
proof -
  from w have "2 ^ k dvd off" by (simp add: blk_wf_def)
  then obtain q where q: "off = 2 ^ k * q" by (elim dvdE)
  from k obtain j where M: "M = k + Suc j" by (metis less_imp_Suc_add add_Suc_right)
  have "2 ^ k * (q + 1) \<le> 2 ^ k * 2 ^ Suc j"
    using w unfolding blk_wf_def q M power_add by (simp only: fst_conv snd_conv distrib_left mult_1_right)
  then have "q + 1 \<le> 2 ^ Suc j" by (simp only: nat_mult_le_cancel1 zero_less_power zero_less_numeral)
  then have "even q \<Longrightarrow> q + 2 \<le> 2 ^ Suc j" by (elim evenE) (simp, presburger)
  then have "even q \<Longrightarrow> 2 ^ k * (q + 2) \<le> 2 ^ M"
    unfolding M power_add by (intro mult_le_mono2) simp
  with w q show ?thesis
    by (auto simp: blk_wf_def buddy_off_def algebra_simps elim!: oddE)
qed

text \<open>The buddy of a block starts a block, of at most the same size.\<close>

lemma buddy_part_buddy:
  assumes p: "buddy_part M m B" and b: "(off, k) \<in> B" and k: "k < M"
  shows "\<exists>k'\<le>k. (buddy_off off k, k') \<in> B"
proof -
  let ?b = "buddy_off off k"
  have w: "blk_wf M m (off, k)" by (rule buddy_partD [OF p b])
  then have d: "2 ^ k dvd off" by (simp add: blk_wf_def)
  have wb: "blk_wf M m (?b, k)" by (rule buddy_off_wf [OF w k])
  then have "?b < 2 ^ M" by (auto simp: blk_wf_def intro: less_le_trans [rotated])
  from buddy_part_cover [OF p this] obtain o' k' where
    c: "(o', k') \<in> B" "covers (o', k') ?b" by auto
  have d': "2 ^ k' dvd o'" using buddy_partD [OF p c(1)] by (simp add: blk_wf_def)
  have cov: "?b div 2 ^ k' = o' div 2 ^ k'" using c(2) covers_div [OF d'] by simp
  show ?thesis
  proof (cases "k' \<le> k")
    case True
    have "2 ^ k' dvd ?b" using wb True by (auto simp: blk_wf_def intro: dvd_trans le_imp_power_dvd)
    with cov d' have "?b = o'" by (metis dvd_div_eq_cancel power_not_zero zero_neq_numeral)
    with c True show ?thesis by auto
  next
    case False
    then obtain j where j: "k' = Suc k + j" by (metis not_le less_iff_Suc_add add_Suc_right add_Suc)
    have "off div 2 ^ k' = off div 2 ^ Suc k div 2 ^ j"
      by (simp only: j power_add div_mult2_eq)
    also have "\<dots> = ?b div 2 ^ Suc k div 2 ^ j" by (simp only: buddy_off_div [OF d])
    also have "\<dots> = ?b div 2 ^ k'" by (simp only: j power_add div_mult2_eq)
    finally have "covers (o', k') off" using cov covers_div [OF d'] by simp
    from buddy_part_unique [OF p c(1) b this covers_self] have "k' = k" by simp
    with False show ?thesis by simp
  qed
qed

lemma buddy_off_neq: "buddy_off off k \<noteq> off"
proof (cases "even (off div 2 ^ k)")
  case False
  then have "2 ^ k \<le> off" by (metis div_less dvd_0_right not_le)
  with False show ?thesis by (simp add: buddy_off_def) (metis diff_less less_irrefl less_le_trans
    zero_less_numeral zero_less_power)
qed (simp add: buddy_off_def)

text \<open>A tiling without a pair of equal-sized buddies is one block.\<close>

lemma buddy_part_single:
  assumes p: "buddy_part M m B"
    and no: "\<And>off k. (off, k) \<in> B \<Longrightarrow> k < M \<Longrightarrow> (buddy_off off k, k) \<notin> B"
  shows "B = {(0, M)}"
proof -
  have fin: "finite (snd ` B)" using buddy_part_finite [OF p] by simp
  obtain b0 where b0: "b0 \<in> B" using buddy_part_cover [OF p, of 0] by auto
  define k where "k = Min (snd ` B)"
  have "k \<in> snd ` B" unfolding k_def using fin b0 by (intro Min_in) auto
  then obtain off where b: "(off, k) \<in> B" by auto
  have "k = M"
  proof (rule ccontr)
    assume "k \<noteq> M"
    with buddy_partD [OF p b] have "k < M" by (simp add: blk_wf_def)
    from buddy_part_buddy [OF p b this] obtain k' where k': "k' \<le> k" "(buddy_off off k, k') \<in> B"
      by blast
    have "k \<le> k'" unfolding k_def using fin k'(2) by (intro Min_le) force+
    with k' no [OF b \<open>k < M\<close>] show False by simp
  qed
  with buddy_partD [OF p b] have "off + 2 ^ M \<le> 2 ^ M" by (simp add: blk_wf_def)
  then have off: "off = 0" by simp
  have root: "(0, M) \<in> B" using b unfolding off \<open>k = M\<close> .
  have "c = (0, M)" if c: "c \<in> B" for c
  proof (rule buddy_part_unique [OF p c root])
    show "covers c (fst c)" by (simp add: covers_def)
    have "fst c + 2 ^ snd c \<le> 2 ^ M" using buddy_partD [OF p c] by (simp add: blk_wf_def)
    moreover have "(0::nat) < 2 ^ snd c" by simp
    ultimately show "covers (0, M) (fst c)" unfolding covers_def fst_conv snd_conv by linarith
  qed
  with root show ?thesis by blast
qed

text \<open>The sizes of a tiling add up to the pool.\<close>

lemma buddy_part_sum: "buddy_part M m B \<Longrightarrow> (\<Sum>b\<in>B. 2 ^ snd b) = (2 ^ M :: nat)"
proof -
  assume p: "buddy_part M m B"
  let ?I = "\<lambda>b :: nat \<times> nat. {x. covers b x}"
  have I: "?I b = {fst b..<fst b + 2 ^ snd b}" for b by (auto simp: covers_def)
  have U: "(\<Union>b\<in>B. ?I b) = {..<2 ^ M}"
  proof (intro equalityI subsetI)
    fix x assume "x \<in> (\<Union>b\<in>B. ?I b)"
    then show "x \<in> {..<2 ^ M}" using buddy_partD [OF p] by (fastforce simp: covers_def blk_wf_def)
  next
    fix x assume "x \<in> {..<2 ^ M :: nat}"
    then show "x \<in> (\<Union>b\<in>B. ?I b)" using buddy_part_cover [OF p, of x] by auto
  qed
  have "card (\<Union>b\<in>B. ?I b) = (\<Sum>b\<in>B. card (?I b))"
  proof (intro card_UN_disjoint buddy_part_finite [OF p] ballI impI)
    show "finite {x. covers b x}" for b unfolding I by simp
    show "{x. covers b x} \<inter> {x. covers c x} = {}" if "b \<in> B" "c \<in> B" "b \<noteq> c" for b c
      using buddy_part_unique [OF p that(1,2)] that(3) by blast
  qed
  then show ?thesis unfolding U by (simp add: I)
qed

end
