(* ===== verification/Mpool_Inv.thy ===== *)
theory Mpool_Inv imports Mpool Buddy_Blocks begin

text \<open>
  The invariant of the buddy allocator and what splitting and coalescing do to it.
  \<open>pool_inv\<close> ties the block lists, the headers in the pool's memory and the geometry of
  \<open>Buddy_Blocks\<close> together; \<open>abs_pool\<close> is the abstract state: the set of blocks with their
  offset, the logarithm of their size and whether they are available.
\<close>

unbundle bit_operations_syntax

section \<open>Flags as bits\<close>

named_theorems flag_simps \<open>what the flag macros of mpool.h do to each flag\<close>

lemma IS_AVAIL_bit: "MPOOL_IS_AVAIL n \<longleftrightarrow> bit (bn_flags n) 0"
  using and_exp_eq_0_iff_not_bit [of "bn_flags n" 0]
  by (simp add: MPOOL_IS_AVAIL_def MPOOL_NODE_AVAIL_def)

lemma IS_USED_iff [flag_simps]: "MPOOL_IS_USED n \<longleftrightarrow> \<not> MPOOL_IS_AVAIL n"
  by (simp add: MPOOL_IS_AVAIL_def MPOOL_IS_USED_def)

lemma IS_RIGHT_bit: "MPOOL_IS_RIGHT n \<longleftrightarrow> bit (bn_flags n) 1"
  using and_exp_eq_0_iff_not_bit [of "bn_flags n" 1]
  by (simp add: MPOOL_IS_RIGHT_def MPOOL_NODE_LR_def)

lemma IS_LEFT_iff [flag_simps]: "MPOOL_IS_LEFT n \<longleftrightarrow> \<not> MPOOL_IS_RIGHT n"
  by (simp add: MPOOL_IS_LEFT_def MPOOL_IS_RIGHT_def)

lemma flag_PARENT_bit: "x AND MPOOL_NODE_PARENT \<noteq> 0 \<longleftrightarrow> bit x 2"
  using and_exp_eq_0_iff_not_bit [of x 2] by (simp add: MPOOL_NODE_PARENT_def push_bit_eq_mult)

lemma IS_PARENT_bit: "MPOOL_IS_PARENT n \<longleftrightarrow> bit (bn_flags n) 2"
  by (simp only: MPOOL_IS_PARENT_def flag_PARENT_bit)

lemmas flag_bits = IS_AVAIL_bit IS_RIGHT_bit IS_PARENT_bit
lemmas mark_defs = MPOOL_MARK_AVAIL_def MPOOL_MARK_USED_def MPOOL_MARK_LEFT_def
  MPOOL_MARK_RIGHT_def MPOOL_MARK_PARENT_def MPOOL_MARK_NOTPARENT_def
lemmas node_flag_defs = MPOOL_NODE_AVAIL_def MPOOL_NODE_LR_def MPOOL_NODE_PARENT_def

lemma mark_avail [flag_simps]:
  "MPOOL_IS_AVAIL (MPOOL_MARK_AVAIL n)" "\<not> MPOOL_IS_AVAIL (MPOOL_MARK_USED n)"
  "MPOOL_IS_AVAIL (MPOOL_MARK_LEFT n) = MPOOL_IS_AVAIL n"
  "MPOOL_IS_AVAIL (MPOOL_MARK_RIGHT n) = MPOOL_IS_AVAIL n"
  "MPOOL_IS_AVAIL (MPOOL_MARK_PARENT n) = MPOOL_IS_AVAIL n"
  "MPOOL_IS_AVAIL (MPOOL_MARK_NOTPARENT n) = MPOOL_IS_AVAIL n"
  by (simp_all add: flag_bits mark_defs node_flag_defs bit_simps)

lemma mark_right [flag_simps]:
  "MPOOL_IS_RIGHT (MPOOL_MARK_RIGHT n)" "\<not> MPOOL_IS_RIGHT (MPOOL_MARK_LEFT n)"
  "MPOOL_IS_RIGHT (MPOOL_MARK_AVAIL n) = MPOOL_IS_RIGHT n"
  "MPOOL_IS_RIGHT (MPOOL_MARK_USED n) = MPOOL_IS_RIGHT n"
  "MPOOL_IS_RIGHT (MPOOL_MARK_PARENT n) = MPOOL_IS_RIGHT n"
  "MPOOL_IS_RIGHT (MPOOL_MARK_NOTPARENT n) = MPOOL_IS_RIGHT n"
  by (simp_all add: flag_bits mark_defs node_flag_defs bit_simps)

lemma mark_parent [flag_simps]:
  "MPOOL_IS_PARENT (MPOOL_MARK_PARENT n)" "\<not> MPOOL_IS_PARENT (MPOOL_MARK_NOTPARENT n)"
  "MPOOL_IS_PARENT (MPOOL_MARK_AVAIL n) = MPOOL_IS_PARENT n"
  "MPOOL_IS_PARENT (MPOOL_MARK_USED n) = MPOOL_IS_PARENT n"
  "MPOOL_IS_PARENT (MPOOL_MARK_LEFT n) = MPOOL_IS_PARENT n"
  "MPOOL_IS_PARENT (MPOOL_MARK_RIGHT n) = MPOOL_IS_PARENT n"
  by (simp_all add: flag_bits mark_defs node_flag_defs bit_simps)

lemma mark_fields [flag_simps]:
  "bn_logsize (MPOOL_MARK_AVAIL n) = bn_logsize n" "bn_ptr (MPOOL_MARK_AVAIL n) = bn_ptr n"
  "bn_logsize (MPOOL_MARK_USED n) = bn_logsize n" "bn_ptr (MPOOL_MARK_USED n) = bn_ptr n"
  "bn_logsize (MPOOL_MARK_LEFT n) = bn_logsize n" "bn_ptr (MPOOL_MARK_LEFT n) = bn_ptr n"
  "bn_logsize (MPOOL_MARK_RIGHT n) = bn_logsize n" "bn_ptr (MPOOL_MARK_RIGHT n) = bn_ptr n"
  "bn_logsize (MPOOL_MARK_PARENT n) = bn_logsize n" "bn_ptr (MPOOL_MARK_PARENT n) = bn_ptr n"
  "bn_logsize (MPOOL_MARK_NOTPARENT n) = bn_logsize n" "bn_ptr (MPOOL_MARK_NOTPARENT n) = bn_ptr n"
  by (simp_all add: mark_defs)

lemma flags_upd [flag_simps]:
  "MPOOL_IS_AVAIL (n\<lparr>bn_logsize := k\<rparr>) = MPOOL_IS_AVAIL n"
  "MPOOL_IS_RIGHT (n\<lparr>bn_logsize := k\<rparr>) = MPOOL_IS_RIGHT n"
  "MPOOL_IS_PARENT (n\<lparr>bn_logsize := k\<rparr>) = MPOOL_IS_PARENT n"
  by (simp_all add: flag_bits)

lemma BLOCK_INIT_fields [flag_simps]:
  "bn_logsize (MPOOL_BLOCK_INIT n p a l q k) = k"
  "bn_ptr (MPOOL_BLOCK_INIT n p a l q k) = p"
  "MPOOL_IS_AVAIL (MPOOL_BLOCK_INIT n p a l q k) \<longleftrightarrow> a = MPOOL_BLOCK_AVAIL"
  "MPOOL_IS_RIGHT (MPOOL_BLOCK_INIT n p a l q k) \<longleftrightarrow> l = MPOOL_BLOCK_RIGHT"
  "MPOOL_IS_PARENT (MPOOL_BLOCK_INIT n p a l q k) \<longleftrightarrow> q = MPOOL_BLOCK_PARENT"
  by (simp_all add: MPOOL_BLOCK_INIT_def Let_def flag_simps)

section \<open>The invariant\<close>

function par_of :: "nat \<Rightarrow> nat \<Rightarrow> nat \<Rightarrow> bool" where
  \<comment> \<open>The \<open>PARENT\<close> flag of a block: a left block keeps its parent's side there, a right block
      its parent's \<open>PARENT\<close> flag.\<close>
  "par_of M off k =
     (if M \<le> k then True
      else if odd (off div 2 ^ k) then par_of M (off - 2 ^ k) (Suc k)
      else odd (off div 2 ^ Suc k))"
  by pat_completeness auto
termination
  by (relation "measure (\<lambda>(M, off, k). M - k)") auto

declare par_of.simps [simp del]

definition live :: "mpool \<Rightarrow> addr list" where
  "live p = concat (mp_blktable p)"

definition ls_of :: "mpool \<Rightarrow> addr \<Rightarrow> nat" where
  "ls_of p a = bn_logsize (mp_hdr p a)"

definition blk_of :: "mpool \<Rightarrow> addr \<Rightarrow> nat \<times> nat" where
  "blk_of p a = (a - mp_mem p, ls_of p a)"

definition hdr_ok :: "nat \<Rightarrow> mpool \<Rightarrow> addr \<Rightarrow> bool" where
  "hdr_ok w p a \<longleftrightarrow>
     mp_mem p \<le> a \<and> bn_ptr (mp_hdr p a) = a + sizeof_blknode w \<and>
     MPOOL_IS_RIGHT (mp_hdr p a) = odd ((a - mp_mem p) div 2 ^ ls_of p a) \<and>
     MPOOL_IS_PARENT (mp_hdr p a) = par_of (mp_maxlogsize p) (a - mp_mem p) (ls_of p a)"

definition pool_dims :: "nat \<Rightarrow> mpool \<Rightarrow> bool" where
  "pool_dims w p \<longleftrightarrow>
     0 < w \<and> mp_maxlogsize p < 31 \<and> mp_minlogsize p \<le> mp_maxlogsize p \<and>
     mp_nblocks p = mp_maxlogsize p - mp_minlogsize p + 1 \<and>
     length (mp_blktable p) = mp_nblocks p \<and>
     sizeof_blknode w < 2 ^ mp_minlogsize p \<and>
     0 < mp_mem p \<and> mp_mem p + 2 ^ mp_maxlogsize p \<le> size_mod w"

definition lists_ok :: "mpool \<Rightarrow> bool" where
  "lists_ok p \<longleftrightarrow>
     distinct (live p) \<and>
     (\<forall>i<length (mp_blktable p). \<forall>a\<in>set (mp_blktable p ! i). ls_of p a = mp_maxlogsize p - i)"

definition pool_inv :: "nat \<Rightarrow> mpool \<Rightarrow> bool" where
  "pool_inv w p \<longleftrightarrow>
     pool_dims w p \<and> lists_ok p \<and> (\<forall>a\<in>set (live p). hdr_ok w p a) \<and>
     buddy_part (mp_maxlogsize p) (mp_minlogsize p) (blk_of p ` set (live p))"

definition abs_blk :: "mpool \<Rightarrow> addr \<Rightarrow> nat \<times> nat \<times> bool" where
  "abs_blk p a = (a - mp_mem p, ls_of p a, MPOOL_IS_AVAIL (mp_hdr p a))"

definition abs_pool :: "mpool \<Rightarrow> (nat \<times> nat \<times> bool) set" where
  "abs_pool p = abs_blk p ` set (live p)"

lemma pool_invD:
  assumes "pool_inv w p"
  shows "pool_dims w p" "lists_ok p" "distinct (live p)"
    "buddy_part (mp_maxlogsize p) (mp_minlogsize p) (blk_of p ` set (live p))"
    "\<And>a. a \<in> set (live p) \<Longrightarrow> hdr_ok w p a"
    "\<And>a. a \<in> set (live p) \<Longrightarrow> mp_mem p \<le> a"
    "\<And>i a. i < length (mp_blktable p) \<Longrightarrow> a \<in> set (mp_blktable p ! i) \<Longrightarrow>
       ls_of p a = mp_maxlogsize p - i"
  using assms by (auto simp: pool_inv_def lists_ok_def hdr_ok_def)

lemma pool_inv_blk:
  assumes "pool_inv w p" "a \<in> set (live p)"
  shows "blk_wf (mp_maxlogsize p) (mp_minlogsize p) (blk_of p a)"
    and "mp_minlogsize p \<le> ls_of p a" and "ls_of p a \<le> mp_maxlogsize p" and "ls_of p a < 31"
    and "2 ^ ls_of p a dvd a - mp_mem p"
    and "a + 2 ^ ls_of p a \<le> mp_mem p + 2 ^ mp_maxlogsize p"
proof -
  show b: "blk_wf (mp_maxlogsize p) (mp_minlogsize p) (blk_of p a)"
    using buddy_partD [OF pool_invD(4) [OF assms(1)]] assms(2) by blast
  then show "mp_minlogsize p \<le> ls_of p a" "ls_of p a \<le> mp_maxlogsize p" "2 ^ ls_of p a dvd a - mp_mem p"
    by (auto simp: blk_wf_def blk_of_def)
  then show "ls_of p a < 31" using pool_invD(1) [OF assms(1)] by (simp add: pool_dims_def)
  show "a + 2 ^ ls_of p a \<le> mp_mem p + 2 ^ mp_maxlogsize p"
    using b pool_invD(6) [OF assms] unfolding blk_wf_def blk_of_def fst_conv snd_conv by linarith
qed

text \<open>Two live headers at offsets that one block covers are the same header.\<close>

lemma live_covers_eq:
  assumes "pool_inv w p" "a \<in> set (live p)" "b \<in> set (live p)"
    and "covers (blk_of p a) x" "covers (blk_of p b) x"
  shows "a = b"
proof -
  have "blk_of p a = blk_of p b"
    using buddy_part_unique [OF pool_invD(4) [OF assms(1)] _ _ assms(4,5)] assms(2,3) by blast
  then have "a - mp_mem p = b - mp_mem p" by (simp add: blk_of_def)
  with pool_invD(6) [OF assms(1,2)] pool_invD(6) [OF assms(1,3)] show ?thesis by linarith
qed

lemma live_same_off:
  "pool_inv w p \<Longrightarrow> a \<in> set (live p) \<Longrightarrow> b \<in> set (live p) \<Longrightarrow>
    a - mp_mem p = b - mp_mem p \<Longrightarrow> a = b"
  by (metis eq_diff_iff pool_invD(6))

text \<open>Block size 31 and more never occurs, so no shift is undefined and no sum wraps.\<close>

lemma size_mod_ge: "0 < w \<Longrightarrow> 256 \<le> size_mod w"
proof -
  assume "0 < w"
  then have "(2::nat) ^ 8 \<le> 2 ^ (8 * w)" by (intro power_increasing) auto
  then show ?thesis by (simp add: size_mod_def)
qed

lemma small_less_size_mod: "0 < w \<Longrightarrow> n < 256 \<Longrightarrow> n < size_mod w"
  using size_mod_ge by (meson less_le_trans)

lemma sz_sub_logsize: "0 < w \<Longrightarrow> k \<le> n \<Longrightarrow> n < 31 \<Longrightarrow> sz_sub w n k = n - k"
  by (intro sz_sub_small small_less_size_mod) auto

lemma sz_add_logsize: "0 < w \<Longrightarrow> n < 31 \<Longrightarrow> sz_add w n 1 = Suc n"
  by (simp add: sz_add_small small_less_size_mod)

section \<open>Replacing blocks\<close>

text \<open>
  Both splitting and coalescing take some blocks off their lists and put others at the head
  of one list. \<open>Old\<close> are the former, \<open>New\<close> the latter, which all go to list \<open>np\<close>.
\<close>

definition same_pool :: "mpool \<Rightarrow> mpool \<Rightarrow> bool" where
  "same_pool p p' \<longleftrightarrow>
     mp_addr p' = mp_addr p \<and> mp_mem p' = mp_mem p \<and> mp_nblocks p' = mp_nblocks p \<and>
     mp_maxlogsize p' = mp_maxlogsize p \<and> mp_minlogsize p' = mp_minlogsize p \<and>
     mp_tbladdr p' = mp_tbladdr p \<and> length (mp_blktable p') = length (mp_blktable p)"

lemma same_pool_refl [simp]: "same_pool p p"
  by (simp add: same_pool_def)

lemma same_pool_trans: "same_pool p q \<Longrightarrow> same_pool q r \<Longrightarrow> same_pool p r"
  by (simp add: same_pool_def)

lemma same_pool_dims: "same_pool p p' \<Longrightarrow> pool_dims w p' = pool_dims w p"
  by (simp add: same_pool_def pool_dims_def)

lemma abs_blk_inj: "pool_inv w p \<Longrightarrow> inj_on (abs_blk p) (set (live p))"
  by (intro inj_onI) (auto simp: abs_blk_def dest: live_same_off)

definition replaces :: "nat \<Rightarrow> mpool \<Rightarrow> mpool \<Rightarrow> addr set \<Rightarrow> addr list \<Rightarrow> nat \<Rightarrow> bool" where
  "replaces w p p' Old New np \<longleftrightarrow>
     pool_inv w p \<and> same_pool p p' \<and> np < length (mp_blktable p) \<and>
     mp_blktable p' = (map (filter (\<lambda>x. x \<notin> Old)) (mp_blktable p))
       [np := New @ filter (\<lambda>x. x \<notin> Old) (mp_blktable p ! np)] \<and>
     Old \<subseteq> set (live p) \<and> distinct New \<and> set New \<inter> (set (live p) - Old) = {} \<and>
     (\<forall>b \<in> set (live p) - Old. mp_hdr p' b = mp_hdr p b) \<and>
     (\<forall>b \<in> set New. hdr_ok w p' b \<and> ls_of p' b = mp_maxlogsize p - np) \<and>
     buddy_part (mp_maxlogsize p) (mp_minlogsize p)
       (blk_of p ` (set (live p) - Old) \<union> blk_of p' ` set New)"

lemma replacesD:
  assumes "replaces w p p' Old New np"
  shows "pool_inv w p" "same_pool p p'" "np < length (mp_blktable p)"
    "mp_blktable p' = (map (filter (\<lambda>x. x \<notin> Old)) (mp_blktable p))
       [np := New @ filter (\<lambda>x. x \<notin> Old) (mp_blktable p ! np)]"
    "Old \<subseteq> set (live p)" "distinct New" "set New \<inter> (set (live p) - Old) = {}"
    "\<And>b. b \<in> set (live p) - Old \<Longrightarrow> mp_hdr p' b = mp_hdr p b"
    "\<And>b. b \<in> set New \<Longrightarrow> hdr_ok w p' b \<and> ls_of p' b = mp_maxlogsize p - np"
    "buddy_part (mp_maxlogsize p) (mp_minlogsize p)
       (blk_of p ` (set (live p) - Old) \<union> blk_of p' ` set New)"
  using assms by (auto simp: replaces_def)

lemma repl_live_set:
  assumes r: "replaces w p p' Old New np"
  shows "set (live p') = (set (live p) - Old) \<union> set New"
proof -
  have "set (live p') = set New \<union> set (concat (map (filter (\<lambda>x. x \<notin> Old)) (mp_blktable p)))"
    unfolding live_def replacesD(4) [OF r]
    using set_concat_update_append [of np "map (filter (\<lambda>x. x \<notin> Old)) (mp_blktable p)" New] replacesD(3) [OF r] by simp
  then show ?thesis by (auto simp: live_def)
qed

lemma repl_distinct:
  assumes r: "replaces w p p' Old New np"
  shows "distinct (live p')"
proof -
  have "distinct (live p') \<longleftrightarrow> distinct New \<and>
      distinct (filter (\<lambda>x. x \<notin> Old) (live p)) \<and> set New \<inter> set (filter (\<lambda>x. x \<notin> Old) (live p)) = {}"
    unfolding live_def replacesD(4) [OF r]
    using distinct_concat_update_append [of np "map (filter (\<lambda>x. x \<notin> Old)) (mp_blktable p)" New] replacesD(3) [OF r]
    by (simp only: concat_map_filter length_map nth_map)
  with replacesD(6,7) [OF r] pool_invD(3) [OF replacesD(1) [OF r]] show ?thesis by auto
qed

lemma repl_frame:
  assumes r: "replaces w p p' Old New np" and b: "b \<in> set (live p) - Old"
  shows "ls_of p' b = ls_of p b \<and> blk_of p' b = blk_of p b \<and> abs_blk p' b = abs_blk p b \<and> hdr_ok w p' b"
  using replacesD(8) [OF r b] replacesD(2) [OF r] replacesD(5) [OF r] b pool_invD(5) [OF replacesD(1) [OF r], of b]
  by (simp add: ls_of_def blk_of_def abs_blk_def hdr_ok_def same_pool_def)

lemma repl_lists_ok:
  assumes r: "replaces w p p' Old New np"
  shows "lists_ok p'"
  unfolding lists_ok_def
proof (intro conjI allI ballI impI repl_distinct [OF r])
  fix i a
  assume i: "i < length (mp_blktable p')" and a: "a \<in> set (mp_blktable p' ! i)"
  have i': "i < length (mp_blktable p)" and mx: "mp_maxlogsize p' = mp_maxlogsize p"
    using i replacesD(2) [OF r] by (simp_all add: same_pool_def)
  show "ls_of p' a = mp_maxlogsize p' - i"
  proof (cases "i = np \<and> a \<in> set New")
    case True
    with replacesD(9) [OF r] mx show ?thesis by simp
  next
    case False
    with a i' replacesD(3) [OF r] have mem: "a \<in> set (mp_blktable p ! i)" "a \<notin> Old"
      by (auto simp: replacesD(4) [OF r] nth_list_update split: if_splits)
    then have "a \<in> set (live p) - Old" using i' by (auto simp: live_def)
    with repl_frame [OF r] pool_invD(7) [OF replacesD(1) [OF r] i' mem(1)] mx show ?thesis by simp
  qed
qed

lemma repl_inv:
  assumes r: "replaces w p p' Old New np"
  shows "pool_inv w p'"
  unfolding pool_inv_def
proof (intro conjI ballI repl_lists_ok [OF r])
  show "pool_dims w p'" using pool_invD(1) [OF replacesD(1) [OF r]] same_pool_dims [OF replacesD(2) [OF r]] by simp
  show "hdr_ok w p' a" if "a \<in> set (live p')" for a
    using that replacesD(9) [OF r] repl_frame [OF r] unfolding repl_live_set [OF r] by blast
  have "blk_of p' ` set (live p') = blk_of p ` (set (live p) - Old) \<union> blk_of p' ` set New"
    unfolding repl_live_set [OF r] image_Un using repl_frame [OF r] by (intro arg_cong2 [where f = "(\<union>)"] image_cong) auto
  with replacesD(10) [OF r] show "buddy_part (mp_maxlogsize p') (mp_minlogsize p') (blk_of p' ` set (live p'))"
    using replacesD(2) [OF r] by (simp add: same_pool_def)
qed

lemma repl_abs:
  assumes r: "replaces w p p' Old New np"
  shows "abs_pool p' = abs_pool p - abs_blk p ` Old \<union> abs_blk p' ` set New"
proof -
  have "abs_pool p' = abs_blk p ` (set (live p) - Old) \<union> abs_blk p' ` set New"
    unfolding abs_pool_def repl_live_set [OF r] image_Un
    using repl_frame [OF r] by (intro arg_cong2 [where f = "(\<union>)"] image_cong) auto
  with inj_on_image_set_diff [OF abs_blk_inj [OF replacesD(1) [OF r]] Diff_subset replacesD(5) [OF r]] show ?thesis
    by (simp add: abs_pool_def)
qed

lemma repl_length:
  assumes r: "replaces w p p' Old New np"
  shows "length (live p') + card Old = length (live p) + length New"
proof -
  have "length (live p') = card (set (live p'))" using repl_distinct [OF r] by (simp add: distinct_card)
  also have "\<dots> = card (set (live p) - Old) + card (set New)"
    unfolding repl_live_set [OF r] using replacesD(6,7) [OF r] by (intro card_Un_disjoint) auto
  also have "card (set (live p) - Old) = length (live p) - card Old"
    using replacesD(5) [OF r] pool_invD(3) [OF replacesD(1) [OF r]] by (simp add: card_Diff_subset finite_subset distinct_card)
  finally show ?thesis
    using replacesD(5) [OF r] pool_invD(3) [OF replacesD(1) [OF r]] replacesD(6) [OF r] card_mono [OF _ replacesD(5) [OF r]]
    by (simp add: distinct_card)
qed

end
