(* ===== verification/Mpool_Steps.thy ===== *)
theory Mpool_Steps imports Mpool_Inv begin

text \<open>
  The three changes the allocator makes to a pool, each with its effect on the invariant and
  on the abstract state: marking a block, splitting a block, coalescing two buddies.
\<close>

unbundle bit_operations_syntax

section \<open>Marking\<close>

definition same_side :: "blknode \<Rightarrow> blknode \<Rightarrow> bool" where
  "same_side n n' \<longleftrightarrow> bn_logsize n' = bn_logsize n \<and> bn_ptr n' = bn_ptr n \<and>
     MPOOL_IS_RIGHT n' = MPOOL_IS_RIGHT n \<and> MPOOL_IS_PARENT n' = MPOOL_IS_PARENT n"

lemma mp_set_simps [simp]:
  "mp_mem (mp_set p a n) = mp_mem p" "mp_blktable (mp_set p a n) = mp_blktable p"
  "mp_maxlogsize (mp_set p a n) = mp_maxlogsize p" "mp_minlogsize (mp_set p a n) = mp_minlogsize p"
  "mp_nblocks (mp_set p a n) = mp_nblocks p" "mp_nsplits (mp_set p a n) = mp_nsplits p"
  "mp_nmerges (mp_set p a n) = mp_nmerges p" "mp_hdr (mp_set p a n) = (mp_hdr p)(a := n)"
  "same_pool p (mp_set p a n)" "live (mp_set p a n) = live p"
  by (simp_all add: mp_set_def same_pool_def live_def)

lemma mp_set_frame:
  assumes "same_side (mp_hdr p a) n"
  shows "ls_of (mp_set p a n) b = ls_of p b" "blk_of (mp_set p a n) b = blk_of p b"
    "hdr_ok w (mp_set p a n) b = hdr_ok w p b"
  using assms by (simp_all add: ls_of_def blk_of_def hdr_ok_def same_side_def)

lemma mark_inv:
  assumes inv: "pool_inv w p" and s: "same_side (mp_hdr p a) n"
  shows "pool_inv w (mp_set p a n)"
proof -
  have "lists_ok (mp_set p a n)"
    using pool_invD(2) [OF inv] by (simp add: lists_ok_def mp_set_frame [OF s])
  moreover have "pool_dims w (mp_set p a n)"
    using pool_invD(1) [OF inv] same_pool_dims [of p "mp_set p a n"] by simp
  ultimately show ?thesis
    using inv by (simp add: pool_inv_def mp_set_frame [OF s])
qed

lemma mark_abs:
  assumes inv: "pool_inv w p" and a: "a \<in> set (live p)" and s: "same_side (mp_hdr p a) n"
  shows "abs_pool (mp_set p a n) =
    abs_pool p - {abs_blk p a} \<union> {(a - mp_mem p, ls_of p a, MPOOL_IS_AVAIL n)}"
proof -
  have "abs_pool (mp_set p a n) = abs_blk (mp_set p a n) ` (insert a (set (live p) - {a}))"
    using a by (simp add: abs_pool_def insert_absorb)
  also have "\<dots> = insert (abs_blk (mp_set p a n) a) (abs_blk p ` (set (live p) - {a}))"
    unfolding image_insert
    by (intro arg_cong2 [where f = insert] image_cong refl) (simp add: abs_blk_def ls_of_def)
  also have "abs_blk p ` (set (live p) - {a}) = abs_pool p - {abs_blk p a}"
    using inj_on_image_set_diff [OF abs_blk_inj [OF inv], of "set (live p)" "{a}"] a
    by (simp add: abs_pool_def)
  finally show ?thesis
    using mp_set_frame(1) [OF s] by (simp add: abs_blk_def)
qed

lemma same_side_mark [simp]:
  "same_side n (MPOOL_MARK_AVAIL n)" "same_side n (MPOOL_MARK_USED n)"
  by (simp_all add: same_side_def flag_simps)

section \<open>Splitting\<close>

lemma par_of_left: "k < M \<Longrightarrow> even (off div 2 ^ k) \<Longrightarrow> par_of M off k = odd (off div 2 ^ Suc k)"
  by (subst par_of.simps) simp

lemma par_of_right: "k < M \<Longrightarrow> odd (off div 2 ^ k) \<Longrightarrow> par_of M off k = par_of M (off - 2 ^ k) (Suc k)"
  by (subst par_of.simps) simp

lemma even_div_of_dvd: "2 ^ Suc k dvd (off::nat) \<Longrightarrow> even (off div 2 ^ k)"
  by (elim dvdE) simp

lemma odd_div_of_dvd: "2 ^ Suc k dvd (off::nat) \<Longrightarrow> odd ((off + 2 ^ k) div 2 ^ k)"
  by (elim dvdE) (simp add: div_add1_eq)

definition split_left :: "nat \<Rightarrow> blknode \<Rightarrow> nat \<Rightarrow> blknode" where
  "split_left w n k =
     (let n1 = n\<lparr>bn_logsize := k\<rparr> in
      MPOOL_MARK_LEFT (if MPOOL_IS_RIGHT n1 then MPOOL_MARK_PARENT n1 else MPOOL_MARK_NOTPARENT n1))"

definition split_right :: "nat \<Rightarrow> blknode \<Rightarrow> blknode \<Rightarrow> addr \<Rightarrow> nat \<Rightarrow> blknode" where
  "split_right w n old r k =
     MPOOL_BLOCK_INIT old (r + sizeof_blknode w) MPOOL_BLOCK_AVAIL MPOOL_BLOCK_RIGHT
       (if bn_flags n AND MPOOL_NODE_PARENT \<noteq> 0 then MPOOL_BLOCK_PARENT else -1) k"

lemma split_left_simps [flag_simps]:
  "bn_logsize (split_left w n k) = k" "bn_ptr (split_left w n k) = bn_ptr n"
  "MPOOL_IS_AVAIL (split_left w n k) = MPOOL_IS_AVAIL n" "\<not> MPOOL_IS_RIGHT (split_left w n k)"
  "MPOOL_IS_PARENT (split_left w n k) = MPOOL_IS_RIGHT n"
  by (simp_all add: split_left_def Let_def flag_simps)

lemma split_right_simps [flag_simps]:
  "bn_logsize (split_right w n old r k) = k" "bn_ptr (split_right w n old r k) = r + sizeof_blknode w"
  "MPOOL_IS_AVAIL (split_right w n old r k)" "MPOOL_IS_RIGHT (split_right w n old r k)"
  "MPOOL_IS_PARENT (split_right w n old r k) = MPOOL_IS_PARENT n"
  by (simp_all add: split_right_def flag_simps) (simp add: MPOOL_BLOCK_PARENT_def MPOOL_IS_PARENT_def)

lemma blk_of_inj: "pool_inv w p \<Longrightarrow> inj_on (blk_of p) (set (live p))"
  by (intro inj_onI) (simp add: blk_of_def live_same_off)

lemma image_minus_single: "inj_on f A \<Longrightarrow> x \<in> A \<Longrightarrow> f ` (A - {x}) = f ` A - {f x}"
  by (auto simp: inj_on_def)

definition split_pool :: "nat \<Rightarrow> mpool \<Rightarrow> addr \<Rightarrow> nat \<Rightarrow> mpool" where
  \<comment> \<open>What \<open>mpool_split\<close> computes when nothing is undefined.\<close>
  "split_pool w p a k =
     (let r = a + 2 ^ k; np = mp_maxlogsize p - k in
      p\<lparr>mp_hdr := (mp_hdr p)(a := split_left w (mp_hdr p a) k,
                     r := split_right w (mp_hdr p a) (mp_hdr p r) r k),
        mp_nsplits := sz_add w (mp_nsplits p) 1,
        mp_blktable := (map (filter (\<lambda>x. x \<notin> {a})) (mp_blktable p))
          [np := [r, a] @ filter (\<lambda>x. x \<notin> {a}) (mp_blktable p ! np)]\<rparr>)"

lemma mpool_split_eq:
  assumes inv: "pool_inv w p" and a: "a \<in> set (live p)" and k: "ls_of p a = Suc k"
    and m: "mp_minlogsize p \<le> k"
  shows "mpool_split w p a = Some (split_pool w p a k)"
proof -
  note d = pool_invD(1) [OF inv, unfolded pool_dims_def]
  note b = pool_inv_blk [OF inv a]
  have k30: "k < 30" using b(4) k by simp
  have ls: "sz_sub w (bn_logsize (mp_hdr p a)) 1 = k"
    using k b(4) d by (simp add: ls_of_def sz_sub_logsize)
  have np: "sz_sub w (mp_maxlogsize p) k = mp_maxlogsize p - k"
    using d b(3) k by (intro sz_sub_logsize) auto
  have npl: "mp_maxlogsize p - k < length (mp_blktable p)" using d m by simp
  have s: "shl1 k = Some (2 ^ k)" using k30 by (simp add: shl1_def)
  have "a + 2 ^ Suc k \<le> size_mod w" using b(6) d k by simp
  moreover have "sizeof_blknode w < 2 ^ k"
    using d m by (meson less_le_trans one_le_numeral power_increasing)
  ultimately have sum: "a + 2 ^ k < size_mod w" "a + 2 ^ k + sizeof_blknode w < size_mod w"
    by simp_all
  have r: "sz_add w a (2 ^ k) = a + 2 ^ k"
    and rp: "sz_add w (a + 2 ^ k) (sizeof_blknode w) = a + 2 ^ k + sizeof_blknode w"
    using sum by (simp_all add: sz_add_small)
  have rem: "chain_remove a (mp_blktable p) = Some (map (filter (\<lambda>x. x \<noteq> a)) (mp_blktable p))"
    using chain_remove_distinct pool_invD(3) [OF inv] a by (simp add: live_def)
  show ?thesis
    unfolding mpool_split_def rem MPOOL_GET_RIGHT_BUDDY_OF_def
    using npl
    by (simp add: Let_def ls np s r rp flag_simps chain_insert_head_def split_pool_def
        split_left_def split_right_def mp_set_def del: One_nat_def cong: if_cong)
qed

lemma split_replaces:
  assumes inv: "pool_inv w p" and a: "a \<in> set (live p)" and k: "ls_of p a = Suc k"
    and m: "mp_minlogsize p \<le> k"
  shows "replaces w p (split_pool w p a k) {a} [a + 2 ^ k, a] (mp_maxlogsize p - k)"
proof -
  let ?p = "split_pool w p a k" and ?off = "a - mp_mem p" and ?M = "mp_maxlogsize p"
  note d = pool_invD(1) [OF inv, unfolded pool_dims_def]
  note b = pool_inv_blk [OF inv a]
  have kM: "k < ?M" using b(3) k by simp
  have dvd: "2 ^ Suc k dvd ?off" using b(5) k by simp
  have mem: "mp_mem p \<le> a" by (rule pool_invD(6) [OF inv a])
  then have off: "a + 2 ^ k - mp_mem p = ?off + 2 ^ k" by simp
  have blk: "(?off, Suc k) = blk_of p a" using k by (simp add: blk_of_def)
  have same: "same_pool p ?p" by (simp add: same_pool_def split_pool_def Let_def)
  have rnew: "a + 2 ^ k \<notin> set (live p)"
  proof
    assume r: "a + 2 ^ k \<in> set (live p)"
    have "covers (blk_of p a) (?off + 2 ^ k)" by (simp flip: blk add: covers_def)
    moreover have "covers (blk_of p (a + 2 ^ k)) (?off + 2 ^ k)"
      unfolding blk_of_def off by simp
    ultimately have "a = a + 2 ^ k" by (rule live_covers_eq [OF inv a r])
    then show False by simp
  qed
  have ok: "hdr_ok w p a" by (rule pool_invD(5) [OF inv a])
  have "hdr_ok w ?p a" "ls_of ?p a = k"
    using ok mem kM k even_div_of_dvd [OF dvd]
    by (simp_all add: hdr_ok_def ls_of_def split_pool_def Let_def flag_simps par_of_left)
  moreover have lsr: "ls_of ?p (a + 2 ^ k) = k"
    by (simp add: ls_of_def split_pool_def Let_def flag_simps)
  moreover have "hdr_ok w ?p (a + 2 ^ k)"
  proof -
    have "par_of ?M (?off + 2 ^ k) k = par_of ?M ?off (Suc k)"
      using par_of_right [OF kM odd_div_of_dvd [OF dvd]] by simp
    moreover have "MPOOL_IS_PARENT (mp_hdr p a) = par_of ?M ?off (Suc k)"
      using ok k by (simp add: hdr_ok_def)
    ultimately show ?thesis
      unfolding hdr_ok_def lsr using mem odd_div_of_dvd [OF dvd]
      by (simp add: split_pool_def Let_def flag_simps off del: add_diff_assoc2 Nat.add_diff_assoc2)
  qed
  moreover have "blk_of p ` (set (live p) - {a}) = blk_of p ` set (live p) - {(?off, Suc k)}"
    unfolding blk by (rule image_minus_single [OF blk_of_inj [OF inv] a])
  moreover have "buddy_part ?M (mp_minlogsize p)
      (blk_of p ` set (live p) - {(?off, Suc k)} \<union> {(?off, k), (?off + 2 ^ k, k)})"
  proof (rule buddy_part_split [OF pool_invD(4) [OF inv] _ m])
    show "(?off, Suc k) \<in> blk_of p ` set (live p)" unfolding blk using a by (rule imageI)
  qed
  ultimately show ?thesis
    using inv same a rnew kM d m off
    by (simp add: replaces_def split_pool_def Let_def blk_of_def insert_commute)
qed

section \<open>Coalescing\<close>

lemma merged_flags_simps [flag_simps]:
  "bn_ptr (mpool_merged_flags l r) = bn_ptr l"
  "MPOOL_IS_RIGHT (mpool_merged_flags l r) = MPOOL_IS_PARENT l"
  "MPOOL_IS_PARENT (mpool_merged_flags l r) = MPOOL_IS_PARENT r"
  by (simp_all add: mpool_merged_flags_def Let_def flag_simps)

definition merge_pool :: "nat \<Rightarrow> mpool \<Rightarrow> addr \<Rightarrow> addr \<Rightarrow> nat \<Rightarrow> mpool" where
  \<comment> \<open>What \<open>mpool_coalesce\<close> computes for the buddies \<open>l\<close> and \<open>r\<close> of size \<open>2 ^ k\<close>.\<close>
  "merge_pool w p l r k =
     (let np = mp_maxlogsize p - Suc k in
      p\<lparr>mp_hdr := (mp_hdr p)(l := MPOOL_MARK_AVAIL
          ((mpool_merged_flags (mp_hdr p l) (mp_hdr p r))\<lparr>bn_logsize := Suc k\<rparr>)),
        mp_nmerges := sz_add w (mp_nmerges p) 1,
        mp_blktable := (map (filter (\<lambda>x. x \<notin> {l, r})) (mp_blktable p))
          [np := [l] @ filter (\<lambda>x. x \<notin> {l, r}) (mp_blktable p ! np)]\<rparr>)"

definition buddies :: "nat \<Rightarrow> mpool \<Rightarrow> addr \<Rightarrow> addr \<Rightarrow> nat \<Rightarrow> bool" where
  "buddies w p l r k \<longleftrightarrow>
     pool_inv w p \<and> l \<in> set (live p) \<and> r \<in> set (live p) \<and> r = l + 2 ^ k \<and>
     ls_of p l = k \<and> ls_of p r = k \<and> k < mp_maxlogsize p \<and> 2 ^ Suc k dvd l - mp_mem p"

lemma buddiesD:
  assumes "buddies w p l r k"
  shows "pool_inv w p" "l \<in> set (live p)" "r \<in> set (live p)" "r = l + 2 ^ k"
    "ls_of p l = k" "ls_of p r = k" "k < mp_maxlogsize p" "2 ^ Suc k dvd l - mp_mem p"
    "mp_mem p \<le> l" "l \<noteq> r"
    "\<not> MPOOL_IS_RIGHT (mp_hdr p l)" "MPOOL_IS_RIGHT (mp_hdr p r)"
proof -
  show *: "pool_inv w p" "l \<in> set (live p)" "r \<in> set (live p)" "r = l + 2 ^ k"
    "ls_of p l = k" "ls_of p r = k" "k < mp_maxlogsize p" "2 ^ Suc k dvd l - mp_mem p"
    using assms unfolding buddies_def by blast+
  show mem: "mp_mem p \<le> l" by (rule pool_invD(6) [OF *(1,2)])
  show "l \<noteq> r" using *(4) by simp
  show "\<not> MPOOL_IS_RIGHT (mp_hdr p l)"
    using pool_invD(5) [OF *(1,2)] even_div_of_dvd [OF *(8)] *(5) by (simp add: hdr_ok_def)
  have "r - mp_mem p = l - mp_mem p + 2 ^ k" using mem *(4) by simp
  then show "MPOOL_IS_RIGHT (mp_hdr p r)"
    using pool_invD(5) [OF *(1,3)] odd_div_of_dvd [OF *(8)] *(6) unfolding hdr_ok_def by metis
qed

lemma chain_remove_two:
  assumes "distinct (concat tbl)" "a \<in> set (concat tbl)" "b \<in> set (concat tbl)" "a \<noteq> b"
  shows "chain_remove a tbl = Some (map (filter (\<lambda>x. x \<noteq> a)) tbl)"
    and "chain_remove b (map (filter (\<lambda>x. x \<noteq> a)) tbl) = Some (map (filter (\<lambda>x. x \<notin> {a, b})) tbl)"
proof -
  let ?t = "map (filter (\<lambda>x. x \<noteq> a)) tbl"
  show "chain_remove a tbl = Some ?t" by (rule chain_remove_distinct [OF assms(1,2)])
  have "distinct (concat ?t)" "b \<in> set (concat ?t)"
    unfolding concat_map_filter using assms by auto
  then have "chain_remove b ?t = Some (map (filter (\<lambda>x. x \<noteq> b)) ?t)" by (rule chain_remove_distinct)
  moreover have "map (filter (\<lambda>x. x \<noteq> b)) ?t = map (filter (\<lambda>x. x \<notin> {a, b})) tbl"
    by (auto intro: filter_cong)
  ultimately show "chain_remove b ?t = Some (map (filter (\<lambda>x. x \<notin> {a, b})) tbl)" by simp
qed

lemma mpool_coalesce_eq:
  assumes bd: "buddies w p l r k" and ab: "(a, b) = (l, r) \<or> (a, b) = (r, l)"
  shows "mpool_coalesce w p a b = Some (merge_pool w p l r k, Some l)"
proof -
  note B = buddiesD [OF bd]
  note d = pool_invD(1) [OF B(1), unfolded pool_dims_def]
  have lr: "l \<in> set (concat (mp_blktable p))" "r \<in> set (concat (mp_blktable p))"
    using B(2,3) by (auto simp: live_def)
  note dist = pool_invD(3) [OF B(1), unfolded live_def]
  note rem1 = chain_remove_two [OF dist lr B(10)]
  note rem2 = chain_remove_two [OF dist lr(2,1) B(10) [symmetric], unfolded insert_commute [of r]]
  have ls: "bn_logsize (mp_hdr p l) = k" "bn_logsize (mp_hdr p r) = k"
    using B(5,6) by (auto simp: ls_of_def)
  have k: "sz_add w k 1 = Suc k" using d B(7) by (intro sz_add_logsize) auto
  have np: "sz_sub w (mp_maxlogsize p) (Suc k) = mp_maxlogsize p - Suc k"
    using d B(7) by (intro sz_sub_logsize) auto
  have npl: "mp_maxlogsize p - Suc k < length (mp_blktable p)"
    using d pool_inv_blk(2) [OF B(1,2)] B(5) by simp
  from ab show ?thesis
  proof
    assume "(a, b) = (l, r)"
    then have ab: "a = l" "b = r" by simp_all
    show ?thesis
      unfolding ab mpool_coalesce_def
      using npl B(11,12) ls
      by (simp add: rem1 flag_simps k np chain_insert_head_def merge_pool_def Let_def mp_set_def
          del: One_nat_def)
  next
    assume "(a, b) = (r, l)"
    then have ab: "a = r" "b = l" by simp_all
    show ?thesis
      unfolding ab mpool_coalesce_def
      using npl B(11,12) ls
      by (simp add: rem2 flag_simps k np chain_insert_head_def merge_pool_def Let_def mp_set_def
          del: One_nat_def)
  qed
qed

lemma merge_replaces:
  assumes bd: "buddies w p l r k"
  shows "replaces w p (merge_pool w p l r k) {l, r} [l] (mp_maxlogsize p - Suc k)"
proof -
  let ?p = "merge_pool w p l r k" and ?off = "l - mp_mem p" and ?M = "mp_maxlogsize p"
  note B = buddiesD [OF bd]
  note d = pool_invD(1) [OF B(1), unfolded pool_dims_def]
  have same: "same_pool p ?p" by (simp add: same_pool_def merge_pool_def Let_def)
  have off: "r - mp_mem p = ?off + 2 ^ k" using B(4,9) by simp
  have npl: "?M - Suc k < length (mp_blktable p)"
    using d pool_inv_blk(2) [OF B(1,2)] B(5) by simp
  have ls: "ls_of ?p l = Suc k" by (simp add: ls_of_def merge_pool_def Let_def flag_simps)
  have okl: "hdr_ok w p l" and okr: "hdr_ok w p r" by (rule pool_invD(5) [OF B(1)], rule B)+
  have "hdr_ok w ?p l"
  proof -
    have "MPOOL_IS_PARENT (mp_hdr p l) = odd (?off div 2 ^ Suc k)"
      using okl par_of_left [OF B(7) even_div_of_dvd [OF B(8)]] B(5) by (simp add: hdr_ok_def)
    moreover have "MPOOL_IS_PARENT (mp_hdr p r) = par_of ?M ?off (Suc k)"
      using okr par_of_right [OF B(7) odd_div_of_dvd [OF B(8)]] B(6) by (simp add: hdr_ok_def off)
    ultimately show ?thesis
      using okl unfolding hdr_ok_def ls by (simp add: merge_pool_def Let_def flag_simps)
  qed
  moreover have "blk_of p ` (set (live p) - {l, r}) = blk_of p ` set (live p) - {(?off, k), (?off + 2 ^ k, k)}"
    using blk_of_inj [OF B(1)] B(2,3,5,6) off by (auto simp: inj_on_def blk_of_def)
  moreover have "buddy_part ?M (mp_minlogsize p)
      (blk_of p ` set (live p) - {(?off, k), (?off + 2 ^ k, k)} \<union> {(?off, Suc k)})"
  proof (rule buddy_part_merge [OF pool_invD(4) [OF B(1)] _ _ B(8)])
    show "(?off, k) \<in> blk_of p ` set (live p)" "(?off + 2 ^ k, k) \<in> blk_of p ` set (live p)"
      using imageI [OF B(2), of "blk_of p"] imageI [OF B(3), of "blk_of p"] B(5,6) off
      by (simp_all add: blk_of_def)
  qed
  moreover have "?M - (?M - Suc k) = Suc k" using B(7) by simp
  ultimately show ?thesis
    using B(1-3,10) same npl ls
    by (auto simp: replaces_def merge_pool_def Let_def blk_of_def)
qed

section \<open>Finding the buddy\<close>

lemma mpool_buddy_eq:
  assumes inv: "pool_inv w p" and a: "a \<in> set (live p)" and k: "ls_of p a < mp_maxlogsize p"
  shows "mpool_buddy w p a = Some (Some (mp_mem p + buddy_off (a - mp_mem p) (ls_of p a)))"
    and "mp_mem p + buddy_off (a - mp_mem p) (ls_of p a) \<in> set (live p)"
proof -
  let ?off = "a - mp_mem p" and ?k = "ls_of p a" and ?M = "mp_maxlogsize p"
  let ?b = "buddy_off ?off ?k"
  note d = pool_invD(1) [OF inv, unfolded pool_dims_def]
  note b = pool_inv_blk [OF inv a]
  have mem: "mp_mem p \<le> a" by (rule pool_invD(6) [OF inv a])
  have right: "MPOOL_IS_RIGHT (mp_hdr p a) = odd (?off div 2 ^ ?k)"
    using pool_invD(5) [OF inv a] by (simp add: hdr_ok_def)
  have "blk_wf ?M (mp_minlogsize p) (?b, ?k)"
    using buddy_off_wf [OF b(1) [unfolded blk_of_def] k] .
  then have bM: "?b + 2 ^ ?k \<le> 2 ^ ?M" by (simp add: blk_wf_def)
  have s: "shl1 (bn_logsize (mp_hdr p a)) = Some (2 ^ ?k)" "shl1 ?M = Some (2 ^ ?M)"
    using b(4) d by (simp_all add: shl1_def ls_of_def)
  have pow: "(0::nat) < 2 ^ ?k" by simp
  have less: "mp_mem p + ?b < size_mod w" using bM d pow by linarith
  show "mpool_buddy w p a = Some (Some (mp_mem p + ?b))"
  proof (cases "odd (?off div 2 ^ ?k)")
    case True
    then have ge: "2 ^ ?k \<le> ?off" by (metis div_less dvd_0_right not_le)
    have "sz_sub w a (2 ^ ?k) = a - 2 ^ ?k"
      using ge b(6) d pow by (intro sz_sub_small) linarith+
    with True ge mem right show ?thesis
      by (simp add: mpool_buddy_def MPOOL_GET_LEFT_BUDDY_OF_def s buddy_off_def)
  next
    case False
    then have "mp_mem p + ?b = a + 2 ^ ?k" using mem by (simp add: buddy_off_def)
    with less have "sz_add w a (2 ^ ?k) = mp_mem p + ?b" by (simp add: sz_add_small)
    moreover have "\<not> mp_mem p + ?b > mp_mem p + 2 ^ ?M - 1" using bM pow by linarith
    ultimately show ?thesis
      using False right by (simp add: mpool_buddy_def MPOOL_GET_RIGHT_BUDDY_OF_def s)
  qed
  from buddy_part_buddy [OF pool_invD(4) [OF inv], of ?off ?k] a k obtain k'
    where "(?b, k') \<in> blk_of p ` set (live p)" by (force simp: blk_of_def)
  then obtain c where c: "c \<in> set (live p)" "c - mp_mem p = ?b" by (auto simp: blk_of_def)
  with pool_invD(6) [OF inv c(1)] have "c = mp_mem p + ?b" by simp
  with c show "mp_mem p + ?b \<in> set (live p)" by simp
qed

end
