(* ===== verification/Mpool_Ops.thy ===== *)
theory Mpool_Ops imports Mpool_Steps begin

text \<open>
  \<open>mpool_alloc\<close> and \<open>mpool_free\<close> against their abstract specification, on sets of blocks
  \<open>(offset, logsize, available)\<close>: both return (no undefined behaviour, no endless loop), keep
  the invariant, and make exactly the specified change.
\<close>

section \<open>Specification\<close>

definition spec_carve :: "nat \<Rightarrow> nat \<Rightarrow> nat \<Rightarrow> (nat \<times> nat \<times> bool) set" where
  \<comment> \<open>What a free block of size \<open>2 ^ k\<close> becomes when its first \<open>2 ^ k'\<close> bytes are handed out.\<close>
  "spec_carve off k k' = insert (off, k', False) ((\<lambda>j. (off + 2 ^ j, j, True)) ` {k'..<k})"

definition spec_fits :: "nat \<Rightarrow> nat \<Rightarrow> nat \<Rightarrow> bool" where
  \<comment> \<open>\<open>2 ^ k\<close> is the least block size, from \<open>2 ^ m\<close> on, that holds \<open>sz\<close> bytes.\<close>
  "spec_fits m sz k \<longleftrightarrow> m \<le> k \<and> sz \<le> 2 ^ k \<and> (k = m \<or> 2 ^ (k - 1) < sz)"

definition spec_alloc ::
  "nat \<Rightarrow> nat \<Rightarrow> (nat \<times> nat \<times> bool) set \<Rightarrow> nat \<Rightarrow> nat \<Rightarrow> (nat \<times> nat \<times> bool) set \<Rightarrow> bool" where
  \<comment> \<open>A smallest sufficient free block is cut down to the block size that fits.\<close>
  "spec_alloc m sz S off k' S' \<longleftrightarrow>
     (\<exists>k. (off, k, True) \<in> S \<and> sz \<le> 2 ^ k \<and>
        (\<forall>off2 k2. (off2, k2, True) \<in> S \<longrightarrow> sz \<le> 2 ^ k2 \<longrightarrow> k \<le> k2) \<and>
        k' \<le> k \<and> spec_fits m sz k' \<and> S' = S - {(off, k, True)} \<union> spec_carve off k k')"

function merge_up ::
  "nat \<Rightarrow> (nat \<times> nat \<times> bool) set \<Rightarrow> nat \<Rightarrow> nat \<Rightarrow> (nat \<times> nat \<times> bool) set" where
  \<comment> \<open>Adding the free block \<open>(off, k)\<close> to the others, merging with free buddies on the way.\<close>
  "merge_up M S off k =
     (if k < M \<and> (buddy_off off k, k, True) \<in> S
      then merge_up M (S - {(buddy_off off k, k, True)}) (min off (buddy_off off k)) (Suc k)
      else insert (off, k, True) S)"
  by pat_completeness auto
termination
  by (relation "measure (\<lambda>(M, S, off, k). M - k)") auto

declare merge_up.simps [simp del]

definition spec_free :: "nat \<Rightarrow> (nat \<times> nat \<times> bool) set \<Rightarrow> nat \<Rightarrow> nat \<Rightarrow> (nat \<times> nat \<times> bool) set" where
  "spec_free M S off k = merge_up M (S - {(off, k, False)}) off k"

definition counts_ok :: "nat \<Rightarrow> mpool \<Rightarrow> bool" where
  "counts_ok w p \<longleftrightarrow>
     (length (live p) + mp_nmerges p) mod size_mod w = (mp_nsplits p + 1) mod size_mod w"

section \<open>The abstract state\<close>

lemma abs_pool_iff: "(off, k, av) \<in> abs_pool p \<longleftrightarrow>
    (\<exists>a\<in>set (live p). off = a - mp_mem p \<and> k = ls_of p a \<and> av = MPOOL_IS_AVAIL (mp_hdr p a))"
  by (auto simp: abs_pool_def abs_blk_def)

lemma abs_pool_off_unique:
  assumes "pool_inv w p" "(off, k, av) \<in> abs_pool p" "(off, k', av') \<in> abs_pool p"
  shows "k' = k \<and> av' = av"
  using assms live_same_off [OF assms(1)] unfolding abs_pool_iff by metis

lemma abs_pool_live:
  "pool_inv w p \<Longrightarrow> a \<in> set (live p) \<Longrightarrow> (a - mp_mem p, k, av) \<in> abs_pool p \<longleftrightarrow>
    k = ls_of p a \<and> av = MPOOL_IS_AVAIL (mp_hdr p a)"
  unfolding abs_pool_iff using live_same_off by metis

lemma pool_minlogsize_pos: "pool_inv w p \<Longrightarrow> 0 < mp_minlogsize p"
proof -
  assume "pool_inv w p"
  then have "0 < sizeof_blknode w" "sizeof_blknode w < 2 ^ mp_minlogsize p"
    by (auto dest!: pool_invD(1) simp: pool_dims_def sizeof_blknode_def)
  then show ?thesis by (cases "mp_minlogsize p") auto
qed

section \<open>The search for a block\<close>

lemma mpool_find_append:
  "mpool_find p sz (is @ js) r = do { r' \<leftarrow> mpool_find p sz is r; mpool_find p sz js r' }"
proof (induction p sz "is" r rule: mpool_find.induct)
  case (2 p sz i "is" r)
  show ?case
  proof (cases "length (mp_blktable p) \<le> i")
    case False
    with 2 show ?thesis
      by (cases "mp_blktable p ! i"; cases "shl1 (bn_logsize (mp_hdr p (hd (mp_blktable p ! i))))")
        (auto split: option.splits)
  qed simp
qed simp

definition fitting :: "mpool \<Rightarrow> nat \<Rightarrow> addr \<Rightarrow> bool" where
  "fitting p sz a \<longleftrightarrow> MPOOL_IS_AVAIL (mp_hdr p a) \<and> sz \<le> 2 ^ ls_of p a"

lemma mpool_find_list:
  assumes inv: "pool_inv w p" and i: "i < length (mp_blktable p)"
  shows "mpool_find p sz [i] r =
    Some (case List.find (fitting p sz) (mp_blktable p ! i) of Some a \<Rightarrow> Some a | None \<Rightarrow> r)"
proof (cases "mp_blktable p ! i")
  case (Cons a as)
  let ?s = "2 ^ (mp_maxlogsize p - i) :: nat"
  have ls: "ls_of p b = mp_maxlogsize p - i" if "b \<in> set (mp_blktable p ! i)" for b
    using pool_invD(7) [OF inv i that] .
  have "mp_maxlogsize p - i < 31"
    using pool_invD(1) [OF inv] unfolding pool_dims_def by linarith
  then have s: "shl1 (bn_logsize (mp_hdr p a)) = Some ?s"
    using Cons ls [of a] by (simp add: shl1_def ls_of_def)
  have "List.find (fitting p sz) (mp_blktable p ! i) =
      (if sz \<le> ?s then List.find (\<lambda>b. MPOOL_IS_AVAIL (mp_hdr p b)) (mp_blktable p ! i) else None)"
    using ls by (auto simp: find_None_iff fitting_def intro!: find_cong)
  with i s Cons show ?thesis by (auto split: option.splits)
qed (use i in simp)

lemma mpool_find_upto:
  assumes inv: "pool_inv w p"
  shows "n \<le> length (mp_blktable p) \<Longrightarrow>
    \<exists>r. mpool_find p sz [0..<n] None = Some r \<and>
      (case r of
         None \<Rightarrow> \<forall>i<n. \<forall>b\<in>set (mp_blktable p ! i). \<not> fitting p sz b
       | Some a \<Rightarrow> (\<exists>i<n. a \<in> set (mp_blktable p ! i)) \<and> fitting p sz a \<and>
           (\<forall>i<n. \<forall>b\<in>set (mp_blktable p ! i). fitting p sz b \<longrightarrow> ls_of p a \<le> ls_of p b))"
proof (induction n)
  case (Suc n)
  then obtain r where r: "mpool_find p sz [0..<n] None = Some r"
    and R: "case r of
         None \<Rightarrow> \<forall>i<n. \<forall>b\<in>set (mp_blktable p ! i). \<not> fitting p sz b
       | Some a \<Rightarrow> (\<exists>i<n. a \<in> set (mp_blktable p ! i)) \<and> fitting p sz a \<and>
           (\<forall>i<n. \<forall>b\<in>set (mp_blktable p ! i). fitting p sz b \<longrightarrow> ls_of p a \<le> ls_of p b)"
    by auto
  have n: "n < length (mp_blktable p)" using Suc.prems by simp
  let ?f = "List.find (fitting p sz) (mp_blktable p ! n)"
  have eq: "mpool_find p sz [0..<Suc n] None = Some (case ?f of Some a \<Rightarrow> Some a | None \<Rightarrow> r)"
    using r mpool_find_list [OF inv n, of sz r] by (simp add: mpool_find_append)
  have ls: "ls_of p b = mp_maxlogsize p - i" if "i < Suc n" "b \<in> set (mp_blktable p ! i)" for b i
    using pool_invD(7) [OF inv _ that(2)] that(1) n by simp
  show ?case
  proof (cases ?f)
    case None
    then have no: "\<forall>b\<in>set (mp_blktable p ! n). \<not> fitting p sz b" by (simp add: find_None_iff)
    show ?thesis
      using eq None R no by (cases r) (auto simp: less_Suc_eq)
  next
    case (Some a)
    then have a: "a \<in> set (mp_blktable p ! n)" "fitting p sz a"
      by (auto simp: find_Some_iff)
    have "ls_of p a \<le> ls_of p b" if "i < Suc n" "b \<in> set (mp_blktable p ! i)" for b i
      using ls [OF that] ls [OF _ a(1)] that(1) by simp
    with eq Some a show ?thesis by auto
  qed
qed simp

lemma mpool_find_ok:
  assumes inv: "pool_inv w p"
  obtains (none) "mpool_find p sz [0..<mp_nblocks p] None = Some None"
      "\<And>b. b \<in> set (live p) \<Longrightarrow> \<not> fitting p sz b"
    | (found) a where "mpool_find p sz [0..<mp_nblocks p] None = Some (Some a)"
      "a \<in> set (live p)" "fitting p sz a"
      "\<And>b. b \<in> set (live p) \<Longrightarrow> fitting p sz b \<Longrightarrow> ls_of p a \<le> ls_of p b"
proof -
  have len: "mp_nblocks p = length (mp_blktable p)"
    using pool_invD(1) [OF inv] by (simp add: pool_dims_def)
  have liv: "b \<in> set (live p) \<longleftrightarrow> (\<exists>i<length (mp_blktable p). b \<in> set (mp_blktable p ! i))" for b
    unfolding live_def by (rule set_concat_nth)
  from mpool_find_upto [OF inv order_refl, of sz] obtain r
    where r: "mpool_find p sz [0..<mp_nblocks p] None = Some r"
    and R: "case r of
         None \<Rightarrow> \<forall>i<length (mp_blktable p). \<forall>b\<in>set (mp_blktable p ! i). \<not> fitting p sz b
       | Some a \<Rightarrow> (\<exists>i<length (mp_blktable p). a \<in> set (mp_blktable p ! i)) \<and> fitting p sz a \<and>
           (\<forall>i<length (mp_blktable p). \<forall>b\<in>set (mp_blktable p ! i). fitting p sz b \<longrightarrow> ls_of p a \<le> ls_of p b)"
    unfolding len by blast
  show thesis
  proof (cases r)
    case None
    with r R show thesis using liv by (intro none) auto
  next
    case (Some a)
    with r R show thesis using liv by (intro found [of a]) auto
  qed
qed

section \<open>Allocation\<close>

lemma spec_carve_split:
  assumes "k' \<le> k"
  shows "spec_carve off (Suc k) k' = spec_carve off k k' \<union> {(off + 2 ^ k, k, True)}"
  using assms by (auto simp: spec_carve_def atLeastLessThanSuc)

lemma counts_ok_split:
  assumes "counts_ok w p" "length (live p') = Suc (length (live p))"
    "mp_nsplits p' = sz_add w (mp_nsplits p) 1" "mp_nmerges p' = mp_nmerges p"
  shows "counts_ok w p'"
  using assms unfolding counts_ok_def sz_add_def by simp (metis mod_Suc_eq mod_Suc_Suc_eq)

lemma counts_ok_merge:
  assumes "counts_ok w p" "Suc (length (live p')) = length (live p)"
    "mp_nmerges p' = sz_add w (mp_nmerges p) 1" "mp_nsplits p' = mp_nsplits p"
  shows "counts_ok w p'"
proof -
  have "(length (live p') + mp_nmerges p') mod size_mod w = (length (live p) + mp_nmerges p) mod size_mod w"
    unfolding assms(3) sz_add_def by (simp add: mod_add_right_eq flip: assms(2))
  with assms show ?thesis by (simp add: counts_ok_def)
qed

lemma counts_ok_set [simp]: "counts_ok w (mp_set p a n) = counts_ok w p"
  by (simp add: counts_ok_def)

lemma split_effect:
  assumes inv: "pool_inv w p" and a: "a \<in> set (live p)" and k: "ls_of p a = Suc k"
    and m: "mp_minlogsize p \<le> k"
  shows "pool_inv w (split_pool w p a k)" "same_pool p (split_pool w p a k)"
    "a \<in> set (live (split_pool w p a k))" "ls_of (split_pool w p a k) a = k"
    "MPOOL_IS_AVAIL (mp_hdr (split_pool w p a k) a) = MPOOL_IS_AVAIL (mp_hdr p a)"
    "abs_pool (split_pool w p a k) = abs_pool p - {abs_blk p a} \<union>
       {(a - mp_mem p, k, MPOOL_IS_AVAIL (mp_hdr p a)), (a - mp_mem p + 2 ^ k, k, True)}"
    "counts_ok w p \<Longrightarrow> counts_ok w (split_pool w p a k)"
    "mp_nmerges (split_pool w p a k) = mp_nmerges p"
proof -
  let ?p = "split_pool w p a k"
  note r = split_replaces [OF inv a k m]
  show "pool_inv w ?p" by (rule repl_inv [OF r])
  show "same_pool p ?p" by (rule replacesD(2) [OF r])
  show "a \<in> set (live ?p)" unfolding repl_live_set [OF r] by simp
  show ls: "ls_of ?p a = k" "MPOOL_IS_AVAIL (mp_hdr ?p a) = MPOOL_IS_AVAIL (mp_hdr p a)"
    by (simp_all add: ls_of_def split_pool_def Let_def flag_simps)
  have mem: "mp_mem ?p = mp_mem p" by (simp add: split_pool_def Let_def)
  have "abs_blk ?p (a + 2 ^ k) = (a + 2 ^ k - mp_mem p, k, True)"
    by (simp add: abs_blk_def ls_of_def split_pool_def Let_def flag_simps)
  then show "abs_pool ?p = abs_pool p - {abs_blk p a} \<union>
       {(a - mp_mem p, k, MPOOL_IS_AVAIL (mp_hdr p a)), (a - mp_mem p + 2 ^ k, k, True)}"
    unfolding repl_abs [OF r] using pool_invD(6) [OF inv a] ls mem
    by (simp add: insert_commute abs_blk_def)
  have "length (live ?p) = Suc (length (live p))" using repl_length [OF r] by simp
  then show "counts_ok w p \<Longrightarrow> counts_ok w ?p"
    by (rule counts_ok_split [rotated]) (simp_all add: split_pool_def Let_def)
  show "mp_nmerges ?p = mp_nmerges p" by (simp add: split_pool_def Let_def)
qed

definition alloc_result ::
  "nat \<Rightarrow> mpool \<Rightarrow> nat \<Rightarrow> addr \<Rightarrow> nat \<Rightarrow> mpool \<Rightarrow> bool" where
  \<comment> \<open>What \<open>mpool_again\<close> makes of the free block \<open>a\<close> of size \<open>2 ^ ls_of p a\<close>.\<close>
  "alloc_result w p sz a k' p' \<longleftrightarrow>
     pool_inv w p' \<and> same_pool p p' \<and> a \<in> set (live p') \<and> k' \<le> ls_of p a \<and>
     spec_fits (mp_minlogsize p) sz k' \<and> (counts_ok w p \<longrightarrow> counts_ok w p') \<and>
     mp_nmerges p' = mp_nmerges p \<and>
     abs_pool p' = abs_pool p - {abs_blk p a} \<union> spec_carve (a - mp_mem p) (ls_of p a) k'"

lemma mpool_again_ok:
  "pool_inv w p \<Longrightarrow> a \<in> set (live p) \<Longrightarrow> fitting p sz a \<Longrightarrow>
    \<exists>k' p'. mpool_again w p sz a = Some (a + sizeof_blknode w, p') \<and> alloc_result w p sz a k' p'"
proof (induction "ls_of p a" arbitrary: p)
  case 0
  with pool_inv_blk(2) [OF 0(2,3)] pool_minlogsize_pos [OF 0(2)] show ?case by simp
next
  case (Suc k)
  note inv = Suc.prems(1) and a = Suc.prems(2) and fit = Suc.prems(3)
  note b = pool_inv_blk [OF inv a]
  have d: "0 < w" using pool_invD(1) [OF inv] by (simp add: pool_dims_def)
  have k: "ls_of p a = Suc k" using Suc.hyps(2) by simp
  have ls: "bn_logsize (mp_hdr p a) = Suc k" using k by (simp add: ls_of_def)
  have sub: "sz_sub w (Suc k) 1 = k" using d b(4) k by (simp add: sz_sub_logsize del: One_nat_def)
  have stop: "mpool_no_split w p sz a =
      Some (sz = 2 ^ Suc k \<or> 2 ^ k < sz \<or> k < mp_minlogsize p)"
    using b(4) k unfolding mpool_no_split_def Let_def ls sub by (simp add: shl1_def)
  have av: "MPOOL_IS_AVAIL (mp_hdr p a)" and sz: "sz \<le> 2 ^ Suc k"
    using fit k by (auto simp: fitting_def)
  show ?case
  proof (cases "sz = 2 ^ Suc k \<or> 2 ^ k < sz \<or> k < mp_minlogsize p")
    case True
    let ?p = "mp_set p a (MPOOL_MARK_USED (mp_hdr p a))"
    have "bn_ptr (mp_hdr p a) = a + sizeof_blknode w"
      using pool_invD(5) [OF inv a] by (simp add: hdr_ok_def)
    with True stop have "mpool_again w p sz a = Some (a + sizeof_blknode w, ?p)"
      by (simp add: mpool_again.simps [of w p])
    moreover have "2 ^ k < sz \<or> Suc k = mp_minlogsize p" using True b(2) k by auto
    then have "spec_fits (mp_minlogsize p) sz (Suc k)"
      using b(2) k sz by (auto simp: spec_fits_def)
    then have "alloc_result w p sz a (Suc k) ?p"
      using mark_inv [OF inv same_side_mark(2)] mark_abs [OF inv a same_side_mark(2)] a k
      by (simp add: alloc_result_def spec_carve_def flag_simps)
    ultimately show ?thesis by blast
  next
    case False
    then have m: "mp_minlogsize p \<le> k" and sz: "sz \<le> 2 ^ k" by auto
    let ?p = "split_pool w p a k"
    note e = split_effect [OF inv a k m]
    have "fitting ?p sz a" using e(4,5) av sz by (simp add: fitting_def)
    from Suc.hyps(1) [OF e(4) [symmetric] e(1,3) this] obtain k' p'
      where r: "mpool_again w ?p sz a = Some (a + sizeof_blknode w, p')"
        and R: "alloc_result w ?p sz a k' p'" by blast
    have "mpool_again w p sz a = Some (a + sizeof_blknode w, p')"
      using False stop mpool_split_eq [OF inv a k m] r by (simp add: mpool_again.simps [of w p])
    moreover have "alloc_result w p sz a k' p'"
    proof -
      have same: "mp_minlogsize ?p = mp_minlogsize p" "mp_mem ?p = mp_mem p"
        using e(2) by (simp_all add: same_pool_def)
      have kk: "k' \<le> k" using R e(4) by (simp add: alloc_result_def)
      have ab: "abs_blk ?p a = (a - mp_mem p, k, True)"
        using e(4,5) av same by (simp add: abs_blk_def)
      have "(a - mp_mem p, k, True) \<notin> abs_pool p - {abs_blk p a}"
        using abs_pool_live [OF inv a, of k True] k by simp
      then have "abs_pool ?p - {abs_blk ?p a} = abs_pool p - {abs_blk p a} \<union> {(a - mp_mem p + 2 ^ k, k, True)}"
        unfolding e(6) ab using av by auto
      then have "abs_pool p' = abs_pool p - {abs_blk p a} \<union> spec_carve (a - mp_mem p) (Suc k) k'"
        using R e(4) same(2) spec_carve_split [OF kk] by (auto simp: alloc_result_def)
      with R e same k kk show ?thesis
        by (auto simp: alloc_result_def intro: same_pool_trans)
    qed
    ultimately show ?thesis by blast
  qed
qed

lemma mpool_alloc_ok:
  assumes inv: "pool_inv w p"
  obtains (none) "mpool_alloc w p n = Some (None, p)"
      "\<And>off k. (off, k, True) \<in> abs_pool p \<Longrightarrow> 2 ^ k < sz_add w n (sizeof_blknode w)"
    | (some) a k' p' where "mpool_alloc w p n = Some (Some (a + sizeof_blknode w), p')"
      "a \<in> set (live p)" "MPOOL_IS_AVAIL (mp_hdr p a)" "alloc_result w p (sz_add w n (sizeof_blknode w)) a k' p'"
      "spec_alloc (mp_minlogsize p) (sz_add w n (sizeof_blknode w)) (abs_pool p) (a - mp_mem p) k' (abs_pool p')"
proof -
  let ?sz = "sz_add w n (sizeof_blknode w)"
  show thesis
  proof (rule mpool_find_ok [OF inv, of ?sz])
    assume f: "mpool_find p ?sz [0..<mp_nblocks p] None = Some None"
      and no: "\<And>b. b \<in> set (live p) \<Longrightarrow> \<not> fitting p ?sz b"
    show thesis
    proof (rule none)
      show "mpool_alloc w p n = Some (None, p)" by (simp add: mpool_alloc_def f)
      show "2 ^ k < ?sz" if "(off, k, True) \<in> abs_pool p" for off k
        using that no unfolding abs_pool_iff fitting_def by fastforce
    qed
  next
    fix a
    assume f: "mpool_find p ?sz [0..<mp_nblocks p] None = Some (Some a)"
      and a: "a \<in> set (live p)" and fit: "fitting p ?sz a"
      and best: "\<And>b. b \<in> set (live p) \<Longrightarrow> fitting p ?sz b \<Longrightarrow> ls_of p a \<le> ls_of p b"
    from mpool_again_ok [OF inv a fit] obtain k' p'
      where r: "mpool_again w p ?sz a = Some (a + sizeof_blknode w, p')"
        and R: "alloc_result w p ?sz a k' p'" by blast
    have av: "MPOOL_IS_AVAIL (mp_hdr p a)" and sz: "?sz \<le> 2 ^ ls_of p a"
      using fit by (simp_all add: fitting_def)
    have "ls_of p a \<le> k2" if "(off2, k2, True) \<in> abs_pool p" "?sz \<le> 2 ^ k2" for off2 k2
      using that best unfolding abs_pool_iff fitting_def by auto
    moreover have "(a - mp_mem p, ls_of p a, True) \<in> abs_pool p"
      using abs_pool_live [OF inv a] av by simp
    ultimately have "spec_alloc (mp_minlogsize p) ?sz (abs_pool p) (a - mp_mem p) k' (abs_pool p')"
      using R sz av unfolding spec_alloc_def alloc_result_def abs_blk_def by auto
    then show thesis
      by (intro some [of a p' k'] a av R) (simp add: mpool_alloc_def f r)
  qed
qed

section \<open>Release\<close>

lemma merge_effect:
  assumes bd: "buddies w p l r k"
  shows "pool_inv w (merge_pool w p l r k)" "same_pool p (merge_pool w p l r k)"
    "l \<in> set (live (merge_pool w p l r k))" "ls_of (merge_pool w p l r k) l = Suc k"
    "abs_pool (merge_pool w p l r k) = abs_pool p - {abs_blk p l, abs_blk p r} \<union>
       {(l - mp_mem p, Suc k, True)}"
    "counts_ok w p \<Longrightarrow> counts_ok w (merge_pool w p l r k)"
    "mp_nsplits (merge_pool w p l r k) = mp_nsplits p"
proof -
  let ?p = "merge_pool w p l r k"
  note B = buddiesD [OF bd]
  note R = merge_replaces [OF bd]
  show "pool_inv w ?p" by (rule repl_inv [OF R])
  show "same_pool p ?p" by (rule replacesD(2) [OF R])
  show "l \<in> set (live ?p)" unfolding repl_live_set [OF R] by simp
  show "ls_of ?p l = Suc k" by (simp add: ls_of_def merge_pool_def Let_def flag_simps)
  have "abs_blk ?p l = (l - mp_mem p, Suc k, True)"
    by (simp add: abs_blk_def ls_of_def merge_pool_def Let_def flag_simps)
  then show "abs_pool ?p = abs_pool p - {abs_blk p l, abs_blk p r} \<union> {(l - mp_mem p, Suc k, True)}"
    unfolding repl_abs [OF R] by simp
  have "card {l, r} = 2" using B(10) by simp
  then have "Suc (length (live ?p)) = length (live p)" using repl_length [OF R] by simp
  then show "counts_ok w p \<Longrightarrow> counts_ok w ?p"
    by (rule counts_ok_merge [rotated]) (simp_all add: merge_pool_def Let_def)
  show "mp_nsplits ?p = mp_nsplits p" by (simp add: merge_pool_def Let_def)
qed

text \<open>A block and its equal-sized buddy, in the order of their addresses.\<close>

lemma buddies_of:
  assumes inv: "pool_inv w p" and a: "a \<in> set (live p)" and k: "ls_of p a < mp_maxlogsize p"
    and b: "b = mp_mem p + buddy_off (a - mp_mem p) (ls_of p a)" and lb: "ls_of p b = ls_of p a"
  shows "buddies w p (min a b) (max a b) (ls_of p a)"
    and "min a b - mp_mem p = min (a - mp_mem p) (b - mp_mem p)"
proof -
  let ?off = "a - mp_mem p" and ?k = "ls_of p a"
  have bl: "b \<in> set (live p)" unfolding b by (rule mpool_buddy_eq(2) [OF inv a k])
  have mem: "mp_mem p \<le> a" "mp_mem p \<le> b" using pool_invD(6) [OF inv] a bl by auto
  then show "min a b - mp_mem p = min ?off (b - mp_mem p)" by (simp add: min_def)
  have dvd: "2 ^ ?k dvd ?off" by (rule pool_inv_blk(5) [OF inv a])
  then obtain q where q: "?off = 2 ^ ?k * q" by (elim dvdE)
  have boff: "b - mp_mem p = buddy_off ?off ?k" by (simp add: b)
  have pow: "(0::nat) < 2 ^ ?k" by simp
  show "buddies w p (min a b) (max a b) ?k"
  proof (cases "even q")
    case True
    then have "b - mp_mem p = ?off + 2 ^ ?k" by (simp add: boff buddy_off_def q)
    then have "b = a + 2 ^ ?k" using mem by linarith
    moreover have "2 ^ Suc ?k dvd ?off" using True by (auto simp: q elim: evenE)
    ultimately show ?thesis using inv a bl k lb by (simp add: buddies_def min_def max_def)
  next
    case False
    then obtain q' where q': "q = Suc (2 * q')" by (elim oddE) simp
    have "b - mp_mem p = 2 ^ ?k * (2 * q')" using False
      by (simp add: boff buddy_off_def q) (simp add: q')
    then have "a = b + 2 ^ ?k" "2 ^ Suc ?k dvd b - mp_mem p"
      using q q' mem by (auto simp: algebra_simps)
    moreover from this(1) pow have "\<not> a \<le> b" by linarith
    ultimately show ?thesis using inv a bl k lb by (simp add: buddies_def min_def max_def)
  qed
qed

definition free_result :: "nat \<Rightarrow> mpool \<Rightarrow> addr \<Rightarrow> mpool \<Rightarrow> bool" where
  "free_result w p a p' \<longleftrightarrow>
     pool_inv w p' \<and> same_pool p p' \<and> (counts_ok w p \<longrightarrow> counts_ok w p') \<and>
     mp_nsplits p' = mp_nsplits p \<and>
     abs_pool p' = merge_up (mp_maxlogsize p) (abs_pool p - {abs_blk p a}) (a - mp_mem p) (ls_of p a)"

lemma mark_avail_result:
  assumes inv: "pool_inv w p" and a: "a \<in> set (live p)"
    and no: "ls_of p a < mp_maxlogsize p \<Longrightarrow>
      (buddy_off (a - mp_mem p) (ls_of p a), ls_of p a, True) \<notin> abs_pool p - {abs_blk p a}"
  shows "free_result w p a (mp_set p a (MPOOL_MARK_AVAIL (mp_hdr p a)))"
proof -
  have "merge_up (mp_maxlogsize p) (abs_pool p - {abs_blk p a}) (a - mp_mem p) (ls_of p a) =
      insert (a - mp_mem p, ls_of p a, True) (abs_pool p - {abs_blk p a})"
    by (subst merge_up.simps, subst if_not_P) (use no in simp_all)
  then show ?thesis
    using mark_inv [OF inv same_side_mark(1)] mark_abs [OF inv a same_side_mark(1)]
    by (simp add: free_result_def flag_simps)
qed

lemma mpool_chunk_found_ok:
  "pool_inv w p \<Longrightarrow> a \<in> set (live p) \<Longrightarrow>
    \<exists>p'. mpool_chunk_found w p a = Some p' \<and> free_result w p a p'"
proof (induction "mp_maxlogsize p - ls_of p a" arbitrary: p a)
  case 0
  note inv = 0(2) and a = 0(3)
  have top: "ls_of p a = mp_maxlogsize p" using 0(1) pool_inv_blk(3) [OF inv a] by simp
  then have top': "bn_logsize (mp_hdr p a) = mp_maxlogsize p" by (simp add: ls_of_def)
  let ?m = "mp_set p a (MPOOL_MARK_AVAIL (mp_hdr p a))"
  have r: "free_result w p a ?m" by (rule mark_avail_result [OF inv a]) (simp add: top)
  show ?case
  proof (cases "MPOOL_IS_AVAIL (mp_hdr p a)")
    case True
    have "abs_blk p a \<in> abs_pool p" using a by (simp add: abs_pool_def)
    with True have "free_result w p a p"
      using inv top by (subst free_result_def, subst merge_up.simps)
        (auto simp: abs_blk_def)
    with True top' show ?thesis
      by (intro exI [of _ p]) (simp add: mpool_chunk_found.simps [of w p] mpool_free_step_def)
  next
    case False
    with r top' show ?thesis
      by (intro exI [of _ ?m]) (simp add: mpool_chunk_found.simps [of w p] mpool_free_step_def)
  qed
next
  case (Suc d)
  note inv = Suc.prems(1) and a = Suc.prems(2)
  let ?k = "ls_of p a" and ?off = "a - mp_mem p" and ?M = "mp_maxlogsize p"
  have k: "?k < ?M" using Suc.hyps(2) by simp
  define b where "b = mp_mem p + buddy_off ?off ?k"
  have bl: "b \<in> set (live p)" and be: "mpool_buddy w p a = Some (Some b)"
    unfolding b_def using mpool_buddy_eq [OF inv a k] by simp_all
  have boff: "b - mp_mem p = buddy_off ?off ?k" by (simp add: b_def)
  have neq: "b \<noteq> a" using buddy_off_neq boff by metis
  have ls: "bn_logsize (mp_hdr p c) = ls_of p c" for c by (simp add: ls_of_def)
  have bav: "(buddy_off ?off ?k, ?k, True) \<in> abs_pool p - {abs_blk p a} \<longleftrightarrow>
      ls_of p b = ?k \<and> MPOOL_IS_AVAIL (mp_hdr p b)"
    using abs_pool_live [OF inv bl, of ?k True] buddy_off_neq by (auto simp: boff abs_blk_def)
  show ?case
  proof (cases "ls_of p b = ?k \<and> MPOOL_IS_AVAIL (mp_hdr p b)")
    case False
    then have "mpool_chunk_found w p a = Some (mp_set p a (MPOOL_MARK_AVAIL (mp_hdr p a)))"
      using k by (simp add: mpool_chunk_found.simps [of w p] mpool_free_step_def ls be flag_simps)
    moreover have "free_result w p a (mp_set p a (MPOOL_MARK_AVAIL (mp_hdr p a)))"
      using False bav by (intro mark_avail_result [OF inv a]) simp
    ultimately show ?thesis by blast
  next
    case True
    let ?l = "min a b" and ?r = "max a b"
    let ?p = "merge_pool w p ?l ?r ?k"
    note B = buddies_of [OF inv a k b_def conjunct1 [OF True]]
    note e = merge_effect [OF B(1)]
    have "(a, b) = (?l, ?r) \<or> (a, b) = (?r, ?l)" by (auto simp: min_def max_def)
    from mpool_coalesce_eq [OF B(1) this]
    have step: "mpool_free_step w p a = Some (?p, Some ?l)"
      using True k by (simp add: mpool_free_step_def ls be flag_simps)
    have max: "mp_maxlogsize ?p = ?M" "mp_mem ?p = mp_mem p"
      using e(2) by (simp_all add: same_pool_def)
    have "d = mp_maxlogsize ?p - ls_of ?p ?l" using Suc.hyps(2) e(4) max by simp
    from Suc.hyps(1) [OF this e(1,3)] obtain p'
      where r: "mpool_chunk_found w ?p ?l = Some p'" and R: "free_result w ?p ?l p'" by blast
    have run: "mpool_chunk_found w p a = Some p'"
      using step r by (simp add: mpool_chunk_found.simps [of w p])
    have l: "?l \<in> set (live p)" using a bl by (simp add: min_def)
    have two: "{abs_blk p ?l, abs_blk p ?r} = {abs_blk p a, abs_blk p b}"
      by (auto simp: min_def max_def)
    have "(?l - mp_mem p, Suc ?k, True) \<notin> abs_pool p"
      using abs_pool_live [OF inv l] buddiesD(5) [OF B(1)] by simp
    then have rest: "abs_pool ?p - {abs_blk ?p ?l} = abs_pool p - {abs_blk p a} - {(buddy_off ?off ?k, ?k, True)}"
      using e(1,3,4) abs_pool_live [OF e(1,3), of "Suc ?k" True] max True boff
      unfolding e(5) two by (auto simp: abs_blk_def)
    have "merge_up ?M (abs_pool p - {abs_blk p a}) ?off ?k =
        merge_up ?M (abs_pool ?p - {abs_blk ?p ?l}) (?l - mp_mem p) (Suc ?k)"
      unfolding rest B(2) boff using True bav k by (subst merge_up.simps) simp
    then have "free_result w p a p'"
      using R e max by (auto simp: free_result_def intro: same_pool_trans)
    with run show ?thesis by blast
  qed
qed

lemma free_addr:
  assumes inv: "pool_inv w p" and a: "a \<in> set (live p)"
  shows "sz_sub w (a + sizeof_blknode w) (sizeof_blknode w) = a"
proof -
  have d: "mp_mem p + 2 ^ mp_maxlogsize p \<le> size_mod w" "sizeof_blknode w < 2 ^ mp_minlogsize p"
    using pool_invD(1) [OF inv] by (simp_all add: pool_dims_def)
  have "(2::nat) ^ mp_minlogsize p \<le> 2 ^ ls_of p a"
    using pool_inv_blk(2) [OF inv a] by (simp add: power_increasing)
  then have "a + sizeof_blknode w < size_mod w" using pool_inv_blk(6) [OF inv a] d by linarith
  then show ?thesis by (simp add: sz_sub_small)
qed

lemma mpool_free_ok:
  assumes inv: "pool_inv w p" and a: "a \<in> set (live p)" and u: "\<not> MPOOL_IS_AVAIL (mp_hdr p a)"
  shows "\<exists>p'. mpool_free w p (a + sizeof_blknode w) = Some p' \<and> free_result w p a p' \<and>
    abs_pool p' = spec_free (mp_maxlogsize p) (abs_pool p) (a - mp_mem p) (ls_of p a)"
proof -
  obtain p' where "mpool_chunk_found w p a = Some p'" "free_result w p a p'"
    using mpool_chunk_found_ok [OF inv a] by blast
  then show ?thesis
    using u free_addr [OF inv a] by (auto simp: mpool_free_def spec_free_def free_result_def abs_blk_def)
qed

end
