(* ===== verification/Mpool_Reach.thy ===== *)
theory Mpool_Reach imports Mpool_Ops begin

text \<open>
  Creation, the invariant that no two equal-sized buddies are both free, and the pools a
  client can reach: from \<open>mpool_init\<close> by \<open>mpool_alloc\<close>, by \<open>mpool_free\<close> of blocks in use, and
  by writes of its own to any memory but the headers of the blocks.
\<close>

section \<open>Creation\<close>

definition fresh_pool ::
  "nat \<Rightarrow> (addr \<Rightarrow> blknode) \<Rightarrow> nat \<Rightarrow> nat \<Rightarrow> addr \<Rightarrow> addr \<Rightarrow> addr \<Rightarrow> mpool" where
  \<comment> \<open>What a successful \<open>mpool_init\<close> returns.\<close>
  "fresh_pool w g M m pm mem tbl =
     \<lparr>mp_addr = pm, mp_mem = mem, mp_nblocks = M - m + 1, mp_maxlogsize = M, mp_minlogsize = m,
      mp_nsplits = 0, mp_nmerges = 0, mp_tbladdr = tbl, mp_blktable = [mem] # replicate (M - m) [],
      mp_hdr = g(mem := MPOOL_BLOCK_INIT (g mem) (mem + sizeof_blknode w)
        MPOOL_BLOCK_AVAIL MPOOL_BLOCK_LEFT MPOOL_BLOCK_PARENT M)\<rparr>"

lemma fresh_pool_live: "live (fresh_pool w g M m pm mem tbl) = [mem]"
  by (simp add: live_def fresh_pool_def)

lemma fresh_pool_abs: "abs_pool (fresh_pool w g M m pm mem tbl) = {(0, M, True)}"
  by (simp add: abs_pool_def fresh_pool_live) (simp add: abs_blk_def ls_of_def fresh_pool_def flag_simps)

lemma fresh_pool_counts: "counts_ok w (fresh_pool w g M m pm mem tbl)"
  by (simp add: counts_ok_def fresh_pool_live) (simp add: fresh_pool_def)

lemma buddy_part_whole: "m \<le> M \<Longrightarrow> buddy_part M m {(0, M)}"
  by (auto simp: buddy_part_def blk_wf_def covers_def)

lemma fresh_pool_inv:
  assumes "0 < w" "M < 31" "m \<le> M" "sizeof_blknode w < 2 ^ m" "0 < mem" "mem + 2 ^ M \<le> size_mod w"
  shows "pool_inv w (fresh_pool w g M m pm mem tbl)"
proof -
  let ?p = "fresh_pool w g M m pm mem tbl"
  have "pool_dims w ?p" using assms by (simp add: pool_dims_def fresh_pool_def)
  moreover have ls: "ls_of ?p mem = M" by (simp add: ls_of_def fresh_pool_def flag_simps)
  then have "lists_ok ?p"
    by (auto simp: lists_ok_def fresh_pool_live) (auto simp: fresh_pool_def nth_Cons split: nat.splits)
  moreover have "hdr_ok w ?p mem"
    unfolding hdr_ok_def ls
    by (simp add: fresh_pool_def flag_simps par_of.simps MPOOL_BLOCK_LEFT_def MPOOL_BLOCK_RIGHT_def)
  moreover have "blk_of ?p ` {mem} = {(0, M)}" by (simp add: blk_of_def ls) (simp add: fresh_pool_def)
  moreover have "mp_maxlogsize ?p = M" "mp_minlogsize ?p = m" by (simp_all add: fresh_pool_def)
  ultimately show ?thesis
    using buddy_part_whole [OF assms(3)] by (simp add: pool_inv_def fresh_pool_live)
qed

definition init_error :: "nat \<Rightarrow> nat \<Rightarrow> nat \<Rightarrow> mpret_t option" where
  \<comment> \<open>The errors that the arguments alone decide.\<close>
  "init_error w M m =
     (if M > 8 * w then Some MPOOL_ERANGE
      else if M < m \<or> 2 ^ m \<le> sizeof_blknode w then Some MPOOL_EBADVAL else None)"

lemma mpool_init_bad:
  "M < 31 \<Longrightarrow> init_error w M m = Some e \<Longrightarrow> mpool_init w g M m h = Some ((e, None), h)"
  by (auto simp: init_error_def mpool_init_def shl1_def split: if_splits)

lemma mpool_init_cases:
  assumes M: "M < 31" and ok: "init_error w M m = None" and wf: "heap_wf h"
  obtains (nomem) h' where "mpool_init w g M m h = Some ((MPOOL_ENOMEM, None), h')"
      "hp_live h' = hp_live h" "hp_bad h' = hp_bad h"
    | (pool) pm mem tbl h' where
      "mpool_init w g M m h = Some ((MPOOL_OK, Some (fresh_pool w g M m pm mem tbl)), h')"
      "hp_live h' = tbl # mem # pm # hp_live h" "hp_bad h' = hp_bad h"
      "distinct (hp_live h')" "mem + 2 ^ M \<le> hp_limit h" "0 < mem"
proof -
  have m: "m \<le> M" "\<not> 2 ^ m \<le> sizeof_blknode w" "\<not> M > 8 * w" "\<not> M < m"
    using ok by (auto simp: init_error_def split: if_splits)
  have s: "shl1 m = Some (2 ^ m)" "shl1 M = Some (2 ^ M)" using M m(1) by (simp_all add: shl1_def)
  note unf = mpool_init_def
  obtain r1 h1 where h1: "malloc (sizeof_mpool w) h = (r1, h1)" by force
  show thesis
  proof (cases r1)
    case None
    with malloc_NoneD h1 show thesis by (intro nomem [of h1]) (auto simp: unf m s)
  next
    case (Some pm)
    obtain r2 h2 where h2: "malloc (2 ^ M) h1 = (r2, h2)" by force
    note D1 = malloc_SomeD [OF h1 [unfolded Some]]
    show thesis
    proof (cases r2)
      case None
      from malloc_NoneD [OF h2 [unfolded None]] D1 have "hp_live h2 = pm # hp_live h" by simp
      with None Some malloc_NoneD [OF h2 [unfolded None]] D1 h1 h2 show thesis
        by (intro nomem [of "cfree (Some pm) h2"]) (auto simp: unf m s cfree_def)
    next
      case Some2: (Some mem)
      obtain r3 h3 where h3: "malloc ((M - m + 1) * sizeof_blkhead w) h2 = (r3, h3)" by force
      note D2 = malloc_SomeD [OF h2 [unfolded Some2]]
      show thesis
      proof (cases r3)
        case None
        from malloc_NoneD [OF h3 [unfolded None]] D1 D2 have l: "hp_live h3 = mem # pm # hp_live h" by simp
        show thesis
          by (rule nomem [of "cfree (Some pm) (cfree (Some mem) h3)"])
            (use None Some Some2 malloc_NoneD [OF h3 [unfolded None]] D1 D2 h1 h2 h3 l
              in \<open>simp_all add: unf m s cfree_def\<close>)
      next
        case Some3: (Some tbl)
        note D3 = malloc_SomeD [OF h3 [unfolded Some3]]
        have "heap_wf h3" using malloc_wf wf h1 h2 h3 by blast
        then have dist: "distinct (hp_live h3)" by (simp add: heap_wf_def)
        have "0 < hp_next h" using wf by (simp add: heap_wf_def)
        then show thesis
          by (intro pool [of pm mem tbl h3])
            (use Some Some2 Some3 D1 D2 D3 h1 h2 h3 dist in
              \<open>simp_all add: unf m s chain_insert_head_def fresh_pool_def\<close>)
      qed
    qed
  qed
qed

section \<open>No two free buddies\<close>

definition coalesced :: "nat \<Rightarrow> (nat \<times> nat \<times> bool) set \<Rightarrow> bool" where
  "coalesced M S \<longleftrightarrow>
     (\<forall>off k. (off, k, True) \<in> S \<longrightarrow> k < M \<longrightarrow> (buddy_off off k, k, True) \<notin> S)"

definition aligned :: "(nat \<times> nat \<times> bool) set \<Rightarrow> bool" where
  "aligned S \<longleftrightarrow> (\<forall>off k av. (off, k, av) \<in> S \<longrightarrow> 2 ^ k dvd off)"

lemma buddy_off_even: "2 ^ Suc k dvd off \<Longrightarrow> buddy_off off k = off + 2 ^ k"
  by (simp add: buddy_off_def even_div_of_dvd)

lemma buddy_off_odd: "2 ^ Suc k dvd off \<Longrightarrow> buddy_off (off + 2 ^ k) k = off"
  by (simp add: buddy_off_def odd_div_of_dvd)

lemma aligned_cases:
  assumes "2 ^ k dvd (off :: nat)"
  obtains "2 ^ Suc k dvd off" | off' where "off = off' + 2 ^ k" "2 ^ Suc k dvd off'"
proof -
  obtain q where q: "off = 2 ^ k * q" using assms by (elim dvdE)
  show thesis
  proof (cases "even q")
    case True
    then show thesis using that(1) q by (auto elim!: evenE)
  next
    case False
    then obtain r where "q = 2 * r + 1" by (elim oddE)
    then show thesis using that(2) [of "2 ^ k * (2 * r)"] q by (simp add: algebra_simps)
  qed
qed

lemma buddy_off_invol: "2 ^ k dvd off \<Longrightarrow> buddy_off (buddy_off off k) k = off"
  by (erule aligned_cases) (simp_all only: buddy_off_even buddy_off_odd)

lemma buddy_off_min: "2 ^ k dvd off \<Longrightarrow> 2 ^ Suc k dvd min off (buddy_off off k)"
  by (erule aligned_cases) (simp_all only: buddy_off_even buddy_off_odd min_def le_add1 if_True, simp)

lemma coalesced_subset: "coalesced M S \<Longrightarrow> T \<subseteq> S \<Longrightarrow> coalesced M T"
  unfolding coalesced_def by blast

lemma aligned_subset: "aligned S \<Longrightarrow> T \<subseteq> S \<Longrightarrow> aligned T"
  unfolding aligned_def by blast

lemma merge_up_coalesced:
  "coalesced M S \<Longrightarrow> aligned S \<Longrightarrow> 2 ^ k dvd off \<Longrightarrow>
    coalesced M (merge_up M S off k)"
proof (induction M S off k rule: merge_up.induct)
  case (1 M S off k)
  show ?case
  proof (cases "k < M \<and> (buddy_off off k, k, True) \<in> S")
    case True
    have "coalesced M (S - {(buddy_off off k, k, True)})" "aligned (S - {(buddy_off off k, k, True)})"
      using 1(2,3) by (auto simp: aligned_def intro: coalesced_subset)
    from 1(1) [OF True this buddy_off_min [OF 1(4)]] True show ?thesis
      by (subst merge_up.simps) simp
  next
    case False
    have "k = k2 \<and> o2 = buddy_off off k" if "2 ^ k2 dvd o2" "(buddy_off o2 k2, k2) = (off, k)" for o2 k2
      using that buddy_off_invol by auto
    then have "coalesced M (insert (off, k, True) S)"
      using False 1(2-4) buddy_off_neq unfolding coalesced_def aligned_def by (auto; metis)
    with False show ?thesis by (subst merge_up.simps) auto
  qed
qed

lemma carve_coalesced:
  assumes c: "coalesced M S" and al: "aligned S" and b: "(off, k, True) \<in> S"
    and un: "\<And>k2 av. (off, k2, av) \<in> S - {(off, k, True)} \<union> spec_carve off k k' \<Longrightarrow> av = False"
  shows "coalesced M (S - {(off, k, True)} \<union> spec_carve off k k')"
  unfolding coalesced_def
proof (intro allI impI notI)
  let ?S = "S - {(off, k, True)} \<union> spec_carve off k k'"
  fix o2 j
  assume 1: "(o2, j, True) \<in> ?S" and j: "j < M" and 2: "(buddy_off o2 j, j, True) \<in> ?S"
  have d: "2 ^ k dvd off" using al b by (auto simp: aligned_def)
  have piece: "buddy_off x i = off" if "(x, i, True) \<in> spec_carve off k k'" for x i
  proof -
    from that have x: "x = off + 2 ^ i" and i: "i < k" by (auto simp: spec_carve_def)
    have "2 ^ Suc i dvd off" using i by (intro dvd_trans [OF le_imp_power_dvd d]) simp
    then show ?thesis unfolding x by (rule buddy_off_odd)
  qed
  consider "(o2, j, True) \<in> spec_carve off k k'"
    | "(o2, j, True) \<in> S" "(buddy_off o2 j, j, True) \<in> spec_carve off k k'"
    | "(o2, j, True) \<in> S" "(buddy_off o2 j, j, True) \<in> S"
    using 1 2 by blast
  then show False
  proof cases
    case 1
    with piece 2 un show False by fastforce
  next
    case 2
    have "buddy_off (buddy_off o2 j) j = o2" using al 2(1) by (intro buddy_off_invol) (auto simp: aligned_def)
    with piece [OF 2(2)] 1 un show False by fastforce
  next
    case 3
    with c j show False by (auto simp: coalesced_def)
  qed
qed

lemma abs_pool_aligned: "pool_inv w p \<Longrightarrow> aligned (abs_pool p)"
  unfolding aligned_def abs_pool_iff using pool_inv_blk(5) by fastforce


lemma alloc_result_coalesced:
  assumes inv: "pool_inv w p" and c: "coalesced (mp_maxlogsize p) (abs_pool p)"
    and a: "a \<in> set (live p)" and av: "MPOOL_IS_AVAIL (mp_hdr p a)"
    and r: "alloc_result w p sz a k' p'"
  shows "coalesced (mp_maxlogsize p') (abs_pool p')"
proof -
  have ab: "abs_blk p a = (a - mp_mem p, ls_of p a, True)" using av by (simp add: abs_blk_def)
  have "pool_inv w p'" "same_pool p p'" and k': "k' \<le> ls_of p a"
    and S: "abs_pool p' = abs_pool p - {(a - mp_mem p, ls_of p a, True)} \<union> spec_carve (a - mp_mem p) (ls_of p a) k'"
    using r ab by (simp_all add: alloc_result_def)
  note un = abs_pool_off_unique [OF this(1)]
  have used: "(a - mp_mem p, k', False) \<in> abs_pool p'" unfolding S by (simp add: spec_carve_def)
  have "coalesced (mp_maxlogsize p) (abs_pool p')"
    unfolding S
  proof (rule carve_coalesced [OF c abs_pool_aligned [OF inv]])
    show "(a - mp_mem p, ls_of p a, True) \<in> abs_pool p" unfolding ab [symmetric] using a by (simp add: abs_pool_def)
    show "av = False" if "(a - mp_mem p, k2, av) \<in>
      abs_pool p - {(a - mp_mem p, ls_of p a, True)} \<union> spec_carve (a - mp_mem p) (ls_of p a) k'" for k2 av
      using un [OF used that [folded S]] by simp
  qed
  with \<open>same_pool p p'\<close> show ?thesis by (simp add: same_pool_def)
qed

lemma free_result_coalesced:
  assumes inv: "pool_inv w p" and c: "coalesced (mp_maxlogsize p) (abs_pool p)"
    and a: "a \<in> set (live p)" and r: "free_result w p a p'"
  shows "coalesced (mp_maxlogsize p') (abs_pool p')"
proof -
  have "coalesced (mp_maxlogsize p) (abs_pool p')"
    using r merge_up_coalesced [OF coalesced_subset [OF c] aligned_subset [OF abs_pool_aligned [OF inv]]
      pool_inv_blk(5) [OF inv a], of "abs_pool p - {abs_blk p a}"]
    by (simp add: free_result_def)
  with r show ?thesis by (simp add: free_result_def same_pool_def)
qed

section \<open>Reachable pools\<close>

definition client_write :: "mpool \<Rightarrow> mpool \<Rightarrow> bool" where
  \<comment> \<open>The client has written to the pool's memory, but not over a block's header.\<close>
  "client_write p p' \<longleftrightarrow>
     p' = p\<lparr>mp_hdr := mp_hdr p'\<rparr> \<and> (\<forall>a\<in>set (live p). mp_hdr p' a = mp_hdr p a)"

inductive mp_step :: "nat \<Rightarrow> mpool \<Rightarrow> mpool \<Rightarrow> bool" for w where
  alloc: "mpool_alloc w p n = Some (r, p') \<Longrightarrow> mp_step w p p'"
| free: "a \<in> set (live p) \<Longrightarrow> \<not> MPOOL_IS_AVAIL (mp_hdr p a) \<Longrightarrow>
    mpool_free w p (a + sizeof_blknode w) = Some p' \<Longrightarrow> mp_step w p p'"
| client: "client_write p p' \<Longrightarrow> mp_step w p p'"

inductive mp_reach :: "nat \<Rightarrow> nat \<Rightarrow> nat \<Rightarrow> mpool \<Rightarrow> bool" for w M m where
  init: "mpool_init w g M m h = Some ((MPOOL_OK, Some p), h') \<Longrightarrow> heap_wf h \<Longrightarrow>
    hp_limit h \<le> size_mod w \<Longrightarrow> mp_reach w M m p"
| step: "mp_reach w M m p \<Longrightarrow> mp_step w p p' \<Longrightarrow> mp_reach w M m p'"

definition good_pool :: "nat \<Rightarrow> mpool \<Rightarrow> bool" where
  "good_pool w p \<longleftrightarrow> pool_inv w p \<and> coalesced (mp_maxlogsize p) (abs_pool p) \<and> counts_ok w p"

lemma client_write_abs:
  assumes "client_write p p'"
  shows "live p' = live p" "mp_mem p' = mp_mem p" "mp_maxlogsize p' = mp_maxlogsize p"
    "mp_minlogsize p' = mp_minlogsize p" "mp_nmerges p' = mp_nmerges p" "mp_nsplits p' = mp_nsplits p"
    "\<And>a. a \<in> set (live p) \<Longrightarrow> mp_hdr p' a = mp_hdr p a"
    "abs_pool p' = abs_pool p" "pool_inv w p \<Longrightarrow> pool_inv w p'"
proof -
  obtain h where p': "p' = p\<lparr>mp_hdr := h\<rparr>" and h: "\<And>a. a \<in> set (live p) \<Longrightarrow> h a = mp_hdr p a"
    using assms by (auto simp: client_write_def)
  show "mp_mem p' = mp_mem p" "mp_maxlogsize p' = mp_maxlogsize p" "live p' = live p"
    "mp_minlogsize p' = mp_minlogsize p" "mp_nmerges p' = mp_nmerges p" "mp_nsplits p' = mp_nsplits p"
    "\<And>a. a \<in> set (live p) \<Longrightarrow> mp_hdr p' a = mp_hdr p a"
    by (simp_all add: p' h live_def)
  have ls: "ls_of p' a = ls_of p a" "hdr_ok w p' a = hdr_ok w p a" "blk_of p' a = blk_of p a"
    "abs_blk p' a = abs_blk p a" if "a \<in> set (live p)" for a
    using h [OF that] by (simp_all add: p' ls_of_def hdr_ok_def blk_of_def abs_blk_def)
  have lv: "live p' = live p" by (simp add: p' live_def)
  show "abs_pool p' = abs_pool p" unfolding abs_pool_def lv using ls(4) by (rule image_cong [OF refl])
  assume inv: "pool_inv w p"
  have pos: "ls_of p' a = mp_maxlogsize p - i"
    if "i < length (mp_blktable p)" "a \<in> set (mp_blktable p ! i)" for i a
    using pool_invD(7) [OF inv that] ls(1) [of a] nth_mem [OF that(1)] that(2) by (auto simp: live_def)
  have "pool_dims w p'" using pool_invD(1) [OF inv] by (simp add: p' pool_dims_def)
  then have "lists_ok p' \<and> pool_dims w p'"
    using pool_invD(3) [OF inv] lv pos by (simp add: lists_ok_def) (simp add: p')
  moreover have "blk_of p' ` set (live p') = blk_of p ` set (live p)"
    unfolding lv using ls(3) by (rule image_cong [OF refl])
  ultimately show "pool_inv w p'"
    using inv ls(2) by (simp add: pool_inv_def lv) (simp add: p')
qed

lemma good_step:
  assumes good: "good_pool w p" and s: "mp_step w p p'"
  shows "good_pool w p' \<and> mp_maxlogsize p' = mp_maxlogsize p \<and> mp_minlogsize p' = mp_minlogsize p"
proof -
  note G = good [unfolded good_pool_def]
  have inv: "pool_inv w p" and c: "coalesced (mp_maxlogsize p) (abs_pool p)" using G by blast+
  from s show ?thesis
  proof (cases rule: mp_step.cases)
    case (alloc n r)
    show ?thesis
    proof (rule mpool_alloc_ok [OF inv, of n])
      assume "mpool_alloc w p n = Some (None, p)"
      with alloc good show ?thesis by simp
    next
      fix a k' p2
      assume r: "mpool_alloc w p n = Some (Some (a + sizeof_blknode w), p2)" "a \<in> set (live p)"
        "MPOOL_IS_AVAIL (mp_hdr p a)" "alloc_result w p (sz_add w n (sizeof_blknode w)) a k' p2"
      from r(1) alloc have p2: "p2 = p'" by simp
      from alloc_result_coalesced [OF inv c r(2-4)] r(4) G show ?thesis
        unfolding p2 by (simp add: good_pool_def alloc_result_def same_pool_def)
    qed
  next
    case (free a)
    from mpool_free_ok [OF inv free(1,2)] free(3) have r: "free_result w p a p'" by auto
    from free_result_coalesced [OF inv c free(1) r] r G show ?thesis
      by (simp add: good_pool_def free_result_def same_pool_def)
  next
    case client
    from client_write_abs [OF client] G show ?thesis by (simp add: good_pool_def counts_ok_def)
  qed
qed

lemma init_shl1: "mpool_init w g M m h = Some ((MPOOL_OK, Some p), h') \<Longrightarrow> M < 31"
  by (auto simp: mpool_init_def Let_def shl1_def split: if_splits option.splits prod.splits bind_splits)

lemma good_init:
  assumes r: "mpool_init w g M m h = Some ((MPOOL_OK, Some p), h')" and wf: "heap_wf h"
    and lim: "hp_limit h \<le> size_mod w"
  shows "good_pool w p \<and> mp_maxlogsize p = M \<and> mp_minlogsize p = m"
proof -
  have M: "M < 31" by (rule init_shl1 [OF r])
  have e: "init_error w M m = None"
  proof (cases "init_error w M m")
    case (Some e)
    from mpool_init_bad [OF M this] r show ?thesis by simp
  qed
  show ?thesis
  proof (rule mpool_init_cases [OF M e wf, of g])
    fix pm mem tbl h2
    assume pos: "0 < mem" and q: "mpool_init w g M m h = Some ((MPOOL_OK, Some (fresh_pool w g M m pm mem tbl)), h2)"
      "mem + 2 ^ M \<le> hp_limit h"
    have m: "m \<le> M" "sizeof_blknode w < 2 ^ m" using e by (auto simp: init_error_def split: if_splits)
    have "0 < w"
    proof (rule ccontr)
      assume "\<not> 0 < w"
      then have "M = 0 \<and> m = 0 \<and> sizeof_blknode w = 0" using e by (auto simp: init_error_def sizeof_blknode_def split: if_splits)
      with \<open>\<not> 0 < w\<close> q(2) lim have "mem = 0" by (simp add: size_mod_def)
      moreover have "0 < mem" by (rule pos)
      ultimately show False by simp
    qed
    then have "pool_inv w (fresh_pool w g M m pm mem tbl)"
      using M m q(2) pos lim by (intro fresh_pool_inv) auto
    moreover have "p = fresh_pool w g M m pm mem tbl" using q(1) r by simp
    moreover have "mp_maxlogsize (fresh_pool w g M m pm mem tbl) = M" "mp_minlogsize (fresh_pool w g M m pm mem tbl) = m"
      by (simp_all add: fresh_pool_def)
    ultimately show ?thesis
      by (auto simp: good_pool_def fresh_pool_counts fresh_pool_abs coalesced_def)
  qed (use r in simp)
qed

lemma good_reach:
  "mp_reach w M m p \<Longrightarrow> good_pool w p \<and> mp_maxlogsize p = M \<and> mp_minlogsize p = m"
proof (induction rule: mp_reach.induct)
  case (init g h p h')
  then show ?case by (rule good_init)
next
  case (step p p')
  with good_step show ?case by metis
qed

end
