(* ===== verification/Mstat.thy ===== *)
theory Mstat imports Mpool_Reach begin

text \<open>
  The statistics of the buddy allocator, \<open>buddy/mstat.c\<close>, and the proof that they account for
  every node and every byte of the pool.
\<close>

section \<open>The functions of mstat.c\<close>

fun mstat_nodes :: "nat \<Rightarrow> mpool \<Rightarrow> addr list \<Rightarrow> nat \<times> nat \<Rightarrow> nat \<times> nat" where
  \<comment> \<open>The inner loop of \<open>mpool_stat_get_nodes\<close>; the pair is \<open>(*avail, *used)\<close>.\<close>
  "mstat_nodes w p [] acc = acc"
| "mstat_nodes w p (a # as) (avail, used) =
     mstat_nodes w p as
       (if MPOOL_IS_AVAIL (mp_hdr p a) then (sz_add w avail 1, used) else (avail, sz_add w used 1))"

definition mpool_stat_get_nodes :: "nat \<Rightarrow> mpool \<Rightarrow> nat \<times> nat" where
  "mpool_stat_get_nodes w p =
     fold (mstat_nodes w p) (take (mp_nblocks p) (mp_blktable p)) (0, 0)"

fun mstat_bytes :: "nat \<Rightarrow> mpool \<Rightarrow> addr list \<Rightarrow> nat \<times> nat \<Rightarrow> (nat \<times> nat) option" where
  "mstat_bytes w p [] acc = Some acc"
| "mstat_bytes w p (a # as) (avail, used) =
     do { s \<leftarrow> shl1 (bn_logsize (mp_hdr p a));
          mstat_bytes w p as
            (if MPOOL_IS_AVAIL (mp_hdr p a) then (sz_add w avail s, used)
             else (avail, sz_add w used s)) }"

fun mstat_bytes_lists :: "nat \<Rightarrow> mpool \<Rightarrow> addr list list \<Rightarrow> nat \<times> nat \<Rightarrow> (nat \<times> nat) option" where
  "mstat_bytes_lists w p [] acc = Some acc"
| "mstat_bytes_lists w p (as # ass) acc =
     do { acc' \<leftarrow> mstat_bytes w p as acc; mstat_bytes_lists w p ass acc' }"

definition mpool_stat_get_bytes :: "nat \<Rightarrow> mpool \<Rightarrow> (nat \<times> nat) option" where
  "mpool_stat_get_bytes w p =
     mstat_bytes_lists w p (take (mp_nblocks p) (mp_blktable p)) (0, 0)"

definition mpool_stat_get_blocks :: "mpool \<Rightarrow> nat" where
  "mpool_stat_get_blocks p = mp_nblocks p"

definition mpool_stat_get_block_length :: "mpool \<Rightarrow> nat \<Rightarrow> nat" where
  "mpool_stat_get_block_length p pos =
     (if pos \<ge> mp_nblocks p then 0 else length (mp_blktable p ! pos))"

definition mpool_stat_get_splits :: "mpool \<Rightarrow> nat" where
  "mpool_stat_get_splits p = mp_nsplits p"

definition mpool_stat_get_merges :: "mpool \<Rightarrow> nat" where
  "mpool_stat_get_merges p = mp_nmerges p"

section \<open>What they compute\<close>

abbreviation bytes_of :: "mpool \<Rightarrow> addr list \<Rightarrow> nat" where
  "bytes_of p as \<equiv> (\<Sum>a\<leftarrow>as. 2 ^ ls_of p a :: nat)"

abbreviation avails :: "mpool \<Rightarrow> addr list \<Rightarrow> addr list" where
  "avails p as \<equiv> filter (\<lambda>a. MPOOL_IS_AVAIL (mp_hdr p a)) as"

abbreviation useds :: "mpool \<Rightarrow> addr list \<Rightarrow> addr list" where
  "useds p as \<equiv> filter (\<lambda>a. \<not> MPOOL_IS_AVAIL (mp_hdr p a)) as"

lemma mstat_nodes_eq:
  "x + y + length as < size_mod w \<Longrightarrow>
    mstat_nodes w p as (x, y) = (x + length (avails p as), y + length (useds p as))"
  by (induction as arbitrary: x y) (auto simp: sz_add_small)

lemma mstat_nodes_concat:
  "x + y + length (concat ass) < size_mod w \<Longrightarrow>
    fold (mstat_nodes w p) ass (x, y) =
      (x + length (avails p (concat ass)), y + length (useds p (concat ass)))"
proof (induction ass arbitrary: x y)
  case (Cons as ass)
  have len: "length (avails p as) + length (useds p as) = length as"
    by (rule sum_length_filter_compl)
  have eq: "mstat_nodes w p as (x, y) = (x + length (avails p as), y + length (useds p as))"
    using Cons.prems by (intro mstat_nodes_eq) simp
  show ?case
    using Cons.IH [of "x + length (avails p as)" "y + length (useds p as)"] Cons.prems len
    by (simp add: eq)
qed simp

lemma bytes_split: "bytes_of p (avails p as) + bytes_of p (useds p as) = bytes_of p as"
  by (induction as) auto

lemma mstat_bytes_eq:
  "\<forall>a\<in>set as. ls_of p a < 31 \<Longrightarrow> x + y + bytes_of p as < size_mod w \<Longrightarrow>
    mstat_bytes w p as (x, y) = Some (x + bytes_of p (avails p as), y + bytes_of p (useds p as))"
proof (induction as arbitrary: x y)
  case (Cons a as)
  then have "shl1 (bn_logsize (mp_hdr p a)) = Some (2 ^ ls_of p a)" by (simp add: shl1_def ls_of_def)
  with Cons show ?case by (auto simp: sz_add_small)
qed simp

lemma mstat_bytes_concat:
  "\<forall>a\<in>set (concat ass). ls_of p a < 31 \<Longrightarrow> x + y + bytes_of p (concat ass) < size_mod w \<Longrightarrow>
    mstat_bytes_lists w p ass (x, y) =
      Some (x + bytes_of p (avails p (concat ass)), y + bytes_of p (useds p (concat ass)))"
proof (induction ass arbitrary: x y)
  case (Cons as ass)
  note len = bytes_split [of p as]
  have eq: "mstat_bytes w p as (x, y) = Some (x + bytes_of p (avails p as), y + bytes_of p (useds p as))"
    using Cons.prems by (intro mstat_bytes_eq) auto
  show ?case
    using Cons.IH [of "x + bytes_of p (avails p as)" "y + bytes_of p (useds p as)"] Cons.prems len
    by (simp add: eq)
qed simp

lemma pool_bytes: "pool_inv w p \<Longrightarrow> bytes_of p (live p) = 2 ^ mp_maxlogsize p"
proof -
  assume inv: "pool_inv w p"
  have "bytes_of p (live p) = (\<Sum>a\<in>set (live p). 2 ^ ls_of p a)"
    using pool_invD(3) [OF inv] by (simp add: sum_list_distinct_conv_sum_set)
  also have "\<dots> = (\<Sum>a\<in>set (live p). 2 ^ snd (blk_of p a))" by (simp add: blk_of_def)
  also have "\<dots> = (\<Sum>b\<in>blk_of p ` set (live p). 2 ^ snd b)"
    using sum.reindex [OF blk_of_inj [OF inv], of "\<lambda>b. 2 ^ snd b :: nat"] by simp
  also have "\<dots> = 2 ^ mp_maxlogsize p" by (rule buddy_part_sum [OF pool_invD(4) [OF inv]])
  finally show ?thesis .
qed

lemma length_le_bytes: "length as \<le> bytes_of p as"
proof (induction as)
  case (Cons a as)
  have "(1::nat) \<le> 2 ^ ls_of p a" by simp
  from this Cons have "1 + length as \<le> 2 ^ ls_of p a + bytes_of p as" by (rule add_mono)
  then show ?case by simp
qed simp

lemma pool_take: "pool_inv w p \<Longrightarrow> concat (take (mp_nblocks p) (mp_blktable p)) = live p"
  using pool_invD(1) by (simp add: pool_dims_def live_def)

lemma pool_bytes_small: "pool_inv w p \<Longrightarrow> bytes_of p (live p) < size_mod w"
  using pool_bytes [of w p] pool_invD(1) [of w p] by (simp add: pool_dims_def)

lemma stat_nodes_pool:
  assumes inv: "pool_inv w p"
  shows "mpool_stat_get_nodes w p = (length (avails p (live p)), length (useds p (live p)))"
  using mstat_nodes_concat [of 0 0 "take (mp_nblocks p) (mp_blktable p)" w p]
    length_le_bytes [of "live p" p] pool_bytes_small [OF inv]
  by (simp only: mpool_stat_get_nodes_def pool_take [OF inv]) simp

lemma stat_bytes_pool:
  assumes inv: "pool_inv w p"
  shows "mpool_stat_get_bytes w p = Some (bytes_of p (avails p (live p)), bytes_of p (useds p (live p)))"
  using mstat_bytes_concat [of "take (mp_nblocks p) (mp_blktable p)" p 0 0 w]
    pool_bytes_small [OF inv] pool_inv_blk(4) [OF inv]
  by (simp only: mpool_stat_get_bytes_def pool_take [OF inv]) simp

lemma avails_abs:
  assumes inv: "pool_inv w p"
  shows "length (avails p (live p)) = card {b \<in> abs_pool p. snd (snd b)}"
    and "bytes_of p (avails p (live p)) = (\<Sum>b\<in>{b \<in> abs_pool p. snd (snd b)}. 2 ^ fst (snd b))"
proof -
  have img: "{b \<in> abs_pool p. snd (snd b)} = abs_blk p ` set (avails p (live p))"
    by (auto simp: abs_pool_def abs_blk_def)
  have inj: "inj_on (abs_blk p) (set (avails p (live p)))"
    by (rule inj_on_subset [OF abs_blk_inj [OF inv]]) auto
  have dist: "distinct (avails p (live p))" using pool_invD(3) [OF inv] by simp
  show "length (avails p (live p)) = card {b \<in> abs_pool p. snd (snd b)}"
    unfolding img card_image [OF inj] distinct_card [OF dist] ..
  have "bytes_of p (avails p (live p)) = (\<Sum>a\<in>set (avails p (live p)). 2 ^ ls_of p a)"
    using dist by (simp only: sum_list_distinct_conv_sum_set)
  also have "\<dots> = (\<Sum>b\<in>abs_blk p ` set (avails p (live p)). 2 ^ fst (snd b))"
    unfolding sum.reindex [OF inj] by (rule sum.cong) (simp_all add: abs_blk_def)
  finally show "bytes_of p (avails p (live p)) = (\<Sum>b\<in>{b \<in> abs_pool p. snd (snd b)}. 2 ^ fst (snd b))"
    unfolding img .
qed

end
