(* ===== verification/Mpool_Props.thy ===== *)
theory Mpool_Props imports Mstat begin

text \<open>
  What the buddy allocator promises its clients, as theorems over the functions of \<open>Mpool\<close> and
  \<open>Mstat\<close>, each with an instance on a small 32-bit pool where it has hypotheses.
\<close>

section \<open>Lemmas for the theorems\<close>

lemma abs_pool_part:
  assumes "pool_inv w p"
  shows "buddy_part (mp_maxlogsize p) (mp_minlogsize p) ((\<lambda>(off, k, _). (off, k)) ` abs_pool p)"
proof -
  have "(\<lambda>(off, k, _). (off, k)) ` abs_pool p = blk_of p ` set (live p)"
    by (auto simp: abs_pool_def abs_blk_def blk_of_def image_image)
  with pool_invD(4) [OF assms] show ?thesis by simp
qed

lemma abs_pool_disjoint:
  assumes inv: "pool_inv w p" and 1: "(o1, k1, av1) \<in> abs_pool p" and 2: "(o2, k2, av2) \<in> abs_pool p"
    and ne: "(o1, k1, av1) \<noteq> (o2, k2, av2)"
  shows "o1 + 2 ^ k1 \<le> o2 \<or> o2 + 2 ^ k2 \<le> o1"
proof (rule ccontr)
  assume no: "\<not> (o1 + 2 ^ k1 \<le> o2 \<or> o2 + 2 ^ k2 \<le> o1)"
  have mem: "(o1, k1) \<in> (\<lambda>(off, k, _). (off, k)) ` abs_pool p" "(o2, k2) \<in> (\<lambda>(off, k, _). (off, k)) ` abs_pool p"
    using 1 2 by force+
  have "covers (o1, k1) (max o1 o2)" "covers (o2, k2) (max o1 o2)"
    using no by (simp_all add: covers_def max_def)
  from buddy_part_unique [OF abs_pool_part [OF inv] mem this] have "o2 = o1" "k2 = k1" by simp_all
  moreover from abs_pool_off_unique [OF inv 1 2 [unfolded this(1)]] have "av2 = av1" by simp
  ultimately show False using ne by simp
qed

lemma abs_pool_wf:
  assumes "pool_inv w p" "(off, k, av) \<in> abs_pool p"
  shows "mp_minlogsize p \<le> k" "k \<le> mp_maxlogsize p" "2 ^ k dvd off" "off + 2 ^ k \<le> 2 ^ mp_maxlogsize p"
proof -
  have "(off, k) \<in> (\<lambda>(off, k, _). (off, k)) ` abs_pool p" using assms(2)
    by (intro image_eqI [of _ _ "(off, k, av)"]) simp_all
  from buddy_partD [OF abs_pool_part [OF assms(1)] this]
  show "mp_minlogsize p \<le> k" "k \<le> mp_maxlogsize p" "2 ^ k dvd off" "off + 2 ^ k \<le> 2 ^ mp_maxlogsize p"
    by (simp_all add: blk_wf_def)
qed

lemma merge_up_carve:
  assumes "k' \<le> k" "k \<le> M" "2 ^ k dvd off"
    and "k < M \<Longrightarrow> (buddy_off off k, k, True) \<notin> R"
    and "\<And>j. k' \<le> j \<Longrightarrow> j < k \<Longrightarrow> (off + 2 ^ j, j, True) \<notin> R"
  shows "merge_up M (R \<union> (\<lambda>j. (off + 2 ^ j, j, True)) ` {k'..<k}) off k' = insert (off, k, True) R"
  using assms
proof (induction k' rule: inc_induct)
  case base
  then show ?case by (subst merge_up.simps) auto
next
  case (step i)
  have d: "2 ^ Suc i dvd off" using step(2) by (intro dvd_trans [OF le_imp_power_dvd step.prems(2)]) simp
  have b: "buddy_off off i = off + 2 ^ i" by (rule buddy_off_even [OF d])
  have "R \<union> (\<lambda>j. (off + 2 ^ j, j, True)) ` {i..<k} - {(off + 2 ^ i, i, True)} =
      R \<union> (\<lambda>j. (off + 2 ^ j, j, True)) ` {Suc i..<k}"
  proof -
    have "{i..<k} = insert i {Suc i..<k}" using step(2) by auto
    moreover have "(off + 2 ^ i, i, True) \<notin> R" using step.prems(4) [of i] step(2) by simp
    ultimately show ?thesis by (simp only: image_insert) auto
  qed
  moreover have "merge_up M (R \<union> (\<lambda>j. (off + 2 ^ j, j, True)) ` {Suc i..<k}) off (Suc i) = insert (off, k, True) R"
    using step.prems by (intro step.IH) auto
  ultimately show ?case
    using step(2) step.prems(1) by (subst merge_up.simps) (simp add: b)
qed

lemma spec_free_carve:
  assumes inv: "pool_inv w p" and c: "coalesced (mp_maxlogsize p) (abs_pool p)"
    and b: "(off, k, True) \<in> abs_pool p" and k': "k' \<le> k"
  shows "spec_free (mp_maxlogsize p) (abs_pool p - {(off, k, True)} \<union> spec_carve off k k') off k' = abs_pool p"
proof -
  let ?M = "mp_maxlogsize p" and ?R = "abs_pool p - {(off, k, True)}"
  have "(off, k', False) \<notin> abs_pool p" using abs_pool_off_unique [OF inv b] by blast
  then have R: "?R \<union> spec_carve off k k' - {(off, k', False)} =
      ?R \<union> (\<lambda>j. (off + 2 ^ j, j, True)) ` {k'..<k}"
    by (auto simp: spec_carve_def)
  have "merge_up ?M (?R \<union> (\<lambda>j. (off + 2 ^ j, j, True)) ` {k'..<k}) off k' = insert (off, k, True) ?R"
  proof (rule merge_up_carve [OF k'])
    show "k \<le> ?M" "2 ^ k dvd off" using abs_pool_wf [OF inv b] by simp_all
    show "k < ?M \<Longrightarrow> (buddy_off off k, k, True) \<notin> ?R" using c b by (auto simp: coalesced_def)
    show "(off + 2 ^ j, j, True) \<notin> ?R" if "j < k" for j
    proof
      assume a: "(off + 2 ^ j, j, True) \<in> ?R"
      have pw: "(2::nat) ^ j < 2 ^ k" using that by simp
      from abs_pool_disjoint [OF inv b, of "off + 2 ^ j" j True] a that have
        "off + 2 ^ k \<le> off + 2 ^ j \<or> off + 2 ^ j + 2 ^ j \<le> off" by auto
      moreover have "(0::nat) < 2 ^ j" by simp
      ultimately show False using pw by linarith
    qed
  qed
  also have "insert (off, k, True) ?R = abs_pool p" using b by auto
  finally show ?thesis unfolding spec_free_def R .
qed

lemma live_addr: "pool_inv w p \<Longrightarrow> (off, k, av) \<in> abs_pool p \<Longrightarrow>
    mp_mem p + off \<in> set (live p) \<and> ls_of p (mp_mem p + off) = k \<and> MPOOL_IS_AVAIL (mp_hdr p (mp_mem p + off)) = av"
  unfolding abs_pool_iff by (auto dest: pool_invD(6))

lemma all_avail_whole:
  assumes good: "good_pool w p" and M: "mp_maxlogsize p = M" and av: "\<forall>a\<in>set (live p). MPOOL_IS_AVAIL (mp_hdr p a)"
  shows "live p = [mp_mem p] \<and> abs_pool p = {(0, M, True)}"
proof -
  have inv: "pool_inv w p" and c: "coalesced M (abs_pool p)" using good M by (simp_all add: good_pool_def)
  let ?f = "\<lambda>(off, k, _). (off, k)"
  have tr: "(off, k, True) \<in> abs_pool p" if "(off, k) \<in> ?f ` abs_pool p" for off k
    using that av by (auto simp: abs_pool_def abs_blk_def)
  have "?f ` abs_pool p = {(0, M)}"
  proof (rule buddy_part_single [of M "mp_minlogsize p"])
    show "buddy_part M (mp_minlogsize p) (?f ` abs_pool p)" using abs_pool_part [OF inv] M by simp
    show "(buddy_off off k, k) \<notin> ?f ` abs_pool p" if "(off, k) \<in> ?f ` abs_pool p" "k < M" for off k
    proof
      assume "(buddy_off off k, k) \<in> ?f ` abs_pool p"
      from tr [OF that(1)] tr [OF this] c that(2) show False by (simp add: coalesced_def)
    qed
  qed
  then have "blk_of p ` set (live p) = {(0, M)}"
    by (simp add: abs_pool_def abs_blk_def blk_of_def image_image)
  then have one: "a = mp_mem p \<and> ls_of p a = M" if "a \<in> set (live p)" for a
  proof -
    have "blk_of p a \<in> {(0, M)}" using that \<open>blk_of p ` set (live p) = {(0, M)}\<close> by blast
    then show ?thesis using pool_invD(6) [OF inv that] by (auto simp: blk_of_def)
  qed
  have ne: "live p \<noteq> []" using \<open>blk_of p ` set (live p) = {(0, M)}\<close> by auto
  from ne obtain a as where as: "live p = a # as" by (meson neq_Nil_conv)
  then have "as = []"
    using one [of a] one [of "hd as"] pool_invD(3) [OF inv] by (cases as) auto
  with as one have lv: "live p = [mp_mem p]" by simp
  then show ?thesis using one av by (simp add: abs_pool_def abs_blk_def)
qed

section \<open>A pool to apply the theorems to\<close>

definition ex_hdr :: "addr \<Rightarrow> blknode" where
  "ex_hdr = (\<lambda>_. \<lparr>bn_flags = 0, bn_logsize = 0, bn_ptr = 0\<rparr>)"

definition ex_heap :: cheap where
  "ex_heap = \<lparr>hp_next = 4096, hp_limit = 65536, hp_live = [], hp_sched = [], hp_bad = False\<rparr>"

definition ex_pool :: mpool where
  "ex_pool = fresh_pool 4 ex_hdr 6 5 4096 4128 4192"

definition ex_used :: mpool where
  "ex_used = snd (the (mpool_alloc 4 ex_pool 5))"

lemma ex_heap_wf: "heap_wf ex_heap" "hp_limit ex_heap \<le> size_mod 4" "hp_limit ex_heap \<le> size_mod 8"
  by (simp_all add: heap_wf_def ex_heap_def size_mod_def)

lemma ex_pool_fields:
  "mp_mem ex_pool = 4128" "mp_maxlogsize ex_pool = 6" "mp_minlogsize ex_pool = 5"
  "live ex_pool = [4128]" "abs_pool ex_pool = {(0, 6, True)}"
  unfolding ex_pool_def fresh_pool_live fresh_pool_abs by (simp_all add: fresh_pool_def)

lemma ex_pool_good: "good_pool 4 ex_pool"
  unfolding good_pool_def ex_pool_def
  by (simp add: fresh_pool_counts fresh_pool_abs fresh_pool_inv sizeof_blknode_def size_mod_def)
    (simp add: coalesced_def fresh_pool_def)

lemma ex_pool_inv: "pool_inv 4 ex_pool"
  using ex_pool_good by (simp add: good_pool_def)

lemma ex_pool_alloc:
  "mpool_alloc 4 ex_pool 5 = Some (Some 4148, ex_used)"
  "abs_pool ex_used = {(0, 5, False), (32, 5, True)}" "mp_mem ex_used = 4128"
proof -
  have d: "sz_add 4 5 (sizeof_blknode 4) = 25" by (simp add: sz_add_def size_mod_def sizeof_blknode_def)
  have "mpool_alloc 4 ex_pool 5 = Some (Some 4148, ex_used) \<and>
     abs_pool ex_used = {(0, 5, False), (32, 5, True)} \<and> mp_mem ex_used = 4128"
  proof (rule mpool_alloc_ok [OF ex_pool_inv, of 5])
    assume "\<And>off k. (off, k, True) \<in> abs_pool ex_pool \<Longrightarrow> 2 ^ k < sz_add 4 5 (sizeof_blknode 4)"
    from this [of 0 6] show ?thesis by (simp add: ex_pool_fields d)
  next
    fix a k' p'
    assume r: "mpool_alloc 4 ex_pool 5 = Some (Some (a + sizeof_blknode 4), p')" and a: "a \<in> set (live ex_pool)"
      and R: "alloc_result 4 ex_pool (sz_add 4 5 (sizeof_blknode 4)) a k' p'"
      and s: "spec_alloc (mp_minlogsize ex_pool) (sz_add 4 5 (sizeof_blknode 4)) (abs_pool ex_pool) (a - mp_mem ex_pool) k' (abs_pool p')"
    have a: "a = 4128" using a by (simp add: ex_pool_fields)
    have k: "spec_fits 5 25 k'" "k' \<le> 6" and S: "abs_pool p' = spec_carve 0 6 k'"
      using s by (auto simp: spec_alloc_def ex_pool_fields d a)
    have "k' = 5 \<or> k' = 6" using k by (auto simp: spec_fits_def)
    with k have "k' = 5" by (auto simp: spec_fits_def)
    then have "abs_pool p' = {(0, 5, False), (32, 5, True)}" unfolding S spec_carve_def
      using atLeastLessThanSuc [of 5 5] by simp
    moreover have "p' = ex_used" by (simp add: ex_used_def r)
    moreover have "mp_mem p' = 4128" using R by (simp add: alloc_result_def same_pool_def ex_pool_fields)
    ultimately show ?thesis using r a by (simp add: sizeof_blknode_def)
  qed
  then show "mpool_alloc 4 ex_pool 5 = Some (Some 4148, ex_used)"
    "abs_pool ex_used = {(0, 5, False), (32, 5, True)}" "mp_mem ex_used = 4128" by blast+
qed

lemma ex_used_good: "good_pool 4 ex_used"
  using good_step [OF ex_pool_good mp_step.alloc [OF ex_pool_alloc(1)]] by blast

lemma ex_used_inv: "pool_inv 4 ex_used"
  using ex_used_good by (simp add: good_pool_def)

lemma ex_used_block:
  "4128 \<in> set (live ex_used)" "ls_of ex_used 4128 = 5" "\<not> MPOOL_IS_AVAIL (mp_hdr ex_used 4128)"
  "4160 \<in> set (live ex_used)" "MPOOL_IS_AVAIL (mp_hdr ex_used 4160)"
  using live_addr [OF ex_used_inv, of 0 5 False] live_addr [OF ex_used_inv, of 32 5 True]
  by (simp_all add: ex_pool_alloc)


section \<open>Theorems\<close>

text \<open>C1: Every pool a client can reach satisfies the allocator's invariant (aligned blocks that
  tile the pool, each on the list of its size, with correct flags), never has two free
  equal-sized buddies, and counts one block more than splits minus merges; no allocation and no
  release of a block in use runs into undefined behaviour or fails to return.\<close>

theorem mpool_reach_safe:
  assumes "mp_reach w M m p"
  shows "pool_inv w p \<and> coalesced M (abs_pool p) \<and> counts_ok w p \<and>
    (\<forall>n. mpool_alloc w p n \<noteq> None) \<and>
    (\<forall>a\<in>set (live p). \<not> MPOOL_IS_AVAIL (mp_hdr p a) \<longrightarrow> mpool_free w p (a + sizeof_blknode w) \<noteq> None)"
proof -
  from good_reach [OF assms] have g: "good_pool w p" "mp_maxlogsize p = M" by blast+
  then have inv: "pool_inv w p" by (simp add: good_pool_def)
  have "mpool_alloc w p n \<noteq> None" for n by (rule mpool_alloc_ok [OF inv, of n]) simp_all
  moreover have "mpool_free w p (a + sizeof_blknode w) \<noteq> None"
    if "a \<in> set (live p)" "\<not> MPOOL_IS_AVAIL (mp_hdr p a)" for a
    using mpool_free_ok [OF inv that] by auto
  ultimately show ?thesis using g by (auto simp: good_pool_def)
qed

lemma mpool_reach_safe_witness:
  "\<exists>p h'. mpool_init 4 ex_hdr 6 5 ex_heap = Some ((MPOOL_OK, Some p), h') \<and>
     pool_inv 4 p \<and> mpool_alloc 4 p 5 \<noteq> None"
proof (rule mpool_init_cases [of 6 4 5 ex_heap ex_hdr])
  fix pm mem tbl h'
  assume i: "mpool_init 4 ex_hdr 6 5 ex_heap = Some ((MPOOL_OK, Some (fresh_pool 4 ex_hdr 6 5 pm mem tbl)), h')"
  from mpool_reach_safe [OF mp_reach.init [OF i ex_heap_wf(1,2)]] i show ?thesis by blast
next
  fix h' assume "mpool_init 4 ex_hdr 6 5 ex_heap = Some ((MPOOL_ENOMEM, None), h')"
  then show ?thesis
    by (simp add: mpool_init_def shl1_def malloc_def ex_heap_def sizeof_blknode_def sizeof_mpool_def
        sizeof_blkhead_def chain_insert_head_def)
qed (simp_all add: init_error_def sizeof_blknode_def ex_heap_wf)

text \<open>C2: Allocation refines its specification: it returns NULL, and changes nothing, exactly
  when no available block holds the request and its header; otherwise it takes an available block
  of the least sufficient size, cuts it down to the block size that fits, marks that one used
  and returns the address behind its header.\<close>

theorem mpool_alloc_refines:
  assumes "pool_inv w p"
  shows "case mpool_alloc w p n of
      None \<Rightarrow> False
    | Some (None, p') \<Rightarrow> p' = p \<and>
        (\<forall>off k. (off, k, True) \<in> abs_pool p \<longrightarrow> 2 ^ k < sz_add w n (sizeof_blknode w))
    | Some (Some r, p') \<Rightarrow> pool_inv w p' \<and> same_pool p p' \<and>
        (\<exists>off k. r = mp_mem p + off + sizeof_blknode w \<and>
           spec_alloc (mp_minlogsize p) (sz_add w n (sizeof_blknode w)) (abs_pool p) off k (abs_pool p'))"
proof (rule mpool_alloc_ok [OF assms, of n])
  fix a k' p'
  assume r: "mpool_alloc w p n = Some (Some (a + sizeof_blknode w), p')" "a \<in> set (live p)"
    "alloc_result w p (sz_add w n (sizeof_blknode w)) a k' p'"
    "spec_alloc (mp_minlogsize p) (sz_add w n (sizeof_blknode w)) (abs_pool p) (a - mp_mem p) k' (abs_pool p')"
  moreover have "a + sizeof_blknode w = mp_mem p + (a - mp_mem p) + sizeof_blknode w"
    using pool_invD(6) [OF assms r(2)] by simp
  ultimately have "\<exists>off k. a + sizeof_blknode w = mp_mem p + off + sizeof_blknode w \<and>
      spec_alloc (mp_minlogsize p) (sz_add w n (sizeof_blknode w)) (abs_pool p) off k (abs_pool p')" by blast
  with r(1,3) show ?thesis by (simp add: alloc_result_def)
qed simp

lemma mpool_alloc_refines_witness: "\<exists>r p'. mpool_alloc 4 ex_pool 5 = Some (Some r, p') \<and> pool_inv 4 p'"
  using mpool_alloc_refines [OF ex_pool_inv, of 5] ex_pool_alloc(1) by simp

text \<open>C3: Releasing a block in use refines its specification: the call returns, keeps the
  invariant, and makes the block available after merging it with its free buddy, again and again
  as long as the buddy is free and of the same size.\<close>

theorem mpool_free_refines:
  assumes "pool_inv w p" "a \<in> set (live p)" "\<not> MPOOL_IS_AVAIL (mp_hdr p a)"
  shows "\<exists>p'. mpool_free w p (a + sizeof_blknode w) = Some p' \<and> pool_inv w p' \<and> same_pool p p' \<and>
    abs_pool p' = spec_free (mp_maxlogsize p) (abs_pool p) (a - mp_mem p) (ls_of p a)"
  using mpool_free_ok [OF assms] by (auto simp: free_result_def)

lemma mpool_free_refines_witness: "\<exists>p'. mpool_free 4 ex_used 4148 = Some p' \<and> pool_inv 4 p'"
  using mpool_free_refines [OF ex_used_inv ex_used_block(1,3)] by (auto simp: sizeof_blknode_def)

text \<open>C7: The bytes an allocation returns lie in the pool, and no block that was in use
  before overlaps them or the header before them; every such block stays in use, with its size.\<close>

theorem mpool_alloc_disjoint:
  assumes "pool_inv w p" "n + sizeof_blknode w < size_mod w"
    and "mpool_alloc w p n = Some (Some r, p')"
  shows "mp_mem p + sizeof_blknode w \<le> r \<and> r + n \<le> mp_mem p + 2 ^ mp_maxlogsize p \<and>
    (\<forall>(off, k, av) \<in> abs_pool p. \<not> av \<longrightarrow> (off, k, av) \<in> abs_pool p' \<and>
       (r + n \<le> mp_mem p + off \<or> mp_mem p + off + 2 ^ k \<le> r - sizeof_blknode w))"
proof (rule mpool_alloc_ok [OF assms(1), of n])
  assume "mpool_alloc w p n = Some (None, p)"
  with assms(3) show ?thesis by simp
next
  fix a k' p2
  assume ok: "mpool_alloc w p n = Some (Some (a + sizeof_blknode w), p2)" and a: "a \<in> set (live p)"
    and s: "spec_alloc (mp_minlogsize p) (sz_add w n (sizeof_blknode w)) (abs_pool p) (a - mp_mem p) k' (abs_pool p2)"
  have eq: "r = a + sizeof_blknode w" "p2 = p'" using ok assms(3) by simp_all
  let ?o = "a - mp_mem p"
  have mem: "mp_mem p \<le> a" by (rule pool_invD(6) [OF assms(1) a])
  have sz: "sz_add w n (sizeof_blknode w) = n + sizeof_blknode w" using assms(2) by (rule sz_add_small)
  obtain k where k: "(?o, k, True) \<in> abs_pool p" "k' \<le> k" "n + sizeof_blknode w \<le> 2 ^ k'"
    and S: "abs_pool p' = abs_pool p - {(?o, k, True)} \<union> spec_carve ?o k k'"
    using s unfolding spec_alloc_def spec_fits_def sz eq by blast
  have le: "n + sizeof_blknode w \<le> 2 ^ k" using k(2,3) by (meson le_trans one_le_numeral power_increasing)
  have "r + n \<le> mp_mem p + 2 ^ mp_maxlogsize p"
    using abs_pool_wf(4) [OF assms(1) k(1)] le mem unfolding eq by linarith
  moreover have "\<not> av \<Longrightarrow> (off, j, av) \<in> abs_pool p' \<and>
      (r + n \<le> mp_mem p + off \<or> mp_mem p + off + 2 ^ j \<le> r - sizeof_blknode w)"
    if b: "(off, j, av) \<in> abs_pool p" for off j av
  proof -
    assume u: "\<not> av"
    have "?o + 2 ^ k \<le> off \<or> off + 2 ^ j \<le> ?o" using u by (intro abs_pool_disjoint [OF assms(1) k(1) b]) simp
    then show ?thesis using b u le mem unfolding S eq by auto
  qed
  moreover have "mp_mem p + sizeof_blknode w \<le> r" using mem unfolding eq by simp
  ultimately show ?thesis by blast
qed

lemma mpool_alloc_disjoint_witness:
  "(5::nat) + sizeof_blknode 4 < size_mod 4 \<and> mpool_alloc 4 ex_pool 5 = Some (Some 4148, ex_used) \<and> (4153::nat) \<le> 4192"
  using mpool_alloc_disjoint [OF ex_pool_inv _ ex_pool_alloc(1)] ex_pool_alloc(1)
  by (simp add: sizeof_blknode_def size_mod_def ex_pool_fields)

text \<open>C8: Releasing what has just been allocated restores the blocks of the pool.\<close>

theorem mpool_alloc_free_roundtrip:
  assumes "good_pool w p" "mpool_alloc w p n = Some (Some r, p')"
  shows "\<exists>p2. mpool_free w p' r = Some p2 \<and> good_pool w p2 \<and> abs_pool p2 = abs_pool p"
proof (rule mpool_alloc_ok [of w p n])
  show inv: "pool_inv w p" using assms(1) by (simp add: good_pool_def)
  have c: "coalesced (mp_maxlogsize p) (abs_pool p)" using assms(1) by (simp add: good_pool_def)
  assume "mpool_alloc w p n = Some (None, p)"
  with assms(2) show ?thesis by simp
next
  fix a k' p3
  assume ok: "mpool_alloc w p n = Some (Some (a + sizeof_blknode w), p3)" and a: "a \<in> set (live p)"
    and R: "alloc_result w p (sz_add w n (sizeof_blknode w)) a k' p3"
    and s: "spec_alloc (mp_minlogsize p) (sz_add w n (sizeof_blknode w)) (abs_pool p) (a - mp_mem p) k' (abs_pool p3)"
  have inv: "pool_inv w p" and c: "coalesced (mp_maxlogsize p) (abs_pool p)"
    using assms(1) by (simp_all add: good_pool_def)
  have eq: "r = a + sizeof_blknode w" "p3 = p'" using ok assms(2) by simp_all
  let ?o = "a - mp_mem p"
  have mem: "mp_mem p \<le> a" by (rule pool_invD(6) [OF inv a])
  have good': "good_pool w p'" using good_step [OF assms(1) mp_step.alloc [OF assms(2)]] by blast
  then have inv': "pool_inv w p'" by (simp add: good_pool_def)
  have same: "mp_mem p' = mp_mem p" "mp_maxlogsize p' = mp_maxlogsize p"
    using R by (simp_all add: alloc_result_def same_pool_def eq)
  obtain k where k: "(?o, k, True) \<in> abs_pool p" "k' \<le> k"
    and S: "abs_pool p' = abs_pool p - {(?o, k, True)} \<union> spec_carve ?o k k'"
    using s unfolding spec_alloc_def eq by blast
  have "(?o, k', False) \<in> abs_pool p'" unfolding S by (simp add: spec_carve_def)
  from live_addr [OF inv' this] have u: "a \<in> set (live p')" "ls_of p' a = k'" "\<not> MPOOL_IS_AVAIL (mp_hdr p' a)"
    using mem same by simp_all
  from mpool_free_ok [OF inv' u(1,3)] obtain p2 where
    f: "mpool_free w p' r = Some p2" and ab: "abs_pool p2 = spec_free (mp_maxlogsize p) (abs_pool p') ?o k'"
    unfolding u(2) same eq by blast
  have "abs_pool p2 = abs_pool p" unfolding ab S by (rule spec_free_carve [OF inv c k])
  moreover have "good_pool w p2"
    using good_step [OF good' mp_step.free [OF u(1,3)]] f by (simp add: eq)
  ultimately show ?thesis using f by blast
qed

lemma mpool_alloc_free_roundtrip_witness:
  "\<exists>p2. mpool_free 4 ex_used 4148 = Some p2 \<and> abs_pool p2 = {(0, 6, True)}"
  using mpool_alloc_free_roundtrip [OF ex_pool_good ex_pool_alloc(1)] by (auto simp: ex_pool_fields)

text \<open>C10: When every block has been released, merging has put the whole pool together again:
  the one block of the full size.\<close>

theorem mpool_all_free:
  assumes "mp_reach w M m p" "\<forall>a\<in>set (live p). MPOOL_IS_AVAIL (mp_hdr p a)"
  shows "live p = [mp_mem p] \<and> abs_pool p = {(0, M, True)}"
  using good_reach [OF assms(1)] assms(2) all_avail_whole [of w p M] by simp

lemma mpool_all_free_witness:
  "\<exists>p h'. mpool_init 4 ex_hdr 6 5 ex_heap = Some ((MPOOL_OK, Some p), h') \<and> live p = [mp_mem p]"
proof -
  have i: "mpool_init 4 ex_hdr 6 5 ex_heap =
      Some ((MPOOL_OK, Some (fresh_pool 4 ex_hdr 6 5 4096 4124 4188)),
        \<lparr>hp_next = 4196, hp_limit = 65536, hp_live = [4188, 4124, 4096], hp_sched = [], hp_bad = False\<rparr>)"
    by (simp add: mpool_init_def shl1_def malloc_def ex_heap_def sizeof_blknode_def sizeof_mpool_def
        sizeof_blkhead_def chain_insert_head_def fresh_pool_def)
  let ?p = "fresh_pool 4 ex_hdr 6 5 4096 4124 4188"
  have "\<forall>a\<in>set (live ?p). MPOOL_IS_AVAIL (mp_hdr ?p a)"
    unfolding fresh_pool_live by (simp add: fresh_pool_def flag_simps)
  from mpool_all_free [OF mp_reach.init [OF i ex_heap_wf(1,2)] this] i show ?thesis by blast
qed

text \<open>C30: Creation returns for every size below the width of an \<open>int\<close>: with the error its
  arguments deserve, or with \<open>MPOOL_ENOMEM\<close> and nothing leaked, or with a pool that is one
  available block of the full size and that \<open>mpool_destroy\<close> gives back to the heap without an
  invalid \<open>free\<close>.\<close>

theorem mpool_init_correct:
  assumes "M < 31" "heap_wf h" "hp_limit h \<le> size_mod w"
  shows "case mpool_init w g M m h of
      None \<Rightarrow> False
    | Some ((ret, None), h') \<Rightarrow>
        hp_live h' = hp_live h \<and> hp_bad h' = hp_bad h \<and>
        ret = (case init_error w M m of Some e \<Rightarrow> e | None \<Rightarrow> MPOOL_ENOMEM)
    | Some ((ret, Some p), h') \<Rightarrow>
        ret = MPOOL_OK \<and> init_error w M m = None \<and> good_pool w p \<and> abs_pool p = {(0, M, True)} \<and>
        hp_live (mpool_destroy p h') = hp_live h \<and> hp_bad (mpool_destroy p h') = hp_bad h"
proof (cases "init_error w M m")
  case (Some e)
  then show ?thesis by (simp add: mpool_init_bad [OF assms(1) Some])
next
  case None
  show ?thesis
  proof (rule mpool_init_cases [OF assms(1) None assms(2), of g])
    fix pm mem tbl h'
    let ?p = "fresh_pool w g M m pm mem tbl"
    assume r: "mpool_init w g M m h = Some ((MPOOL_OK, Some ?p), h')"
      and l: "hp_live h' = tbl # mem # pm # hp_live h" "hp_bad h' = hp_bad h"
    have "good_pool w ?p" using good_init [OF r assms(2,3)] by blast
    moreover have "hp_live (mpool_destroy ?p h') = hp_live h \<and> hp_bad (mpool_destroy ?p h') = hp_bad h"
      by (simp add: mpool_destroy_def fresh_pool_def cfree_def l)
    ultimately show ?thesis using r None by (simp add: fresh_pool_abs)
  qed (use None in simp)
qed

lemma mpool_init_correct_witness:
  "case mpool_init 8 ex_hdr 10 9 ex_heap of
      Some ((ret, Some p), h') \<Rightarrow> ret = MPOOL_OK \<and> abs_pool p = {(0, 10, True)} \<and> hp_live (mpool_destroy p h') = []
    | _ \<Rightarrow> False"
proof -
  have i: "mpool_init 8 ex_hdr 10 9 ex_heap =
      Some ((MPOOL_OK, Some (fresh_pool 8 ex_hdr 10 9 4096 4152 5176)),
        \<lparr>hp_next = 5192, hp_limit = 65536, hp_live = [5176, 4152, 4096], hp_sched = [], hp_bad = False\<rparr>)"
    by (simp add: mpool_init_def shl1_def malloc_def ex_heap_def sizeof_blknode_def sizeof_mpool_def
        sizeof_blkhead_def chain_insert_head_def fresh_pool_def)
  from mpool_init_correct [of 10 ex_heap 8 9 ex_hdr] i show ?thesis
    by (simp add: ex_heap_wf) (simp add: ex_heap_def)
qed

text \<open>C32: The two builds of \<open>mpool_free\<close> agree on pointers to blocks of the pool, and the one with
  \<open>MPOOL_OPT_FOR_SECURITY\<close> ignores every other pointer.\<close>

theorem mpool_free_secure_agrees:
  assumes "pool_inv w p"
  shows "mpool_free_secure w p ptr =
    (if \<exists>a\<in>set (live p). ptr = a + sizeof_blknode w then mpool_free w p ptr else Some p)"
proof -
  have ptr: "bn_ptr (mp_hdr p a) = a + sizeof_blknode w" if "a \<in> set (live p)" for a
    using pool_invD(5) [OF assms that] by (simp add: hdr_ok_def)
  show ?thesis
  proof (cases "mpool_search_ptr p ptr")
    case None
    then have "\<not> (\<exists>a\<in>set (live p). ptr = a + sizeof_blknode w)"
      using ptr by (auto simp: mpool_search_ptr_def pool_take [OF assms] find_None_iff)
    with None show ?thesis by (simp add: mpool_free_secure_def)
  next
    case (Some a)
    then have a: "a \<in> set (live p)" "bn_ptr (mp_hdr p a) = ptr"
      by (auto simp: mpool_search_ptr_def pool_take [OF assms] find_Some_iff)
    have "sz_sub w ptr (sizeof_blknode w) = a" using free_addr [OF assms a(1)] a ptr by simp
    with Some a ptr show ?thesis by (auto simp: mpool_free_secure_def mpool_free_def)
  qed
qed

lemma mpool_free_secure_agrees_witness:
  "mpool_free_secure 4 ex_used 4148 = mpool_free 4 ex_used 4148 \<and> mpool_free_secure 4 ex_used 4149 = Some ex_used"
proof -
  have "a = 4128 \<or> a = 4160" if "a \<in> set (live ex_used)" for a
  proof -
    have "abs_blk ex_used a \<in> abs_pool ex_used" using that by (simp add: abs_pool_def)
    with pool_invD(6) [OF ex_used_inv that] show ?thesis by (auto simp: ex_pool_alloc abs_blk_def)
  qed
  then have "\<not> (\<exists>a\<in>set (live ex_used). 4149 = a + sizeof_blknode 4)" by (force simp: sizeof_blknode_def)
  moreover have "\<exists>a\<in>set (live ex_used). 4148 = a + sizeof_blknode 4"
    using ex_used_block(1) by (auto simp: sizeof_blknode_def)
  ultimately show ?thesis by (simp add: mpool_free_secure_agrees [OF ex_used_inv])
qed

text \<open>The buddy that \<open>mpool_free\<close> computes from a block's flags and size is always the first
  byte of a block of the pool, of at most the same size, so the header it reads there is a
  real one and the two \<open>buddy out of pool\<close> exits are never taken.\<close>

theorem mpool_buddy_is_block:
  assumes "pool_inv w p" "a \<in> set (live p)" "ls_of p a < mp_maxlogsize p"
  shows "\<exists>b\<in>set (live p). mpool_buddy w p a = Some (Some b) \<and> ls_of p b \<le> ls_of p a \<and>
    b - mp_mem p = buddy_off (a - mp_mem p) (ls_of p a) \<and>
    MPOOL_IS_RIGHT (mp_hdr p a) = (b < a)"
proof -
  let ?off = "a - mp_mem p" and ?k = "ls_of p a"
  let ?b = "mp_mem p + buddy_off ?off ?k"
  note e = mpool_buddy_eq [OF assms]
  have mem: "mp_mem p \<le> a" by (rule pool_invD(6) [OF assms(1,2)])
  have "ls_of p ?b \<le> ?k"
  proof -
    from buddy_part_buddy [OF pool_invD(4) [OF assms(1)], of ?off ?k] assms(2,3) obtain k' where
      k': "k' \<le> ?k" "(buddy_off ?off ?k, k') \<in> blk_of p ` set (live p)"
      by (auto simp: blk_of_def)
    have "(buddy_off ?off ?k, ls_of p ?b) \<in> blk_of p ` set (live p)"
      using e(2) by (intro image_eqI [of _ _ ?b]) (simp_all add: blk_of_def)
    from buddy_part_same_off [OF pool_invD(4) [OF assms(1)] k'(2) this] k'(1) show ?thesis by simp
  qed
  moreover have "odd (?off div 2 ^ ?k) = (?b < a)"
  proof (cases "even (?off div 2 ^ ?k)")
    case False
    then have "2 ^ ?k \<le> ?off" by (metis div_less dvd_0_right not_le)
    moreover have "(0::nat) < 2 ^ ?k" by simp
    ultimately have "mp_mem p + (?off - 2 ^ ?k) < a" using mem by linarith
    with False show ?thesis by (simp add: buddy_off_def)
  qed (use mem in \<open>simp add: buddy_off_def\<close>)
  then have "MPOOL_IS_RIGHT (mp_hdr p a) = (?b < a)"
    using pool_invD(5) [OF assms(1,2)] by (simp add: hdr_ok_def)
  ultimately show ?thesis using e by (intro bexI [of _ ?b]) simp_all
qed

lemma mpool_buddy_is_block_witness: "mpool_buddy 4 ex_used 4128 = Some (Some 4160)"
  using mpool_buddy_is_block [OF ex_used_inv ex_used_block(1)] ex_used_block pool_invD(6) [OF ex_used_inv]
    good_step [OF ex_pool_good mp_step.alloc [OF ex_pool_alloc(1)]]
  by (force simp: ex_pool_fields ex_pool_alloc(3) buddy_off_def)

text \<open>The byte statistics account for the whole pool: the available bytes are those of the
  available blocks and with the used bytes they add up to the size of the pool, without
  wrap-around.\<close>

theorem mpool_stat_bytes_conserved:
  assumes "pool_inv w p"
  shows "\<exists>av us. mpool_stat_get_bytes w p = Some (av, us) \<and> av + us = 2 ^ mp_maxlogsize p \<and>
    av = (\<Sum>b\<in>{b \<in> abs_pool p. snd (snd b)}. 2 ^ fst (snd b))"
  using stat_bytes_pool [OF assms] avails_abs(2) [OF assms] bytes_split [of p "live p"] pool_bytes [OF assms]
  by simp

lemma mpool_stat_bytes_conserved_witness: "mpool_stat_get_bytes 4 ex_used = Some (32, 32)"
proof -
  have "{b \<in> abs_pool ex_used. snd (snd b)} = {(32, 5, True)}" unfolding ex_pool_alloc by auto
  moreover have "mp_maxlogsize ex_used = 6"
    using good_step [OF ex_pool_good mp_step.alloc [OF ex_pool_alloc(1)]] by (simp add: ex_pool_fields)
  ultimately show ?thesis using mpool_stat_bytes_conserved [OF ex_used_inv] by auto
qed

text \<open>The node statistics count the blocks of the pool, available and used, and agree with
  the counters of splits and merges, modulo the range of \<open>size_t\<close>.\<close>

theorem mpool_stat_nodes_splits_merges:
  assumes "good_pool w p"
  shows "\<exists>av us. mpool_stat_get_nodes w p = (av, us) \<and>
    av = card {b \<in> abs_pool p. snd (snd b)} \<and> av + us = card (abs_pool p) \<and>
    (av + us + mpool_stat_get_merges p) mod size_mod w = (mpool_stat_get_splits p + 1) mod size_mod w"
proof -
  have inv: "pool_inv w p" and c: "counts_ok w p" using assms by (simp_all add: good_pool_def)
  have "length (avails p (live p)) + length (useds p (live p)) = length (live p)"
    by (rule sum_length_filter_compl)
  moreover have "length (live p) = card (abs_pool p)"
    unfolding abs_pool_def card_image [OF abs_blk_inj [OF inv]] using pool_invD(3) [OF inv] by (simp add: distinct_card)
  ultimately show ?thesis
    using stat_nodes_pool [OF inv] avails_abs(1) [OF inv] c
    by (simp add: counts_ok_def mpool_stat_get_merges_def mpool_stat_get_splits_def)
qed

lemma mpool_stat_nodes_splits_merges_witness: "mpool_stat_get_nodes 4 ex_used = (1, 1)"
proof -
  have "{b \<in> abs_pool ex_used. snd (snd b)} = {(32, 5, True)}" unfolding ex_pool_alloc by auto
  then show ?thesis
    using mpool_stat_nodes_splits_merges [OF ex_used_good] by (auto simp: ex_pool_alloc(2))
qed

text \<open>A request so big that adding the header size wraps around is not refused: as long as any
  block is available, the call returns a pointer, and the bytes asked for run beyond the pool.\<close>

theorem mpool_alloc_wraps:
  assumes "pool_inv w p" "n < size_mod w" "size_mod w \<le> n + sizeof_blknode w"
    and "(off, k, True) \<in> abs_pool p"
  shows "\<exists>r p'. mpool_alloc w p n = Some (Some r, p') \<and>
    (\<exists>o'. r = mp_mem p + o' + sizeof_blknode w \<and> (o', mp_minlogsize p, False) \<in> abs_pool p') \<and>
    mp_mem p + 2 ^ mp_maxlogsize p < r + n"
proof -
  have d: "mp_mem p + 2 ^ mp_maxlogsize p \<le> size_mod w" "sizeof_blknode w < 2 ^ mp_minlogsize p" "0 < mp_mem p"
    using pool_invD(1) [OF assms(1)] by (simp_all add: pool_dims_def)
  let ?sz = "sz_add w n (sizeof_blknode w)"
  have "(2::nat) ^ mp_minlogsize p \<le> 2 ^ k" if "mp_minlogsize p \<le> k" for k
    using that by (simp add: power_increasing)
  have "(2::nat) ^ mp_minlogsize p \<le> 2 ^ mp_maxlogsize p"
    using pool_invD(1) [OF assms(1)] by (intro power_increasing) (simp_all add: pool_dims_def)
  then have small: "sizeof_blknode w < size_mod w" using d by linarith
  have sz: "?sz = n + sizeof_blknode w - size_mod w"
    unfolding sz_add_def using assms(2,3) small by (simp add: mod_if)
  have lt: "?sz < 2 ^ mp_minlogsize p" using sz assms(2) d by linarith
  show ?thesis
  proof (rule mpool_alloc_ok [OF assms(1), of n])
    assume no: "\<And>off k. (off, k, True) \<in> abs_pool p \<Longrightarrow> 2 ^ k < ?sz"
    have "(2::nat) ^ mp_minlogsize p \<le> 2 ^ k"
      using abs_pool_wf(1) [OF assms(1,4)] by (simp add: power_increasing)
    with no [OF assms(4)] lt show ?thesis by linarith
  next
    fix a k' p'
    assume r: "mpool_alloc w p n = Some (Some (a + sizeof_blknode w), p')" and a: "a \<in> set (live p)"
      and s: "spec_alloc (mp_minlogsize p) ?sz (abs_pool p) (a - mp_mem p) k' (abs_pool p')"
    have fit: "spec_fits (mp_minlogsize p) ?sz k'" and u: "(a - mp_mem p, k', False) \<in> abs_pool p'"
      using s by (auto simp: spec_alloc_def spec_carve_def)
    have "k' = mp_minlogsize p"
    proof (rule ccontr)
      assume "k' \<noteq> mp_minlogsize p"
      with fit have "mp_minlogsize p \<le> k' - 1" "2 ^ (k' - 1) < ?sz" by (auto simp: spec_fits_def)
      moreover from this(1) have "(2::nat) ^ mp_minlogsize p \<le> 2 ^ (k' - 1)" by (simp add: power_increasing)
      ultimately show False using lt by linarith
    qed
    moreover have mem: "mp_mem p \<le> a" by (rule pool_invD(6) [OF assms(1) a])
    moreover have "mp_mem p + 2 ^ mp_maxlogsize p < a + sizeof_blknode w + n"
      using d mem assms(3) by linarith
    ultimately show ?thesis
      using r u by (intro exI [of _ "a + sizeof_blknode w"] exI [of _ p'] conjI exI [of _ "a - mp_mem p"]) simp_all
  qed
qed

lemma mpool_alloc_wraps_witness:
  "\<exists>r p'. mpool_alloc 4 ex_pool 4294967295 = Some (Some r, p') \<and> 4192 < r + 4294967295"
  using mpool_alloc_wraps [OF ex_pool_inv, of 4294967295 0 6]
  by (auto simp: size_mod_def sizeof_blknode_def ex_pool_fields)

text \<open>Releasing a block that is already available, as a second \<open>free\<close> of a block that has not
  been merged away does, changes no block.\<close>

theorem mpool_double_free_harmless:
  assumes "good_pool w p" "a \<in> set (live p)" "MPOOL_IS_AVAIL (mp_hdr p a)"
  shows "\<exists>p'. mpool_free w p (a + sizeof_blknode w) = Some p' \<and> pool_inv w p' \<and> abs_pool p' = abs_pool p"
proof -
  have inv: "pool_inv w p" and c: "coalesced (mp_maxlogsize p) (abs_pool p)"
    using assms(1) by (simp_all add: good_pool_def)
  obtain p' where r: "mpool_chunk_found w p a = Some p'" and R: "free_result w p a p'"
    using mpool_chunk_found_ok [OF inv assms(2)] by blast
  have ab: "abs_blk p a = (a - mp_mem p, ls_of p a, True)" and b: "abs_blk p a \<in> abs_pool p"
    using assms(2,3) by (simp_all add: abs_blk_def abs_pool_def)
  have "merge_up (mp_maxlogsize p) (abs_pool p - {abs_blk p a}) (a - mp_mem p) (ls_of p a) =
      insert (abs_blk p a) (abs_pool p - {abs_blk p a})"
    using c b unfolding coalesced_def ab by (subst merge_up.simps) auto
  then have "abs_pool p' = abs_pool p" using R b by (auto simp: free_result_def)
  moreover have "sz_sub w (a + sizeof_blknode w) (sizeof_blknode w) = a"
    by (rule free_addr [OF inv assms(2)])
  ultimately show ?thesis using r R by (simp add: mpool_free_def free_result_def)
qed

lemma mpool_double_free_harmless_witness:
  "\<exists>p'. mpool_free 4 ex_used 4180 = Some p' \<and> abs_pool p' = {(0, 5, False), (32, 5, True)}"
  using mpool_double_free_harmless [OF ex_used_good ex_used_block(4,5)]
  by (auto simp: sizeof_blknode_def ex_pool_alloc(2))

text \<open>On LP64 systems the check of the arguments accepts logarithms from 31 to 64, although the
  size is computed as an \<open>int\<close>: once \<open>malloc\<close> has granted the pool structure, the call is
  undefined.\<close>

theorem mpool_init_shift_undefined:
  assumes "31 \<le> M" "M \<le> 8 * w" "m < 31" "sizeof_blknode w < 2 ^ m"
    and "malloc (sizeof_mpool w) h = (Some a, h1)"
  shows "init_error w M m = None \<and> mpool_init w g M m h = None"
  using assms by (simp add: init_error_def mpool_init_def shl1_def)

lemma mpool_init_shift_undefined_witness: "mpool_init 8 ex_hdr 40 6 ex_heap = None"
  using mpool_init_shift_undefined [of 40 8 6 ex_heap 4096]
  by (simp add: sizeof_blknode_def sizeof_mpool_def malloc_def ex_heap_def)

text \<open>The arguments \<open>(10, 5)\<close> of the repository's own test programs are refused on LP64 systems,
  where a block header takes 40 bytes, whatever the heap.\<close>

theorem mpool_init_tests_lp64:
  "mpool_init 8 g 10 5 h = Some ((MPOOL_EBADVAL, None), h)"
  by (rule mpool_init_bad) (simp_all add: init_error_def sizeof_blknode_def)

end
