(* ===== verification/Pool_Used.thy ===== *)
theory Pool_Used imports Mpool_Props begin

text \<open>
  What \<open>mpool_alloc\<close> and \<open>mpool_free\<close> do to the blocks in use, for clients of the pool: the set
  \<open>used_blocks\<close> gains exactly the block handed out and loses exactly the block released, and as
  long as few small blocks are in use, an allocation cannot fail.
\<close>

definition used_blocks :: "mpool \<Rightarrow> (nat \<times> nat) set" where
  "used_blocks p = {(off, k). (off, k, False) \<in> abs_pool p}"

definition handle_off :: "nat \<Rightarrow> mpool \<Rightarrow> addr \<Rightarrow> nat" where
  \<comment> \<open>The offset of the block whose client pointer is given.\<close>
  "handle_off w p r = r - (mp_mem p + sizeof_blknode w)"

lemma handle_off_same: "same_pool p p' \<Longrightarrow> handle_off w p' r = handle_off w p r"
  by (simp add: handle_off_def same_pool_def)

lemma blocks_iff: "(off, k) \<in> (\<lambda>(off, k, _). (off, k)) ` S \<longleftrightarrow> (\<exists>av. (off, k, av) \<in> S)"
  by (auto simp: image_iff split: prod.splits)

lemma finite_used: "finite (used_blocks p)"
proof -
  have "finite (abs_pool p)" by (simp add: abs_pool_def)
  moreover have "used_blocks p \<subseteq> (\<lambda>(off, k, _). (off, k)) ` abs_pool p" by (force simp: used_blocks_def)
  ultimately show ?thesis by (meson finite_imageI finite_subset)
qed

lemma merge_up_used: "(x, j, False) \<in> merge_up M S off k \<longleftrightarrow> (x, j, False) \<in> S"
proof (induction M S off k rule: merge_up.induct)
  case (1 M S off k)
  show ?case
    by (cases "k < M \<and> (buddy_off off k, k, True) \<in> S") (subst merge_up.simps, use 1 in simp)+
qed

lemma alloc_used:
  assumes good: "good_pool w p"
  obtains (none) "mpool_alloc w p n = Some (None, p)"
      "\<And>off k. (off, k, True) \<in> abs_pool p \<Longrightarrow> 2 ^ k < sz_add w n (sizeof_blknode w)"
    | (some) r k p' where "mpool_alloc w p n = Some (Some r, p')" "good_pool w p'"
      "same_pool p p'" "mp_mem p + sizeof_blknode w \<le> r"
      "spec_fits (mp_minlogsize p) (sz_add w n (sizeof_blknode w)) k"
      "used_blocks p' = insert (handle_off w p r, k) (used_blocks p)"
      "\<And>k'. (handle_off w p r, k') \<notin> used_blocks p"
proof -
  have inv: "pool_inv w p" using good by (simp add: good_pool_def)
  show thesis
  proof (rule mpool_alloc_ok [OF inv, of n])
    assume "mpool_alloc w p n = Some (None, p)"
      "\<And>off k. (off, k, True) \<in> abs_pool p \<Longrightarrow> 2 ^ k < sz_add w n (sizeof_blknode w)"
    then show thesis by (rule none)
  next
    fix a k' p'
    assume r: "mpool_alloc w p n = Some (Some (a + sizeof_blknode w), p')" and a: "a \<in> set (live p)"
      and av: "MPOOL_IS_AVAIL (mp_hdr p a)"
      and R: "alloc_result w p (sz_add w n (sizeof_blknode w)) a k' p'"
    have g: "good_pool w p'" using good_step [OF good mp_step.alloc [OF r]] by blast
    have b: "(a - mp_mem p, ls_of p a, True) \<in> abs_pool p" using av a by (auto simp: abs_pool_iff)
    have mem: "mp_mem p \<le> a" by (rule pool_invD(6) [OF inv a])
    have off: "handle_off w p (a + sizeof_blknode w) = a - mp_mem p" using mem by (simp add: handle_off_def)
    have S: "abs_pool p' = abs_pool p - {(a - mp_mem p, ls_of p a, True)} \<union> spec_carve (a - mp_mem p) (ls_of p a) k'"
      using R av by (simp add: alloc_result_def abs_blk_def)
    have U: "used_blocks p' = insert (a - mp_mem p, k') (used_blocks p)"
      by (auto simp: used_blocks_def S spec_carve_def)
    have new: "(a - mp_mem p, k) \<notin> used_blocks p" for k
      using abs_pool_off_unique [OF inv b, of k False] by (auto simp: used_blocks_def)
    show thesis
      by (rule some [OF r g]) (use R mem U new in \<open>simp_all add: off alloc_result_def\<close>)
  qed
qed

lemma free_used:
  assumes good: "good_pool w p" and u: "(off, k) \<in> used_blocks p"
  obtains p' where "mpool_free w p (mp_mem p + off + sizeof_blknode w) = Some p'" "good_pool w p'"
    "same_pool p p'" "used_blocks p' = used_blocks p - {(off, k)}"
proof -
  have inv: "pool_inv w p" using good by (simp add: good_pool_def)
  have m: "(off, k, False) \<in> abs_pool p" using u by (simp add: used_blocks_def)
  note L = live_addr [OF inv m]
  have a: "mp_mem p + off \<in> set (live p)" "\<not> MPOOL_IS_AVAIL (mp_hdr p (mp_mem p + off))" and k: "ls_of p (mp_mem p + off) = k"
    using L by simp_all
  obtain p' where r: "mpool_free w p (mp_mem p + off + sizeof_blknode w) = Some p'"
    and R: "free_result w p (mp_mem p + off) p'"
    and S: "abs_pool p' = spec_free (mp_maxlogsize p) (abs_pool p) (mp_mem p + off - mp_mem p) (ls_of p (mp_mem p + off))"
    using mpool_free_ok [OF inv a] by blast
  have g: "good_pool w p'" using good_step [OF good mp_step.free [OF a r]] by blast
  have "used_blocks p' = used_blocks p - {(off, k)}"
    by (auto simp: used_blocks_def S spec_free_def merge_up_used k)
  with r g R show thesis by (intro that [of p']) (simp_all add: free_result_def)
qed

lemma no_used_all_avail:
  assumes "pool_inv w p" "used_blocks p = {}" "a \<in> set (live p)"
  shows "MPOOL_IS_AVAIL (mp_hdr p a)"
proof (rule ccontr)
  assume "\<not> MPOOL_IS_AVAIL (mp_hdr p a)"
  then have "(a - mp_mem p, ls_of p a) \<in> used_blocks p" using assms(3) by (auto simp: used_blocks_def abs_pool_iff)
  with assms(2) show False by simp
qed

lemma useds_count:
  assumes inv: "pool_inv w p"
  shows "length (useds p (live p)) = card (used_blocks p)"
proof -
  have "blk_of p ` set (useds p (live p)) = used_blocks p"
    by (auto simp: used_blocks_def blk_of_def abs_pool_iff image_iff)
  moreover have "card (blk_of p ` set (useds p (live p))) = card (set (useds p (live p)))"
    by (rule card_image, rule inj_on_subset [OF blk_of_inj [OF inv]]) auto
  moreover have "card (set (useds p (live p))) = length (useds p (live p))"
    using pool_invD(3) [OF inv] by (intro distinct_card) simp
  ultimately show ?thesis by simp
qed

lemma useds_bytes:
  assumes inv: "pool_inv w p"
  shows "bytes_of p (useds p (live p)) = (\<Sum>b\<in>used_blocks p. 2 ^ snd b)"
proof -
  have img: "used_blocks p = blk_of p ` set (useds p (live p))"
    by (auto simp: used_blocks_def blk_of_def abs_pool_iff image_iff)
  have inj: "inj_on (blk_of p) (set (useds p (live p)))"
    by (rule inj_on_subset [OF blk_of_inj [OF inv]]) auto
  have dist: "distinct (useds p (live p))" using pool_invD(3) [OF inv] by simp
  have "bytes_of p (useds p (live p)) = (\<Sum>a\<in>set (useds p (live p)). 2 ^ ls_of p a)"
    using dist by (simp only: sum_list_distinct_conv_sum_set)
  also have "\<dots> = (\<Sum>b\<in>blk_of p ` set (useds p (live p)). 2 ^ snd b)"
    unfolding sum.reindex [OF inj] by (rule sum.cong) (simp_all add: blk_of_def)
  finally show ?thesis unfolding img .
qed

section \<open>When an allocation succeeds\<close>

text \<open>
  If every available block has the least size \<open>2 ^ m\<close>, each of them has a used buddy of that size,
  because free buddies would have been merged. So the available bytes are at most the number of
  used blocks times \<open>2 ^ m\<close>.
\<close>

lemma avail_min_bound:
  assumes good: "good_pool w p" and m: "mp_minlogsize p = m" "m < mp_maxlogsize p"
    and small: "\<And>off k. (off, k, True) \<in> abs_pool p \<Longrightarrow> k = m"
  shows "bytes_of p (avails p (live p)) \<le> card (used_blocks p) * 2 ^ m"
proof -
  have inv: "pool_inv w p" and c: "coalesced (mp_maxlogsize p) (abs_pool p)" using good by (simp_all add: good_pool_def)
  let ?A = "{off. (off, m, True) \<in> abs_pool p}" and ?f = "\<lambda>off. (buddy_off off m, m)"
  have dv: "2 ^ m dvd off" if "off \<in> ?A" for off using abs_pool_wf(3) [OF inv, of off m True] that by simp
  have inj: "inj_on ?f ?A"
    by (rule inj_on_inverseI [where g = "\<lambda>(off, k). buddy_off off k"]) (simp add: buddy_off_invol dv)
  have sub: "?f ` ?A \<subseteq> used_blocks p"
  proof (rule image_subsetI)
    fix off assume off: "off \<in> ?A"
    then have "(off, m) \<in> (\<lambda>(off, k, _). (off, k)) ` abs_pool p"
      unfolding blocks_iff by blast
    from buddy_part_buddy [OF abs_pool_part [OF inv] this m(2)]
    have "\<exists>k'\<le>m. \<exists>av. (buddy_off off m, k', av) \<in> abs_pool p" unfolding blocks_iff .
    then obtain k' av where b: "(buddy_off off m, k', av) \<in> abs_pool p" "k' \<le> m" by (elim exE conjE)
    have k: "k' = m" using abs_pool_wf(1) [OF inv b(1)] b(2) m(1) by simp
    have "av = False" using c off b(1) m(2) unfolding k coalesced_def by auto
    with b k show "?f off \<in> used_blocks p" by (simp add: used_blocks_def)
  qed
  have "{b \<in> abs_pool p. snd (snd b)} = (\<lambda>off. (off, m, True)) ` ?A"
  proof (intro equalityI subsetI)
    fix b assume "b \<in> {b \<in> abs_pool p. snd (snd b)}"
    then obtain off k where b: "b = (off, k, True)" "(off, k, True) \<in> abs_pool p" by (cases b) auto
    show "b \<in> (\<lambda>off. (off, m, True)) ` ?A"
      using b small [OF b(2)] by (intro image_eqI [of _ _ off]) simp_all
  qed (elim imageE, simp)
  moreover have "card ((\<lambda>off. (off, m, True)) ` ?A) = card ?A" by (rule card_image) (simp add: inj_on_def)
  moreover have "card ?A \<le> card (used_blocks p)" using card_inj_on_le [OF inj sub finite_used] .
  moreover have "bytes_of p (avails p (live p)) = (\<Sum>b\<in>{b \<in> abs_pool p. snd (snd b)}. 2 ^ fst (snd b))"
    by (rule avails_abs(2) [OF inv])
  moreover have "(\<Sum>b\<in>{b \<in> abs_pool p. snd (snd b)}. 2 ^ fst (snd b) :: nat) = (\<Sum>b\<in>{b \<in> abs_pool p. snd (snd b)}. 2 ^ m)"
    by (rule sum.cong) (use small in auto)
  ultimately show ?thesis by simp
qed

lemma alloc_succeeds:
  assumes good: "good_pool w p" and m: "mp_minlogsize p = m" "m < mp_maxlogsize p"
    and sz: "sz_add w n (sizeof_blknode w) \<le> 2 ^ Suc m"
    and used: "\<And>off k. (off, k) \<in> used_blocks p \<Longrightarrow> k \<le> Suc m"
    and few: "3 * card (used_blocks p) * 2 ^ m < 2 ^ mp_maxlogsize p"
  shows "mpool_alloc w p n \<noteq> Some (None, p)"
proof
  assume none: "mpool_alloc w p n = Some (None, p)"
  have inv: "pool_inv w p" using good by (simp add: good_pool_def)
  have small: "k = m" if "(off, k, True) \<in> abs_pool p" for off k
  proof (rule alloc_used [OF good, of n])
    assume "\<And>off k. (off, k, True) \<in> abs_pool p \<Longrightarrow> 2 ^ k < sz_add w n (sizeof_blknode w)"
    from this [OF that] sz have "(2::nat) ^ k < 2 ^ Suc m" by linarith
    then have "k < Suc m" by (simp only: power_strict_increasing_iff) 
    with abs_pool_wf(1) [OF inv that] m show "k = m" by simp
  qed (use none in simp)
  have "bytes_of p (useds p (live p)) \<le> (\<Sum>b\<in>used_blocks p. 2 ^ Suc m)"
    unfolding useds_bytes [OF inv] by (rule sum_mono) (use used in \<open>fastforce intro: power_increasing\<close>)
  also have "\<dots> = 2 * card (used_blocks p) * 2 ^ m" by simp
  moreover have "bytes_of p (avails p (live p)) \<le> card (used_blocks p) * 2 ^ m"
    by (rule avail_min_bound [OF good m]) (rule small)
  ultimately have "bytes_of p (live p) \<le> 3 * card (used_blocks p) * 2 ^ m"
    using bytes_split [of p "live p"] by (simp add: algebra_simps)
  with few pool_bytes [OF inv] show False by linarith
qed

section \<open>A heap for whole programs\<close>

definition big_heap :: cheap where
  "big_heap = \<lparr>hp_next = 4096, hp_limit = 134217728, hp_live = [], hp_sched = [], hp_bad = False\<rparr>"

lemma big_heap_wf: "heap_wf big_heap" "hp_limit big_heap \<le> size_mod 4" "hp_live big_heap = []"
  by (simp_all add: heap_wf_def big_heap_def size_mod_def)

lemma big_heap_init: "M \<in> {10, 20, 25} \<Longrightarrow> \<exists>p h'. mpool_init 4 ex_hdr M 5 big_heap = Some ((MPOOL_OK, Some p), h')"
  by (auto simp: mpool_init_def shl1_def malloc_def big_heap_def sizeof_blknode_def sizeof_mpool_def
      sizeof_blkhead_def chain_insert_head_def)

end
