(* ===== verification/Pool_Sim.thy ===== *)
theory Pool_Sim imports Pool_Used begin

text \<open>
  The simulation of \<open>buddy/test4.c\<close>: in each epoch \<open>t\<close> a block of random size is allocated and
  given a random lifetime, and put into a list sorted by the time it dies; blocks whose time has
  come are released. \<open>rnd n\<close> is what the \<open>n\<close>-th call of \<open>rand\<close> returns. The nodes of the array
  \<open>simnode\<close> are only used through the list, so the list holds the nodes.
\<close>

section \<open>The functions of test4.c\<close>

definition MAX_EPOCHS :: nat where "MAX_EPOCHS = 20000"
definition MAX_LIFETIME :: nat where "MAX_LIFETIME = 1000"
definition MAX_LOGSIZE :: nat where "MAX_LOGSIZE = 5"
definition TI :: nat where "TI = 5"

record simnode =
  sn_ptr :: addr
  sn_lifetime :: nat

fun sim_add_to_list :: "simnode list \<Rightarrow> simnode \<Rightarrow> simnode list" where
  "sim_add_to_list [] n = [n]"
| "sim_add_to_list (p # ps) n =
     (if sn_lifetime n < sn_lifetime p then n # p # ps
      else if ps = [] then [p, n]
      else p # sim_add_to_list ps n)"

fun sim_free_from_list :: "nat \<Rightarrow> mpool \<Rightarrow> simnode list \<Rightarrow> nat \<Rightarrow> (mpool \<times> simnode list) option" where
  "sim_free_from_list w p [] t = Some (p, [])"
| "sim_free_from_list w p (n # ns) t =
     (if t = sn_lifetime n
      then do { p' \<leftarrow> mpool_free w p (sn_ptr n); sim_free_from_list w p' ns t }
      else Some (p, n # ns))"

text \<open>A line of statistics; a quotient is kept as its numerator and its denominator.\<close>

record sim_line =
  sl_t :: nat
  sl_nodes :: "nat \<times> nat"
  sl_nodes_free :: "nat \<times> nat"
  sl_bytes :: "nat \<times> nat"
  sl_bytes_free :: "nat \<times> nat"
  sl_splits :: nat
  sl_merges :: nat
  sl_ratio :: "nat \<times> nat"

definition sim_print_stats :: "nat \<Rightarrow> mpool \<Rightarrow> nat \<Rightarrow> sim_line option" where
  "sim_print_stats w p t =
     (let (an, un) = mpool_stat_get_nodes w p in
      do { (ab, ub) \<leftarrow> mpool_stat_get_bytes w p;
           let me = mpool_stat_get_merges p;
           let sp = mpool_stat_get_splits p;
           Some \<lparr>sl_t = t, sl_nodes = (an, un), sl_nodes_free = (100 * an, sz_add w an un),
                 sl_bytes = (ab, ub), sl_bytes_free = (100 * ab, sz_add w ab ub),
                 sl_splits = sp, sl_merges = me, sl_ratio = (sp, me)\<rparr> })"

record sim =
  sim_pool :: mpool
  sim_list :: "simnode list"
  sim_out :: "sim_line list"

definition sim_lt :: "(nat \<Rightarrow> nat) \<Rightarrow> nat \<Rightarrow> nat" where
  \<comment> \<open>The random lifetime \<open>lt\<close> of epoch \<open>t\<close>.\<close>
  "sim_lt rnd t =
     (if t < MAX_EPOCHS - MAX_LIFETIME then 1 + rnd (2 * t + 1) mod MAX_LIFETIME
      else 1 + rnd (2 * t + 1) mod (MAX_EPOCHS - t))"

definition sim_dump :: "nat \<Rightarrow> sim \<Rightarrow> nat \<Rightarrow> sim option" where
  "sim_dump w s t =
     do { ln \<leftarrow> sim_print_stats w (sim_pool s) t; Some (s\<lparr>sim_out := sim_out s @ [ln]\<rparr>) }"

definition sim_epoch :: "nat \<Rightarrow> (nat \<Rightarrow> nat) \<Rightarrow> nat \<Rightarrow> sim \<Rightarrow> (sim + sim) option" where
  \<comment> \<open>The body of the loop; \<open>Inl\<close> is the exit when there is no available block.\<close>
  "sim_epoch w rnd t s =
     do { s1 \<leftarrow> (if t mod TI = 0 then sim_dump w s t else Some s);
          (p, l) \<leftarrow> sim_free_from_list w (sim_pool s1) (sim_list s1) t;
          sz \<leftarrow> shl1 (rnd (2 * t) mod (1 + MAX_LOGSIZE));
          let lt = sim_lt rnd t;
          (r, p') \<leftarrow> mpool_alloc w p sz;
          case r of
            None \<Rightarrow> Some (Inl (s1\<lparr>sim_pool := p', sim_list := l\<rparr>))
          | Some a \<Rightarrow>
              Some (Inr (s1\<lparr>sim_pool := p',
                sim_list := sim_add_to_list l \<lparr>sn_ptr = a, sn_lifetime = t + lt\<rparr>\<rparr>)) }"

fun sim_epochs :: "nat \<Rightarrow> (nat \<Rightarrow> nat) \<Rightarrow> nat list \<Rightarrow> sim \<Rightarrow> (sim + sim) option" where
  "sim_epochs w rnd [] s = Some (Inr s)"
| "sim_epochs w rnd (t # ts) s =
     do { r \<leftarrow> sim_epoch w rnd t s;
          case r of Inl s' \<Rightarrow> Some (Inl s') | Inr s' \<Rightarrow> sim_epochs w rnd ts s' }"

definition sim_finish :: "nat \<Rightarrow> sim \<Rightarrow> sim option" where
  "sim_finish w s =
     do { (p, l) \<leftarrow> sim_free_from_list w (sim_pool s) (sim_list s) MAX_EPOCHS;
          sim_dump w (s\<lparr>sim_pool := p, sim_list := l\<rparr>) MAX_EPOCHS }"

definition test4_main ::
  "nat \<Rightarrow> (addr \<Rightarrow> blknode) \<Rightarrow> (nat \<Rightarrow> nat) \<Rightarrow> cheap \<Rightarrow> (bool \<times> sim_line list \<times> cheap) option" where
  \<comment> \<open>The exit status (\<open>True\<close> for \<open>EXIT_SUCCESS\<close>), the lines printed and the heap.\<close>
  "test4_main w g rnd h =
     do { ((ret, pool), h') \<leftarrow> mpool_init w g 25 5 h;
          case pool of
            None \<Rightarrow> Some (False, [], h')
          | Some p \<Rightarrow>
              do { r \<leftarrow> sim_epochs w rnd [0..<MAX_EPOCHS] \<lparr>sim_pool = p, sim_list = [], sim_out = []\<rparr>;
                   case r of
                     Inl s \<Rightarrow> Some (False, sim_out s, mpool_destroy (sim_pool s) h')
                   | Inr s \<Rightarrow>
                       do { s' \<leftarrow> sim_finish w s;
                            Some (True, sim_out s', mpool_destroy (sim_pool s') h') } } }"

section \<open>The list\<close>

lemma sim_add_mset: "mset (sim_add_to_list l n) = add_mset n (mset l)"
  by (induction l n rule: sim_add_to_list.induct) auto

lemma sim_add_set: "set (sim_add_to_list l n) = insert n (set l)"
  using arg_cong [OF sim_add_mset, of set_mset l n] by simp

lemma sim_add_sorted:
  "sorted (map sn_lifetime l) \<Longrightarrow> sorted (map sn_lifetime (sim_add_to_list l n))"
  by (induction l n rule: sim_add_to_list.induct) (auto simp: sim_add_set not_less)

section \<open>The invariant of the simulation\<close>

text \<open>
  \<open>own e\<close> is the array entry \<open>simnode[e]\<close>, and \<open>A\<close> the set of epochs whose blocks are still in
  use. The nodes on the list are the entries of those epochs, and the blocks in use are theirs,
  each of the least size that holds the request.
\<close>

definition sim_alive :: "(nat \<Rightarrow> nat) \<Rightarrow> nat \<Rightarrow> nat set" where
  \<comment> \<open>The epochs before \<open>t\<close> whose blocks have not died before \<open>t\<close>.\<close>
  "sim_alive rnd t = {e. e < t \<and> t \<le> e + sim_lt rnd e}"

definition sim_size :: "(nat \<Rightarrow> nat) \<Rightarrow> nat \<Rightarrow> nat" where
  "sim_size rnd e = 2 ^ (rnd (2 * e) mod (1 + MAX_LOGSIZE))"

definition sim_logsize :: "(nat \<Rightarrow> nat) \<Rightarrow> nat \<Rightarrow> nat" where
  \<comment> \<open>The logarithm of the size of the block that epoch \<open>e\<close> gets.\<close>
  "sim_logsize rnd e = (if sim_size rnd e + sizeof_blknode 4 \<le> 32 then 5 else 6)"

definition sim_ok :: "mpool \<Rightarrow> (nat \<Rightarrow> nat) \<Rightarrow> (nat \<Rightarrow> simnode) \<Rightarrow> nat set \<Rightarrow> mpool \<Rightarrow> simnode list \<Rightarrow> bool" where
  "sim_ok p0 rnd own A p l \<longleftrightarrow>
     same_pool p0 p \<and> good_pool 4 p \<and> mp_maxlogsize p = 25 \<and> mp_minlogsize p = 5 \<and>
     sorted (map sn_lifetime l) \<and> distinct l \<and> set l = own ` A \<and> finite A \<and> inj_on own A \<and>
     (\<forall>e\<in>A. sn_lifetime (own e) = e + sim_lt rnd e \<and> mp_mem p + sizeof_blknode 4 \<le> sn_ptr (own e)) \<and>
     inj_on (\<lambda>e. handle_off 4 p (sn_ptr (own e))) A \<and>
     used_blocks p = (\<lambda>e. (handle_off 4 p (sn_ptr (own e)), sim_logsize rnd e)) ` A"

lemma sim_lt_bounds: "e < MAX_EPOCHS \<Longrightarrow> 1 \<le> sim_lt rnd e \<and> e + sim_lt rnd e \<le> MAX_EPOCHS"
proof -
  assume e: "e < MAX_EPOCHS"
  define x where "x = rnd (2 * e + 1) mod (MAX_EPOCHS - e)"
  define y where "y = rnd (2 * e + 1) mod MAX_LIFETIME"
  have "x < MAX_EPOCHS - e" "y < MAX_LIFETIME" using e by (simp_all add: x_def y_def MAX_LIFETIME_def)
  then show ?thesis
    unfolding sim_lt_def x_def [symmetric] y_def [symmetric] by (auto simp: MAX_EPOCHS_def MAX_LIFETIME_def)
qed

lemma sim_size_le: "sim_size rnd e \<le> 32" "shl1 (rnd (2 * e) mod (1 + MAX_LOGSIZE)) = Some (sim_size rnd e)"
proof -
  have "rnd (2 * e) mod 6 \<le> 5" using mod_less_divisor [of 6 "rnd (2 * e)"] by linarith
  then have "(2 :: nat) ^ (rnd (2 * e) mod 6) \<le> 2 ^ 5" by (intro power_increasing) simp_all
  with \<open>rnd (2 * e) mod 6 \<le> 5\<close>
  show "sim_size rnd e \<le> 32" "shl1 (rnd (2 * e) mod (1 + MAX_LOGSIZE)) = Some (sim_size rnd e)"
    by (simp_all add: sim_size_def MAX_LOGSIZE_def shl1_def)
qed

lemma sim_fits: "spec_fits 5 (sz_add 4 (sim_size rnd e) (sizeof_blknode 4)) k \<Longrightarrow> k = sim_logsize rnd e"
proof -
  assume f: "spec_fits 5 (sz_add 4 (sim_size rnd e) (sizeof_blknode 4)) k"
  have sz: "sz_add 4 (sim_size rnd e) (sizeof_blknode 4) = sim_size rnd e + 20"
    using sim_size_le(1) [of rnd e] by (simp add: sz_add_def size_mod_def sizeof_blknode_def)
  have k5: "5 \<le> k" and up: "sim_size rnd e + 20 \<le> 2 ^ k" and lo: "k = 5 \<or> 2 ^ (k - 1) < sim_size rnd e + 20"
    using f by (simp_all add: spec_fits_def sz)
  have "k \<le> 6"
  proof (rule ccontr)
    assume "\<not> k \<le> 6"
    then have "(2 :: nat) ^ 6 \<le> 2 ^ (k - 1)" by (intro power_increasing) simp_all
    with lo k5 \<open>\<not> k \<le> 6\<close> sim_size_le(1) [of rnd e] show False by simp
  qed
  with k5 have "k = 5 \<or> k = 6" by linarith
  with up lo show ?thesis by (auto simp: sim_logsize_def sizeof_blknode_def)
qed

lemma sim_ok_free_one:
  assumes ok: "sim_ok p0 rnd own A p (n # ns)"
  obtains e p' where "e \<in> A" "own e = n" "mpool_free 4 p (sn_ptr n) = Some p'"
    "sim_ok p0 rnd own (A - {e}) p' ns"
proof -
  note O = ok [unfolded sim_ok_def]
  have "n \<in> own ` A" using O by (elim conjE) (metis list.set_intros(1))
  then obtain e where e: "e \<in> A" "own e = n" by blast
  let ?off = "handle_off 4 p (sn_ptr n)"
  have mem: "mp_mem p + sizeof_blknode 4 \<le> sn_ptr n" using O e by blast
  then have ptr: "mp_mem p + ?off + sizeof_blknode 4 = sn_ptr n" by (simp add: handle_off_def)
  have "(?off, sim_logsize rnd e) \<in> used_blocks p" using O e by blast
  with O obtain p' where p': "mpool_free 4 p (mp_mem p + ?off + sizeof_blknode 4) = Some p'" "good_pool 4 p'"
    "same_pool p p'" "used_blocks p' = used_blocks p - {(?off, sim_logsize rnd e)}"
    by (elim conjE) (rule free_used)
  have inj: "inj_on own A" "inj_on (\<lambda>e. handle_off 4 p (sn_ptr (own e))) A" using O by blast+
  have "own ` (A - {e}) = set ns"
    using O e inj_on_image_set_diff [OF inj(1), of A "{e}"] by auto
  moreover have "used_blocks p' = (\<lambda>e. (handle_off 4 p (sn_ptr (own e)), sim_logsize rnd e)) ` (A - {e})"
  proof -
    have "inj_on (\<lambda>e. (handle_off 4 p (sn_ptr (own e)), sim_logsize rnd e)) A"
      using inj(2) by (auto simp: inj_on_def)
    from inj_on_image_set_diff [OF this, of A "{e}"] show ?thesis using O e p'(4) by auto
  qed
  ultimately have "sim_ok p0 rnd own (A - {e}) p' ns"
    using O p'(2,3) inj unfolding sim_ok_def handle_off_same [OF p'(3)]
    by (auto simp: same_pool_def intro: inj_on_subset)
  with e p'(1) ptr show thesis by (intro that [of e p']) simp_all
qed

lemma sim_free_ok:
  "sim_ok p0 rnd own A p l \<Longrightarrow> \<forall>e\<in>A. t \<le> e + sim_lt rnd e \<Longrightarrow>
    \<exists>p' l'. sim_free_from_list 4 p l t = Some (p', l') \<and> sim_ok p0 rnd own {e \<in> A. t < e + sim_lt rnd e} p' l'"
proof (induction l arbitrary: p A)
  case Nil
  then have "A = {}" by (simp add: sim_ok_def)
  with Nil(1) show ?case by simp
next
  case (Cons n ns)
  obtain e p' where e: "e \<in> A" "own e = n" "mpool_free 4 p (sn_ptr n) = Some p'"
    "sim_ok p0 rnd own (A - {e}) p' ns" by (rule sim_ok_free_one [OF Cons.prems(1)])
  note O = Cons.prems(1) [unfolded sim_ok_def]
  have lt: "sn_lifetime n = e + sim_lt rnd e" using O e(1,2) by blast
  show ?case
  proof (cases "t = sn_lifetime n")
    case True
    have "{x \<in> A - {e}. t < x + sim_lt rnd x} = {x \<in> A. t < x + sim_lt rnd x}" using True lt by auto
    with Cons.IH [OF e(4)] Cons.prems(2) True e(3) show ?thesis by auto
  next
    case False
    have "t < x + sim_lt rnd x" if "x \<in> A" for x
    proof -
      have "own x \<in> set (n # ns)" using O that by blast
      moreover have "\<forall>m\<in>set ns. sn_lifetime n \<le> sn_lifetime m" using O by simp
      ultimately have "sn_lifetime n \<le> sn_lifetime (own x)" by auto
      moreover have "sn_lifetime (own x) = x + sim_lt rnd x" using O that by blast
      ultimately show ?thesis using False lt Cons.prems(2) e(1) by force
    qed
    then have "{x \<in> A. t < x + sim_lt rnd x} = A" by auto
    with False Cons.prems(1) show ?thesis by simp
  qed
qed

lemma sim_ok_add:
  assumes ok: "sim_ok p0 rnd own A p l" and t: "t \<notin> A" and few: "card A \<le> 20000"
  obtains a p' where "mpool_alloc 4 p (sim_size rnd t) = Some (Some a, p')"
    "sim_ok p0 rnd (own(t := \<lparr>sn_ptr = a, sn_lifetime = t + sim_lt rnd t\<rparr>)) (insert t A) p'
       (sim_add_to_list l \<lparr>sn_ptr = a, sn_lifetime = t + sim_lt rnd t\<rparr>)"
proof -
  note O = ok [unfolded sim_ok_def]
  have good: "good_pool 4 p" and dims: "mp_maxlogsize p = 25" "mp_minlogsize p = 5" using O by blast+
  have U: "used_blocks p = (\<lambda>e. (handle_off 4 p (sn_ptr (own e)), sim_logsize rnd e)) ` A" using O by blast
  have "card (used_blocks p) \<le> card A" unfolding U using O by (intro card_image_le) blast
  with few have small: "3 * card (used_blocks p) * 2 ^ 5 < 2 ^ mp_maxlogsize p" by (simp add: dims)
  show thesis
  proof (rule alloc_used [OF good, of "sim_size rnd t"])
    assume none: "mpool_alloc 4 p (sim_size rnd t) = Some (None, p)"
    have "sz_add 4 (sim_size rnd t) (sizeof_blknode 4) \<le> 2 ^ Suc 5"
      using sim_size_le(1) [of rnd t] by (simp add: sz_add_def size_mod_def sizeof_blknode_def)
    moreover have "k \<le> Suc 5" if "(off, k) \<in> used_blocks p" for off k
      using that unfolding U by (auto simp: sim_logsize_def)
    ultimately have False using alloc_succeeds [OF good dims(2) _ _ _ small] none dims(1) by auto
    then show thesis ..
  next
    fix r k p'
    assume r: "mpool_alloc 4 p (sim_size rnd t) = Some (Some r, p')" and g: "good_pool 4 p'" and s: "same_pool p p'"
      and mem: "mp_mem p + sizeof_blknode 4 \<le> r"
      and fit: "spec_fits (mp_minlogsize p) (sz_add 4 (sim_size rnd t) (sizeof_blknode 4)) k"
      and U': "used_blocks p' = insert (handle_off 4 p r, k) (used_blocks p)"
      and new: "\<And>k'. (handle_off 4 p r, k') \<notin> used_blocks p"
    have k: "k = sim_logsize rnd t" using fit unfolding dims by (rule sim_fits)
    let ?n = "\<lparr>sn_ptr = r, sn_lifetime = t + sim_lt rnd t\<rparr>"
    let ?own = "own(t := ?n)"
    have same: "?own x = own x" if "x \<in> A" for x using that t by auto
    have notin: "handle_off 4 p (sn_ptr (own x)) \<noteq> handle_off 4 p r" if "x \<in> A" for x
      using new [of "sim_logsize rnd x"] that unfolding U by force
    have fresh: "own x \<noteq> ?n" if "x \<in> A" for x using notin [OF that] by auto
    have "sim_ok p0 rnd ?own (insert t A) p' (sim_add_to_list l ?n)"
      unfolding sim_ok_def handle_off_same [OF s]
    proof (intro conjI)
      show "same_pool p0 p'" using O s by (auto simp: same_pool_def)
      show "good_pool 4 p'" by (rule g)
      show "mp_maxlogsize p' = 25" "mp_minlogsize p' = 5" using s dims by (simp_all add: same_pool_def)
      show "sorted (map sn_lifetime (sim_add_to_list l ?n))" using O by (intro sim_add_sorted) blast
      show "distinct (sim_add_to_list l ?n)"
        using O fresh mset_eq_imp_distinct_iff [of "sim_add_to_list l ?n" "?n # l"] by (auto simp: sim_add_mset)
      show "set (sim_add_to_list l ?n) = ?own ` insert t A" using O t by (auto simp: sim_add_set)
      show "finite (insert t A)" using O by simp
      have "?n \<notin> ?own ` A"
      proof
        assume "?n \<in> ?own ` A"
        then obtain x where "x \<in> A" "?n = ?own x" by (elim imageE)
        with same fresh show False by metis
      qed
      moreover have "inj_on ?own A" using O same by (simp cong: inj_on_cong)
      ultimately show "inj_on ?own (insert t A)" using t by simp
      show "\<forall>e\<in>insert t A. sn_lifetime (?own e) = e + sim_lt rnd e \<and> mp_mem p' + sizeof_blknode 4 \<le> sn_ptr (?own e)"
        using O t mem s by (auto simp: same_pool_def)
      show "inj_on (\<lambda>e. handle_off 4 p (sn_ptr (?own e))) (insert t A)"
        using O t notin by (auto simp: inj_on_def; metis)
      show "used_blocks p' = (\<lambda>e. (handle_off 4 p (sn_ptr (?own e)), sim_logsize rnd e)) ` insert t A"
        unfolding U' U k using t by auto
    qed
    with r show thesis by (rule that)
  qed
qed

section \<open>Epochs\<close>

definition line_ok :: "(nat \<Rightarrow> nat) \<Rightarrow> nat set \<Rightarrow> nat \<Rightarrow> sim_line \<Rightarrow> bool" where
  \<comment> \<open>The line of time \<open>t\<close> when the blocks in use are those of the epochs in \<open>A\<close>.\<close>
  "line_ok rnd A t ln \<longleftrightarrow>
     sl_t ln = t \<and> snd (sl_nodes ln) = card A \<and>
     snd (sl_bytes ln) = (\<Sum>e\<in>A. 2 ^ sim_logsize rnd e) \<and>
     fst (sl_bytes ln) + snd (sl_bytes ln) = 2 ^ 25 \<and>
     sl_bytes_free ln = (100 * fst (sl_bytes ln), 2 ^ 25) \<and>
     sl_nodes_free ln = (100 * fst (sl_nodes ln), fst (sl_nodes ln) + snd (sl_nodes ln)) \<and>
     (fst (sl_nodes ln) + snd (sl_nodes ln) + sl_merges ln) mod size_mod 4 = (sl_splits ln + 1) mod size_mod 4"

lemma sim_print_ok:
  assumes ok: "sim_ok p0 rnd own A p l"
  shows "\<exists>ln. sim_print_stats 4 p t = Some ln \<and> line_ok rnd A t ln"
proof -
  note O = ok [unfolded sim_ok_def]
  have good: "good_pool 4 p" and inv: "pool_inv 4 p" and c: "counts_ok 4 p" and M: "mp_maxlogsize p = 25"
    using O by (auto simp: good_pool_def)
  let ?f = "\<lambda>e. (handle_off 4 p (sn_ptr (own e)), sim_logsize rnd e)"
  have U: "used_blocks p = ?f ` A" using O by blast
  have inj: "inj_on ?f A" using O by (auto simp: inj_on_def)
  let ?an = "length (avails p (live p))" and ?ab = "bytes_of p (avails p (live p))"
  have un: "length (useds p (live p)) = card A" unfolding useds_count [OF inv] U by (rule card_image [OF inj])
  have ub: "bytes_of p (useds p (live p)) = (\<Sum>e\<in>A. 2 ^ sim_logsize rnd e)"
    unfolding useds_bytes [OF inv] U by (simp add: sum.reindex [OF inj])
  have tot: "?ab + (\<Sum>e\<in>A. 2 ^ sim_logsize rnd e) = 2 ^ 25"
    using bytes_split [of p "live p"] pool_bytes [OF inv] ub M by simp
  have len: "?an + card A = length (live p)" using sum_length_filter_compl [of "\<lambda>a. MPOOL_IS_AVAIL (mp_hdr p a)" "live p"] un by simp
  have "length (live p) \<le> 2 ^ 25" using length_le_bytes [of "live p" p] pool_bytes [OF inv] M by simp
  then have an: "sz_add 4 ?an (card A) = ?an + card A"
    unfolding len [symmetric] by (simp add: sz_add_def size_mod_def)
  have ab: "sz_add 4 ?ab (\<Sum>e\<in>A. 2 ^ sim_logsize rnd e) = 2 ^ 25"
    unfolding sz_add_def tot by (simp add: size_mod_def)
  show ?thesis
    unfolding sim_print_stats_def stat_nodes_pool [OF inv] stat_bytes_pool [OF inv] un ub
    using an ab tot len c
    by (simp add: line_ok_def counts_ok_def Let_def mpool_stat_get_merges_def mpool_stat_get_splits_def)
qed

definition sim_state_ok :: "mpool \<Rightarrow> (nat \<Rightarrow> nat) \<Rightarrow> nat \<Rightarrow> sim \<Rightarrow> bool" where
  \<comment> \<open>The state before epoch \<open>t\<close>.\<close>
  "sim_state_ok p0 rnd t s \<longleftrightarrow> (\<exists>own. sim_ok p0 rnd own (sim_alive rnd t) (sim_pool s) (sim_list s))"

lemma sim_alive_upto: "sim_alive rnd t \<subseteq> {..<t}"
  by (auto simp: sim_alive_def)

lemma card_alive: "card {e \<in> sim_alive rnd t. P e} \<le> t"
proof -
  have "card {e \<in> sim_alive rnd t. P e} \<le> card {..<t}"
    by (rule card_mono) (use sim_alive_upto in auto)
  then show ?thesis by simp
qed

lemma sim_alive_Suc:
  "t < MAX_EPOCHS \<Longrightarrow> sim_alive rnd (Suc t) = insert t {e \<in> sim_alive rnd t. t < e + sim_lt rnd e}"
  using sim_lt_bounds [of t rnd] by (auto simp: sim_alive_def less_Suc_eq)

lemma sim_dump_ok:
  "sim_ok p0 rnd own A (sim_pool s) l \<Longrightarrow>
    \<exists>ln. sim_dump 4 s t = Some (s\<lparr>sim_out := sim_out s @ [ln]\<rparr>) \<and> line_ok rnd A t ln"
  using sim_print_ok [of p0 rnd own A "sim_pool s" l t] by (auto simp: sim_dump_def)

lemma sim_epoch_ok:
  assumes ok: "sim_state_ok p0 rnd t s" and t: "t < MAX_EPOCHS"
  obtains s' where "sim_epoch 4 rnd t s = Some (Inr s')" "sim_state_ok p0 rnd (Suc t) s'"
    "\<exists>lns. sim_out s' = sim_out s @ lns \<and>
       list_all2 (\<lambda>t ln. line_ok rnd (sim_alive rnd t) t ln) (if t mod TI = 0 then [t] else []) lns"
proof -
  obtain own where O: "sim_ok p0 rnd own (sim_alive rnd t) (sim_pool s) (sim_list s)"
    using ok by (auto simp: sim_state_ok_def)
  obtain ln where ln: "sim_dump 4 s t = Some (s\<lparr>sim_out := sim_out s @ [ln]\<rparr>)" "line_ok rnd (sim_alive rnd t) t ln"
    using sim_dump_ok [OF O] by blast
  define s1 where "s1 = (if t mod TI = 0 then s\<lparr>sim_out := sim_out s @ [ln]\<rparr> else s)"
  have s1: "(if t mod TI = 0 then sim_dump 4 s t else Some s) = Some s1"
    "sim_pool s1 = sim_pool s" "sim_list s1 = sim_list s" using ln by (simp_all add: s1_def)
  let ?B = "{e \<in> sim_alive rnd t. t < e + sim_lt rnd e}"
  obtain p l where f: "sim_free_from_list 4 (sim_pool s) (sim_list s) t = Some (p, l)" "sim_ok p0 rnd own ?B p l"
    using sim_free_ok [OF O, of t] by (auto simp: sim_alive_def)
  have "card ?B \<le> 20000" 
    using card_alive [of rnd t "\<lambda>e. t < e + sim_lt rnd e"] t unfolding MAX_EPOCHS_def by linarith
  moreover have "t \<notin> ?B" by (simp add: sim_alive_def)
  ultimately obtain a p' where a: "mpool_alloc 4 p (sim_size rnd t) = Some (Some a, p')"
    and K: "sim_ok p0 rnd (own(t := \<lparr>sn_ptr = a, sn_lifetime = t + sim_lt rnd t\<rparr>)) (insert t ?B) p'
       (sim_add_to_list l \<lparr>sn_ptr = a, sn_lifetime = t + sim_lt rnd t\<rparr>)"
    using sim_ok_add [OF f(2)] by blast
  let ?s = "s1\<lparr>sim_pool := p', sim_list := sim_add_to_list l \<lparr>sn_ptr = a, sn_lifetime = t + sim_lt rnd t\<rparr>\<rparr>"
  show thesis
  proof (rule that [of ?s])
    show "sim_epoch 4 rnd t s = Some (Inr ?s)"
      unfolding sim_epoch_def s1(1) sim_size_le(2) using f(1) a by (simp add: s1(2,3) Let_def)
    show "sim_state_ok p0 rnd (Suc t) ?s" using K unfolding sim_state_ok_def sim_alive_Suc [OF t] by auto
    show "\<exists>lns. sim_out ?s = sim_out s @ lns \<and>
       list_all2 (\<lambda>t ln. line_ok rnd (sim_alive rnd t) t ln) (if t mod TI = 0 then [t] else []) lns"
      using ln(2) by (intro exI [of _ "if t mod TI = 0 then [ln] else []"]) (simp add: s1_def)
  qed
qed

lemma sim_epochs_ok:
  assumes "sim_state_ok p0 rnd t s" "t + n \<le> MAX_EPOCHS"
  shows "\<exists>s' out. sim_epochs 4 rnd [t..<t + n] s = Some (Inr s') \<and> sim_state_ok p0 rnd (t + n) s' \<and>
    sim_out s' = sim_out s @ out \<and>
    list_all2 (\<lambda>t ln. line_ok rnd (sim_alive rnd t) t ln) (filter (\<lambda>t. t mod TI = 0) [t..<t + n]) out"
  using assms
proof (induction n arbitrary: t s)
  case 0
  then show ?case by simp
next
  case (Suc n)
  have up: "[t..<t + Suc n] = t # [Suc t..<Suc t + n]" by (simp add: upt_conv_Cons)
  have t: "t < MAX_EPOCHS" "Suc t + n \<le> MAX_EPOCHS" using Suc.prems(2) by simp_all
  obtain s1 lns where s1: "sim_epoch 4 rnd t s = Some (Inr s1)" "sim_state_ok p0 rnd (Suc t) s1"
    "sim_out s1 = sim_out s @ lns"
    "list_all2 (\<lambda>t ln. line_ok rnd (sim_alive rnd t) t ln) (if t mod TI = 0 then [t] else []) lns"
    by (rule sim_epoch_ok [OF Suc.prems(1) t(1)]) (elim exE conjE, rule that)
  obtain s' out where I: "sim_epochs 4 rnd [Suc t..<Suc t + n] s1 = Some (Inr s')" "sim_state_ok p0 rnd (Suc t + n) s'"
    "sim_out s' = sim_out s1 @ out"
    "list_all2 (\<lambda>t ln. line_ok rnd (sim_alive rnd t) t ln) (filter (\<lambda>t. t mod TI = 0) [Suc t..<Suc t + n]) out"
    using Suc.IH [OF s1(2) t(2)] by blast
  have "sim_epochs 4 rnd [t..<t + Suc n] s = Some (Inr s')" unfolding up using s1(1) I(1) by simp
  moreover have "list_all2 (\<lambda>t ln. line_ok rnd (sim_alive rnd t) t ln)
      (filter (\<lambda>t. t mod TI = 0) [t..<t + Suc n]) (lns @ out)"
    using list_all2_appendI [OF s1(4) I(4)] unfolding up by (simp split: if_splits)
  ultimately show ?case using I(2,3) s1(3) by auto
qed

lemma sim_finish_ok:
  assumes "sim_state_ok p0 rnd MAX_EPOCHS s"
  obtains s' ln where "sim_finish 4 s = Some s'" "sim_out s' = sim_out s @ [ln]" "line_ok rnd {} MAX_EPOCHS ln"
    "sim_list s' = []" "abs_pool (sim_pool s') = {(0, 25, True)}" "same_pool p0 (sim_pool s')"
proof -
  obtain own where O: "sim_ok p0 rnd own (sim_alive rnd MAX_EPOCHS) (sim_pool s) (sim_list s)"
    using assms by (auto simp: sim_state_ok_def)
  have none: "{e \<in> sim_alive rnd MAX_EPOCHS. MAX_EPOCHS < e + sim_lt rnd e} = {}"
    using sim_lt_bounds [of _ rnd] by (fastforce simp: sim_alive_def)
  obtain p l where f: "sim_free_from_list 4 (sim_pool s) (sim_list s) MAX_EPOCHS = Some (p, l)" "sim_ok p0 rnd own {} p l"
    using sim_free_ok [OF O, of MAX_EPOCHS] unfolding none by (auto simp: sim_alive_def)
  let ?s = "s\<lparr>sim_pool := p, sim_list := l\<rparr>"
  obtain ln where ln: "sim_dump 4 ?s MAX_EPOCHS = Some (?s\<lparr>sim_out := sim_out ?s @ [ln]\<rparr>)" "line_ok rnd {} MAX_EPOCHS ln"
    using sim_dump_ok [of p0 rnd own "{}" ?s l MAX_EPOCHS] f(2) by auto
  have good: "good_pool 4 p" "mp_maxlogsize p = 25" and u: "used_blocks p = {}"
    using f(2) by (simp_all add: sim_ok_def)
  have "pool_inv 4 p" using good by (simp add: good_pool_def)
  from no_used_all_avail [OF this u] all_avail_whole [OF good] have "abs_pool p = {(0, 25, True)}" by blast
  moreover have "l = []" using f(2) by (simp add: sim_ok_def)
  moreover have "same_pool p0 p" using f(2) by (simp add: sim_ok_def)
  ultimately show thesis
    by (intro that [of "?s\<lparr>sim_out := sim_out ?s @ [ln]\<rparr>" ln])
      (use f(1) ln in \<open>simp_all add: sim_finish_def\<close>)
qed

section \<open>Theorems\<close>

lemma sim_start_ok:
  assumes "mpool_init 4 g 25 5 h = Some ((MPOOL_OK, Some p), h')" "heap_wf h" "hp_limit h \<le> size_mod 4"
  shows "sim_state_ok p rnd 0 \<lparr>sim_pool = p, sim_list = [], sim_out = []\<rparr>"
proof -
  have good: "good_pool 4 p \<and> mp_maxlogsize p = 25 \<and> mp_minlogsize p = 5" by (rule good_init [OF assms])
  have "used_blocks p = {}"
  proof (rule mpool_init_cases [of 25 4 5 h g])
    fix pm mem tbl h2
    assume "mpool_init 4 g 25 5 h = Some ((MPOOL_OK, Some (fresh_pool 4 g 25 5 pm mem tbl)), h2)"
    with assms(1) have "p = fresh_pool 4 g 25 5 pm mem tbl" by simp
    then show ?thesis by (simp add: used_blocks_def fresh_pool_abs)
  qed (use assms in \<open>simp_all add: init_error_def sizeof_blknode_def\<close>)
  with good show ?thesis by (simp add: sim_state_ok_def sim_ok_def sim_alive_def)
qed

text \<open>C12: Whatever \<open>rand\<close> returns, the simulation runs through all its epochs: an allocation never
  fails, because too few small blocks are in use, and no call is undefined. It ends with the list
  empty, so every block has been released, and merging has restored the single full block; then
  the heap gets everything back. Only a refused \<open>malloc\<close> in \<open>mpool_init\<close> ends it early. The lines
  printed, one for every fifth epoch and a last one, state exactly the number and the bytes of
  the blocks whose lifetime has not passed.\<close>

theorem test4_main_correct:
  assumes "heap_wf h" "hp_limit h \<le> size_mod 4"
  shows "case test4_main 4 g rnd h of
      None \<Rightarrow> False
    | Some (ok, out, h') \<Rightarrow>
        hp_live h' = hp_live h \<and> hp_bad h' = hp_bad h \<and>
        (if ok then list_all2 (\<lambda>t ln. line_ok rnd (sim_alive rnd t) t ln)
                      (filter (\<lambda>t. t mod TI = 0) [0..<MAX_EPOCHS]) (butlast out) \<and>
                    line_ok rnd {} MAX_EPOCHS (last out) \<and> fst (sl_bytes (last out)) = 2 ^ 25
         else out = [] \<and> (\<exists>h1. mpool_init 4 g 25 5 h = Some ((MPOOL_ENOMEM, None), h1)))"
proof (rule mpool_init_cases [of 25 4 5 h g])
  fix h1
  assume "mpool_init 4 g 25 5 h = Some ((MPOOL_ENOMEM, None), h1)" "hp_live h1 = hp_live h" "hp_bad h1 = hp_bad h"
  then show ?thesis by (simp add: test4_main_def)
next
  fix pm mem tbl h1
  let ?p = "fresh_pool 4 g 25 5 pm mem tbl"
  let ?s = "\<lparr>sim_pool = ?p, sim_list = [], sim_out = []\<rparr>"
  assume i: "mpool_init 4 g 25 5 h = Some ((MPOOL_OK, Some ?p), h1)"
    and l: "hp_live h1 = tbl # mem # pm # hp_live h" "hp_bad h1 = hp_bad h" "distinct (hp_live h1)"
  obtain s out where run: "sim_epochs 4 rnd [0..<MAX_EPOCHS] ?s = Some (Inr s)" "sim_state_ok ?p rnd MAX_EPOCHS s"
    "sim_out s = out" "list_all2 (\<lambda>t ln. line_ok rnd (sim_alive rnd t) t ln) (filter (\<lambda>t. t mod TI = 0) [0..<MAX_EPOCHS]) out"
    using sim_epochs_ok [OF sim_start_ok [OF i assms, of rnd], of MAX_EPOCHS] by auto
  obtain s' ln where fin: "sim_finish 4 s = Some s'" "sim_out s' = sim_out s @ [ln]" "line_ok rnd {} MAX_EPOCHS ln"
    and same: "same_pool ?p (sim_pool s')"
    by (rule sim_finish_ok [OF run(2)])
  have "test4_main 4 g rnd h = Some (True, out @ [ln], mpool_destroy (sim_pool s') h1)"
    using i run(1,3) fin(1,2) by (simp add: test4_main_def)
  moreover have "hp_live (mpool_destroy (sim_pool s') h1) = hp_live h \<and> hp_bad (mpool_destroy (sim_pool s') h1) = hp_bad h"
    using same l by (simp add: mpool_destroy_def fresh_pool_def same_pool_def cfree_def)
  moreover have "fst (sl_bytes ln) = 2 ^ 25" using fin(3) by (simp add: line_ok_def)
  ultimately show ?thesis using run(4) fin(3) by simp
qed (use assms in \<open>simp_all add: init_error_def sizeof_blknode_def\<close>)

lemma test4_main_correct_witness:
  "\<exists>out h'. test4_main 4 ex_hdr (\<lambda>n. n) big_heap = Some (True, out, h') \<and> hp_live h' = [] \<and>
     line_ok (\<lambda>n. n) {} MAX_EPOCHS (last out)"
proof -
  obtain p h1 where "mpool_init 4 ex_hdr 25 5 big_heap = Some ((MPOOL_OK, Some p), h1)"
    using big_heap_init [of 25] by auto
  with test4_main_correct [OF big_heap_wf(1,2), where g = ex_hdr and rnd = "\<lambda>n. n"] show ?thesis
    by (auto simp: big_heap_wf split: option.splits prod.splits if_splits)
qed

end
