(* ===== verification/Pool_Tests.thy ===== *)
theory Pool_Tests imports Pool_Used begin

text \<open>
  The other test programs of the buddy allocator, \<open>buddy/test1.c\<close>, \<open>test3.c\<close> and
  \<open>test5.c\<close>, as clients of \<open>mpool_init\<close>, \<open>mpool_alloc\<close>, \<open>mpool_free\<close> and \<open>mpool_destroy\<close>.
\<close>

section \<open>The programs\<close>

text \<open>
  A client writes \<open>n\<close> bytes at \<open>r\<close>: every address whose header would overlap them spells
  something else from then on, given by \<open>z\<close>; the others keep their header.
\<close>

definition mem_write :: "nat \<Rightarrow> mpool \<Rightarrow> addr \<Rightarrow> nat \<Rightarrow> (addr \<Rightarrow> blknode) \<Rightarrow> mpool" where
  "mem_write w p r n z =
     p\<lparr>mp_hdr := \<lambda>a. if a + sizeof_blknode w \<le> r \<or> r + n \<le> a then mp_hdr p a else z a\<rparr>"

definition fgets :: "nat \<Rightarrow> string \<Rightarrow> string option" where
  \<comment> \<open>What \<open>fgets(buffer, n, stdin)\<close> stores, up to its final NUL; \<open>None\<close> at the end of the input.\<close>
  "fgets n inp =
     (if inp = [] then None
      else Some (take (n - 1) (takeWhile (\<lambda>c. c \<noteq> CHR 0x0A) inp @
             take 1 (dropWhile (\<lambda>c. c \<noteq> CHR 0x0A) inp))))"

datatype test_end = T_init mpret_t | T_noblock | T_lost | T_passed | T_printed string

definition buddy_test1_main ::
  "nat \<Rightarrow> (addr \<Rightarrow> blknode) \<Rightarrow> (addr \<Rightarrow> blknode) \<Rightarrow> string \<Rightarrow> cheap \<Rightarrow> (test_end \<times> cheap) option" where
  \<comment> \<open>At the end of the input the buffer printed was never written.\<close>
  "buddy_test1_main w g z inp h =
     do { ((ret, pool), h') \<leftarrow> mpool_init w g 10 5 h;
          case pool of
            None \<Rightarrow> Some (T_init ret, h')
          | Some p \<Rightarrow>
              do { (r, p1) \<leftarrow> mpool_alloc w p 5;
                   case r of
                     None \<Rightarrow> Some (T_noblock, mpool_destroy p1 h')
                   | Some buffer \<Rightarrow>
                       do { s \<leftarrow> fgets 32 inp;
                            let p2 = mem_write w p1 buffer (length s + 1) z;
                            p3 \<leftarrow> mpool_free w p2 buffer;
                            Some (T_printed s, mpool_destroy p3 h') } } }"

definition test5_main :: "nat \<Rightarrow> (addr \<Rightarrow> blknode) \<Rightarrow> cheap \<Rightarrow> (test_end \<times> cheap) option" where
  "test5_main w g h =
     do { ((ret, pool), h') \<leftarrow> mpool_init w g 10 5 h;
          case pool of
            None \<Rightarrow> Some (T_init ret, h')
          | Some p \<Rightarrow>
              do { (r, p1) \<leftarrow> mpool_alloc w p 1000;
                   case r of
                     None \<Rightarrow> Some (T_noblock, mpool_destroy p1 h')
                   | Some buffer \<Rightarrow>
                       do { p2 \<leftarrow> mpool_free w p1 buffer;
                            (r', p3) \<leftarrow> mpool_alloc w p2 1000;
                            case r' of
                              None \<Rightarrow> Some (T_lost, mpool_destroy p3 h')
                            | Some buffer' \<Rightarrow>
                                do { p4 \<leftarrow> mpool_free w p3 buffer';
                                     Some (T_passed, mpool_destroy p4 h') } } } }"

text \<open>
  \<open>test3.c\<close>, whose percentages are kept as numerator and denominator: an entry of \<open>pblk\<close> is \<open>None\<close> while it is not initialised. \<open>rnd n\<close> is what the
  \<open>n\<close>-th call of \<open>rand\<close> returns, \<open>z i\<close> what the headers overwritten by the \<open>i\<close>-th \<open>memset\<close> spell.
\<close>

definition MAX_BLOCKS :: nat where "MAX_BLOCKS = 1000"

fun test3_fill ::
  "nat \<Rightarrow> (nat \<Rightarrow> nat) \<Rightarrow> (nat \<Rightarrow> addr \<Rightarrow> blknode) \<Rightarrow> nat list \<Rightarrow>
     mpool \<times> addr option option list \<Rightarrow> (mpool \<times> addr option option list) option" where
  "test3_fill w rnd z [] st = Some st"
| "test3_fill w rnd z (i # is) (p, pblk) =
     do { s \<leftarrow> shl1 (5 + rnd (2 * i) mod 7);
          (r, p1) \<leftarrow> mpool_alloc w p s;
          case r of
            None \<Rightarrow> Some (p1, pblk[i := Some None])
          | Some a \<Rightarrow>
              (let p2 = mem_write w p1 a s (z i) in
               if rnd (2 * i + 1) mod 3 = 0
               then do { p3 \<leftarrow> mpool_free w p2 a; test3_fill w rnd z is (p3, pblk[i := Some None]) }
               else test3_fill w rnd z is (p2, pblk[i := Some (Some a)])) }"

fun test3_release :: "nat \<Rightarrow> addr option option list \<Rightarrow> mpool \<Rightarrow> mpool option" where
  "test3_release w [] p = Some p"
| "test3_release w (None # bs) p = None"
| "test3_release w (Some None # bs) p = test3_release w bs p"
| "test3_release w (Some (Some a) # bs) p = do { p' \<leftarrow> mpool_free w p a; test3_release w bs p' }"

record test3_stats =
  t3_nodes :: "nat \<times> nat"
  t3_nodes_free :: "nat \<times> nat"
  t3_bytes :: "nat \<times> nat"
  t3_bytes_free :: "nat \<times> nat"
  t3_splits :: nat
  t3_merges :: nat

definition test3_main ::
  "nat \<Rightarrow> (addr \<Rightarrow> blknode) \<Rightarrow> (nat \<Rightarrow> nat) \<Rightarrow> (nat \<Rightarrow> addr \<Rightarrow> blknode) \<Rightarrow> cheap \<Rightarrow>
     (test3_stats option \<times> cheap) option" where
  "test3_main w g rnd z h =
     do { ((ret, pool), h') \<leftarrow> mpool_init w g 20 5 h;
          case pool of
            None \<Rightarrow> Some (None, h')
          | Some p \<Rightarrow>
              do { (p1, pblk) \<leftarrow> test3_fill w rnd z [0..<MAX_BLOCKS] (p, replicate MAX_BLOCKS None);
                   p2 \<leftarrow> test3_release w pblk p1;
                   let (an, un) = mpool_stat_get_nodes w p2;
                   (ab, ub) \<leftarrow> mpool_stat_get_bytes w p2;
                   Some (Some \<lparr>t3_nodes = (an, un), t3_nodes_free = (100 * an, sz_add w an un),
                               t3_bytes = (ab, ub), t3_bytes_free = (100 * ab, sz_add w ab ub),
                               t3_splits = mpool_stat_get_splits p2, t3_merges = mpool_stat_get_merges p2\<rparr>,
                         mpool_destroy p2 h') } }"

section \<open>Clients and their handles\<close>

text \<open>\<open>hs\<close> are the pointers a client holds: one for each block in use.\<close>

definition handles_ok :: "nat \<Rightarrow> mpool \<Rightarrow> addr list \<Rightarrow> bool" where
  "handles_ok w p hs \<longleftrightarrow> good_pool w p \<and> distinct hs \<and>
     (\<forall>a\<in>set hs. mp_mem p + sizeof_blknode w \<le> a) \<and>
     fst ` used_blocks p = handle_off w p ` set hs"

lemma used_off_unique:
  "pool_inv w p \<Longrightarrow> (off, k) \<in> used_blocks p \<Longrightarrow> (off, k') \<in> used_blocks p \<Longrightarrow> k' = k"
  unfolding used_blocks_def using abs_pool_off_unique by blast

lemma handles_alloc:
  assumes "handles_ok w p hs"
  obtains (none) "mpool_alloc w p n = Some (None, p)"
      "\<And>off k. (off, k, True) \<in> abs_pool p \<Longrightarrow> 2 ^ k < sz_add w n (sizeof_blknode w)"
    | (some) r k p' where "mpool_alloc w p n = Some (Some r, p')" "same_pool p p'" "handles_ok w p' (r # hs)"
      "sz_add w n (sizeof_blknode w) \<le> 2 ^ k" "used_blocks p' = insert (handle_off w p r, k) (used_blocks p)"
      "spec_fits (mp_minlogsize p) (sz_add w n (sizeof_blknode w)) k"
proof -
  have good: "good_pool w p" using assms by (simp add: handles_ok_def)
  show thesis
  proof (rule alloc_used [OF good, of n])
    fix r k p'
    assume r: "mpool_alloc w p n = Some (Some r, p')" and g: "good_pool w p'" and s: "same_pool p p'"
      and mem: "mp_mem p + sizeof_blknode w \<le> r"
      and fit: "spec_fits (mp_minlogsize p) (sz_add w n (sizeof_blknode w)) k"
      and U: "used_blocks p' = insert (handle_off w p r, k) (used_blocks p)"
      and new: "\<And>k'. (handle_off w p r, k') \<notin> used_blocks p"
    have "handle_off w p r \<notin> fst ` used_blocks p" using new by force
    then have "r \<notin> set hs" using assms unfolding handles_ok_def by blast
    moreover have "mp_mem p' = mp_mem p" "handle_off w p' = handle_off w p"
      using s by (auto simp: same_pool_def handle_off_def)
    ultimately have "handles_ok w p' (r # hs)"
      using assms g mem unfolding handles_ok_def U by simp
    with r s fit U show thesis by (intro some) (simp_all add: spec_fits_def)
  qed (rule none)
qed

lemma handles_free:
  assumes ok: "handles_ok w p hs" and a: "a \<in> set hs"
  obtains p' where "mpool_free w p a = Some p'" "same_pool p p'" "handles_ok w p' (remove1 a hs)"
    "\<And>k. (handle_off w p a, k) \<in> used_blocks p \<Longrightarrow> used_blocks p' = used_blocks p - {(handle_off w p a, k)}"
proof -
  note O = ok [unfolded handles_ok_def]
  have inv: "pool_inv w p" using O by (simp add: good_pool_def)
  have "handle_off w p a \<in> fst ` used_blocks p" using O a by blast
  then obtain k where k: "(handle_off w p a, k) \<in> used_blocks p" by auto
  have ptr: "mp_mem p + handle_off w p a + sizeof_blknode w = a" using O a by (auto simp: handle_off_def)
  from O k obtain p' where p': "mpool_free w p (mp_mem p + handle_off w p a + sizeof_blknode w) = Some p'"
    "good_pool w p'" "same_pool p p'" "used_blocks p' = used_blocks p - {(handle_off w p a, k)}"
    by (elim conjE) (rule free_used)
  have same: "mp_mem p' = mp_mem p" "handle_off w p' = handle_off w p"
    using p'(3) by (auto simp: same_pool_def handle_off_def)
  have "fst ` (used_blocks p - {(handle_off w p a, k)}) = fst ` used_blocks p - {handle_off w p a}"
    using used_off_unique [OF inv k] by force
  moreover have "inj_on (handle_off w p) (set hs)"
  proof (rule inj_onI)
    fix x y assume "x \<in> set hs" "y \<in> set hs" "handle_off w p x = handle_off w p y"
    moreover from this O have "mp_mem p + sizeof_blknode w \<le> x" "mp_mem p + sizeof_blknode w \<le> y" by blast+
    ultimately show "x = y" by (simp add: handle_off_def)
  qed
  then have "handle_off w p ` (set hs - {a}) = handle_off w p ` set hs - {handle_off w p a}"
    using a inj_on_image_set_diff [of "handle_off w p" "set hs" "set hs" "{a}"] by auto
  ultimately have "handles_ok w p' (remove1 a hs)"
    using O p'(2) unfolding handles_ok_def same p'(4) by (auto dest: notin_set_remove1)
  moreover have "used_blocks p' = used_blocks p - {(handle_off w p a, k')}" if "(handle_off w p a, k') \<in> used_blocks p" for k'
    using p'(4) used_off_unique [OF inv k that] by simp
  ultimately show thesis using p'(1,3) unfolding ptr by (intro that)
qed

lemma mem_write_client:
  assumes good: "good_pool w p" and r: "mp_mem p + sizeof_blknode w \<le> r"
    and u: "(handle_off w p r, k) \<in> used_blocks p" and n: "n + sizeof_blknode w \<le> 2 ^ k"
  shows "client_write p (mem_write w p r n z)"
proof -
  have inv: "pool_inv w p" using good by (simp add: good_pool_def)
  let ?off = "handle_off w p r"
  have b: "(?off, k, False) \<in> abs_pool p" using u by (simp add: used_blocks_def)
  have ptr: "r = mp_mem p + ?off + sizeof_blknode w" using r by (simp add: handle_off_def)
  have "a + sizeof_blknode w \<le> r \<or> r + n \<le> a" if a: "a \<in> set (live p)" for a
  proof (cases "a = mp_mem p + ?off")
    case True
    then show ?thesis using ptr by simp
  next
    case False
    have mem: "mp_mem p \<le> a" by (rule pool_invD(6) [OF inv a])
    have c: "(a - mp_mem p, ls_of p a, MPOOL_IS_AVAIL (mp_hdr p a)) \<in> abs_pool p" using a by (auto simp: abs_pool_iff)
    have "(2 :: nat) ^ mp_minlogsize p \<le> 2 ^ ls_of p a"
      using abs_pool_wf(1) [OF inv c] by (intro power_increasing) simp_all
    moreover have "sizeof_blknode w < 2 ^ mp_minlogsize p" using pool_invD(1) [OF inv] by (simp add: pool_dims_def)
    moreover have "?off + 2 ^ k \<le> a - mp_mem p \<or> a - mp_mem p + 2 ^ ls_of p a \<le> ?off"
      by (rule abs_pool_disjoint [OF inv b c]) (use False mem in auto)
    ultimately show ?thesis using ptr n mem by linarith
  qed
  then show ?thesis by (auto simp: client_write_def mem_write_def)
qed

lemma handles_write:
  assumes ok: "handles_ok w p hs" and c: "client_write p p'"
  shows "handles_ok w p' hs" "same_pool p p'" "used_blocks p' = used_blocks p"
proof -
  note C = client_write_abs [OF c]
  have g: "good_pool w p'" using good_step [OF _ mp_step.client [OF c]] ok by (auto simp: handles_ok_def)
  have p': "p' = p\<lparr>mp_hdr := mp_hdr p'\<rparr>" using c by (simp add: client_write_def)
  show s: "same_pool p p'" by (subst p') (simp add: same_pool_def)
  show U: "used_blocks p' = used_blocks p" by (simp add: used_blocks_def C)
  have "handle_off w p' = handle_off w p" by (auto simp: handle_off_def C)
  then show "handles_ok w p' hs" using ok g by (simp add: handles_ok_def U C)
qed

lemma handles_none:
  assumes "handles_ok w p []"
  shows "abs_pool p = {(0, mp_maxlogsize p, True)}" "live p = [mp_mem p]"
proof -
  have good: "good_pool w p" and u: "used_blocks p = {}" using assms by (simp_all add: handles_ok_def)
  have "pool_inv w p" using good by (simp add: good_pool_def)
  from no_used_all_avail [OF this u] all_avail_whole [OF good refl]
  show "abs_pool p = {(0, mp_maxlogsize p, True)}" "live p = [mp_mem p]" by blast+
qed

text \<open>How each of the programs starts.\<close>

lemma handles_init:
  assumes M: "M < 31" and ok: "init_error 4 M m = None" and wf: "heap_wf h" "hp_limit h \<le> size_mod 4"
  obtains (nomem) h' where "mpool_init 4 g M m h = Some ((MPOOL_ENOMEM, None), h')"
      "hp_live h' = hp_live h" "hp_bad h' = hp_bad h"
    | (pool) p h' where "mpool_init 4 g M m h = Some ((MPOOL_OK, Some p), h')" "handles_ok 4 p []"
      "mp_maxlogsize p = M" "mp_minlogsize p = m"
      "\<And>q. same_pool p q \<Longrightarrow> hp_live (mpool_destroy q h') = hp_live h \<and> hp_bad (mpool_destroy q h') = hp_bad h"
proof (rule mpool_init_cases [OF M ok wf(1), of g])
  fix h' assume "mpool_init 4 g M m h = Some ((MPOOL_ENOMEM, None), h')"
    "hp_live h' = hp_live h" "hp_bad h' = hp_bad h"
  then show thesis by (rule nomem)
next
  fix pm mem tbl h'
  let ?p = "fresh_pool 4 g M m pm mem tbl"
  assume i: "mpool_init 4 g M m h = Some ((MPOOL_OK, Some ?p), h')"
    and l: "hp_live h' = tbl # mem # pm # hp_live h" "hp_bad h' = hp_bad h" "distinct (hp_live h')"
  have "handles_ok 4 ?p []"
    using good_init [OF i wf] by (simp add: handles_ok_def used_blocks_def fresh_pool_abs)
  moreover have "hp_live (mpool_destroy q h') = hp_live h \<and> hp_bad (mpool_destroy q h') = hp_bad h" if "same_pool ?p q" for q
    using that l by (simp add: mpool_destroy_def fresh_pool_def same_pool_def cfree_def)
  moreover have "mp_maxlogsize ?p = M" "mp_minlogsize ?p = m" by (simp_all add: fresh_pool_def)
  ultimately show thesis by (intro pool [OF i])
qed

section \<open>test5.c\<close>

lemma test5_init: "init_error 4 10 5 = None" "init_error 4 20 5 = None"
  by (simp_all add: init_error_def sizeof_blknode_def)

lemma alloc_whole:
  assumes "handles_ok 4 p []" "sz_add 4 n (sizeof_blknode 4) \<le> 2 ^ mp_maxlogsize p"
  obtains r k p' where "mpool_alloc 4 p n = Some (Some r, p')" "same_pool p p'" "handles_ok 4 p' [r]"
    "sz_add 4 n (sizeof_blknode 4) \<le> 2 ^ k" "used_blocks p' = {(handle_off 4 p r, k)}"
proof (rule handles_alloc [OF assms(1), of n])
  assume "\<And>off k. (off, k, True) \<in> abs_pool p \<Longrightarrow> 2 ^ k < sz_add 4 n (sizeof_blknode 4)"
  from this [of 0 "mp_maxlogsize p"] handles_none(1) [OF assms(1)] assms(2) show thesis by simp
next
  fix r k p'
  assume "mpool_alloc 4 p n = Some (Some r, p')" "same_pool p p'" "handles_ok 4 p' [r]"
    "sz_add 4 n (sizeof_blknode 4) \<le> 2 ^ k" "used_blocks p' = insert (handle_off 4 p r, k) (used_blocks p)"
  moreover have "used_blocks p = {}" using assms(1) by (simp add: handles_ok_def)
  ultimately show thesis by (intro that) simp_all
qed

lemma free_only:
  assumes "handles_ok w p [r]"
  obtains p' where "mpool_free w p r = Some p'" "same_pool p p'" "handles_ok w p' []"
proof (rule handles_free [OF assms])
  show "r \<in> set [r]" by simp
  fix p' assume "mpool_free w p r = Some p'" "same_pool p p'" "handles_ok w p' (remove1 r [r])"
  then show thesis by (intro that) simp_all
qed

lemma test5_ok:
  assumes "heap_wf h" "hp_limit h \<le> size_mod 4"
  shows "\<exists>e h'. test5_main 4 g h = Some (e, h') \<and> e \<in> {T_passed, T_init MPOOL_ENOMEM} \<and>
    hp_live h' = hp_live h \<and> hp_bad h' = hp_bad h"
proof (rule handles_init [OF _ test5_init(1) assms])
  fix h' assume "mpool_init 4 g 10 5 h = Some ((MPOOL_ENOMEM, None), h')"
    "hp_live h' = hp_live h" "hp_bad h' = hp_bad h"
  then show ?thesis by (simp add: test5_main_def)
next
  fix p h'
  assume i: "mpool_init 4 g 10 5 h = Some ((MPOOL_OK, Some p), h')" and ok: "handles_ok 4 p []"
    and M: "mp_maxlogsize p = 10"
    and d: "\<And>q. same_pool p q \<Longrightarrow> hp_live (mpool_destroy q h') = hp_live h \<and> hp_bad (mpool_destroy q h') = hp_bad h"
  have fits: "sz_add 4 1000 (sizeof_blknode 4) \<le> 2 ^ 10" by (simp add: sz_add_def size_mod_def sizeof_blknode_def)
  have M': "mp_maxlogsize q = 10" if "same_pool p q" for q using that M by (simp add: same_pool_def)
  obtain r p1 where a1: "mpool_alloc 4 p 1000 = Some (Some r, p1)" "same_pool p p1" "handles_ok 4 p1 [r]"
    using alloc_whole [OF ok] fits M by metis
  obtain p2 where f1: "mpool_free 4 p1 r = Some p2" "same_pool p1 p2" "handles_ok 4 p2 []" by (rule free_only [OF a1(3)])
  note s2 = same_pool_trans [OF a1(2) f1(2)]
  obtain r' p3 where a2: "mpool_alloc 4 p2 1000 = Some (Some r', p3)" "same_pool p2 p3" "handles_ok 4 p3 [r']"
    using alloc_whole [OF f1(3)] fits M' [OF s2] by metis
  obtain p4 where f2: "mpool_free 4 p3 r' = Some p4" "same_pool p3 p4" by (rule free_only [OF a2(3)])
  have "test5_main 4 g h = Some (T_passed, mpool_destroy p4 h')"
    using i a1(1) f1(1) a2(1) f2(1) by (simp add: test5_main_def)
  with d [OF same_pool_trans [OF same_pool_trans [OF s2 a2(2)] f2(2)]] show ?thesis by simp
qed simp_all

section \<open>test1.c\<close>

lemma fgets_length: "fgets n inp = Some s \<Longrightarrow> 0 < n \<Longrightarrow> length s < n"
  by (auto simp: fgets_def split: if_splits)

lemma test1_ok:
  assumes "heap_wf h" "hp_limit h \<le> size_mod 4" "fgets 32 inp = Some s" "length s \<le> 4"
  shows "\<exists>e h'. buddy_test1_main 4 g z inp h = Some (e, h') \<and> e \<in> {T_printed s, T_init MPOOL_ENOMEM} \<and>
    hp_live h' = hp_live h \<and> hp_bad h' = hp_bad h"
proof (rule handles_init [OF _ test5_init(1) assms(1,2)])
  fix h' assume "mpool_init 4 g 10 5 h = Some ((MPOOL_ENOMEM, None), h')"
    "hp_live h' = hp_live h" "hp_bad h' = hp_bad h"
  then show ?thesis by (simp add: buddy_test1_main_def)
next
  fix p h'
  assume i: "mpool_init 4 g 10 5 h = Some ((MPOOL_OK, Some p), h')" and ok: "handles_ok 4 p []"
    and M: "mp_maxlogsize p = 10"
    and d: "\<And>q. same_pool p q \<Longrightarrow> hp_live (mpool_destroy q h') = hp_live h \<and> hp_bad (mpool_destroy q h') = hp_bad h"
  have sz: "sz_add 4 5 (sizeof_blknode 4) = 25" by (simp add: sz_add_def size_mod_def sizeof_blknode_def)
  obtain r k p1 where a: "mpool_alloc 4 p 5 = Some (Some r, p1)" "same_pool p p1" "handles_ok 4 p1 [r]"
    "25 \<le> (2 :: nat) ^ k" "used_blocks p1 = {(handle_off 4 p r, k)}"
    by (rule alloc_whole [OF ok, of 5, unfolded sz M]) simp_all
  let ?p2 = "mem_write 4 p1 r (length s + 1) z"
  have "client_write p1 ?p2"
  proof (rule mem_write_client)
    show "good_pool 4 p1" "mp_mem p1 + sizeof_blknode 4 \<le> r" using a(3) by (simp_all add: handles_ok_def)
    show "(handle_off 4 p1 r, k) \<in> used_blocks p1" using a(2) by (simp add: a(5) handle_off_same)
    show "length s + 1 + sizeof_blknode 4 \<le> 2 ^ k" using assms(4) a(4) by (simp add: sizeof_blknode_def)
  qed
  note W = handles_write [OF a(3) this]
  obtain p3 where f: "mpool_free 4 ?p2 r = Some p3" "same_pool ?p2 p3" by (rule free_only [OF W(1)])
  have "buddy_test1_main 4 g z inp h = Some (T_printed s, mpool_destroy p3 h')"
    using i a(1) f(1) assms(3) by (simp add: buddy_test1_main_def)
  with d [OF same_pool_trans [OF same_pool_trans [OF a(2) W(2)] f(2)]] show ?thesis by simp
qed simp_all

section \<open>test3.c\<close>

fun held :: "addr option option list \<Rightarrow> addr list" where
  \<comment> \<open>The pointers that the array holds.\<close>
  "held [] = []"
| "held (Some (Some a) # bs) = a # held bs"
| "held (None # bs) = held bs"
| "held (Some None # bs) = held bs"

lemma held_append: "held (xs @ ys) = held xs @ held ys"
  by (induction xs rule: held.induct) simp_all

lemma held_None: "held (replicate n None) = []"
  by (induction n) simp_all

lemma test3_release_uninit: "None \<in> set bs \<Longrightarrow> test3_release w bs p = None"
  by (induction w bs p rule: test3_release.induct) (auto split: bind_splits)

lemma test3_release_ok:
  "None \<notin> set bs \<Longrightarrow> handles_ok w p hs \<Longrightarrow> mset hs = mset (held bs) \<Longrightarrow>
    \<exists>p'. test3_release w bs p = Some p' \<and> same_pool p p' \<and> handles_ok w p' []"
proof (induction bs arbitrary: p hs rule: held.induct)
  case 1
  then show ?case by simp
next
  case (2 a bs)
  have a: "a \<in> set hs" using 2(4) by (metis held.simps(2) list.set_intros(1) mset_eq_setD)
  show ?case
  proof (rule handles_free [OF 2(3) a])
    fix p' assume f: "mpool_free w p a = Some p'" "same_pool p p'" "handles_ok w p' (remove1 a hs)"
    have "mset (remove1 a hs) = mset (held bs)" using 2(4) by simp
    from 2(1) [OF _ f(3) this] 2(2) obtain p2 where
      "test3_release w bs p' = Some p2" "same_pool p' p2" "handles_ok w p2 []" by auto
    with f(1) same_pool_trans [OF f(2)] show ?thesis by auto
  qed
qed auto

lemma test3_size:
  "\<exists>s. shl1 (5 + rnd (2 * i) mod 7) = Some s \<and> s = 2 ^ (5 + rnd (2 * i) mod 7) \<and>
     sz_add 4 s (sizeof_blknode 4) = s + sizeof_blknode 4"
proof -
  have m: "rnd (2 * i) mod 7 \<le> 6" using mod_less_divisor [of 7 "rnd (2 * i)"] by linarith
  then have "(2 :: nat) ^ (5 + rnd (2 * i) mod 7) \<le> 2 ^ 11" by (intro power_increasing) simp_all
  then have "2 ^ (5 + rnd (2 * i) mod 7) + sizeof_blknode 4 < size_mod 4" by (simp add: size_mod_def sizeof_blknode_def)
  with m show ?thesis by (simp add: shl1_def sz_add_small)
qed

definition fill_inv :: "(nat \<Rightarrow> nat) \<Rightarrow> nat \<Rightarrow> mpool \<Rightarrow> addr option option list \<Rightarrow> bool" where
  \<comment> \<open>\<open>L\<close> bounds the logarithms of the requests from below.\<close>
  "fill_inv rnd L p bs \<longleftrightarrow> (\<exists>hs. handles_ok 4 p hs \<and> mset hs = mset (held bs)) \<and>
     (\<forall>b\<in>used_blocks p. L < snd b)"

lemma test3_fill_ok:
  assumes "fill_inv rnd L p bs" "None \<notin> set bs" "\<forall>i. L \<le> 5 + rnd (2 * i) mod 7"
    and "(\<forall>i. rnd (2 * i + 1) mod 3 \<noteq> 0) \<longrightarrow> length (held bs) = length bs"
  shows "\<exists>p' bs'. test3_fill 4 rnd z [length bs..<length bs + n] (p, bs @ replicate n None) = Some (p', bs') \<and>
    same_pool p p' \<and> fill_inv rnd L p' bs' \<and> length bs' = length bs + n \<and>
    ((\<forall>i. rnd (2 * i + 1) mod 3 \<noteq> 0) \<longrightarrow> None \<notin> set bs' \<longrightarrow> length bs' \<le> length (held bs') + 1)"
  using assms
proof (induction n arbitrary: p bs)
  case 0
  then show ?case by auto
next
  case (Suc n)
  let ?i = "length bs" and ?nofree = "\<forall>i. rnd (2 * i + 1) mod 3 \<noteq> 0"
  have up: "[?i..<?i + Suc n] = ?i # [Suc ?i..<Suc ?i + n]" by (simp add: upt_conv_Cons)
  have upd: "(bs @ replicate (Suc n) None)[?i := b] = (bs @ [b]) @ replicate n None" for b :: "addr option option"
    by simp
  obtain s where s: "shl1 (5 + rnd (2 * ?i) mod 7) = Some s" "s = 2 ^ (5 + rnd (2 * ?i) mod 7)"
    "sz_add 4 s (sizeof_blknode 4) = s + sizeof_blknode 4" using test3_size [of rnd ?i] by blast
  obtain hs where ok: "handles_ok 4 p hs" and hs: "mset hs = mset (held bs)"
    and big: "\<forall>b\<in>used_blocks p. L < snd b" using Suc.prems(1) by (auto simp: fill_inv_def)
  show ?case
  proof (rule handles_alloc [OF ok, of s])
    assume none: "mpool_alloc 4 p s = Some (None, p)"
    have "fill_inv rnd L p ((bs @ [Some None]) @ replicate n None)"
      using Suc.prems(1) by (simp add: fill_inv_def held_append held_None)
    with none s(1) Suc.prems(4) show ?thesis unfolding up upd by (auto simp: upd held_append held_None)
  next
    fix r k p1
    assume a: "mpool_alloc 4 p s = Some (Some r, p1)" "same_pool p p1" "handles_ok 4 p1 (r # hs)"
      "sz_add 4 s (sizeof_blknode 4) \<le> 2 ^ k" "used_blocks p1 = insert (handle_off 4 p r, k) (used_blocks p)"
    have "L < k"
    proof (rule ccontr)
      assume "\<not> L < k"
      then have "(2 :: nat) ^ k \<le> 2 ^ (5 + rnd (2 * ?i) mod 7)"
        using Suc.prems(3) by (intro power_increasing) (auto intro: order_trans simp: not_less)
      moreover have "s + sizeof_blknode 4 \<le> 2 ^ k" using a(4) s(3) by simp
      moreover have "0 < sizeof_blknode 4" by (simp add: sizeof_blknode_def)
      ultimately show False using s(2) by linarith
    qed
    let ?p2 = "mem_write 4 p1 r s (z ?i)"
    have "client_write p1 ?p2"
    proof (rule mem_write_client)
      show "good_pool 4 p1" "mp_mem p1 + sizeof_blknode 4 \<le> r" using a(3) by (simp_all add: handles_ok_def)
      show "(handle_off 4 p1 r, k) \<in> used_blocks p1" using a(2) by (simp add: a(5) handle_off_same)
      show "s + sizeof_blknode 4 \<le> 2 ^ k" using a(4) s(3) by simp
    qed
    note W = handles_write [OF a(3) this]
    have big2: "\<forall>b\<in>used_blocks ?p2. L < snd b" using big \<open>L < k\<close> unfolding W(3) a(5) by auto
    note same = same_pool_trans [OF a(2) W(2)]
    show ?thesis
    proof (cases "rnd (2 * ?i + 1) mod 3 = 0")
      case True
      obtain p3 where f: "mpool_free 4 ?p2 r = Some p3" "same_pool ?p2 p3" "handles_ok 4 p3 hs"
        "used_blocks p3 \<subseteq> used_blocks ?p2"
      proof (rule handles_free [OF W(1)])
        show "r \<in> set (r # hs)" by simp
        have "(handle_off 4 ?p2 r, k) \<in> used_blocks ?p2"
          unfolding W(3) a(5) using same by (simp add: handle_off_same)
        moreover fix p3 assume "mpool_free 4 ?p2 r = Some p3" "same_pool ?p2 p3" "handles_ok 4 p3 (remove1 r (r # hs))"
          "\<And>k. (handle_off 4 ?p2 r, k) \<in> used_blocks ?p2 \<Longrightarrow> used_blocks p3 = used_blocks ?p2 - {(handle_off 4 ?p2 r, k)}"
        ultimately show thesis by (intro that) auto
      qed
      have "fill_inv rnd L p3 (bs @ [Some None])"
        using f(3,4) hs big2 by (auto simp: fill_inv_def held_append)
      moreover have "None \<notin> set (bs @ [Some None])" using Suc.prems(2) by simp
      moreover have "?nofree \<longrightarrow> length (held (bs @ [Some None])) = length (bs @ [Some None])"
        using True by (intro impI) (drule spec [of _ ?i], rule notE)
      ultimately obtain p' bs' where
        "test3_fill 4 rnd z [Suc ?i..<Suc ?i + n] (p3, (bs @ [Some None]) @ replicate n None) = Some (p', bs')"
        "same_pool p3 p'" "fill_inv rnd L p' bs'" "length bs' = ?i + Suc n"
        "?nofree \<longrightarrow> None \<notin> set bs' \<longrightarrow> length bs' \<le> length (held bs') + 1"
        using Suc.IH [OF _ _ Suc.prems(3), of p3 "bs @ [Some None]"] by auto
      with a(1) s(1) f(1) True same_pool_trans [OF same_pool_trans [OF same f(2)]] show ?thesis
        unfolding up by (auto simp: upd Let_def)
    next
      case False
      have "fill_inv rnd L ?p2 (bs @ [Some (Some r)])"
        unfolding fill_inv_def using W(1) hs big2 by (intro conjI exI [of _ "r # hs"]) (simp_all add: held_append)
      from Suc.IH [OF this _ Suc.prems(3)] Suc.prems(2,4) obtain p' bs' where
        "test3_fill 4 rnd z [Suc ?i..<Suc ?i + n] (?p2, (bs @ [Some (Some r)]) @ replicate n None) = Some (p', bs')"
        "same_pool ?p2 p'" "fill_inv rnd L p' bs'" "length bs' = ?i + Suc n"
        "?nofree \<longrightarrow> None \<notin> set bs' \<longrightarrow> length bs' \<le> length (held bs') + 1"
        by (auto simp: held_append)
      with a(1) s(1) False same_pool_trans [OF same] show ?thesis
        unfolding up by (auto simp: upd Let_def)
    qed
  qed
qed

lemma handles_inv: "handles_ok w p hs \<Longrightarrow> pool_inv w p"
  by (simp add: handles_ok_def good_pool_def)

lemma test3_stats:
  assumes "handles_ok 4 p []"
  shows "mpool_stat_get_nodes 4 p = (1, 0) \<and> mpool_stat_get_bytes 4 p = Some (2 ^ mp_maxlogsize p, 0)"
proof -
  note inv = handles_inv [OF assms]
  have u: "used_blocks p = {}" using assms by (simp add: handles_ok_def)
  note L = handles_none(2) [OF assms]
  have "useds p (live p) = []" using useds_count [OF inv] by (simp add: u)
  then have "avails p (live p) = live p" by (simp add: L split: if_splits)
  then show ?thesis
    using stat_nodes_pool [OF inv] stat_bytes_pool [OF inv] pool_bytes [OF inv] \<open>useds p (live p) = []\<close>
    by (simp add: L)
qed

lemma handles_bytes:
  assumes ok: "handles_ok w p hs" and big: "\<forall>b\<in>used_blocks p. L < snd b"
  shows "length hs * 2 ^ Suc L \<le> 2 ^ mp_maxlogsize p"
proof -
  have inv: "pool_inv w p" by (rule handles_inv [OF ok])
  have "inj_on (handle_off w p) (set hs)"
  proof (rule inj_onI)
    fix x y assume "x \<in> set hs" "y \<in> set hs" "handle_off w p x = handle_off w p y"
    moreover from this ok have "mp_mem p + sizeof_blknode w \<le> x" "mp_mem p + sizeof_blknode w \<le> y"
      unfolding handles_ok_def by blast+
    ultimately show "x = y" by (simp add: handle_off_def)
  qed
  then have "length hs = card (fst ` used_blocks p)"
    using ok by (simp add: handles_ok_def card_image distinct_card)
  also have "\<dots> \<le> card (used_blocks p)" by (rule card_image_le [OF finite_used])
  finally have "length hs * 2 ^ Suc L \<le> (\<Sum>b\<in>used_blocks p. 2 ^ Suc L)" by simp
  also have "\<dots> \<le> (\<Sum>b\<in>used_blocks p. 2 ^ snd b)"
    by (rule sum_mono) (use big in \<open>simp add: Suc_leI power_increasing del: power_Suc\<close>)
  also have "\<dots> \<le> 2 ^ mp_maxlogsize p"
    using useds_bytes [OF inv] bytes_split [of p "live p"] pool_bytes [OF inv] by simp
  finally show ?thesis .
qed

text \<open>C13: \<open>test3.c\<close>, whatever \<open>rand\<close> returns: filling the pool, writing over the whole of every
  block and releasing some on the way is never undefined. Then, when every entry of the array has
  been set, the second loop releases each block still held exactly once, and the statistics
  printed are those of one available block of the full size; but when an allocation has failed
  before the last entry, the second loop reads entries that were never written.\<close>

theorem test3_main_cases:
  assumes "mpool_init 4 g 20 5 h = Some ((MPOOL_OK, Some p), h')" "heap_wf h" "hp_limit h \<le> size_mod 4"
  shows "\<exists>p' pblk. test3_fill 4 rnd z [0..<MAX_BLOCKS] (p, replicate MAX_BLOCKS None) = Some (p', pblk) \<and>
    length pblk = MAX_BLOCKS \<and>
    (if None \<in> set pblk then test3_main 4 g rnd z h = None
     else \<exists>st h2. test3_main 4 g rnd z h = Some (Some st, h2) \<and>
       t3_nodes st = (1, 0) \<and> t3_bytes st = (2 ^ 20, 0) \<and>
       hp_live h2 = hp_live h \<and> hp_bad h2 = hp_bad h)"
proof (rule handles_init [OF _ test5_init(2) assms(2,3)])
  fix q h1
  assume i: "mpool_init 4 g 20 5 h = Some ((MPOOL_OK, Some q), h1)" and ok: "handles_ok 4 q []"
    and M: "mp_maxlogsize q = 20"
    and d: "\<And>r. same_pool q r \<Longrightarrow> hp_live (mpool_destroy r h1) = hp_live h \<and> hp_bad (mpool_destroy r h1) = hp_bad h"
  have q: "p = q" "h' = h1" using assms(1) i by simp_all
  have "fill_inv rnd 0 p []" using ok q by (auto simp: fill_inv_def handles_ok_def)
  from test3_fill_ok [OF this, of z MAX_BLOCKS] obtain p' bs where
    f: "test3_fill 4 rnd z [0..<MAX_BLOCKS] (p, replicate MAX_BLOCKS None) = Some (p', bs)"
      "same_pool p p'" "fill_inv rnd 0 p' bs" "length bs = MAX_BLOCKS" by auto
  obtain hs where hs: "handles_ok 4 p' hs" "mset hs = mset (held bs)" using f(3) by (auto simp: fill_inv_def)
  show ?thesis
  proof (cases "None \<in> set bs")
    case True
    then have "test3_main 4 g rnd z h = None"
      using assms(1) f(1) test3_release_uninit [OF True] by (simp add: test3_main_def)
    with f True show ?thesis by auto
  next
    case False
    obtain p2 where r: "test3_release 4 bs p' = Some p2" "same_pool p' p2" "handles_ok 4 p2 []"
      using test3_release_ok [OF False hs] by blast
    note same = same_pool_trans [OF f(2) r(2)]
    have "mp_maxlogsize p2 = 20" using same M q by (simp add: same_pool_def)
    with test3_stats [OF r(3)] have "\<exists>st. test3_main 4 g rnd z h = Some (Some st, mpool_destroy p2 h') \<and>
        t3_nodes st = (1, 0) \<and> t3_bytes st = (2 ^ 20, 0)"
      using assms(1) f(1) r(1) by (simp add: test3_main_def)
    with f False d [of p2] same q show ?thesis by auto
  qed
qed (use assms in simp_all)

lemma test3_main_cases_witness:
  "\<exists>p p' pblk. test3_fill 4 (\<lambda>n. n) (\<lambda>_. ex_hdr) [0..<MAX_BLOCKS] (p, replicate MAX_BLOCKS None) = Some (p', pblk) \<and>
     length pblk = MAX_BLOCKS"
proof -
  obtain p h1 where "mpool_init 4 ex_hdr 20 5 big_heap = Some ((MPOOL_OK, Some p), h1)"
    using big_heap_init [of 20] by auto
  from test3_main_cases [OF this big_heap_wf(1,2)] show ?thesis by blast
qed

text \<open>Some runs of \<open>test3.c\<close> do read those entries: when every request is for 2048 bytes and no
  block is released on the way, the pool is exhausted before the array is full.\<close>

theorem test3_reads_uninitialised:
  assumes "mpool_init 4 g 20 5 h = Some ((MPOOL_OK, Some p), h')" "heap_wf h" "hp_limit h \<le> size_mod 4"
  shows "test3_main 4 g (\<lambda>_. 13) z h = None"
proof (rule handles_init [OF _ test5_init(2) assms(2,3)])
  let ?rnd = "\<lambda>_. 13 :: nat"
  fix q h1
  assume i: "mpool_init 4 g 20 5 h = Some ((MPOOL_OK, Some q), h1)" and ok: "handles_ok 4 q []"
    and M: "mp_maxlogsize q = 20"
  have q: "p = q" using assms(1) i by simp
  have "fill_inv ?rnd 11 p []" using ok q by (auto simp: fill_inv_def handles_ok_def)
  from test3_fill_ok [OF this, of z MAX_BLOCKS] obtain p' bs where
    f: "test3_fill 4 ?rnd z [0..<MAX_BLOCKS] (p, replicate MAX_BLOCKS None) = Some (p', bs)"
      "same_pool p p'" "fill_inv ?rnd 11 p' bs" "length bs = MAX_BLOCKS"
      "None \<notin> set bs \<longrightarrow> length bs \<le> length (held bs) + 1" by auto
  obtain hs where hs: "handles_ok 4 p' hs" "mset hs = mset (held bs)" "\<forall>b\<in>used_blocks p'. 11 < snd b"
    using f(3) by (auto simp: fill_inv_def)
  have "length hs * 2 ^ Suc 11 \<le> 2 ^ 20" using handles_bytes [OF hs(1,3)] f(2) M q by (simp add: same_pool_def)
  moreover have "length hs = length (held bs)" using hs(2) by (rule mset_eq_length)
  ultimately have "None \<in> set bs" using f(4,5) by (auto simp: MAX_BLOCKS_def)
  then show ?thesis using assms(1) f(1) test3_release_uninit by (simp add: test3_main_def)
qed (use assms in simp_all)

lemma test3_reads_uninitialised_witness: "test3_main 4 ex_hdr (\<lambda>_. 13) (\<lambda>_. ex_hdr) big_heap = None"
proof -
  obtain p h1 where "mpool_init 4 ex_hdr 20 5 big_heap = Some ((MPOOL_OK, Some p), h1)"
    using big_heap_init [of 20] by auto
  from test3_reads_uninitialised [OF this big_heap_wf(1,2)] show ?thesis .
qed

end
