(* ===== verification/Pool_Rows.thy ===== *)
theory Pool_Rows imports Pool_Tests begin

text \<open>
  The test program \<open>buddy/test2.c\<close>: a matrix in a pool of 1024 bytes, whose array of row pointers is a block of the
  same pool as the rows. The contents of the blocks are modelled beside the headers: a cell of four bytes holds a
  pointer or an \<open>int\<close>, and is lost when something else is written over any of its bytes, a header of the pool included.
\<close>

section \<open>The contents of blocks\<close>

datatype t2_cell = T2_ptr addr | T2_int int

type_synonym cells = "addr \<rightharpoonup> t2_cell"

definition put :: "addr \<Rightarrow> t2_cell \<Rightarrow> cells \<Rightarrow> cells" where
  "put x c m = (\<lambda>y. if y = x then Some c else if x < y + 4 \<and> y < x + 4 then None else m y)"

definition keep :: "mpool \<Rightarrow> mpool \<Rightarrow> cells \<Rightarrow> cells" where
  \<comment> \<open>The cells over which no header was written from \<open>p\<close> to \<open>p'\<close>.\<close>
  "keep p p' m = (\<lambda>y. if \<forall>a\<in>set [y + 1 - sizeof_blknode 4..<y + 4]. mp_hdr p' a = mp_hdr p a then m y else None)"

section \<open>The program\<close>

definition t2_size :: "int \<Rightarrow> nat" where
  \<comment> \<open>\<open>atoi(s) * sizeof *p\<close>, for pointers and \<open>int\<close>s of four bytes.\<close>
  "t2_size n = nat (n * 4 mod 2 ^ 32)"

definition dec2 :: "nat \<Rightarrow> string" where
  \<comment> \<open>\<open>%2d\<close> of a number below 100\<close>
  "dec2 n = (if n < 10 then [CHR '' '', char_of (48 + n)] else [char_of (48 + n div 10), char_of (48 + n mod 10)])"

datatype t2_end = T2_init mpret_t | T2_noblock | T2_printed string addr cells

fun t2_rows :: "(nat \<Rightarrow> addr \<Rightarrow> blknode) \<Rightarrow> int \<Rightarrow> addr \<Rightarrow> nat list \<Rightarrow> mpool \<times> cells \<Rightarrow> (bool \<times> mpool \<times> cells) option" where
  \<comment> \<open>The loop that allocates the rows; \<open>False\<close>: there is no block. \<open>z i\<close> is what the headers under \<open>array[i]\<close> spell.\<close>
  "t2_rows z cols array [] (p, m) = Some (True, p, m)"
| "t2_rows z cols array (i # is) (p, m) =
     do { (r, p1) \<leftarrow> mpool_alloc 4 p (t2_size cols);
          case r of
            None \<Rightarrow> Some (False, p1, keep p p1 m)
          | Some a \<Rightarrow>
              t2_rows z cols array is
                (mem_write 4 p1 (array + i * 4) 4 (z i), put (array + i * 4) (T2_ptr a) (keep p p1 m)) }"

fun t2_row :: "(nat \<Rightarrow> addr \<Rightarrow> blknode) \<Rightarrow> (nat \<Rightarrow> nat) \<Rightarrow> addr \<Rightarrow> nat \<Rightarrow> nat list \<Rightarrow> mpool \<times> cells \<Rightarrow> (string \<times> mpool \<times> cells) option" where
  \<comment> \<open>The inner loop of row \<open>i\<close>. The pointer is read from the array for each access; reading a cell that holds nothing
      of the kind is undefined.\<close>
  "t2_row z rnd array i [] (p, m) = Some ([CHR 0x0A], p, m)"
| "t2_row z rnd array i (j # js) (p, m) =
     (case m (array + i * 4) of
        Some (T2_ptr a) \<Rightarrow>
          (let p1 = mem_write 4 p (a + j * 4) 4 (z j);
               m1 = put (a + j * 4) (T2_int (int (rnd j mod 100))) m in
           case m1 (array + i * 4) of
             Some (T2_ptr b) \<Rightarrow>
               (case m1 (b + j * 4) of
                  Some (T2_int v) \<Rightarrow> do { (s, st) \<leftarrow> t2_row z rnd array i js (p1, m1); Some (dec2 (nat v) @ CHR 0x09 # s, st) }
                | _ \<Rightarrow> None)
           | _ \<Rightarrow> None)
      | _ \<Rightarrow> None)"

fun t2_fill :: "(nat \<Rightarrow> nat \<Rightarrow> addr \<Rightarrow> blknode) \<Rightarrow> (nat \<Rightarrow> nat \<Rightarrow> nat) \<Rightarrow> int \<Rightarrow> addr \<Rightarrow> nat list \<Rightarrow> mpool \<times> cells \<Rightarrow> (string \<times> mpool \<times> cells) option" where
  \<comment> \<open>The loop that fills and prints the matrix; \<open>rnd i j\<close> is what \<open>rand\<close> returns for row \<open>i\<close> and column \<open>j\<close>.\<close>
  "t2_fill z rnd cols array [] st = Some ([], st)"
| "t2_fill z rnd cols array (i # is) st =
     do { (s, st1) \<leftarrow> t2_row (z i) (rnd i) array i [0..<nat cols] st;
          (t, st2) \<leftarrow> t2_fill z rnd cols array is st1;
          Some (s @ t, st2) }"

definition test2_main ::
  "(addr \<Rightarrow> blknode) \<Rightarrow> (nat \<Rightarrow> addr \<Rightarrow> blknode) \<Rightarrow> (nat \<Rightarrow> nat \<Rightarrow> addr \<Rightarrow> blknode) \<Rightarrow> (nat \<Rightarrow> nat \<Rightarrow> nat) \<Rightarrow> int \<Rightarrow> int \<Rightarrow>
     cheap \<Rightarrow> (t2_end \<times> cheap) option" where
  \<comment> \<open>\<open>rows\<close> and \<open>cols\<close> are what \<open>atoi\<close> makes of the arguments. The result says what was printed, where the array is and
      what the blocks hold when the pool is about to be destroyed.\<close>
  "test2_main g z1 z2 rnd rows cols h =
     do { ((ret, pool), h') \<leftarrow> mpool_init 4 g 10 5 h;
          case pool of
            None \<Rightarrow> Some (T2_init ret, h')
          | Some p \<Rightarrow>
              do { (r, p1) \<leftarrow> mpool_alloc 4 p (t2_size rows);
                   case r of
                     None \<Rightarrow> Some (T2_noblock, mpool_destroy p1 h')
                   | Some array \<Rightarrow>
                       do { (ok, p2, m2) \<leftarrow> t2_rows z1 cols array [0..<nat rows] (p1, Map.empty);
                            if \<not> ok then Some (T2_noblock, mpool_destroy p2 h')
                            else do {
                              (s, p3, m3) \<leftarrow> t2_fill z2 rnd cols array [0..<nat rows] (p2, m2);
                              Some (T2_printed s array m3, mpool_destroy p3 h') } } } }"

section \<open>What an allocation writes\<close>

lemma again_frame:
  "pool_inv w p \<Longrightarrow> a \<in> set (live p) \<Longrightarrow> fitting p sz a \<Longrightarrow> mpool_again w p sz a = Some (r, p') \<Longrightarrow>
    mp_hdr p' b \<noteq> mp_hdr p b \<Longrightarrow> a \<le> b \<and> b + sizeof_blknode w \<le> a + 2 ^ ls_of p a"
proof (induction "ls_of p a" arbitrary: p)
  case 0
  with pool_inv_blk(2) [OF 0(2,3)] pool_minlogsize_pos [OF 0(2)] show ?case by simp
next
  case (Suc k)
  note inv = Suc.prems(1) and a = Suc.prems(2) and fit = Suc.prems(3)
  note B = pool_inv_blk [OF inv a]
  have d: "0 < w" "sizeof_blknode w < 2 ^ mp_minlogsize p" using pool_invD(1) [OF inv] by (simp_all add: pool_dims_def)
  have k: "ls_of p a = Suc k" using Suc.hyps(2) by simp
  have ls: "bn_logsize (mp_hdr p a) = Suc k" using k by (simp add: ls_of_def)
  have sub: "sz_sub w (Suc k) 1 = k" using d B(4) k by (simp add: sz_sub_logsize del: One_nat_def)
  have stop: "mpool_no_split w p sz a =
      Some (sz = 2 ^ Suc k \<or> 2 ^ k < sz \<or> k < mp_minlogsize p)"
    using B(4) k unfolding mpool_no_split_def Let_def ls sub by (simp add: shl1_def)
  have av: "MPOOL_IS_AVAIL (mp_hdr p a)" and sz: "sz \<le> 2 ^ Suc k" using fit k by (auto simp: fitting_def)
  have "(2 :: nat) ^ mp_minlogsize p \<le> 2 ^ Suc k" using B(2) k by (intro power_increasing) simp_all
  then have here: "a + sizeof_blknode w \<le> a + 2 ^ Suc k" using d(2) by linarith
  show ?case
  proof (cases "sz = 2 ^ Suc k \<or> 2 ^ k < sz \<or> k < mp_minlogsize p")
    case True
    then have "p' = mp_set p a (MPOOL_MARK_USED (mp_hdr p a))"
      using Suc.prems(4) stop by (simp add: mpool_again.simps [of w p])
    then have "b = a" using Suc.prems(5) by (simp split: if_splits)
    then show ?thesis using here k by simp
  next
    case False
    then have m: "mp_minlogsize p \<le> k" and sz: "sz \<le> 2 ^ k" by auto
    let ?p = "split_pool w p a k"
    note e = split_effect [OF inv a k m]
    have fit': "fitting ?p sz a" using e(4,5) av sz by (simp add: fitting_def)
    have r: "mpool_again w ?p sz a = Some (r, p')"
      using Suc.prems(4) False stop mpool_split_eq [OF inv a k m] by (simp add: mpool_again.simps [of w p])
    have "(2 :: nat) ^ mp_minlogsize p \<le> 2 ^ k" using m by (intro power_increasing) simp_all
    then have right: "a + 2 ^ k + sizeof_blknode w \<le> a + 2 ^ Suc k" using d(2) unfolding power_Suc by linarith
    show ?thesis
    proof (cases "mp_hdr p' b = mp_hdr ?p b")
      case True
      then have "b = a \<or> b = a + 2 ^ k" using Suc.prems(5) by (auto simp: split_pool_def Let_def split: if_splits)
      then show ?thesis using here right k by auto
    next
      case ne: False
      from Suc.hyps(1) [OF e(4) [symmetric] e(1,3) fit' r ne] e(4) show ?thesis using k by simp
    qed
  qed
qed

lemma alloc_frame:
  assumes inv: "pool_inv w p" and r: "mpool_alloc w p n = Some (Some x, p')" and u: "(off, k) \<in> used_blocks p"
    and ne: "mp_hdr p' b \<noteq> mp_hdr p b"
  shows "b + sizeof_blknode w \<le> mp_mem p + off \<or> mp_mem p + off + 2 ^ k \<le> b"
proof -
  let ?sz = "sz_add w n (sizeof_blknode w)"
  have "\<exists>a. mpool_find p ?sz [0..<mp_nblocks p] None = Some (Some a) \<and> a \<in> set (live p) \<and> fitting p ?sz a"
    by (rule mpool_find_ok [OF inv, of ?sz]) (use r in \<open>auto simp: mpool_alloc_def\<close>)
  then obtain a where
    a: "mpool_find p ?sz [0..<mp_nblocks p] None = Some (Some a)" "a \<in> set (live p)" "fitting p ?sz a" by blast
  have "mpool_again w p ?sz a = Some (x, p')" using r a(1) by (auto simp: mpool_alloc_def split: bind_splits)
  note F = again_frame [OF inv a(2,3) this ne]
  have "(a - mp_mem p, ls_of p a, True) \<in> abs_pool p" using a by (auto simp: abs_pool_iff fitting_def)
  moreover have "(off, k, False) \<in> abs_pool p" using u by (simp add: used_blocks_def)
  ultimately have "off + 2 ^ k \<le> a - mp_mem p \<or> a - mp_mem p + 2 ^ ls_of p a \<le> off"
    using abs_pool_disjoint [OF inv] by blast
  then show ?thesis using F pool_invD(6) [OF inv a(2)] by linarith
qed

section \<open>Writes into blocks in use\<close>

lemma write_inside:
  assumes ok: "handles_ok w p hs" and r: "r \<in> set hs" "(handle_off w p r, k) \<in> used_blocks p"
    and n: "o' + n + sizeof_blknode w \<le> 2 ^ k"
  shows "client_write p (mem_write w p (r + o') n z)"
proof -
  let ?z = "\<lambda>a. if a + sizeof_blknode w \<le> r + o' then mp_hdr p a else z a"
  have "(\<lambda>a. if a + sizeof_blknode w \<le> r + o' \<or> r + o' + n \<le> a then mp_hdr p a else z a) =
      (\<lambda>a. if a + sizeof_blknode w \<le> r \<or> r + (o' + n) \<le> a then mp_hdr p a else ?z a)"
    by (rule ext) auto
  then have "mem_write w p (r + o') n z = mem_write w p r (o' + n) ?z" by (simp only: mem_write_def)
  moreover have "client_write p (mem_write w p r (o' + n) ?z)"
    by (rule mem_write_client [OF _ _ r(2)]) (use ok r(1) n in \<open>auto simp: handles_ok_def\<close>)
  ultimately show ?thesis by simp
qed

lemma handle_addr: "handles_ok w p hs \<Longrightarrow> r \<in> set hs \<Longrightarrow> r = mp_mem p + handle_off w p r + sizeof_blknode w"
  by (auto simp: handles_ok_def handle_off_def)

lemma handles_apart:
  assumes ok: "handles_ok w p hs" and r: "r \<in> set hs" "(handle_off w p r, k) \<in> used_blocks p"
    and s: "s \<in> set hs" "(handle_off w p s, l) \<in> used_blocks p" and ne: "r \<noteq> s"
  shows "r + 2 ^ k \<le> s \<or> s + 2 ^ l \<le> r"
proof -
  note R = handle_addr [OF ok r(1)] and S = handle_addr [OF ok s(1)]
  have "handle_off w p r \<noteq> handle_off w p s" using ne R S by metis
  then have "handle_off w p r + 2 ^ k \<le> handle_off w p s \<or> handle_off w p s + 2 ^ l \<le> handle_off w p r"
    by (intro abs_pool_disjoint [OF handles_inv [OF ok]]) (use r(2) s(2) in \<open>auto simp: used_blocks_def\<close>)
  then show ?thesis using R S by linarith
qed

lemma keep_inside:
  assumes ok: "handles_ok 4 p hs" and r: "r \<in> set hs" "(handle_off 4 p r, k) \<in> used_blocks p"
    and a: "mpool_alloc 4 p n = Some (Some x, p')" and o': "o' + 4 + sizeof_blknode 4 \<le> 2 ^ k"
  shows "keep p p' m (r + o') = m (r + o')"
proof -
  have "\<forall>b\<in>set [r + o' + 1 - sizeof_blknode 4..<r + o' + 4]. mp_hdr p' b = mp_hdr p b"
  proof (intro ballI, rule ccontr)
    fix b assume b: "b \<in> set [r + o' + 1 - sizeof_blknode 4..<r + o' + 4]"
    assume "mp_hdr p' b \<noteq> mp_hdr p b"
    from alloc_frame [OF handles_inv [OF ok] a r(2) this] handle_addr [OF ok r(1)] b o' show False by auto
  qed
  then show ?thesis unfolding keep_def by (rule if_P)
qed

definition t2_inv :: "mpool \<Rightarrow> cells \<Rightarrow> nat \<Rightarrow> nat \<Rightarrow> addr \<Rightarrow> addr list \<Rightarrow> bool" where
  \<comment> \<open>The array has room for \<open>n\<close> pointers and holds the rows \<open>rs\<close>, each of which has room for \<open>c\<close> numbers.\<close>
  "t2_inv p m n c array rs \<longleftrightarrow> (\<exists>hs. handles_ok 4 p hs \<and> set hs = insert array (set rs) \<and> array \<notin> set rs \<and>
     (\<exists>k. (handle_off 4 p array, k) \<in> used_blocks p \<and> n * 4 + sizeof_blknode 4 \<le> 2 ^ k) \<and>
     (\<forall>r\<in>set rs. \<exists>k. (handle_off 4 p r, k) \<in> used_blocks p \<and> c * 4 + sizeof_blknode 4 \<le> 2 ^ k) \<and>
     distinct rs \<and> (\<forall>i<length rs. m (array + i * 4) = Some (T2_ptr (rs ! i))))"

lemma put_other: "x + 4 \<le> y \<or> y + 4 \<le> x \<Longrightarrow> put x c m y = m y"
  by (auto simp: put_def)

lemma put_same [simp]: "put x c m x = Some c"
  by (simp add: put_def)

definition few_small :: "mpool \<Rightarrow> nat \<Rightarrow> bool" where
  \<comment> \<open>At most \<open>n\<close> blocks of at most 64 bytes are in use.\<close>
  "few_small p n \<longleftrightarrow> mp_minlogsize p = 5 \<and> mp_maxlogsize p = 10 \<and> card (used_blocks p) \<le> n \<and> (\<forall>b\<in>used_blocks p. snd b \<le> 6)"

lemma few_small_some:
  assumes "few_small p n" "n \<le> 10" "sz_add 4 s (sizeof_blknode 4) \<le> 64" "handles_ok 4 p hs"
  shows "mpool_alloc 4 p s \<noteq> Some (None, p)"
proof (rule alloc_succeeds [where m = 5])
  have "3 * card (used_blocks p) * 32 \<le> 3 * 10 * 32" using assms(1,2) by (intro mult_le_mono) (simp_all add: few_small_def)
  then show "3 * card (used_blocks p) * 2 ^ 5 < 2 ^ mp_maxlogsize p" using assms(1) by (simp add: few_small_def)
qed (use assms in \<open>auto simp: few_small_def handles_ok_def\<close>)

lemma few_small_insert:
  assumes "few_small p n" "same_pool p p'" "used_blocks p' = insert (x, k) (used_blocks p)" "spec_fits 5 s k" "s \<le> 64"
  shows "few_small p' (Suc n)"
proof -
  have "k \<le> 6"
  proof (rule ccontr)
    assume k: "\<not> k \<le> 6"
    then have "(2 :: nat) ^ 6 \<le> 2 ^ (k - 1)" by (intro power_increasing) simp_all
    then show False using assms(4,5) k by (auto simp: spec_fits_def)
  qed
  moreover have "card (insert (x, k) (used_blocks p)) \<le> Suc (card (used_blocks p))"
    using finite_used by (simp add: card_insert_if)
  ultimately show ?thesis using assms by (auto simp: few_small_def same_pool_def)
qed

lemma t2_rows_ok:
  assumes "t2_inv p m n c array rs" "length rs + N \<le> n" "c * 4 + sizeof_blknode 4 < 2 ^ 32" "t2_size cols = c * 4"
  shows "\<exists>ok p' m' rs'. t2_rows z cols array [length rs..<length rs + N] (p, m) = Some (ok, p', m') \<and> same_pool p p' \<and>
    (ok \<longrightarrow> t2_inv p' m' n c array rs' \<and> length rs' = length rs + N) \<and>
    (few_small p (Suc (length rs)) \<and> length rs + N \<le> 10 \<and> c \<le> 11 \<longrightarrow> ok)"
  using assms(1,2)
proof (induction N arbitrary: p m rs)
  case 0
  then show ?case by auto
next
  case (Suc N)
  let ?i = "length rs"
  have up: "[?i..<?i + Suc N] = ?i # [Suc ?i..<Suc ?i + N]" by (simp add: upt_conv_Cons)
  from Suc.prems(1) obtain hs k where I: "handles_ok 4 p hs" "set hs = insert array (set rs)" "array \<notin> set rs"
    "(handle_off 4 p array, k) \<in> used_blocks p" "n * 4 + sizeof_blknode 4 \<le> 2 ^ k"
    "\<forall>r\<in>set rs. \<exists>k. (handle_off 4 p r, k) \<in> used_blocks p \<and> c * 4 + sizeof_blknode 4 \<le> 2 ^ k"
    "distinct rs" "\<forall>i<length rs. m (array + i * 4) = Some (T2_ptr (rs ! i))" unfolding t2_inv_def by blast
  have ar: "array \<in> set hs" using I(2) by simp
  have sz: "sz_add 4 (c * 4) (sizeof_blknode 4) = c * 4 + sizeof_blknode 4"
    using assms(3) by (intro sz_add_small) (simp add: size_mod_def)
  show ?case
  proof (rule handles_alloc [OF I(1), of "c * 4"])
    assume none: "mpool_alloc 4 p (c * 4) = Some (None, p)"
    then have "\<not> (few_small p (Suc ?i) \<and> ?i + Suc N \<le> 10 \<and> c \<le> 11)"
      using few_small_some [of p "Suc ?i" "c * 4", OF _ _ _ I(1)] sz by (auto simp: sizeof_blknode_def)
    with none show ?thesis unfolding up
      by (intro exI [of _ False] exI [of _ p] exI [of _ "keep p p m"]) (simp add: assms(4))
  next
    fix r l p1
    assume a: "mpool_alloc 4 p (c * 4) = Some (Some r, p1)" "same_pool p p1" "handles_ok 4 p1 (r # hs)"
      "sz_add 4 (c * 4) (sizeof_blknode 4) \<le> 2 ^ l" "used_blocks p1 = insert (handle_off 4 p r, l) (used_blocks p)"
      "spec_fits (mp_minlogsize p) (sz_add 4 (c * 4) (sizeof_blknode 4)) l"
    let ?p2 = "mem_write 4 p1 (array + ?i * 4) 4 (z ?i)" and ?m2 = "put (array + ?i * 4) (T2_ptr r) (keep p p1 m)"
    have o1: "handle_off 4 p1 x = handle_off 4 p x" for x by (rule handle_off_same [OF a(2)])
    have k1: "(handle_off 4 p1 array, k) \<in> used_blocks p1" using I(4) by (simp add: o1 a(5))
    have room: "i * 4 + 4 + sizeof_blknode 4 \<le> 2 ^ k" if "i \<le> ?i" for i using that I(5) Suc.prems(2) by linarith
    have "client_write p1 ?p2"
      by (rule write_inside [OF a(3) _ k1]) (use ar room [of ?i] in simp_all)
    note W = handles_write [OF a(3) this]
    note same = same_pool_trans [OF a(2) W(2)]
    have o2: "handle_off 4 ?p2 x = handle_off 4 p x" for x by (rule handle_off_same [OF same])
    have new: "r \<notin> set hs" using a(3) by (simp add: handles_ok_def)
    have cells: "?m2 (array + i * 4) = Some (T2_ptr ((rs @ [r]) ! i))" if i: "i < length (rs @ [r])" for i
    proof (cases "i = ?i")
      case False
      then have "i < ?i" using i by simp
      moreover from this have "?m2 (array + i * 4) = keep p p1 m (array + i * 4)" by (intro put_other) linarith
      moreover have "keep p p1 m (array + i * 4) = m (array + i * 4)"
        by (rule keep_inside [OF I(1) ar I(4) a(1)]) (use room [of i] \<open>i < ?i\<close> in simp)
      ultimately show ?thesis using I(8) by (simp add: nth_append)
    qed simp
    have "t2_inv ?p2 ?m2 n c array (rs @ [r])" unfolding t2_inv_def
    proof (intro exI [of _ "r # hs"] conjI ballI)
      show "handles_ok 4 ?p2 (r # hs)" by (rule W(1))
      show "set (r # hs) = insert array (set (rs @ [r]))" using I(2) by auto
      show "array \<notin> set (rs @ [r])" "distinct (rs @ [r])" using I(2,3,7) new by auto
      show "\<exists>k. (handle_off 4 ?p2 array, k) \<in> used_blocks ?p2 \<and> n * 4 + sizeof_blknode 4 \<le> 2 ^ k"
        using I(4,5) by (intro exI [of _ k]) (simp add: W(3) a(5) o2)
      show "\<forall>i<length (rs @ [r]). ?m2 (array + i * 4) = Some (T2_ptr ((rs @ [r]) ! i))" using cells by blast
      fix x assume "x \<in> set (rs @ [r])"
      then show "\<exists>k. (handle_off 4 ?p2 x, k) \<in> used_blocks ?p2 \<and> c * 4 + sizeof_blknode 4 \<le> 2 ^ k"
        using I(6) a(4) sz by (auto simp: W(3) a(5) o2)
    qed
    from Suc.IH [OF this] Suc.prems(2) obtain ok p' m' rs' where
      "t2_rows z cols array [Suc ?i..<Suc ?i + N] (?p2, ?m2) = Some (ok, p', m')" "same_pool ?p2 p'"
      "ok \<longrightarrow> t2_inv p' m' n c array rs' \<and> length rs' = ?i + Suc N"
      "few_small ?p2 (Suc (Suc ?i)) \<and> ?i + Suc N \<le> 10 \<and> c \<le> 11 \<longrightarrow> ok" by auto
    moreover have "few_small ?p2 (Suc (Suc ?i))" if "few_small p (Suc ?i)" "c \<le> 11"
      by (rule few_small_insert [OF that(1) same]) (use that a(6) sz in \<open>auto simp: W(3) a(5) few_small_def sizeof_blknode_def\<close>)
    ultimately show ?thesis using a(1) same_pool_trans [OF same] unfolding up
      by (intro exI [of _ ok] exI [of _ p'] exI [of _ m'] exI [of _ rs']) (auto simp: assms(4))
  qed
qed

lemma t2_inv_rows:
  assumes "t2_inv p m n c array rs"
  obtains hs k where "handles_ok 4 p hs" "set hs = insert array (set rs)" "array \<notin> set rs"
    "(handle_off 4 p array, k) \<in> used_blocks p" "n * 4 + sizeof_blknode 4 \<le> 2 ^ k"
    "\<forall>r\<in>set rs. \<exists>k. (handle_off 4 p r, k) \<in> used_blocks p \<and> c * 4 + sizeof_blknode 4 \<le> 2 ^ k"
    "distinct rs" "\<forall>i<length rs. m (array + i * 4) = Some (T2_ptr (rs ! i))"
  using assms unfolding t2_inv_def by blast

lemma t2_cells_apart:
  \<comment> \<open>A number that is written into its place leaves all other numbers alone.\<close>
  assumes I: "t2_inv p m n c array rs" and i: "i < length rs" "i' < length rs" and j: "j < c" "j' < c" and ne: "(i', j') \<noteq> (i, j)"
  shows "put (rs ! i + j * 4) v m' (rs ! i' + j' * 4) = m' (rs ! i' + j' * 4)"
proof (rule put_other)
  from I obtain hs where hs: "handles_ok 4 p hs" "set hs = insert array (set rs)" "distinct rs"
    "\<forall>r\<in>set rs. \<exists>k. (handle_off 4 p r, k) \<in> used_blocks p \<and> c * 4 + sizeof_blknode 4 \<le> 2 ^ k" by (elim t2_inv_rows)
  have js: "j * 4 + 4 \<le> c * 4" "j' * 4 + 4 \<le> c * 4" using j by simp_all
  show "rs ! i + j * 4 + 4 \<le> rs ! i' + j' * 4 \<or> rs ! i' + j' * 4 + 4 \<le> rs ! i + j * 4"
  proof (cases "i' = i")
    case True
    then have "j' \<noteq> j" using ne by simp
    then show ?thesis using True by auto
  next
    case False
    then have r: "rs ! i \<noteq> rs ! i'" "rs ! i \<in> set rs" "rs ! i' \<in> set rs" using i hs(3) by (simp_all add: nth_eq_iff_index_eq)
    then obtain k l where kl: "(handle_off 4 p (rs ! i), k) \<in> used_blocks p" "c * 4 + sizeof_blknode 4 \<le> 2 ^ k"
      "(handle_off 4 p (rs ! i'), l) \<in> used_blocks p" "c * 4 + sizeof_blknode 4 \<le> 2 ^ l" using hs(4) by metis
    have "rs ! i + 2 ^ k \<le> rs ! i' \<or> rs ! i' + 2 ^ l \<le> rs ! i"
      by (rule handles_apart [OF hs(1) _ kl(1) _ kl(3) r(1)]) (use r(2,3) hs(2) in auto)
    then show ?thesis using js kl(2,4) by linarith
  qed
qed

lemma t2_row_ok:
  assumes "t2_inv p m n c array rs" "i < length rs" "length rs \<le> n" "\<forall>j\<in>set js. j < c"
  shows "\<exists>p' m'. t2_row z rnd array i js (p, m) =
      Some (concat (map (\<lambda>j. dec2 (rnd j mod 100) @ [CHR 0x09]) js) @ [CHR 0x0A], p', m') \<and>
    same_pool p p' \<and> t2_inv p' m' n c array rs \<and>
    (\<forall>i'<length rs. \<forall>j'<c. m' (rs ! i' + j' * 4) =
       (if i' = i \<and> j' \<in> set js then Some (T2_int (int (rnd j' mod 100))) else m (rs ! i' + j' * 4)))"
  using assms(1,4)
proof (induction js arbitrary: p m)
  case Nil
  then show ?case by auto
next
  case (Cons j js)
  from Cons.prems(1) obtain hs k where I: "handles_ok 4 p hs" "set hs = insert array (set rs)" "array \<notin> set rs"
    "(handle_off 4 p array, k) \<in> used_blocks p" "n * 4 + sizeof_blknode 4 \<le> 2 ^ k"
    "\<forall>r\<in>set rs. \<exists>k. (handle_off 4 p r, k) \<in> used_blocks p \<and> c * 4 + sizeof_blknode 4 \<le> 2 ^ k"
    "distinct rs" "\<forall>i<length rs. m (array + i * 4) = Some (T2_ptr (rs ! i))" by (rule t2_inv_rows)
  let ?a = "rs ! i" and ?v = "T2_int (int (rnd j mod 100))"
  let ?p1 = "mem_write 4 p (?a + j * 4) 4 (z j)" and ?m1 = "put (?a + j * 4) ?v m"
  have a: "?a \<in> set rs" "?a \<in> set hs" "?a \<noteq> array" using assms(2) I(2,3) by auto
  obtain l where l: "(handle_off 4 p ?a, l) \<in> used_blocks p" "c * 4 + sizeof_blknode 4 \<le> 2 ^ l" using I(6) a(1) by blast
  have jc: "j < c" using Cons.prems(2) by simp
  then have j: "j * 4 + 4 + sizeof_blknode 4 \<le> 2 ^ l" using l(2) by simp
  have "client_write p ?p1" by (rule write_inside [OF I(1) a(2) l(1) j])
  note W = handles_write [OF I(1) this]
  have ap: "array + 2 ^ k \<le> ?a \<or> ?a + 2 ^ l \<le> array"
    using handles_apart [OF I(1) _ I(4) a(2) l(1)] I(2) a(3) by auto
  have cells: "?m1 (array + i' * 4) = Some (T2_ptr (rs ! i'))" if "i' < length rs" for i'
  proof -
    have "i' * 4 + 4 \<le> n * 4" using that assms(3) by simp
    then have "?m1 (array + i' * 4) = m (array + i' * 4)" using ap j I(5) by (intro put_other) linarith
    then show ?thesis using I(8) that by simp
  qed
  have o1: "handle_off 4 ?p1 x = handle_off 4 p x" for x by (rule handle_off_same [OF W(2)])
  have "t2_inv ?p1 ?m1 n c array rs" unfolding t2_inv_def o1 W(3) using I W(1) cells by (intro exI [of _ hs]) blast
  from Cons.IH [OF this] Cons.prems(2) obtain p' m' where
    2: "t2_row z rnd array i js (?p1, ?m1) = Some (concat (map (\<lambda>j. dec2 (rnd j mod 100) @ [CHR 0x09]) js) @ [CHR 0x0A], p', m')"
    "same_pool ?p1 p'" "t2_inv p' m' n c array rs"
    "\<forall>i'<length rs. \<forall>j'<c. m' (rs ! i' + j' * 4) =
       (if i' = i \<and> j' \<in> set js then Some (T2_int (int (rnd j' mod 100))) else ?m1 (rs ! i' + j' * 4))" by auto
  have "m' (rs ! i' + j' * 4) =
      (if i' = i \<and> j' \<in> set (j # js) then Some (T2_int (int (rnd j' mod 100))) else m (rs ! i' + j' * 4))"
    if "i' < length rs" "j' < c" for i' j'
    using 2(4) that t2_cells_apart [OF Cons.prems(1) assms(2) that(1) jc that(2), of ?v m] by (cases "(i', j') = (i, j)") auto
  moreover have "t2_row z rnd array i (j # js) (p, m) =
      Some (concat (map (\<lambda>j. dec2 (rnd j mod 100) @ [CHR 0x09]) (j # js)) @ [CHR 0x0A], p', m')"
    using 2(1) I(8) assms(2) cells [OF assms(2)] by (simp add: Let_def)
  ultimately show ?case using 2(2,3) same_pool_trans [OF W(2)] by blast
qed

definition t2_text :: "(nat \<Rightarrow> nat \<Rightarrow> nat) \<Rightarrow> int \<Rightarrow> nat list \<Rightarrow> string" where
  "t2_text rnd cols is =
     concat (map (\<lambda>i. concat (map (\<lambda>j. dec2 (rnd i j mod 100) @ [CHR 0x09]) [0..<nat cols]) @ [CHR 0x0A]) is)"

lemma t2_fill_ok:
  assumes "t2_inv p m n (nat cols) array rs" "\<forall>i\<in>set is. i < length rs" "length rs \<le> n"
  shows "\<exists>p' m'. t2_fill z rnd cols array is (p, m) = Some (t2_text rnd cols is, p', m') \<and> same_pool p p' \<and>
    t2_inv p' m' n (nat cols) array rs \<and>
    (\<forall>i'<length rs. \<forall>j'<nat cols. m' (rs ! i' + j' * 4) =
       (if i' \<in> set is then Some (T2_int (int (rnd i' j' mod 100))) else m (rs ! i' + j' * 4)))"
  using assms(1,2)
proof (induction "is" arbitrary: p m)
  case Nil
  then show ?case by (simp add: t2_text_def)
next
  case (Cons i "is")
  from t2_row_ok [OF Cons.prems(1) _ assms(3), of i "[0..<nat cols]" "z i" "rnd i"] Cons.prems(2) obtain p1 m1 where
    1: "t2_row (z i) (rnd i) array i [0..<nat cols] (p, m) =
        Some (concat (map (\<lambda>j. dec2 (rnd i j mod 100) @ [CHR 0x09]) [0..<nat cols]) @ [CHR 0x0A], p1, m1)"
      "same_pool p p1" "t2_inv p1 m1 n (nat cols) array rs"
      "\<forall>i'<length rs. \<forall>j'<nat cols. m1 (rs ! i' + j' * 4) =
         (if i' = i \<and> j' \<in> set [0..<nat cols] then Some (T2_int (int (rnd i j' mod 100))) else m (rs ! i' + j' * 4))" by auto
  from Cons.IH [OF 1(3)] Cons.prems(2) obtain p2 m2 where
    2: "t2_fill z rnd cols array is (p1, m1) = Some (t2_text rnd cols is, p2, m2)" "same_pool p1 p2" "t2_inv p2 m2 n (nat cols) array rs"
      "\<forall>i'<length rs. \<forall>j'<nat cols. m2 (rs ! i' + j' * 4) =
         (if i' \<in> set is then Some (T2_int (int (rnd i' j' mod 100))) else m1 (rs ! i' + j' * 4))" by auto
  have "t2_fill z rnd cols array (i # is) (p, m) = Some (t2_text rnd cols (i # is), p2, m2)"
    using 1(1) 2(1) by (simp add: t2_text_def)
  moreover have "\<forall>i'<length rs. \<forall>j'<nat cols. m2 (rs ! i' + j' * 4) =
      (if i' \<in> set (i # is) then Some (T2_int (int (rnd i' j' mod 100))) else m (rs ! i' + j' * 4))"
    using 1(4) 2(4) by auto
  ultimately show ?case using 2(3) same_pool_trans [OF 1(2) 2(2)] by blast
qed

definition t2_matrix :: "(nat \<Rightarrow> nat \<Rightarrow> nat) \<Rightarrow> nat \<Rightarrow> nat \<Rightarrow> addr \<Rightarrow> cells \<Rightarrow> bool" where
  \<comment> \<open>The array and the rows it points to hold the whole matrix.\<close>
  "t2_matrix rnd rows cols array m \<longleftrightarrow> (\<forall>i<rows. \<exists>r. m (array + i * 4) = Some (T2_ptr r) \<and>
     (\<forall>j<cols. m (r + j * 4) = Some (T2_int (int (rnd i j mod 100)))))"

definition t2_ended :: "(nat \<Rightarrow> nat \<Rightarrow> nat) \<Rightarrow> int \<Rightarrow> int \<Rightarrow> t2_end \<Rightarrow> bool" where
  "t2_ended rnd rows cols e \<longleftrightarrow>
     (case e of
        T2_init r \<Rightarrow> r = MPOOL_ENOMEM
      | T2_noblock \<Rightarrow> \<not> (rows \<le> 10 \<and> cols \<le> 11)
      | T2_printed s array m \<Rightarrow> s = t2_text rnd cols [0..<nat rows] \<and> t2_matrix rnd (nat rows) (nat cols) array m)"

lemma t2_size_small: "0 \<le> n \<Longrightarrow> n * 4 + 20 < 2 ^ 32 \<Longrightarrow> t2_size n = nat n * 4 \<and> nat n * 4 + sizeof_blknode 4 < 2 ^ 32"
  by (simp add: t2_size_def nat_mult_distrib sizeof_blknode_def)

lemma test2_run:
  assumes i: "mpool_init 4 g 10 5 h = Some ((MPOOL_OK, Some p), h')" and ok: "handles_ok 4 p []"
    and M: "mp_maxlogsize p = 10" "mp_minlogsize p = 5"
    and R: "t2_size rows = nat rows * 4" "nat rows * 4 + sizeof_blknode 4 < 2 ^ 32"
    and C: "t2_size cols = nat cols * 4" "nat cols * 4 + sizeof_blknode 4 < 2 ^ 32"
  shows "\<exists>e q. test2_main g z1 z2 rnd rows cols h = Some (e, mpool_destroy q h') \<and> same_pool p q \<and>
    t2_ended rnd rows cols e"
proof -
  have szr: "sz_add 4 (nat rows * 4) (sizeof_blknode 4) = nat rows * 4 + sizeof_blknode 4"
    using R(2) by (intro sz_add_small) (simp add: size_mod_def)
  have few: "few_small p 0" using M ok by (simp add: few_small_def handles_ok_def)
  show ?thesis
  proof (rule handles_alloc [OF ok, of "nat rows * 4"])
    assume none: "mpool_alloc 4 p (nat rows * 4) = Some (None, p)"
    have "rows \<le> 10 \<Longrightarrow> nat rows \<le> 11" by simp
    with none have "\<not> rows \<le> 10" using few_small_some [OF few _ _ ok, of "nat rows * 4"] szr by (auto simp: sizeof_blknode_def)
    with none show ?thesis using i R(1) by (intro exI [of _ T2_noblock] exI [of _ p]) (simp add: test2_main_def t2_ended_def)
  next
    fix r k p1
    assume a: "mpool_alloc 4 p (nat rows * 4) = Some (Some r, p1)" "same_pool p p1" "handles_ok 4 p1 [r]"
      "sz_add 4 (nat rows * 4) (sizeof_blknode 4) \<le> 2 ^ k" "used_blocks p1 = insert (handle_off 4 p r, k) (used_blocks p)"
      "spec_fits (mp_minlogsize p) (sz_add 4 (nat rows * 4) (sizeof_blknode 4)) k"
    have few1: "few_small p1 1" if "rows \<le> 10"
      using few_small_insert [OF few a(2,5), of "nat rows * 4 + sizeof_blknode 4"] a(6) szr M that by (simp add: sizeof_blknode_def)
    have "t2_inv p1 Map.empty (nat rows) (nat cols) r []"
      unfolding t2_inv_def using a(3-5) szr by (intro exI [of _ "[r]"]) (auto simp: handle_off_same [OF a(2)])
    from t2_rows_ok [OF this _ C(2,1), of "nat rows" z1] obtain b p2 m2 rs where
      2: "t2_rows z1 cols r [0..<nat rows] (p1, Map.empty) = Some (b, p2, m2)" "same_pool p1 p2"
        "b \<longrightarrow> t2_inv p2 m2 (nat rows) (nat cols) r rs \<and> length rs = nat rows"
        "few_small p1 1 \<and> nat rows \<le> 10 \<and> nat cols \<le> 11 \<longrightarrow> b" by auto
    note same = same_pool_trans [OF a(2) 2(2)]
    show ?thesis
    proof (cases b)
      case False
      then have "\<not> (rows \<le> 10 \<and> cols \<le> 11)" using few1 2(4) by auto
      with False show ?thesis using i a(1) 2(1) R(1) same
        by (intro exI [of _ T2_noblock] exI [of _ p2]) (simp add: test2_main_def t2_ended_def)
    next
      case True
      then have rs: "t2_inv p2 m2 (nat rows) (nat cols) r rs" "length rs = nat rows" using 2(3) by simp_all
      have "\<forall>i\<in>set [0..<nat rows]. i < length rs" by (simp add: rs(2))
      from t2_fill_ok [OF rs(1) this eq_refl [OF rs(2)], of z2 rnd] obtain p3 m3 where
        3: "t2_fill z2 rnd cols r [0..<nat rows] (p2, m2) = Some (t2_text rnd cols [0..<nat rows], p3, m3)" "same_pool p2 p3"
          "t2_inv p3 m3 (nat rows) (nat cols) r rs"
          "\<forall>i<length rs. \<forall>j<nat cols. m3 (rs ! i + j * 4) =
             (if i \<in> set [0..<nat rows] then Some (T2_int (int (rnd i j mod 100))) else m2 (rs ! i + j * 4))" by blast
      have "t2_matrix rnd (nat rows) (nat cols) r m3"
        using t2_inv_rows [OF 3(3)] 3(4) by (auto simp: t2_matrix_def rs(2))
      then show ?thesis using True i a(1) 2(1) 3(1) R(1) same_pool_trans [OF same 3(2)]
        by (intro exI [of _ "T2_printed (t2_text rnd cols [0..<nat rows]) r m3"] exI [of _ p3]) (simp add: test2_main_def t2_ended_def)
    qed
  qed
qed

text \<open>C11: \<open>test2.c\<close>, for any numbers of rows and columns that are not negative and whose sizes in bytes do not wrap
  around: nothing it does is undefined, it prints the numbers that \<open>rand\<close> returned, row by row, and at the end the
  whole matrix is in the pool: each entry of the array still holds the pointer to its row, and each place of each row the
  number that was put there, whatever was allocated and written after it. Only a pool that is too small, which it is not
  for up to ten rows of up to eleven numbers, or a failing \<open>malloc\<close> prevents that. Either way all memory is given back.\<close>

theorem test2_main_prints:
  assumes "heap_wf h" "hp_limit h \<le> size_mod 4" "0 \<le> rows" "rows * 4 + 20 < 2 ^ 32" "0 \<le> cols" "cols * 4 + 20 < 2 ^ 32"
  shows "\<exists>e h'. test2_main g z1 z2 rnd rows cols h = Some (e, h') \<and> hp_live h' = hp_live h \<and> hp_bad h' = hp_bad h \<and>
    t2_ended rnd rows cols e"
proof (rule handles_init [OF _ test5_init(1) assms(1,2)])
  fix h' assume "mpool_init 4 g 10 5 h = Some ((MPOOL_ENOMEM, None), h')" "hp_live h' = hp_live h" "hp_bad h' = hp_bad h"
  then show ?thesis by (simp add: test2_main_def t2_ended_def)
next
  fix p h'
  assume i: "mpool_init 4 g 10 5 h = Some ((MPOOL_OK, Some p), h')" "handles_ok 4 p []" "mp_maxlogsize p = 10" "mp_minlogsize p = 5"
    and d: "\<And>q. same_pool p q \<Longrightarrow> hp_live (mpool_destroy q h') = hp_live h \<and> hp_bad (mpool_destroy q h') = hp_bad h"
  from t2_size_small assms(3-6) have "t2_size rows = nat rows * 4" "nat rows * 4 + sizeof_blknode 4 < 2 ^ 32"
    "t2_size cols = nat cols * 4" "nat cols * 4 + sizeof_blknode 4 < 2 ^ 32" by blast+
  from test2_run [OF i this, of z1 z2 rnd] obtain e q where
    "test2_main g z1 z2 rnd rows cols h = Some (e, mpool_destroy q h')" "same_pool p q" "t2_ended rnd rows cols e" by blast
  with d show ?thesis by blast
qed simp_all

lemma test2_main_prints_witness:
  "\<exists>e h'. test2_main ex_hdr (\<lambda>_. ex_hdr) (\<lambda>_ _. ex_hdr) (\<lambda>i j. 107 * i + j) 2 3 big_heap = Some (e, h') \<and>
     (case e of
        T2_init r \<Rightarrow> r = MPOOL_ENOMEM
      | T2_noblock \<Rightarrow> False
      | T2_printed s array m \<Rightarrow> s = t2_text (\<lambda>i j. 107 * i + j) 3 [0, 1] \<and> (\<exists>r. m (array + 4) = Some (T2_ptr r) \<and> m (r + 8) = Some (T2_int 9)))"
proof -
  have "[0..<nat 2] = [0, 1]" by (simp add: upt_rec)
  moreover obtain e h' where "test2_main ex_hdr (\<lambda>_. ex_hdr) (\<lambda>_ _. ex_hdr) (\<lambda>i j. 107 * i + j) 2 3 big_heap = Some (e, h')"
    "t2_ended (\<lambda>i j. 107 * i + j) 2 3 e"
    using test2_main_prints [OF big_heap_wf(1,2), of 2 3 ex_hdr "\<lambda>_. ex_hdr" "\<lambda>_ _. ex_hdr" "\<lambda>i j. 107 * i + j"] by auto
  moreover have "t2_matrix (\<lambda>i j. 107 * i + j) 2 3 array m \<Longrightarrow> \<exists>r. m (array + 4) = Some (T2_ptr r) \<and> m (r + 8) = Some (T2_int 9)" for array m
  proof -
    assume "t2_matrix (\<lambda>i j. 107 * i + j) 2 3 array m"
    then obtain r where r: "m (array + 1 * 4) = Some (T2_ptr r)" "\<forall>j<3. m (r + j * 4) = Some (T2_int (int ((107 * 1 + j) mod 100)))"
      unfolding t2_matrix_def by (metis one_less_numeral_iff semiring_norm(76))
    show ?thesis using r(1) r(2) [rule_format, of 2] by auto
  qed
  ultimately show ?thesis by (intro exI [of _ e] exI [of _ h']) (auto simp: t2_ended_def split: t2_end.splits)
qed

end
