(* ===== verification/Htable.thy ===== *)
theory Htable imports Prelude begin

text \<open>
  The chained hash table of \<open>genstructs/htable/htable.c\<close>: its data and its operations.

  Keys and data are pointers. The callbacks \<open>ht_hashf\<close>, \<open>ht_cmpf\<close> and \<open>ht_printf\<close> read the
  memory their arguments point to; \<open>'m\<close> is the type of that memory. A bucket (\<open>TAILQ\<close>) is the
  list of its nodes in chain order, and \<open>hn_addr\<close> is the address of a node on the C heap.
  \<open>size_t\<close> has 64 bits. An access beyond the array of buckets is undefined: \<open>None\<close>.
\<close>

unbundle bit_operations_syntax

type_synonym size_t = "64 word"

section \<open>Data\<close>

record hnode =
  hn_addr :: addr
  hn_key :: addr
  hn_data :: "addr option"

record 'm htable =
  ht_grows :: size_t
  ht_size :: size_t
  ht_used :: size_t
  ht_factor :: size_t
  ht_limit :: size_t
  ht_hashf :: "'m \<Rightarrow> addr \<Rightarrow> size_t"
  ht_cmpf :: "'m \<Rightarrow> addr \<Rightarrow> addr \<Rightarrow> int"
  ht_printf :: "'m \<Rightarrow> addr \<Rightarrow> addr option \<Rightarrow> string option"
  ht_tbladdr :: addr
  ht_table :: "hnode list list"

record htable_iterator =
  it_pos :: size_t
  it_pnode :: "addr option"

datatype htret_t = HT_OK | HT_EXISTS | HT_NOMEM | HT_NOTFOUND

definition HT_FREEKEY :: "32 word" where "HT_FREEKEY = 1"
definition HT_FREEDATA :: "32 word" where "HT_FREEDATA = 2"

definition sizeof_hnode :: nat where "sizeof_hnode = 32"
definition sizeof_hhead :: size_t where "sizeof_hhead = 16"

section \<open>Buckets\<close>

definition ht_bucket :: "'m htable \<Rightarrow> size_t \<Rightarrow> nat" where
  \<comment> \<open>\<open>hash & (htable->ht_size - 1)\<close>\<close>
  "ht_bucket ht hash = unat (hash AND (ht_size ht - 1))"

definition ht_chain :: "'m htable \<Rightarrow> size_t \<Rightarrow> hnode list option" where
  "ht_chain ht hash =
     (if ht_bucket ht hash < length (ht_table ht) then Some (ht_table ht ! ht_bucket ht hash) else None)"

definition ht_chains :: "'m htable \<Rightarrow> hnode list list option" where
  \<comment> \<open>The buckets that the loops \<open>for (i = 0; i < htable->ht_size; i++)\<close> visit.\<close>
  "ht_chains ht =
     (if unat (ht_size ht) \<le> length (ht_table ht) then Some (take (unat (ht_size ht)) (ht_table ht))
      else None)"

definition ht_find :: "'m \<Rightarrow> 'm htable \<Rightarrow> addr \<Rightarrow> hnode list \<Rightarrow> hnode option" where
  \<comment> \<open>\<open>TAILQ_FOREACH\<close> up to the first node whose key compares equal.\<close>
  "ht_find m ht key chain = List.find (\<lambda>n. ht_cmpf ht m (hn_key n) key = 0) chain"

definition tailq_heads :: "size_t \<Rightarrow> cheap \<Rightarrow> ((addr \<times> hnode list list) option \<times> cheap) option" where
  \<comment> \<open>\<open>malloc(n * sizeof *head)\<close> and \<open>TAILQ_INIT\<close> of \<open>n\<close> heads. When the product wraps around, the
      loop writes beyond the memory obtained.\<close>
  "tailq_heads n h =
     (case malloc (unat (n * sizeof_hhead)) h of
        (None, h') \<Rightarrow> Some (None, h')
      | (Some a, h') \<Rightarrow>
          if unat n * unat sizeof_hhead < 2 ^ 64 then Some (Some (a, replicate (unat n) []), h')
          else None)"

section \<open>Creation and destruction\<close>

definition htable_init ::
  "size_t \<Rightarrow> size_t \<Rightarrow> ('m \<Rightarrow> addr \<Rightarrow> size_t) \<Rightarrow> ('m \<Rightarrow> addr \<Rightarrow> addr \<Rightarrow> int) \<Rightarrow>
   ('m \<Rightarrow> addr \<Rightarrow> addr option \<Rightarrow> string option) \<Rightarrow> cheap \<Rightarrow>
   ((htret_t \<times> 'm htable option) \<times> cheap) option" where
  "htable_init n factor myhashf mycmpf myprintf h =
     do { (r, h') \<leftarrow> tailq_heads n h;
          case r of
            None \<Rightarrow> Some ((HT_NOMEM, None), h')
          | Some (a, tbl) \<Rightarrow>
              Some ((HT_OK, Some \<lparr>ht_grows = 0, ht_size = n, ht_used = 0, ht_factor = factor,
                ht_limit = factor * n, ht_hashf = myhashf, ht_cmpf = mycmpf, ht_printf = myprintf,
                ht_tbladdr = a, ht_table = tbl\<rparr>), h') }"

definition htable_free :: "'m htable \<Rightarrow> cheap \<Rightarrow> cheap option" where
  "htable_free ht h =
     do { chains \<leftarrow> ht_chains ht;
          Some (cfree (Some (ht_tbladdr ht))
            (fold (\<lambda>n. cfree (Some (hn_addr n))) (concat chains) h)) }"

section \<open>Growing\<close>

fun ht_rehash :: "'m \<Rightarrow> 'm htable \<Rightarrow> size_t \<Rightarrow> hnode list \<Rightarrow> hnode list list \<Rightarrow> hnode list list option" where
  \<comment> \<open>Moves the nodes, in order, to the tails of their buckets in a table of \<open>newsize\<close> buckets.\<close>
  "ht_rehash m ht newsize [] tbl = Some tbl"
| "ht_rehash m ht newsize (n # ns) tbl =
     (let i = unat (ht_hashf ht m (hn_key n) AND (newsize - 1)) in
      if i < length tbl then ht_rehash m ht newsize ns (tbl[i := tbl ! i @ [n]]) else None)"

definition htable_grow :: "'m \<Rightarrow> 'm htable \<Rightarrow> cheap \<Rightarrow> ((htret_t \<times> 'm htable) \<times> cheap) option" where
  "htable_grow m ht h =
     (let newsize = push_bit 1 (ht_size ht) in
      do { (r, h1) \<leftarrow> tailq_heads newsize h;
           case r of
             None \<Rightarrow> Some ((HT_NOMEM, ht), h1)
           | Some (a, heads) \<Rightarrow> do {
               chains \<leftarrow> ht_chains ht;
               tbl \<leftarrow> ht_rehash m ht newsize (concat chains) heads;
               Some ((HT_OK, ht\<lparr>ht_table := tbl, ht_tbladdr := a, ht_size := newsize,
                 ht_limit := ht_factor ht * newsize\<rparr>), cfree (Some (ht_tbladdr ht)) h1) } })"

section \<open>Insertion, removal, search\<close>

definition htable_insert ::
  "'m \<Rightarrow> 'm htable \<Rightarrow> addr \<Rightarrow> addr option \<Rightarrow> cheap \<Rightarrow> ((htret_t \<times> 'm htable) \<times> cheap) option" where
  "htable_insert m ht key data h =
     (let hash = ht_hashf ht m key in
      do { chain \<leftarrow> ht_chain ht hash;
           if ht_find m ht key chain \<noteq> None then Some ((HT_EXISTS, ht), h)
           else case malloc sizeof_hnode h of
             (None, h1) \<Rightarrow> Some ((HT_NOMEM, ht), h1)
           | (Some a, h1) \<Rightarrow>
               (let node = \<lparr>hn_addr = a, hn_key = key, hn_data = data\<rparr>;
                    ht1 = ht\<lparr>ht_table := (ht_table ht)[ht_bucket ht hash := chain @ [node]],
                             ht_used := ht_used ht + 1\<rparr> in
                if ht_used ht1 > ht_limit ht1
                then do { ((_, ht2), h2) \<leftarrow> htable_grow m ht1 h1;
                          Some ((HT_OK, ht2\<lparr>ht_grows := ht_grows ht2 + 1\<rparr>), h2) }
                else Some ((HT_OK, ht1), h1)) })"

definition ht_unlink :: "'m htable \<Rightarrow> size_t \<Rightarrow> hnode \<Rightarrow> 'm htable" where
  \<comment> \<open>\<open>TAILQ_REMOVE\<close> from the bucket of \<open>hash\<close>, and \<open>ht_used--\<close>.\<close>
  "ht_unlink ht hash n =
     ht\<lparr>ht_table := (ht_table ht)[ht_bucket ht hash := remove1 n (ht_table ht ! ht_bucket ht hash)],
        ht_used := ht_used ht - 1\<rparr>"

definition htable_remove :: "'m \<Rightarrow> 'm htable \<Rightarrow> addr \<Rightarrow> cheap \<Rightarrow> ((htret_t \<times> 'm htable) \<times> cheap) option" where
  "htable_remove m ht key h =
     (let hash = ht_hashf ht m key in
      do { chain \<leftarrow> ht_chain ht hash;
           case ht_find m ht key chain of
             None \<Rightarrow> Some ((HT_NOTFOUND, ht), h)
           | Some n \<Rightarrow> Some ((HT_OK, ht_unlink ht hash n), cfree (Some (hn_addr n)) h) })"

definition ht_free_contents :: "32 word \<Rightarrow> hnode \<Rightarrow> cheap \<Rightarrow> cheap" where
  "ht_free_contents htfree n h =
     (let h1 = (if htfree AND HT_FREEKEY \<noteq> 0 then cfree (Some (hn_key n)) h else h)
      in (if htfree AND HT_FREEDATA \<noteq> 0 then cfree (hn_data n) h1 else h1))"

definition htable_free_obj ::
  "'m \<Rightarrow> 'm htable \<Rightarrow> addr \<Rightarrow> 32 word \<Rightarrow> cheap \<Rightarrow> ((htret_t \<times> 'm htable) \<times> cheap) option" where
  "htable_free_obj m ht key htfree h =
     (let hash = ht_hashf ht m key in
      do { chain \<leftarrow> ht_chain ht hash;
           case ht_find m ht key chain of
             None \<Rightarrow> Some ((HT_NOTFOUND, ht), h)
           | Some n \<Rightarrow> Some ((HT_OK, ht_unlink ht hash n),
               cfree (Some (hn_addr n)) (ht_free_contents htfree n h)) })"

definition htable_free_all_obj :: "'m htable \<Rightarrow> 32 word \<Rightarrow> cheap \<Rightarrow> cheap option" where
  "htable_free_all_obj ht htfree h =
     do { chains \<leftarrow> ht_chains ht;
          Some (fold (ht_free_contents htfree) (concat chains) h) }"

definition htable_search :: "'m \<Rightarrow> 'm htable \<Rightarrow> addr \<Rightarrow> addr option option" where
  \<comment> \<open>The inner option is the pointer returned: \<open>None\<close> is NULL.\<close>
  "htable_search m ht key =
     do { chain \<leftarrow> ht_chain ht (ht_hashf ht m key);
          case ht_find m ht key chain of
            None \<Rightarrow> Some None
          | Some n \<Rightarrow> Some (hn_data n) }"

section \<open>Output, traversal, counters\<close>

fun ht_print_chain :: "'m \<Rightarrow> 'm htable \<Rightarrow> hnode list \<Rightarrow> string option" where
  "ht_print_chain m ht [] = Some []"
| "ht_print_chain m ht (n # ns) =
     do { s \<leftarrow> ht_printf ht m (hn_key n) (hn_data n);
          r \<leftarrow> ht_print_chain m ht ns;
          Some (s @ r) }"

fun ht_print_chains :: "'m \<Rightarrow> 'm htable \<Rightarrow> hnode list list \<Rightarrow> string option" where
  "ht_print_chains m ht [] = Some []"
| "ht_print_chains m ht (ns # nss) =
     do { s \<leftarrow> ht_print_chain m ht ns;
          r \<leftarrow> ht_print_chains m ht nss;
          Some (s @ (if ns \<noteq> [] then [CHR 0x0A] else []) @ r) }"

definition htable_print :: "'m \<Rightarrow> 'm htable \<Rightarrow> string option" where
  \<comment> \<open>What goes to the standard output; the argument \<open>fp\<close> is not used.\<close>
  "htable_print m ht = do { chains \<leftarrow> ht_chains ht; ht_print_chains m ht chains }"

definition htable_get_size :: "'m htable \<Rightarrow> size_t" where "htable_get_size ht = ht_size ht"
definition htable_get_used :: "'m htable \<Rightarrow> size_t" where "htable_get_used ht = ht_used ht"

definition htable_traverse :: "'m htable \<Rightarrow> (addr option \<Rightarrow> 's \<Rightarrow> 's) \<Rightarrow> 's \<Rightarrow> 's option" where
  \<comment> \<open>\<open>pfunc\<close> acts on a state of type \<open>'s\<close>.\<close>
  "htable_traverse ht pfunc s =
     do { chains \<leftarrow> ht_chains ht; Some (fold (\<lambda>n. pfunc (hn_data n)) (concat chains) s) }"

definition htable_stat_get_grows :: "'m htable \<Rightarrow> size_t" where "htable_stat_get_grows ht = ht_grows ht"

definition htable_stat_get_chain_len :: "'m htable \<Rightarrow> size_t \<Rightarrow> size_t option" where
  "htable_stat_get_chain_len ht pos =
     (if pos \<ge> ht_size ht then Some 0
      else if unat pos < length (ht_table ht) then Some (of_nat (length (ht_table ht ! unat pos)))
      else None)"

section \<open>Iteration\<close>

definition htable_iterator_init :: htable_iterator where
  "htable_iterator_init = \<lparr>it_pos = 0, it_pnode = None\<rparr>"

fun chain_next :: "hnode list \<Rightarrow> addr \<Rightarrow> hnode option option" where
  \<comment> \<open>\<open>TAILQ_NEXT\<close> of the node at an address; \<open>None\<close>: the node is not on this chain.\<close>
  "chain_next [] a = None"
| "chain_next (n # ns) a =
     (if hn_addr n = a then Some (case ns of [] \<Rightarrow> None | n' # _ \<Rightarrow> Some n') else chain_next ns a)"

fun ht_tailq_next :: "hnode list list \<Rightarrow> addr \<Rightarrow> hnode option option" where
  \<comment> \<open>\<open>TAILQ_NEXT\<close> of the node at an address; a pointer to no node of the table is stale.\<close>
  "ht_tailq_next [] a = None"
| "ht_tailq_next (ns # nss) a =
     (case chain_next ns a of None \<Rightarrow> ht_tailq_next nss a | Some r \<Rightarrow> Some r)"

fun ht_scan :: "hnode list list \<Rightarrow> nat list \<Rightarrow> size_t \<Rightarrow> (hnode option \<times> size_t) option" where
  \<comment> \<open>\<open>for (i = it->pos; i < size; i++)\<close> with \<open>++it->pos\<close> in its body.\<close>
  "ht_scan tbl [] pos = Some (None, pos)"
| "ht_scan tbl (i # is) pos =
     (if i < length tbl
      then case tbl ! i of
             n # _ \<Rightarrow> Some (Some n, pos + 1)
           | [] \<Rightarrow> ht_scan tbl is (pos + 1)
      else None)"

definition htable_get_next_elm ::
  "'m htable \<Rightarrow> htable_iterator \<Rightarrow> (hnode option \<times> htable_iterator) option" where
  "htable_get_next_elm ht it =
     (if it_pos it > ht_size ht - 1 then Some (None, it)
      else
        let scan = do { (r, pos) \<leftarrow> ht_scan (ht_table ht) [unat (it_pos it)..<unat (ht_size ht)] (it_pos it);
                        Some (r, it\<lparr>it_pos := pos\<rparr>) } in
        case it_pnode it of
          None \<Rightarrow> scan
        | Some a \<Rightarrow>
            (if it_pos it = 0 then scan
             else do { nxt \<leftarrow> ht_tailq_next (ht_table ht) a;
                       case nxt of
                         Some n \<Rightarrow> Some (Some n, it)
                       | None \<Rightarrow> scan }))"

definition ht_node_at :: "'m htable \<Rightarrow> addr \<Rightarrow> hnode option" where
  "ht_node_at ht a = List.find (\<lambda>n. hn_addr n = a) (concat (ht_table ht))"

definition htable_iterator_get_data :: "'m htable \<Rightarrow> htable_iterator \<Rightarrow> addr option option" where
  \<comment> \<open>Undefined when the iterator points to no node.\<close>
  "htable_iterator_get_data ht it =
     do { a \<leftarrow> it_pnode it; n \<leftarrow> ht_node_at ht a; Some (hn_data n) }"

definition htable_iterator_get_key :: "'m htable \<Rightarrow> htable_iterator \<Rightarrow> addr option" where
  "htable_iterator_get_key ht it =
     do { a \<leftarrow> it_pnode it; n \<leftarrow> ht_node_at ht a; Some (hn_key n) }"

partial_function (option) ht_iterate :: "'m htable \<Rightarrow> htable_iterator \<Rightarrow> hnode list option" where
  \<comment> \<open>The nodes that the clients' loops
      \<open>while ((it.pnode = htable_get_next_elm(ht, &it)) != NULL)\<close> visit.\<close>
  "ht_iterate ht it =
     do { (r, it') \<leftarrow> htable_get_next_elm ht it;
          case r of
            None \<Rightarrow> Some []
          | Some n \<Rightarrow> do { ns \<leftarrow> ht_iterate ht (it'\<lparr>it_pnode := Some (hn_addr n)\<rparr>);
                           Some (n # ns) } }"

declare ht_iterate.simps [code]

end
