(* ===== verification/Htable_Inv.thy ===== *)
theory Htable_Inv imports Htable begin

text \<open>
  The invariant of the hash table, the finite map it stands for, and what the helper steps of
  \<open>Htable\<close> (bucket lookup, allocation of buckets, rehashing) do. The locale \<open>ht_keys\<close> is what
  the table requires of the hash and comparison callbacks of its client.
\<close>

unbundle bit_operations_syntax

section \<open>Sizes and buckets\<close>

lemma unat_p2: "k < 64 \<Longrightarrow> unat ((2 :: size_t) ^ k) = 2 ^ k"
proof -
  assume "k < 64"
  then have "unat (of_nat (2 ^ k) :: size_t) = 2 ^ k"
    unfolding unsigned_of_nat of_nat_id take_bit_nat_eq_self_iff by (intro power_strict_increasing) simp_all
  then show ?thesis by simp
qed

lemma unat_mask: "unat ((h :: size_t) AND (2 ^ k - 1)) = unat h mod 2 ^ k"
proof -
  have "h AND (2 ^ k - 1) = take_bit k h" by (simp only: take_bit_eq_mask mask_eq_exp_minus_1)
  then have "unat (h AND (2 ^ k - 1)) = take_bit k (unat h)" by (simp only: unsigned_take_bit_eq)
  also have "\<dots> = unat h mod 2 ^ k" by (rule take_bit_eq_mod)
  finally show ?thesis .
qed

definition ht_log :: "'m htable \<Rightarrow> nat \<Rightarrow> bool" where
  "ht_log ht k \<longleftrightarrow> k \<le> 43 \<and> ht_size ht = 2 ^ k \<and> length (ht_table ht) = 2 ^ k \<and>
     ht_limit ht = ht_factor ht * ht_size ht"

definition ht_nodes :: "'m htable \<Rightarrow> hnode list" where
  "ht_nodes ht = concat (ht_table ht)"

definition ht_pairs :: "('m \<Rightarrow> addr \<Rightarrow> 'k) \<Rightarrow> 'm \<Rightarrow> 'm htable \<Rightarrow> ('k \<times> addr option) list" where
  "ht_pairs kv m ht = map (\<lambda>n. (kv m (hn_key n), hn_data n)) (ht_nodes ht)"

definition ht_map :: "('m \<Rightarrow> addr \<Rightarrow> 'k) \<Rightarrow> 'm \<Rightarrow> 'm htable \<Rightarrow> 'k \<rightharpoonup> addr option" where
  "ht_map kv m ht = map_of (ht_pairs kv m ht)"

definition ht_placed :: "'m \<Rightarrow> 'm htable \<Rightarrow> bool" where
  "ht_placed m ht \<longleftrightarrow> (\<forall>i<length (ht_table ht). \<forall>n\<in>set (ht_table ht ! i).
     ht_bucket ht (ht_hashf ht m (hn_key n)) = i)"

definition ht_inv :: "('m \<Rightarrow> addr \<Rightarrow> 'k) \<Rightarrow> 'm \<Rightarrow> 'm htable \<Rightarrow> bool" where
  "ht_inv kv m ht \<longleftrightarrow> (\<exists>k. ht_log ht k) \<and> ht_placed m ht \<and>
     distinct (map (\<lambda>n. kv m (hn_key n)) (ht_nodes ht)) \<and>
     distinct (map hn_addr (ht_nodes ht)) \<and> (\<forall>n\<in>set (ht_nodes ht). hn_addr n < 2 ^ 47) \<and>
     ht_used ht = of_nat (length (ht_nodes ht))"

definition heap_ok :: "cheap \<Rightarrow> bool" where
  \<comment> \<open>A heap in the 47 bits of a 64-bit system's user address space.\<close>
  "heap_ok h \<longleftrightarrow> heap_wf h \<and> hp_next h \<le> 2 ^ 47 \<and> hp_limit h \<le> 2 ^ 47"

definition ht_owned :: "'m htable \<Rightarrow> addr list" where
  \<comment> \<open>The heap blocks of the table: the array of buckets and the nodes.\<close>
  "ht_owned ht = ht_tbladdr ht # map hn_addr (ht_nodes ht)"

definition ht_heap :: "'m htable \<Rightarrow> cheap \<Rightarrow> bool" where
  "ht_heap ht h \<longleftrightarrow> heap_ok h \<and> mset (ht_owned ht) \<subseteq># mset (hp_live h)"

lemma ht_bucket_log: "ht_log ht k \<Longrightarrow> ht_bucket ht h = unat h mod 2 ^ k"
  unfolding ht_log_def ht_bucket_def using unat_mask by metis

lemma ht_bucket_less: "ht_log ht k \<Longrightarrow> ht_bucket ht h < length (ht_table ht)"
  by (simp add: ht_bucket_log) (simp add: ht_log_def)

lemma ht_chains_log: "ht_log ht k \<Longrightarrow> ht_chains ht = Some (ht_table ht)"
  by (simp add: ht_log_def ht_chains_def unat_p2)

lemma ht_chain_log: "ht_log ht k \<Longrightarrow> ht_chain ht h = Some (ht_table ht ! ht_bucket ht h)"
  by (simp add: ht_chain_def ht_bucket_less)

lemma ht_invD:
  assumes "ht_inv kv m ht"
  shows "\<exists>k. ht_log ht k" "ht_placed m ht" "distinct (map (\<lambda>n. kv m (hn_key n)) (ht_nodes ht))"
    "distinct (map hn_addr (ht_nodes ht))" "ht_used ht = of_nat (length (ht_nodes ht))"
    "distinct (map fst (ht_pairs kv m ht))"
    "\<And>n. n \<in> set (ht_nodes ht) \<Longrightarrow> hn_addr n < 2 ^ 47"
  using assms by (simp_all add: ht_inv_def ht_pairs_def comp_def)

lemma ht_node_placed:
  "ht_placed m ht \<Longrightarrow> n \<in> set (ht_nodes ht) \<Longrightarrow>
    n \<in> set (ht_table ht ! ht_bucket ht (ht_hashf ht m (hn_key n)))"
  unfolding ht_nodes_def set_concat_nth ht_placed_def by metis

lemma ht_map_eqI:
  assumes "distinct (map fst (ht_pairs kv m ht))" "distinct (map fst xs)"
    and "set (ht_pairs kv m ht) = set xs"
  shows "ht_map kv m ht = map_of xs"
  using assms map_of_inject_set by (metis ht_map_def)

lemma ht_map_dom: "k \<in> dom (ht_map kv m ht) \<longleftrightarrow> (\<exists>n\<in>set (ht_nodes ht). kv m (hn_key n) = k)"
  by (auto simp: ht_map_def ht_pairs_def dom_map_of_conv_image_fst image_image)

lemma ht_map_node:
  "ht_inv kv m ht \<Longrightarrow> n \<in> set (ht_nodes ht) \<Longrightarrow> ht_map kv m ht (kv m (hn_key n)) = Some (hn_data n)"
  unfolding ht_map_def by (rule map_of_is_SomeI [OF ht_invD(6)]) (auto simp: ht_pairs_def)

section \<open>The heap\<close>

lemma heap_ok_malloc: "heap_ok h \<Longrightarrow> malloc n h = (r, h') \<Longrightarrow> heap_ok h'"
proof -
  assume a: "heap_ok h" "malloc n h = (r, h')"
  have "heap_wf h'" using malloc_wf a by (auto simp: heap_ok_def)
  then show ?thesis
    using a by (cases r) (auto simp: heap_ok_def dest!: malloc_NoneD malloc_SomeD)
qed

lemma heap_ok_cfree: "heap_ok h \<Longrightarrow> heap_ok (cfree p h)"
  by (auto simp: heap_ok_def cfree_wf) (auto simp: cfree_def split: option.splits)

lemma heap_ok_cfrees: "heap_ok h \<Longrightarrow> heap_ok (fold (\<lambda>x. cfree (f x)) xs h)"
  by (induction xs arbitrary: h) (simp_all add: heap_ok_cfree)

lemma tailq_heads_cases:
  assumes ok: "heap_ok h" and k: "k \<le> 44"
  obtains (nomem) h' where "tailq_heads (2 ^ k) h = Some (None, h')" "heap_ok h'"
      "hp_live h' = hp_live h" "hp_bad h' = hp_bad h"
    | (heads) a h' where "tailq_heads (2 ^ k) h = Some (Some (a, replicate (2 ^ k) []), h')"
      "heap_ok h'" "hp_live h' = a # hp_live h" "hp_bad h' = hp_bad h" "k \<le> 43" "a \<notin> set (hp_live h)"
proof -
  have "(2 :: size_t) ^ k * sizeof_hhead = 2 ^ (k + 4)" by (simp add: sizeof_hhead_def power_add)
  then have sz: "unat ((2 :: size_t) ^ k * sizeof_hhead) = 2 ^ (k + 4)" using k by (simp only: unat_p2)
  have u: "unat ((2 :: size_t) ^ k) = 2 ^ k" using k by (intro unat_p2) simp
  have "(2::nat) ^ (k + 4) < 2 ^ 64" using k by (intro power_strict_increasing) simp_all
  then have small: "unat ((2 :: size_t) ^ k) * unat sizeof_hhead < 2 ^ 64"
    unfolding u by (simp add: sizeof_hhead_def power_add)
  obtain r h' where r: "malloc (2 ^ (k + 4)) h = (r, h')" by force
  note ok' = heap_ok_malloc [OF ok r]
  show thesis
  proof (cases r)
    case None
    with malloc_NoneD r ok' sz show thesis by (intro nomem [of h']) (auto simp: tailq_heads_def)
  next
    case (Some a)
    note D = malloc_SomeD [OF r [unfolded Some]]
    have "2 ^ (k + 4) \<le> (2 ^ 47 :: nat)" using D ok by (simp add: heap_ok_def)
    then have "k + 4 \<le> 47" by (rule power_le_imp_le_exp [rotated]) simp
    moreover have "a \<notin> set (hp_live h)" using malloc_fresh r ok Some by (auto simp: heap_ok_def)
    ultimately show thesis using D r ok' sz small u Some
      by (intro heads [of a h']) (auto simp: tailq_heads_def)
  qed
qed

section \<open>Rehashing\<close>

lemma rehash_ok:
  assumes "k < 64"
  shows "length tbl = 2 ^ k \<Longrightarrow>
    (\<forall>i<2 ^ k. \<forall>n\<in>set (tbl ! i). unat (ht_hashf ht m (hn_key n)) mod 2 ^ k = i) \<Longrightarrow>
    \<exists>tbl'. ht_rehash m ht (2 ^ k) ns tbl = Some tbl' \<and> length tbl' = 2 ^ k \<and>
      (\<forall>i<2 ^ k. \<forall>n\<in>set (tbl' ! i). unat (ht_hashf ht m (hn_key n)) mod 2 ^ k = i) \<and>
      mset (concat tbl') = mset (concat tbl) + mset ns"
proof (induction ns arbitrary: tbl)
  case (Cons n ns)
  let ?i = "unat (ht_hashf ht m (hn_key n)) mod 2 ^ k"
  have i: "?i < length tbl" using Cons.prems by simp
  let ?t = "tbl[?i := tbl ! ?i @ [n]]"
  have ms: "mset (concat ?t) = mset (concat tbl) + {#n#}"
    using i by (rule mset_concat_append)
  have len: "length ?t = 2 ^ k" using Cons.prems by simp
  have pl: "\<forall>j<2 ^ k. \<forall>x\<in>set (?t ! j). unat (ht_hashf ht m (hn_key x)) mod 2 ^ k = j"
    using Cons.prems i by (auto simp: nth_list_update)
  have run: "ht_rehash m ht (2 ^ k) (n # ns) tbl = ht_rehash m ht (2 ^ k) ns ?t"
    using i by (simp only: ht_rehash.simps Let_def unat_mask if_True)
  from Cons.IH [OF len pl] obtain tbl' where
    "ht_rehash m ht (2 ^ k) ns ?t = Some tbl'" "length tbl' = 2 ^ k"
    "\<forall>i<2 ^ k. \<forall>n\<in>set (tbl' ! i). unat (ht_hashf ht m (hn_key n)) mod 2 ^ k = i"
    "mset (concat tbl') = mset (concat ?t) + mset ns" by blast
  moreover from this(4) have "mset (concat tbl') = mset (concat tbl) + mset (n # ns)"
    unfolding ms by (simp del: mset_concat)
  ultimately show ?case unfolding run by blast
qed auto

end
