(* ===== verification/Htable_Ops.thy ===== *)
theory Htable_Ops imports Htable_Inv begin

text \<open>
  The operations of the hash table against the finite map it stands for: none of them is
  undefined, each keeps the invariant and accounts for the heap blocks of the table.
\<close>

unbundle bit_operations_syntax

section \<open>The frame of an operation\<close>

definition ht_same :: "'m htable \<Rightarrow> 'm htable \<Rightarrow> bool" where
  "ht_same ht ht' \<longleftrightarrow> ht_hashf ht' = ht_hashf ht \<and> ht_cmpf ht' = ht_cmpf ht \<and>
     ht_printf ht' = ht_printf ht \<and> ht_factor ht' = ht_factor ht"

definition ht_balance :: "'m htable \<Rightarrow> cheap \<Rightarrow> 'm htable \<Rightarrow> cheap \<Rightarrow> bool" where
  \<comment> \<open>Every block obtained or released is one the table owns, so nothing leaks.\<close>
  "ht_balance ht h ht' h' \<longleftrightarrow>
     mset (hp_live h') + mset (ht_owned ht) = mset (hp_live h) + mset (ht_owned ht') \<and>
     hp_bad h' = hp_bad h"

definition ht_step :: "('m \<Rightarrow> addr \<Rightarrow> 'k) \<Rightarrow> 'm \<Rightarrow> 'm htable \<Rightarrow> cheap \<Rightarrow> 'm htable \<Rightarrow> cheap \<Rightarrow> bool" where
  "ht_step kv m ht h ht' h' \<longleftrightarrow>
     ht_inv kv m ht' \<and> ht_heap ht' h' \<and> ht_same ht ht' \<and> ht_balance ht h ht' h'"

lemma ht_same_refl [simp]: "ht_same ht ht"
  by (simp add: ht_same_def)

lemma ht_same_trans: "ht_same a b \<Longrightarrow> ht_same b c \<Longrightarrow> ht_same a c"
  by (simp add: ht_same_def)

lemma ht_balance_trans: "ht_balance a h b i \<Longrightarrow> ht_balance b i c j \<Longrightarrow> ht_balance a h c j"
  unfolding ht_balance_def by (blast intro: mset_balance_trans)

lemma ht_step_trans: "ht_step kv m a h b i \<Longrightarrow> ht_step kv m b i c j \<Longrightarrow> ht_step kv m a h c j"
  by (auto simp: ht_step_def intro: ht_same_trans ht_balance_trans)

lemma ht_heap_balance:
  "ht_heap ht h \<Longrightarrow> ht_balance ht h ht' h' \<Longrightarrow> heap_ok h' \<Longrightarrow> ht_heap ht' h'"
  unfolding ht_heap_def ht_balance_def by (blast intro: mset_balance_subset)

lemma ht_heap_nomem:
  "ht_heap ht h \<Longrightarrow> heap_ok h' \<Longrightarrow> hp_live h' = hp_live h \<Longrightarrow> hp_bad h' = hp_bad h \<Longrightarrow>
    ht_inv kv m ht \<Longrightarrow> ht_step kv m ht h ht h'"
  by (simp add: ht_step_def ht_heap_def ht_balance_def)

section \<open>Growing\<close>

lemma grow_ok:
  assumes inv: "ht_inv kv m ht" and hp: "ht_heap ht h"
  shows "\<exists>ret ht' h'. htable_grow m ht h = Some ((ret, ht'), h') \<and> ht_step kv m ht h ht' h' \<and>
    ht_map kv m ht' = ht_map kv m ht \<and> ht_grows ht' = ht_grows ht \<and>
    mset (ht_nodes ht') = mset (ht_nodes ht) \<and>
    (ret = HT_NOMEM \<and> ht' = ht \<or> ret = HT_OK \<and> ht_size ht' = 2 * ht_size ht)"
proof -
  obtain k where k: "ht_log ht k" using ht_invD(1) [OF inv] by blast
  then have k43: "k \<le> 43" and sz: "ht_size ht = 2 ^ k" by (simp_all add: ht_log_def)
  have new: "push_bit 1 (ht_size ht) = 2 ^ Suc k" by (simp add: sz push_bit_eq_mult)
  have hok: "heap_ok h" using hp by (simp add: ht_heap_def)
  have "Suc k \<le> 44" using k43 by simp
  from hok this show ?thesis
  proof (cases rule: tailq_heads_cases)
    case (nomem h')
    then have "htable_grow m ht h = Some ((HT_NOMEM, ht), h')"
      unfolding htable_grow_def new Let_def by simp
    with nomem inv hp show ?thesis by (auto intro: ht_heap_nomem)
  next
    case (heads a h1)
    have "\<exists>tbl'. ht_rehash m ht (2 ^ Suc k) (ht_nodes ht) (replicate (2 ^ Suc k) []) = Some tbl' \<and>
        length tbl' = 2 ^ Suc k \<and>
        (\<forall>i<2 ^ Suc k. \<forall>n\<in>set (tbl' ! i). unat (ht_hashf ht m (hn_key n)) mod 2 ^ Suc k = i) \<and>
        mset (concat tbl') = mset (concat (replicate (2 ^ Suc k) [])) + mset (ht_nodes ht)"
      using k43 by (intro rehash_ok) auto
    then obtain tbl where tbl: "ht_rehash m ht (2 ^ Suc k) (ht_nodes ht) (replicate (2 ^ Suc k) []) = Some tbl"
      and len: "length tbl = 2 ^ Suc k"
      and pl: "\<forall>i<2 ^ Suc k. \<forall>n\<in>set (tbl ! i). unat (ht_hashf ht m (hn_key n)) mod 2 ^ Suc k = i"
      and ms: "mset (concat tbl) = mset (ht_nodes ht)" by auto
    let ?ht = "ht\<lparr>ht_table := tbl, ht_tbladdr := a, ht_size := 2 ^ Suc k, ht_limit := ht_factor ht * 2 ^ Suc k\<rparr>"
    let ?h = "cfree (Some (ht_tbladdr ht)) h1"
    have run: "htable_grow m ht h = Some ((HT_OK, ?ht), ?h)"
      unfolding htable_grow_def new Let_def heads(1)
      using tbl by (simp add: ht_chains_log [OF k] del: power_Suc replicate_Suc) (simp add: ht_nodes_def)
    have nodes: "mset (ht_nodes ?ht) = mset (ht_nodes ht)" using ms by (simp add: ht_nodes_def)
    have log: "ht_log ?ht (Suc k)" using heads(5) len by (simp add: ht_log_def)
    have "ht_placed m ?ht"
      unfolding ht_placed_def ht_bucket_log [OF log] using pl len by simp
    moreover note distinct_via_mset [OF mset_map_cong [OF nodes], of hn_addr]
      distinct_via_mset [OF mset_map_cong [OF nodes], of "\<lambda>n. kv m (hn_key n)"]
    moreover have "length (ht_nodes ?ht) = length (ht_nodes ht)" by (rule mset_eq_length [OF nodes])
    moreover have sets: "set (ht_nodes ?ht) = set (ht_nodes ht)" by (rule mset_eq_setD [OF nodes])
    ultimately have inv': "ht_inv kv m ?ht"
      using log inv unfolding ht_inv_def by auto
    have own: "ht_tbladdr ht \<in># mset (hp_live h1)"
      using hp heads(3) by (auto simp: ht_heap_def ht_owned_def insert_subset_eq_iff)
    have "ht_balance ht h ?ht ?h"
      using cfree_mset [OF own] heads(3,4) own hp nodes
      by (auto simp: ht_balance_def ht_owned_def ht_heap_def insert_subset_eq_iff)
    moreover from ht_heap_balance [OF hp this heap_ok_cfree [OF heads(2)]] have "ht_heap ?ht ?h" .
    moreover have "ht_map kv m ?ht = ht_map kv m ht"
    proof -
      have "set (ht_pairs kv m ?ht) = set (ht_pairs kv m ht)"
        using sets by (simp add: ht_pairs_def)
      from ht_map_eqI [OF ht_invD(6) [OF inv'] ht_invD(6) [OF inv] this] show ?thesis by (simp add: ht_map_def)
    qed
    moreover have "ht_size ?ht = 2 * ht_size ht" by (simp add: sz)
    ultimately show ?thesis
      using run inv' nodes
      by (intro exI [of _ HT_OK] exI [of _ ?ht] exI [of _ ?h]) (simp add: ht_step_def ht_same_def)
  qed
qed

section \<open>Adding and unlinking a node\<close>

lemma map_update_eqI:
  assumes "distinct (map fst ys)" "\<And>k v. (k, v) \<in> set ys \<longleftrightarrow> f k = Some v"
  shows "map_of ys = f"
proof
  show "map_of ys k = f k" for k
  proof (cases "f k")
    case None
    with assms(2) have "k \<notin> fst ` set ys" by force
    with None show ?thesis by (simp add: map_of_eq_None_iff)
  next
    case (Some v)
    with assms show ?thesis by (simp add: map_of_eq_Some_iff)
  qed
qed

lemma ht_map_iff: "ht_inv kv m ht \<Longrightarrow> ht_map kv m ht k = Some v \<longleftrightarrow>
    (\<exists>n\<in>set (ht_nodes ht). kv m (hn_key n) = k \<and> hn_data n = v)"
  unfolding ht_map_def by (subst map_of_eq_Some_iff [OF ht_invD(6)]) (auto simp: ht_pairs_def)

definition ht_link :: "'m htable \<Rightarrow> size_t \<Rightarrow> hnode \<Rightarrow> 'm htable" where
  \<comment> \<open>The table after \<open>TAILQ_INSERT_TAIL\<close> and \<open>++ht_used\<close>.\<close>
  "ht_link ht hash n =
     ht\<lparr>ht_table := (ht_table ht)[ht_bucket ht hash := ht_table ht ! ht_bucket ht hash @ [n]],
        ht_used := ht_used ht + 1\<rparr>"

lemma link_ok:
  assumes inv: "ht_inv kv m ht" and new: "kv m (hn_key n) \<notin> dom (ht_map kv m ht)"
    and a: "hn_addr n \<notin> hn_addr ` set (ht_nodes ht)" "hn_addr n < 2 ^ 47"
  shows "ht_inv kv m (ht_link ht (ht_hashf ht m (hn_key n)) n)"
    "ht_map kv m (ht_link ht (ht_hashf ht m (hn_key n)) n) = (ht_map kv m ht)(kv m (hn_key n) \<mapsto> hn_data n)"
    "mset (ht_nodes (ht_link ht (ht_hashf ht m (hn_key n)) n)) = mset (ht_nodes ht) + {#n#}"
proof -
  let ?b = "ht_bucket ht (ht_hashf ht m (hn_key n))"
  let ?ht = "ht_link ht (ht_hashf ht m (hn_key n)) n"
  obtain k where k: "ht_log ht k" using ht_invD(1) [OF inv] by blast
  note b = ht_bucket_less [OF k, of "ht_hashf ht m (hn_key n)"]
  have log: "ht_log ?ht k" using k by (simp add: ht_log_def ht_link_def)
  show ms: "mset (ht_nodes ?ht) = mset (ht_nodes ht) + {#n#}"
    using mset_concat_append [OF b] by (simp add: ht_nodes_def ht_link_def)
  then have ms': "mset (ht_nodes ?ht) = mset (n # ht_nodes ht)" by simp
  have "ht_placed m ?ht"
    using ht_invD(2) [OF inv] b unfolding ht_placed_def
    by (auto simp: ht_link_def nth_list_update ht_bucket_def)
  moreover have "distinct (map (\<lambda>x. kv m (hn_key x)) (n # ht_nodes ht))"
    using ht_invD(3) [OF inv] new by (auto simp: ht_map_dom)
  moreover have "distinct (map hn_addr (n # ht_nodes ht))" using ht_invD(4) [OF inv] a(1) by simp
  moreover note distinct_via_mset [OF mset_map_cong [OF ms'], of hn_addr]
    distinct_via_mset [OF mset_map_cong [OF ms'], of "\<lambda>n. kv m (hn_key n)"]
  moreover have set: "set (ht_nodes ?ht) = insert n (set (ht_nodes ht))" using mset_eq_setD [OF ms'] by simp
  moreover have "length (ht_nodes ?ht) = Suc (length (ht_nodes ht))" using mset_eq_length [OF ms'] by simp
  moreover have "ht_used ?ht = ht_used ht + 1" by (simp add: ht_link_def)
  ultimately show inv': "ht_inv kv m ?ht"
    using log inv a(2) unfolding ht_inv_def by auto
  show "ht_map kv m ?ht = (ht_map kv m ht)(kv m (hn_key n) \<mapsto> hn_data n)"
    unfolding ht_map_def
  proof (rule map_update_eqI [OF ht_invD(6) [OF inv']])
    fix x v
    have "(x, v) \<in> set (ht_pairs kv m ?ht) \<longleftrightarrow>
        x = kv m (hn_key n) \<and> v = hn_data n \<or> (\<exists>y\<in>set (ht_nodes ht). kv m (hn_key y) = x \<and> hn_data y = v)"
      unfolding ht_pairs_def using set by auto
    also have "\<dots> \<longleftrightarrow> ((ht_map kv m ht)(kv m (hn_key n) \<mapsto> hn_data n)) x = Some v"
      using ht_map_iff [OF inv, of x v] new by (auto simp: ht_map_dom)
    finally show "(x, v) \<in> set (ht_pairs kv m ?ht) \<longleftrightarrow>
        ((map_of (ht_pairs kv m ht))(kv m (hn_key n) \<mapsto> hn_data n)) x = Some v"
      by (simp add: ht_map_def)
  qed
qed

lemma unlink_ok:
  assumes inv: "ht_inv kv m ht" and n: "n \<in> set (ht_nodes ht)"
    and hash: "ht_bucket ht hash = ht_bucket ht (ht_hashf ht m (hn_key n))"
  shows "ht_inv kv m (ht_unlink ht hash n)"
    "ht_map kv m (ht_unlink ht hash n) = (ht_map kv m ht)(kv m (hn_key n) := None)"
    "mset (ht_nodes (ht_unlink ht hash n)) = mset (ht_nodes ht) - {#n#}"
proof -
  let ?ht = "ht_unlink ht hash n"
  obtain k where k: "ht_log ht k" using ht_invD(1) [OF inv] by blast
  note b = ht_bucket_less [OF k, of hash]
  have nb: "n \<in> set (ht_table ht ! ht_bucket ht hash)"
    using ht_node_placed [OF ht_invD(2) [OF inv] n] hash by simp
  have log: "ht_log ?ht k" using k by (simp add: ht_log_def ht_unlink_def)
  show ms: "mset (ht_nodes ?ht) = mset (ht_nodes ht) - {#n#}"
    using mset_concat_remove1 [OF b nb] by (simp add: ht_nodes_def ht_unlink_def)
  then have ms': "mset (n # ht_nodes ?ht) = mset (ht_nodes ht)" using n by simp
  have "ht_placed m ?ht"
    using ht_invD(2) [OF inv] b unfolding ht_placed_def
    by (auto simp: ht_unlink_def nth_list_update ht_bucket_def dest: notin_set_remove1)
  moreover note distinct_via_mset [OF mset_map_cong [OF ms'], of hn_addr]
    distinct_via_mset [OF mset_map_cong [OF ms'], of "\<lambda>n. kv m (hn_key n)"]
  moreover have set: "insert n (set (ht_nodes ?ht)) = set (ht_nodes ht)" using mset_eq_setD [OF ms'] by simp
  note facts = calculation
  have "Suc (length (ht_nodes ?ht)) = length (ht_nodes ht)" using mset_eq_length [OF ms'] by simp
  then have "ht_used ht = of_nat (length (ht_nodes ?ht)) + 1"
    using ht_invD(5) [OF inv] by (metis of_nat_Suc add.commute)
  moreover have "ht_used ?ht = ht_used ht - 1" by (simp add: ht_unlink_def)
  ultimately have "ht_used ?ht = of_nat (length (ht_nodes ?ht))" by simp
  with facts have "ht_placed m ?ht \<and> distinct (map hn_addr (ht_nodes ?ht)) \<and>
      distinct (map (\<lambda>n. kv m (hn_key n)) (ht_nodes ?ht)) \<and> ht_used ?ht = of_nat (length (ht_nodes ?ht))"
    using inv unfolding ht_inv_def by auto
  moreover have "\<forall>x\<in>set (ht_nodes ?ht). hn_addr x < 2 ^ 47" using set ht_invD(7) [OF inv] by blast
  ultimately show inv': "ht_inv kv m ?ht" using log unfolding ht_inv_def by blast
  have "kv m (hn_key n) \<notin> (\<lambda>x. kv m (hn_key x)) ` set (ht_nodes ?ht)"
    using distinct_via_mset [OF mset_map_cong [OF ms'], of "\<lambda>n. kv m (hn_key n)"] ht_invD(3) [OF inv] by simp
  then have fresh: "kv m (hn_key y) \<noteq> kv m (hn_key n)" if "y \<in> set (ht_nodes ?ht)" for y
    using that by (metis (mono_tags) image_eqI)
  show "ht_map kv m ?ht = (ht_map kv m ht)(kv m (hn_key n) := None)"
    unfolding ht_map_def
  proof (rule map_update_eqI [OF ht_invD(6) [OF inv']])
    fix x v
    have "(x, v) \<in> set (ht_pairs kv m ?ht) \<longleftrightarrow>
        x \<noteq> kv m (hn_key n) \<and> (\<exists>y\<in>set (ht_nodes ht). kv m (hn_key y) = x \<and> hn_data y = v)"
      unfolding ht_pairs_def using fresh by (auto simp flip: set)
    also have "\<dots> \<longleftrightarrow> ((ht_map kv m ht)(kv m (hn_key n) := None)) x = Some v"
      using ht_map_iff [OF inv, of x v] by auto
    finally show "(x, v) \<in> set (ht_pairs kv m ?ht) \<longleftrightarrow>
        ((map_of (ht_pairs kv m ht))(kv m (hn_key n) := None)) x = Some v"
      by (simp add: ht_map_def)
  qed
qed

section \<open>Releasing nodes and contents\<close>

definition node_contents :: "32 word \<Rightarrow> hnode \<Rightarrow> addr list" where
  \<comment> \<open>What \<open>HT_FREEKEY\<close> and \<open>HT_FREEDATA\<close> release besides the node.\<close>
  "node_contents fl n = (if fl AND HT_FREEKEY \<noteq> 0 then [hn_key n] else []) @
     (if fl AND HT_FREEDATA \<noteq> 0 then (case hn_data n of None \<Rightarrow> [] | Some d \<Rightarrow> [d]) else [])"

lemma free_contents_fold: "ht_free_contents fl n h = fold (\<lambda>a. cfree (Some a)) (node_contents fl n) h"
  by (simp add: ht_free_contents_def node_contents_def Let_def split: option.splits)

lemma free_contents_all:
  "fold (ht_free_contents fl) ns h = fold (\<lambda>a. cfree (Some a)) (concat (map (node_contents fl) ns)) h"
  by (induction ns arbitrary: h) (simp_all add: free_contents_fold)

lemma htable_free_ok:
  assumes inv: "ht_inv kv m ht" and hp: "ht_heap ht h"
  shows "\<exists>h'. htable_free ht h = Some h' \<and> heap_ok h' \<and> hp_bad h' = hp_bad h \<and>
    mset (hp_live h') = mset (hp_live h) - mset (ht_owned ht)"
proof -
  obtain k where k: "ht_log ht k" using ht_invD(1) [OF inv] by blast
  let ?as = "map hn_addr (ht_nodes ht) @ [ht_tbladdr ht]"
  have "fold (\<lambda>n. cfree (Some (hn_addr n))) ns h = fold (\<lambda>a. cfree (Some a)) (map hn_addr ns) h" for ns :: "hnode list"
    by (induction ns arbitrary: h) simp_all
  then have run: "htable_free ht h = Some (fold (\<lambda>a. cfree (Some a)) ?as h)"
    by (simp add: htable_free_def ht_chains_log [OF k] ht_nodes_def)
  have ms: "mset ?as = mset (ht_owned ht)" by (simp add: ht_owned_def)
  then have "mset ?as \<subseteq># mset (hp_live h)" using hp unfolding ht_heap_def by metis
  from cfrees_mset [OF this] ms heap_ok_cfrees [of h Some ?as] hp show ?thesis
    unfolding run ht_heap_def by auto
qed

section \<open>Creation\<close>

lemma init_ok:
  assumes k: "k \<le> 43" and ok: "heap_ok h"
  obtains (nomem) h' where "htable_init (2 ^ k) factor hf cf pf h = Some ((HT_NOMEM, None), h')"
      "heap_ok h'" "hp_live h' = hp_live h" "hp_bad h' = hp_bad h"
    | (table) ht h' where "htable_init (2 ^ k) factor hf cf pf h = Some ((HT_OK, Some ht), h')"
      "ht_inv kv m ht" "ht_heap ht h'" "ht_map kv m ht = Map.empty" "ht_nodes ht = []"
      "ht_hashf ht = hf" "ht_cmpf ht = cf" "ht_size ht = 2 ^ k" "ht_factor ht = factor"
      "mset (hp_live h') = mset (hp_live h) + mset (ht_owned ht)" "hp_bad h' = hp_bad h"
proof -
  have "k \<le> 44" using k by simp
  from ok this show thesis
  proof (cases rule: tailq_heads_cases)
    case (nomem h')
    then show thesis by (intro that(1) [of h']) (simp_all add: htable_init_def)
  next
    case (heads a h')
    let ?ht = "\<lparr>ht_grows = 0, ht_size = 2 ^ k, ht_used = 0, ht_factor = factor, ht_limit = factor * 2 ^ k,
      ht_hashf = hf, ht_cmpf = cf, ht_printf = pf, ht_tbladdr = a, ht_table = replicate (2 ^ k) []\<rparr>"
    have n: "ht_nodes ?ht = []" by (simp add: ht_nodes_def)
    have "ht_log ?ht k" using heads by (simp add: ht_log_def)
    then have "ht_inv kv m ?ht" by (auto simp: ht_inv_def n ht_placed_def)
    moreover have "ht_heap ?ht h'" using heads by (simp add: ht_heap_def ht_owned_def n)
    ultimately show thesis using heads n
      by (intro that(2) [of ?ht h']) (simp_all add: htable_init_def ht_map_def ht_pairs_def ht_owned_def)
  qed
qed

section \<open>What the table requires of its callbacks\<close>

locale ht_keys =
  fixes hashf :: "'m \<Rightarrow> addr \<Rightarrow> size_t"
    and cmpf :: "'m \<Rightarrow> addr \<Rightarrow> addr \<Rightarrow> int"
    and kv :: "'m \<Rightarrow> addr \<Rightarrow> 'k"
  assumes cmp_iff: "cmpf m a b = 0 \<longleftrightarrow> kv m a = kv m b"
    and hash_kv: "kv m a = kv m b \<Longrightarrow> hashf m a = hashf m b"
begin

definition for_ht :: "'m htable \<Rightarrow> bool" where
  "for_ht ht \<longleftrightarrow> ht_hashf ht = hashf \<and> ht_cmpf ht = cmpf"

lemma for_same: "for_ht ht \<Longrightarrow> ht_same ht ht' \<Longrightarrow> for_ht ht'"
  by (simp add: for_ht_def ht_same_def)

lemma find_cases:
  assumes inv: "ht_inv kv m ht" and f: "for_ht ht"
  obtains (absent) chain where "ht_chain ht (ht_hashf ht m key) = Some chain"
      "chain = ht_table ht ! ht_bucket ht (ht_hashf ht m key)"
      "ht_find m ht key chain = None" "kv m key \<notin> dom (ht_map kv m ht)"
    | (present) chain n where "ht_chain ht (ht_hashf ht m key) = Some chain"
      "ht_find m ht key chain = Some n" "n \<in> set (ht_nodes ht)" "kv m (hn_key n) = kv m key"
      "ht_hashf ht m (hn_key n) = ht_hashf ht m key"
proof -
  obtain k where k: "ht_log ht k" using ht_invD(1) [OF inv] by blast
  let ?c = "ht_table ht ! ht_bucket ht (ht_hashf ht m key)"
  have c: "ht_chain ht (ht_hashf ht m key) = Some ?c" by (rule ht_chain_log [OF k])
  have P: "ht_cmpf ht m (hn_key n) key = 0 \<longleftrightarrow> kv m (hn_key n) = kv m key" for n
    using f cmp_iff by (simp add: for_ht_def)
  have H: "kv m (hn_key n) = kv m key \<Longrightarrow> ht_hashf ht m (hn_key n) = ht_hashf ht m key" for n
    using f hash_kv [of m "hn_key n" key] by (simp add: for_ht_def)
  show thesis
  proof (cases "ht_find m ht key ?c")
    case None
    then have "\<forall>n\<in>set ?c. kv m (hn_key n) \<noteq> kv m key"
      by (auto simp: ht_find_def find_None_iff P)
    then have "kv m key \<notin> dom (ht_map kv m ht)"
      using ht_node_placed [OF ht_invD(2) [OF inv]] H unfolding ht_map_dom by metis
    with c None show thesis by (intro absent) auto
  next
    case (Some n)
    then have "n \<in> set ?c" "kv m (hn_key n) = kv m key"
      by (auto simp: ht_find_def find_Some_iff P)
    moreover from this(1) have "n \<in> set (ht_nodes ht)"
      unfolding ht_nodes_def set_concat_nth using ht_bucket_less [OF k] by blast
    ultimately show thesis using c Some H by (intro present) auto
  qed
qed

lemma search_ok:
  assumes inv: "ht_inv kv m ht" and f: "for_ht ht"
  shows "htable_search m ht key = Some (case ht_map kv m ht (kv m key) of None \<Rightarrow> None | Some d \<Rightarrow> d)"
  using inv f
proof (cases rule: find_cases [of m ht key])
  case absent
  then show ?thesis by (auto simp: htable_search_def dom_def)
next
  case (present chain n)
  with ht_map_node [OF inv present(3)] show ?thesis by (simp add: htable_search_def)
qed

lemma insert_ok:
  assumes inv: "ht_inv kv m ht" and f: "for_ht ht" and hp: "ht_heap ht h"
  shows "\<exists>ret ht' h'. htable_insert m ht key data h = Some ((ret, ht'), h') \<and> ht_step kv m ht h ht' h' \<and>
    for_ht ht' \<and>
    (ret = HT_EXISTS \<and> kv m key \<in> dom (ht_map kv m ht) \<and> ht' = ht \<and> h' = h \<or>
     ret = HT_NOMEM \<and> kv m key \<notin> dom (ht_map kv m ht) \<and> ht' = ht \<and> hp_live h' = hp_live h \<and>
       fst (malloc sizeof_hnode h) = None \<or>
     ret = HT_OK \<and> kv m key \<notin> dom (ht_map kv m ht) \<and> ht_map kv m ht' = (ht_map kv m ht)(kv m key \<mapsto> data) \<and>
       fst (malloc sizeof_hnode h) \<noteq> None \<and>
       (\<exists>a. mset (ht_nodes ht') = mset (ht_nodes ht) + {#\<lparr>hn_addr = a, hn_key = key, hn_data = data\<rparr>#}))"
  using inv f
proof (cases rule: find_cases [of m ht key])
  case (present chain n)
  then have "kv m key \<in> dom (ht_map kv m ht)" by (auto simp: ht_map_dom)
  with present inv f hp show ?thesis
    by (simp add: htable_insert_def Let_def ht_step_def ht_balance_def)
next
  case (absent chain)
  have hok: "heap_ok h" using hp by (simp add: ht_heap_def)
  obtain r h1 where r: "malloc sizeof_hnode h = (r, h1)" by force
  note ok1 = heap_ok_malloc [OF hok r]
  show ?thesis
  proof (cases r)
    case None
    with absent r have "htable_insert m ht key data h = Some ((HT_NOMEM, ht), h1)"
      by (simp add: htable_insert_def Let_def)
    with malloc_NoneD [OF r [unfolded None]] absent inv f hp ok1 r None show ?thesis
      by (auto intro: ht_heap_nomem)
  next
    case (Some a)
    note D = malloc_SomeD [OF r [unfolded Some]]
    let ?n = "\<lparr>hn_addr = a, hn_key = key, hn_data = data\<rparr>"
    let ?ht = "ht_link ht (ht_hashf ht m key) ?n"
    have "set (map hn_addr (ht_nodes ht)) \<subseteq> set (hp_live h)"
      using set_mset_mono [of "mset (ht_owned ht)" "mset (hp_live h)"] hp unfolding ht_heap_def ht_owned_def
      by (simp add: subset_iff)
    then have fresh: "a \<notin> hn_addr ` set (ht_nodes ht)"
      using malloc_fresh [of h] hok r Some by (auto simp: heap_ok_def)
    have "a < 2 ^ 47" using D ok1 by (simp add: heap_ok_def sizeof_hnode_def)
    with fresh absent(4) have L: "ht_inv kv m ?ht" "ht_map kv m ?ht = (ht_map kv m ht)(kv m key \<mapsto> data)"
      "mset (ht_nodes ?ht) = mset (ht_nodes ht) + {#?n#}"
      using link_ok [OF inv, of ?n] by simp_all
    have same: "ht_same ht ?ht" by (simp add: ht_same_def ht_link_def)
    have bal: "ht_balance ht h ?ht h1"
      using D L(3) by (simp add: ht_balance_def ht_owned_def) (simp add: ht_link_def)
    have hp1: "ht_heap ?ht h1" by (rule ht_heap_balance [OF hp bal ok1])
    have st: "ht_step kv m ht h ?ht h1" using L same bal hp1 by (simp add: ht_step_def)
    have run: "htable_insert m ht key data h =
      (if ht_used ?ht > ht_limit ?ht
       then do { ((_, ht2), h2) \<leftarrow> htable_grow m ?ht h1; Some ((HT_OK, ht2\<lparr>ht_grows := ht_grows ht2 + 1\<rparr>), h2) }
       else Some ((HT_OK, ?ht), h1))"
      using absent r Some by (simp add: htable_insert_def Let_def ht_link_def)
    show ?thesis
    proof (cases "ht_used ?ht > ht_limit ?ht")
      case False
      then show ?thesis using run st L absent(4) for_same [OF f same] r Some by auto
    next
      case True
      from grow_ok [OF L(1) hp1] obtain ret ht2 h2 where
        g: "htable_grow m ?ht h1 = Some ((ret, ht2), h2)" "ht_step kv m ?ht h1 ht2 h2"
          "ht_map kv m ht2 = ht_map kv m ?ht" "mset (ht_nodes ht2) = mset (ht_nodes ?ht)" by blast
      let ?ht2 = "ht2\<lparr>ht_grows := ht_grows ht2 + 1\<rparr>"
      have upd: "ht_nodes ?ht2 = ht_nodes ht2" "ht_map kv m ?ht2 = ht_map kv m ht2"
        "ht_inv kv m ?ht2 = ht_inv kv m ht2" "ht_owned ?ht2 = ht_owned ht2"
        "ht_same ht2 ?ht2"
        by (simp_all add: ht_nodes_def ht_map_def ht_pairs_def ht_inv_def ht_log_def ht_placed_def
            ht_bucket_def ht_owned_def ht_same_def)
      have "ht_step kv m ht2 h2 ?ht2 h2"
        using g(2) upd by (simp add: ht_step_def ht_balance_def ht_heap_def)
      then have "ht_step kv m ht h ?ht2 h2" by (rule ht_step_trans [OF ht_step_trans [OF st g(2)]])
      moreover have "for_ht ?ht2" using calculation for_same [OF f] by (simp add: ht_step_def)
      moreover have "htable_insert m ht key data h = Some ((HT_OK, ?ht2), h2)"
        using run True g(1) by simp
      moreover have "ht_map kv m ?ht2 = (ht_map kv m ht)(kv m key \<mapsto> data)" using upd g(3) L(2) by simp
      moreover have "mset (ht_nodes ?ht2) = mset (ht_nodes ht) + {#?n#}" using upd g(4) L(3) by simp
      moreover have "fst (malloc sizeof_hnode h) \<noteq> None" using r Some by simp
      ultimately show ?thesis using absent(4) by blast
    qed
  qed
qed

lemma unlink_step:
  assumes inv: "ht_inv kv m ht" and hp: "ht_heap ht h" and n: "n \<in> set (ht_nodes ht)"
    and eq: "kv m (hn_key n) = kv m key" "ht_hashf ht m (hn_key n) = ht_hashf ht m key"
  shows "ht_inv kv m (ht_unlink ht (ht_hashf ht m key) n)"
    "ht_map kv m (ht_unlink ht (ht_hashf ht m key) n) = (ht_map kv m ht)(kv m key := None)"
    "mset (ht_owned ht) = mset (ht_owned (ht_unlink ht (ht_hashf ht m key) n)) + {#hn_addr n#}"
    "ht_same ht (ht_unlink ht (ht_hashf ht m key) n)"
proof -
  let ?ht = "ht_unlink ht (ht_hashf ht m key) n"
  have U: "ht_inv kv m ?ht" "ht_map kv m ?ht = (ht_map kv m ht)(kv m key := None)"
      "mset (ht_nodes ?ht) = mset (ht_nodes ht) - {#n#}"
    using unlink_ok [OF inv n, of "ht_hashf ht m key"] eq by simp_all
  then show "ht_inv kv m ?ht" "ht_map kv m ?ht = (ht_map kv m ht)(kv m key := None)" by simp_all
  have "mset (ht_nodes ht) = mset (n # ht_nodes ?ht)" using U(3) n by simp
  from mset_map_cong [OF this, of hn_addr]
  show "mset (ht_owned ht) = mset (ht_owned ?ht) + {#hn_addr n#}"
    by (simp add: ht_owned_def) (simp add: ht_unlink_def)
  show "ht_same ht ?ht" by (simp add: ht_same_def ht_unlink_def)
qed

lemma remove_ok:
  assumes inv: "ht_inv kv m ht" and f: "for_ht ht" and hp: "ht_heap ht h"
  shows "\<exists>ret ht' h'. htable_remove m ht key h = Some ((ret, ht'), h') \<and> ht_step kv m ht h ht' h' \<and>
    ht_map kv m ht' = (ht_map kv m ht)(kv m key := None) \<and>
    ret = (if kv m key \<in> dom (ht_map kv m ht) then HT_OK else HT_NOTFOUND)"
  using inv f
proof (cases rule: find_cases [of m ht key])
  case (absent chain)
  then have "htable_remove m ht key h = Some ((HT_NOTFOUND, ht), h)"
    "(ht_map kv m ht)(kv m key := None) = ht_map kv m ht"
    by (auto simp: htable_remove_def Let_def dom_def)
  with absent(4) inv hp show ?thesis by (simp add: ht_step_def ht_balance_def)
next
  case (present chain n)
  let ?ht = "ht_unlink ht (ht_hashf ht m key) n" and ?h = "cfree (Some (hn_addr n)) h"
  note U = unlink_step [OF inv hp present(3-5)]
  have run: "htable_remove m ht key h = Some ((HT_OK, ?ht), ?h)"
    using present by (simp add: htable_remove_def Let_def)
  have own: "hn_addr n \<in># mset (hp_live h)"
    using hp U(3) unfolding ht_heap_def by (metis mset_subset_eqD union_iff union_single_eq_member)
  then have "ht_balance ht h ?ht ?h"
    using cfree_mset [OF own] by (simp add: ht_balance_def U(3))
  moreover from ht_heap_balance [OF hp this heap_ok_cfree] hp have "ht_heap ?ht ?h"
    by (simp add: ht_heap_def)
  moreover have "kv m key \<in> dom (ht_map kv m ht)" using present(3,4) by (auto simp: ht_map_dom)
  ultimately show ?thesis using run U by (simp add: ht_step_def)
qed

lemma free_obj_ok:
  assumes inv: "ht_inv kv m ht" and f: "for_ht ht" and hp: "heap_ok h"
    and own: "mset (ht_owned ht) + mset (concat (map (node_contents fl) (ht_nodes ht))) \<subseteq># mset (hp_live h)"
  shows "\<exists>ret ht' h'. htable_free_obj m ht key fl h = Some ((ret, ht'), h') \<and> ht_inv kv m ht' \<and>
    ht_same ht ht' \<and> heap_ok h' \<and> hp_bad h' = hp_bad h \<and>
    ht_map kv m ht' = (ht_map kv m ht)(kv m key := None) \<and>
    ret = (if kv m key \<in> dom (ht_map kv m ht) then HT_OK else HT_NOTFOUND) \<and>
    mset (hp_live h') + mset (ht_owned ht) + mset (concat (map (node_contents fl) (ht_nodes ht))) =
    mset (hp_live h) + mset (ht_owned ht') + mset (concat (map (node_contents fl) (ht_nodes ht'))) \<and>
    set (ht_nodes ht') \<subseteq> set (ht_nodes ht)"
  using inv f
proof (cases rule: find_cases [of m ht key])
  case (absent chain)
  then have "htable_free_obj m ht key fl h = Some ((HT_NOTFOUND, ht), h)"
    "(ht_map kv m ht)(kv m key := None) = ht_map kv m ht"
    by (auto simp: htable_free_obj_def Let_def dom_def)
  with absent(4) inv hp show ?thesis by simp
next
  case (present chain n)
  let ?ht = "ht_unlink ht (ht_hashf ht m key) n"
  have hp': "ht_heap ht h"
    using own hp by (auto simp: ht_heap_def dest: mset_subset_eq_add_left [THEN subset_mset.order_trans])
  note U = unlink_step [OF inv hp' present(3-5)]
  let ?as = "node_contents fl n @ [hn_addr n]"
  let ?h = "fold (\<lambda>a. cfree (Some a)) ?as h"
  have run: "htable_free_obj m ht key fl h = Some ((HT_OK, ?ht), ?h)"
    using present by (simp add: htable_free_obj_def Let_def free_contents_fold)
  have nodes: "mset (ht_nodes ht) = mset (n # ht_nodes ?ht)"
    using unlink_ok(3) [OF inv present(3), of "ht_hashf ht m key"] present(3,5) by simp
  then have "image_mset (\<lambda>x. mset (node_contents fl x)) (mset (ht_nodes ht)) =
      image_mset (\<lambda>x. mset (node_contents fl x)) (mset (n # ht_nodes ?ht))" by (rule arg_cong)
  then have c: "mset (concat (map (node_contents fl) (ht_nodes ht))) =
      mset (node_contents fl n) + mset (concat (map (node_contents fl) (ht_nodes ?ht)))"
    by (simp add: mset_concat comp_def flip: sum_mset_sum_list)
  have sub: "mset ?as \<subseteq># mset (hp_live h)"
    using own unfolding c U(3)
    by (elim subset_mset.order_trans [rotated]) (simp add: ac_simps)
  note F = cfrees_mset [OF sub]
  have ms: "mset (hp_live h) = mset (hp_live ?h) + mset ?as"
    by (simp only: conjunct1 [OF F] subset_mset.diff_add [OF sub])
  have "kv m key \<in> dom (ht_map kv m ht)" using present(3,4) by (auto simp: ht_map_dom)
  moreover have "heap_ok ?h" by (rule heap_ok_cfrees [OF hp])
  moreover have "mset (hp_live ?h) + mset (ht_owned ht) + mset (concat (map (node_contents fl) (ht_nodes ht))) =
    mset (hp_live h) + mset (ht_owned ?ht) + mset (concat (map (node_contents fl) (ht_nodes ?ht)))"
    unfolding c U(3) ms by (simp add: ac_simps)
  moreover have "set (ht_nodes ?ht) \<subseteq> set (ht_nodes ht)" using mset_eq_setD [OF nodes] by auto
  ultimately show ?thesis using run U F
    by (intro exI [of _ HT_OK] exI [of _ ?ht] exI [of _ ?h]) simp
qed

end

end
