(* ===== verification/Htable_Iter.thy ===== *)
theory Htable_Iter imports Htable_Inv begin

text \<open>
  What the iterator of the hash table visits. A call of \<open>htable_get_next_elm\<close> that has returned
  a node of the last bucket has left the position at the size of the table, so the next call
  gives up: of the last bucket only the first node is visited.
\<close>

definition ht_visit :: "'m htable \<Rightarrow> nat \<Rightarrow> hnode list" where
  \<comment> \<open>The nodes visited from bucket \<open>j\<close> on.\<close>
  "ht_visit ht j =
     (if j < length (ht_table ht)
      then concat (butlast (drop j (ht_table ht))) @ take 1 (last (ht_table ht)) else [])"

lemma ht_visit_last: "Suc j = length (ht_table ht) \<Longrightarrow> ht_visit ht j = take 1 (ht_table ht ! j)"
proof -
  assume j: "Suc j = length (ht_table ht)"
  then have "drop j (ht_table ht) = [ht_table ht ! j]"
    by (metis Cons_nth_drop_Suc drop_all lessI order_refl)
  moreover have "last (ht_table ht) = ht_table ht ! j"
    using j by (metis diff_Suc_1 last_conv_nth length_0_conv nat.distinct(1))
  ultimately show ?thesis using j by (simp add: ht_visit_def)
qed

lemma ht_visit_Suc: "Suc j < length (ht_table ht) \<Longrightarrow> ht_visit ht j = ht_table ht ! j @ ht_visit ht (Suc j)"
proof -
  assume j: "Suc j < length (ht_table ht)"
  then have "drop j (ht_table ht) = ht_table ht ! j # drop (Suc j) (ht_table ht)"
    by (simp add: Cons_nth_drop_Suc)
  with j show ?thesis by (simp add: ht_visit_def)
qed

lemma ht_visit_skip:
  "i < length (ht_table ht) \<Longrightarrow> j \<le> i \<Longrightarrow> (\<forall>l. j \<le> l \<longrightarrow> l < i \<longrightarrow> ht_table ht ! l = []) \<Longrightarrow>
    ht_visit ht j = ht_visit ht i"
proof (induction "i - j" arbitrary: j)
  case (Suc d)
  then have "ht_visit ht j = ht_visit ht (Suc j)" by (simp add: ht_visit_Suc)
  also have "\<dots> = ht_visit ht i" using Suc by (intro Suc.hyps(1)) auto
  finally show ?case .
qed simp

lemma ht_visit_none:
  "\<forall>l. j \<le> l \<longrightarrow> l < length (ht_table ht) \<longrightarrow> ht_table ht ! l = [] \<Longrightarrow> ht_visit ht j = []"
proof (cases "j < length (ht_table ht)")
  case True
  assume a: "\<forall>l. j \<le> l \<longrightarrow> l < length (ht_table ht) \<longrightarrow> ht_table ht ! l = []"
  let ?i = "length (ht_table ht) - 1"
  have "ht_visit ht j = ht_visit ht ?i" using a True by (intro ht_visit_skip) auto
  also have "\<dots> = []" using a True by (subst ht_visit_last) auto
  finally show ?thesis .
qed (simp add: ht_visit_def)

section \<open>The next node of a chain\<close>

lemma chain_next_none: "a \<notin> hn_addr ` set ns \<Longrightarrow> chain_next ns a = None"
  by (induction ns) auto

lemma chain_next_some:
  "distinct (map hn_addr (pre @ n # post)) \<Longrightarrow>
    chain_next (pre @ n # post) (hn_addr n) = Some (case post of [] \<Rightarrow> None | x # _ \<Rightarrow> Some x)"
  by (induction pre) auto

lemma tailq_next_ok:
  "distinct (map hn_addr (concat tbl)) \<Longrightarrow> i < length tbl \<Longrightarrow> tbl ! i = pre @ n # post \<Longrightarrow>
    ht_tailq_next tbl (hn_addr n) = Some (case post of [] \<Rightarrow> None | x # _ \<Rightarrow> Some x)"
proof (induction tbl arbitrary: i)
  case (Cons c tbl)
  show ?case
  proof (cases i)
    case 0
    with Cons.prems chain_next_some [of pre n post] show ?thesis by simp
  next
    case (Suc j)
    then have j: "j < length tbl" "tbl ! j = pre @ n # post" using Cons.prems by simp_all
    then have "n \<in> set (concat tbl)" unfolding set_concat_nth by (metis in_set_conv_decomp)
    then have "hn_addr n \<notin> hn_addr ` set c" using Cons.prems(1) by auto
    with Cons.IH [OF _ j] Cons.prems(1) show ?thesis by (simp add: chain_next_none)
  qed
qed simp

section \<open>Scanning the buckets\<close>

lemma scan_ok:
  "j \<le> length tbl \<Longrightarrow>
    (\<exists>i n post. j \<le> i \<and> i < length tbl \<and> tbl ! i = n # post \<and> (\<forall>l. j \<le> l \<longrightarrow> l < i \<longrightarrow> tbl ! l = []) \<and>
       ht_scan tbl [j..<length tbl] (of_nat j) = Some (Some n, of_nat (Suc i))) \<or>
    (\<forall>l. j \<le> l \<longrightarrow> l < length tbl \<longrightarrow> tbl ! l = []) \<and>
       ht_scan tbl [j..<length tbl] (of_nat j) = Some (None, of_nat (length tbl))"
proof (induction "length tbl - j" arbitrary: j)
  case (Suc d)
  then have j: "j < length tbl" "[j..<length tbl] = j # [Suc j..<length tbl]" by (simp_all add: upt_rec)
  show ?case
  proof (cases "tbl ! j")
    case Nil
    have step: "ht_scan tbl [j..<length tbl] (of_nat j) = ht_scan tbl [Suc j..<length tbl] (of_nat (Suc j))"
      using j Nil by (simp add: add.commute)
    have all: "\<forall>l. j \<le> l \<longrightarrow> l < b \<longrightarrow> tbl ! l = []" if "\<forall>l. Suc j \<le> l \<longrightarrow> l < b \<longrightarrow> tbl ! l = []" for b
      using that Nil by (metis Suc_leI le_eq_less_or_eq)
    have "d = length tbl - Suc j" "Suc j \<le> length tbl" using Suc.hyps(2) j(1) by simp_all
    from Suc.hyps(1) [OF this] show ?thesis
    proof (elim disjE exE conjE)
      fix i n post
      assume "Suc j \<le> i" "i < length tbl" "tbl ! i = n # post" "\<forall>l. Suc j \<le> l \<longrightarrow> l < i \<longrightarrow> tbl ! l = []"
        "ht_scan tbl [Suc j..<length tbl] (of_nat (Suc j)) = Some (Some n, of_nat (Suc i))"
      with all [of i] show ?thesis unfolding step
        by (intro disjI1 exI [of _ i] exI [of _ n] exI [of _ post]) simp
    next
      assume "\<forall>l. Suc j \<le> l \<longrightarrow> l < length tbl \<longrightarrow> tbl ! l = []"
        "ht_scan tbl [Suc j..<length tbl] (of_nat (Suc j)) = Some (None, of_nat (length tbl))"
      with all show ?thesis unfolding step by blast
    qed
  next
    case (Cons n post)
    with j show ?thesis by (intro disjI1 exI [of _ j] exI [of _ n] exI [of _ post]) (auto simp: add.commute)
  qed
qed simp


section \<open>Iteration\<close>

lemma unat_small: "j < 2 ^ 64 \<Longrightarrow> unat (of_nat j :: size_t) = j"
  unfolding unsigned_of_nat of_nat_id take_bit_nat_eq_self_iff by simp

lemma ht_log_pos:
  assumes k: "ht_log ht k" and j: "j \<le> length (ht_table ht)"
  shows "unat (of_nat j :: size_t) = j" "unat (ht_size ht) = length (ht_table ht)"
    "(of_nat j :: size_t) > ht_size ht - 1 \<longleftrightarrow> j = length (ht_table ht)"
    "(of_nat (Suc j) :: size_t) \<noteq> 0"
proof -
  let ?L = "length (ht_table ht)"
  have L: "?L = 2 ^ k" "k \<le> 43" "ht_size ht = 2 ^ k" using k by (simp_all add: ht_log_def)
  have "(2::nat) ^ k \<le> 2 ^ 43" using L(2) by (intro power_increasing) simp_all
  then have small: "?L \<le> 2 ^ 43" using L by simp
  have u: "unat (of_nat i :: size_t) = i" if "i \<le> Suc ?L" for i
    using small that by (intro unat_small) simp
  show "unat (of_nat j :: size_t) = j" using j by (intro u) simp
  have eq: "ht_size ht = of_nat ?L" using L by simp
  show "unat (ht_size ht) = ?L" unfolding eq by (rule u) simp
  have "0 < ?L" using L by simp
  then have "ht_size ht - 1 = of_nat (?L - 1)" unfolding eq
    by (cases "?L") (simp_all del: of_nat_eq_0_iff)
  then show "(of_nat j :: size_t) > ht_size ht - 1 \<longleftrightarrow> j = ?L"
    using u [of j] u [of "?L - 1"] j \<open>0 < ?L\<close> by (auto simp: word_less_nat_alt)
  show "(of_nat (Suc j) :: size_t) \<noteq> 0" using u [of "Suc j"] j by (metis Suc_le_mono nat.distinct(1) unat_0)
qed

definition ht_resume :: "'m htable \<Rightarrow> nat \<Rightarrow> hnode list option" where
  \<comment> \<open>The rest of an iteration that goes on with the search of the buckets from \<open>j\<close>.\<close>
  "ht_resume ht j =
     do { (r, pos) \<leftarrow> ht_scan (ht_table ht) [j..<length (ht_table ht)] (of_nat j);
          case r of
            None \<Rightarrow> Some []
          | Some n \<Rightarrow> do { ns \<leftarrow> ht_iterate ht \<lparr>it_pos = pos, it_pnode = Some (hn_addr n)\<rparr>; Some (n # ns) } }"

lemma iterate_chain:
  assumes k: "ht_log ht k" and d: "distinct (map hn_addr (concat (ht_table ht)))"
    and i: "i < length (ht_table ht)"
    and S: "Suc i < length (ht_table ht) \<Longrightarrow> ht_resume ht (Suc i) = Some (ht_visit ht (Suc i))"
  shows "ht_table ht ! i = pre @ n # post \<Longrightarrow>
    ht_iterate ht \<lparr>it_pos = of_nat (Suc i), it_pnode = Some (hn_addr n)\<rparr> =
      Some (if Suc i = length (ht_table ht) then [] else post @ ht_visit ht (Suc i))"
proof (induction post arbitrary: pre n)
  case Nil
  note P = ht_log_pos [OF k, of "Suc i"] ht_log_pos(4) [OF k, of i]
  show ?case
  proof (cases "Suc i = length (ht_table ht)")
    case True
    with P i show ?thesis by (subst ht_iterate.simps) (simp add: htable_get_next_elm_def)
  next
    case False
    with i P S tailq_next_ok [OF d i Nil] show ?thesis
      by (subst ht_iterate.simps)
        (auto simp: htable_get_next_elm_def Let_def ht_resume_def split: bind_splits option.splits
          simp del: of_nat_Suc)
  qed
next
  case (Cons n' post)
  note P = ht_log_pos [OF k, of "Suc i"] ht_log_pos(4) [OF k, of i]
  have "ht_table ht ! i = (pre @ [n]) @ n' # post" using Cons.prems by simp
  note IH = Cons.IH [OF this]
  show ?case
  proof (cases "Suc i = length (ht_table ht)")
    case True
    with P i show ?thesis by (subst ht_iterate.simps) (simp add: htable_get_next_elm_def)
  next
    case False
    with i P IH tailq_next_ok [OF d i Cons.prems] show ?thesis
      by (subst ht_iterate.simps) (simp add: htable_get_next_elm_def Let_def del: of_nat_Suc)
  qed
qed

lemma resume_ok:
  assumes k: "ht_log ht k" and d: "distinct (map hn_addr (concat (ht_table ht)))"
  shows "j \<le> length (ht_table ht) \<Longrightarrow> ht_resume ht j = Some (ht_visit ht j)"
proof (induction "length (ht_table ht) - j" arbitrary: j rule: less_induct)
  case less
  let ?T = "ht_table ht"
  from scan_ok [OF less.prems] show ?case
  proof (elim disjE exE conjE)
    fix i n post
    assume i: "j \<le> i" "i < length ?T" "?T ! i = n # post" "\<forall>l. j \<le> l \<longrightarrow> l < i \<longrightarrow> ?T ! l = []"
      and s: "ht_scan ?T [j..<length ?T] (of_nat j) = Some (Some n, of_nat (Suc i))"
    have "Suc i < length ?T \<Longrightarrow> ht_resume ht (Suc i) = Some (ht_visit ht (Suc i))"
      using i(1) by (intro less.hyps) auto
    from iterate_chain [OF k d i(2) this, of "[]" n post] i(3) s
    have "ht_resume ht j = Some (n # (if Suc i = length ?T then [] else post @ ht_visit ht (Suc i)))"
      by (simp add: ht_resume_def del: of_nat_Suc)
    also have "n # (if Suc i = length ?T then [] else post @ ht_visit ht (Suc i)) = ht_visit ht i"
      using i(2,3) by (auto simp: ht_visit_last ht_visit_Suc)
    also have "\<dots> = ht_visit ht j" using ht_visit_skip [OF i(2,1,4)] by simp
    finally show ?thesis .
  qed (simp add: ht_resume_def ht_visit_none)
qed

lemma iterate_ok:
  assumes k: "ht_log ht k" and d: "distinct (map hn_addr (concat (ht_table ht)))"
  shows "ht_iterate ht htable_iterator_init = Some (ht_visit ht 0)"
proof -
  have "0 < length (ht_table ht)" using k by (simp add: ht_log_def)
  with ht_log_pos [OF k, of 0] resume_ok [OF k d, of 0] show ?thesis
    by (subst ht_iterate.simps)
      (auto simp: htable_get_next_elm_def htable_iterator_init_def ht_resume_def Let_def
        split: bind_splits option.splits)
qed

end
