(* ===== verification/Htable_Props.thy ===== *)
theory Htable_Props imports Htable_Ops Htable_Iter begin

text \<open>
  The test program \<open>genstructs/htable/test1.c\<close> with its string keys, the interpretation of
  \<open>ht_keys\<close> on its callbacks, and what the hash table promises its clients.
\<close>

unbundle bit_operations_syntax

section \<open>String keys: the callbacks of test1.c\<close>

type_synonym bytes_mem = "addr \<Rightarrow> 8 word list"

definition cstr :: "bytes_mem \<Rightarrow> addr \<Rightarrow> 8 word list" where
  \<comment> \<open>The C string at an address: the bytes before the first NUL.\<close>
  "cstr m a = takeWhile (\<lambda>c. c \<noteq> 0) (m a)"

definition myhashf :: "bytes_mem \<Rightarrow> addr \<Rightarrow> 32 word" where
  \<comment> \<open>\<open>str[i]\<close> is a signed \<open>char\<close>, converted to \<open>unsigned int\<close> with its sign.\<close>
  "myhashf m key = foldl (\<lambda>hash c. (push_bit 5 hash + hash) + scast c) 5381 (cstr m key)"

definition myhashf_t :: "bytes_mem \<Rightarrow> addr \<Rightarrow> size_t" where
  \<comment> \<open>The call through \<open>hashf_t *\<close>, with the result read as a \<open>size_t\<close>.\<close>
  "myhashf_t m key = ucast (myhashf m key)"

fun strcmp :: "8 word list \<Rightarrow> 8 word list \<Rightarrow> int" where
  "strcmp [] [] = 0"
| "strcmp [] (b # bs) = - uint b"
| "strcmp (a # as) [] = uint a"
| "strcmp (a # as) (b # bs) = (if a = b then strcmp as bs else uint a - uint b)"

definition mystrcmp :: "bytes_mem \<Rightarrow> addr \<Rightarrow> addr \<Rightarrow> int" where
  "mystrcmp m arg1 arg2 = strcmp (cstr m arg1) (cstr m arg2)"

definition myprintf :: "bytes_mem \<Rightarrow> addr \<Rightarrow> addr option \<Rightarrow> string option" where
  "myprintf m key data =
     do { d \<leftarrow> data;
          Some (map (char_of \<circ> unat) (cstr m key) @ ''('' @ map (char_of \<circ> unat) (cstr m d) @ '') '') }"

fun insert_all :: "'m \<Rightarrow> addr list \<Rightarrow> 'm htable \<Rightarrow> cheap \<Rightarrow> ('m htable \<times> cheap) option" where
  \<comment> \<open>The loop that adds the strings; the results are not looked at.\<close>
  "insert_all m [] ht h = Some (ht, h)"
| "insert_all m (s # ss) ht h =
     do { ((_, ht'), h') \<leftarrow> htable_insert m ht s (Some s) h; insert_all m ss ht' h' }"

definition test1_main ::
  "bytes_mem \<Rightarrow> addr list \<Rightarrow> cheap \<Rightarrow>
   ((addr option list \<times> size_t list \<times> size_t) option \<times> cheap) option" where
  \<comment> \<open>\<open>main\<close> on the strings at the given addresses: \<open>None\<close> when it exits after a failed \<open>malloc\<close>,
      otherwise what \<open>htable_traverse\<close> handed to \<open>print_elm\<close>, the lengths of the chains and the
      number of resizes that it prints.\<close>
  "test1_main m strs h =
     do { ((ret, r), h1) \<leftarrow> htable_init 32 2 myhashf_t mystrcmp myprintf h;
          case r of
            None \<Rightarrow> Some (None, h1)
          | Some ht0 \<Rightarrow> do {
              (ht, h2) \<leftarrow> insert_all m strs ht0 h1;
              out \<leftarrow> htable_traverse ht (\<lambda>d acc. acc @ [d]) [];
              lens \<leftarrow> those (map (\<lambda>i. htable_stat_get_chain_len ht (of_nat i)) [0..<unat (htable_get_size ht)]);
              h3 \<leftarrow> htable_free ht h2;
              Some (Some (out, lens, htable_stat_get_grows ht), h3) } }"

lemma strcmp_eq: "0 \<notin> set as \<Longrightarrow> 0 \<notin> set bs \<Longrightarrow> strcmp as bs = 0 \<longleftrightarrow> as = bs"
  by (induction as bs rule: strcmp.induct) (auto simp: uint_0_iff dest: word_uint_eqI)

lemma cstr_no_nul: "0 \<notin> set (cstr m a)"
  by (auto simp: cstr_def dest: set_takeWhileD)

interpretation strk: ht_keys myhashf_t mystrcmp cstr
proof
  show "mystrcmp m a b = 0 \<longleftrightarrow> cstr m a = cstr m b" for m a b
    unfolding mystrcmp_def by (rule strcmp_eq [OF cstr_no_nul cstr_no_nul])
qed (simp add: myhashf_t_def myhashf_def)


section \<open>The test program\<close>

lemma insert_all_ok:
  assumes "ht_inv cstr m ht" "strk.for_ht ht" "ht_heap ht h"
  shows "\<exists>ht' h'. insert_all m strs ht h = Some (ht', h') \<and> ht_step cstr m ht h ht' h' \<and>
    (\<forall>n\<in>set (ht_nodes ht'). n \<in> set (ht_nodes ht) \<or> hn_key n \<in> set strs \<and> hn_data n = Some (hn_key n))"
  using assms
proof (induction strs arbitrary: ht h)
  case Nil
  then show ?case by (simp add: ht_step_def ht_balance_def)
next
  case (Cons s strs)
  from strk.insert_ok [OF Cons.prems, of s "Some s"] obtain ret ht1 h1 where
    i: "htable_insert m ht s (Some s) h = Some ((ret, ht1), h1)" "ht_step cstr m ht h ht1 h1" "strk.for_ht ht1"
    and n: "ht1 = ht \<or> (\<exists>a. mset (ht_nodes ht1) = mset (ht_nodes ht) + {#\<lparr>hn_addr = a, hn_key = s, hn_data = Some s\<rparr>#})"
    by blast
  have nodes: "x \<in> set (ht_nodes ht) \<or> hn_key x = s \<and> hn_data x = Some s" if "x \<in> set (ht_nodes ht1)" for x
    using n
  proof
    assume "\<exists>a. mset (ht_nodes ht1) = mset (ht_nodes ht) + {#\<lparr>hn_addr = a, hn_key = s, hn_data = Some s\<rparr>#}"
    then obtain a where "mset (ht_nodes ht1) = mset (\<lparr>hn_addr = a, hn_key = s, hn_data = Some s\<rparr> # ht_nodes ht)" by auto
    from mset_eq_setD [OF this] that show ?thesis by auto
  qed (use that in simp)
  have "ht_inv cstr m ht1" "ht_heap ht1 h1" using i(2) by (simp_all add: ht_step_def)
  from Cons.IH [OF this(1) i(3) this(2)] obtain ht2 h2 where
    r: "insert_all m strs ht1 h1 = Some (ht2, h2)" "ht_step cstr m ht1 h1 ht2 h2"
      "\<forall>n\<in>set (ht_nodes ht2). n \<in> set (ht_nodes ht1) \<or> hn_key n \<in> set strs \<and> hn_data n = Some (hn_key n)" by blast
  have "\<forall>n\<in>set (ht_nodes ht2). n \<in> set (ht_nodes ht) \<or> hn_key n \<in> set (s # strs) \<and> hn_data n = Some (hn_key n)"
    using r(3) nodes by fastforce
  then show ?case
    using i(1) r(1) ht_step_trans [OF i(2) r(2)] by (intro exI [of _ ht2] exI [of _ h2]) simp
qed

section \<open>A table to apply the theorems to\<close>

definition ex_mem :: bytes_mem where
  "ex_mem = (\<lambda>a. if a = 10 then [97, 98, 0] else if a = 20 then [97, 99, 0] else [97, 98, 0, 7])"

definition ex_ht :: "bytes_mem htable" where
  "ex_ht = \<lparr>ht_grows = 0, ht_size = 1, ht_used = 2, ht_factor = 2, ht_limit = 2, ht_hashf = myhashf_t,
     ht_cmpf = mystrcmp, ht_printf = myprintf, ht_tbladdr = 100,
     ht_table = [[\<lparr>hn_addr = 200, hn_key = 10, hn_data = Some 10\<rparr>, \<lparr>hn_addr = 300, hn_key = 20, hn_data = None\<rparr>]]\<rparr>"

definition ex_h :: cheap where
  "ex_h = \<lparr>hp_next = 1000, hp_limit = 5000, hp_live = [100, 200, 300], hp_sched = [], hp_bad = False\<rparr>"

lemma ex_ht_inv: "ht_inv cstr ex_mem ex_ht"
proof -
  have "ht_log ex_ht 0" by (simp add: ht_log_def ex_ht_def)
  moreover have "ht_placed ex_mem ex_ht"
    by (simp add: ht_placed_def ht_bucket_log [OF \<open>ht_log ex_ht 0\<close>]) (simp add: ex_ht_def)
  ultimately show ?thesis
    by (auto simp: ht_inv_def ex_ht_def ht_nodes_def ex_mem_def cstr_def)
qed

lemma ex_ht_heap: "ht_heap ex_ht ex_h" "heap_ok ex_h"
  by (simp_all add: ht_heap_def heap_ok_def heap_wf_def ex_h_def ht_owned_def ex_ht_def ht_nodes_def)

lemma ex_ht_keys: "ht_keys (ht_hashf ex_ht) (ht_cmpf ex_ht) cstr"
  using strk.ht_keys_axioms by (simp add: ex_ht_def)

lemma ex_ht_map: "ht_map cstr ex_mem ex_ht = [[97, 98] \<mapsto> Some 10, [97, 99] \<mapsto> None]"
  by (auto simp: ht_map_def ht_pairs_def ht_nodes_def ex_ht_def cstr_def ex_mem_def)

lemma ex_keys: "cstr ex_mem 10 = [97, 98]" "cstr ex_mem 20 = [97, 99]" "cstr ex_mem 30 = [97, 98]"
  by (simp_all add: cstr_def ex_mem_def)

section \<open>Theorems\<close>

text \<open>C15: Insertion refines the update of a finite map: with the key present it changes nothing and
  says \<open>HT_EXISTS\<close>, without memory it changes nothing and says \<open>HT_NOMEM\<close>, otherwise it
  binds the key, whether or not the table grows (or fails to grow); the invariant is kept and
  the heap blocks are accounted for.\<close>

theorem htable_insert_refines:
  assumes "ht_keys (ht_hashf ht) (ht_cmpf ht) kv" "ht_inv kv m ht" "ht_heap ht h"
  shows "\<exists>ret ht' h'. htable_insert m ht key data h = Some ((ret, ht'), h') \<and> ht_step kv m ht h ht' h' \<and>
    (ret = HT_EXISTS \<and> kv m key \<in> dom (ht_map kv m ht) \<and> ht' = ht \<and> h' = h \<or>
     ret = HT_NOMEM \<and> kv m key \<notin> dom (ht_map kv m ht) \<and> ht' = ht \<or>
     ret = HT_OK \<and> kv m key \<notin> dom (ht_map kv m ht) \<and> ht_map kv m ht' = (ht_map kv m ht)(kv m key \<mapsto> data))"
  using ht_keys.insert_ok [OF assms(1,2) _ assms(3), of key data] ht_keys.for_ht_def [OF assms(1), of ht] by blast

lemma htable_insert_refines_witness:
  "\<exists>h'. htable_insert ex_mem ex_ht 30 None ex_h = Some ((HT_EXISTS, ex_ht), h')"
  using htable_insert_refines [OF ex_ht_keys ex_ht_inv ex_ht_heap(1), of 30 None]
  by (auto simp: ex_ht_map ex_keys)

text \<open>Removal refines deletion from the finite map, and says whether the key was bound.\<close>

theorem htable_remove_refines:
  assumes "ht_keys (ht_hashf ht) (ht_cmpf ht) kv" "ht_inv kv m ht" "ht_heap ht h"
  shows "\<exists>ret ht' h'. htable_remove m ht key h = Some ((ret, ht'), h') \<and> ht_step kv m ht h ht' h' \<and>
    ht_map kv m ht' = (ht_map kv m ht)(kv m key := None) \<and>
    ret = (if kv m key \<in> dom (ht_map kv m ht) then HT_OK else HT_NOTFOUND)"
  using ht_keys.remove_ok [OF assms(1,2) _ assms(3), of key] ht_keys.for_ht_def [OF assms(1), of ht] by blast

lemma htable_remove_refines_witness:
  "\<exists>ht' h'. htable_remove ex_mem ex_ht 30 ex_h = Some ((HT_OK, ht'), h') \<and>
     ht_map cstr ex_mem ht' = [[97, 99] \<mapsto> None]"
  using htable_remove_refines [OF ex_ht_keys ex_ht_inv ex_ht_heap(1), of 30]
  by (auto simp: ex_ht_map ex_keys fun_eq_iff)

text \<open>Searching returns the data pointer bound to the key. A key bound to a NULL pointer
  looks like a key that is not bound.\<close>

theorem htable_search_lookup:
  assumes "ht_keys (ht_hashf ht) (ht_cmpf ht) kv" "ht_inv kv m ht"
  shows "htable_search m ht key = Some (case ht_map kv m ht (kv m key) of None \<Rightarrow> None | Some d \<Rightarrow> d)"
  using ht_keys.search_ok [OF assms] ht_keys.for_ht_def [OF assms(1), of ht] by simp

lemma htable_search_lookup_witness:
  "htable_search ex_mem ex_ht 30 = Some (Some 10) \<and> htable_search ex_mem ex_ht 20 = Some None"
  by (simp add: htable_search_lookup [OF ex_ht_keys ex_ht_inv] ex_ht_map ex_keys)

text \<open>Growing returns, doubles the number of buckets or, without memory, leaves the table as it
  is; either way the finite map is the same.\<close>

theorem htable_grow_same_map:
  assumes "ht_inv kv m ht" "ht_heap ht h"
  shows "\<exists>ret ht' h'. htable_grow m ht h = Some ((ret, ht'), h') \<and> ht_step kv m ht h ht' h' \<and>
    ht_map kv m ht' = ht_map kv m ht \<and> mset (ht_nodes ht') = mset (ht_nodes ht) \<and>
    (ret = HT_NOMEM \<and> ht' = ht \<or> ret = HT_OK \<and> ht_size ht' = 2 * ht_size ht)"
  using grow_ok [OF assms] by blast

lemma htable_grow_same_map_witness:
  "\<exists>ret ht' h'. htable_grow ex_mem ex_ht ex_h = Some ((ret, ht'), h') \<and>
     ht_map cstr ex_mem ht' = [[97, 98] \<mapsto> Some 10, [97, 99] \<mapsto> None]"
  using htable_grow_same_map [OF ex_ht_inv ex_ht_heap(1)] by (auto simp: ex_ht_map)

text \<open>Releasing an entry with its key and its data removes it from the map and gives exactly
  the node, the key and the data back to the heap, as the flags say.\<close>

theorem htable_free_obj_accounts:
  assumes "ht_keys (ht_hashf ht) (ht_cmpf ht) kv" "ht_inv kv m ht" "heap_ok h"
    and "mset (ht_owned ht) + mset (concat (map (node_contents fl) (ht_nodes ht))) \<subseteq># mset (hp_live h)"
  shows "\<exists>ret ht' h'. htable_free_obj m ht key fl h = Some ((ret, ht'), h') \<and> ht_inv kv m ht' \<and>
    hp_bad h' = hp_bad h \<and> ht_map kv m ht' = (ht_map kv m ht)(kv m key := None) \<and>
    ret = (if kv m key \<in> dom (ht_map kv m ht) then HT_OK else HT_NOTFOUND) \<and>
    mset (hp_live h') + mset (ht_owned ht) + mset (concat (map (node_contents fl) (ht_nodes ht))) =
    mset (hp_live h) + mset (ht_owned ht') + mset (concat (map (node_contents fl) (ht_nodes ht')))"
  using ht_keys.free_obj_ok [OF assms(1,2) _ assms(3,4), of key] ht_keys.for_ht_def [OF assms(1), of ht] by blast

lemma htable_free_obj_accounts_witness:
  "\<exists>ht' h'. htable_free_obj ex_mem ex_ht 20 0 ex_h = Some ((HT_OK, ht'), h') \<and>
     ht_map cstr ex_mem ht' = [[97, 98] \<mapsto> Some 10]"
proof -
  have "node_contents 0 = (\<lambda>_. [])" by (simp add: node_contents_def fun_eq_iff)
  then have "concat (map (node_contents 0) (ht_nodes ex_ht)) = []" by simp
  then have "mset (ht_owned ex_ht) + mset (concat (map (node_contents 0) (ht_nodes ex_ht))) \<subseteq># mset (hp_live ex_h)"
    using ex_ht_heap(1) by (simp only: ht_heap_def mset.simps add_0_right)
  from htable_free_obj_accounts [OF ex_ht_keys ex_ht_inv ex_ht_heap(2) this, of 20] show ?thesis
    by (auto simp: ex_ht_map ex_keys fun_eq_iff)
qed

text \<open>C21: A complete iteration visits the nodes of all buckets but the last, in order, and of the
  last bucket only the first node: entries further down the last bucket are never seen.\<close>

theorem htable_iteration_visits:
  assumes "ht_inv kv m ht"
  shows "ht_iterate ht htable_iterator_init =
    Some (concat (butlast (ht_table ht)) @ take 1 (last (ht_table ht)))"
proof -
  obtain k where k: "ht_log ht k" using ht_invD(1) [OF assms] by blast
  have "0 < length (ht_table ht)" using k by (simp add: ht_log_def)
  with iterate_ok [OF k] ht_invD(4) [OF assms] show ?thesis by (simp add: ht_nodes_def ht_visit_def)
qed

lemma htable_iteration_visits_witness:
  "ht_iterate ex_ht htable_iterator_init = Some [\<lparr>hn_addr = 200, hn_key = 10, hn_data = Some 10\<rparr>] \<and>
   length (ht_nodes ex_ht) = 2"
  using htable_iteration_visits [OF ex_ht_inv] by (simp add: ex_ht_def ht_nodes_def)

text \<open>Creation and destruction are inverse on the heap: after a successful \<open>htable_init\<close> of a
  power of two buckets the table is empty, and \<open>htable_free\<close> of any table gives back exactly the
  blocks it owns.\<close>

theorem htable_init_free:
  assumes "k \<le> 43" "heap_ok h"
  shows "case htable_init (2 ^ k) factor hf cf pf h of
      None \<Rightarrow> False
    | Some ((ret, None), h') \<Rightarrow> ret = HT_NOMEM \<and> hp_live h' = hp_live h
    | Some ((ret, Some ht), h') \<Rightarrow> ret = HT_OK \<and> ht_inv kv m ht \<and> ht_map kv m ht = Map.empty \<and>
        (\<exists>h''. htable_free ht h' = Some h'' \<and> mset (hp_live h'') = mset (hp_live h) \<and> hp_bad h'' = hp_bad h)"
  using assms
proof (cases rule: init_ok [where factor = factor and hf = hf and cf = cf and pf = pf and kv = kv and m = m])
  case (table ht h')
  from htable_free_ok [OF table(2,3)] table show ?thesis by auto
qed simp

lemma htable_init_free_witness:
  "case htable_init (2 ^ 2) 2 myhashf_t mystrcmp myprintf ex_h of
      None \<Rightarrow> False
    | Some ((ret, None), h') \<Rightarrow> False
    | Some ((ret, Some ht), h') \<Rightarrow> ret = HT_OK \<and> (\<exists>h''. htable_free ht h' = Some h'' \<and> \<not> hp_bad h'')"
proof -
  have "\<exists>ht h'. htable_init (2 ^ 2) 2 myhashf_t mystrcmp myprintf ex_h = Some ((HT_OK, Some ht), h')"
    by (simp add: htable_init_def tailq_heads_def sizeof_hhead_def malloc_def ex_h_def)
  then obtain ht h' where r: "htable_init (2 ^ 2) 2 myhashf_t mystrcmp myprintf ex_h = Some ((HT_OK, Some ht), h')"
    by blast
  have "(2::nat) \<le> 43" by simp
  from htable_init_free [OF this ex_ht_heap(2), where factor = 2 and hf = myhashf_t and cf = mystrcmp and
      pf = myprintf and kv = cstr and m = ex_mem]
  have "\<exists>h''. htable_free ht h' = Some h'' \<and> hp_bad h'' = hp_bad ex_h"
    unfolding r option.case prod.case by blast
  then show ?thesis unfolding r option.case prod.case by (simp add: ex_h_def)
qed

lemma those_map_Some: "(\<And>x. x \<in> set xs \<Longrightarrow> f x = Some (g x)) \<Longrightarrow> those (map f xs) = Some (map g xs)"
  by (induction xs) simp_all

lemma chain_lens_ok:
  assumes "ht_log ht k"
  shows "those (map (\<lambda>i. htable_stat_get_chain_len ht (of_nat i)) [0..<unat (htable_get_size ht)]) =
    Some (map (of_nat \<circ> length) (ht_table ht))"
proof -
  have l: "unat (ht_size ht) = length (ht_table ht)" using assms by (simp add: ht_log_def unat_p2)
  have "htable_stat_get_chain_len ht (of_nat i) = Some (of_nat (length (ht_table ht ! i)))"
    if "i < length (ht_table ht)" for i
  proof -
    have "unat (of_nat i :: size_t) = i"
      using that l by (intro le_unat_uoi [of _ "ht_size ht"]) simp
    then show ?thesis using that l by (simp add: htable_stat_get_chain_len_def word_le_nat_alt)
  qed
  then have "those (map (\<lambda>i. htable_stat_get_chain_len ht (of_nat i)) [0..<unat (htable_get_size ht)]) =
      Some (map (\<lambda>i. of_nat (length (ht_table ht ! i))) [0..<length (ht_table ht)])"
    unfolding htable_get_size_def l by (intro those_map_Some) simp
  also have "map (\<lambda>i. of_nat (length (ht_table ht ! i))) [0..<length (ht_table ht)] =
      map (of_nat \<circ> length) (ht_table ht)"
    by (intro nth_equalityI) simp_all
  finally show ?thesis .
qed

lemma sum_chain_lens: "sum_list (map (of_nat \<circ> length) xss) = (of_nat (length (concat xss)) :: size_t)"
  by (induction xss) simp_all

text \<open>The test program returns on any strings without undefined behaviour, hands only inserted
  strings to \<open>print_elm\<close>, no two of them equal, prints chain lengths that add up to their number,
  and leaves the heap as it found it.\<close>

theorem test1_main_correct:
  assumes "heap_ok h"
  shows "\<exists>res h'. test1_main m strs h = Some (res, h') \<and>
    mset (hp_live h') = mset (hp_live h) \<and> hp_bad h' = hp_bad h \<and>
    (\<forall>out lens grows. res = Some (out, lens, grows) \<longrightarrow> set out \<subseteq> Some ` set strs \<and>
       distinct (map (\<lambda>d. cstr m (the d)) out) \<and> sum_list lens = of_nat (length out))"
proof -
  have "(5::nat) \<le> 43" by simp
  from this assms show ?thesis
  proof (cases rule: init_ok [where factor = 2 and hf = myhashf_t and cf = mystrcmp and pf = myprintf and kv = cstr and m = m])
    case (nomem h')
    then show ?thesis by (intro exI [of _ None]) (simp add: test1_main_def)
  next
    case (table ht h1)
    have "strk.for_ht ht" using table by (simp add: strk.for_ht_def)
    from insert_all_ok [OF table(2) this table(3), of strs] obtain ht2 h2 where
      i: "insert_all m strs ht h1 = Some (ht2, h2)" "ht_step cstr m ht h1 ht2 h2"
        "\<forall>n\<in>set (ht_nodes ht2). hn_key n \<in> set strs \<and> hn_data n = Some (hn_key n)"
      using table(5) by auto
    have inv: "ht_inv cstr m ht2" "ht_heap ht2 h2" using i(2) by (simp_all add: ht_step_def)
    obtain k where k: "ht_log ht2 k" using ht_invD(1) [OF inv(1)] by blast
    have "fold (\<lambda>n acc. acc @ [hn_data n]) ns xs = xs @ map hn_data ns" for ns :: "hnode list" and xs
      by (induction ns arbitrary: xs) simp_all
    then have t: "htable_traverse ht2 (\<lambda>d acc. acc @ [d]) [] = Some (map hn_data (ht_nodes ht2))"
      by (simp add: htable_traverse_def ht_chains_log [OF k] ht_nodes_def)
    from htable_free_ok [OF inv] obtain h3 where
      f: "htable_free ht2 h2 = Some h3" "hp_bad h3 = hp_bad h2"
        "mset (hp_live h3) = mset (hp_live h2) - mset (ht_owned ht2)" by blast
    have "mset (hp_live h2) + mset (ht_owned ht) = mset (hp_live h) + mset (ht_owned ht) + mset (ht_owned ht2)"
      using i(2) table(10) by (simp add: ht_step_def ht_balance_def)
    then have "mset (hp_live h2) = mset (hp_live h) + mset (ht_owned ht2)" by (simp add: ac_simps)
    then have "mset (hp_live h3) = mset (hp_live h)" using f(3) by simp
    moreover have "hp_bad h3 = hp_bad h" using f(2) i(2) table(11) by (simp add: ht_step_def ht_balance_def)
    moreover have "test1_main m strs h = Some (Some (map hn_data (ht_nodes ht2),
        map (of_nat \<circ> length) (ht_table ht2), htable_stat_get_grows ht2), h3)"
      using table(1) i(1) t f(1) chain_lens_ok [OF k] by (simp add: test1_main_def)
    moreover have "set (map hn_data (ht_nodes ht2)) \<subseteq> Some ` set strs" using i(3) by auto
    moreover have "map (\<lambda>d. cstr m (the d)) (map hn_data (ht_nodes ht2)) = map (\<lambda>n. cstr m (hn_key n)) (ht_nodes ht2)"
      using i(3) by auto
    then have "distinct (map (\<lambda>d. cstr m (the d)) (map hn_data (ht_nodes ht2)))"
      using ht_invD(3) [OF inv(1)] by (simp only:)
    moreover have "sum_list (map (of_nat \<circ> length) (ht_table ht2)) = (of_nat (length (map hn_data (ht_nodes ht2))) :: size_t)"
      by (simp only: sum_chain_lens ht_nodes_def length_map)
    ultimately show ?thesis by (intro exI conjI) (assumption | simp del: map_map)+
  qed
qed

lemma test1_main_correct_witness:
  "\<exists>res h'. test1_main ex_mem [10, 20, 30] ex_h = Some (res, h') \<and> length (hp_live h') = 3"
  using test1_main_correct [OF ex_ht_heap(2), of ex_mem "[10, 20, 30]"]
    mset_eq_length [of _ "hp_live ex_h"] by (fastforce simp: ex_h_def)

section \<open>The random strings of test1.c\<close>

definition get_rand_string :: "nat \<Rightarrow> nat list \<Rightarrow> nat \<Rightarrow> 8 word list \<times> nat list" where
  \<comment> \<open>The bytes written, and the numbers that \<open>rand\<close> has yet to give. \<open>rmax\<close> is \<open>RAND_MAX\<close>.\<close>
  "get_rand_string rmax rs len =
     (map (\<lambda>r. of_nat (65 + 32 + r div (rmax div 26 + 1))) (take len rs) @ [0], drop len rs)"

fun rand_strings :: "nat \<Rightarrow> nat list \<Rightarrow> addr list \<Rightarrow> bytes_mem \<Rightarrow> bytes_mem" where
  \<comment> \<open>The loop that fills the rows of \<open>str\<close> at the given addresses.\<close>
  "rand_strings rmax rs [] m = m"
| "rand_strings rmax rs (a # as) m =
     (let (bs, rs') = get_rand_string rmax rs 10 in rand_strings rmax rs' as (m(a := bs)))"

definition test1_prog ::
  "nat \<Rightarrow> addr \<Rightarrow> nat list \<Rightarrow> bytes_mem \<Rightarrow> cheap \<Rightarrow>
   ((addr option list \<times> size_t list \<times> size_t) option \<times> cheap) option" where
  \<comment> \<open>All of \<open>main\<close>; \<open>str\<close> is the address of the array, \<open>rs\<close> what \<open>rand\<close> returns after \<open>srand\<close>.\<close>
  "test1_prog rmax str rs m h =
     (let strs = map (\<lambda>i. str + i * 11) [0..<20] in test1_main (rand_strings rmax rs strs m) strs h)"

definition letters :: "8 word list \<Rightarrow> bool" where
  "letters bs \<longleftrightarrow> length bs = 10 \<and> (\<forall>b\<in>set bs. 97 \<le> b \<and> b \<le> 122)"

lemma rand_letter:
  assumes "r \<le> rmax"
  shows "97 \<le> (of_nat (65 + 32 + r div (rmax div 26 + 1)) :: 8 word) \<and> (of_nat (65 + 32 + r div (rmax div 26 + 1)) :: 8 word) \<le> 122"
proof -
  have "26 * (rmax div 26) + rmax mod 26 = rmax" "rmax mod 26 < 26" by simp_all
  then have "r < 26 * (rmax div 26 + 1)" using assms unfolding distrib_left mult_1_right by linarith
  then have q: "r div (rmax div 26 + 1) < 26" by (rule less_mult_imp_div_less)
  then have "unat (of_nat (65 + 32 + r div (rmax div 26 + 1)) :: 8 word) = 97 + r div (rmax div 26 + 1)"
    by (simp add: unat_of_nat del: of_nat_add)
  with q show ?thesis by (simp only: word_le_nat_alt) simp
qed

lemma rand_strings_other: "a \<notin> set as \<Longrightarrow> rand_strings rmax rs as m a = m a"
  by (induction as arbitrary: rs m) (simp_all add: get_rand_string_def)

lemma rand_strings_letters:
  "\<forall>r\<in>set rs. r \<le> rmax \<Longrightarrow> length rs = 10 * length as \<Longrightarrow> distinct as \<Longrightarrow> a \<in> set as \<Longrightarrow> letters (cstr (rand_strings rmax rs as m) a)"
proof (induction as arbitrary: rs m)
  case (Cons b as)
  let ?bs = "map (\<lambda>r. of_nat (65 + 32 + r div (rmax div 26 + 1)) :: 8 word) (take 10 rs)"
  have run: "rand_strings rmax rs (b # as) m = rand_strings rmax (drop 10 rs) as (m(b := ?bs @ [0]))"
    by (simp add: get_rand_string_def)
  show ?case
  proof (cases "a = b")
    case True
    then have m: "rand_strings rmax rs (b # as) m a = ?bs @ [0]" using Cons.prems(3) unfolding run by (simp add: rand_strings_other)
    have l: "\<forall>c\<in>set ?bs. 97 \<le> c \<and> c \<le> 122" using Cons.prems(1) rand_letter by (auto dest: in_set_takeD simp del: of_nat_add)
    then have "\<forall>c\<in>set ?bs. c \<noteq> 0" by force
    then have "cstr (rand_strings rmax rs (b # as) m) a = ?bs" unfolding cstr_def m by (subst takeWhile_append2) auto
    then show ?thesis using l Cons.prems(2) by (simp add: letters_def)
  next
    case False
    show ?thesis unfolding run
      by (rule Cons.IH) (use Cons.prems False in \<open>auto dest: in_set_dropD\<close>)
  qed
qed simp

text \<open>The whole program: each string that is printed has ten letters between a and z, whatever \<open>rand\<close> returns.\<close>

theorem test1_prog_correct:
  assumes h: "heap_ok h" and rs: "length rs = 200" "\<forall>r\<in>set rs. r \<le> rmax"
  shows "\<exists>res h'. test1_prog rmax str rs m h = Some (res, h') \<and>
    mset (hp_live h') = mset (hp_live h) \<and> hp_bad h' = hp_bad h \<and>
    (\<forall>out lens grows. res = Some (out, lens, grows) \<longrightarrow> sum_list lens = of_nat (length out) \<and> length out \<le> 20 \<and>
       (\<forall>d\<in>set out. \<exists>a. d = Some a \<and> letters (cstr (rand_strings rmax rs (map (\<lambda>i. str + i * 11) [0..<20]) m) a)))"
proof -
  let ?as = "map (\<lambda>i. str + i * 11) [0..<20]"
  let ?m = "rand_strings rmax rs ?as m"
  have d: "distinct ?as" by (simp add: distinct_map inj_on_def)
  have len: "length rs = 10 * length ?as" using rs(1) by simp
  have L: "letters (cstr ?m a)" if "a \<in> set ?as" for a by (rule rand_strings_letters [OF rs(2) len d that])
  from test1_main_correct [OF h, of ?m ?as] obtain res h' where
    r: "test1_main ?m ?as h = Some (res, h')" "mset (hp_live h') = mset (hp_live h)" "hp_bad h' = hp_bad h"
    "\<And>out lens grows. res = Some (out, lens, grows) \<Longrightarrow> set out \<subseteq> Some ` set ?as \<and>
       distinct (map (\<lambda>d. cstr ?m (the d)) out) \<and> sum_list lens = of_nat (length out)" by blast
  have "length out \<le> 20" if "set out \<subseteq> Some ` set ?as" "distinct (map (\<lambda>d. cstr ?m (the d)) out)" for out
  proof -
    have "length out = card (set out)" using that(2) by (simp add: distinct_map distinct_card)
    also have "\<dots> \<le> card (Some ` set ?as)" using that(1) by (intro card_mono) simp_all
    also have "\<dots> \<le> length ?as" by (meson card_image_le card_length finite_set le_trans)
    finally show ?thesis by simp
  qed
  then have "sum_list lens = of_nat (length out) \<and> length out \<le> 20 \<and> (\<forall>d\<in>set out. \<exists>a. d = Some a \<and> letters (cstr ?m a))"
    if "res = Some (out, lens, grows)" for out lens grows
    using r(4) [OF that] L by blast
  then show ?thesis using r(1-3) by (intro exI [of _ res] exI [of _ h']) (simp add: test1_prog_def Let_def)
qed

end
