(* ===== verification/Htable_Trace.thy ===== *)
theory Htable_Trace imports Htable_Props begin

text \<open>
  Whole lives of a hash table: a client makes one with \<open>htable_init\<close>, calls its operations in any order and gives it
  back with \<open>htable_free\<close>. The replies are those of a finite map, whatever \<open>malloc\<close> refuses on the way.
\<close>

section \<open>Clients\<close>

datatype ht_call = C_insert addr "addr option" | C_remove addr | C_search addr | C_used

datatype ht_reply = R_ret htret_t | R_data "addr option" | R_used size_t

fun ht_do :: "'m \<Rightarrow> ht_call \<Rightarrow> 'm htable \<Rightarrow> cheap \<Rightarrow> ((ht_reply \<times> 'm htable) \<times> cheap) option" where
  "ht_do m (C_insert key data) ht h =
     do { ((r, ht'), h') \<leftarrow> htable_insert m ht key data h; Some ((R_ret r, ht'), h') }"
| "ht_do m (C_remove key) ht h =
     do { ((r, ht'), h') \<leftarrow> htable_remove m ht key h; Some ((R_ret r, ht'), h') }"
| "ht_do m (C_search key) ht h = do { d \<leftarrow> htable_search m ht key; Some ((R_data d, ht), h) }"
| "ht_do m C_used ht h = Some ((R_used (htable_get_used ht), ht), h)"

fun ht_replies :: "'m \<Rightarrow> ht_call list \<Rightarrow> 'm htable \<Rightarrow> cheap \<Rightarrow> ((ht_reply list \<times> 'm htable) \<times> cheap) option" where
  "ht_replies m [] ht h = Some (([], ht), h)"
| "ht_replies m (c # cs) ht h =
     do { ((r, ht1), h1) \<leftarrow> ht_do m c ht h;
          ((rs, ht2), h2) \<leftarrow> ht_replies m cs ht1 h1;
          Some ((r # rs, ht2), h2) }"

definition ht_session ::
  "'m \<Rightarrow> nat \<Rightarrow> size_t \<Rightarrow> ('m \<Rightarrow> addr \<Rightarrow> size_t) \<Rightarrow> ('m \<Rightarrow> addr \<Rightarrow> addr \<Rightarrow> int) \<Rightarrow>
   ('m \<Rightarrow> addr \<Rightarrow> addr option \<Rightarrow> string option) \<Rightarrow> ht_call list \<Rightarrow> cheap \<Rightarrow> (ht_reply list option \<times> cheap) option" where
  \<comment> \<open>The table is made with \<open>2 ^ k\<close> buckets; \<open>None\<close> in the result: it could not be made.\<close>
  "ht_session m k factor hf cf pf cs h =
     do { ((_, r), h1) \<leftarrow> htable_init (2 ^ k) factor hf cf pf h;
          case r of
            None \<Rightarrow> Some (None, h1)
          | Some ht \<Rightarrow> do { ((rs, ht'), h2) \<leftarrow> ht_replies m cs ht h1;
                            h3 \<leftarrow> htable_free ht' h2;
                            Some (Some rs, h3) } }"

section \<open>The finite map\<close>

definition map_reply :: "(addr \<Rightarrow> 'k) \<Rightarrow> ht_call \<Rightarrow> ht_reply \<Rightarrow> ('k \<rightharpoonup> addr option) \<Rightarrow> ('k \<rightharpoonup> addr option) \<Rightarrow> bool" where
  \<comment> \<open>The replies a finite map may give, and the map afterwards: only an insertion may be refused.\<close>
  "map_reply key c r f f' =
     (case c of
        C_insert a d \<Rightarrow>
          key a \<in> dom f \<and> r = R_ret HT_EXISTS \<and> f' = f \<or>
          key a \<notin> dom f \<and> r = R_ret HT_NOMEM \<and> f' = f \<or>
          key a \<notin> dom f \<and> r = R_ret HT_OK \<and> f' = f(key a \<mapsto> d)
      | C_remove a \<Rightarrow> r = R_ret (if key a \<in> dom f then HT_OK else HT_NOTFOUND) \<and> f' = f(key a := None)
      | C_search a \<Rightarrow> r = R_data (case f (key a) of None \<Rightarrow> None | Some d \<Rightarrow> d) \<and> f' = f
      | C_used \<Rightarrow> r = R_used (of_nat (card (dom f))) \<and> f' = f)"

inductive map_replies :: "(addr \<Rightarrow> 'k) \<Rightarrow> ht_call list \<Rightarrow> ht_reply list \<Rightarrow> ('k \<rightharpoonup> addr option) \<Rightarrow> ('k \<rightharpoonup> addr option) \<Rightarrow> bool"
  for key where
  none: "map_replies key [] [] f f"
| call: "map_reply key c r f f' \<Longrightarrow> map_replies key cs rs f' f'' \<Longrightarrow> map_replies key (c # cs) (r # rs) f f''"

section \<open>Refinement\<close>

lemma ht_used_card: "ht_inv kv m ht \<Longrightarrow> ht_used ht = of_nat (card (dom (ht_map kv m ht)))"
proof -
  assume inv: "ht_inv kv m ht"
  have "dom (ht_map kv m ht) = fst ` set (ht_pairs kv m ht)" by (simp add: ht_map_def dom_map_of_conv_image_fst)
  then have "card (dom (ht_map kv m ht)) = length (ht_pairs kv m ht)"
    using distinct_card [OF ht_invD(6) [OF inv]] by simp
  then show ?thesis using ht_invD(5) [OF inv] by (simp add: ht_pairs_def)
qed

context ht_keys
begin

lemma reply_ok:
  assumes inv: "ht_inv kv m ht" and f: "for_ht ht" and hp: "ht_heap ht h"
  shows "\<exists>r ht' h'. ht_do m c ht h = Some ((r, ht'), h') \<and> ht_step kv m ht h ht' h' \<and> for_ht ht' \<and>
    map_reply (kv m) c r (ht_map kv m ht) (ht_map kv m ht')"
proof (cases c)
  case (C_insert a d)
  show ?thesis using insert_ok [OF inv f hp, of a d] by (auto simp: C_insert map_reply_def)
next
  case (C_remove a)
  from remove_ok [OF inv f hp, of a] obtain ret ht' h' where
    r: "htable_remove m ht a h = Some ((ret, ht'), h')" "ht_step kv m ht h ht' h'"
      "ht_map kv m ht' = (ht_map kv m ht)(kv m a := None)"
      "ret = (if kv m a \<in> dom (ht_map kv m ht) then HT_OK else HT_NOTFOUND)" by blast
  have "for_ht ht'" using for_same [OF f] r(2) by (simp add: ht_step_def)
  with r show ?thesis by (auto simp: C_remove map_reply_def)
next
  case (C_search a)
  have "ht_step kv m ht h ht h" using inv hp by (simp add: ht_step_def ht_balance_def)
  then show ?thesis using search_ok [OF inv f, of a] f by (simp add: C_search map_reply_def)
next
  case C_used
  have "ht_step kv m ht h ht h" using inv hp by (simp add: ht_step_def ht_balance_def)
  then show ?thesis using ht_used_card [OF inv] f by (simp add: C_used map_reply_def htable_get_used_def)
qed

lemma replies_ok:
  assumes "ht_inv kv m ht" "for_ht ht" "ht_heap ht h"
  shows "\<exists>rs ht' h'. ht_replies m cs ht h = Some ((rs, ht'), h') \<and> ht_step kv m ht h ht' h' \<and>
    map_replies (kv m) cs rs (ht_map kv m ht) (ht_map kv m ht')"
  using assms
proof (induction cs arbitrary: ht h)
  case Nil
  then show ?case by (auto simp: ht_step_def ht_balance_def intro: map_replies.none)
next
  case (Cons c cs)
  from reply_ok [OF Cons.prems, of c] obtain r ht1 h1 where
    r: "ht_do m c ht h = Some ((r, ht1), h1)" "ht_step kv m ht h ht1 h1" "for_ht ht1"
      "map_reply (kv m) c r (ht_map kv m ht) (ht_map kv m ht1)" by blast
  have "ht_inv kv m ht1" "ht_heap ht1 h1" using r(2) by (simp_all add: ht_step_def)
  from Cons.IH [OF this(1) r(3) this(2)] obtain rs ht2 h2 where
    "ht_replies m cs ht1 h1 = Some ((rs, ht2), h2)" "ht_step kv m ht1 h1 ht2 h2"
    "map_replies (kv m) cs rs (ht_map kv m ht1) (ht_map kv m ht2)" by blast
  with r show ?case by (auto intro: ht_step_trans map_replies.call)
qed

lemma session_ok:
  assumes "k \<le> 43" "heap_ok h"
  shows "\<exists>out h'. ht_session m k factor hashf cmpf pf cs h = Some (out, h') \<and> hp_bad h' = hp_bad h \<and>
    mset (hp_live h') = mset (hp_live h) \<and>
    (case out of None \<Rightarrow> True | Some rs \<Rightarrow> \<exists>f. map_replies (kv m) cs rs Map.empty f)"
  using assms
proof (cases rule: init_ok [where factor = factor and hf = hashf and cf = cmpf and pf = pf and kv = kv and m = m])
  case (nomem h')
  then show ?thesis by (simp add: ht_session_def)
next
  case (table ht h1)
  have f: "for_ht ht" using table by (simp add: for_ht_def)
  from replies_ok [OF table(2) f table(3), of cs] obtain rs ht' h2 where
    r: "ht_replies m cs ht h1 = Some ((rs, ht'), h2)" "ht_step kv m ht h1 ht' h2"
      "map_replies (kv m) cs rs Map.empty (ht_map kv m ht')" by (auto simp: table(4))
  then have inv: "ht_inv kv m ht'" "ht_heap ht' h2" and b: "ht_balance ht h1 ht' h2" by (simp_all add: ht_step_def)
  from htable_free_ok [OF inv] obtain h3 where
    h3: "htable_free ht' h2 = Some h3" "hp_bad h3 = hp_bad h2" "mset (hp_live h3) = mset (hp_live h2) - mset (ht_owned ht')" by blast
  have "mset (hp_live h2) + mset (ht_owned ht) = mset (hp_live h) + mset (ht_owned ht) + mset (ht_owned ht')"
    using b table(10) by (simp add: ht_balance_def)
  then have "mset (hp_live h2) = mset (hp_live h) + mset (ht_owned ht')" by (simp add: ac_simps)
  then have "mset (hp_live h3) = mset (hp_live h)" using h3(3) by simp
  moreover have "hp_bad h3 = hp_bad h" using h3(2) b table(11) by (simp add: ht_balance_def)
  ultimately show ?thesis using table(1) r h3(1) by (auto simp: ht_session_def)
qed

end

text \<open>C14: In every life of a table, from \<open>htable_init\<close> over any sequence of insertions, removals, searches and
  counts to \<open>htable_free\<close>, and whatever \<open>malloc\<close> refuses, no step is undefined, the replies are those of a finite
  map that starts empty, and all memory is given back.\<close>

theorem htable_session_map:
  assumes "ht_keys hf cf kv" "k \<le> 43" "heap_ok h"
  shows "\<exists>out h'. ht_session m k factor hf cf pf cs h = Some (out, h') \<and> hp_bad h' = hp_bad h \<and>
    mset (hp_live h') = mset (hp_live h) \<and>
    (case out of None \<Rightarrow> True | Some rs \<Rightarrow> \<exists>f. map_replies (kv m) cs rs Map.empty f)"
  by (rule ht_keys.session_ok [OF assms])

lemma htable_session_map_witness:
  "\<exists>out h'. ht_session ex_mem 0 1 myhashf_t mystrcmp myprintf [C_insert 10 (Some 10), C_insert 20 None, C_remove 30, C_used] ex_h =
     Some (out, h') \<and> mset (hp_live h') = mset [100, 200, 300]"
  using htable_session_map [OF strk.ht_keys_axioms _ ex_ht_heap(2), of 0 ex_mem 1 myprintf
      "[C_insert 10 (Some 10), C_insert 20 None, C_remove 30, C_used]"] by (auto simp: ex_h_def)

end
