(* ===== verification/Fsm.thy ===== *)
theory Fsm imports Htable begin

text \<open>
  The finite state machines of \<open>fsm/states.c\<close> and \<open>fsm/fsm.c\<close>: data and operations.

  States and events are objects on the C heap that the machine reaches by pointer: a state is
  shared by the table of states and by every event that leads to it. \<open>world\<close> holds the objects
  by address, the tables, the heap and what went to the standard output. Releasing memory removes
  the objects in it, so that following a dangling pointer is undefined, as is following NULL or
  the indeterminate \<open>cstate\<close> of a new machine: \<open>None\<close>. The keys are \<open>unsigned int\<close> cells; the
  address 0, which \<open>malloc\<close> never returns, stands for a parameter on the stack whose address is
  passed to the hash table. Actions are the client's code: \<open>exec f data w\<close> is the world after
  the action \<open>f\<close>.
\<close>

unbundle bit_operations_syntax

section \<open>Data\<close>

record event_t =
  evt_desc :: "8 word list"
  evt_actionf :: "nat option"
  evt_newstate :: "addr option"

record state_t =
  evttable :: addr
  st_key :: addr
  st_flag :: "8 word"

record fmem =
  fm_cell :: "addr \<Rightarrow> 32 word"
  fm_event :: "addr \<rightharpoonup> event_t"
  fm_state :: "addr \<rightharpoonup> state_t"

record world =
  w_mem :: fmem
  w_table :: "addr \<rightharpoonup> fmem htable"
  w_heap :: cheap
  w_out :: string

record pqnode =
  pq_addr :: addr
  pq_data :: addr
  pq_evtkey :: "32 word"
  pq_prio :: "32 word"

record fsm_t =
  f_addr :: addr
  f_sttable :: addr
  f_cstate :: "addr option"
  f_nqueues :: "32 word"
  f_mobj :: addr
  f_pqaddr :: addr
  f_pqtable :: "pqnode list list"

datatype stret_t = ST_OK | ST_EXISTS | ST_NOMEM | ST_NOTFOUND

datatype fsmret_t = FSM_CLEAN | FSM_DIRTY | FSM_EMPTY | FSM_EPRIO | FSM_EEXISTS | FSM_ENOMEM
  | FSM_ENOTFOUND | FSM_OK

definition MAX_EVT_DESC :: nat where "MAX_EVT_DESC = 64"
definition STATE_REACHABLE :: "8 word" where "STATE_REACHABLE = push_bit 0 1"

definition STATE_IS_REACHABLE :: "state_t \<Rightarrow> bool" where
  "STATE_IS_REACHABLE s \<longleftrightarrow> st_flag s AND STATE_REACHABLE \<noteq> 0"
definition STATE_MARK_AS_REACHABLE :: "state_t \<Rightarrow> state_t" where
  "STATE_MARK_AS_REACHABLE s = s\<lparr>st_flag := st_flag s OR STATE_REACHABLE\<rparr>"
definition STATE_MARK_AS_UNREACHABLE :: "state_t \<Rightarrow> state_t" where
  "STATE_MARK_AS_UNREACHABLE s = s\<lparr>st_flag := st_flag s AND NOT STATE_REACHABLE\<rparr>"

definition sizeof_state :: nat where "sizeof_state = 24"
definition sizeof_event :: nat where "sizeof_event = 80"
definition sizeof_htable :: nat where "sizeof_htable = 72"
definition sizeof_uint :: nat where "sizeof_uint = 4"
definition sizeof_fsm :: nat where "sizeof_fsm = 56"
definition sizeof_pqhead :: nat where "sizeof_pqhead = 16"
definition sizeof_pqnode :: nat where "sizeof_pqnode = 24"
definition sizeof_mutex :: nat where "sizeof_mutex = 40"

section \<open>Memory\<close>

definition w_set_heap :: "cheap \<Rightarrow> world \<Rightarrow> world" where
  \<comment> \<open>The world with the heap \<open>h\<close>: objects in released memory are gone.\<close>
  "w_set_heap h w =
     w\<lparr>w_heap := h, w_table := w_table w |` set (hp_live h),
       w_mem := (w_mem w)\<lparr>fm_event := fm_event (w_mem w) |` set (hp_live h),
                          fm_state := fm_state (w_mem w) |` set (hp_live h)\<rparr>\<rparr>"

definition w_malloc :: "nat \<Rightarrow> world \<Rightarrow> addr option \<times> world" where
  "w_malloc n w = (let (r, h) = malloc n (w_heap w) in (r, w\<lparr>w_heap := h\<rparr>))"

definition w_free :: "addr \<Rightarrow> world \<Rightarrow> world" where
  "w_free a w = w_set_heap (cfree (Some a) (w_heap w)) w"

definition put_cell :: "addr \<Rightarrow> 32 word \<Rightarrow> world \<Rightarrow> world" where
  "put_cell a v w = w\<lparr>w_mem := (w_mem w)\<lparr>fm_cell := (fm_cell (w_mem w))(a := v)\<rparr>\<rparr>"

definition put_state :: "addr \<Rightarrow> state_t \<Rightarrow> world \<Rightarrow> world" where
  "put_state a s w = w\<lparr>w_mem := (w_mem w)\<lparr>fm_state := (fm_state (w_mem w))(a \<mapsto> s)\<rparr>\<rparr>"

definition put_event :: "addr \<Rightarrow> event_t \<Rightarrow> world \<Rightarrow> world" where
  "put_event a e w = w\<lparr>w_mem := (w_mem w)\<lparr>fm_event := (fm_event (w_mem w))(a \<mapsto> e)\<rparr>\<rparr>"

definition put_table :: "addr \<Rightarrow> fmem htable \<Rightarrow> world \<Rightarrow> world" where
  "put_table a t w = w\<lparr>w_table := (w_table w)(a \<mapsto> t)\<rparr>"

definition on_stack :: "32 word \<Rightarrow> fmem \<Rightarrow> fmem" where
  \<comment> \<open>The memory with the parameter at address 0.\<close>
  "on_stack v m = m\<lparr>fm_cell := (fm_cell m)(0 := v)\<rparr>"

section \<open>The callbacks of the hash tables\<close>

definition state_hashf :: "fmem \<Rightarrow> addr \<Rightarrow> size_t" where
  "state_hashf m pkey = ucast (fm_cell m pkey)"

definition state_cmpf :: "fmem \<Rightarrow> addr \<Rightarrow> addr \<Rightarrow> int" where
  "state_cmpf m parg1 parg2 =
     (let a = fm_cell m parg1; b = fm_cell m parg2 in if a > b then -1 else if a = b then 0 else 1)"

definition fsm_hashf :: "fmem \<Rightarrow> addr \<Rightarrow> size_t" where
  "fsm_hashf m pkey = ucast (fm_cell m pkey)"

definition fsm_cmpf :: "fmem \<Rightarrow> addr \<Rightarrow> addr \<Rightarrow> int" where
  "fsm_cmpf m parg1 parg2 =
     (let a = fm_cell m parg1; b = fm_cell m parg2 in if a > b then -1 else if a = b then 0 else 1)"

fun show_nat :: "nat \<Rightarrow> string" where
  "show_nat n = (if n < 10 then [char_of (n + 48)] else show_nat (n div 10) @ [char_of (n mod 10 + 48)])"

declare show_nat.simps [simp del]

definition show_uint :: "32 word \<Rightarrow> string" where
  "show_uint v = show_nat (unat v)"

definition show_desc :: "8 word list \<Rightarrow> string option" where
  \<comment> \<open>\<open>%s\<close> of the array: undefined without a NUL in it.\<close>
  "show_desc d = (if 0 \<in> set d then Some (map (char_of \<circ> unat) (takeWhile (\<lambda>c. c \<noteq> 0) d)) else None)"

definition state_printf :: "fmem \<Rightarrow> addr \<Rightarrow> addr option \<Rightarrow> string option" where
  "state_printf m pkey pdata =
     do { a \<leftarrow> pdata; pevt \<leftarrow> fm_event m a;
          desc \<leftarrow> show_desc (evt_desc pevt);
          ns \<leftarrow> evt_newstate pevt; s \<leftarrow> fm_state m ns;
          Some (''evtkey: '' @ show_uint (fm_cell m pkey) @ [CHR 0x09] @ ''desc: '' @ desc @ [CHR 0x09] @
            ''newstate: '' @ show_uint (fm_cell m (st_key s))) }"

definition fsm_printf :: "fmem \<Rightarrow> addr \<Rightarrow> addr option \<Rightarrow> string option" where
  "fsm_printf m pkey pdata = Some (''key: '' @ show_uint (fm_cell m pkey) @ '' '')"

section \<open>States\<close>

definition state_init :: "8 word \<Rightarrow> size_t \<Rightarrow> 32 word \<Rightarrow> world \<Rightarrow> ((stret_t \<times> addr option) \<times> world) option" where
  \<comment> \<open>\<open>g\<close> is what the flag's byte holds when \<open>malloc\<close> returns it.\<close>
  "state_init g n factor w =
     (case w_malloc sizeof_state w of
        (None, w1) \<Rightarrow> Some ((ST_NOMEM, None), w1)
      | (Some ps, w1) \<Rightarrow>
          (case w_malloc sizeof_htable w1 of
             (None, w2) \<Rightarrow> Some ((ST_NOMEM, None), w_free ps w2)
           | (Some pt, w2) \<Rightarrow>
               do { ((_, r), h3) \<leftarrow> htable_init n (ucast factor) state_hashf state_cmpf state_printf (w_heap w2);
                    let w3 = w2\<lparr>w_heap := h3\<rparr>;
                    case r of
                      None \<Rightarrow> Some ((ST_NOMEM, None), w_free ps (w_free pt w3))
                    | Some t \<Rightarrow>
                        (case w_malloc sizeof_uint w3 of
                           (None, w4) \<Rightarrow> Some ((ST_NOMEM, None), w_free ps (w_free pt w4))
                         | (Some pk, w4) \<Rightarrow>
                             Some ((ST_OK, Some ps),
                               put_table pt t (put_state ps (STATE_MARK_AS_UNREACHABLE
                                 \<lparr>evttable = pt, st_key = pk, st_flag = g\<rparr>) w4))) }))"

definition strncpy :: "8 word list \<Rightarrow> nat \<Rightarrow> 8 word list" where
  \<comment> \<open>The \<open>n\<close> bytes written when the source string is \<open>s\<close>.\<close>
  "strncpy s n = take n s @ replicate (n - length s) 0"

definition state_add_evt ::
  "addr \<Rightarrow> 32 word \<Rightarrow> 8 word list \<Rightarrow> nat option \<Rightarrow> addr option \<Rightarrow> world \<Rightarrow> (stret_t \<times> world) option" where
  "state_add_evt pstate key pdesc pactionf pnewstate w =
     (case w_malloc sizeof_uint w of
        (None, w1) \<Rightarrow> Some (ST_NOMEM, w1)
      | (Some pkey, w1) \<Rightarrow>
          let w2 = put_cell pkey key w1 in
          case w_malloc sizeof_event w2 of
            (None, w3) \<Rightarrow> Some (ST_NOMEM, w_free pkey w3)
          | (Some pevt, w3) \<Rightarrow>
              let w4 = put_event pevt \<lparr>evt_desc = strncpy pdesc MAX_EVT_DESC, evt_actionf = pactionf,
                                       evt_newstate = pnewstate\<rparr> w3 in
              do { s \<leftarrow> fm_state (w_mem w4) pstate;
                   t \<leftarrow> w_table w4 (evttable s);
                   ((ret, t'), h) \<leftarrow> htable_insert (w_mem w4) t pkey (Some pevt) (w_heap w4);
                   let w5 = put_table (evttable s) t' (w4\<lparr>w_heap := h\<rparr>);
                   Some (if ret = HT_EXISTS then (ST_EXISTS, w_free pevt (w_free pkey w5)) else (ST_OK, w5)) })"

definition state_rem_evt :: "addr \<Rightarrow> 32 word \<Rightarrow> world \<Rightarrow> (stret_t \<times> world) option" where
  "state_rem_evt pstate key w =
     do { s \<leftarrow> fm_state (w_mem w) pstate;
          t \<leftarrow> w_table w (evttable s);
          ((ret, t'), h) \<leftarrow> htable_free_obj (on_stack key (w_mem w)) t 0 (HT_FREEKEY OR HT_FREEDATA) (w_heap w);
          Some (if ret = HT_NOTFOUND then ST_NOTFOUND else ST_OK,
                w_set_heap h (put_table (evttable s) t' w)) }"

definition state_get_key :: "addr \<Rightarrow> world \<Rightarrow> 32 word option" where
  "state_get_key pstate w = do { s \<leftarrow> fm_state (w_mem w) pstate; Some (fm_cell (w_mem w) (st_key s)) }"

definition state_free :: "addr \<Rightarrow> world \<Rightarrow> (stret_t \<times> world) option" where
  "state_free pstate w =
     do { s \<leftarrow> fm_state (w_mem w) pstate;
          t \<leftarrow> w_table w (evttable s);
          h1 \<leftarrow> htable_free_all_obj t (HT_FREEKEY OR HT_FREEDATA) (w_heap w);
          h2 \<leftarrow> htable_free t h1;
          Some (ST_OK, w_free pstate (w_free (evttable s) (w_set_heap h2 w))) }"

definition w_print :: "string \<Rightarrow> world \<Rightarrow> world" where
  "w_print s w = w\<lparr>w_out := w_out w @ s\<rparr>"

definition state_print_evts :: "addr \<Rightarrow> world \<Rightarrow> world option" where
  "state_print_evts pstate w =
     do { s \<leftarrow> fm_state (w_mem w) pstate;
          t \<leftarrow> w_table w (evttable s);
          out \<leftarrow> htable_print (w_mem w) t;
          Some (w_print out w) }"

section \<open>Machines\<close>

definition fsm_init :: "size_t \<Rightarrow> 32 word \<Rightarrow> 32 word \<Rightarrow> world \<Rightarrow> ((fsmret_t \<times> fsm_t option) \<times> world) option" where
  \<comment> \<open>When the mutex cannot be allocated, \<open>free\<close> is called on the null pointer just stored.\<close>
  "fsm_init n factor nqueues w =
     (case w_malloc sizeof_fsm w of
        (None, w1) \<Rightarrow> Some ((FSM_ENOMEM, None), w1)
      | (Some pf, w1) \<Rightarrow>
      (case w_malloc sizeof_htable w1 of
        (None, w2) \<Rightarrow> Some ((FSM_ENOMEM, None), w_free pf w2)
      | (Some pt, w2) \<Rightarrow>
      (case w_malloc (unat nqueues * sizeof_pqhead) w2 of
        (None, w3) \<Rightarrow> Some ((FSM_ENOMEM, None), w_free pf (w_free pt w3))
      | (Some pq, w3) \<Rightarrow>
      (case w_malloc sizeof_mutex w3 of
        (None, w4) \<Rightarrow> Some ((FSM_ENOMEM, None), w_free pf (w_free pt w4))
      | (Some mo, w4) \<Rightarrow>
          do { ((_, r), h5) \<leftarrow> htable_init n (ucast factor) fsm_hashf fsm_cmpf fsm_printf (w_heap w4);
               let w5 = w4\<lparr>w_heap := h5\<rparr>;
               case r of
                 None \<Rightarrow> Some ((FSM_ENOMEM, None), w_free pf (w_free pt (w_free pq w5)))
               | Some t \<Rightarrow>
                   Some ((FSM_OK, Some \<lparr>f_addr = pf, f_sttable = pt, f_cstate = None, f_nqueues = nqueues,
                     f_mobj = mo, f_pqaddr = pq, f_pqtable = replicate (unat nqueues) []\<rparr>),
                     put_table pt t w5) }))))"

definition fsm_add_state :: "fsm_t \<Rightarrow> 32 word \<Rightarrow> addr \<Rightarrow> world \<Rightarrow> (fsmret_t \<times> world) option" where
  "fsm_add_state f key pstate w =
     do { s \<leftarrow> fm_state (w_mem w) pstate;
          let w1 = put_cell (st_key s) key w;
          t \<leftarrow> w_table w1 (f_sttable f);
          ((ret, t'), h) \<leftarrow> htable_insert (w_mem w1) t (st_key s) (Some pstate) (w_heap w1);
          Some (if ret = HT_EXISTS then FSM_EEXISTS else FSM_OK,
                put_table (f_sttable f) t' (w1\<lparr>w_heap := h\<rparr>)) }"

fun fsm_free_states :: "hnode list \<Rightarrow> world \<Rightarrow> world option" where
  "fsm_free_states [] w = Some w"
| "fsm_free_states (n # ns) w =
     do { a \<leftarrow> hn_data n; (_, w') \<leftarrow> state_free a w; fsm_free_states ns w' }"

definition pq_release :: "pqnode \<Rightarrow> world \<Rightarrow> world" where
  "pq_release n w = w_free (pq_addr n) (w_free (pq_data n) w)"

definition fsm_free :: "fsm_t \<Rightarrow> world \<Rightarrow> (fsmret_t \<times> world) option" where
  "fsm_free f w =
     do { t \<leftarrow> w_table w (f_sttable f);
          ns \<leftarrow> ht_iterate t htable_iterator_init;
          w1 \<leftarrow> fsm_free_states ns w;
          h2 \<leftarrow> htable_free_all_obj t HT_FREEKEY (w_heap w1);
          h3 \<leftarrow> htable_free t h2;
          let w3 = w_free (f_sttable f) (w_set_heap h3 w1);
          let w4 = fold pq_release (concat (take (unat (f_nqueues f)) (f_pqtable f))) w3;
          Some (FSM_OK, w_free (f_addr f) (w_free (f_mobj f) (w_free (f_pqaddr f) w4))) }"

fun fsm_mark_events :: "addr \<Rightarrow> hnode list \<Rightarrow> world \<Rightarrow> world option" where
  \<comment> \<open>The inner loop: the events of the state \<open>pstate\<close>.\<close>
  "fsm_mark_events pstate [] w = Some w"
| "fsm_mark_events pstate (n # ns) w =
     do { pevt \<leftarrow> hn_data n;
          s \<leftarrow> fm_state (w_mem w) pstate;
          w' \<leftarrow> (if STATE_IS_REACHABLE s
                 then do { e \<leftarrow> fm_event (w_mem w) pevt;
                           a \<leftarrow> evt_newstate e;
                           s' \<leftarrow> fm_state (w_mem w) a;
                           Some (put_state a (STATE_MARK_AS_REACHABLE s') w) }
                 else Some w);
          fsm_mark_events pstate ns w' }"

fun fsm_mark_states :: "hnode list \<Rightarrow> world \<Rightarrow> world option" where
  "fsm_mark_states [] w = Some w"
| "fsm_mark_states (n # ns) w =
     do { pstate \<leftarrow> hn_data n;
          s \<leftarrow> fm_state (w_mem w) pstate;
          t \<leftarrow> w_table w (evttable s);
          es \<leftarrow> ht_iterate t htable_iterator_init;
          w' \<leftarrow> fsm_mark_events pstate es w;
          fsm_mark_states ns w' }"

definition fsm_mark_reachable_states :: "fsm_t \<Rightarrow> world \<Rightarrow> world option" where
  "fsm_mark_reachable_states f w =
     do { t \<leftarrow> w_table w (f_sttable f);
          ns \<leftarrow> ht_iterate t htable_iterator_init;
          fsm_mark_states ns w }"

definition fsm_set_state :: "fsm_t \<Rightarrow> 32 word \<Rightarrow> world \<Rightarrow> ((fsmret_t \<times> fsm_t) \<times> world) option" where
  "fsm_set_state f stkey w =
     do { t \<leftarrow> w_table w (f_sttable f);
          r \<leftarrow> htable_search (on_stack stkey (w_mem w)) t 0;
          case r of
            None \<Rightarrow> Some ((FSM_ENOTFOUND, f), w)
          | Some pstate \<Rightarrow> do {
              s \<leftarrow> fm_state (w_mem w) pstate;
              w' \<leftarrow> fsm_mark_reachable_states f (put_state pstate (STATE_MARK_AS_REACHABLE s) w);
              Some ((FSM_OK, f\<lparr>f_cstate := Some pstate\<rparr>), w') } }"

definition fsm_get_current_state :: "fsm_t \<Rightarrow> world \<Rightarrow> 32 word option" where
  "fsm_get_current_state f w =
     do { a \<leftarrow> f_cstate f; s \<leftarrow> fm_state (w_mem w) a; Some (fm_cell (w_mem w) (st_key s)) }"

section \<open>Events\<close>

text \<open>
  An action may change the machine (it may queue events) and the world. The lock around the
  queues has no effect on a run of one thread and is not part of the state.
\<close>

type_synonym exec_t = "nat \<Rightarrow> addr option \<Rightarrow> fsm_t \<Rightarrow> world \<Rightarrow> (fsm_t \<times> world) option"

definition fsm_process_event ::
  "exec_t \<Rightarrow> fsm_t \<Rightarrow> 32 word \<Rightarrow> addr option \<Rightarrow> world \<Rightarrow> ((fsmret_t \<times> fsm_t) \<times> world) option" where
  "fsm_process_event exec f evtkey data w =
     do { c \<leftarrow> f_cstate f;
          s \<leftarrow> fm_state (w_mem w) c;
          t \<leftarrow> w_table w (evttable s);
          r \<leftarrow> htable_search (on_stack evtkey (w_mem w)) t 0;
          case r of
            None \<Rightarrow> Some ((FSM_ENOTFOUND, f), w)
          | Some pevt \<Rightarrow> do {
              e \<leftarrow> fm_event (w_mem w) pevt;
              (f1, w1) \<leftarrow> (case evt_actionf e of None \<Rightarrow> Some (f, w) | Some a \<Rightarrow> exec a data f w);
              e1 \<leftarrow> fm_event (w_mem w1) pevt;
              case evt_newstate e1 of
                None \<Rightarrow> Some ((FSM_ENOTFOUND, f1), w1)
              | Some ns \<Rightarrow> do {
                  s1 \<leftarrow> fm_state (w_mem w1) ns;
                  t1 \<leftarrow> w_table w1 (f_sttable f1);
                  r1 \<leftarrow> htable_search (w_mem w1) t1 (st_key s1);
                  Some (if r1 = None then ((FSM_ENOTFOUND, f1), w1)
                        else ((FSM_OK, f1\<lparr>f_cstate := Some ns\<rparr>), w1)) } } }"

definition fsm_queue_event ::
  "fsm_t \<Rightarrow> 32 word \<Rightarrow> addr option \<Rightarrow> nat \<Rightarrow> 32 word \<Rightarrow> world \<Rightarrow> (fsmret_t \<times> fsm_t) \<times> world" where
  \<comment> \<open>The bytes that \<open>memcpy\<close> copies are not looked at by the library.\<close>
  "fsm_queue_event f evtkey pdata n prio w =
     (if prio \<ge> f_nqueues f then ((FSM_EPRIO, f), w)
      else case w_malloc sizeof_pqnode w of
        (None, w1) \<Rightarrow> ((FSM_ENOMEM, f), w1)
      | (Some pn, w1) \<Rightarrow>
          (case w_malloc n w1 of
             (None, w2) \<Rightarrow> ((FSM_ENOMEM, f), w_free pn w2)
           | (Some pd, w2) \<Rightarrow>
               let node = \<lparr>pq_addr = pn, pq_data = pd, pq_evtkey = evtkey, pq_prio = prio\<rparr>;
                   i = unat prio in
               ((FSM_OK, f\<lparr>f_pqtable := (f_pqtable f)[i := f_pqtable f ! i @ [node]]\<rparr>), w2)))"

fun fsm_scan_queues :: "pqnode list list \<Rightarrow> nat \<Rightarrow> nat option option" where
  \<comment> \<open>\<open>do ... while (i-- != 0)\<close>: the first queue, from \<open>i\<close> downwards, that is not empty.\<close>
  "fsm_scan_queues tbl i =
     (if i < length tbl
      then if tbl ! i \<noteq> [] then Some (Some i)
           else case i of 0 \<Rightarrow> Some None | Suc j \<Rightarrow> fsm_scan_queues tbl j
      else None)"

declare fsm_scan_queues.simps [simp del]

definition fsm_dequeue_event ::
  "exec_t \<Rightarrow> fsm_t \<Rightarrow> world \<Rightarrow> ((fsmret_t \<times> fsm_t) \<times> world) option" where
  "fsm_dequeue_event exec f w =
     do { r \<leftarrow> fsm_scan_queues (f_pqtable f) (unat (f_nqueues f - 1));
          case r of
            None \<Rightarrow> Some ((FSM_EMPTY, f), w)
          | Some i \<Rightarrow>
              let pnode = hd (f_pqtable f ! i) in
              do { ((_, f1), w1) \<leftarrow> fsm_process_event exec f (pq_evtkey pnode) (Some (pq_data pnode)) w;
                   case f_pqtable f1 ! i of
                     [] \<Rightarrow> None
                   | pnode1 # rest \<Rightarrow>
                       Some ((FSM_OK, f1\<lparr>f_pqtable := (f_pqtable f1)[i := rest]\<rparr>), pq_release pnode1 w1) } }"

definition fsm_get_queued_events :: "fsm_t \<Rightarrow> size_t" where
  "fsm_get_queued_events f =
     fold (\<lambda>_ total. total + 1) (concat (take (unat (f_nqueues f)) (f_pqtable f))) 0"

definition fsm_validate :: "fsm_t \<Rightarrow> world \<Rightarrow> fsmret_t option" where
  "fsm_validate f w =
     do { t \<leftarrow> w_table w (f_sttable f);
          Some (if htable_get_used t = 0 then FSM_EMPTY else FSM_CLEAN) }"

section \<open>Output\<close>

text \<open>
  \<open>fsm_export_to_dot\<close> writes the braces to \<open>fp\<close> and the edges to the standard output; the
  definitions return the pair of both texts, which is one text when \<open>fp\<close> is \<open>stdout\<close>.
\<close>

fun dot_events :: "32 word \<Rightarrow> hnode list \<Rightarrow> fmem \<Rightarrow> string option" where
  "dot_events k [] m = Some []"
| "dot_events k (n # ns) m =
     do { pevt \<leftarrow> hn_data n; e \<leftarrow> fm_event m pevt; a \<leftarrow> evt_newstate e; s \<leftarrow> fm_state m a;
          rest \<leftarrow> dot_events k ns m;
          Some (''S'' @ show_uint k @ '' -> S'' @ show_uint (fm_cell m (st_key s)) @ '' [label='' @ [CHR 0x22] @
            ''E'' @ show_uint (fm_cell m (hn_key n)) @ [CHR 0x22] @ '']'' @ [CHR 0x0A] @ rest) }"

fun dot_states :: "hnode list \<Rightarrow> world \<Rightarrow> string option" where
  "dot_states [] w = Some []"
| "dot_states (n # ns) w =
     do { a \<leftarrow> hn_data n; s \<leftarrow> fm_state (w_mem w) a; t \<leftarrow> w_table w (evttable s);
          es \<leftarrow> ht_iterate t htable_iterator_init;
          out \<leftarrow> dot_events (fm_cell (w_mem w) (hn_key n)) es (w_mem w);
          rest \<leftarrow> dot_states ns w;
          Some (out @ rest) }"

definition fsm_export_to_dot :: "fsm_t \<Rightarrow> world \<Rightarrow> (string \<times> string) option" where
  "fsm_export_to_dot f w =
     do { t \<leftarrow> w_table w (f_sttable f);
          ns \<leftarrow> ht_iterate t htable_iterator_init;
          out \<leftarrow> dot_states ns w;
          Some (''digraph {'' @ [CHR 0x0A] @ ''}'' @ [CHR 0x0A], out) }"

fun print_states :: "hnode list \<Rightarrow> world \<Rightarrow> string \<Rightarrow> (string \<times> world) option" where
  \<comment> \<open>The text for \<open>fp\<close> is accumulated, the events go to the standard output.\<close>
  "print_states [] w fp = Some (fp, w)"
| "print_states (n # ns) w fp =
     do { a \<leftarrow> hn_data n; s \<leftarrow> fm_state (w_mem w) a;
          let line = ''state [key = '' @ show_uint (fm_cell (w_mem w) (st_key s)) @ '', reachable = '' @
            (if STATE_IS_REACHABLE s then ''T'' else ''F'') @ '']'' @ [CHR 0x0A];
          w' \<leftarrow> state_print_evts a w;
          print_states ns w' (fp @ line) }"

definition fsm_print_states :: "fsm_t \<Rightarrow> world \<Rightarrow> (string \<times> world) option" where
  "fsm_print_states f w =
     do { t \<leftarrow> w_table w (f_sttable f);
          ns \<leftarrow> ht_iterate t htable_iterator_init;
          print_states ns w [] }"

definition fsm_remove_unreachable_state :: "fsm_t \<Rightarrow> addr \<Rightarrow> world \<Rightarrow> world" where
  "fsm_remove_unreachable_state f pstate w = w"

fun minimize_states :: "fsm_t \<Rightarrow> hnode list \<Rightarrow> world \<Rightarrow> world option" where
  "minimize_states f [] w = Some w"
| "minimize_states f (n # ns) w =
     do { a \<leftarrow> hn_data n; s \<leftarrow> fm_state (w_mem w) a;
          minimize_states f ns
            (if \<not> STATE_IS_REACHABLE s then fsm_remove_unreachable_state f a w else w) }"

definition fsm_minimize :: "fsm_t \<Rightarrow> world \<Rightarrow> world option" where
  "fsm_minimize f w =
     do { t \<leftarrow> w_table w (f_sttable f);
          ns \<leftarrow> ht_iterate t htable_iterator_init;
          minimize_states f ns w }"

end
