(* ===== verification/Fsm_Inv.thy ===== *)
theory Fsm_Inv imports Fsm Htable_Ops Htable_Iter begin

text \<open>
  The callbacks of the state and event tables as an instance of \<open>ht_keys\<close>, well-formed worlds,
  and what lookups, iterations and the marking of states do in them.
\<close>

unbundle bit_operations_syntax

section \<open>Tables with integer keys\<close>

lemma fsm_callbacks: "fsm_hashf = state_hashf" "fsm_cmpf = state_cmpf"
  by (simp_all add: fun_eq_iff fsm_hashf_def state_hashf_def fsm_cmpf_def state_cmpf_def)

interpretation stk: ht_keys state_hashf state_cmpf fm_cell
  by unfold_locales (auto simp: state_cmpf_def state_hashf_def Let_def)

interpretation fsk: ht_keys fsm_hashf fsm_cmpf fm_cell
  unfolding fsm_callbacks by (rule stk.ht_keys_axioms)

definition tbl_ok :: "fmem \<Rightarrow> fmem htable \<Rightarrow> bool" where
  "tbl_ok m t \<longleftrightarrow> ht_inv fm_cell m t \<and> stk.for_ht t \<and> (\<forall>n\<in>set (ht_nodes t). hn_key n \<noteq> 0)"

lemma ht_inv_cong:
  assumes "\<And>n. n \<in> set (ht_nodes t) \<Longrightarrow> fm_cell m' (hn_key n) = fm_cell m (hn_key n)" "stk.for_ht t"
  shows "ht_inv fm_cell m' t = ht_inv fm_cell m t" "ht_map fm_cell m' t = ht_map fm_cell m t"
proof -
  have hash: "ht_hashf t m' (hn_key n) = ht_hashf t m (hn_key n)" if "n \<in> set (ht_nodes t)" for n
    using assms(1) [OF that] assms(2) by (simp add: stk.for_ht_def state_hashf_def)
  have "ht_placed m' t = ht_placed m t"
    unfolding ht_placed_def using hash unfolding ht_nodes_def set_concat_nth by metis
  moreover have "map (\<lambda>n. fm_cell m' (hn_key n)) (ht_nodes t) = map (\<lambda>n. fm_cell m (hn_key n)) (ht_nodes t)"
    using assms(1) by simp
  ultimately show "ht_inv fm_cell m' t = ht_inv fm_cell m t" by (simp only: ht_inv_def)
  show "ht_map fm_cell m' t = ht_map fm_cell m t"
    unfolding ht_map_def ht_pairs_def using assms(1) by (intro arg_cong [where f = map_of] map_cong) auto
qed

lemma stack_search:
  assumes "tbl_ok m t"
  shows "htable_search (on_stack k m) t 0 =
    Some (case ht_map fm_cell m t k of None \<Rightarrow> None | Some d \<Rightarrow> d)"
proof -
  have c: "fm_cell (on_stack k m) (hn_key n) = fm_cell m (hn_key n)" if "n \<in> set (ht_nodes t)" for n
    using assms that by (auto simp: tbl_ok_def on_stack_def)
  have f: "stk.for_ht t" using assms by (simp add: tbl_ok_def)
  note cong = ht_inv_cong [OF c f, simplified]
  have "ht_inv fm_cell (on_stack k m) t" using cong(1) assms by (simp add: tbl_ok_def)
  from stk.search_ok [OF this f, of 0] cong(2) show ?thesis by (simp add: on_stack_def)
qed

lemma heap_search:
  "tbl_ok m t \<Longrightarrow> htable_search m t a =
    Some (case ht_map fm_cell m t (fm_cell m a) of None \<Rightarrow> None | Some d \<Rightarrow> d)"
  unfolding tbl_ok_def by (rule stk.search_ok) blast+

lemma tbl_iterate:
  assumes "tbl_ok m t"
  obtains ns where "ht_iterate t htable_iterator_init = Some ns" "set ns \<subseteq> set (ht_nodes t)"
proof -
  obtain k where k: "ht_log t k" using assms ht_invD(1) [of fm_cell m t] by (auto simp: tbl_ok_def)
  have d: "distinct (map hn_addr (concat (ht_table t)))"
    using assms ht_invD(4) [of fm_cell m t] by (simp add: tbl_ok_def ht_nodes_def)
  have "0 < length (ht_table t)" using k by (simp add: ht_log_def)
  then have ne: "ht_table t \<noteq> []" by auto
  have "ht_table t = butlast (ht_table t) @ [last (ht_table t)]" using ne by simp
  then have "ht_nodes t = concat (butlast (ht_table t)) @ last (ht_table t)"
    unfolding ht_nodes_def by (metis concat.simps concat_append append_Nil2)
  moreover have "ht_visit t 0 = concat (butlast (ht_table t)) @ take 1 (last (ht_table t))"
    using ne by (simp add: ht_visit_def)
  ultimately have "set (ht_visit t 0) \<subseteq> set (ht_nodes t)" by (auto dest: in_set_takeD)
  with iterate_ok [OF k d] show thesis by (intro that) auto
qed

lemma tbl_map_node:
  "tbl_ok m t \<Longrightarrow> ht_map fm_cell m t k = Some d \<Longrightarrow>
    \<exists>n\<in>set (ht_nodes t). fm_cell m (hn_key n) = k \<and> hn_data n = d"
  using ht_map_iff [of fm_cell m t k d] by (auto simp: tbl_ok_def)

section \<open>Well-formed worlds\<close>

definition evts_ok :: "world \<Rightarrow> fmem htable \<Rightarrow> bool" where
  \<comment> \<open>Every entry of an event table is an event whose new state, if any, is a state.\<close>
  "evts_ok w t \<longleftrightarrow> (\<forall>n\<in>set (ht_nodes t). \<exists>a e. hn_data n = Some a \<and> fm_event (w_mem w) a = Some e \<and>
     (\<forall>b. evt_newstate e = Some b \<longrightarrow> b \<in> dom (fm_state (w_mem w))))"

definition world_ok :: "world \<Rightarrow> bool" where
  "world_ok w \<longleftrightarrow> (\<forall>a s. fm_state (w_mem w) a = Some s \<longrightarrow>
     (\<exists>t. w_table w (evttable s) = Some t \<and> tbl_ok (w_mem w) t \<and> evts_ok w t))"

definition st_map :: "fsm_t \<Rightarrow> world \<Rightarrow> 32 word \<rightharpoonup> addr option" where
  \<comment> \<open>The registered states by key.\<close>
  "st_map f w = (case w_table w (f_sttable f) of None \<Rightarrow> Map.empty | Some t \<Rightarrow> ht_map fm_cell (w_mem w) t)"

definition key_at :: "world \<Rightarrow> addr \<Rightarrow> 32 word option" where
  "key_at w a = map_option (\<lambda>s. fm_cell (w_mem w) (st_key s)) (fm_state (w_mem w) a)"

definition fsm_ok :: "fsm_t \<Rightarrow> world \<Rightarrow> bool" where
  "fsm_ok f w \<longleftrightarrow> world_ok w \<and>
     (\<exists>t. w_table w (f_sttable f) = Some t \<and> tbl_ok (w_mem w) t \<and>
        (\<forall>n\<in>set (ht_nodes t). \<exists>a s. hn_data n = Some a \<and> fm_state (w_mem w) a = Some s \<and> st_key s = hn_key n)) \<and>
     (\<forall>c. f_cstate f = Some c \<longrightarrow> (\<exists>k. key_at w c = Some k \<and> k \<in> dom (st_map f w))) \<and>
     length (f_pqtable f) = unat (f_nqueues f)"

definition evt_at :: "world \<Rightarrow> addr \<Rightarrow> 32 word \<Rightarrow> event_t option" where
  \<comment> \<open>The event with the given key of the state at an address.\<close>
  "evt_at w a k =
     do { s \<leftarrow> fm_state (w_mem w) a; t \<leftarrow> w_table w (evttable s);
          d \<leftarrow> ht_map fm_cell (w_mem w) t k; e \<leftarrow> d; fm_event (w_mem w) e }"

definition quiet :: "exec_t \<Rightarrow> bool" where
  \<comment> \<open>Actions that leave the machine, its objects and the heap alone.\<close>
  "quiet exec \<longleftrightarrow> (\<forall>a d f w. \<exists>out. exec a d f w = Some (f, w_print out w))"

lemma fsm_okD:
  assumes "fsm_ok f w"
  shows "world_ok w" "length (f_pqtable f) = unat (f_nqueues f)"
    "\<exists>t. w_table w (f_sttable f) = Some t \<and> tbl_ok (w_mem w) t \<and> st_map f w = ht_map fm_cell (w_mem w) t \<and>
       (\<forall>n\<in>set (ht_nodes t). \<exists>a s. hn_data n = Some a \<and> fm_state (w_mem w) a = Some s \<and> st_key s = hn_key n)"
    "\<And>c. f_cstate f = Some c \<Longrightarrow> \<exists>k. key_at w c = Some k \<and> k \<in> dom (st_map f w)"
  using assms by (auto simp: fsm_ok_def st_map_def)

lemma st_map_Some:
  assumes "fsm_ok f w" "st_map f w k = Some d"
  shows "\<exists>a s. d = Some a \<and> fm_state (w_mem w) a = Some s \<and> fm_cell (w_mem w) (st_key s) = k"
proof -
  from fsm_okD(3) [OF assms(1)] obtain t where t: "w_table w (f_sttable f) = Some t" "tbl_ok (w_mem w) t"
    "st_map f w = ht_map fm_cell (w_mem w) t"
    "\<forall>n\<in>set (ht_nodes t). \<exists>a s. hn_data n = Some a \<and> fm_state (w_mem w) a = Some s \<and> st_key s = hn_key n" by blast
  from tbl_map_node [OF t(2)] assms(2) t(3) obtain n where
    "n \<in> set (ht_nodes t)" "fm_cell (w_mem w) (hn_key n) = k" "hn_data n = d" by metis
  with t(4) show ?thesis by force
qed

lemma print_same [simp]:
  "w_mem (w_print out w) = w_mem w" "w_table (w_print out w) = w_table w" "w_heap (w_print out w) = w_heap w"
  by (simp_all add: w_print_def)

lemma print_ok [simp]: "world_ok (w_print out w) = world_ok w" "fsm_ok f (w_print out w) = fsm_ok f w"
  "st_map f (w_print out w) = st_map f w"
  by (simp_all add: world_ok_def fsm_ok_def st_map_def key_at_def evts_ok_def cong: option.case_cong)

section \<open>One event\<close>

lemma quiet_all: "quiet exec \<Longrightarrow> \<forall>act. \<exists>out. exec act data f w = Some (f, w_print out w)"
  by (simp add: quiet_def)

lemma process_at:
  assumes ok: "fsm_ok f w" and c: "f_cstate f = Some c"
    and q: "\<forall>act. \<exists>out. exec act data f w = Some (f, w_print out w)"
  shows "case evt_at w c k of
      None \<Rightarrow> fsm_process_event exec f k data w = Some ((FSM_ENOTFOUND, f), w)
    | Some e \<Rightarrow> (\<exists>out. (evt_actionf e = None \<longrightarrow> out = []) \<and>
        (\<forall>a. evt_actionf e = Some a \<longrightarrow> exec a data f w = Some (f, w_print out w)) \<and>
        fsm_process_event exec f k data w = Some
          ((case evt_newstate e of
              None \<Rightarrow> (FSM_ENOTFOUND, f)
            | Some b \<Rightarrow> if (\<exists>key. key_at w b = Some key \<and> key \<in> dom (st_map f w))
                then (FSM_OK, f\<lparr>f_cstate := Some b\<rparr>) else (FSM_ENOTFOUND, f)), w_print out w))"
proof -
  from fsm_okD(4) [OF ok c] obtain s where s: "fm_state (w_mem w) c = Some s" by (auto simp: key_at_def)
  with fsm_okD(1) [OF ok] obtain t where t: "w_table w (evttable s) = Some t" "tbl_ok (w_mem w) t" "evts_ok w t"
    by (auto simp: world_ok_def)
  from fsm_okD(3) [OF ok] obtain st where st: "w_table w (f_sttable f) = Some st" "tbl_ok (w_mem w) st"
    "st_map f w = ht_map fm_cell (w_mem w) st" by blast
  have at: "evt_at w c k = do { d \<leftarrow> ht_map fm_cell (w_mem w) t k; e \<leftarrow> d; fm_event (w_mem w) e }"
    by (simp add: evt_at_def s t)
  note search = stack_search [OF t(2), of k]
  show ?thesis
  proof (cases "ht_map fm_cell (w_mem w) t k")
    case None
    then show ?thesis using search by (simp add: at fsm_process_event_def c s t)
  next
    case (Some d)
    from tbl_map_node [OF t(2) Some] obtain n where n: "n \<in> set (ht_nodes t)" "hn_data n = d" by blast
    with t(3) obtain a e where e: "d = Some a" "fm_event (w_mem w) a = Some e"
      "\<And>b. evt_newstate e = Some b \<Longrightarrow> b \<in> dom (fm_state (w_mem w))" by (force simp: evts_ok_def)
    obtain out where out: "evt_actionf e = None \<Longrightarrow> out = []"
      "\<And>act. evt_actionf e = Some act \<Longrightarrow> exec act data f w = Some (f, w_print out w)"
    proof (cases "evt_actionf e")
      case None
      then show thesis by (intro that [of "[]"]) simp_all
    next
      case (Some act)
      with q obtain out where "exec act data f w = Some (f, w_print out w)" by blast
      with Some show thesis by (intro that [of out]) simp_all
    qed
    have run: "(case evt_actionf e of None \<Rightarrow> Some (f, w) | Some act \<Rightarrow> exec act data f w) = Some (f, w_print out w)"
      using out by (cases "evt_actionf e") (simp_all add: w_print_def)
    have run_all: "fsm_process_event exec f k data w = Some
          ((case evt_newstate e of
              None \<Rightarrow> (FSM_ENOTFOUND, f)
            | Some b \<Rightarrow> if (\<exists>key. key_at w b = Some key \<and> key \<in> dom (st_map f w))
                then (FSM_OK, f\<lparr>f_cstate := Some b\<rparr>) else (FSM_ENOTFOUND, f)), w_print out w)"
    proof (cases "evt_newstate e")
      case None
      then show ?thesis using search Some e run by (simp add: fsm_process_event_def c s t)
    next
      case new: (Some b)
      from e(3) [OF new] obtain sb where sb: "fm_state (w_mem w) b = Some sb" by blast
      note hs = heap_search [OF st(2), of "st_key sb"]
      have dom: "st_map f w key \<noteq> Some None" for key using st_map_Some [OF ok, of key None] by auto
      show ?thesis
        using search Some e run new sb st hs dom [of "fm_cell (w_mem w) (st_key sb)"]
        by (cases "st_map f w (fm_cell (w_mem w) (st_key sb))")
          (auto simp: fsm_process_event_def c s t key_at_def)
    qed
    have "evt_at w c k = Some e" using Some e by (simp add: at)
    then show ?thesis
      by (simp only: option.case) (intro exI [of _ out] conjI impI allI out run_all)
  qed
qed

lemma process_ok:
  assumes ok: "fsm_ok f w" and c: "f_cstate f = Some c"
    and q: "quiet exec"
  shows "case evt_at w c k of
      None \<Rightarrow> fsm_process_event exec f k data w = Some ((FSM_ENOTFOUND, f), w)
    | Some e \<Rightarrow> (\<exists>out. (evt_actionf e = None \<longrightarrow> out = []) \<and>
        (\<forall>a. evt_actionf e = Some a \<longrightarrow> exec a data f w = Some (f, w_print out w)) \<and>
        fsm_process_event exec f k data w = Some
          ((case evt_newstate e of
              None \<Rightarrow> (FSM_ENOTFOUND, f)
            | Some b \<Rightarrow> if (\<exists>key. key_at w b = Some key \<and> key \<in> dom (st_map f w))
                then (FSM_OK, f\<lparr>f_cstate := Some b\<rparr>) else (FSM_ENOTFOUND, f)), w_print out w))"
  using process_at [OF ok c, of exec data k] quiet_all [OF q, of data f w] by blast

section \<open>Marking\<close>

definition flags_only :: "world \<Rightarrow> world \<Rightarrow> bool" where
  \<comment> \<open>The worlds differ at most in flags that the second one has set.\<close>
  "flags_only w w' \<longleftrightarrow> w_table w' = w_table w \<and> w_heap w' = w_heap w \<and> w_out w' = w_out w \<and>
     fm_cell (w_mem w') = fm_cell (w_mem w) \<and> fm_event (w_mem w') = fm_event (w_mem w) \<and>
     dom (fm_state (w_mem w')) = dom (fm_state (w_mem w)) \<and>
     (\<forall>a s s'. fm_state (w_mem w) a = Some s \<longrightarrow> fm_state (w_mem w') a = Some s' \<longrightarrow>
        evttable s' = evttable s \<and> st_key s' = st_key s \<and>
        (STATE_IS_REACHABLE s \<longrightarrow> STATE_IS_REACHABLE s'))"

definition reach_set :: "world \<Rightarrow> addr set" where
  \<comment> \<open>The states whose flag is set.\<close>
  "reach_set w = {a. \<exists>s. fm_state (w_mem w) a = Some s \<and> STATE_IS_REACHABLE s}"

definition st_edge :: "world \<Rightarrow> addr \<Rightarrow> addr \<Rightarrow> bool" where
  \<comment> \<open>Some event of the state \<open>a\<close> leads to \<open>b\<close>.\<close>
  "st_edge w a b \<longleftrightarrow> (\<exists>s t n ev e. fm_state (w_mem w) a = Some s \<and> w_table w (evttable s) = Some t \<and>
     n \<in> set (ht_nodes t) \<and> hn_data n = Some ev \<and> fm_event (w_mem w) ev = Some e \<and> evt_newstate e = Some b)"

definition no_null :: "world \<Rightarrow> bool" where
  \<comment> \<open>No event in the table of a state has a NULL new state.\<close>
  "no_null w \<longleftrightarrow> (\<forall>a s t. fm_state (w_mem w) a = Some s \<longrightarrow> w_table w (evttable s) = Some t \<longrightarrow>
     (\<forall>n\<in>set (ht_nodes t). \<forall>ev e. hn_data n = Some ev \<longrightarrow> fm_event (w_mem w) ev = Some e \<longrightarrow> evt_newstate e \<noteq> None))"

lemma mark_reachable [simp]: "STATE_IS_REACHABLE (STATE_MARK_AS_REACHABLE s)"
  "evttable (STATE_MARK_AS_REACHABLE s) = evttable s" "st_key (STATE_MARK_AS_REACHABLE s) = st_key s"
proof -
  have "bit (st_flag s OR STATE_REACHABLE) 0" by (simp add: STATE_REACHABLE_def bit_simps)
  then have "bit ((st_flag s OR STATE_REACHABLE) AND STATE_REACHABLE) 0"
    by (simp add: STATE_REACHABLE_def bit_simps)
  then show "STATE_IS_REACHABLE (STATE_MARK_AS_REACHABLE s)"
    by (auto simp: STATE_IS_REACHABLE_def STATE_MARK_AS_REACHABLE_def)
qed (simp_all add: STATE_MARK_AS_REACHABLE_def)

lemma flags_only_refl [simp]: "flags_only w w"
  by (auto simp: flags_only_def)

lemma flags_only_trans:
  assumes "flags_only a b" "flags_only b c"
  shows "flags_only a c"
proof -
  have "evttable s' = evttable s \<and> st_key s' = st_key s \<and> (STATE_IS_REACHABLE s \<longrightarrow> STATE_IS_REACHABLE s')"
    if "fm_state (w_mem a) x = Some s" "fm_state (w_mem c) x = Some s'" for x s s'
  proof -
    have "x \<in> dom (fm_state (w_mem b))" using assms(1) that(1) by (auto simp: flags_only_def)
    then obtain sb where "fm_state (w_mem b) x = Some sb" by blast
    with assms that show ?thesis unfolding flags_only_def by metis
  qed
  then have all: "\<forall>x s s'. fm_state (w_mem a) x = Some s \<longrightarrow> fm_state (w_mem c) x = Some s' \<longrightarrow>
      evttable s' = evttable s \<and> st_key s' = st_key s \<and> (STATE_IS_REACHABLE s \<longrightarrow> STATE_IS_REACHABLE s')" by blast
  show ?thesis
    unfolding flags_only_def by (intro conjI all) (use assms in \<open>simp_all add: flags_only_def\<close>)
qed

lemma flags_only_mark:
  "fm_state (w_mem w) a = Some s \<Longrightarrow> flags_only w (put_state a (STATE_MARK_AS_REACHABLE s) w)"
  by (auto simp: flags_only_def put_state_def)

lemma flags_only_state:
  "flags_only w w' \<Longrightarrow> fm_state (w_mem w) a = Some s \<Longrightarrow>
    \<exists>s'. fm_state (w_mem w') a = Some s' \<and> evttable s' = evttable s \<and> st_key s' = st_key s"
  unfolding flags_only_def by (metis domD domI)

lemma flags_only_state_rev:
  "flags_only w w' \<Longrightarrow> fm_state (w_mem w') a = Some s' \<Longrightarrow>
    \<exists>s. fm_state (w_mem w) a = Some s \<and> evttable s' = evttable s \<and> st_key s' = st_key s"
  unfolding flags_only_def by (metis domD domI)

lemma flags_only_mem: "flags_only w w' \<Longrightarrow> fm_cell (w_mem w') = fm_cell (w_mem w) \<and>
    fm_event (w_mem w') = fm_event (w_mem w) \<and> w_table w' = w_table w \<and>
    dom (fm_state (w_mem w')) = dom (fm_state (w_mem w))"
  by (simp add: flags_only_def)

lemma tbl_ok_flags: "flags_only w w' \<Longrightarrow> tbl_ok (w_mem w') t = tbl_ok (w_mem w) t"
  using ht_inv_cong(1) [of t "w_mem w'" "w_mem w"] flags_only_mem [of w w'] by (auto simp: tbl_ok_def)

lemma world_ok_flags: "flags_only w w' \<Longrightarrow> world_ok w \<Longrightarrow> world_ok w'"
  unfolding world_ok_def evts_ok_def
  using flags_only_state_rev [of w w'] tbl_ok_flags [of w w'] flags_only_mem [of w w'] by metis

lemma no_null_flags: "flags_only w w' \<Longrightarrow> no_null w \<Longrightarrow> no_null w'"
  unfolding no_null_def using flags_only_state_rev [of w w'] flags_only_mem [of w w'] by metis

lemma edge_flags: "flags_only w w' \<Longrightarrow> st_edge w' a b = st_edge w a b"
proof -
  assume f: "flags_only w w'"
  note m = flags_only_mem [OF f]
  show ?thesis
  proof
    assume "st_edge w' a b"
    then obtain s t n ev e where e: "fm_state (w_mem w') a = Some s" "w_table w' (evttable s) = Some t"
      "n \<in> set (ht_nodes t)" "hn_data n = Some ev" "fm_event (w_mem w') ev = Some e" "evt_newstate e = Some b"
      unfolding st_edge_def by blast
    from flags_only_state_rev [OF f e(1)] obtain s0 where "fm_state (w_mem w) a = Some s0" "evttable s = evttable s0"
      by blast
    with e m show "st_edge w a b" unfolding st_edge_def by (intro exI [of _ s0] exI [of _ t] exI) auto
  next
    assume "st_edge w a b"
    then obtain s t n ev e where e: "fm_state (w_mem w) a = Some s" "w_table w (evttable s) = Some t"
      "n \<in> set (ht_nodes t)" "hn_data n = Some ev" "fm_event (w_mem w) ev = Some e" "evt_newstate e = Some b"
      unfolding st_edge_def by blast
    from flags_only_state [OF f e(1)] obtain s0 where "fm_state (w_mem w') a = Some s0" "evttable s0 = evttable s"
      by blast
    with e m show "st_edge w' a b" unfolding st_edge_def by (intro exI [of _ s0] exI [of _ t] exI) auto
  qed
qed

text \<open>Marking sets flags only, and only of states that are reachable from marked ones.\<close>

definition marks :: "world \<Rightarrow> world \<Rightarrow> bool" where
  "marks w w' \<longleftrightarrow> flags_only w w' \<and> (\<forall>b\<in>reach_set w'. \<exists>a\<in>reach_set w. (st_edge w)\<^sup>*\<^sup>* a b)"

lemma marks_refl [simp]: "marks w w"
  by (auto simp: marks_def)

lemma marks_trans:
  assumes "marks a b" "marks b c"
  shows "marks a c"
proof -
  have f: "flags_only a b" "flags_only b c" using assms by (simp_all add: marks_def)
  have e: "st_edge b = st_edge a" by (simp add: fun_eq_iff edge_flags [OF f(1)])
  have "\<exists>x\<in>reach_set a. (st_edge a)\<^sup>*\<^sup>* x y" if "y \<in> reach_set c" for y
    using assms that unfolding marks_def e by (meson rtranclp_trans)
  with flags_only_trans [OF f] show ?thesis by (simp add: marks_def)
qed

lemma marks_one:
  assumes a: "a \<in> reach_set w" and e: "st_edge w a b" and b: "fm_state (w_mem w) b = Some s"
  shows "marks w (put_state b (STATE_MARK_AS_REACHABLE s) w)"
proof -
  have "reach_set (put_state b (STATE_MARK_AS_REACHABLE s) w) = insert b (reach_set w)"
    by (auto simp: reach_set_def put_state_def split: if_splits)
  with a e flags_only_mark [OF b] show ?thesis by (auto simp: marks_def)
qed

lemma mark_events_ok:
  "world_ok w \<Longrightarrow> no_null w \<Longrightarrow> fm_state (w_mem w) p = Some s \<Longrightarrow> w_table w (evttable s) = Some t \<Longrightarrow>
    set ns \<subseteq> set (ht_nodes t) \<Longrightarrow> \<exists>w'. fsm_mark_events p ns w = Some w' \<and> marks w w'"
proof (induction ns arbitrary: w s)
  case (Cons n ns)
  note w = Cons.prems
  have n: "n \<in> set (ht_nodes t)" using w(5) by simp
  have "evts_ok w t" using w(1,3,4) by (fastforce simp: world_ok_def)
  then obtain ev e where e: "hn_data n = Some ev" "fm_event (w_mem w) ev = Some e"
    "\<forall>b. evt_newstate e = Some b \<longrightarrow> b \<in> dom (fm_state (w_mem w))" using n by (auto simp: evts_ok_def)
  show ?case
  proof (cases "STATE_IS_REACHABLE s")
    case False
    with Cons.IH [OF w(1-4)] w e show ?thesis by simp
  next
    case True
    have "evt_newstate e \<noteq> None" using w(2,3,4) n e(1,2) by (auto simp: no_null_def)
    then obtain b sb where b: "evt_newstate e = Some b" "fm_state (w_mem w) b = Some sb" using e(3) by blast
    let ?w = "put_state b (STATE_MARK_AS_REACHABLE sb) w"
    have "st_edge w p b" unfolding st_edge_def using w(3,4) n e b by blast
    moreover have "p \<in> reach_set w" using True w(3) by (simp add: reach_set_def)
    ultimately have m: "marks w ?w" using b(2) by (intro marks_one)
    then have f: "flags_only w ?w" by (simp add: marks_def)
    from flags_only_state [OF f w(3)] obtain s' where s': "fm_state (w_mem ?w) p = Some s'" "evttable s' = evttable s"
      by blast
    have "w_table ?w (evttable s') = Some t" using flags_only_mem [OF f] s'(2) w(4) by simp
    from Cons.IH [OF world_ok_flags [OF f w(1)] no_null_flags [OF f w(2)] s'(1) this] w(5) obtain w'
      where "fsm_mark_events p ns ?w = Some w'" "marks ?w w'" by auto
    with marks_trans [OF m] w(3) e b True show ?thesis by simp
  qed
qed simp

lemma mark_states_ok:
  "world_ok w \<Longrightarrow> no_null w \<Longrightarrow> (\<forall>n\<in>set ns. \<exists>a. hn_data n = Some a \<and> a \<in> dom (fm_state (w_mem w))) \<Longrightarrow>
    \<exists>w'. fsm_mark_states ns w = Some w' \<and> marks w w'"
proof (induction ns arbitrary: w)
  case (Cons n ns)
  note w = Cons.prems
  from w(3) obtain p s where p: "hn_data n = Some p" "fm_state (w_mem w) p = Some s" by auto
  with w(1) obtain t where t: "w_table w (evttable s) = Some t" "tbl_ok (w_mem w) t"
    by (fastforce simp: world_ok_def)
  from tbl_iterate [OF t(2)] obtain es where es: "ht_iterate t htable_iterator_init = Some es"
    "set es \<subseteq> set (ht_nodes t)" by blast
  from mark_events_ok [OF w(1,2) p(2) t(1) es(2)] obtain w1 where
    w1: "fsm_mark_events p es w = Some w1" "marks w w1" by blast
  then have f: "flags_only w w1" by (simp add: marks_def)
  from Cons.IH [OF world_ok_flags [OF f w(1)] no_null_flags [OF f w(2)]] w(3) flags_only_mem [OF f]
  obtain w' where "fsm_mark_states ns w1 = Some w'" "marks w1 w'" by auto
  with p t es w1 marks_trans [OF w1(2)] show ?case by simp
qed simp

lemma mark_ok:
  assumes "fsm_ok f w" "no_null w"
  shows "\<exists>w'. fsm_mark_reachable_states f w = Some w' \<and> marks w w'"
proof -
  from fsm_okD(3) [OF assms(1)] obtain t where t: "w_table w (f_sttable f) = Some t" "tbl_ok (w_mem w) t"
    "\<forall>n\<in>set (ht_nodes t). \<exists>a s. hn_data n = Some a \<and> fm_state (w_mem w) a = Some s \<and> st_key s = hn_key n" by blast
  from tbl_iterate [OF t(2)] obtain ns where ns: "ht_iterate t htable_iterator_init = Some ns"
    "set ns \<subseteq> set (ht_nodes t)" by blast
  from mark_states_ok [OF fsm_okD(1) [OF assms(1)] assms(2), of ns] ns t(1,3)
  show ?thesis by (fastforce simp: fsm_mark_reachable_states_def)
qed

lemma fsm_ok_flags:
  assumes ok: "fsm_ok f w" and fl: "flags_only w w'"
  shows "fsm_ok f w'" "st_map f w' = st_map f w"
proof -
  note m = flags_only_mem [OF fl]
  have map: "ht_map fm_cell (w_mem w') t = ht_map fm_cell (w_mem w) t" for t
    using m by (simp add: ht_map_def ht_pairs_def)
  then show sm: "st_map f w' = st_map f w" using m by (simp add: st_map_def cong: option.case_cong)
  from fsm_okD(3) [OF ok] obtain t where t: "w_table w (f_sttable f) = Some t" "tbl_ok (w_mem w) t"
    "\<forall>n\<in>set (ht_nodes t). \<exists>a s. hn_data n = Some a \<and> fm_state (w_mem w) a = Some s \<and> st_key s = hn_key n" by blast
  have nodes: "\<forall>n\<in>set (ht_nodes t). \<exists>a s. hn_data n = Some a \<and> fm_state (w_mem w') a = Some s \<and> st_key s = hn_key n"
    using t(3) flags_only_state [OF fl] by metis
  have "key_at w' c = key_at w c" for c
    using flags_only_state [OF fl, of c] flags_only_state_rev [OF fl, of c] m
    by (cases "fm_state (w_mem w) c"; cases "fm_state (w_mem w') c") (auto simp: key_at_def)
  then show "fsm_ok f w'"
    using ok t(1,2) nodes m world_ok_flags [OF fl] tbl_ok_flags [OF fl] sm by (auto simp: fsm_ok_def)
qed

end
