(* ===== verification/Fsm_Props.thy ===== *)
theory Fsm_Props imports Fsm_Inv begin

text \<open>
  What the state machine library promises, over the definitions of \<open>Fsm\<close>: the behaviour of
  one event on every branch, the invariant of runs, the marking of reachable states, the
  priority queues, and the outcome of insertions when memory runs out.
\<close>

unbundle bit_operations_syntax

section \<open>Runs of a machine\<close>

inductive fsm_step :: "exec_t \<Rightarrow> fsm_t \<times> world \<Rightarrow> fsm_t \<times> world \<Rightarrow> bool" for exec where
  set_state: "fsm_set_state f k w = Some ((r, f'), w') \<Longrightarrow> fsm_step exec (f, w) (f', w')"
| process: "fsm_process_event exec f k data w = Some ((r, f'), w') \<Longrightarrow> fsm_step exec (f, w) (f', w')"
| mark: "fsm_mark_reachable_states f w = Some w' \<Longrightarrow> fsm_step exec (f, w) (f, w')"

inductive fsm_reach :: "exec_t \<Rightarrow> fsm_t \<times> world \<Rightarrow> fsm_t \<times> world \<Rightarrow> bool" for exec where
  refl: "fsm_reach exec c c"
| step: "fsm_reach exec c d \<Longrightarrow> fsm_step exec d e \<Longrightarrow> fsm_reach exec c e"

inductive_cases fsm_stepE: "fsm_step exec (f, w) e"

lemma set_state_ok:
  assumes ok: "fsm_ok f w" and nn: "no_null w"
  shows "case st_map f w k of
      None \<Rightarrow> fsm_set_state f k w = Some ((FSM_ENOTFOUND, f), w)
    | Some d \<Rightarrow> (\<exists>a s w'. d = Some a \<and> fm_state (w_mem w) a = Some s \<and>
        fsm_set_state f k w = Some ((FSM_OK, f\<lparr>f_cstate := Some a\<rparr>), w') \<and>
        marks (put_state a (STATE_MARK_AS_REACHABLE s) w) w' \<and> flags_only w w' \<and> key_at w a = Some k)"
proof -
  from fsm_okD(3) [OF ok] obtain t where t: "w_table w (f_sttable f) = Some t" "tbl_ok (w_mem w) t"
    "st_map f w = ht_map fm_cell (w_mem w) t" by blast
  note search = stack_search [OF t(2), of k]
  show ?thesis
  proof (cases "st_map f w k")
    case None
    with search t show ?thesis by (simp add: fsm_set_state_def)
  next
    case (Some d)
    from st_map_Some [OF ok Some] obtain a s where a: "d = Some a" "fm_state (w_mem w) a = Some s"
      "fm_cell (w_mem w) (st_key s) = k" by blast
    let ?w = "put_state a (STATE_MARK_AS_REACHABLE s) w"
    have fl: "flags_only w ?w" by (rule flags_only_mark [OF a(2)])
    from mark_ok [OF fsm_ok_flags(1) [OF ok fl] no_null_flags [OF fl nn]] obtain w' where
      m: "fsm_mark_reachable_states f ?w = Some w'" "marks ?w w'" by blast
    have "flags_only w w'" using flags_only_trans [OF fl] m(2) by (simp add: marks_def)
    moreover have "fsm_set_state f k w = Some ((FSM_OK, f\<lparr>f_cstate := Some a\<rparr>), w')"
      using search t Some a m(1) by (simp add: fsm_set_state_def)
    ultimately show ?thesis using Some a m(2) by (simp add: key_at_def)
  qed
qed

lemma fsm_ok_cstate:
  "fsm_ok f w \<Longrightarrow> key_at w b = Some k \<Longrightarrow> k \<in> dom (st_map f w) \<Longrightarrow> fsm_ok (f\<lparr>f_cstate := Some b\<rparr>) w"
  by (auto simp: fsm_ok_def st_map_def)

lemma key_at_flags: "flags_only w w' \<Longrightarrow> key_at w' a = key_at w a"
proof -
  assume fl: "flags_only w w'"
  show ?thesis
    using flags_only_state [OF fl, of a] flags_only_state_rev [OF fl, of a] flags_only_mem [OF fl]
    by (cases "fm_state (w_mem w) a"; cases "fm_state (w_mem w') a") (auto simp: key_at_def)
qed

lemma no_null_print [simp]: "no_null (w_print out w) = no_null w"
  by (simp add: no_null_def)

lemma step_ok:
  assumes "fsm_step exec (f, w) (f', w')" "fsm_ok f w" "no_null w" "quiet exec"
  shows "fsm_ok f' w' \<and> no_null w' \<and> st_map f' w' = st_map f w"
  using assms(1)
proof (cases rule: fsm_step.cases)
  case (set_state k r)
  show ?thesis
  proof (cases "st_map f w k")
    case None
    with set_state_ok [OF assms(2,3), of k] set_state assms show ?thesis by simp
  next
    case (Some d)
    with set_state_ok [OF assms(2,3), of k] set_state obtain a where
      a: "f' = f\<lparr>f_cstate := Some a\<rparr>" "flags_only w w'" "key_at w a = Some k" by auto
    have "fsm_ok f w'" "st_map f w' = st_map f w" by (rule fsm_ok_flags [OF assms(2) a(2)])+
    then show ?thesis
      using a Some no_null_flags [OF a(2) assms(3)] key_at_flags [OF a(2)]
      by (auto intro!: fsm_ok_cstate) (auto simp: st_map_def)
  qed
next
  case (process k data r)
  show ?thesis
  proof (cases "f_cstate f")
    case None
    with process show ?thesis by (simp add: fsm_process_event_def)
  next
    case (Some c)
    note P = process_ok [OF assms(2) Some assms(4), of k data]
    show ?thesis
    proof (cases "evt_at w c k")
      case None
      with P process assms show ?thesis by simp
    next
      case e: (Some e)
      from P [unfolded e option.case] process obtain out where
        "(r, f') = (case evt_newstate e of None \<Rightarrow> (FSM_ENOTFOUND, f)
            | Some b \<Rightarrow> if (\<exists>key. key_at w b = Some key \<and> key \<in> dom (st_map f w))
                then (FSM_OK, f\<lparr>f_cstate := Some b\<rparr>) else (FSM_ENOTFOUND, f))" "w' = w_print out w" by auto
      moreover have "st_map (f\<lparr>f_cstate := x\<rparr>) w = st_map f w" for x by (simp add: st_map_def)
      ultimately show ?thesis
        using assms(2,3) fsm_ok_cstate [OF assms(2)] by (auto split: option.splits if_splits)
    qed
  qed
next
  case mark
  from mark_ok [OF assms(2,3)] mark have "flags_only w w'" by (auto simp: marks_def)
  with fsm_ok_flags [OF assms(2) this] no_null_flags [OF this assms(3)] mark show ?thesis by simp
qed

section \<open>A machine to apply the theorems to\<close>

definition ex_evtab :: "addr \<Rightarrow> addr \<Rightarrow> hnode list \<Rightarrow> fmem htable" where
  "ex_evtab a na ns = \<lparr>ht_grows = 0, ht_size = 1, ht_used = of_nat (length ns), ht_factor = 2, ht_limit = 2,
     ht_hashf = state_hashf, ht_cmpf = state_cmpf, ht_printf = state_printf, ht_tbladdr = a, ht_table = [ns]\<rparr>"

definition ex_sttab :: "fmem htable" where
  "ex_sttab = \<lparr>ht_grows = 0, ht_size = 4, ht_used = 3, ht_factor = 2, ht_limit = 8,
     ht_hashf = fsm_hashf, ht_cmpf = fsm_cmpf, ht_printf = fsm_printf, ht_tbladdr = 400,
     ht_table = [[], [\<lparr>hn_addr = 301, hn_key = 501, hn_data = Some 101\<rparr>],
       [\<lparr>hn_addr = 302, hn_key = 502, hn_data = Some 102\<rparr>], [\<lparr>hn_addr = 303, hn_key = 503, hn_data = Some 103\<rparr>]]\<rparr>"

definition ex_evt :: "addr \<Rightarrow> event_t" where
  "ex_evt b = \<lparr>evt_desc = replicate 64 0, evt_actionf = None, evt_newstate = Some b\<rparr>"

definition ex_world :: world where
  \<comment> \<open>Three states, \<open>S3 -E7-> S2 -E7-> S1\<close>.\<close>
  "ex_world = \<lparr>w_mem = \<lparr>
       fm_cell = (\<lambda>_. 0)(501 := 1, 502 := 2, 503 := 3, 512 := 7, 513 := 7),
       fm_event = [612 \<mapsto> ex_evt 101, 613 \<mapsto> ex_evt 102],
       fm_state = [101 \<mapsto> \<lparr>evttable = 201, st_key = 501, st_flag = 0\<rparr>,
         102 \<mapsto> \<lparr>evttable = 202, st_key = 502, st_flag = 0\<rparr>, 103 \<mapsto> \<lparr>evttable = 203, st_key = 503, st_flag = 0\<rparr>]\<rparr>,
     w_table = [200 \<mapsto> ex_sttab, 201 \<mapsto> ex_evtab 701 0 [],
       202 \<mapsto> ex_evtab 702 312 [\<lparr>hn_addr = 312, hn_key = 512, hn_data = Some 612\<rparr>],
       203 \<mapsto> ex_evtab 703 313 [\<lparr>hn_addr = 313, hn_key = 513, hn_data = Some 613\<rparr>]],
     w_heap = \<lparr>hp_next = 1000, hp_limit = 100000, hp_live = [], hp_sched = [], hp_bad = False\<rparr>, w_out = []\<rparr>"

definition ex_fsm :: fsm_t where
  "ex_fsm = \<lparr>f_addr = 90, f_sttable = 200, f_cstate = Some 103, f_nqueues = 2, f_mobj = 91, f_pqaddr = 92,
     f_pqtable = [[], [\<lparr>pq_addr = 95, pq_data = 96, pq_evtkey = 7, pq_prio = 1\<rparr>]]\<rparr>"

definition no_action :: exec_t where
  "no_action a d f w = Some (f, w)"

lemma no_action_quiet: "quiet no_action"
  by (auto simp: quiet_def no_action_def w_print_def intro: exI [of _ "[]"])

lemma ex_evtab_ok:
  assumes "length ns \<le> 1" "\<forall>n\<in>set ns. hn_key n \<noteq> 0 \<and> hn_addr n < 2 ^ 47"
  shows "tbl_ok m (ex_evtab a na ns)" "ht_nodes (ex_evtab a na ns) = ns"
proof -
  show n: "ht_nodes (ex_evtab a na ns) = ns" by (simp add: ht_nodes_def ex_evtab_def)
  have log: "ht_log (ex_evtab a na ns) 0" by (simp add: ht_log_def ex_evtab_def)
  have "ht_placed m (ex_evtab a na ns)"
    by (simp add: ht_placed_def ht_bucket_log [OF log]) (simp add: ex_evtab_def)
  moreover have "distinct (map hn_addr ns)" "distinct (map (\<lambda>n. fm_cell m (hn_key n)) ns)"
    using assms(1) by (cases ns; cases "tl ns"; simp)+
  moreover have "ht_used (ex_evtab a na ns) = of_nat (length ns)" by (simp add: ex_evtab_def)
  ultimately have "ht_inv fm_cell m (ex_evtab a na ns)"
    unfolding ht_inv_def n using log assms(2) by auto
  then show "tbl_ok m (ex_evtab a na ns)"
    using assms(2) by (simp add: tbl_ok_def n) (simp add: stk.for_ht_def ex_evtab_def)
qed

lemma ex_sttab_ok: "tbl_ok (w_mem ex_world) ex_sttab"
  "ht_nodes ex_sttab = [\<lparr>hn_addr = 301, hn_key = 501, hn_data = Some 101\<rparr>,
     \<lparr>hn_addr = 302, hn_key = 502, hn_data = Some 102\<rparr>, \<lparr>hn_addr = 303, hn_key = 503, hn_data = Some 103\<rparr>]"
proof -
  show n: "ht_nodes ex_sttab = [\<lparr>hn_addr = 301, hn_key = 501, hn_data = Some 101\<rparr>,
     \<lparr>hn_addr = 302, hn_key = 502, hn_data = Some 102\<rparr>, \<lparr>hn_addr = 303, hn_key = 503, hn_data = Some 103\<rparr>]"
    by (simp add: ht_nodes_def ex_sttab_def)
  have log: "ht_log ex_sttab 2" by (simp add: ht_log_def ex_sttab_def)
  have "ht_placed (w_mem ex_world) ex_sttab"
    unfolding ht_placed_def ht_bucket_log [OF log]
  proof (intro allI impI ballI)
    fix i n
    assume i: "i < length (ht_table ex_sttab)" and n: "n \<in> set (ht_table ex_sttab ! i)"
    have "i = 0 \<or> i = 1 \<or> i = 2 \<or> i = 3" using i by (simp add: ex_sttab_def) linarith
    with n show "unat (ht_hashf ex_sttab (w_mem ex_world) (hn_key n)) mod 2 ^ 2 = i"
      by (elim disjE) (simp_all add: ex_sttab_def fsm_hashf_def ex_world_def)
  qed
  then have "ht_inv fm_cell (w_mem ex_world) ex_sttab"
    unfolding ht_inv_def n using log by (auto simp: ex_world_def) (simp add: ex_sttab_def)
  then show "tbl_ok (w_mem ex_world) ex_sttab"
    by (simp add: tbl_ok_def n) (simp add: stk.for_ht_def ex_sttab_def fsm_callbacks)
qed

lemma ex_world_fields:
  "w_table ex_world 200 = Some ex_sttab"
  "w_table ex_world 201 = Some (ex_evtab 701 0 [])"
  "w_table ex_world 202 = Some (ex_evtab 702 312 [\<lparr>hn_addr = 312, hn_key = 512, hn_data = Some 612\<rparr>])"
  "w_table ex_world 203 = Some (ex_evtab 703 313 [\<lparr>hn_addr = 313, hn_key = 513, hn_data = Some 613\<rparr>])"
  "fm_state (w_mem ex_world) = [101 \<mapsto> \<lparr>evttable = 201, st_key = 501, st_flag = 0\<rparr>,
     102 \<mapsto> \<lparr>evttable = 202, st_key = 502, st_flag = 0\<rparr>, 103 \<mapsto> \<lparr>evttable = 203, st_key = 503, st_flag = 0\<rparr>]"
  "fm_event (w_mem ex_world) = [612 \<mapsto> ex_evt 101, 613 \<mapsto> ex_evt 102]"
  "fm_cell (w_mem ex_world) = (\<lambda>_. 0)(501 := 1, 502 := 2, 503 := 3, 512 := 7, 513 := 7)"
  by (simp_all add: ex_world_def)

lemma ex_world_ok: "world_ok ex_world" "no_null ex_world"
  unfolding world_ok_def no_null_def
  by (auto simp: ex_world_fields ex_evtab_ok evts_ok_def ex_evt_def split: if_splits)

lemma ex_st_map: "st_map ex_fsm ex_world = [1 \<mapsto> Some 101, 2 \<mapsto> Some 102, 3 \<mapsto> Some 103]"
  by (auto simp: st_map_def ex_fsm_def ex_world_fields(1) ht_map_def ht_pairs_def ex_sttab_ok(2))
    (auto simp: ex_world_fields)

lemma ex_fsm_ok: "fsm_ok ex_fsm ex_world"
  unfolding fsm_ok_def
proof (intro conjI)
  show "\<exists>t. w_table ex_world (f_sttable ex_fsm) = Some t \<and> tbl_ok (w_mem ex_world) t \<and>
      (\<forall>n\<in>set (ht_nodes t). \<exists>a s. hn_data n = Some a \<and> fm_state (w_mem ex_world) a = Some s \<and> st_key s = hn_key n)"
    by (intro exI [of _ ex_sttab]) (simp add: ex_sttab_ok ex_fsm_def ex_world_fields)
  show "\<forall>c. f_cstate ex_fsm = Some c \<longrightarrow> (\<exists>k. key_at ex_world c = Some k \<and> k \<in> dom (st_map ex_fsm ex_world))"
    unfolding ex_st_map by (simp add: ex_fsm_def key_at_def ex_world_fields)
qed (simp_all add: ex_world_ok ex_fsm_def)

lemma ex_iterate:
  "ht_iterate ex_sttab htable_iterator_init = Some (ht_nodes ex_sttab)"
  "length ns \<le> 1 \<Longrightarrow> ht_iterate (ex_evtab a na ns) htable_iterator_init = Some ns"
proof -
  have "ht_log ex_sttab 2" "distinct (map hn_addr (concat (ht_table ex_sttab)))"
    by (simp_all add: ht_log_def ex_sttab_def)
  from iterate_ok [OF this] show "ht_iterate ex_sttab htable_iterator_init = Some (ht_nodes ex_sttab)"
    by (simp add: ht_visit_def ex_sttab_ok) (simp add: ex_sttab_def)
  assume l: "length ns \<le> 1"
  have "distinct (map hn_addr ns)" using l by (cases ns; cases "tl ns"; simp)
  then have "ht_log (ex_evtab a na ns) 0" "distinct (map hn_addr (concat (ht_table (ex_evtab a na ns))))"
    by (simp_all add: ht_log_def ex_evtab_def)
  from iterate_ok [OF this] l show "ht_iterate (ex_evtab a na ns) htable_iterator_init = Some ns"
    by (simp add: ht_visit_def ex_evtab_def)
qed

lemma ex_evt_at: "evt_at ex_world 103 7 = Some (ex_evt 102)" "evt_at ex_world 103 8 = None"
  by (simp_all add: evt_at_def ex_world_fields ht_map_def ht_pairs_def ex_evtab_ok)

section \<open>Theorems\<close>

text \<open>C5: One event, on every branch: an event the current state does not know changes nothing and is
  \<open>FSM_ENOTFOUND\<close>; otherwise the action runs exactly once, and the machine moves to the event's
  new state if a state with its key is registered, and stays, with \<open>FSM_ENOTFOUND\<close>, if there is
  no new state or it is not registered.\<close>

theorem fsm_process_event_spec:
  assumes "fsm_ok f w" "f_cstate f = Some c" "quiet exec"
  shows "case evt_at w c k of
      None \<Rightarrow> fsm_process_event exec f k data w = Some ((FSM_ENOTFOUND, f), w)
    | Some e \<Rightarrow> (\<exists>out. (evt_actionf e = None \<longrightarrow> out = []) \<and>
        (\<forall>a. evt_actionf e = Some a \<longrightarrow> exec a data f w = Some (f, w_print out w)) \<and>
        fsm_process_event exec f k data w = Some
          ((case evt_newstate e of
              None \<Rightarrow> (FSM_ENOTFOUND, f)
            | Some b \<Rightarrow> if (\<exists>key. key_at w b = Some key \<and> key \<in> dom (st_map f w))
                then (FSM_OK, f\<lparr>f_cstate := Some b\<rparr>) else (FSM_ENOTFOUND, f)), w_print out w))"
  by (rule process_ok [OF assms])

lemma fsm_process_event_spec_witness:
  "fsm_process_event no_action ex_fsm 7 None ex_world = Some ((FSM_OK, ex_fsm\<lparr>f_cstate := Some 102\<rparr>), ex_world) \<and>
   fsm_process_event no_action ex_fsm 8 None ex_world = Some ((FSM_ENOTFOUND, ex_fsm), ex_world)"
proof -
  have c: "f_cstate ex_fsm = Some 103" by (simp add: ex_fsm_def)
  have "key_at ex_world 102 = Some 2 \<and> 2 \<in> dom (st_map ex_fsm ex_world)"
    by (simp add: key_at_def ex_world_fields ex_st_map)
  then show ?thesis
    using fsm_process_event_spec [OF ex_fsm_ok c no_action_quiet, of 7 None]
      fsm_process_event_spec [OF ex_fsm_ok c no_action_quiet, of 8 None]
    by (auto simp: ex_evt_at ex_evt_def w_print_def)
qed

text \<open>Whatever states are set, events processed and marks made, a machine that starts well-formed
  stays so: its current state is an object with the key of a registered state, the registered
  states stay the same, and none of these calls ends in undefined behaviour.\<close>

theorem fsm_reach_safe:
  assumes "fsm_reach exec (f, w) (f', w')" "fsm_ok f w" "no_null w" "quiet exec"
  shows "fsm_ok f' w' \<and> st_map f' w' = st_map f w \<and>
    (\<forall>k. fsm_set_state f' k w' \<noteq> None) \<and> fsm_mark_reachable_states f' w' \<noteq> None \<and>
    (f_cstate f' \<noteq> None \<longrightarrow> (\<forall>k data. fsm_process_event exec f' k data w' \<noteq> None) \<and>
       (\<exists>k. fsm_get_current_state f' w' = Some k \<and> k \<in> dom (st_map f w)))"
proof -
  have inv: "fsm_ok (fst d) (snd d) \<and> no_null (snd d) \<and> st_map (fst d) (snd d) = st_map (fst c) (snd c)"
    if "fsm_reach exec c d" "fsm_ok (fst c) (snd c)" "no_null (snd c)" for c d
    using that
  proof (induction rule: fsm_reach.induct)
    case (step c d e)
    then have "fsm_step exec (fst d, snd d) (fst e, snd e)" by simp
    from step_ok [OF this _ _ assms(4)] step show ?case by simp
  qed simp
  from inv [OF assms(1)] assms(2,3) have ok: "fsm_ok f' w'" "no_null w'" "st_map f' w' = st_map f w" by simp_all
  have "fsm_set_state f' k w' \<noteq> None" for k
    using set_state_ok [OF ok(1,2), of k] by (auto split: option.splits)
  moreover have "fsm_mark_reachable_states f' w' \<noteq> None" using mark_ok [OF ok(1,2)] by auto
  moreover have "fsm_process_event exec f' k data w' \<noteq> None \<and>
      (\<exists>k. fsm_get_current_state f' w' = Some k \<and> k \<in> dom (st_map f w))" if "f_cstate f' \<noteq> None" for k data
  proof -
    from that obtain c where c: "f_cstate f' = Some c" by blast
    from fsm_okD(4) [OF ok(1) c] ok(3) process_ok [OF ok(1) c assms(4), of k data] c show ?thesis
      by (auto simp: fsm_get_current_state_def key_at_def split: option.splits)
  qed
  ultimately show ?thesis using ok by blast
qed

lemma fsm_reach_safe_witness:
  "fsm_set_state ex_fsm 2 ex_world \<noteq> None \<and> fsm_process_event no_action ex_fsm 7 None ex_world \<noteq> None"
  using fsm_reach_safe [OF fsm_reach.refl ex_fsm_ok ex_world_ok(2) no_action_quiet] by (simp add: ex_fsm_def)

text \<open>C39: Setting the state of a registered key makes that state the current one, with its flag set;
  another key changes nothing. The marking that goes with it only sets flags, and only those
  of states reachable by events from states whose flag was set.\<close>

theorem fsm_set_state_marks:
  assumes "fsm_ok f w" "no_null w"
  shows "case st_map f w k of
      None \<Rightarrow> fsm_set_state f k w = Some ((FSM_ENOTFOUND, f), w)
    | Some d \<Rightarrow> (\<exists>a w'. d = Some a \<and> key_at w a = Some k \<and>
        fsm_set_state f k w = Some ((FSM_OK, f\<lparr>f_cstate := Some a\<rparr>), w') \<and> flags_only w w' \<and>
        a \<in> reach_set w' \<and> (\<forall>b\<in>reach_set w'. \<exists>c\<in>insert a (reach_set w). (st_edge w)\<^sup>*\<^sup>* c b))"
proof (cases "st_map f w k")
  case (Some d)
  from set_state_ok [OF assms, of k] Some obtain a s w' where a: "d = Some a" "fm_state (w_mem w) a = Some s"
    "fsm_set_state f k w = Some ((FSM_OK, f\<lparr>f_cstate := Some a\<rparr>), w')"
    "marks (put_state a (STATE_MARK_AS_REACHABLE s) w) w'" "flags_only w w'" "key_at w a = Some k" by auto
  let ?w = "put_state a (STATE_MARK_AS_REACHABLE s) w"
  have r: "reach_set ?w = insert a (reach_set w)"
    by (auto simp: reach_set_def put_state_def split: if_splits)
  have e: "st_edge ?w = st_edge w" by (simp add: fun_eq_iff edge_flags [OF flags_only_mark [OF a(2)]])
  have "a \<in> reach_set ?w" unfolding r by simp
  then have "a \<in> reach_set w'"
    using a(4) unfolding marks_def flags_only_def reach_set_def by (auto, metis domD domI)
  with a r e Some show ?thesis by (simp add: marks_def)
qed (use set_state_ok [OF assms, of k] in simp)

lemma fsm_set_state_marks_witness:
  "\<exists>w'. fsm_set_state ex_fsm 2 ex_world = Some ((FSM_OK, ex_fsm\<lparr>f_cstate := Some 102\<rparr>), w') \<and> 102 \<in> reach_set w' \<and>
   fsm_set_state ex_fsm 9 ex_world = Some ((FSM_ENOTFOUND, ex_fsm), ex_world)"
  using fsm_set_state_marks [OF ex_fsm_ok ex_world_ok(2), of 2] fsm_set_state_marks [OF ex_fsm_ok ex_world_ok(2), of 9]
  by (auto simp: ex_st_map)

text \<open>The marking is one pass over the states in table order, not a fixpoint: setting the state
  \<open>S3\<close> of the machine \<open>S3 -E7-> S2 -E7-> S1\<close> leaves \<open>S1\<close>, which two events reach, unmarked.\<close>

theorem fsm_marking_incomplete:
  "\<exists>w'. fsm_set_state ex_fsm 3 ex_world = Some ((FSM_OK, ex_fsm), w') \<and> reach_set w' = {102, 103} \<and>
    (st_edge ex_world)\<^sup>*\<^sup>* 103 101"
proof -
  have edges: "st_edge ex_world 103 102" "st_edge ex_world 102 101"
    unfolding st_edge_def by (simp_all add: ex_world_fields ex_evtab_ok ex_evt_def)
  then have "(st_edge ex_world)\<^sup>*\<^sup>* 103 101" by (meson rtranclp.intros converse_rtranclp_into_rtranclp)
  moreover have "\<exists>w'. fsm_set_state ex_fsm 3 ex_world = Some ((FSM_OK, ex_fsm), w') \<and> reach_set w' = {102, 103}"
  proof -
    have t: "tbl_ok (w_mem ex_world) ex_sttab" by (rule ex_sttab_ok)
    have s: "htable_search (on_stack 3 (w_mem ex_world)) ex_sttab 0 = Some (Some 103)"
      using stack_search [OF t, of 3] ex_st_map by (simp add: st_map_def ex_fsm_def ex_world_fields)
    let ?s = "\<lambda>a. STATE_MARK_AS_REACHABLE \<lparr>evttable = a + 100, st_key = a + 400, st_flag = 0\<rparr>"
    have fl: "\<not> STATE_IS_REACHABLE \<lparr>evttable = a, st_key = b, st_flag = 0\<rparr>" for a b
      by (simp add: STATE_IS_REACHABLE_def)
    let ?w = "put_state 102 (?s 102) (put_state 103 (?s 103) ex_world)"
    have "fsm_set_state ex_fsm 3 ex_world = Some ((FSM_OK, ex_fsm), ?w)"
      by (simp add: fsm_set_state_def fsm_mark_reachable_states_def s ex_iterate ex_sttab_ok put_state_def
          ex_fsm_def ex_world_fields fl ex_evt_def)
    moreover have "reach_set ?w = {102, 103}"
      by (auto simp: reach_set_def put_state_def ex_world_fields fl split: if_splits)
    ultimately show ?thesis by blast
  qed
  ultimately show ?thesis by blast
qed

section \<open>Queues\<close>

definition pending :: "fsm_t \<Rightarrow> pqnode list" where
  \<comment> \<open>The queued events in the order in which they are served.\<close>
  "pending f = concat (rev (f_pqtable f))"

lemma scan_queues_ok:
  "i < length tbl \<Longrightarrow>
    case fsm_scan_queues tbl i of
      None \<Rightarrow> False
    | Some None \<Rightarrow> (\<forall>j\<le>i. tbl ! j = [])
    | Some (Some j) \<Rightarrow> j \<le> i \<and> tbl ! j \<noteq> [] \<and> (\<forall>l. j < l \<longrightarrow> l \<le> i \<longrightarrow> tbl ! l = [])"
proof (induction tbl i rule: fsm_scan_queues.induct)
  case (1 tbl i)
  show ?case
  proof (cases "tbl ! i = []")
    case False
    with 1(2) show ?thesis by (subst fsm_scan_queues.simps) auto
  next
    case True
    show ?thesis
    proof (cases i)
      case 0
      with True 1(2) show ?thesis by (subst fsm_scan_queues.simps) simp
    next
      case (Suc j)
      have eq: "fsm_scan_queues tbl i = fsm_scan_queues tbl j"
        using True 1(2) Suc by (subst fsm_scan_queues.simps) simp
      have IH: "case fsm_scan_queues tbl j of
          None \<Rightarrow> False
        | Some None \<Rightarrow> (\<forall>l\<le>j. tbl ! l = [])
        | Some (Some n) \<Rightarrow> n \<le> j \<and> tbl ! n \<noteq> [] \<and> (\<forall>l. n < l \<longrightarrow> l \<le> j \<longrightarrow> tbl ! l = [])"
        using 1(1) [OF 1(2) _ Suc] 1(2) True Suc by simp
      have "l \<le> i \<longleftrightarrow> l \<le> j \<or> l = i" for l using Suc by auto
      with IH True show ?thesis unfolding eq by (auto split: option.splits)
    qed
  qed
qed

lemma concat_rev_highest:
  assumes "i < length tbl" "\<forall>l. i < l \<longrightarrow> l < length tbl \<longrightarrow> tbl ! l = []"
  shows "concat (rev (tbl[i := xs])) = xs @ concat (rev (take i tbl))"
proof -
  have "concat (rev (drop (Suc i) tbl)) = []"
    using assms(2) by (auto simp: in_set_conv_nth)
  then show ?thesis using assms(1) by (simp add: upd_conv_take_nth_drop)
qed

lemma pending_empty:
  "length (f_pqtable f) = Suc i \<Longrightarrow> (\<forall>j\<le>i. f_pqtable f ! j = []) \<Longrightarrow> pending f = []"
  by (auto simp: pending_def in_set_conv_nth less_Suc_eq_le)

lemma length_concat_rev: "length (concat (rev tbl)) = length (concat tbl)"
  by (induction tbl) simp_all

lemma queued_count: "length (f_pqtable f) = unat (f_nqueues f) \<Longrightarrow>
    fsm_get_queued_events f = of_nat (length (pending f))"
proof -
  assume l: "length (f_pqtable f) = unat (f_nqueues f)"
  have "fold (\<lambda>_ total. total + 1) xs (t :: size_t) = t + of_nat (length xs)" for xs :: "pqnode list" and t
    by (induction xs arbitrary: t) simp_all
  then show ?thesis using l by (simp add: fsm_get_queued_events_def pending_def length_concat_rev)
qed

text \<open>A queued event goes behind the others of its priority: an event with a priority out of range
  is refused, without memory nothing changes and nothing leaks, and otherwise the queue of that
  priority, and no other, gets the event at its end.\<close>

theorem fsm_queue_event_spec:
  assumes "length (f_pqtable f) = unat (f_nqueues f)"
  shows "case fsm_queue_event f k pdata n prio w of ((r, f'), w') \<Rightarrow>
    (r = FSM_EPRIO \<longleftrightarrow> unat prio \<ge> length (f_pqtable f)) \<and>
    (r = FSM_OK \<or> f' = f \<and> hp_live (w_heap w') = hp_live (w_heap w) \<and> r \<in> {FSM_EPRIO, FSM_ENOMEM}) \<and>
    (r = FSM_OK \<longrightarrow> (\<exists>a d. f' = f\<lparr>f_pqtable := (f_pqtable f)[unat prio := f_pqtable f ! unat prio @
         [\<lparr>pq_addr = a, pq_data = d, pq_evtkey = k, pq_prio = prio\<rparr>]]\<rparr> \<and>
       hp_live (w_heap w') = d # a # hp_live (w_heap w) \<and> length (pending f') = Suc (length (pending f))))"
proof -
  have le: "prio \<ge> f_nqueues f \<longleftrightarrow> unat prio \<ge> length (f_pqtable f)"
    unfolding assms by (simp add: word_le_nat_alt)
  have len: "length (concat (rev (tbl[i := tbl ! i @ [x]]))) = Suc (length (concat (rev tbl)))"
    if "i < length tbl" for tbl :: "pqnode list list" and i x
  proof -
    have "mset (concat (tbl[i := tbl ! i @ [x]])) = mset (x # concat tbl)"
      using mset_concat_append [OF that, of x] by simp
    from mset_eq_length [OF this] show ?thesis by (simp add: length_concat_rev)
  qed
  obtain r1 h1 where 1: "malloc sizeof_pqnode (w_heap w) = (r1, h1)" by force
  obtain r2 h2 where 2: "malloc n h1 = (r2, h2)" by force
  show ?thesis
  proof (cases "prio \<ge> f_nqueues f")
    case True
    then show ?thesis using le by (simp add: fsm_queue_event_def)
  next
    case False
    then have i: "unat prio < length (f_pqtable f)" using le by simp
    show ?thesis
    proof (cases r1)
      case None
      with False i 1 malloc_NoneD [OF 1 [unfolded None]] show ?thesis
        by (simp add: fsm_queue_event_def w_malloc_def)
    next
      case (Some a)
      note D1 = malloc_SomeD [OF 1 [unfolded Some]]
      show ?thesis
      proof (cases r2)
        case None
        with False i 1 2 D1 Some malloc_NoneD [OF 2 [unfolded None]] show ?thesis
          by (simp add: fsm_queue_event_def w_malloc_def w_free_def w_set_heap_def cfree_def)
      next
        case d: (Some d)
        with False i 1 2 D1 Some malloc_SomeD [OF 2 [unfolded d]] len [OF i] show ?thesis
          by (simp add: fsm_queue_event_def w_malloc_def pending_def Let_def)
      qed
    qed
  qed
qed

lemma fsm_queue_event_spec_witness:
  "\<exists>f' w'. fsm_queue_event ex_fsm 9 None 8 1 ex_world = ((FSM_OK, f'), w') \<and> map pq_evtkey (pending f') = [7, 9] \<and>
     fsm_queue_event ex_fsm 9 None 8 2 ex_world = ((FSM_EPRIO, ex_fsm), ex_world)"
proof -
  have l: "length (f_pqtable ex_fsm) = unat (f_nqueues ex_fsm)" by (simp add: ex_fsm_def)
  obtain r f' w' where e: "fsm_queue_event ex_fsm 9 None 8 1 ex_world = ((r, f'), w')" by (metis prod.exhaust)
  have "r = FSM_OK"
  proof -
    let ?h = "\<lambda>n as. \<lparr>hp_next = n, hp_limit = 100000, hp_live = as, hp_sched = [], hp_bad = False\<rparr>"
    have "w_malloc sizeof_pqnode ex_world = (Some 1000, ex_world\<lparr>w_heap := ?h 1024 [1000]\<rparr>)"
      by (simp add: w_malloc_def malloc_def ex_world_def sizeof_pqnode_def)
    moreover have "w_malloc 8 (ex_world\<lparr>w_heap := ?h 1024 [1000]\<rparr>) = (Some 1024, ex_world\<lparr>w_heap := ?h 1032 [1024, 1000]\<rparr>)"
      by (simp add: w_malloc_def malloc_def ex_world_def)
    moreover have "\<not> f_nqueues ex_fsm \<le> 1" by (simp add: ex_fsm_def word_le_nat_alt)
    ultimately show ?thesis using e by (simp add: fsm_queue_event_def Let_def)
  qed
  with fsm_queue_event_spec [OF l, where k = 9 and pdata = None and n = 8 and prio = 1 and w = ex_world] e
  have "map pq_evtkey (pending f') = [7, 9]" by (auto simp: pending_def ex_fsm_def)
  moreover have "fsm_queue_event ex_fsm 9 None 8 2 ex_world = ((FSM_EPRIO, ex_fsm), ex_world)"
    by (simp add: fsm_queue_event_def ex_fsm_def)
  ultimately show ?thesis using e \<open>r = FSM_OK\<close> by (intro exI [of _ f'] exI [of _ w']) simp
qed

lemma dequeue_ok:
  assumes "fsm_ok f w" "f_cstate f = Some c" "quiet exec" "f_nqueues f \<noteq> 0"
  shows "case pending f of
      [] \<Rightarrow> fsm_dequeue_event exec f w = Some ((FSM_EMPTY, f), w)
    | n # ns \<Rightarrow> (\<exists>r f1 w1 f' w'. fsm_process_event exec f (pq_evtkey n) (Some (pq_data n)) w = Some ((r, f1), w1) \<and>
        fsm_dequeue_event exec f w = Some ((FSM_OK, f'), w') \<and> pending f' = ns \<and> f_cstate f' = f_cstate f1 \<and>
        w' = pq_release n w1 \<and> (\<exists>q. f' = f1\<lparr>f_pqtable := q\<rparr> \<and> length q = length (f_pqtable f)))"
proof -
  have len: "length (f_pqtable f) = unat (f_nqueues f)" by (rule fsm_okD(2) [OF assms(1)])
  have "unat (f_nqueues f - 1) = unat (f_nqueues f) - 1" using assms(4) by (rule unat_minus_one)
  moreover have "0 < unat (f_nqueues f)" using assms(4) by (simp add: unat_gt_0)
  ultimately have i: "length (f_pqtable f) = Suc (unat (f_nqueues f - 1))" using len by simp
  let ?i = "unat (f_nqueues f - 1)"
  have "?i < length (f_pqtable f)" using i by simp
  note S = scan_queues_ok [OF this]
  show ?thesis
  proof (cases "fsm_scan_queues (f_pqtable f) ?i")
    case None
    with S show ?thesis by simp
  next
    case (Some r)
    show ?thesis
    proof (cases r)
      case None
      then have "pending f = []" using S Some by (intro pending_empty [OF i]) simp
      then show ?thesis using Some None by (simp add: fsm_dequeue_event_def)
    next
      case j: (Some j)
      then have j': "j < length (f_pqtable f)" "f_pqtable f ! j \<noteq> []"
        "\<forall>l. j < l \<longrightarrow> l < length (f_pqtable f) \<longrightarrow> f_pqtable f ! l = []"
        using S Some i by (auto simp: less_Suc_eq_le)
      then obtain n rest where n: "f_pqtable f ! j = n # rest" by (meson neq_Nil_conv)
      have p: "pending f = n # rest @ concat (rev (take j (f_pqtable f)))"
        using concat_rev_highest [OF j'(1,3), of "f_pqtable f ! j", unfolded list_update_id] n
        by (simp add: pending_def)
      have "\<exists>r1 f1 w1. fsm_process_event exec f (pq_evtkey n) (Some (pq_data n)) w = Some ((r1, f1), w1) \<and>
          f_pqtable f1 = f_pqtable f"
        using process_ok [OF assms(1-3), of "pq_evtkey n" "Some (pq_data n)"]
        by (auto split: option.splits if_splits)
      then obtain r1 f1 w1 where e: "fsm_process_event exec f (pq_evtkey n) (Some (pq_data n)) w = Some ((r1, f1), w1)"
        "f_pqtable f1 = f_pqtable f" by blast
      have "fsm_dequeue_event exec f w =
          Some ((FSM_OK, f1\<lparr>f_pqtable := (f_pqtable f)[j := rest]\<rparr>), pq_release n w1)"
        using Some j n e by (simp add: fsm_dequeue_event_def)
      moreover have "pending (f1\<lparr>f_pqtable := (f_pqtable f)[j := rest]\<rparr>) = rest @ concat (rev (take j (f_pqtable f)))"
        using concat_rev_highest [OF j'(1,3), of rest] by (simp add: pending_def)
      moreover have "\<exists>q. f1\<lparr>f_pqtable := (f_pqtable f)[j := rest]\<rparr> = f1\<lparr>f_pqtable := q\<rparr> \<and> length q = length (f_pqtable f)"
        by (intro exI [of _ "(f_pqtable f)[j := rest]"]) simp
      ultimately show ?thesis using e p by simp
    qed
  qed
qed

text \<open>C6: Serving a queued event takes the one of highest priority that has waited longest, processes
  it in the current state and releases it, whether or not that state knows the event; the
  others keep their order. Without queued events the call says \<open>FSM_EMPTY\<close>.\<close>

theorem fsm_dequeue_event_spec:
  assumes "fsm_ok f w" "f_cstate f = Some c" "quiet exec" "f_nqueues f \<noteq> 0"
  shows "case pending f of
      [] \<Rightarrow> fsm_dequeue_event exec f w = Some ((FSM_EMPTY, f), w)
    | n # ns \<Rightarrow> (\<exists>r f1 w1 f' w'. fsm_process_event exec f (pq_evtkey n) (Some (pq_data n)) w = Some ((r, f1), w1) \<and>
        fsm_dequeue_event exec f w = Some ((FSM_OK, f'), w') \<and> pending f' = ns \<and> f_cstate f' = f_cstate f1 \<and>
        w' = pq_release n w1)"
  using dequeue_ok [OF assms] by (auto split: list.splits)

lemma fsm_dequeue_event_spec_witness:
  "\<exists>f' w'. fsm_dequeue_event no_action ex_fsm ex_world = Some ((FSM_OK, f'), w') \<and> pending f' = []"
  using fsm_dequeue_event_spec [OF ex_fsm_ok _ no_action_quiet, of 103]
  by (auto simp: ex_fsm_def pending_def)

text \<open>Serving an event of a machine made with no queues, as \<open>dbg_fsm.c\<close> makes one, reads outside the
  array of queues: the counter starts below zero.\<close>

theorem fsm_dequeue_no_queues:
  assumes "fsm_init n factor 0 w = Some ((FSM_OK, Some f), w')"
  shows "fsm_dequeue_event exec f w'' = None"
proof -
  have "f_pqtable f = []"
    using assms by (auto simp: fsm_init_def Let_def split: prod.splits option.splits bind_splits)
  then show ?thesis by (simp add: fsm_dequeue_event_def fsm_scan_queues.simps)
qed

lemma fsm_dequeue_no_queues_witness:
  "\<exists>f w'. fsm_init 4 5 0 ex_world = Some ((FSM_OK, Some f), w') \<and> fsm_dequeue_event no_action f w' = None"
proof -
  have "\<exists>f w'. fsm_init 4 5 0 ex_world = Some ((FSM_OK, Some f), w')"
    by (simp add: fsm_init_def w_malloc_def malloc_def ex_world_def htable_init_def tailq_heads_def
        sizeof_fsm_def sizeof_htable_def sizeof_pqhead_def sizeof_mutex_def sizeof_hhead_def)
  with fsm_dequeue_no_queues show ?thesis by blast
qed

end
