(* ===== verification/Fsm_Tables.thy ===== *)
theory Fsm_Tables imports Fsm_Props begin

text \<open>
  Registering states and events: what \<open>fsm_add_state\<close>, \<open>state_add_evt\<close> and \<open>state_rem_evt\<close> do to
  the tables, and what the constructors leave behind when memory runs out.
\<close>

unbundle bit_operations_syntax

section \<open>Lemmas\<close>

lemma put_cell_fields [simp]:
  "w_table (put_cell a v w) = w_table w" "w_heap (put_cell a v w) = w_heap w"
  "fm_state (w_mem (put_cell a v w)) = fm_state (w_mem w)" "fm_event (w_mem (put_cell a v w)) = fm_event (w_mem w)"
  "fm_cell (w_mem (put_cell a v w)) = (fm_cell (w_mem w))(a := v)"
  by (simp_all add: put_cell_def)

lemma tbl_ok_other_cell:
  assumes "tbl_ok m t" "a \<notin> hn_key ` set (ht_nodes t)" "fm_cell m' = (fm_cell m)(a := v)"
  shows "tbl_ok m' t" "ht_map fm_cell m' t = ht_map fm_cell m t"
proof -
  have c: "fm_cell m' (hn_key n) = fm_cell m (hn_key n)" if "n \<in> set (ht_nodes t)" for n
    using assms(2,3) that by auto
  have f: "stk.for_ht t" using assms(1) by (simp add: tbl_ok_def)
  from ht_inv_cong [OF c f] assms(1) show "tbl_ok m' t" "ht_map fm_cell m' t = ht_map fm_cell m t"
    by (simp_all add: tbl_ok_def)
qed

lemma tbl_insert_ok:
  assumes "tbl_ok m t" "ht_heap t h"
  shows "\<exists>ret t' h'. htable_insert m t key data h = Some ((ret, t'), h') \<and> ht_step fm_cell m t h t' h' \<and>
    (ret = HT_EXISTS \<and> fm_cell m key \<in> dom (ht_map fm_cell m t) \<and> t' = t \<and> h' = h \<or>
     ret = HT_NOMEM \<and> fm_cell m key \<notin> dom (ht_map fm_cell m t) \<and> t' = t \<and> hp_live h' = hp_live h \<and>
       fst (malloc sizeof_hnode h) = None \<or>
     ret = HT_OK \<and> fm_cell m key \<notin> dom (ht_map fm_cell m t) \<and>
       ht_map fm_cell m t' = (ht_map fm_cell m t)(fm_cell m key \<mapsto> data) \<and> fst (malloc sizeof_hnode h) \<noteq> None)"
  using stk.insert_ok [of m t h key data] assms unfolding tbl_ok_def by blast

section \<open>Theorems\<close>

text \<open>Registering a state writes the key into the state's own cell first, whatever comes out of it.
  With a key that is taken the result is \<open>FSM_EEXISTS\<close> and the registered states are the same;
  otherwise it is \<open>FSM_OK\<close>, even when the table had no memory for the new entry and the state is
  not registered.\<close>

theorem fsm_add_state_spec:
  assumes "fsm_ok f w" "fm_state (w_mem w) a = Some s" "w_table w (f_sttable f) = Some t"
    and "ht_heap t (w_heap w)" "st_key s \<notin> hn_key ` set (ht_nodes t)"
  shows "\<exists>ret w'. fsm_add_state f k a w = Some (ret, w') \<and> key_at w' a = Some k \<and>
    (if k \<in> dom (st_map f w) then ret = FSM_EEXISTS \<and> st_map f w' = st_map f w
     else ret = FSM_OK \<and> st_map f w' =
       (if fst (malloc sizeof_hnode (w_heap w)) = None then st_map f w else (st_map f w)(k \<mapsto> Some a)))"
proof -
  let ?w = "put_cell (st_key s) k w"
  have t: "tbl_ok (w_mem w) t" using fsm_okD(3) [OF assms(1)] assms(3) by auto
  note T = tbl_ok_other_cell [OF t assms(5), of "w_mem ?w" k, simplified]
  have sm: "st_map f w = ht_map fm_cell (w_mem w) t" using assms(3) by (simp add: st_map_def)
  have cell: "fm_cell (w_mem ?w) (st_key s) = k" by simp
  from tbl_insert_ok [OF T(1) assms(4), of "st_key s" "Some a", unfolded cell T(2), folded sm] obtain ret t' h' where
    i: "htable_insert (w_mem ?w) t (st_key s) (Some a) (w_heap w) = Some ((ret, t'), h')"
    and r: "ret = HT_EXISTS \<and> k \<in> dom (st_map f w) \<and> t' = t \<and> h' = w_heap w \<or>
     ret = HT_NOMEM \<and> k \<notin> dom (st_map f w) \<and> t' = t \<and> fst (malloc sizeof_hnode (w_heap w)) = None \<or>
     ret = HT_OK \<and> k \<notin> dom (st_map f w) \<and> ht_map fm_cell (w_mem ?w) t' = (st_map f w)(k \<mapsto> Some a) \<and>
       fst (malloc sizeof_hnode (w_heap w)) \<noteq> None"
    by blast
  let ?w' = "put_table (f_sttable f) t' (?w\<lparr>w_heap := h'\<rparr>)"
  have run: "fsm_add_state f k a w = Some (if ret = HT_EXISTS then FSM_EEXISTS else FSM_OK, ?w')"
    using assms(2,3) i by (simp add: fsm_add_state_def Let_def)
  have "st_map f ?w' = ht_map fm_cell (w_mem ?w) t'" by (simp add: st_map_def put_table_def)
  moreover have "key_at ?w' a = Some k" using assms(2) by (simp add: key_at_def put_table_def)
  ultimately show ?thesis using run r T(2) sm by auto
qed

definition ex_own_world :: world where
  \<comment> \<open>The example with the blocks of its table of states on the heap; the next \<open>malloc\<close> fails.\<close>
  "ex_own_world = ex_world\<lparr>w_heap := \<lparr>hp_next = 1000, hp_limit = 100000, hp_live = [400, 301, 302, 303],
     hp_sched = [True], hp_bad = False\<rparr>, w_mem := (w_mem ex_world)\<lparr>fm_state := (fm_state (w_mem ex_world))
       (104 \<mapsto> \<lparr>evttable = 201, st_key = 504, st_flag = 0\<rparr>)\<rparr>\<rparr>"

lemma ex_own_ok: "fsm_ok ex_fsm ex_own_world" "st_map ex_fsm ex_own_world = st_map ex_fsm ex_world"
  "ht_heap ex_sttab (w_heap ex_own_world)"
proof -
  show sm: "st_map ex_fsm ex_own_world = st_map ex_fsm ex_world"
    by (simp add: st_map_def ex_own_world_def ex_fsm_def ex_world_fields ht_map_def ht_pairs_def)
  have tb: "tbl_ok (w_mem ex_own_world) t = tbl_ok (w_mem ex_world) t" for t
    using ht_inv_cong(1) [of t "w_mem ex_own_world" "w_mem ex_world"] by (auto simp: tbl_ok_def ex_own_world_def)
  have "world_ok ex_own_world"
    unfolding world_ok_def tb
    by (auto simp: ex_own_world_def ex_world_fields ex_evtab_ok evts_ok_def ex_evt_def split: if_splits)
  moreover have "\<exists>t. w_table ex_own_world (f_sttable ex_fsm) = Some t \<and> tbl_ok (w_mem ex_own_world) t \<and>
      (\<forall>n\<in>set (ht_nodes t). \<exists>a s. hn_data n = Some a \<and> fm_state (w_mem ex_own_world) a = Some s \<and> st_key s = hn_key n)"
    unfolding tb by (intro exI [of _ ex_sttab]) (simp add: ex_sttab_ok ex_fsm_def ex_world_fields ex_own_world_def)
  moreover have "\<forall>c. f_cstate ex_fsm = Some c \<longrightarrow> (\<exists>k. key_at ex_own_world c = Some k \<and> k \<in> dom (st_map ex_fsm ex_own_world))"
    unfolding sm ex_st_map by (simp add: ex_fsm_def key_at_def ex_own_world_def ex_world_fields)
  ultimately show "fsm_ok ex_fsm ex_own_world" unfolding fsm_ok_def by (simp add: ex_fsm_def)
  show "ht_heap ex_sttab (w_heap ex_own_world)"
    by (simp add: ht_heap_def ht_owned_def ex_sttab_ok ex_own_world_def heap_ok_def heap_wf_def) (simp add: ex_sttab_def)
qed

lemma fsm_add_state_spec_witness:
  "\<exists>w'. fsm_add_state ex_fsm 4 104 ex_own_world = Some (FSM_OK, w') \<and>
     st_map ex_fsm w' = [1 \<mapsto> Some 101, 2 \<mapsto> Some 102, 3 \<mapsto> Some 103]"
proof -
  have s: "fm_state (w_mem ex_own_world) 104 = Some \<lparr>evttable = 201, st_key = 504, st_flag = 0\<rparr>"
    "w_table ex_own_world (f_sttable ex_fsm) = Some ex_sttab"
    by (simp_all add: ex_own_world_def ex_fsm_def ex_world_fields)
  have "fst (malloc sizeof_hnode (w_heap ex_own_world)) = None" by (simp add: malloc_def ex_own_world_def)
  with fsm_add_state_spec [OF ex_own_ok(1) s ex_own_ok(3), of 4] show ?thesis
    by (auto simp: ex_own_ok(2) ex_st_map ex_sttab_ok(2))
qed

text \<open>When the last allocation of \<open>state_init\<close> fails, the state and its table structure are
  released, but the array of buckets that \<open>htable_init\<close> obtained is lost.\<close>

theorem state_init_leaks:
  assumes "w_malloc sizeof_state w = (Some ps, w1)" "w_malloc sizeof_htable w1 = (Some pt, w2)"
    and "tailq_heads n (w_heap w2) = Some (Some (a, tbl), h3)" "malloc sizeof_uint h3 = (None, h4)"
  shows "\<exists>w'. state_init g n factor w = Some ((ST_NOMEM, None), w') \<and> hp_live (w_heap w') = a # hp_live (w_heap w)"
proof -
  obtain h1 where 1: "malloc sizeof_state (w_heap w) = (Some ps, h1)" "w1 = w\<lparr>w_heap := h1\<rparr>"
    using assms(1) by (auto simp: w_malloc_def split: prod.splits)
  obtain h2 where 2: "malloc sizeof_htable h1 = (Some pt, h2)" "w2 = w\<lparr>w_heap := h2\<rparr>"
    using assms(2) 1(2) by (auto simp: w_malloc_def split: prod.splits)
  have 3: "malloc (unat (n * sizeof_hhead)) h2 = (Some a, h3)"
    using assms(3) 2(2) by (auto simp: tailq_heads_def split: prod.splits option.splits if_splits)
  note D = malloc_SomeD [OF 1(1)] malloc_SomeD [OF 2(1)] malloc_SomeD [OF 3] malloc_NoneD [OF assms(4)]
  have live: "hp_live h4 = a # pt # ps # hp_live (w_heap w)" using D by simp
  have ne: "a \<noteq> pt" "a \<noteq> ps" "pt \<noteq> ps" using D by auto
  let ?w = "w\<lparr>w_heap := h4\<rparr>"
  have "state_init g n factor w = Some ((ST_NOMEM, None), w_free ps (w_free pt ?w))"
    using assms 1 2 by (simp add: state_init_def htable_init_def Let_def w_malloc_def)
  moreover have "hp_live (w_heap (w_free ps (w_free pt ?w))) = a # hp_live (w_heap w)"
    using live ne by (simp add: w_free_def w_set_heap_def cfree_def)
  ultimately show ?thesis by blast
qed

lemma state_init_leaks_witness:
  "\<exists>w'. state_init 0 4 2 (ex_world\<lparr>w_heap := \<lparr>hp_next = 1000, hp_limit = 100000, hp_live = [],
       hp_sched = [False, False, False, True], hp_bad = False\<rparr>\<rparr>) = Some ((ST_NOMEM, None), w') \<and>
     hp_live (w_heap w') = [1096]"
  using state_init_leaks [of "ex_world\<lparr>w_heap := \<lparr>hp_next = 1000, hp_limit = 100000, hp_live = [],
       hp_sched = [False, False, False, True], hp_bad = False\<rparr>\<rparr>" 1000 _ 1024 _ 4 1096]
  by (simp add: w_malloc_def malloc_def tailq_heads_def sizeof_state_def sizeof_htable_def sizeof_uint_def sizeof_hhead_def)

section \<open>Adding an event\<close>

definition evt_map :: "world \<Rightarrow> addr \<Rightarrow> 32 word \<rightharpoonup> addr option" where
  \<comment> \<open>The events in the table at an address, by key.\<close>
  "evt_map w pt = (case w_table w pt of None \<Rightarrow> Map.empty | Some t \<Rightarrow> ht_map fm_cell (w_mem w) t)"

lemma evt_map_free:
  "pt \<in> set (hp_live (w_heap w)) \<Longrightarrow> pt \<noteq> a \<Longrightarrow> evt_map (w_free a w) pt = evt_map w pt"
  by (simp add: evt_map_def w_free_def w_set_heap_def cfree_def ht_map_def ht_pairs_def cong: option.case_cong)

lemma live_free:
  "pt \<in> set (hp_live (w_heap w)) \<Longrightarrow> pt \<noteq> a \<Longrightarrow> pt \<in> set (hp_live (w_heap (w_free a w)))"
  by (simp add: w_free_def w_set_heap_def cfree_def)

lemma free_two_live:
  assumes "hp_live h = a # b # as" "a \<noteq> b"
  shows "hp_live (cfree (Some a) (cfree (Some b) h)) = as"
  using assms by (simp add: cfree_def)

text \<open>Adding an event to a state: without memory for the key or the event, \<open>ST_NOMEM\<close> and nothing
  changes; with a key the state knows, \<open>ST_EXISTS\<close>, nothing changes and both blocks are released
  again; otherwise \<open>ST_OK\<close>, and the key leads to an event with the given action and new state --
  or, when the table has no memory for the entry, to nothing: key and event are lost.\<close>

theorem state_add_evt_spec:
  assumes "fm_state (w_mem w) p = Some s" "w_table w (evttable s) = Some t" "tbl_ok (w_mem w) t"
    and "ht_heap t (w_heap w)" "hn_key ` set (ht_nodes t) \<subseteq> set (hp_live (w_heap w))"
    and "evttable s \<in> set (hp_live (w_heap w))"
  shows "\<exists>ret w'. state_add_evt p k desc act new w = Some (ret, w') \<and>
    (ret = ST_NOMEM \<and> evt_map w' (evttable s) = evt_map w (evttable s) \<and> hp_live (w_heap w') = hp_live (w_heap w) \<or>
     ret = ST_EXISTS \<and> k \<in> dom (evt_map w (evttable s)) \<and> evt_map w' (evttable s) = evt_map w (evttable s) \<and>
       hp_live (w_heap w') = hp_live (w_heap w) \<or>
     ret = ST_OK \<and> k \<notin> dom (evt_map w (evttable s)) \<and>
       (\<exists>ev. fm_event (w_mem w') ev = Some \<lparr>evt_desc = strncpy desc MAX_EVT_DESC, evt_actionf = act, evt_newstate = new\<rparr> \<and>
          evt_map w' (evttable s) = (evt_map w (evttable s))(k \<mapsto> Some ev)) \<or>
     ret = ST_OK \<and> k \<notin> dom (evt_map w (evttable s)) \<and> evt_map w' (evttable s) = evt_map w (evttable s) \<and>
       (\<exists>ev pk. hp_live (w_heap w') = ev # pk # hp_live (w_heap w)))"
proof -
  let ?h = "w_heap w" and ?pt = "evttable s"
  have hok: "heap_ok ?h" using assms(4) by (simp add: ht_heap_def)
  obtain r1 h1 where 1: "malloc sizeof_uint ?h = (r1, h1)" by force
  have m0: "evt_map w ?pt = ht_map fm_cell (w_mem w) t" using assms(2) by (simp add: evt_map_def)
  show ?thesis
  proof (cases r1)
    case None
    with 1 malloc_NoneD [OF 1 [unfolded None]] show ?thesis
      by (simp add: state_add_evt_def w_malloc_def evt_map_def cong: option.case_cong)
  next
    case (Some pk)
    note D1 = malloc_SomeD [OF 1 [unfolded Some]]
    have fresh: "pk \<notin> set (hp_live ?h)" using malloc_fresh [of ?h] hok 1 Some by (simp add: heap_ok_def)
    then have pk: "pk \<notin> hn_key ` set (ht_nodes t)" using assms(5) by blast
    have ok1: "heap_ok h1" by (rule heap_ok_malloc [OF hok 1])
    obtain r2 h2 where 2: "malloc sizeof_event h1 = (r2, h2)" by force
    let ?w2 = "put_cell pk k (w\<lparr>w_heap := h1\<rparr>)"
    have map1: "ht_map fm_cell m t = ht_map fm_cell (w_mem w) t" "tbl_ok m t"
      if "fm_cell m = (fm_cell (w_mem w))(pk := k)" for m
      using tbl_ok_other_cell [OF assms(3) pk that] by simp_all
    show ?thesis
    proof (cases r2)
      case None
      have "state_add_evt p k desc act new w = Some (ST_NOMEM, w_free pk (?w2\<lparr>w_heap := h2\<rparr>))"
        using 1 2 Some None by (simp add: state_add_evt_def w_malloc_def Let_def)
      moreover have "evt_map (w_free pk (?w2\<lparr>w_heap := h2\<rparr>)) ?pt = evt_map w ?pt \<and>
          hp_live (w_heap (w_free pk (?w2\<lparr>w_heap := h2\<rparr>))) = hp_live ?h"
        using malloc_NoneD [OF 2 [unfolded None]] D1 assms(2,6) map1(1)
        by (simp add: w_free_def w_set_heap_def cfree_def evt_map_def put_cell_def)
      ultimately show ?thesis by blast
    next
      case ev: (Some ev)
      note D2 = malloc_SomeD [OF 2 [unfolded ev]]
      let ?e = "\<lparr>evt_desc = strncpy desc MAX_EVT_DESC, evt_actionf = act, evt_newstate = new\<rparr>"
      let ?w4 = "put_event ev ?e (?w2\<lparr>w_heap := h2\<rparr>)"
      have cells: "fm_cell (w_mem ?w4) = (fm_cell (w_mem w))(pk := k)" by (simp add: put_event_def put_cell_def)
      note M = map1 [OF cells]
      have ok2: "heap_ok h2" by (rule heap_ok_malloc [OF ok1 2])
      have sub: "mset (ht_owned t) \<subseteq># mset (hp_live ?h)" using assms(4) by (simp add: ht_heap_def)
      have "hp_live h2 = [ev, pk] @ hp_live ?h" using D1 D2 by simp
      then have "mset (hp_live h2) = mset (hp_live ?h) + mset [ev, pk]" by (simp only: mset_append union_commute)
      with subset_mset.order_trans [OF sub mset_subset_eq_add_left, of "mset [ev, pk]"] ok2
      have hp: "ht_heap t h2" by (simp only: ht_heap_def)
      have cell: "fm_cell (w_mem ?w4) pk = k" by (simp add: cells)
      from tbl_insert_ok [OF M(2) hp, of pk "Some ev", unfolded cell M(1), folded m0] obtain ret t' h' where
        i: "htable_insert (w_mem ?w4) t pk (Some ev) h2 = Some ((ret, t'), h')"
        and st: "ht_step fm_cell (w_mem ?w4) t h2 t' h'"
        and r: "ret = HT_EXISTS \<and> k \<in> dom (evt_map w ?pt) \<and> t' = t \<and> h' = h2 \<or>
         ret = HT_NOMEM \<and> k \<notin> dom (evt_map w ?pt) \<and> t' = t \<and> hp_live h' = hp_live h2 \<or>
         ret = HT_OK \<and> k \<notin> dom (evt_map w ?pt) \<and> ht_map fm_cell (w_mem ?w4) t' = (evt_map w ?pt)(k \<mapsto> Some ev)"
        by blast
      let ?w5 = "put_table ?pt t' (?w4\<lparr>w_heap := h'\<rparr>)"
      have run: "state_add_evt p k desc act new w =
          Some (if ret = HT_EXISTS then (ST_EXISTS, w_free ev (w_free pk ?w5)) else (ST_OK, ?w5))"
        using 1 2 Some ev i assms(1,2)
        by (simp add: state_add_evt_def w_malloc_def Let_def) (simp add: put_event_def put_cell_def)
      have em: "evt_map ?w5 ?pt = ht_map fm_cell (w_mem ?w4) t'" by (simp add: evt_map_def put_table_def)
      from r show ?thesis
      proof (elim disjE conjE)
        assume c: "ret = HT_EXISTS" "k \<in> dom (evt_map w ?pt)" "t' = t" "h' = h2"
        have "ev \<noteq> pk" using D1 D2 by auto
        then have l: "hp_live (cfree (Some ev) (cfree (Some pk) h2)) = hp_live ?h"
          using D1 D2 free_two_live [of h2 ev pk] by simp
        have "pk \<noteq> ?pt" "ev \<noteq> ?pt" using fresh assms(6) D1 D2 malloc_fresh [of h1] ok1 2 ev
          by (auto simp: heap_ok_def)
        moreover have "?pt \<in> set (hp_live (w_heap ?w5))" using c D1 D2 assms(6) by (simp add: put_table_def)
        ultimately have "evt_map (w_free ev (w_free pk ?w5)) ?pt = evt_map ?w5 ?pt"
          by (simp add: evt_map_free live_free)
        then have "evt_map (w_free ev (w_free pk ?w5)) ?pt = evt_map w ?pt"
          using em M(1) m0 c(3) by simp
        moreover have "hp_live (w_heap (w_free ev (w_free pk ?w5))) = hp_live ?h"
          using c l by (simp add: w_free_def w_set_heap_def put_table_def)
        ultimately show ?thesis using run c by simp
      next
        assume c: "ret = HT_NOMEM" "k \<notin> dom (evt_map w ?pt)" "t' = t" "hp_live h' = hp_live h2"
        then have "evt_map ?w5 ?pt = evt_map w ?pt" "hp_live (w_heap ?w5) = ev # pk # hp_live ?h"
          using em M(1) m0 D1 D2 by (simp_all add: put_table_def)
        with run c show ?thesis by simp
      next
        assume c: "ret = HT_OK" "k \<notin> dom (evt_map w ?pt)"
          "ht_map fm_cell (w_mem ?w4) t' = (evt_map w ?pt)(k \<mapsto> Some ev)"
        have "fm_event (w_mem ?w5) ev = Some ?e" by (simp add: put_table_def put_event_def)
        with em c(3) have "\<exists>ev. fm_event (w_mem ?w5) ev = Some ?e \<and> evt_map ?w5 ?pt = (evt_map w ?pt)(k \<mapsto> Some ev)"
          by (intro exI [of _ ev]) simp
        with run c(1,2) show ?thesis by simp
      qed
    qed
  qed
qed

lemma state_add_evt_spec_witness:
  "\<exists>w'. state_add_evt 103 7 [101, 55] None (Some 101) (ex_world\<lparr>w_heap := \<lparr>hp_next = 1000, hp_limit = 100000,
       hp_live = [703, 313, 513, 203], hp_sched = [], hp_bad = False\<rparr>\<rparr>) = Some (ST_EXISTS, w')"
proof -
  let ?h = "\<lparr>hp_next = 1000, hp_limit = 100000, hp_live = [703, 313, 513, 203], hp_sched = [], hp_bad = False\<rparr>"
  let ?w = "ex_world\<lparr>w_heap := ?h\<rparr>"
  let ?n = "\<lparr>hn_addr = 313, hn_key = 513, hn_data = Some 613\<rparr>"
  have s: "fm_state (w_mem ?w) 103 = Some \<lparr>evttable = 203, st_key = 503, st_flag = 0\<rparr>"
    "w_table ?w 203 = Some (ex_evtab 703 313 [?n])" by (simp_all add: ex_world_fields)
  have t: "tbl_ok (w_mem ?w) (ex_evtab 703 313 [?n])" by (intro ex_evtab_ok) simp_all
  have hp: "ht_heap (ex_evtab 703 313 [?n]) (w_heap ?w)"
    by (simp add: ht_heap_def ht_owned_def ex_evtab_ok heap_ok_def heap_wf_def) (simp add: ex_evtab_def)
  have m: "malloc sizeof_uint ?h = (Some 1000, ?h\<lparr>hp_next := 1004, hp_live := 1000 # hp_live ?h\<rparr>)"
    by (simp add: malloc_def sizeof_uint_def)
  have "evt_map ?w 203 7 = Some (Some 613)"
    by (simp add: evt_map_def ex_world_fields ht_map_def ht_pairs_def ex_evtab_ok)
  moreover have "\<nexists>w'. state_add_evt 103 7 [101, 55] None (Some 101) ?w = Some (ST_NOMEM, w')"
  proof -
    have m2: "malloc sizeof_event (?h\<lparr>hp_next := 1004, hp_live := 1000 # hp_live ?h\<rparr>) =
      (Some 1004, ?h\<lparr>hp_next := 1084, hp_live := 1004 # 1000 # hp_live ?h\<rparr>)"
      by (simp add: malloc_def sizeof_event_def)
    show ?thesis using m m2
      by (auto simp: state_add_evt_def w_malloc_def Let_def split: bind_splits prod.splits if_splits)
  qed
  ultimately show ?thesis
    using state_add_evt_spec [of ?w 103 _ _ 7 "[101, 55]" None "Some 101", OF s(1) _ t hp] s(2)
    by (auto simp: ex_evtab_ok)
qed

end
