(* ===== verification/Fsm_Own.thy ===== *)
theory Fsm_Own imports Fsm_Tables begin

text \<open>
  Which blocks of memory belong to a machine, its states and its events; the invariant \<open>life_inv\<close>
  that they are live and pairwise different; and what allocating, releasing, writing to other
  blocks, replacing a table or adding a state does to it.
\<close>

unbundle bit_operations_syntax

section \<open>Ownership\<close>

definition tbl_own :: "fmem htable \<Rightarrow> addr multiset" where
  \<comment> \<open>An event table: its array, its nodes, and the keys and events in them.\<close>
  "tbl_own t = mset (ht_owned t) +
     mset (concat (map (node_contents (HT_FREEKEY OR HT_FREEDATA)) (ht_nodes t)))"

definition st_own :: "world \<Rightarrow> addr \<Rightarrow> addr multiset" where
  "st_own w a =
     (case fm_state (w_mem w) a of
        None \<Rightarrow> {#}
      | Some s \<Rightarrow> {#a, evttable s, st_key s#} +
          (case w_table w (evttable s) of None \<Rightarrow> {#} | Some t \<Rightarrow> tbl_own t))"

definition pq_own :: "pqnode list list \<Rightarrow> addr multiset" where
  "pq_own q = mset (concat (map (\<lambda>n. [pq_data n, pq_addr n]) (concat q)))"

definition fsm_own :: "fsm_t \<Rightarrow> world \<Rightarrow> addr multiset" where
  "fsm_own f w =
     {#f_addr f, f_sttable f, f_mobj f, f_pqaddr f#} +
     (case w_table w (f_sttable f) of None \<Rightarrow> {#} | Some t \<Rightarrow> mset (ht_owned t)) +
     pq_own (f_pqtable f)"

definition owned :: "fsm_t \<Rightarrow> world \<Rightarrow> addr multiset" where
  "owned f w = fsm_own f w + (\<Sum>a\<in>dom (fm_state (w_mem w)). st_own w a)"

definition life_inv :: "fsm_t \<Rightarrow> world \<Rightarrow> bool" where
  "life_inv f w \<longleftrightarrow> fsm_ok f w \<and> no_null w \<and> heap_ok (w_heap w) \<and>
     finite (dom (fm_state (w_mem w))) \<and> owned f w \<subseteq># mset (hp_live (w_heap w))"

lemma lifeD:
  assumes "life_inv f w"
  shows "fsm_ok f w" "no_null w" "heap_ok (w_heap w)" "finite (dom (fm_state (w_mem w)))"
    "owned f w \<subseteq># mset (hp_live (w_heap w))" "world_ok w"
  using assms by (simp_all add: life_inv_def fsm_ok_def)

lemma contents_both:
  "node_contents (HT_FREEKEY OR HT_FREEDATA) n = hn_key n # (case hn_data n of None \<Rightarrow> [] | Some d \<Rightarrow> [d])"
  by (simp add: node_contents_def HT_FREEKEY_def HT_FREEDATA_def)

lemma tbl_own_mem:
  "ht_tbladdr t \<in># tbl_own t" "n \<in> set (ht_nodes t) \<Longrightarrow> hn_addr n \<in># tbl_own t"
  "n \<in> set (ht_nodes t) \<Longrightarrow> hn_key n \<in># tbl_own t"
  "n \<in> set (ht_nodes t) \<Longrightarrow> hn_data n = Some d \<Longrightarrow> d \<in># tbl_own t"
  by (force simp: tbl_own_def ht_owned_def contents_both)+

lemma life_table:
  "life_inv f w \<Longrightarrow> fm_state (w_mem w) a = Some s \<Longrightarrow>
    \<exists>t. w_table w (evttable s) = Some t \<and> tbl_ok (w_mem w) t \<and> evts_ok w t"
  using lifeD(6) by (auto simp: world_ok_def)

lemma st_own_eq:
  "fm_state (w_mem w) a = Some s \<Longrightarrow> w_table w (evttable s) = Some t \<Longrightarrow>
    st_own w a = {#a, evttable s, st_key s#} + tbl_own t"
  by (simp add: st_own_def)

lemma live_count:
  assumes "heap_ok h" "M \<subseteq># mset (hp_live h)"
  shows "count M x \<le> 1"
proof -
  have "count M x \<le> count (mset (hp_live h)) x" using assms(2) by (simp add: subseteq_mset_def)
  also have "\<dots> \<le> 1" using assms(1) by (auto simp: heap_ok_def heap_wf_def distinct_count_atmost_1)
  finally show ?thesis .
qed

lemma owned_split:
  assumes "finite (dom (fm_state (w_mem w)))" "a \<in> dom (fm_state (w_mem w))"
  shows "owned f w = fsm_own f w + st_own w a + (\<Sum>b\<in>dom (fm_state (w_mem w)) - {a}. st_own w b)"
  unfolding owned_def using sum.remove [OF assms, of "st_own w"] by (simp add: add.assoc)

lemma owned_state: "finite (dom (fm_state (w_mem w))) \<Longrightarrow> a \<in> dom (fm_state (w_mem w)) \<Longrightarrow> st_own w a \<subseteq># owned f w"
  by (subst owned_split [of w a]) (simp_all add: subseteq_mset_def)

lemma owned_live: "life_inv f w \<Longrightarrow> x \<in># owned f w \<Longrightarrow> x \<in> set (hp_live (w_heap w))"
  using lifeD(5) by (metis mset_subset_eqD set_mset_mset)

lemma owned_sep:
  assumes inv: "life_inv f w" and x: "x \<in># st_own w a" and a: "a \<in> dom (fm_state (w_mem w))"
  shows "x \<notin># fsm_own f w" "b \<in> dom (fm_state (w_mem w)) \<Longrightarrow> b \<noteq> a \<Longrightarrow> x \<notin># st_own w b"
    "count (st_own w a) x = 1"
proof -
  let ?rest = "\<Sum>b\<in>dom (fm_state (w_mem w)) - {a}. st_own w b"
  have "count (owned f w) x \<le> 1" by (rule live_count [OF lifeD(3,5) [OF inv]])
  then have c: "count (fsm_own f w) x + count (st_own w a) x + count ?rest x \<le> 1"
    unfolding owned_split [OF lifeD(4) [OF inv] a] by simp
  moreover have p: "1 \<le> count (st_own w a) x" using x by (simp only: Suc_le_eq count_greater_zero_iff One_nat_def)
  ultimately have z: "count (fsm_own f w) x = 0" "count ?rest x = 0" "count (st_own w a) x = 1" by linarith+
  show "x \<notin># fsm_own f w" "count (st_own w a) x = 1" using z by (simp_all add: not_in_iff)
  assume b: "b \<in> dom (fm_state (w_mem w))" "b \<noteq> a"
  then have "st_own w b \<subseteq># ?rest"
    using lifeD(4) [OF inv] sum.remove [of "dom (fm_state (w_mem w)) - {a}" b "st_own w"] by simp
  then have "count (st_own w b) x \<le> count ?rest x" by (simp add: subseteq_mset_def)
  with z show "x \<notin># st_own w b" by (simp add: not_in_iff)
qed

lemma st_own_mem:
  assumes "fm_state (w_mem w) a = Some s"
  shows "a \<in># st_own w a" "evttable s \<in># st_own w a" "st_key s \<in># st_own w a"
    "w_table w (evttable s) = Some t \<Longrightarrow> x \<in># tbl_own t \<Longrightarrow> x \<in># st_own w a"
  using assms by (auto simp: st_own_def)

lemma fsm_own_mem: "f_sttable f \<in># fsm_own f w"
  by (simp add: fsm_own_def)

lemma state_sep:
  assumes inv: "life_inv f w" and s: "fm_state (w_mem w) a = Some s"
  shows "evttable s \<noteq> f_sttable f"
    "fm_state (w_mem w) b = Some s' \<Longrightarrow> b \<noteq> a \<Longrightarrow> evttable s' \<noteq> evttable s \<and> st_key s' \<noteq> st_key s"
    "w_table w (evttable s) = Some t \<Longrightarrow> n \<in> set (ht_nodes t) \<Longrightarrow> hn_key n \<noteq> st_key s"
    "fm_state (w_mem w) b = Some s' \<Longrightarrow> w_table w (evttable s') = Some t' \<Longrightarrow> n \<in> set (ht_nodes t') \<Longrightarrow>
      hn_key n \<noteq> st_key s"
proof -
  have a: "a \<in> dom (fm_state (w_mem w))" using s by auto
  note m = st_own_mem [OF s]
  show "evttable s \<noteq> f_sttable f" using owned_sep(1) [OF inv m(2) a] fsm_own_mem by metis
  show "evttable s' \<noteq> evttable s \<and> st_key s' \<noteq> st_key s" if b: "fm_state (w_mem w) b = Some s'" "b \<noteq> a"
  proof -
    have "evttable s \<notin># st_own w b" "st_key s \<notin># st_own w b"
      using owned_sep(2) [OF inv m(2) a] owned_sep(2) [OF inv m(3) a] b by blast+
    then show ?thesis using st_own_mem [OF b(1)] by metis
  qed
  show *: "hn_key n \<noteq> st_key s" if "w_table w (evttable s) = Some t" "n \<in> set (ht_nodes t)" for t n
  proof
    assume "hn_key n = st_key s"
    then have "st_key s \<in># tbl_own t" using tbl_own_mem(3) [OF that(2)] by simp
    then have "2 \<le> count (st_own w a) (st_key s)" unfolding st_own_eq [OF s that(1)] by (simp add: Suc_le_eq)
    with owned_sep(3) [OF inv m(3) a] show False by simp
  qed
  show "hn_key n \<noteq> st_key s"
    if b: "fm_state (w_mem w) b = Some s'" "w_table w (evttable s') = Some t'" "n \<in> set (ht_nodes t')"
  proof (cases "b = a")
    case True
    with b s * show ?thesis by simp
  next
    case False
    with owned_sep(2) [OF inv m(3) a, of b] b(1) have "st_key s \<notin># st_own w b" by (simp add: domI)
    with st_own_mem(4) [OF b(1,2) tbl_own_mem(3) [OF b(3)]] show ?thesis by metis
  qed
qed

text \<open>The keys that the tables compare all lie in blocks of the states.\<close>

lemma keys_owned:
  assumes inv: "life_inv f w"
  shows "fm_state (w_mem w) a = Some s \<Longrightarrow> w_table w (evttable s) = Some t \<Longrightarrow> n \<in> set (ht_nodes t) \<Longrightarrow>
      hn_key n \<in># owned f w"
    "fm_state (w_mem w) a = Some s \<Longrightarrow> w_table w (evttable s) = Some t \<Longrightarrow> n \<in> set (ht_nodes t) \<Longrightarrow>
      hn_data n = Some d \<Longrightarrow> d \<in># owned f w"
    "fm_state (w_mem w) a = Some s \<Longrightarrow> a \<in># owned f w \<and> evttable s \<in># owned f w \<and> st_key s \<in># owned f w"
    "w_table w (f_sttable f) = Some t \<Longrightarrow> n \<in> set (ht_nodes t) \<Longrightarrow> hn_key n \<in># owned f w"
proof -
  have sub: "x \<in># owned f w" if "fm_state (w_mem w) a = Some s" "x \<in># st_own w a" for x a s
    by (rule mset_subset_eqD [OF owned_state [OF lifeD(4) [OF inv]] that(2)]) (use that in auto)
  show "hn_key n \<in># owned f w" if "fm_state (w_mem w) a = Some s" "w_table w (evttable s) = Some t" "n \<in> set (ht_nodes t)" for a s t n
    using sub [OF that(1) st_own_mem(4) [OF that(1,2) tbl_own_mem(3) [OF that(3)]]] .
  show "d \<in># owned f w" if "fm_state (w_mem w) a = Some s" "w_table w (evttable s) = Some t" "n \<in> set (ht_nodes t)" "hn_data n = Some d"
    using sub [OF that(1) st_own_mem(4) [OF that(1,2) tbl_own_mem(4) [OF that(3,4)]]] .
  show s: "a \<in># owned f w \<and> evttable s \<in># owned f w \<and> st_key s \<in># owned f w" if "fm_state (w_mem w) a = Some s" for a s
    using sub [OF that] st_own_mem [OF that] by blast
  show "hn_key n \<in># owned f w" if "w_table w (f_sttable f) = Some t" "n \<in> set (ht_nodes t)"
  proof -
    obtain t' where "w_table w (f_sttable f) = Some t'" and
      "\<forall>n\<in>set (ht_nodes t'). \<exists>a s. hn_data n = Some a \<and> fm_state (w_mem w) a = Some s \<and> st_key s = hn_key n"
      using fsm_okD(3) [OF lifeD(1) [OF inv]] by blast
    with that(1) have "\<forall>n\<in>set (ht_nodes t). \<exists>a s. hn_data n = Some a \<and> fm_state (w_mem w) a = Some s \<and> st_key s = hn_key n"
      by simp
    with that(2) obtain a s' where "fm_state (w_mem w) a = Some s'" "st_key s' = hn_key n" by blast
    with s show ?thesis by metis
  qed
qed

section \<open>What does not touch the blocks\<close>

text \<open>
  \<open>same_objs f w w'\<close>: \<open>w'\<close> has the same states and the same tables of the machine and of the
  states, and their keys and events; everything else may differ.
\<close>

definition same_objs :: "fsm_t \<Rightarrow> world \<Rightarrow> world \<Rightarrow> bool" where
  "same_objs f w w' \<longleftrightarrow> fm_state (w_mem w') = fm_state (w_mem w) \<and>
     w_table w' (f_sttable f) = w_table w (f_sttable f) \<and>
     (\<forall>a s. fm_state (w_mem w) a = Some s \<longrightarrow> w_table w' (evttable s) = w_table w (evttable s)) \<and>
     (\<forall>x\<in>#owned f w. fm_cell (w_mem w') x = fm_cell (w_mem w) x \<and> fm_event (w_mem w') x = fm_event (w_mem w) x)"

lemma same_objs_owned: "same_objs f w w' \<Longrightarrow> owned f w' = owned f w"
proof -
  assume s: "same_objs f w w'"
  have "st_own w' a = st_own w a" for a
    using s by (auto simp: same_objs_def st_own_def split: option.split)
  moreover have "fsm_own f w' = fsm_own f w" using s by (simp add: same_objs_def fsm_own_def)
  ultimately show ?thesis using s by (simp add: owned_def same_objs_def)
qed

lemma same_objs_tables:
  assumes inv: "life_inv f w" and s: "same_objs f w w'"
    and t: "w_table w (f_sttable f) = Some t \<or>
      (\<exists>a s. fm_state (w_mem w) a = Some s \<and> w_table w (evttable s) = Some t)"
  shows "tbl_ok (w_mem w) t \<Longrightarrow> tbl_ok (w_mem w') t" "tbl_ok (w_mem w) t \<Longrightarrow> ht_map fm_cell (w_mem w') t = ht_map fm_cell (w_mem w) t"
proof -
  have "hn_key n \<in># owned f w" if "n \<in> set (ht_nodes t)" for n
    using t keys_owned(1,4) [OF inv] that by blast
  then have c: "fm_cell (w_mem w') (hn_key n) = fm_cell (w_mem w) (hn_key n)" if "n \<in> set (ht_nodes t)" for n
    using s that by (simp add: same_objs_def)
  assume ok: "tbl_ok (w_mem w) t"
  then have f: "stk.for_ht t" by (simp add: tbl_ok_def)
  from ht_inv_cong [OF c f] ok show "tbl_ok (w_mem w') t" "ht_map fm_cell (w_mem w') t = ht_map fm_cell (w_mem w) t"
    by (simp_all add: tbl_ok_def)
qed

lemma same_objs_evts:
  assumes inv: "life_inv f w" and s: "same_objs f w w'" and t: "fm_state (w_mem w) a = Some s" "w_table w (evttable s) = Some t"
    and n: "n \<in> set (ht_nodes t)" "hn_data n = Some d"
  shows "fm_event (w_mem w') d = fm_event (w_mem w) d"
  using keys_owned(2) [OF inv t n] s by (simp add: same_objs_def)

lemma same_objs_maps:
  assumes inv: "life_inv f w" and s: "same_objs f w w'"
  shows "st_map f w' = st_map f w" "key_at w' a = key_at w a" "evt_at w' a k = evt_at w a k"
proof -
  obtain t where t: "w_table w (f_sttable f) = Some t" "tbl_ok (w_mem w) t" using fsm_okD(3) [OF lifeD(1) [OF inv]] by blast
  show "st_map f w' = st_map f w"
    using same_objs_tables(2) [OF inv s] t s by (simp add: st_map_def same_objs_def)
  show "key_at w' a = key_at w a"
    using keys_owned(3) [OF inv, of a] s by (cases "fm_state (w_mem w) a") (auto simp: key_at_def same_objs_def)
  show "evt_at w' a k = evt_at w a k"
  proof (cases "fm_state (w_mem w) a")
    case None
    with s show ?thesis by (simp add: evt_at_def same_objs_def)
  next
    case (Some st)
    obtain t where t: "w_table w (evttable st) = Some t" "tbl_ok (w_mem w) t" using life_table [OF inv Some] by blast
    have m: "ht_map fm_cell (w_mem w') t = ht_map fm_cell (w_mem w) t"
      using same_objs_tables(2) [OF inv s _ t(2)] Some t(1) by blast
    have "fm_event (w_mem w') e = fm_event (w_mem w) e" if "ht_map fm_cell (w_mem w) t k = Some (Some e)" for e
    proof -
      obtain n where "n \<in> set (ht_nodes t)" "hn_data n = Some e" using tbl_map_node [OF t(2) \<open>_ = Some (Some e)\<close>] by blast
      then show ?thesis by (rule same_objs_evts [OF inv s Some t(1)])
    qed
    with s Some t(1) m show ?thesis by (auto simp: evt_at_def same_objs_def split: bind_splits)
  qed
qed

lemma same_objs_inv:
  assumes inv: "life_inv f w" and s: "same_objs f w w'" and h: "heap_ok (w_heap w')" "owned f w \<subseteq># mset (hp_live (w_heap w'))"
  shows "life_inv f w'"
proof -
  note S = s [unfolded same_objs_def] and M = same_objs_maps [OF inv s]
  have st: "fm_state (w_mem w') = fm_state (w_mem w)" using S by blast
  have tab: "w_table w' (evttable q) = w_table w (evttable q)" if "fm_state (w_mem w) a = Some q" for a q using S that by blast
  have wo: "world_ok w'"
    unfolding world_ok_def st
  proof (intro allI impI)
    fix a q assume q: "fm_state (w_mem w) a = Some q"
    obtain t where t: "w_table w (evttable q) = Some t" "tbl_ok (w_mem w) t" "evts_ok w t" using life_table [OF inv q] by blast
    have "tbl_ok (w_mem w') t" using same_objs_tables(1) [OF inv s _ t(2)] q t(1) by blast
    moreover have "evts_ok w' t"
      unfolding evts_ok_def st
    proof
      fix n assume n: "n \<in> set (ht_nodes t)"
      with t(3) obtain d e where d: "hn_data n = Some d" "fm_event (w_mem w) d = Some e"
        "\<forall>b. evt_newstate e = Some b \<longrightarrow> b \<in> dom (fm_state (w_mem w))" by (auto simp: evts_ok_def)
      with same_objs_evts [OF inv s q t(1) n d(1)]
      show "\<exists>a e. hn_data n = Some a \<and> fm_event (w_mem w') a = Some e \<and>
          (\<forall>b. evt_newstate e = Some b \<longrightarrow> b \<in> dom (fm_state (w_mem w)))" by auto
    qed
    ultimately show "\<exists>t. w_table w' (evttable q) = Some t \<and> tbl_ok (w_mem w') t \<and> evts_ok w' t"
      using t(1) tab [OF q] by auto
  qed
  have "fsm_ok f w'"
  proof -
    obtain t where t: "w_table w (f_sttable f) = Some t" "tbl_ok (w_mem w) t"
      "\<forall>n\<in>set (ht_nodes t). \<exists>a q. hn_data n = Some a \<and> fm_state (w_mem w) a = Some q \<and> st_key q = hn_key n"
      using fsm_okD(3) [OF lifeD(1) [OF inv]] by blast
    have "tbl_ok (w_mem w') t" using same_objs_tables(1) [OF inv s _ t(2)] t(1) by blast
    with t S have "\<exists>t. w_table w' (f_sttable f) = Some t \<and> tbl_ok (w_mem w') t \<and>
        (\<forall>n\<in>set (ht_nodes t). \<exists>a q. hn_data n = Some a \<and> fm_state (w_mem w') a = Some q \<and> st_key q = hn_key n)"
      by (intro exI [of _ t]) simp
    then show ?thesis
      using wo fsm_okD(2,4) [OF lifeD(1) [OF inv]] unfolding fsm_ok_def M by blast
  qed
  moreover have "no_null w'"
    unfolding no_null_def st
  proof (intro allI impI ballI)
    fix a q t n ev e
    assume q: "fm_state (w_mem w) a = Some q" and t: "w_table w' (evttable q) = Some t" and n: "n \<in> set (ht_nodes t)"
      and e: "hn_data n = Some ev" "fm_event (w_mem w') ev = Some e"
    have t': "w_table w (evttable q) = Some t" using tab [OF q] t by simp
    have "fm_event (w_mem w) ev = Some e" using same_objs_evts [OF inv s q t' n e(1)] e(2) by simp
    with lifeD(2) [OF inv] q t' n e(1) show "evt_newstate e \<noteq> None" unfolding no_null_def by blast
  qed
  ultimately show ?thesis
    using lifeD(4) [OF inv] h same_objs_owned [OF s] unfolding life_inv_def st by simp
qed

lemma same_objs_refl [simp]: "same_objs f w w"
  by (simp add: same_objs_def)

lemma same_objs_trans: "same_objs f w w1 \<Longrightarrow> same_objs f w1 w2 \<Longrightarrow> same_objs f w w2"
  using same_objs_owned [of f w w1] by (simp add: same_objs_def)

lemma same_objs_heap: "same_objs f w (w\<lparr>w_heap := h\<rparr>)"
  by (simp add: same_objs_def)

lemma same_objs_cell: "x \<notin># owned f w \<Longrightarrow> same_objs f w (put_cell x v w)"
  by (auto simp: same_objs_def put_cell_def)

lemma same_objs_event: "x \<notin># owned f w \<Longrightarrow> same_objs f w (put_event x e w)"
  by (auto simp: same_objs_def put_event_def)

lemma same_objs_print: "same_objs f w (w_print out w)"
  by (simp add: same_objs_def)

lemma same_objs_set_heap:
  assumes inv: "life_inv f w" and sub: "owned f w \<subseteq># mset (hp_live h)"
  shows "same_objs f w (w_set_heap h w)"
proof -
  have live: "x \<in> set (hp_live h)" if "x \<in># owned f w" for x using sub that mset_subset_eqD by fastforce
  have "fm_state (w_mem w) x = None" if "x \<notin> set (hp_live h)" for x
    using keys_owned(3) [OF inv, of x] live that by (cases "fm_state (w_mem w) x") auto
  then have "fm_state (w_mem w) |` set (hp_live h) = fm_state (w_mem w)" by (auto simp: restrict_map_def fun_eq_iff)
  moreover have "f_sttable f \<in> set (hp_live h)" by (rule live) (simp add: owned_def fsm_own_def)
  moreover have "evttable s \<in> set (hp_live h)" if "fm_state (w_mem w) a = Some s" for a s
    using keys_owned(3) [OF inv that] live by blast
  ultimately show ?thesis using live by (auto simp: same_objs_def w_set_heap_def)
qed

lemma life_set_heap:
  assumes "life_inv f w" "owned f w \<subseteq># mset (hp_live h)" "heap_ok h"
  shows "life_inv f (w_set_heap h w)"
  using same_objs_inv [OF assms(1) same_objs_set_heap [OF assms(1,2)]] assms by (simp add: w_set_heap_def)

section \<open>Replacing a table\<close>

lemma life_put_evtab:
  assumes inv: "life_inv f w" and a: "fm_state (w_mem w) a = Some s" and t: "w_table w (evttable s) = Some t"
    and t': "tbl_ok (w_mem w) t'" "evts_ok w t'"
      "\<And>n ev e. n \<in> set (ht_nodes t') \<Longrightarrow> hn_data n = Some ev \<Longrightarrow> fm_event (w_mem w) ev = Some e \<Longrightarrow> evt_newstate e \<noteq> None"
    and h: "heap_ok h" "owned f w + tbl_own t' \<subseteq># mset (hp_live h) + tbl_own t"
  shows "life_inv f (put_table (evttable s) t' (w\<lparr>w_heap := h\<rparr>))"
    "owned f (put_table (evttable s) t' (w\<lparr>w_heap := h\<rparr>)) + tbl_own t = owned f w + tbl_own t'"
    "st_map f (put_table (evttable s) t' (w\<lparr>w_heap := h\<rparr>)) = st_map f w"
proof -
  let ?w = "put_table (evttable s) t' (w\<lparr>w_heap := h\<rparr>)"
  have mem: "w_mem ?w = w_mem w" by (simp add: put_table_def)
  have tab: "w_table ?w x = (if x = evttable s then Some t' else w_table w x)" for x by (simp add: put_table_def)
  have ft: "evttable s \<noteq> f_sttable f" by (rule state_sep(1) [OF inv a])
  have other: "evttable q \<noteq> evttable s" if "fm_state (w_mem w) b = Some q" "b \<noteq> a" for b q
    using state_sep(2) [OF inv a that] by blast
  have da: "a \<in> dom (fm_state (w_mem w))" using a by auto
  show sm: "st_map f ?w = st_map f w" using ft by (simp add: st_map_def mem tab cong: option.case_cong)
  have "st_own ?w b = st_own w b" if "b \<noteq> a" for b
    using other [OF _ that] by (auto simp: st_own_def mem tab split: option.split)
  then have rest: "(\<Sum>b\<in>dom (fm_state (w_mem w)) - {a}. st_own ?w b) = (\<Sum>b\<in>dom (fm_state (w_mem w)) - {a}. st_own w b)"
    by (intro sum.cong) auto
  have "fsm_own f ?w = fsm_own f w" using ft by (simp add: fsm_own_def tab)
  moreover have "owned f ?w = fsm_own f ?w + st_own ?w a + (\<Sum>b\<in>dom (fm_state (w_mem w)) - {a}. st_own ?w b)"
    using owned_split [of ?w a f] lifeD(4) [OF inv] da unfolding mem by simp
  moreover have "st_own ?w a = {#a, evttable s, st_key s#} + tbl_own t'" using a by (simp add: st_own_def mem tab)
  ultimately show own: "owned f ?w + tbl_own t = owned f w + tbl_own t'"
    unfolding rest owned_split [OF lifeD(4) [OF inv] da] st_own_eq [OF a t] by simp
  then have "owned f ?w + tbl_own t \<subseteq># mset (hp_live (w_heap ?w)) + tbl_own t" using h(2) by (simp add: put_table_def)
  then have sub: "owned f ?w \<subseteq># mset (hp_live (w_heap ?w))" by simp
  have "world_ok ?w"
    unfolding world_ok_def mem
  proof (intro allI impI)
    fix b q assume q: "fm_state (w_mem w) b = Some q"
    have ev: "evts_ok ?w u = evts_ok w u" for u by (simp add: evts_ok_def mem)
    show "\<exists>u. w_table ?w (evttable q) = Some u \<and> tbl_ok (w_mem w) u \<and> evts_ok ?w u"
      using t'(1,2) life_table [OF inv q] by (auto simp: tab ev)
  qed
  moreover have "key_at ?w = key_at w" by (simp add: key_at_def mem fun_eq_iff)
  ultimately have "fsm_ok f ?w"
    using lifeD(1) [OF inv] ft unfolding fsm_ok_def sm mem tab by simp
  moreover have "no_null ?w"
    unfolding no_null_def mem tab using lifeD(2) [OF inv] t'(3) unfolding no_null_def by (metis option.inject)
  moreover have "heap_ok (w_heap ?w)" using h(1) by (simp add: put_table_def)
  ultimately show "life_inv f ?w" using lifeD(4) [OF inv] sub unfolding life_inv_def mem by blast
qed

lemma life_put_sttab:
  assumes inv: "life_inv f w" and t: "w_table w (f_sttable f) = Some t"
    and t': "tbl_ok (w_mem w) t'" "dom (ht_map fm_cell (w_mem w) t) \<subseteq> dom (ht_map fm_cell (w_mem w) t')"
      "\<forall>n\<in>set (ht_nodes t'). \<exists>a s. hn_data n = Some a \<and> fm_state (w_mem w) a = Some s \<and> st_key s = hn_key n"
    and h: "heap_ok h" "owned f w + mset (ht_owned t') \<subseteq># mset (hp_live h) + mset (ht_owned t)"
  shows "life_inv f (put_table (f_sttable f) t' (w\<lparr>w_heap := h\<rparr>))"
    "owned f (put_table (f_sttable f) t' (w\<lparr>w_heap := h\<rparr>)) + mset (ht_owned t) = owned f w + mset (ht_owned t')"
    "st_map f (put_table (f_sttable f) t' (w\<lparr>w_heap := h\<rparr>)) = ht_map fm_cell (w_mem w) t'"
proof -
  let ?w = "put_table (f_sttable f) t' (w\<lparr>w_heap := h\<rparr>)"
  have mem: "w_mem ?w = w_mem w" by (simp add: put_table_def)
  have tab: "w_table ?w x = (if x = f_sttable f then Some t' else w_table w x)" for x by (simp add: put_table_def)
  have ne: "evttable q \<noteq> f_sttable f" if "fm_state (w_mem w) b = Some q" for b q by (rule state_sep(1) [OF inv that])
  show sm: "st_map f ?w = ht_map fm_cell (w_mem w) t'" by (simp add: st_map_def mem tab)
  have "st_own ?w b = st_own w b" for b using ne by (auto simp: st_own_def mem tab split: option.split)
  then show own: "owned f ?w + mset (ht_owned t) = owned f w + mset (ht_owned t')"
    by (simp add: owned_def fsm_own_def mem tab t)
  then have "owned f ?w + mset (ht_owned t) \<subseteq># mset (hp_live (w_heap ?w)) + mset (ht_owned t)"
    using h(2) by (simp add: put_table_def)
  then have sub: "owned f ?w \<subseteq># mset (hp_live (w_heap ?w))" by simp
  have "evts_ok ?w u = evts_ok w u" for u by (simp add: evts_ok_def mem)
  then have "world_ok ?w" using lifeD(6) [OF inv] ne by (fastforce simp: world_ok_def mem tab)
  moreover have "key_at ?w = key_at w" by (simp add: key_at_def mem fun_eq_iff)
  moreover have "st_map f w = ht_map fm_cell (w_mem w) t" using t by (simp add: st_map_def)
  then have "dom (st_map f w) \<subseteq> dom (st_map f ?w)" using t'(2) by (simp only: sm)
  ultimately have "fsm_ok f ?w"
    using fsm_okD(2,4) [OF lifeD(1) [OF inv]] t'(1,3) unfolding fsm_ok_def mem tab by fastforce
  moreover have "no_null ?w" using lifeD(2) [OF inv] ne by (auto simp: no_null_def mem tab)
  moreover have "heap_ok (w_heap ?w)" using h(1) by (simp add: put_table_def)
  ultimately show "life_inv f ?w" using lifeD(4) [OF inv] sub unfolding life_inv_def mem by blast
qed

section \<open>A new state\<close>

lemma life_new_state:
  assumes inv: "life_inv f w" and fresh: "ps \<notin># owned f w" "pt \<notin># owned f w"
    and S: "evttable S = pt"
    and t: "tbl_ok (w_mem w) t" "ht_nodes t = []"
    and h: "heap_ok h" "owned f w + {#ps, pt, st_key S#} + tbl_own t \<subseteq># mset (hp_live h)"
  shows "life_inv f (put_table pt t (put_state ps S (w\<lparr>w_heap := h\<rparr>)))"
    "owned f (put_table pt t (put_state ps S (w\<lparr>w_heap := h\<rparr>))) = owned f w + {#ps, pt, st_key S#} + tbl_own t"
    "st_map f (put_table pt t (put_state ps S (w\<lparr>w_heap := h\<rparr>))) = st_map f w"
proof -
  let ?w = "put_table pt t (put_state ps S (w\<lparr>w_heap := h\<rparr>))"
  have st: "fm_state (w_mem ?w) = (fm_state (w_mem w))(ps \<mapsto> S)" by (simp add: put_table_def put_state_def)
  have cell: "fm_cell (w_mem ?w) = fm_cell (w_mem w)" and ev: "fm_event (w_mem ?w) = fm_event (w_mem w)"
    by (simp_all add: put_table_def put_state_def)
  have tab: "w_table ?w x = (if x = pt then Some t else w_table w x)" for x by (simp add: put_table_def put_state_def)
  have ft: "pt \<noteq> f_sttable f" using fresh(2) by (auto simp: owned_def fsm_own_def)
  have old: "b \<noteq> ps \<and> evttable q \<noteq> pt" if "fm_state (w_mem w) b = Some q" for b q
    using keys_owned(3) [OF inv that] fresh by metis
  then have new: "fm_state (w_mem w) ps = None" by (cases "fm_state (w_mem w) ps") auto
  have map: "ht_map fm_cell (w_mem ?w) u = ht_map fm_cell (w_mem w) u" for u
    by (simp add: ht_map_def ht_pairs_def cell)
  show sm: "st_map f ?w = st_map f w" using ft by (simp add: st_map_def tab map cong: option.case_cong)
  have tok: "tbl_ok (w_mem ?w) u" if "tbl_ok (w_mem w) u" for u
    using that ht_inv_cong [of u "w_mem ?w" "w_mem w"] by (simp add: tbl_ok_def cell)
  have "st_own ?w ps = {#ps, pt, st_key S#} + tbl_own t" using S by (simp add: st_own_def st tab)
  moreover have "st_own ?w b = st_own w b" if "b \<in> dom (fm_state (w_mem w))" for b
    using old that by (auto simp: st_own_def st tab split: option.split)
  then have "(\<Sum>b\<in>dom (fm_state (w_mem w)). st_own ?w b) = (\<Sum>b\<in>dom (fm_state (w_mem w)). st_own w b)"
    by (intro sum.cong) auto
  moreover have "fsm_own f ?w = fsm_own f w" using ft by (simp add: fsm_own_def tab)
  moreover have "ps \<notin> dom (fm_state (w_mem w))" using new by auto
  ultimately show own: "owned f ?w = owned f w + {#ps, pt, st_key S#} + tbl_own t"
    using lifeD(4) [OF inv] by (simp add: owned_def st ac_simps)
  have sub: "owned f ?w \<subseteq># mset (hp_live (w_heap ?w))"
    unfolding own using h(2) by (simp add: put_table_def put_state_def)
  have evok: "evts_ok ?w u" if "evts_ok w u" for u
    using that unfolding evts_ok_def ev st by fastforce
  have "world_ok ?w"
    unfolding world_ok_def
  proof (intro allI impI)
    fix b q assume q: "fm_state (w_mem ?w) b = Some q"
    show "\<exists>u. w_table ?w (evttable q) = Some u \<and> tbl_ok (w_mem ?w) u \<and> evts_ok ?w u"
    proof (cases "b = ps")
      case True
      with q have "q = S" by (simp add: st)
      with S t(2) tok [OF t(1)] show ?thesis by (intro exI [of _ t]) (simp add: tab evts_ok_def)
    next
      case False
      with q have "fm_state (w_mem w) b = Some q" by (simp add: st)
      with life_table [OF inv this] old [OF this] tok evok show ?thesis by (auto simp: tab)
    qed
  qed
  moreover have "key_at ?w c = Some k" if "key_at w c = Some k" for c k
    using old that by (auto simp: key_at_def st cell)
  then have "\<exists>k. key_at ?w c = Some k \<and> k \<in> dom (st_map f w)" if "f_cstate f = Some c" for c
    using fsm_okD(4) [OF lifeD(1) [OF inv] that] by blast
  moreover obtain u where u: "w_table w (f_sttable f) = Some u" "tbl_ok (w_mem w) u"
    "\<forall>n\<in>set (ht_nodes u). \<exists>a q. hn_data n = Some a \<and> fm_state (w_mem w) a = Some q \<and> st_key q = hn_key n"
    using fsm_okD(3) [OF lifeD(1) [OF inv]] by blast
  have "\<forall>n\<in>set (ht_nodes u). \<exists>a q. hn_data n = Some a \<and> fm_state (w_mem ?w) a = Some q \<and> st_key q = hn_key n"
    using u(3) old unfolding st by (metis fun_upd_other)
  with u tok [OF u(2)] ft have "\<exists>u. w_table ?w (f_sttable f) = Some u \<and> tbl_ok (w_mem ?w) u \<and>
      (\<forall>n\<in>set (ht_nodes u). \<exists>a q. hn_data n = Some a \<and> fm_state (w_mem ?w) a = Some q \<and> st_key q = hn_key n)"
    unfolding tab by auto
  ultimately have "fsm_ok f ?w" using fsm_okD(2) [OF lifeD(1) [OF inv]] unfolding fsm_ok_def sm by blast
  moreover have "no_null ?w"
    unfolding no_null_def ev
  proof (intro allI impI ballI)
    fix b q u n e x
    assume q: "fm_state (w_mem ?w) b = Some q" "w_table ?w (evttable q) = Some u" "n \<in> set (ht_nodes u)"
      "hn_data n = Some e" "fm_event (w_mem w) e = Some x"
    have "b \<noteq> ps" using q(1-3) S t(2) by (auto simp: st tab)
    then have b: "fm_state (w_mem w) b = Some q" using q(1) by (simp add: st)
    then have "w_table w (evttable q) = Some u" using q(2) old [OF b] by (simp add: tab)
    with lifeD(2) [OF inv] b q(3-5) show "evt_newstate x \<noteq> None" unfolding no_null_def by blast
  qed
  moreover have "heap_ok (w_heap ?w)" using h(1) by (simp add: put_table_def put_state_def)
  moreover have "finite (dom (fm_state (w_mem ?w)))" using lifeD(4) [OF inv] by (simp add: st)
  ultimately show "life_inv f ?w" using sub unfolding life_inv_def by blast
qed

section \<open>Memory\<close>

definition balanced :: "fsm_t \<Rightarrow> world \<Rightarrow> fsm_t \<Rightarrow> world \<Rightarrow> bool" where
  \<comment> \<open>Every block obtained belongs to the machine afterwards, every block given up is released.\<close>
  "balanced f w f' w' \<longleftrightarrow>
     mset (hp_live (w_heap w')) + owned f w = mset (hp_live (w_heap w)) + owned f' w' \<and>
     hp_bad (w_heap w') = hp_bad (w_heap w)"

lemma balanced_refl [simp]: "balanced f w f w"
  by (simp add: balanced_def)

lemma balanced_trans: "balanced f w g u \<Longrightarrow> balanced g u h v \<Longrightarrow> balanced f w h v"
  unfolding balanced_def by (auto intro: mset_balance_trans)

lemma life_malloc:
  assumes inv: "life_inv f w" and m: "w_malloc n w = (r, w1)"
  shows "same_objs f w w1" "life_inv f w1" "w1 = w\<lparr>w_heap := w_heap w1\<rparr>" "hp_bad (w_heap w1) = hp_bad (w_heap w)"
    "malloc n (w_heap w) = (r, w_heap w1)"
    "r = None \<Longrightarrow> hp_live (w_heap w1) = hp_live (w_heap w)"
    "r = Some a \<Longrightarrow> hp_live (w_heap w1) = a # hp_live (w_heap w) \<and> a \<notin># owned f w \<and> 0 < a"
proof -
  obtain h where h: "malloc n (w_heap w) = (r, h)" "w1 = w\<lparr>w_heap := h\<rparr>"
    using m by (auto simp: w_malloc_def split: prod.splits)
  show s: "same_objs f w w1" by (simp add: h(2) same_objs_heap)
  show "w1 = w\<lparr>w_heap := w_heap w1\<rparr>" "malloc n (w_heap w) = (r, w_heap w1)" using h by simp_all
  show N: "hp_live (w_heap w1) = hp_live (w_heap w)" if "r = None" using h that malloc_NoneD by auto
  show S: "hp_live (w_heap w1) = a # hp_live (w_heap w) \<and> a \<notin># owned f w \<and> 0 < a" if "r = Some a" for a
  proof -
    have wf: "heap_wf (w_heap w)" using lifeD(3) [OF inv] by (simp add: heap_ok_def)
    have "a \<notin># owned f w" using malloc_fresh [OF wf] h(1) that owned_live [OF inv] by auto
    moreover have "hp_live (w_heap w1) = a # hp_live (w_heap w) \<and> a = hp_next (w_heap w)"
      using malloc_SomeD h that by auto
    ultimately show ?thesis using wf by (simp add: heap_wf_def)
  qed
  show "hp_bad (w_heap w1) = hp_bad (w_heap w)"
    using h malloc_NoneD malloc_SomeD by (cases r) auto
  have "mset (hp_live (w_heap w)) \<subseteq># mset (hp_live (w_heap w1))" using N S by (cases r) auto
  with lifeD(5) [OF inv] have "owned f w \<subseteq># mset (hp_live (w_heap w1))" by (rule subset_mset.order_trans)
  moreover have "heap_ok (w_heap w1)" using heap_ok_malloc [OF lifeD(3) [OF inv] h(1)] h(2) by simp
  ultimately show "life_inv f w1" by (rule same_objs_inv [OF inv s, rotated])
qed

lemma life_free:
  assumes inv: "life_inv f w" and a: "a \<in> set (hp_live (w_heap w))" "a \<notin># owned f w"
  shows "same_objs f w (w_free a w)" "life_inv f (w_free a w)"
    "mset (hp_live (w_heap (w_free a w))) = mset (hp_live (w_heap w)) - {#a#}"
    "hp_bad (w_heap (w_free a w)) = hp_bad (w_heap w)"
proof -
  let ?h = "cfree (Some a) (w_heap w)"
  have am: "a \<in># mset (hp_live (w_heap w))" using a(1) by simp
  note c = cfree_mset [OF am]
  show ms: "mset (hp_live (w_heap (w_free a w))) = mset (hp_live (w_heap w)) - {#a#}"
    "hp_bad (w_heap (w_free a w)) = hp_bad (w_heap w)"
    using c by (simp_all add: w_free_def w_set_heap_def)
  have "owned f w \<subseteq># mset (hp_live ?h)"
  proof (rule mset_subset_eqI)
    fix x
    have "count (owned f w) x \<le> count (mset (hp_live (w_heap w))) x"
      using lifeD(5) [OF inv] by (simp add: subseteq_mset_def)
    then show "count (owned f w) x \<le> count (mset (hp_live ?h)) x" using c a(2) by (auto simp: not_in_iff)
  qed
  with inv show "same_objs f w (w_free a w)" "life_inv f (w_free a w)"
    unfolding w_free_def by (auto intro: same_objs_set_heap life_set_heap heap_ok_cfree lifeD(3))
qed

end
