(* ===== verification/Fsm_Life.thy ===== *)
theory Fsm_Life imports Fsm_Own begin

text \<open>
  The life of a machine: every operation of the library that builds or drives it returns, keeps
  the invariant of \<open>Fsm_Own\<close>, whatever \<open>malloc\<close> refuses, and never loses or mixes up a block
  except where it says so.
\<close>

unbundle bit_operations_syntax

section \<open>Operations\<close>

lemma life_free_new:
  \<comment> \<open>Releasing a block that was obtained after \<open>w\<close>.\<close>
  assumes inv: "life_inv f w" and o: "life_inv f w1" "same_objs f w w1" and x: "x \<notin># owned f w"
    and l: "mset (hp_live (w_heap w1)) = mset (hp_live (w_heap w)) + {#x#} + L"
  shows "life_inv f (w_free x w1)" "same_objs f w (w_free x w1)"
    "mset (hp_live (w_heap (w_free x w1))) = mset (hp_live (w_heap w)) + L"
    "hp_bad (w_heap (w_free x w1)) = hp_bad (w_heap w1)"
proof -
  have own: "owned f w1 = owned f w" by (rule same_objs_owned [OF o(2)])
  have "x \<in># mset (hp_live (w_heap w1))" unfolding l by simp
  then have "x \<in> set (hp_live (w_heap w1))" by simp
  note F = life_free [OF o(1) this, unfolded own, OF x]
  show "life_inv f (w_free x w1)" "hp_bad (w_heap (w_free x w1)) = hp_bad (w_heap w1)" using F by simp_all
  show "same_objs f w (w_free x w1)" by (rule same_objs_trans [OF o(2) F(1)])
  show "mset (hp_live (w_heap (w_free x w1))) = mset (hp_live (w_heap w)) + L" unfolding F(3) l by simp
qed

lemma same_heap_live:
  assumes "life_inv f w" "same_objs f w w1" "life_inv f w1" "hp_live (w_heap w1) = hp_live (w_heap w)" "hp_bad (w_heap w1) = hp_bad (w_heap w)"
  shows "balanced f w f w1"
  using assms by (simp add: balanced_def same_objs_owned)

lemma state_init_ok:
  assumes inv: "life_inv f w" and k: "k \<le> 43"
  shows "\<exists>ret r w'. state_init g (2 ^ k) factor w = Some ((ret, r), w') \<and> life_inv f w' \<and>
    hp_bad (w_heap w') = hp_bad (w_heap w) \<and> st_map f w' = st_map f w \<and>
    (ret = ST_NOMEM \<and> r = None \<and> same_objs f w w' \<and> mset (hp_live (w_heap w)) \<subseteq># mset (hp_live (w_heap w')) \<or>
     ret = ST_OK \<and> (\<exists>a S t. r = Some a \<and> a \<notin> dom (fm_state (w_mem w)) \<and>
       w_mem w' = (w_mem w)\<lparr>fm_state := (fm_state (w_mem w))(a \<mapsto> S)\<rparr> \<and> balanced f w f w' \<and>
       w_table w' (evttable S) = Some t \<and> ht_nodes t = []))"
proof -
  obtain r1 w1 where 1: "w_malloc sizeof_state w = (r1, w1)" by force
  note M1 = life_malloc [OF inv 1]
  show ?thesis
  proof (cases r1)
    case None
    with 1 M1 same_objs_maps(1) [OF inv M1(1)] show ?thesis by (simp add: state_init_def)
  next
    case (Some ps)
    note m1 = M1(7) [OF Some]
    obtain r2 w2 where 2: "w_malloc sizeof_htable w1 = (r2, w2)" by force
    note M2 = life_malloc [OF M1(2) 2]
    have s2: "same_objs f w w2" by (rule same_objs_trans [OF M1(1) M2(1)])
    show ?thesis
    proof (cases r2)
      case None
      have l: "mset (hp_live (w_heap w2)) = mset (hp_live (w_heap w)) + {#ps#} + {#}" using M2(6) [OF None] m1 by simp
      note F = life_free_new [OF inv M2(2) s2 _ l] 
      have x: "ps \<notin># owned f w" using m1 by simp
      show ?thesis
        using 1 2 Some None F [OF x] M1(4) M2(4) same_objs_maps(1) [OF inv F(2) [OF x]] by (simp add: state_init_def)
    next
      case pt: (Some pt)
      note m2 = M2(7) [OF pt, unfolded same_objs_owned [OF M1(1)]]
      note run = state_init_def 1 2 Some pt
      from k lifeD(3) [OF M2(2)] show ?thesis
      proof (cases rule: init_ok [where factor = "ucast factor" and hf = state_hashf and cf = state_cmpf and
            pf = state_printf and kv = fm_cell and m = "w_mem w2"])
        case (nomem h')
        let ?w3 = "w2\<lparr>w_heap := h'\<rparr>"
        have s3: "same_objs f w ?w3" by (rule same_objs_trans [OF s2 same_objs_heap])
        have i3: "life_inv f ?w3"
          using same_objs_inv [OF M2(2) same_objs_heap [of f w2 h']] nomem lifeD(5) [OF M2(2)] by simp
        have l: "mset (hp_live (w_heap ?w3)) = mset (hp_live (w_heap w)) + {#pt#} + {#ps#}" using nomem m1 m2 by simp
        note F = life_free_new [OF inv i3 s3 _ l]
        have x: "pt \<notin># owned f w" "ps \<notin># owned f w" using m1 m2 by simp_all
        note G = life_free_new [OF inv F(1) [OF x(1)] F(2) [OF x(1)] x(2), of "{#}"]
        show ?thesis
          using nomem F(3,4) [OF x(1)] G M1(4) M2(4) same_objs_maps(1) [OF inv G(2)] by (simp add: run)
      next
        case (table t h')
        let ?w3 = "w2\<lparr>w_heap := h'\<rparr>"
        have s3: "same_objs f w ?w3" by (rule same_objs_trans [OF s2 same_objs_heap])
        have "owned f w2 \<subseteq># mset (hp_live h')" unfolding table(10) using lifeD(5) [OF M2(2)] by (rule subset_mset.add_increasing2 [rotated]) simp
        then have i3: "life_inv f ?w3"
          using same_objs_inv [OF M2(2) same_objs_heap [of f w2 h']] table(3) by (simp add: ht_heap_def)
        obtain r4 w4 where 4: "w_malloc sizeof_uint ?w3 = (r4, w4)" by force
        note M4 = life_malloc [OF i3 4]
        have s4: "same_objs f w w4" by (rule same_objs_trans [OF s3 M4(1)])
        have l3: "mset (hp_live (w_heap ?w3)) = mset (hp_live (w_heap w)) + {#ps, pt#} + mset (ht_owned t)"
          using table(10) m1 m2 by simp
        show ?thesis
        proof (cases r4)
          case None
          have l: "mset (hp_live (w_heap w4)) = mset (hp_live (w_heap w)) + {#pt#} + ({#ps#} + mset (ht_owned t))"
            using l3 M4(6) [OF None] by simp
          note F = life_free_new [OF inv M4(2) s4 _ l]
          have x: "pt \<notin># owned f w" "ps \<notin># owned f w" using m1 m2 by simp_all
          have l': "mset (hp_live (w_heap (w_free pt w4))) = mset (hp_live (w_heap w)) + {#ps#} + mset (ht_owned t)"
            using F(3) [OF x(1)] by simp
          note G = life_free_new [OF inv F(1) [OF x(1)] F(2) [OF x(1)] x(2) l']
          show ?thesis
            using table(1,11) 4 None F(4) [OF x(1)] G M1(4) M2(4) M4(4) same_objs_maps(1) [OF inv G(2)] by (simp add: run)
        next
          case pk: (Some pk)
          note m4 = M4(7) [OF pk]
          let ?S = "STATE_MARK_AS_UNREACHABLE \<lparr>evttable = pt, st_key = pk, st_flag = g\<rparr>"
          let ?w = "put_table pt t (put_state ps ?S w4)"
          have own4: "owned f w4 = owned f w" by (rule same_objs_owned [OF s4])
          have S: "evttable ?S = pt" "st_key ?S = pk" by (simp_all add: STATE_MARK_AS_UNREACHABLE_def)
          have tl: "tbl_own t = mset (ht_owned t)" by (simp add: tbl_own_def table(5))
          have l4: "mset (hp_live (w_heap w4)) = mset (hp_live (w_heap w)) + {#ps, pt, pk#} + tbl_own t"
            using l3 m4 by (simp add: tl)
          have mem: "w_mem w1 = w_mem w" "w_mem w2 = w_mem w1" "w_mem w4 = w_mem w2"
            by (subst M1(3), simp) (subst M2(3), simp, subst M4(3), simp)
          have tok: "tbl_ok (w_mem w4) t"
            using table(2,5-7) by (simp add: tbl_ok_def stk.for_ht_def mem)
          have x: "ps \<notin># owned f w4" "pt \<notin># owned f w4" using m1 m2 by (simp_all add: own4)
          have sub: "owned f w4 + {#ps, pt, st_key ?S#} + tbl_own t \<subseteq># mset (hp_live (w_heap w4))"
            unfolding own4 S l4 using lifeD(5) [OF inv] by simp
          note N = life_new_state [OF M4(2) x S(1) tok table(5) lifeD(3) [OF M4(2)] sub, simplified]
          have run': "state_init g (2 ^ k) factor w = Some ((ST_OK, Some ps), ?w)"
            using table(1) 4 pk by (simp add: run)
          have new: "ps \<notin> dom (fm_state (w_mem w))"
            using keys_owned(3) [OF inv, of ps] m1 by auto
          have bal: "balanced f w f ?w"
            using N(2) l4 M1(4) M2(4) M4(4) table(11) by (simp add: balanced_def own4 S put_table_def put_state_def ac_simps)
          have "w_mem ?w = (w_mem w)\<lparr>fm_state := (fm_state (w_mem w))(ps \<mapsto> ?S)\<rparr>"
            by (simp add: put_table_def put_state_def mem)
          moreover have "w_table ?w (evttable ?S) = Some t" by (simp add: S put_table_def)
          moreover have "st_map f ?w = st_map f w" using N(3) same_objs_maps(1) [OF inv s4] by simp
          ultimately show ?thesis
            using run' N(1) new bal table(5) by (auto simp: balanced_def)
        qed
      qed
    qed
  qed
qed

lemma evt_at_put:
  assumes inv: "life_inv f w" and a: "fm_state (w_mem w) a = Some s"
  shows "evt_at (put_table (evttable s) t (w\<lparr>w_heap := h\<rparr>)) b j =
    (if b = a then do { d \<leftarrow> ht_map fm_cell (w_mem w) t j; e \<leftarrow> d; fm_event (w_mem w) e } else evt_at w b j)"
proof (cases "b = a")
  case True
  with a show ?thesis by (simp add: evt_at_def put_table_def)
next
  case False
  have "evttable q \<noteq> evttable s" if "fm_state (w_mem w) b = Some q" for q
    using state_sep(2) [OF inv a that False] by blast
  with False show ?thesis by (cases "fm_state (w_mem w) b") (auto simp: evt_at_def put_table_def)
qed

lemma evt_at_eq:
  "fm_state (w_mem w) a = Some s \<Longrightarrow> w_table w (evttable s) = Some t \<Longrightarrow>
    evt_at w a j = do { d \<leftarrow> ht_map fm_cell (w_mem w) t j; e \<leftarrow> d; fm_event (w_mem w) e }"
  by (simp add: evt_at_def)

lemma evt_at_dom:
  assumes "life_inv f w" "fm_state (w_mem w) a = Some s" "w_table w (evttable s) = Some t"
  shows "evt_at w a j \<noteq> None \<longleftrightarrow> j \<in> dom (ht_map fm_cell (w_mem w) t)"
proof (cases "ht_map fm_cell (w_mem w) t j")
  case None
  then show ?thesis using assms(2,3) by (auto simp: evt_at_eq)
next
  case (Some d)
  have t: "tbl_ok (w_mem w) t" "evts_ok w t" using life_table [OF assms(1,2)] assms(3) by auto
  obtain n where "n \<in> set (ht_nodes t)" "hn_data n = d" using tbl_map_node [OF t(1) Some] by blast
  with t(2) have "\<exists>e. d = Some e \<and> fm_event (w_mem w) e \<noteq> None" unfolding evts_ok_def by force
  with Some assms(2,3) show ?thesis by (auto simp: evt_at_eq)
qed

lemma mset_extend:
  assumes "(A :: addr multiset) + T = B + T'"
  shows "A + (T + C) + N = B + (T' + C + N)"
proof (rule multiset_eqI)
  fix x
  show "count (A + (T + C) + N) x = count (B + (T' + C + N)) x"
    using arg_cong [OF assms(1), of "\<lambda>M. count M x"] by simp
qed

lemma mset_exchange:
  assumes "(A :: addr multiset) + T + N = B + T'" "Q + T = P + T'"
  shows "A + P + N = B + Q"
proof (rule multiset_eqI)
  fix x
  show "count (A + P + N) x = count (B + Q) x"
    using arg_cong [OF assms(1), of "\<lambda>M. count M x"] arg_cong [OF assms(2), of "\<lambda>M. count M x"] by simp
qed

text \<open>Linking an event, whose key and event are two new blocks, into the table of its state.\<close>

lemma link_event_ok:
  assumes inv: "life_inv f w" and a: "fm_state (w_mem w) a = Some s" and t: "w_table w (evttable s) = Some t"
    and new: "\<forall>b. evt_newstate e = Some b \<longrightarrow> b \<in> dom (fm_state (w_mem w))" "evt_newstate e \<noteq> None"
    and key: "fm_cell (w_mem w) pk = k" and ev: "fm_event (w_mem w) ev = Some e"
    and l: "owned f w + {#pk, ev#} \<subseteq># mset (hp_live (w_heap w))" and pk: "pk \<noteq> 0"
  shows "\<exists>ret t' h'. htable_insert (w_mem w) t pk (Some ev) (w_heap w) = Some ((ret, t'), h') \<and>
    life_inv f (put_table (evttable s) t' (w\<lparr>w_heap := h'\<rparr>)) \<and>
    st_map f (put_table (evttable s) t' (w\<lparr>w_heap := h'\<rparr>)) = st_map f w \<and> hp_bad h' = hp_bad (w_heap w) \<and>
    (ret \<noteq> HT_OK \<longrightarrow> t' = t \<and> hp_live h' = hp_live (w_heap w)) \<and>
    (ret = HT_OK \<longrightarrow> evt_at w a k = None \<and> fst (malloc sizeof_hnode (w_heap w)) \<noteq> None \<and>
       mset (hp_live h') + owned f w + {#pk, ev#} =
         mset (hp_live (w_heap w)) + owned f (put_table (evttable s) t' (w\<lparr>w_heap := h'\<rparr>)) \<and>
       (\<forall>b j. evt_at (put_table (evttable s) t' (w\<lparr>w_heap := h'\<rparr>)) b j = (if b = a \<and> j = k then Some e else evt_at w b j))) \<and>
    (ret = HT_EXISTS \<longleftrightarrow> evt_at w a k \<noteq> None) \<and> (ret = HT_NOMEM \<longrightarrow> fst (malloc sizeof_hnode (w_heap w)) = None)"
proof -
  obtain t2 where "w_table w (evttable s) = Some t2" "tbl_ok (w_mem w) t2" "evts_ok w t2"
    using life_table [OF inv a] by blast
  with t have tok: "tbl_ok (w_mem w) t" "evts_ok w t" by simp_all
  have da: "a \<in> dom (fm_state (w_mem w))" using a by auto
  have "tbl_own t \<subseteq># owned f w"
    using subset_mset.order_trans [OF _ owned_state [OF lifeD(4) [OF inv] da]] unfolding st_own_eq [OF a t] by simp
  then have "mset (ht_owned t) \<subseteq># mset (hp_live (w_heap w))"
    using subset_mset.order_trans [OF _ subset_mset.order_trans [OF _ lifeD(5) [OF inv]], of "mset (ht_owned t)" "tbl_own t"]
    by (simp add: tbl_own_def)
  then have hp: "ht_heap t (w_heap w)" using lifeD(3) [OF inv] by (simp add: ht_heap_def)
  have inv_t: "ht_inv fm_cell (w_mem w) t" "stk.for_ht t" using tok(1) by (simp_all add: tbl_ok_def)
  from stk.insert_ok [OF inv_t hp, of pk "Some ev"] obtain ret t' h' where
    i: "htable_insert (w_mem w) t pk (Some ev) (w_heap w) = Some ((ret, t'), h')"
    and st: "ht_step fm_cell (w_mem w) t (w_heap w) t' h'" "stk.for_ht t'"
    and r: "ret = HT_EXISTS \<and> k \<in> dom (ht_map fm_cell (w_mem w) t) \<and> t' = t \<and> h' = w_heap w \<or>
     ret = HT_NOMEM \<and> k \<notin> dom (ht_map fm_cell (w_mem w) t) \<and> t' = t \<and> hp_live h' = hp_live (w_heap w) \<and>
       fst (malloc sizeof_hnode (w_heap w)) = None \<or>
     ret = HT_OK \<and> k \<notin> dom (ht_map fm_cell (w_mem w) t) \<and>
       ht_map fm_cell (w_mem w) t' = (ht_map fm_cell (w_mem w) t)(k \<mapsto> Some ev) \<and>
       fst (malloc sizeof_hnode (w_heap w)) \<noteq> None \<and>
       (\<exists>x. mset (ht_nodes t') = mset (ht_nodes t) + {#\<lparr>hn_addr = x, hn_key = pk, hn_data = Some ev\<rparr>#})"
    unfolding key by blast
  let ?w = "put_table (evttable s) t' (w\<lparr>w_heap := h'\<rparr>)"
  have hok: "heap_ok h'" and bad: "hp_bad h' = hp_bad (w_heap w)"
    and bal: "mset (hp_live h') + mset (ht_owned t) = mset (hp_live (w_heap w)) + mset (ht_owned t')"
    using st(1) by (simp_all add: ht_step_def ht_heap_def ht_balance_def)
  note d = evt_at_dom [OF inv a t, of k]
  have null: "evt_newstate x \<noteq> None" if "n \<in> set (ht_nodes t)" "hn_data n = Some y" "fm_event (w_mem w) y = Some x" for n y x
    using lifeD(2) [OF inv] a t that unfolding no_null_def by blast
  show ?thesis
  proof (cases "ret = HT_OK")
    case False
    then have same: "t' = t" "hp_live h' = hp_live (w_heap w)" using r by auto
    have "owned f w + tbl_own t \<subseteq># mset (hp_live h') + tbl_own t" using lifeD(5) [OF inv] same(2) by simp
    note P = life_put_evtab [OF inv a t tok null hok this]
    have "ret = HT_EXISTS \<longleftrightarrow> evt_at w a k \<noteq> None" "ret = HT_NOMEM \<longrightarrow> fst (malloc sizeof_hnode (w_heap w)) = None"
      using r d False by auto
    with i P(1,3) same bad False show ?thesis by (intro exI [of _ ret] exI [of _ t'] exI [of _ h']) simp
  next
    case True
    with r obtain x where nodes: "mset (ht_nodes t') = mset (ht_nodes t) + {#\<lparr>hn_addr = x, hn_key = pk, hn_data = Some ev\<rparr>#}"
      and m: "ht_map fm_cell (w_mem w) t' = (ht_map fm_cell (w_mem w) t)(k \<mapsto> Some ev)" "k \<notin> dom (ht_map fm_cell (w_mem w) t)"
        "fst (malloc sizeof_hnode (w_heap w)) \<noteq> None" by auto
    let ?n = "\<lparr>hn_addr = x, hn_key = pk, hn_data = Some ev\<rparr>"
    have set: "set (ht_nodes t') = insert ?n (set (ht_nodes t))"
      using arg_cong [OF nodes, of set_mset] by simp
    have "mset (concat (map c (ht_nodes t'))) = mset (concat (map c (ht_nodes t))) + mset (c ?n)" for c :: "hnode \<Rightarrow> addr list"
    proof -
      have "mset (concat (map c xs)) = (\<Sum>n\<in>#mset xs. mset (c n))" for xs by (induction xs) simp_all
      then show ?thesis unfolding nodes by (simp add: nodes)
    qed
    then have own: "tbl_own t' = mset (ht_owned t') + mset (concat (map (node_contents (HT_FREEKEY OR HT_FREEDATA)) (ht_nodes t))) + {#pk, ev#}"
      unfolding tbl_own_def by (simp add: contents_both)
    have bal2: "mset (hp_live h') + tbl_own t + {#pk, ev#} = mset (hp_live (w_heap w)) + tbl_own t'"
      unfolding own unfolding tbl_own_def [of t] by (rule mset_extend [OF bal])
    have "owned f w + tbl_own t' + {#pk, ev#} \<subseteq># mset (hp_live h') + tbl_own t + {#pk, ev#}"
      unfolding bal2 using l by (simp add: ac_simps add_mset_commute)
    then have sub: "owned f w + tbl_own t' \<subseteq># mset (hp_live h') + tbl_own t" by simp
    have tok': "tbl_ok (w_mem w) t'"
      using st tok(1) pk set by (auto simp: tbl_ok_def ht_step_def)
    have "evts_ok w t'" using tok(2) ev new(1) unfolding evts_ok_def set by auto
    moreover have "evt_newstate x \<noteq> None" if "n \<in> set (ht_nodes t')" "hn_data n = Some y" "fm_event (w_mem w) y = Some x" for n y x
      using that null new(2) ev unfolding set by auto
    ultimately have P: "life_inv f ?w" "owned f ?w + tbl_own t = owned f w + tbl_own t'" "st_map f ?w = st_map f w"
      using life_put_evtab [OF inv a t tok' _ _ hok sub] by blast+
    have b: "mset (hp_live h') + owned f w + {#pk, ev#} = mset (hp_live (w_heap w)) + owned f ?w"
      by (rule mset_exchange [OF bal2 P(2)])
    have at: "evt_at ?w b j = (if b = a \<and> j = k then Some e else evt_at w b j)" for b j
      unfolding evt_at_put [OF inv a] m(1) using ev by (auto simp: evt_at_eq [OF a t])
    have no: "evt_at w a k = None" using d m(2) by blast
    with i P(1,3) bad b at m(3) True show ?thesis by (intro exI [of _ ret] exI [of _ t'] exI [of _ h']) simp
  qed
qed

lemma put_same_table: "w_table w a = Some t \<Longrightarrow> put_table a t (w\<lparr>w_heap := h\<rparr>) = w\<lparr>w_heap := h\<rparr>"
  by (simp add: put_table_def fun_upd_idem)

text \<open>The blocks of a new event, once obtained and filled in.\<close>

lemma key_block:
  assumes inv: "life_inv f w" and 1: "w_malloc n w = (Some pk, w1)"
  shows "same_objs f w (put_cell pk k w1)" "life_inv f (put_cell pk k w1)"
proof -
  note M1 = life_malloc [OF inv 1]
  have "pk \<notin># owned f w1" using M1(7) [OF HOL.refl] same_objs_owned [OF M1(1)] by simp
  then have c: "same_objs f w1 (put_cell pk k w1)" by (rule same_objs_cell)
  show "life_inv f (put_cell pk k w1)" using same_objs_inv [OF M1(2) c] lifeD(3,5) [OF M1(2)] by simp
  show "same_objs f w (put_cell pk k w1)" by (rule same_objs_trans [OF M1(1) c])
qed

lemma event_block:
  assumes inv: "life_inv f w" and 1: "w_malloc n w = (Some pk, w1)" and 3: "w_malloc l (put_cell pk k w1) = (Some ev, w3)"
  shows "same_objs f w (put_event ev e w3)" "life_inv f (put_event ev e w3)"
    "mset (hp_live (w_heap (put_event ev e w3))) = mset (hp_live (w_heap w)) + {#ev#} + {#pk#}"
    "owned f (put_event ev e w3) = owned f w" "hp_bad (w_heap (put_event ev e w3)) = hp_bad (w_heap w)"
    "fm_cell (w_mem (put_event ev e w3)) pk = k" "fm_event (w_mem (put_event ev e w3)) ev = Some e"
    "pk \<noteq> 0" "ev \<notin># owned f w"
proof -
  note M1 = life_malloc [OF inv 1] and C = key_block [OF inv 1, where k = k]
  note M3 = life_malloc [OF C(2) 3]
  note m1 = M1(7) [OF HOL.refl] and m3 = M3(7) [OF HOL.refl]
  have s3: "same_objs f w w3" by (rule same_objs_trans [OF C(1) M3(1)])
  have own: "owned f w3 = owned f w" "owned f (put_cell pk k w1) = owned f w"
    by (rule same_objs_owned [OF s3], rule same_objs_owned [OF C(1)])
  show y: "ev \<notin># owned f w" using m3 by (simp add: own)
  then have c: "same_objs f w3 (put_event ev e w3)" by (intro same_objs_event) (simp add: own)
  have heap: "w_heap (put_event ev e w3) = w_heap w3" by (simp add: put_event_def)
  show s4: "same_objs f w (put_event ev e w3)" by (rule same_objs_trans [OF s3 c])
  then show "owned f (put_event ev e w3) = owned f w" by (rule same_objs_owned)
  show "life_inv f (put_event ev e w3)" using same_objs_inv [OF M3(2) c] lifeD(3,5) [OF M3(2)] by (simp add: heap)
  show "mset (hp_live (w_heap (put_event ev e w3))) = mset (hp_live (w_heap w)) + {#ev#} + {#pk#}"
    using m1 m3 by (simp add: heap)
  show "hp_bad (w_heap (put_event ev e w3)) = hp_bad (w_heap w)" using M1(4) M3(4) by (simp add: heap)
  have "fm_cell (w_mem w3) = fm_cell (w_mem (put_cell pk k w1))" by (subst M3(3)) simp
  then show "fm_cell (w_mem (put_event ev e w3)) pk = k" by (simp add: put_event_def)
  show "fm_event (w_mem (put_event ev e w3)) ev = Some e" by (simp add: put_event_def)
  show "pk \<noteq> 0" using m1 by simp
qed

lemma add_evt_ok:
  assumes inv: "life_inv f w" and a: "fm_state (w_mem w) a = Some s" and b: "b \<in> dom (fm_state (w_mem w))"
  obtains ret w' where "state_add_evt a k desc act (Some b) w = Some (ret, w')" "life_inv f w'"
    "st_map f w' = st_map f w" "fm_state (w_mem w') = fm_state (w_mem w)" "key_at w' = key_at w"
    "hp_bad (w_heap w') = hp_bad (w_heap w)"
    "ret \<in> {ST_NOMEM, ST_EXISTS} \<longrightarrow> same_objs f w w' \<and> balanced f w f w'"
    "ret = ST_EXISTS \<longrightarrow> evt_at w a k \<noteq> None"
    "ret = ST_OK \<longrightarrow> evt_at w a k = None \<and>
      (same_objs f w w' \<and> mset (hp_live (w_heap w)) \<subseteq># mset (hp_live (w_heap w')) \<or> balanced f w f w' \<and>
       (\<forall>c j. evt_at w' c j = (if c = a \<and> j = k
          then Some \<lparr>evt_desc = strncpy desc MAX_EVT_DESC, evt_actionf = act, evt_newstate = Some b\<rparr>
          else evt_at w c j)))"
    "ret \<in> {ST_NOMEM, ST_EXISTS, ST_OK}"
proof -
  obtain r1 w1 where 1: "w_malloc sizeof_uint w = (r1, w1)" by force
  note M1 = life_malloc [OF inv 1]
  have K: "key_at w' = key_at w" if "same_objs f w w'" for w'
    using same_objs_maps(2) [OF inv that] by (simp add: fun_eq_iff)
  show thesis
  proof (cases r1)
    case None
    then have "balanced f w f w1" using M1 by (intro same_heap_live [OF inv]) simp_all
    with None 1 M1 K [OF M1(1)] same_objs_maps(1) [OF inv M1(1)] show thesis
      by (intro that [of ST_NOMEM w1]) (simp_all add: state_add_evt_def same_objs_def)
  next
    case (Some pk)
    note m1 = M1(7) [OF Some]
    let ?w2 = "put_cell pk k w1"
    have x: "pk \<notin># owned f w" using m1 by simp
    note C = key_block [OF inv 1 [unfolded Some], where k = k]
    obtain r3 w3 where 3: "w_malloc sizeof_event ?w2 = (r3, w3)" by force
    note M3 = life_malloc [OF C(2) 3]
    have s3: "same_objs f w w3" by (rule same_objs_trans [OF C(1) M3(1)])
    show thesis
    proof (cases r3)
      case None
      have l: "mset (hp_live (w_heap w3)) = mset (hp_live (w_heap w)) + {#pk#} + {#}" using M3(6) [OF None] m1 by simp
      note F = life_free_new [OF inv M3(2) s3 x l]
      have "balanced f w f (w_free pk w3)"
        using F M1(4) M3(4) by (simp add: balanced_def same_objs_owned [OF F(2)])
      then show thesis using 1 3 Some None F K [OF F(2)] same_objs_maps(1) [OF inv F(2)] M1(4) M3(4)
        by (intro that [of ST_NOMEM "w_free pk w3"]) (simp_all add: state_add_evt_def Let_def same_objs_def)
    next
      case ev: (Some ev)
      let ?e = "\<lparr>evt_desc = strncpy desc MAX_EVT_DESC, evt_actionf = act, evt_newstate = Some b\<rparr>"
      let ?w4 = "put_event ev ?e w3"
      note E = event_block [OF inv 1 [unfolded Some] 3 [unfolded ev]]
      note s4 = E(1) [of ?e] and i4 = E(2) [of ?e] and live4 = E(3) [of ?e] and own4 = E(4) [of ?e]
        and key = E(6) [of ?e] and e4 = E(7) [of ?e] and y = E(9)
      have heap4: "w_heap ?w4 = w_heap w3" by (simp add: put_event_def)
      have st4: "fm_state (w_mem ?w4) = fm_state (w_mem w)" using s4 by (simp add: same_objs_def)
      have a4: "fm_state (w_mem ?w4) a = Some s" using a st4 by simp
      obtain t where t: "w_table ?w4 (evttable s) = Some t" using life_table [OF i4 a4] by blast
      have l: "owned f ?w4 + {#pk, ev#} \<subseteq># mset (hp_live (w_heap ?w4))"
        unfolding own4 live4 using lifeD(5) [OF inv] by simp
      have "pk \<noteq> 0" using m1 by simp
      have nn: "evt_newstate ?e \<noteq> None" by simp
      have tgt: "\<forall>c. evt_newstate ?e = Some c \<longrightarrow> c \<in> dom (fm_state (w_mem ?w4))" using b by (simp add: st4)
      from link_event_ok [OF i4 a4 t tgt nn key e4 l \<open>pk \<noteq> 0\<close>] obtain ret t' h' where
        i: "htable_insert (w_mem ?w4) t pk (Some ev) (w_heap ?w4) = Some ((ret, t'), h')"
        and L: "life_inv f (put_table (evttable s) t' (?w4\<lparr>w_heap := h'\<rparr>))"
          "st_map f (put_table (evttable s) t' (?w4\<lparr>w_heap := h'\<rparr>)) = st_map f ?w4" "hp_bad h' = hp_bad (w_heap ?w4)"
        and ne: "ret \<noteq> HT_OK \<longrightarrow> t' = t \<and> hp_live h' = hp_live (w_heap ?w4)"
        and ok: "ret = HT_OK \<longrightarrow> evt_at ?w4 a k = None \<and> fst (malloc sizeof_hnode (w_heap ?w4)) \<noteq> None \<and>
          mset (hp_live h') + owned f ?w4 + {#pk, ev#} =
            mset (hp_live (w_heap ?w4)) + owned f (put_table (evttable s) t' (?w4\<lparr>w_heap := h'\<rparr>)) \<and>
          (\<forall>b j. evt_at (put_table (evttable s) t' (?w4\<lparr>w_heap := h'\<rparr>)) b j = (if b = a \<and> j = k then Some ?e else evt_at ?w4 b j))"
        and ex: "ret = HT_EXISTS \<longleftrightarrow> evt_at ?w4 a k \<noteq> None" by (elim exE conjE) (rule that)
      let ?w5 = "put_table (evttable s) t' (?w4\<lparr>w_heap := h'\<rparr>)"
      have run: "state_add_evt a k desc act (Some b) w =
          Some (if ret = HT_EXISTS then (ST_EXISTS, w_free ev (w_free pk ?w5)) else (ST_OK, ?w5))"
        using 1 3 Some ev a4 t i by (simp add: state_add_evt_def Let_def heap4) 
      note at4 = same_objs_maps [OF inv s4]
      show thesis
      proof (cases "ret = HT_OK")
        case True
        have "balanced f w f ?w5"
          using ok [rule_format, OF True] live4 L(3) M1(4) M3(4) by (simp add: balanced_def own4 put_table_def heap4 ac_simps)
        moreover have "key_at ?w5 = key_at w" using at4(2) by (simp add: key_at_def put_table_def fun_eq_iff)
        moreover have "fm_state (w_mem ?w5) = fm_state (w_mem w)" using st4 by (simp add: put_table_def)
        ultimately show thesis
          using run True ok [rule_format, OF True] L at4 by (intro that [of ST_OK ?w5]) (simp_all add: balanced_def)
      next
        case False
        note same = ne [rule_format, OF False]
        have s5: "same_objs f w ?w5"
          unfolding conjunct1 [OF same] put_same_table [OF t] by (rule same_objs_trans [OF s4 same_objs_heap])
        have l5: "mset (hp_live (w_heap ?w5)) = mset (hp_live (w_heap w)) + {#pk#} + {#ev#}"
          using same live4 by (simp add: put_table_def)
        show thesis
        proof (cases "ret = HT_EXISTS")
          case True
          note F = life_free_new [OF inv L(1) s5 x l5]
          have l6: "mset (hp_live (w_heap (w_free pk ?w5))) = mset (hp_live (w_heap w)) + {#ev#} + {#}" using F(3) by simp
          note G = life_free_new [OF inv F(1,2) y l6]
          have "hp_bad (w_heap ?w5) = hp_bad (w_heap w)" using L(3) M1(4) M3(4) by (simp add: put_table_def heap4)
          then have "balanced f w f (w_free ev (w_free pk ?w5))"
            using G F(4) by (simp add: balanced_def same_objs_owned [OF G(2)])
          with True run G K [OF G(2)] same_objs_maps(1) [OF inv G(2)] ex at4 show thesis
            by (intro that [of ST_EXISTS "w_free ev (w_free pk ?w5)"]) (simp_all add: balanced_def same_objs_def)
        next
          case no: False
          have "hp_bad (w_heap ?w5) = hp_bad (w_heap w)" using L(3) M1(4) M3(4) by (simp add: put_table_def heap4)
          moreover have "mset (hp_live (w_heap w)) \<subseteq># mset (hp_live (w_heap ?w5))" unfolding l5 by simp
          ultimately show thesis using no run L K [OF s5] s5 same_objs_maps(1) [OF inv s5] ex at4
            by (intro that [of ST_OK ?w5]) (simp_all add: same_objs_def)
        qed
      qed
    qed
  qed
qed

section \<open>Registering a state\<close>

lemma unregistered_key:
  assumes inv: "life_inv f w" and a: "fm_state (w_mem w) a = Some s" and un: "Some a \<notin> ran (st_map f w)"
    and t: "w_table w (f_sttable f) = Some t"
  shows "st_key s \<notin> hn_key ` set (ht_nodes t)"
proof
  assume "st_key s \<in> hn_key ` set (ht_nodes t)"
  then obtain n where n: "n \<in> set (ht_nodes t)" "hn_key n = st_key s" by auto
  obtain u where u: "w_table w (f_sttable f) = Some u" "tbl_ok (w_mem w) u" "st_map f w = ht_map fm_cell (w_mem w) u"
    "\<forall>n\<in>set (ht_nodes u). \<exists>b q. hn_data n = Some b \<and> fm_state (w_mem w) b = Some q \<and> st_key q = hn_key n"
    using fsm_okD(3) [OF lifeD(1) [OF inv]] by blast
  have "u = t" using u(1) t by simp
  note tok = u(2) [unfolded this] and sm = u(3) [unfolded this]
  obtain b s' where b: "hn_data n = Some b" "fm_state (w_mem w) b = Some s'" "st_key s' = hn_key n"
    using u(4) n(1) \<open>u = t\<close> by blast
  have "st_key s' = st_key s" using b(3) n(2) by simp
  then have "b = a" using state_sep(2) [OF inv a b(2)] by blast
  have "ht_inv fm_cell (w_mem w) t" using tok by (simp add: tbl_ok_def)
  from ht_map_iff [OF this, of "fm_cell (w_mem w) (hn_key n)" "Some a"]
  have "st_map f w (fm_cell (w_mem w) (hn_key n)) = Some (Some a)" using n(1) b(1) \<open>b = a\<close> unfolding sm by fast
  with un show False by (simp only: ran_def mem_Collect_eq) fast
qed

lemma life_put_key:
  assumes inv: "life_inv f w" and a: "fm_state (w_mem w) a = Some s" and un: "Some a \<notin> ran (st_map f w)"
    and cur: "f_cstate f \<noteq> Some a"
  shows "life_inv f (put_cell (st_key s) v w)" "owned f (put_cell (st_key s) v w) = owned f w"
    "st_map f (put_cell (st_key s) v w) = st_map f w" "evt_at (put_cell (st_key s) v w) b j = evt_at w b j"
    "key_at (put_cell (st_key s) v w) b = (if b = a then Some v else key_at w b)"
proof -
  let ?w = "put_cell (st_key s) v w"
  have st_own: "st_own ?w b = st_own w b" for b by (simp add: st_own_def cong: option.case_cong)
  then show own: "owned f ?w = owned f w" by (simp add: owned_def fsm_own_def)
  obtain t where t: "w_table w (f_sttable f) = Some t" "tbl_ok (w_mem w) t" "st_map f w = ht_map fm_cell (w_mem w) t"
    "\<forall>n\<in>set (ht_nodes t). \<exists>a q. hn_data n = Some a \<and> fm_state (w_mem w) a = Some q \<and> st_key q = hn_key n"
    using fsm_okD(3) [OF lifeD(1) [OF inv]] by blast
  note T = tbl_ok_other_cell [OF t(2) unregistered_key [OF inv a un t(1)], of "w_mem ?w" v, simplified]
  show sm: "st_map f ?w = st_map f w" using t(1,3) T(2) by (simp add: st_map_def)
  have E: "tbl_ok (w_mem ?w) u" "ht_map fm_cell (w_mem ?w) u = ht_map fm_cell (w_mem w) u"
    if "fm_state (w_mem w) b = Some q" "w_table w (evttable q) = Some u" for b q u
  proof -
    have "tbl_ok (w_mem w) u" using life_table [OF inv that(1)] that(2) by auto
    moreover have "st_key s \<notin> hn_key ` set (ht_nodes u)" using state_sep(4) [OF inv a that] by (metis imageE)
    ultimately show "tbl_ok (w_mem ?w) u" "ht_map fm_cell (w_mem ?w) u = ht_map fm_cell (w_mem w) u"
      using tbl_ok_other_cell [of "w_mem w" u "st_key s" "w_mem ?w" v] by simp_all
  qed
  show "evt_at ?w b j = evt_at w b j"
    using E(2) by (auto simp: evt_at_def split: bind_splits)
  show K: "key_at ?w b = (if b = a then Some v else key_at w b)" for b
    using a state_sep(2) [OF inv a, of b] by (cases "fm_state (w_mem w) b") (auto simp: key_at_def)
  have "evts_ok ?w u = evts_ok w u" for u by (simp add: evts_ok_def)
  then have "world_ok ?w" using life_table [OF inv] E(1) by (fastforce simp: world_ok_def)
  moreover have "\<exists>k. key_at ?w c = Some k \<and> k \<in> dom (st_map f ?w)" if "f_cstate f = Some c" for c
    using fsm_okD(4) [OF lifeD(1) [OF inv] that] that cur unfolding sm K by auto
  ultimately have "fsm_ok f ?w"
    using t(1,4) T(1) fsm_okD(2) [OF lifeD(1) [OF inv]] unfolding fsm_ok_def by auto
  moreover have "no_null ?w" using lifeD(2) [OF inv] by (simp add: no_null_def)
  ultimately show "life_inv f ?w" using lifeD(3-5) [OF inv] by (simp add: life_inv_def own)
qed

lemma sttab_heap:
  assumes inv: "life_inv f w" and t: "w_table w (f_sttable f) = Some t"
  shows "ht_heap t (w_heap w)"
proof -
  have "mset (ht_owned t) \<subseteq># fsm_own f w" by (simp add: fsm_own_def t subseteq_mset_def)
  also have "\<dots> \<subseteq># owned f w" by (simp add: owned_def)
  also have "\<dots> \<subseteq># mset (hp_live (w_heap w))" by (rule lifeD(5) [OF inv])
  finally show ?thesis using lifeD(3) [OF inv] by (simp add: ht_heap_def)
qed

lemma evt_at_put_sttab:
  assumes inv: "life_inv f w"
  shows "evt_at (put_table (f_sttable f) t (w\<lparr>w_heap := h\<rparr>)) b j = evt_at w b j"
proof -
  have "evttable q \<noteq> f_sttable f" if "fm_state (w_mem w) b = Some q" for q by (rule state_sep(1) [OF inv that])
  then show ?thesis by (cases "fm_state (w_mem w) b") (auto simp: evt_at_def put_table_def)
qed

lemma add_state_ok:
  assumes inv: "life_inv f w" and a: "fm_state (w_mem w) a = Some s" and un: "Some a \<notin> ran (st_map f w)"
    and cur: "f_cstate f \<noteq> Some a"
  shows "\<exists>ret w'. fsm_add_state f k a w = Some (ret, w') \<and> life_inv f w' \<and> balanced f w f w' \<and>
    fm_state (w_mem w') = fm_state (w_mem w) \<and> (\<forall>b j. evt_at w' b j = evt_at w b j) \<and>
    (\<forall>b. key_at w' b = (if b = a then Some k else key_at w b)) \<and>
    (if k \<in> dom (st_map f w) then ret = FSM_EEXISTS \<and> st_map f w' = st_map f w
     else ret = FSM_OK \<and> st_map f w' =
       (if fst (malloc sizeof_hnode (w_heap w)) = None then st_map f w else (st_map f w)(k \<mapsto> Some a)))"
proof -
  let ?u = "put_cell (st_key s) k w"
  note P = life_put_key [OF inv a un cur, of k]
  obtain t where t: "w_table ?u (f_sttable f) = Some t" "tbl_ok (w_mem ?u) t" "st_map f ?u = ht_map fm_cell (w_mem ?u) t"
    "\<forall>n\<in>set (ht_nodes t). \<exists>a q. hn_data n = Some a \<and> fm_state (w_mem ?u) a = Some q \<and> st_key q = hn_key n"
    using fsm_okD(3) [OF lifeD(1) [OF P(1)]] by blast
  have m: "ht_map fm_cell (w_mem ?u) t = st_map f w" using t(3) P(3) by simp
  have cell: "fm_cell (w_mem ?u) (st_key s) = k" by simp
  have t': "ht_inv fm_cell (w_mem ?u) t" "stk.for_ht t" using t(2) by (simp_all add: tbl_ok_def)
  from stk.insert_ok [OF t' sttab_heap [OF P(1) t(1)], of "st_key s" "Some a", unfolded cell m] obtain ret t2 h where
    i: "htable_insert (w_mem ?u) t (st_key s) (Some a) (w_heap ?u) = Some ((ret, t2), h)"
    and st: "ht_step fm_cell (w_mem ?u) t (w_heap ?u) t2 h" "stk.for_ht t2"
    and r: "ret = HT_EXISTS \<and> k \<in> dom (st_map f w) \<and> t2 = t \<and> h = w_heap ?u \<or>
     ret = HT_NOMEM \<and> k \<notin> dom (st_map f w) \<and> t2 = t \<and> hp_live h = hp_live (w_heap ?u) \<and>
       fst (malloc sizeof_hnode (w_heap ?u)) = None \<or>
     ret = HT_OK \<and> k \<notin> dom (st_map f w) \<and> ht_map fm_cell (w_mem ?u) t2 = (st_map f w)(k \<mapsto> Some a) \<and>
       fst (malloc sizeof_hnode (w_heap ?u)) \<noteq> None \<and>
       (\<exists>x. mset (ht_nodes t2) = mset (ht_nodes t) + {#\<lparr>hn_addr = x, hn_key = st_key s, hn_data = Some a\<rparr>#})"
    by blast
  let ?w = "put_table (f_sttable f) t2 (?u\<lparr>w_heap := h\<rparr>)"
  have hok: "heap_ok h" "hp_bad h = hp_bad (w_heap w)"
    and bal: "mset (hp_live h) + mset (ht_owned t) = mset (hp_live (w_heap w)) + mset (ht_owned t2)"
    using st(1) by (simp_all add: ht_step_def ht_heap_def ht_balance_def)
  have sub: "owned f ?u + mset (ht_owned t2) \<subseteq># mset (hp_live h) + mset (ht_owned t)"
    unfolding bal using lifeD(5) [OF P(1)] by simp
  have key: "st_key s \<noteq> 0"
  proof -
    have "st_key s \<in># owned f w" using keys_owned(3) [OF inv a] by blast
    then have "st_key s \<in> set (hp_live (w_heap w))" by (rule owned_live [OF inv])
    then show ?thesis using lifeD(3) [OF inv] by (auto simp: heap_ok_def heap_wf_def)
  qed
  have nodes: "n \<in> set (ht_nodes t) \<or> hn_key n = st_key s \<and> hn_data n = Some a" if "n \<in> set (ht_nodes t2)" for n
  proof -
    consider "t2 = t" | x where "mset (ht_nodes t2) = mset (\<lparr>hn_addr = x, hn_key = st_key s, hn_data = Some a\<rparr> # ht_nodes t)"
      using r by auto
    then show ?thesis
    proof cases
      case (2 x)
      from mset_eq_setD [OF 2] that show ?thesis by auto
    qed (use that in simp)
  qed
  have tok: "tbl_ok (w_mem ?u) t2"
    unfolding tbl_ok_def
  proof (intro conjI ballI)
    show "hn_key n \<noteq> 0" if "n \<in> set (ht_nodes t2)" for n
      using nodes [OF that] t(2) key by (auto simp: tbl_ok_def)
  qed (use st in \<open>simp_all add: ht_step_def\<close>)
  have dom: "dom (ht_map fm_cell (w_mem ?u) t) \<subseteq> dom (ht_map fm_cell (w_mem ?u) t2)"
    using r unfolding m by (elim disjE conjE) (simp_all add: m subset_insertI)
  have "\<forall>n\<in>set (ht_nodes t2). \<exists>b q. hn_data n = Some b \<and> fm_state (w_mem ?u) b = Some q \<and> st_key q = hn_key n"
    using nodes t(4) a unfolding put_cell_fields by metis
  note S = life_put_sttab [OF P(1) t(1) tok dom this hok(1) sub]
  have run: "fsm_add_state f k a w = Some (if ret = HT_EXISTS then FSM_EEXISTS else FSM_OK, ?w)"
    using a t(1) i by (simp add: fsm_add_state_def)
  have "balanced f w f ?w"
    using mset_exchange [of "mset (hp_live h)" "mset (ht_owned t)" "{#}"] bal S(2) P(2) hok(2)
    by (simp add: balanced_def put_table_def)
  moreover have "key_at ?w = key_at ?u" by (simp add: key_at_def put_table_def fun_eq_iff)
  moreover have "fm_state (w_mem ?w) = fm_state (w_mem w)" by (simp add: put_table_def)
  moreover have "if k \<in> dom (st_map f w) then (if ret = HT_EXISTS then FSM_EEXISTS else FSM_OK) = FSM_EEXISTS \<and> st_map f ?w = st_map f w
     else (if ret = HT_EXISTS then FSM_EEXISTS else FSM_OK) = FSM_OK \<and> st_map f ?w =
       (if fst (malloc sizeof_hnode (w_heap w)) = None then st_map f w else (st_map f w)(k \<mapsto> Some a))"
    using r m unfolding S(3) by auto
  ultimately show ?thesis
    using run S(1) P(4,5) evt_at_put_sttab [OF P(1)] by (intro exI conjI) (assumption | simp)+
qed

section \<open>Removing an event\<close>

lemma tbl_own_live:
  assumes inv: "life_inv f w" and a: "fm_state (w_mem w) a = Some s" and t: "w_table w (evttable s) = Some t"
  shows "tbl_own t \<subseteq># mset (hp_live (w_heap w))"
proof -
  have "tbl_own t \<subseteq># st_own w a" unfolding st_own_eq [OF a t] by simp
  also have "\<dots> \<subseteq># owned f w" using owned_state [OF lifeD(4) [OF inv]] a by blast
  also have "\<dots> \<subseteq># mset (hp_live (w_heap w))" by (rule lifeD(5) [OF inv])
  finally show ?thesis .
qed

lemma set_heap_put: "w_set_heap h (put_table x t w) = w_set_heap h (put_table x t (w\<lparr>w_heap := g\<rparr>))"
  by (simp add: w_set_heap_def put_table_def)

lemma rem_evt_ok:
  assumes inv: "life_inv f w" and a: "fm_state (w_mem w) a = Some s"
  shows "\<exists>ret w'. state_rem_evt a k w = Some (ret, w') \<and> life_inv f w' \<and> balanced f w f w' \<and>
    fm_state (w_mem w') = fm_state (w_mem w) \<and> st_map f w' = st_map f w \<and> key_at w' = key_at w \<and>
    ret = (if evt_at w a k = None then ST_NOTFOUND else ST_OK) \<and>
    (\<forall>b j. evt_at w' b j = (if b = a \<and> j = k then None else evt_at w b j))"
proof -
  obtain t where t: "w_table w (evttable s) = Some t" "tbl_ok (w_mem w) t" "evts_ok w t" using life_table [OF inv a] by blast
  let ?m = "on_stack k (w_mem w)" and ?fl = "HT_FREEKEY OR HT_FREEDATA"
  have f: "stk.for_ht t" using t(2) by (simp add: tbl_ok_def)
  have c: "fm_cell ?m (hn_key n) = fm_cell (w_mem w) (hn_key n)" if "n \<in> set (ht_nodes t)" for n
    using t(2) that by (auto simp: tbl_ok_def on_stack_def)
  have i: "ht_inv fm_cell ?m t" using ht_inv_cong(1) [OF c f] t(2) by (simp add: tbl_ok_def)
  have m: "ht_map fm_cell ?m t = ht_map fm_cell (w_mem w) t" by (rule ht_inv_cong(2) [OF c f])
  have cell: "fm_cell ?m 0 = k" by (simp add: on_stack_def)
  have own: "mset (ht_owned t) + mset (concat (map (node_contents ?fl) (ht_nodes t))) \<subseteq># mset (hp_live (w_heap w))"
    using tbl_own_live [OF inv a t(1)] by (simp only: tbl_own_def)
  from stk.free_obj_ok [OF i f lifeD(3) [OF inv] own, of 0, unfolded cell m] obtain ret t' h where
    r: "htable_free_obj ?m t 0 ?fl (w_heap w) = Some ((ret, t'), h)" "ht_inv fm_cell ?m t'" "ht_same t t'"
      "heap_ok h" "hp_bad h = hp_bad (w_heap w)" "ht_map fm_cell ?m t' = (ht_map fm_cell (w_mem w) t)(k := None)"
      "ret = (if k \<in> dom (ht_map fm_cell (w_mem w) t) then HT_OK else HT_NOTFOUND)"
    and bal: "mset (hp_live h) + tbl_own t = mset (hp_live (w_heap w)) + tbl_own t'"
    and nodes: "set (ht_nodes t') \<subseteq> set (ht_nodes t)"
    unfolding tbl_own_def add.assoc by blast
  have f': "stk.for_ht t'" by (rule stk.for_same [OF f r(3)])
  have c': "fm_cell (w_mem w) (hn_key n) = fm_cell ?m (hn_key n)" if "n \<in> set (ht_nodes t')" for n
    using c nodes that by auto
  have tok: "tbl_ok (w_mem w) t'"
    using ht_inv_cong(1) [OF c' f'] r(2) f' nodes t(2) by (auto simp: tbl_ok_def)
  have m': "ht_map fm_cell (w_mem w) t' = (ht_map fm_cell (w_mem w) t)(k := None)"
    using ht_inv_cong(2) [OF c' f'] r(6) by simp
  have ev: "evts_ok w t'" using t(3) nodes by (auto simp: evts_ok_def)
  have nn: "evt_newstate e \<noteq> None" if "n \<in> set (ht_nodes t')" "hn_data n = Some x" "fm_event (w_mem w) x = Some e" for n x e
    using lifeD(2) [OF inv] a t(1) nodes that unfolding no_null_def by blast
  have sub: "owned f w + tbl_own t' \<subseteq># mset (hp_live h) + tbl_own t" unfolding bal using lifeD(5) [OF inv] by simp
  let ?u = "put_table (evttable s) t' (w\<lparr>w_heap := h\<rparr>)"
  note P = life_put_evtab [OF inv a t(1) tok ev nn r(4) sub]
  have live: "owned f ?u \<subseteq># mset (hp_live h)" using lifeD(5) [OF P(1)] by (simp add: put_table_def)
  let ?w = "w_set_heap h ?u"
  have same: "same_objs f ?u ?w" by (rule same_objs_set_heap [OF P(1) live])
  note M = same_objs_maps [OF P(1) same]
  have run: "state_rem_evt a k w = Some (if ret = HT_NOTFOUND then ST_NOTFOUND else ST_OK, ?w)"
    using a t(1) r(1) by (simp add: state_rem_evt_def set_heap_put [of h "evttable s" t' w h])
  have "mset (hp_live h) + owned f w = mset (hp_live (w_heap w)) + owned f ?u"
    using mset_exchange [of "mset (hp_live h)" "tbl_own t" "{#}"] bal P(2) by simp
  then have "balanced f w f ?w"
    using r(5) by (simp add: balanced_def same_objs_owned [OF same]) (simp add: w_set_heap_def)
  moreover have "life_inv f ?w" by (rule life_set_heap [OF P(1) live r(4)])
  moreover have "fm_state (w_mem ?w) = fm_state (w_mem w)" using same by (simp add: same_objs_def put_table_def)
  moreover have "key_at ?w = key_at w" using M(2) by (simp add: fun_eq_iff key_at_def put_table_def)
  moreover have "st_map f ?w = st_map f w" using M(1) P(3) by simp
  moreover have "evt_at ?w b j = (if b = a \<and> j = k then None else evt_at w b j)" for b j
  proof -
    have "evt_at ?w b j = evt_at ?u b j" by (rule M(3))
    also have "\<dots> = (if b = a then do { d \<leftarrow> ((ht_map fm_cell (w_mem w) t)(k := None)) j; e \<leftarrow> d; fm_event (w_mem w) e }
        else evt_at w b j)" by (simp only: evt_at_put [OF inv a] m')
    finally show ?thesis by (simp add: evt_at_eq [OF a t(1)])
  qed
  moreover have "(if ret = HT_NOTFOUND then ST_NOTFOUND else ST_OK) = (if evt_at w a k = None then ST_NOTFOUND else ST_OK)"
    using evt_at_dom [OF inv a t(1), of k] r(7) by auto
  ultimately show ?thesis using run by (intro exI conjI) (assumption | simp)+
qed

section \<open>A new machine\<close>

lemma w_malloc_heap:
  assumes "heap_ok (w_heap w)" "w_malloc n w = (r, w1)"
  shows "heap_ok (w_heap w1)" "w1 = w\<lparr>w_heap := w_heap w1\<rparr>" "hp_bad (w_heap w1) = hp_bad (w_heap w)"
    "hp_live (w_heap w1) = (case r of None \<Rightarrow> hp_live (w_heap w) | Some a \<Rightarrow> a # hp_live (w_heap w))"
proof -
  obtain h where h: "malloc n (w_heap w) = (r, h)" "w1 = w\<lparr>w_heap := h\<rparr>"
    using assms(2) by (auto simp: w_malloc_def split: prod.splits)
  show "heap_ok (w_heap w1)" "w1 = w\<lparr>w_heap := w_heap w1\<rparr>"
    using heap_ok_malloc [OF assms(1) h(1)] h(2) by simp_all
  show "hp_bad (w_heap w1) = hp_bad (w_heap w)"
    "hp_live (w_heap w1) = (case r of None \<Rightarrow> hp_live (w_heap w) | Some a \<Rightarrow> a # hp_live (w_heap w))"
    using h malloc_NoneD malloc_SomeD by (cases r; force)+
qed

lemma w_heap_free [simp]: "w_heap (w_free a w) = cfree (Some a) (w_heap w)"
  by (simp add: w_free_def w_set_heap_def)

lemma fsm_init_ok:
  assumes ok: "heap_ok (w_heap w)" and none: "fm_state (w_mem w) = Map.empty" and k: "k \<le> 43"
  shows "\<exists>ret r w'. fsm_init (2 ^ k) factor nq w = Some ((ret, r), w') \<and> hp_bad (w_heap w') = hp_bad (w_heap w) \<and>
    (ret = FSM_ENOMEM \<and> r = None \<and> mset (hp_live (w_heap w)) \<subseteq># mset (hp_live (w_heap w')) \<or>
     ret = FSM_OK \<and> (\<exists>f. r = Some f \<and> life_inv f w' \<and> f_cstate f = None \<and> f_nqueues f = nq \<and>
       concat (f_pqtable f) = [] \<and> st_map f w' = Map.empty \<and>
       mset (hp_live (w_heap w')) = mset (hp_live (w_heap w)) + owned f w'))"
proof -
  obtain r1 w1 where 1: "w_malloc sizeof_fsm w = (r1, w1)" by force
  note M1 = w_malloc_heap [OF ok 1]
  obtain r2 w2 where 2: "w_malloc sizeof_htable w1 = (r2, w2)" by force
  note M2 = w_malloc_heap [OF M1(1) 2]
  obtain r3 w3 where 3: "w_malloc (unat nq * sizeof_pqhead) w2 = (r3, w3)" by force
  note M3 = w_malloc_heap [OF M2(1) 3]
  obtain r4 w4 where 4: "w_malloc sizeof_mutex w3 = (r4, w4)" by force
  note M4 = w_malloc_heap [OF M3(1) 4]
  let ?L = "hp_live (w_heap w)"
  have fail: "hp_bad (fold (\<lambda>a. cfree (Some a)) as h) = hp_bad h \<and>
      mset ?L \<subseteq># mset (hp_live (fold (\<lambda>a. cfree (Some a)) as h))"
    if "mset (hp_live h) = mset ?L + mset as + X" for as h X
  proof -
    have "mset as \<subseteq># mset (hp_live h)" using that by (simp add: subseteq_mset_def)
    from cfrees_mset [OF this] that show ?thesis by simp
  qed
  show ?thesis
  proof (cases r1)
    case None
    with 1 M1 show ?thesis by (simp add: fsm_init_def)
  next
    case pf: (Some pf)
    show ?thesis
    proof (cases r2)
      case None
      then show ?thesis using 1 2 pf M1 M2 fail [of "w_heap w2" "[pf]" "{#}"] by (simp add: fsm_init_def)
    next
      case pt: (Some pt)
      show ?thesis
      proof (cases r3)
        case None
        then show ?thesis using 1 2 3 pf pt M1 M2 M3 fail [of "w_heap w3" "[pt, pf]" "{#}"] by (simp add: fsm_init_def)
      next
        case pq: (Some pq)
        show ?thesis
        proof (cases r4)
          case None
          then show ?thesis using 1 2 3 4 pf pt pq M1 M2 M3 M4 fail [of "w_heap w4" "[pt, pf]" "{#pq#}"]
            by (simp add: fsm_init_def)
        next
          case mo: (Some mo)
          note run = fsm_init_def 1 2 3 4 pf pt pq mo
          have live4: "hp_live (w_heap w4) = [mo, pq, pt, pf] @ ?L"
            using M1(4) M2(4) M3(4) M4(4) pf pt pq mo by simp
          have mem: "w_mem w4 = w_mem w" by (subst M4(2), subst M3(2), subst M2(2), subst M1(2)) simp
          from k M4(1) show ?thesis
          proof (cases rule: init_ok [where factor = "ucast factor" and hf = fsm_hashf and cf = fsm_cmpf and
                pf = fsm_printf and kv = fm_cell and m = "w_mem w"])
            case (nomem h')
            then show ?thesis
              using live4 M1(3) M2(3) M3(3) M4(3) fail [of h' "[pq, pt, pf]" "{#mo#}"] by (simp add: run)
          next
            case (table t h')
            let ?f = "\<lparr>f_addr = pf, f_sttable = pt, f_cstate = None, f_nqueues = nq, f_mobj = mo, f_pqaddr = pq,
                f_pqtable = replicate (unat nq) []\<rparr>"
            let ?w = "put_table pt t (w4\<lparr>w_heap := h'\<rparr>)"
            have mem': "w_mem ?w = w_mem w" by (simp add: put_table_def mem)
            have tab: "w_table ?w pt = Some t" by (simp add: put_table_def)
            have own: "owned ?f ?w = {#pf, pt, mo, pq#} + mset (ht_owned t)"
              by (simp add: owned_def fsm_own_def pq_own_def mem' none tab)
            have sm: "st_map ?f ?w = Map.empty" using table(4) by (simp add: st_map_def tab mem')
            have tok: "tbl_ok (w_mem ?w) t"
              using table(2,5-7) by (simp add: tbl_ok_def stk.for_ht_def mem' fsm_callbacks)
            have live: "mset (hp_live (w_heap ?w)) = mset ?L + owned ?f ?w"
              unfolding own using table(10) live4 by (simp add: put_table_def add_mset_commute)
            have "fsm_ok ?f ?w"
              using tok table(5) by (simp add: fsm_ok_def world_ok_def mem' none tab)
            moreover have "heap_ok (w_heap ?w)" using table(3) by (simp add: put_table_def ht_heap_def)
            moreover have "owned ?f ?w \<subseteq># mset (hp_live (w_heap ?w))" by (simp add: live)
            ultimately have "life_inv ?f ?w" by (simp add: life_inv_def no_null_def mem' none)
            moreover have "fsm_init (2 ^ k) factor nq w = Some ((FSM_OK, Some ?f), ?w)" using table(1) by (simp add: run)
            moreover have "hp_bad (w_heap ?w) = hp_bad (w_heap w)"
              using table(11) M1(3) M2(3) M3(3) M4(3) by (simp add: put_table_def)
            ultimately show ?thesis using live sm by (intro exI conjI disjI2) (assumption | simp)+
          qed
        qed
      qed
    qed
  qed
qed

end
