(* ===== verification/Fsm_Drive.thy ===== *)
theory Fsm_Drive imports Fsm_Life begin

text \<open>
  Driving a machine: setting its state, marking, processing, queueing and serving events keep the
  invariant of \<open>Fsm_Own\<close> and account for every block.
\<close>

unbundle bit_operations_syntax

section \<open>Driving a machine\<close>

lemma owned_flags:
  assumes fl: "flags_only w w'"
  shows "owned f w' = owned f w"
proof -
  note m = flags_only_mem [OF fl]
  have "st_own w' a = st_own w a" for a
    using m flags_only_state [OF fl, of a] flags_only_state_rev [OF fl, of a]
    by (cases "fm_state (w_mem w) a"; cases "fm_state (w_mem w') a") (auto simp: st_own_def)
  then show ?thesis using m by (simp add: owned_def fsm_own_def)
qed

lemma owned_fields:
  "owned (f\<lparr>f_cstate := c\<rparr>) w = owned f w"
  "owned (f\<lparr>f_pqtable := q\<rparr>) w + pq_own (f_pqtable f) = owned f w + pq_own q"
  by (simp_all add: owned_def fsm_own_def)

lemma drive_shape:
  assumes "fsm_step exec (f, w) (f', w')" "fsm_ok f w" "no_null w" "quiet exec"
  shows "(\<exists>c. f' = f\<lparr>f_cstate := c\<rparr>) \<and> (flags_only w w' \<or> (\<exists>out. w' = w_print out w))"
  using assms(1)
proof (cases rule: fsm_step.cases)
  case (set_state k r)
  with set_state_ok [OF assms(2,3), of k] show ?thesis
    by (cases "st_map f w k") (auto intro: exI [of _ "f_cstate f"])
next
  case (process k data r)
  then obtain c where c: "f_cstate f = Some c" by (cases "f_cstate f") (simp_all add: fsm_process_event_def)
  have keep: "\<exists>x. f = f\<lparr>f_cstate := x\<rparr>" by (intro exI [of _ "f_cstate f"]) simp
  from process process_ok [OF assms(2) c assms(4), of k data] keep show ?thesis
    by (auto split: option.splits if_splits)
next
  case mark
  with mark_ok [OF assms(2,3)] show ?thesis by (auto simp: marks_def intro: exI [of _ "f_cstate f"])
qed

lemma flags_evt_at: "flags_only w w' \<Longrightarrow> evt_at w' a k = evt_at w a k"
  using flags_only_state [of w w' a] flags_only_state_rev [of w w' a] flags_only_mem [of w w']
  by (cases "fm_state (w_mem w) a"; cases "fm_state (w_mem w') a") (auto simp: evt_at_def ht_map_def ht_pairs_def)

lemma drive_ok:
  assumes st: "fsm_step exec (f, w) (f', w')" and inv: "life_inv f w" and q: "quiet exec"
  shows "life_inv f' w'" "balanced f w f' w'" "f_pqtable f' = f_pqtable f" "st_map f' w' = st_map f w"
    "dom (fm_state (w_mem w')) = dom (fm_state (w_mem w))" "key_at w' = key_at w" "evt_at w' a k = evt_at w a k"
proof -
  have S: "fsm_ok f' w'" "no_null w'" "st_map f' w' = st_map f w"
    using step_ok [OF st lifeD(1,2) [OF inv] q] by simp_all
  obtain c where f': "f' = f\<lparr>f_cstate := c\<rparr>" and w': "flags_only w w' \<or> (\<exists>out. w' = w_print out w)"
    using drive_shape [OF st lifeD(1,2) [OF inv] q] by blast
  have same: "owned f w' = owned f w \<and> w_heap w' = w_heap w \<and> dom (fm_state (w_mem w')) = dom (fm_state (w_mem w)) \<and>
      key_at w' = key_at w \<and> evt_at w' a k = evt_at w a k"
    using w'
  proof
    assume fl: "flags_only w w'"
    with owned_flags [OF fl] key_at_flags [OF fl] flags_evt_at [OF fl] show ?thesis by (simp add: flags_only_def fun_eq_iff)
  next
    assume "\<exists>out. w' = w_print out w"
    then obtain out where o: "w' = w_print out w" by blast
    have s: "same_objs f w w'" unfolding o by (rule same_objs_print)
    show ?thesis using same_objs_owned [OF s] same_objs_maps [OF inv s] s o
      by (simp add: same_objs_def w_print_def fun_eq_iff)
  qed
  then have own: "owned f' w' = owned f w" by (simp add: f' owned_fields)
  show "life_inv f' w'" using S lifeD(3-5) [OF inv] same own unfolding life_inv_def by simp
  show "balanced f w f' w'" using own same by (simp add: balanced_def)
  show "f_pqtable f' = f_pqtable f" by (simp add: f')
  show "st_map f' w' = st_map f w" by (rule S(3))
  show "dom (fm_state (w_mem w')) = dom (fm_state (w_mem w))" "key_at w' = key_at w" "evt_at w' a k = evt_at w a k"
    using same by simp_all
qed

section \<open>Queues\<close>

lemma life_queue:
  assumes inv: "life_inv f w" and len: "length q = length (f_pqtable f)"
    and live: "owned f w + pq_own q \<subseteq># mset (hp_live (w_heap w)) + pq_own (f_pqtable f)"
  shows "life_inv (f\<lparr>f_pqtable := q\<rparr>) w" "st_map (f\<lparr>f_pqtable := q\<rparr>) w = st_map f w"
proof -
  show sm: "st_map (f\<lparr>f_pqtable := q\<rparr>) w = st_map f w" by (simp add: st_map_def)
  have "fsm_ok (f\<lparr>f_pqtable := q\<rparr>) w" using lifeD(1) [OF inv] len unfolding fsm_ok_def sm by simp
  moreover have "owned (f\<lparr>f_pqtable := q\<rparr>) w + pq_own (f_pqtable f) \<subseteq># mset (hp_live (w_heap w)) + pq_own (f_pqtable f)"
    unfolding owned_fields by (rule live)
  then have "owned (f\<lparr>f_pqtable := q\<rparr>) w \<subseteq># mset (hp_live (w_heap w))" by simp
  ultimately show "life_inv (f\<lparr>f_pqtable := q\<rparr>) w" using lifeD(2-4) [OF inv] unfolding life_inv_def by blast
qed

lemma pq_own_append:
  "i < length q \<Longrightarrow> pq_own (q[i := q ! i @ [n]]) = pq_own q + {#pq_data n, pq_addr n#}"
  using mset_concat_append [of i q n] unfolding pq_own_def
  by (simp add: mset_concat comp_def flip: sum_mset_sum_list)

lemma queue_ok:
  assumes inv: "life_inv f w"
  shows "case fsm_queue_event f k pdata n prio w of ((r, f'), w') \<Rightarrow> life_inv f' w' \<and> balanced f w f' w' \<and>
    f_cstate f' = f_cstate f \<and> f_nqueues f' = f_nqueues f \<and> same_objs f w w' \<and> st_map f' w' = st_map f w"
proof (cases "prio \<ge> f_nqueues f")
  case True
  with inv show ?thesis by (simp add: fsm_queue_event_def)
next
  case False
  then have i: "unat prio < length (f_pqtable f)"
    using fsm_okD(2) [OF lifeD(1) [OF inv]] by (simp add: word_le_nat_alt)
  obtain r1 w1 where 1: "w_malloc sizeof_pqnode w = (r1, w1)" by force
  note M1 = life_malloc [OF inv 1]
  show ?thesis
  proof (cases r1)
    case None
    with M1 same_heap_live [OF inv M1(1,2)] same_objs_maps(1) [OF inv M1(1)] False 1 show ?thesis
      by (simp add: fsm_queue_event_def)
  next
    case a: (Some a)
    note m1 = M1(7) [OF a]
    obtain r2 w2 where 2: "w_malloc n w1 = (r2, w2)" by force
    note M2 = life_malloc [OF M1(2) 2]
    have s2: "same_objs f w w2" by (rule same_objs_trans [OF M1(1) M2(1)])
    show ?thesis
    proof (cases r2)
      case None
      have l: "mset (hp_live (w_heap w2)) = mset (hp_live (w_heap w)) + {#a#} + {#}" using M2(6) [OF None] m1 by simp
      have x: "a \<notin># owned f w" using m1 by simp
      note F = life_free_new [OF inv M2(2) s2 x l]
      have "balanced f w f (w_free a w2)"
        using F M1(4) M2(4) by (simp add: balanced_def same_objs_owned [OF F(2)])
      with F same_objs_maps(1) [OF inv F(2)] False 1 2 a None show ?thesis by (simp add: fsm_queue_event_def)
    next
      case d: (Some d)
      note m2 = M2(7) [OF d]
      let ?n = "\<lparr>pq_addr = a, pq_data = d, pq_evtkey = k, pq_prio = prio\<rparr>"
      let ?q = "(f_pqtable f)[unat prio := f_pqtable f ! unat prio @ [?n]]"
      have own: "owned f w2 = owned f w" by (rule same_objs_owned [OF s2])
      have q: "pq_own ?q = pq_own (f_pqtable f) + {#d, a#}" using pq_own_append [OF i, of ?n] by simp
      have live: "mset (hp_live (w_heap w2)) = mset (hp_live (w_heap w)) + {#d, a#}" using m1 m2 by simp
      have "owned f w2 + pq_own ?q \<subseteq># mset (hp_live (w_heap w2)) + pq_own (f_pqtable f)"
        unfolding own q live using lifeD(5) [OF inv] by simp
      note L = life_queue [OF M2(2) _ this, simplified]
      have "owned (f\<lparr>f_pqtable := ?q\<rparr>) w2 + pq_own (f_pqtable f) = owned f w + {#d, a#} + pq_own (f_pqtable f)"
        unfolding owned_fields own q by (simp add: ac_simps)
      then have "owned (f\<lparr>f_pqtable := ?q\<rparr>) w2 = owned f w + {#d, a#}" by simp
      then have "balanced f w (f\<lparr>f_pqtable := ?q\<rparr>) w2" using live M1(4) M2(4) by (simp add: balanced_def)
      with L s2 same_objs_maps(1) [OF inv s2] False 1 2 a d show ?thesis by (simp add: fsm_queue_event_def Let_def)
    qed
  qed
qed

lemma pq_own_pending: "pq_own (f_pqtable f) = (\<Sum>n\<in>#mset (pending f). {#pq_data n, pq_addr n#})"
proof -
  have "mset (concat (rev q)) = mset (concat q)" for q :: "pqnode list list" by (induction q) (simp_all add: ac_simps)
  then show ?thesis by (simp add: pq_own_def pending_def mset_concat comp_def flip: sum_mset_sum_list)
qed

lemma life_free_two:
  \<comment> \<open>Releasing two blocks that belonged to a machine that was \<open>g\<close> and is now \<open>f\<close>.\<close>
  assumes inv: "life_inv f w" and own: "owned f w + {#d, a#} = M" "M \<subseteq># mset (hp_live (w_heap w))"
  shows "life_inv f (w_free a (w_free d w))" "same_objs f w (w_free a (w_free d w))"
    "mset (hp_live (w_heap (w_free a (w_free d w)))) + {#d, a#} = mset (hp_live (w_heap w))"
    "hp_bad (w_heap (w_free a (w_free d w))) = hp_bad (w_heap w)"
proof -
  have c: "count (owned f w + {#d, a#}) x \<le> 1" for x
    using live_count [OF lifeD(3) [OF inv] own(2)] own(1) by simp
  have ne: "a \<noteq> d" using c [of a] by auto
  have no: "d \<notin># owned f w" "a \<notin># owned f w" using c [of d] c [of a] by (simp_all add: not_in_iff split: if_splits)
  have sub: "{#d, a#} \<subseteq># mset (hp_live (w_heap w))"
    using own by (metis mset_subset_eq_add_right subset_mset.order_trans)
  have "d \<in># mset (hp_live (w_heap w))" "a \<in># mset (hp_live (w_heap w))" using mset_subset_eqD [OF sub] by simp_all
  then have mem: "d \<in> set (hp_live (w_heap w))" "a \<in> set (hp_live (w_heap w))" by simp_all
  note F = life_free [OF inv mem(1) no(1)]
  have "a \<in># mset (hp_live (w_heap (w_free d w)))" unfolding F(3) using mem(2) ne by (simp add: in_diff_count)
  then have a1: "a \<in> set (hp_live (w_heap (w_free d w)))" by simp
  have a2: "a \<notin># owned f (w_free d w)" using no(2) same_objs_owned [OF F(1)] by simp
  note G = life_free [OF F(2) a1 a2]
  show "life_inv f (w_free a (w_free d w))" by (rule G(2))
  show "same_objs f w (w_free a (w_free d w))" by (rule same_objs_trans [OF F(1) G(1)])
  show "hp_bad (w_heap (w_free a (w_free d w))) = hp_bad (w_heap w)" using G(4) F(4) by simp
  have "mset (hp_live (w_heap (w_free a (w_free d w)))) = mset (hp_live (w_heap w)) - {#d, a#}"
    unfolding G(3) F(3) by (simp add: add_mset_commute)
  then show "mset (hp_live (w_heap (w_free a (w_free d w)))) + {#d, a#} = mset (hp_live (w_heap w))"
    using subset_mset.diff_add [OF sub] by simp
qed

lemma dequeue_life:
  assumes inv: "life_inv f w" and c: "f_cstate f = Some c" and q: "quiet exec" and n: "f_nqueues f \<noteq> 0"
  shows "\<exists>r f' w'. fsm_dequeue_event exec f w = Some ((r, f'), w') \<and> life_inv f' w' \<and> balanced f w f' w' \<and>
    dom (fm_state (w_mem w')) = dom (fm_state (w_mem w)) \<and> st_map f' w' = st_map f w"
proof (cases "pending f")
  case Nil
  then show ?thesis using dequeue_ok [OF lifeD(1) [OF inv] c q n] inv by simp
next
  case (Cons n ns)
  from dequeue_ok [OF lifeD(1) [OF inv] c q n, unfolded Cons list.case] obtain r f1 w1 f' w' tbl where
    p: "fsm_process_event exec f (pq_evtkey n) (Some (pq_data n)) w = Some ((r, f1), w1)"
    and d: "fsm_dequeue_event exec f w = Some ((FSM_OK, f'), w')" "pending f' = ns" "w' = pq_release n w1"
    and f1: "f' = f1\<lparr>f_pqtable := tbl\<rparr>" "length tbl = length (f_pqtable f)"
    by (elim exE conjE) (rule that)
  note D = drive_ok [OF fsm_step.process [OF p] inv q]
  have f': "f' = f1\<lparr>f_pqtable := tbl\<rparr>" "length tbl = length (f_pqtable f1)" using f1 D(3) by simp_all
  have "pq_own (f_pqtable f) = pq_own (f_pqtable f') + {#pq_data n, pq_addr n#}"
    unfolding pq_own_pending Cons d(2) by simp
  then have pq: "pq_own (f_pqtable f1) = pq_own tbl + {#pq_data n, pq_addr n#}" using f' D(3) by simp
  have "owned f1 w1 + pq_own tbl \<subseteq># mset (hp_live (w_heap w1)) + pq_own (f_pqtable f1)"
    unfolding pq by (rule subset_mset.add_mono [OF lifeD(5) [OF D(1)]]) simp
  note L = life_queue [OF D(1) f'(2) this, folded f'(1)]
  have "owned f' w1 + pq_own (f_pqtable f1) = owned f1 w1 + pq_own tbl" unfolding f'(1) by (rule owned_fields)
  then have own: "owned f' w1 + {#pq_data n, pq_addr n#} = owned f1 w1" unfolding pq by (simp add: add_mset_commute)
  note F = life_free_two [OF L(1) own lifeD(5) [OF D(1)], folded pq_release_def]
  have "balanced f1 w1 f' (pq_release n w1)"
    using F(3,4) own same_objs_owned [OF F(2)] unfolding balanced_def by (metis (no_types) add.assoc add.commute)
  then have "balanced f w f' (pq_release n w1)" by (rule balanced_trans [OF D(2)])
  moreover have "st_map f' (pq_release n w1) = st_map f w" using same_objs_maps(1) [OF L(1) F(2)] L(2) D(4) by simp
  moreover have "fm_state (w_mem (pq_release n w1)) = fm_state (w_mem w1)" using F(2) by (simp add: same_objs_def)
  ultimately show ?thesis using d(1) [unfolded d(3)] F(1) D(5) by (intro exI conjI) (assumption | simp)+
qed

end
