(* ===== verification/Fsm_Release.thy ===== *)
theory Fsm_Release imports Fsm_Drive begin

text \<open>
  Releasing a machine: \<open>fsm_free\<close> as one sequence of calls of \<open>free\<close>, and which of the machine's
  blocks it gives back.
\<close>

unbundle bit_operations_syntax

abbreviation frees :: "addr list \<Rightarrow> cheap \<Rightarrow> cheap" where
  "frees as h \<equiv> fold (\<lambda>a. cfree (Some a)) as h"

section \<open>A sequence of releases\<close>

lemma cfree_sub: "set (hp_live (cfree p h)) \<subseteq> set (hp_live h)"
  by (auto simp: cfree_def dest: subsetD [OF set_remove1_subset] split: option.splits)

lemma frees_sub: "set (hp_live (frees as h)) \<subseteq> set (hp_live h)"
  using cfree_sub by (induction as arbitrary: h) (simp, fastforce)

lemma set_heap_again:
  assumes "set (hp_live h') \<subseteq> set (hp_live h)"
  shows "w_set_heap h' (w_set_heap h w) = w_set_heap h' w"
proof -
  have "set (hp_live h) \<inter> set (hp_live h') = set (hp_live h')" using assms by blast
  then show ?thesis by (simp add: w_set_heap_def)
qed

lemma set_heap_frees: "w_set_heap (frees as h) (w_set_heap h w) = w_set_heap (frees as h) w"
  by (rule set_heap_again [OF frees_sub])

lemma w_heap_set [simp]: "w_heap (w_set_heap h w) = h"
  by (simp add: w_set_heap_def)

lemma free_set_heap: "w_free a (w_set_heap h w) = w_set_heap (cfree (Some a) h) w"
  by (simp add: w_free_def set_heap_again [OF cfree_sub])

lemma pq_release_set_heap: "pq_release n (w_set_heap h w) = w_set_heap (frees [pq_data n, pq_addr n] h) w"
  by (simp add: pq_release_def free_set_heap)

lemma pq_releases_set_heap:
  "fold pq_release ns (w_set_heap h w) = w_set_heap (frees (concat (map (\<lambda>n. [pq_data n, pq_addr n]) ns)) h) w"
  by (induction ns arbitrary: h) (simp_all add: pq_release_set_heap)

lemma free_all_frees:
  "ht_log t k \<Longrightarrow> htable_free_all_obj t fl h = Some (frees (concat (map (node_contents fl) (ht_nodes t))) h)"
  by (simp add: htable_free_all_obj_def ht_chains_log free_contents_all ht_nodes_def)

lemma htable_free_frees:
  "ht_log t k \<Longrightarrow> htable_free t h = Some (frees (map hn_addr (ht_nodes t) @ [ht_tbladdr t]) h)"
  by (simp add: htable_free_def ht_chains_log ht_nodes_def fold_map comp_def)

section \<open>The states\<close>

definition st_blocks :: "world \<Rightarrow> addr \<Rightarrow> addr list" where
  \<comment> \<open>What \<open>state_free\<close> releases, in its order.\<close>
  "st_blocks w a =
     (case fm_state (w_mem w) a of
        None \<Rightarrow> []
      | Some s \<Rightarrow> (case w_table w (evttable s) of
          None \<Rightarrow> []
        | Some t \<Rightarrow> concat (map (node_contents (HT_FREEKEY OR HT_FREEDATA)) (ht_nodes t)) @
            map hn_addr (ht_nodes t) @ [ht_tbladdr t, evttable s, a]))"

definition st_there :: "world \<Rightarrow> addr \<Rightarrow> bool" where
  "st_there w a \<longleftrightarrow> (\<exists>s t k. fm_state (w_mem w) a = Some s \<and> w_table w (evttable s) = Some t \<and> ht_log t k)"

lemma state_free_frees:
  assumes "st_there w a"
  shows "state_free a w = Some (ST_OK, w_set_heap (frees (st_blocks w a) (w_heap w)) w)"
  using assms by (auto simp: st_there_def state_free_def st_blocks_def free_all_frees htable_free_frees free_set_heap)

lemma st_kept:
  assumes "st_there w a" "set (st_blocks w a) \<subseteq> set (hp_live h)"
  shows "st_there (w_set_heap h w) a \<and> st_blocks (w_set_heap h w) a = st_blocks w a"
proof -
  obtain s t k where s: "fm_state (w_mem w) a = Some s" "w_table w (evttable s) = Some t" "ht_log t k"
    using assms(1) by (auto simp: st_there_def)
  have "a \<in> set (hp_live h)" "evttable s \<in> set (hp_live h)" using assms(2) s by (auto simp: st_blocks_def)
  then have "fm_state (w_mem (w_set_heap h w)) a = Some s" "w_table (w_set_heap h w) (evttable s) = Some t"
    using s by (simp_all add: w_set_heap_def)
  with s show ?thesis by (simp add: st_there_def st_blocks_def) blast
qed

lemma free_states_frees:
  "(\<forall>n\<in>set ns. \<exists>a. hn_data n = Some a \<and> st_there w a) \<Longrightarrow>
    mset (concat (map (\<lambda>n. st_blocks w (the (hn_data n))) ns)) \<subseteq># mset (hp_live (w_heap w)) \<Longrightarrow>
    \<exists>w'. fsm_free_states ns w = Some w' \<and>
      (\<forall>as. w_set_heap (frees as (w_heap w')) w' =
        w_set_heap (frees (concat (map (\<lambda>n. st_blocks w (the (hn_data n))) ns) @ as) (w_heap w)) w) \<and>
      w_heap w' = frees (concat (map (\<lambda>n. st_blocks w (the (hn_data n))) ns)) (w_heap w)"
proof (induction ns arbitrary: w)
  case (Cons n ns)
  then obtain a where a: "hn_data n = Some a" "st_there w a" by auto
  let ?h = "frees (st_blocks w a) (w_heap w)"
  let ?w = "w_set_heap ?h w" and ?rest = "concat (map (\<lambda>n. st_blocks w (the (hn_data n))) ns)"
  have sub: "mset (st_blocks w a) + mset ?rest \<subseteq># mset (hp_live (w_heap w))" using Cons.prems(2) a by simp
  have "mset (st_blocks w a) \<subseteq># mset (hp_live (w_heap w))" by (rule subset_mset.order_trans [OF _ sub]) simp
  from cfrees_mset [OF this] have h: "mset (hp_live ?h) = mset (hp_live (w_heap w)) - mset (st_blocks w a)" by blast
  have rest: "mset ?rest \<subseteq># mset (hp_live ?h)"
  proof (rule mset_subset_eqI)
    show "count (mset ?rest) x \<le> count (mset (hp_live ?h)) x" for x
      using mset_subset_eq_count [OF sub, of x] unfolding h by simp
  qed
  have live: "set ?rest \<subseteq> set (hp_live ?h)" using set_mset_mono [OF rest] by simp
  have kept: "st_there ?w (the (hn_data m)) \<and> st_blocks ?w (the (hn_data m)) = st_blocks w (the (hn_data m))"
    if "m \<in> set ns" for m
  proof (rule st_kept)
    show "st_there w (the (hn_data m))" using Cons.prems(1) that by auto
    show "set (st_blocks w (the (hn_data m))) \<subseteq> set (hp_live ?h)" using live that by auto
  qed
  have eq: "concat (map (\<lambda>n. st_blocks ?w (the (hn_data n))) ns) = ?rest"
    using kept by (intro arg_cong [where f = concat] map_cong) auto
  have "\<forall>m\<in>set ns. \<exists>b. hn_data m = Some b \<and> st_there ?w b" using Cons.prems(1) kept by fastforce
  from Cons.IH [OF this, unfolded eq] rest obtain w' where w': "fsm_free_states ns ?w = Some w'"
    "\<And>as. w_set_heap (frees as (w_heap w')) w' = w_set_heap (frees (?rest @ as) ?h) ?w" "w_heap w' = frees ?rest ?h"
    by auto
  have "w_set_heap (frees as (w_heap w')) w' = w_set_heap (frees (st_blocks w a @ ?rest @ as) (w_heap w)) w" for as
    unfolding w'(2) set_heap_frees by simp
  with w'(1,3) a state_free_frees [OF a(2)] show ?case by simp
qed simp

section \<open>The whole machine\<close>

definition visited_nodes :: "fmem htable \<Rightarrow> hnode list" where
  "visited_nodes t = concat (butlast (ht_table t)) @ take 1 (last (ht_table t))"

definition hidden_nodes :: "fmem htable \<Rightarrow> hnode list" where
  "hidden_nodes t = drop 1 (last (ht_table t))"

definition freed_states :: "fsm_t \<Rightarrow> world \<Rightarrow> addr list" where
  \<comment> \<open>The states that an iteration over the table of states visits.\<close>
  "freed_states f w =
     (case w_table w (f_sttable f) of None \<Rightarrow> [] | Some t \<Rightarrow> map (the \<circ> hn_data) (visited_nodes t))"

definition hidden_keys :: "fsm_t \<Rightarrow> world \<Rightarrow> addr list" where
  \<comment> \<open>The keys of the registered states that it does not visit.\<close>
  "hidden_keys f w = (case w_table w (f_sttable f) of None \<Rightarrow> [] | Some t \<Rightarrow> map hn_key (hidden_nodes t))"

lemma nodes_parts:
  assumes "ht_log t k"
  shows "ht_nodes t = visited_nodes t @ hidden_nodes t"
proof -
  have ne: "ht_table t \<noteq> []" using assms by (auto simp: ht_log_def)
  have "ht_nodes t = concat (butlast (ht_table t) @ [last (ht_table t)])" unfolding ht_nodes_def using ne by simp
  also have "\<dots> = concat (butlast (ht_table t)) @ take 1 (last (ht_table t)) @ drop 1 (last (ht_table t))"
    by (simp only: concat_append concat.simps append_Nil2 append_take_drop_id)
  finally show ?thesis by (simp only: visited_nodes_def hidden_nodes_def append_assoc)
qed

lemma key_contents: "node_contents HT_FREEKEY = (\<lambda>n. [hn_key n])"
  by (simp add: fun_eq_iff node_contents_def HT_FREEKEY_def HT_FREEDATA_def)

lemma st_own_blocks:
  assumes "fm_state (w_mem w) a = Some s" "w_table w (evttable s) = Some t"
  shows "st_own w a = mset (st_blocks w a) + {#st_key s#}"
  using assms by (simp add: st_own_def st_blocks_def tbl_own_def ht_owned_def ac_simps)

lemma life_there: "life_inv f w \<Longrightarrow> fm_state (w_mem w) a = Some s \<Longrightarrow> st_there w a"
  using life_table [of f w a s] ht_invD(1) by (fastforce simp: st_there_def tbl_ok_def)

definition fsm_blocks :: "fsm_t \<Rightarrow> world \<Rightarrow> addr list" where
  \<comment> \<open>What \<open>fsm_free\<close> releases, in its order.\<close>
  "fsm_blocks f w =
     concat (map (st_blocks w) (freed_states f w)) @
     (case w_table w (f_sttable f) of None \<Rightarrow> []
      | Some t \<Rightarrow> map hn_key (ht_nodes t) @ map hn_addr (ht_nodes t) @ [ht_tbladdr t]) @
     f_sttable f # concat (map (\<lambda>n. [pq_data n, pq_addr n]) (concat (f_pqtable f))) @
     [f_pqaddr f, f_mobj f, f_addr f]"

lemma fsm_free_frees:
  assumes inv: "life_inv f w" and sub: "mset (concat (map (st_blocks w) (freed_states f w))) \<subseteq># mset (hp_live (w_heap w))"
  shows "fsm_free f w = Some (FSM_OK, w_set_heap (frees (fsm_blocks f w) (w_heap w)) w)"
proof -
  obtain t where t: "w_table w (f_sttable f) = Some t" "tbl_ok (w_mem w) t"
    "\<forall>n\<in>set (ht_nodes t). \<exists>a s. hn_data n = Some a \<and> fm_state (w_mem w) a = Some s \<and> st_key s = hn_key n"
    using fsm_okD(3) [OF lifeD(1) [OF inv]] by blast
  have i: "ht_inv fm_cell (w_mem w) t" using t(2) by (simp add: tbl_ok_def)
  obtain k where k: "ht_log t k" using ht_invD(1) [OF i] by blast
  have ne: "ht_table t \<noteq> []" using k by (auto simp: ht_log_def)
  have it: "ht_iterate t htable_iterator_init = Some (visited_nodes t)"
    using iterate_ok [OF k] ht_invD(4) [OF i] ne by (simp add: visited_nodes_def ht_visit_def ht_nodes_def)
  let ?ns = "visited_nodes t"
  have fs: "freed_states f w = map (\<lambda>n. the (hn_data n)) ?ns" using t(1) by (simp add: freed_states_def comp_def)
  have there: "\<forall>n\<in>set ?ns. \<exists>a. hn_data n = Some a \<and> st_there w a"
    using t(3) life_there [OF inv] unfolding nodes_parts [OF k] by fastforce
  have "concat (map (\<lambda>n. st_blocks w (the (hn_data n))) ?ns) = concat (map (st_blocks w) (freed_states f w))"
    unfolding fs by (simp add: comp_def)
  from free_states_frees [OF there, unfolded this, OF sub] obtain w1 where
    w1: "fsm_free_states ?ns w = Some w1" "w_heap w1 = frees (concat (map (st_blocks w) (freed_states f w))) (w_heap w)"
    and all: "\<And>as. w_set_heap (frees as (w_heap w1)) w1 =
        w_set_heap (frees (concat (map (st_blocks w) (freed_states f w)) @ as) (w_heap w)) w"
    by blast
  let ?K = "map hn_key (ht_nodes t)" and ?N = "map hn_addr (ht_nodes t) @ [ht_tbladdr t]"
  have keys: "concat (map (node_contents HT_FREEKEY) (ht_nodes t)) = ?K" by (simp add: key_contents)
  have "htable_free_all_obj t HT_FREEKEY (w_heap w1) = Some (frees ?K (w_heap w1))"
    unfolding free_all_frees [OF k] keys ..
  moreover have "htable_free t (frees ?K (w_heap w1)) = Some (frees (?K @ ?N) (w_heap w1))"
    unfolding htable_free_frees [OF k] by simp
  moreover have "take (unat (f_nqueues f)) (f_pqtable f) = f_pqtable f"
    using fsm_okD(2) [OF lifeD(1) [OF inv]] by simp
  ultimately show ?thesis
    using t(1) it w1(1) all [of "?K @ ?N @ f_sttable f # concat (map (\<lambda>n. [pq_data n, pq_addr n]) (concat (f_pqtable f))) @
      [f_pqaddr f, f_mobj f, f_addr f]"]
    by (simp add: fsm_free_def free_set_heap pq_releases_set_heap fsm_blocks_def)
qed

lemma fsm_blocks_own:
  assumes inv: "life_inv f w"
  shows "mset (fsm_blocks f w) = fsm_own f w + (\<Sum>a\<in>set (freed_states f w). st_own w a) + mset (hidden_keys f w)"
    "mset (concat (map (st_blocks w) (freed_states f w))) \<subseteq># owned f w"
    "mset (hidden_keys f w) \<subseteq># (\<Sum>a\<in>dom (fm_state (w_mem w)) - set (freed_states f w). st_own w a)"
    "set (freed_states f w) \<subseteq> dom (fm_state (w_mem w))"
proof -
  let ?D = "dom (fm_state (w_mem w))" and ?A = "freed_states f w"
  obtain t where t: "w_table w (f_sttable f) = Some t" "tbl_ok (w_mem w) t"
    "\<forall>n\<in>set (ht_nodes t). \<exists>a s. hn_data n = Some a \<and> fm_state (w_mem w) a = Some s \<and> st_key s = hn_key n"
    using fsm_okD(3) [OF lifeD(1) [OF inv]] by blast
  have i: "ht_inv fm_cell (w_mem w) t" using t(2) by (simp add: tbl_ok_def)
  obtain k where k: "ht_log t k" using ht_invD(1) [OF i] by blast
  note parts = nodes_parts [OF k]
  let ?st = "\<lambda>n. the (hn_data n)"
  define key where "key a = (case fm_state (w_mem w) a of None \<Rightarrow> 0 | Some s \<Rightarrow> st_key s)" for a
  have N: "?st n \<in> ?D \<and> key (?st n) = hn_key n" if "n \<in> set (ht_nodes t)" for n
    using t(3) that by (force simp: key_def)
  have B: "st_own w a = mset (st_blocks w a) + {#key a#}" if a: "a \<in> ?D" for a
  proof -
    obtain s where s: "fm_state (w_mem w) a = Some s" using a by blast
    obtain u where u: "w_table w (evttable s) = Some u" using life_table [OF inv s] by blast
    show ?thesis using st_own_blocks [OF s u] by (simp add: key_def s)
  qed
  have "distinct (map (\<lambda>n. fm_cell (w_mem w) (hn_key n)) (ht_nodes t))" by (rule ht_invD(3) [OF i])
  then have dk: "distinct (map hn_key (ht_nodes t))" by (auto simp: distinct_map inj_on_def)
  have "map key (map ?st (ht_nodes t)) = map hn_key (ht_nodes t)" using N by simp
  then have ds: "distinct (map ?st (ht_nodes t))" using dk by (metis distinct_map)
  have A: "?A = map ?st (visited_nodes t)" using t(1) by (simp add: freed_states_def comp_def)
  have H: "hidden_keys f w = map hn_key (hidden_nodes t)" using t(1) by (simp add: hidden_keys_def)
  have dA: "distinct ?A" and dH: "distinct (map ?st (hidden_nodes t))"
    and disj: "set ?A \<inter> set (map ?st (hidden_nodes t)) = {}"
    using ds unfolding parts A by auto
  show AD: "set ?A \<subseteq> ?D" using N unfolding A parts by auto
  have HD: "set (map ?st (hidden_nodes t)) \<subseteq> ?D - set ?A" using N disj unfolding parts by auto
  have fin: "finite ?D" by (rule lifeD(4) [OF inv])
  have sumA: "(\<Sum>a\<in>set ?A. g a) = (\<Sum>a\<leftarrow>?A. g a)" for g :: "addr \<Rightarrow> addr multiset"
    by (rule sum_list_distinct_conv_sum_set [OF dA, symmetric])
  have L: "(\<Sum>a\<leftarrow>xs. st_own w a) = mset (concat (map (st_blocks w) xs)) + mset (map key xs)" if "set xs \<subseteq> ?D" for xs
    using that by (induction xs) (simp_all add: B)
  have "map key ?A = map hn_key (visited_nodes t)" using N unfolding A parts by simp
  then have S: "(\<Sum>a\<in>set ?A. st_own w a) = mset (concat (map (st_blocks w) ?A)) + mset (map hn_key (visited_nodes t))"
    unfolding sumA L [OF AD] by simp
  show "mset (fsm_blocks f w) = fsm_own f w + (\<Sum>a\<in>set ?A. st_own w a) + mset (hidden_keys f w)"
    unfolding S H by (simp add: fsm_blocks_def fsm_own_def t(1) pq_own_def ht_owned_def parts ac_simps)
  have split: "(\<Sum>a\<in>?D. st_own w a) = (\<Sum>a\<in>?D - set ?A. st_own w a) + (\<Sum>a\<in>set ?A. st_own w a)"
    by (rule sum.subset_diff [OF AD fin])
  show "mset (concat (map (st_blocks w) ?A)) \<subseteq># owned f w"
    unfolding owned_def split S by (simp add: subseteq_mset_def)
  have "mset (map hn_key (hidden_nodes t)) \<subseteq># (\<Sum>a\<leftarrow>map ?st (hidden_nodes t). st_own w a)"
  proof -
    have hk: "map key (map ?st (hidden_nodes t)) = map hn_key (hidden_nodes t)" using N unfolding parts by simp
    have "set (map ?st (hidden_nodes t)) \<subseteq> ?D" using HD by blast
    from L [OF this] show ?thesis by (simp only: hk mset_subset_eq_add_right)
  qed
  also have "\<dots> = (\<Sum>a\<in>set (map ?st (hidden_nodes t)). st_own w a)"
    by (rule sum_list_distinct_conv_sum_set [OF dH])
  also have "\<dots> \<subseteq># (\<Sum>a\<in>?D - set ?A. st_own w a)"
  proof -
    have "finite (?D - set ?A)" using fin by simp
    from sum.subset_diff [OF HD this, of "st_own w"] show ?thesis by simp
  qed
  finally show "mset (hidden_keys f w) \<subseteq># (\<Sum>a\<in>?D - set ?A. st_own w a)" unfolding H .
qed

lemma mset_shuffle:
  assumes "(l :: addr multiset) + (p + a + k) = m"
  shows "l + (p + a + r) + k = m + r"
  unfolding assms [symmetric] by (simp add: ac_simps)

lemma free_ok:
  assumes inv: "life_inv f w"
  shows "\<exists>w'. fsm_free f w = Some (FSM_OK, w') \<and> hp_bad (w_heap w') = hp_bad (w_heap w) \<and>
    mset (hp_live (w_heap w')) + owned f w + mset (hidden_keys f w) =
      mset (hp_live (w_heap w)) + (\<Sum>a\<in>dom (fm_state (w_mem w)) - set (freed_states f w). st_own w a)"
proof -
  note B = fsm_blocks_own [OF inv]
  let ?R = "\<Sum>a\<in>dom (fm_state (w_mem w)) - set (freed_states f w). st_own w a"
  have own: "owned f w = fsm_own f w + (\<Sum>a\<in>set (freed_states f w). st_own w a) + ?R"
    unfolding owned_def sum.subset_diff [OF B(4) lifeD(4) [OF inv]] by (simp add: ac_simps)
  have "mset (fsm_blocks f w) \<subseteq># owned f w" unfolding B(1) own by (rule subset_mset.add_left_mono [OF B(3)])
  from subset_mset.order_trans [OF this lifeD(5) [OF inv]]
  have sub: "mset (fsm_blocks f w) \<subseteq># mset (hp_live (w_heap w))" .
  note C = cfrees_mset [OF sub]
  let ?w = "w_set_heap (frees (fsm_blocks f w) (w_heap w)) w"
  have "mset (hp_live (w_heap ?w)) + mset (fsm_blocks f w) = mset (hp_live (w_heap w))"
    using C subset_mset.diff_add [OF sub] by simp
  then have "mset (hp_live (w_heap ?w)) + owned f w + mset (hidden_keys f w) = mset (hp_live (w_heap w)) + ?R"
    unfolding own B(1) by (rule mset_shuffle)
  moreover have "fsm_free f w = Some (FSM_OK, ?w)"
    by (rule fsm_free_frees [OF inv subset_mset.order_trans [OF B(2) lifeD(5) [OF inv]]])
  ultimately show ?thesis using C by (intro exI [of _ ?w]) simp
qed

end
