(* ===== verification/Fsm_Machine.thy ===== *)
theory Fsm_Machine imports Fsm_Release begin

text \<open>
  Every history of a machine: \<open>fsm_init\<close>, any sequence of the library's operations called with the
  states of the machine, whatever \<open>malloc\<close> refuses on the way, and \<open>fsm_free\<close>.
\<close>

section \<open>Histories\<close>

text \<open>
  One call of the library. What the client owes: powers of two for the sizes of tables, states of the
  machine for the pointers, to register a state once, and not the current one, and to serve
  events only of a machine that has queues and a current state. The flag says whether the
  call got all the memory it asked for.
\<close>

inductive life_step :: "exec_t \<Rightarrow> bool \<Rightarrow> fsm_t \<times> world \<Rightarrow> fsm_t \<times> world \<Rightarrow> bool" for exec where
  new_state: "k \<le> 43 \<Longrightarrow> state_init g (2 ^ k) factor w = Some ((r, p), w') \<Longrightarrow>
    life_step exec (r = ST_OK) (f, w) (f, w')"
| add_state: "a \<in> dom (fm_state (w_mem w)) \<Longrightarrow> Some a \<notin> ran (st_map f w) \<Longrightarrow> f_cstate f \<noteq> Some a \<Longrightarrow>
    fsm_add_state f k a w = Some (r, w') \<Longrightarrow> life_step exec True (f, w) (f, w')"
| add_evt: "a \<in> dom (fm_state (w_mem w)) \<Longrightarrow> b \<in> dom (fm_state (w_mem w)) \<Longrightarrow>
    state_add_evt a k desc act (Some b) w = Some (r, w') \<Longrightarrow>
    life_step exec (r = ST_OK \<longrightarrow> evt_at w' a k \<noteq> None) (f, w) (f, w')"
| rem_evt: "a \<in> dom (fm_state (w_mem w)) \<Longrightarrow> state_rem_evt a k w = Some (r, w') \<Longrightarrow>
    life_step exec True (f, w) (f, w')"
| drive: "fsm_step exec (f, w) (f', w') \<Longrightarrow> life_step exec True (f, w) (f', w')"
| queue: "fsm_queue_event f k data n prio w = ((r, f'), w') \<Longrightarrow> life_step exec True (f, w) (f', w')"
| serve: "f_cstate f \<noteq> None \<Longrightarrow> f_nqueues f \<noteq> 0 \<Longrightarrow> fsm_dequeue_event exec f w = Some ((r, f'), w') \<Longrightarrow>
    life_step exec True (f, w) (f', w')"

inductive life_reach :: "exec_t \<Rightarrow> bool \<Rightarrow> fsm_t \<times> world \<Rightarrow> fsm_t \<times> world \<Rightarrow> bool" for exec where
  refl: "life_reach exec True c c"
| step: "life_reach exec b c d \<Longrightarrow> life_step exec b' d e \<Longrightarrow> life_reach exec (b \<and> b') c e"

definition kept :: "fsm_t \<Rightarrow> world \<Rightarrow> fsm_t \<Rightarrow> world \<Rightarrow> bool" where
  \<comment> \<open>No block of anyone else is touched; blocks may be lost.\<close>
  "kept f w f' w' \<longleftrightarrow> mset (hp_live (w_heap w)) + owned f' w' \<subseteq># mset (hp_live (w_heap w')) + owned f w \<and>
     hp_bad (w_heap w') = hp_bad (w_heap w)"

lemma kept_balanced: "balanced f w f' w' \<Longrightarrow> kept f w f' w'"
  by (simp add: kept_def balanced_def)

lemma kept_trans:
  assumes "kept f w g u" "kept g u h v"
  shows "kept f w h v"
proof -
  let ?L = "\<lambda>w. mset (hp_live (w_heap w))"
  have "?L w + owned h v \<subseteq># ?L v + owned f w"
  proof (rule mset_subset_eqI)
    fix x
    have "count (?L w + owned g u) x \<le> count (?L u + owned f w) x" "count (?L u + owned h v) x \<le> count (?L v + owned g u) x"
      using assms unfolding kept_def by (blast intro: mset_subset_eq_count)+
    then show "count (?L w + owned h v) x \<le> count (?L v + owned f w) x" by simp
  qed
  with assms show ?thesis by (simp add: kept_def)
qed

lemma kept_same:
  "same_objs f w w' \<Longrightarrow> mset (hp_live (w_heap w)) \<subseteq># mset (hp_live (w_heap w')) \<Longrightarrow>
    hp_bad (w_heap w') = hp_bad (w_heap w) \<Longrightarrow> kept f w f w'"
  by (simp add: kept_def same_objs_owned)

lemma life_step_ok:
  assumes "life_step exec b (f, w) (f', w')" "life_inv f w" "quiet exec"
  shows "life_inv f' w' \<and> kept f w f' w' \<and> (b \<longrightarrow> balanced f w f' w')"
  using assms(1)
proof (cases rule: life_step.cases)
  case (new_state k g factor r p)
  from state_init_ok [OF assms(2) new_state(3), of g factor] new_state(1,2,4) show ?thesis
    by (auto intro: kept_balanced kept_same)
next
  case (add_state a k r)
  then obtain s where "fm_state (w_mem w) a = Some s" by blast
  from add_state_ok [OF assms(2) this add_state(4,5), of k] add_state show ?thesis
    by (auto intro: kept_balanced)
next
  case (add_evt a b' k desc act r)
  then obtain s where s: "fm_state (w_mem w) a = Some s" by blast
  obtain r' u where
    u: "state_add_evt a k desc act (Some b') w = Some (r', u)" "life_inv f u" "hp_bad (w_heap u) = hp_bad (w_heap w)"
      "r' \<in> {ST_NOMEM, ST_EXISTS} \<longrightarrow> same_objs f w u \<and> balanced f w f u"
      "r' = ST_OK \<longrightarrow> evt_at w a k = None \<and>
        (same_objs f w u \<and> mset (hp_live (w_heap w)) \<subseteq># mset (hp_live (w_heap u)) \<or> balanced f w f u)"
      "r' \<in> {ST_NOMEM, ST_EXISTS, ST_OK}"
    by (rule add_evt_ok [OF assms(2) s add_evt(4), of k desc act]) blast
  have eq: "r' = r" "u = w'" "f' = f" using u(1) add_evt by simp_all
  have "same_objs f w w' \<Longrightarrow> evt_at w' a k = evt_at w a k" by (rule same_objs_maps(3) [OF assms(2)])
  with u(2-6) add_evt(1) show ?thesis unfolding eq by (auto intro: kept_balanced kept_same)
next
  case (rem_evt a k r)
  then obtain s where "fm_state (w_mem w) a = Some s" by blast
  from rem_evt_ok [OF assms(2) this, of k] rem_evt show ?thesis by (auto intro: kept_balanced)
next
  case drive
  with drive_ok [OF _ assms(2,3)] show ?thesis by (auto intro: kept_balanced)
next
  case (queue k data n prio r)
  with queue_ok [OF assms(2), of k data n prio] show ?thesis by (auto intro: kept_balanced)
next
  case (serve r)
  then obtain c where "f_cstate f = Some c" by blast
  from dequeue_life [OF assms(2) this assms(3) serve(3)] serve show ?thesis by (auto intro: kept_balanced)
qed

lemma life_reach_ok:
  assumes "life_reach exec b c d" "life_inv (fst c) (snd c)" "quiet exec"
  shows "life_inv (fst d) (snd d) \<and> kept (fst c) (snd c) (fst d) (snd d) \<and>
    (b \<longrightarrow> balanced (fst c) (snd c) (fst d) (snd d))"
  using assms
proof (induction rule: life_reach.induct)
  case (refl c)
  then show ?case by (simp add: kept_def)
next
  case (step b c d b' e)
  then have d: "life_inv (fst d) (snd d)" "kept (fst c) (snd c) (fst d) (snd d)"
    "b \<longrightarrow> balanced (fst c) (snd c) (fst d) (snd d)" by simp_all
  from life_step_ok [of exec b' "fst d" "snd d" "fst e" "snd e"] step.hyps(2) d(1) step.prems(2)
  have e: "life_inv (fst e) (snd e)" "kept (fst d) (snd d) (fst e) (snd e)"
    "b' \<longrightarrow> balanced (fst d) (snd d) (fst e) (snd e)" by simp_all
  from kept_trans [OF d(2) e(2)] e(1,3) d(3) balanced_trans show ?case by blast
qed

section \<open>A history to apply the theorems to\<close>

text \<open>A machine with one queue and one registered state, from an empty heap.\<close>

definition lf_heap :: "nat \<Rightarrow> addr list \<Rightarrow> cheap" where
  "lf_heap n as = \<lparr>hp_next = n, hp_limit = 100000, hp_live = as, hp_sched = [], hp_bad = False\<rparr>"

definition lf_world :: world where
  "lf_world = \<lparr>w_mem = \<lparr>fm_cell = \<lambda>_. 0, fm_event = Map.empty, fm_state = Map.empty\<rparr>,
     w_table = Map.empty, w_heap = lf_heap 1000 [], w_out = []\<rparr>"

definition lf_fsm :: fsm_t where
  "lf_fsm = \<lparr>f_addr = 1000, f_sttable = 1056, f_cstate = None, f_nqueues = 1, f_mobj = 1144, f_pqaddr = 1128,
     f_pqtable = [[]]\<rparr>"

definition lf_tab :: "addr \<Rightarrow> (fmem \<Rightarrow> addr \<Rightarrow> addr option \<Rightarrow> string option) \<Rightarrow> hnode list \<Rightarrow> fmem htable" where
  "lf_tab a pf ns = \<lparr>ht_grows = 0, ht_size = 4, ht_used = of_nat (length ns), ht_factor = 2, ht_limit = 8,
     ht_hashf = state_hashf, ht_cmpf = state_cmpf, ht_printf = pf, ht_tbladdr = a, ht_table = [[], ns, [], []]\<rparr>"

definition lf_made :: world where
  "lf_made = lf_world\<lparr>w_table := [1056 \<mapsto> lf_tab 1184 fsm_printf []],
     w_heap := lf_heap 1248 [1184, 1144, 1128, 1056, 1000]\<rparr>"

lemma lf_replicate: "replicate 4 x = [x, x, x, x]"
  by (simp add: numeral_eq_Suc)

lemma lf_init: "fsm_init (2 ^ 2) 2 1 lf_world = Some ((FSM_OK, Some lf_fsm), lf_made)"
  by (simp add: fsm_init_def w_malloc_def malloc_def lf_world_def lf_heap_def lf_made_def lf_fsm_def lf_tab_def
      htable_init_def tailq_heads_def sizeof_fsm_def sizeof_htable_def sizeof_pqhead_def sizeof_mutex_def
      sizeof_hhead_def put_table_def fsm_callbacks lf_replicate)

definition lf_st :: state_t where
  "lf_st = \<lparr>evttable = 1272, st_key = 1408, st_flag = 0\<rparr>"

definition lf_new :: world where
  "lf_new = lf_made\<lparr>w_mem := (w_mem lf_made)\<lparr>fm_state := [1248 \<mapsto> lf_st]\<rparr>,
     w_table := (w_table lf_made)(1272 \<mapsto> lf_tab 1344 state_printf []),
     w_heap := lf_heap 1412 [1408, 1344, 1272, 1248, 1184, 1144, 1128, 1056, 1000]\<rparr>"

lemma lf_state: "state_init 0 (2 ^ 2) 2 lf_made = Some ((ST_OK, Some 1248), lf_new)"
  by (simp add: state_init_def w_malloc_def malloc_def lf_world_def lf_heap_def lf_made_def lf_new_def lf_st_def lf_tab_def
      htable_init_def tailq_heads_def sizeof_state_def sizeof_htable_def sizeof_uint_def STATE_MARK_AS_UNREACHABLE_def
      sizeof_hhead_def put_table_def put_state_def lf_replicate)

definition lf_reg :: world where
  "lf_reg = lf_new\<lparr>w_mem := (w_mem lf_new)\<lparr>fm_cell := (\<lambda>_. 0)(1408 := 1)\<rparr>,
     w_table := (w_table lf_new)(1056 \<mapsto> lf_tab 1184 fsm_printf [\<lparr>hn_addr = 1412, hn_key = 1408, hn_data = Some 1248\<rparr>]),
     w_heap := lf_heap 1444 [1412, 1408, 1344, 1272, 1248, 1184, 1144, 1128, 1056, 1000]\<rparr>"

lemma lf_register: "fsm_add_state lf_fsm 1 1248 lf_new = Some (FSM_OK, lf_reg)"
  by (simp add: fsm_add_state_def malloc_def lf_world_def lf_heap_def lf_made_def lf_new_def lf_st_def lf_tab_def lf_fsm_def
      lf_reg_def put_table_def put_cell_def htable_insert_def ht_find_def ht_chain_def ht_bucket_def state_hashf_def sizeof_hnode_def)

lemma lf_history: "life_reach exec True (lf_fsm, lf_made) (lf_fsm, lf_reg)"
proof -
  have "life_step exec (ST_OK = ST_OK) (lf_fsm, lf_made) (lf_fsm, lf_new)"
    by (rule life_step.new_state [OF _ lf_state]) simp
  moreover have "life_step exec True (lf_fsm, lf_new) (lf_fsm, lf_reg)"
    by (rule life_step.add_state [OF _ _ _ lf_register])
      (simp_all add: lf_new_def lf_fsm_def st_map_def lf_made_def lf_tab_def ht_map_def ht_pairs_def ht_nodes_def)
  ultimately show ?thesis
    using life_reach.step [OF life_reach.step [OF life_reach.refl]] by fastforce
qed

lemma lf_start: "heap_ok (w_heap lf_world)" "fm_state (w_mem lf_world) = Map.empty" "(2 :: nat) \<le> 43"
  by (simp_all add: lf_world_def lf_heap_def heap_ok_def heap_wf_def)

lemma init_started:
  assumes "heap_ok (w_heap w0)" "fm_state (w_mem w0) = Map.empty" "k \<le> 43"
    and "fsm_init (2 ^ k) factor nq w0 = Some ((FSM_OK, Some f0), w1)"
  shows "life_inv f0 w1" "mset (hp_live (w_heap w1)) = mset (hp_live (w_heap w0)) + owned f0 w1"
    "hp_bad (w_heap w1) = hp_bad (w_heap w0)"
  using fsm_init_ok [OF assms(1-3), of factor nq] assms(4) by auto

lemma history_ok:
  assumes "heap_ok (w_heap w0)" "fm_state (w_mem w0) = Map.empty" "k \<le> 43" "quiet exec"
    and "fsm_init (2 ^ k) factor nq w0 = Some ((FSM_OK, Some f0), w1)" "life_reach exec b (f0, w1) (f, w)"
  shows "life_inv f w" "mset (hp_live (w_heap w0)) + owned f w \<subseteq># mset (hp_live (w_heap w))"
    "hp_bad (w_heap w) = hp_bad (w_heap w0)"
    "b \<Longrightarrow> mset (hp_live (w_heap w)) = mset (hp_live (w_heap w0)) + owned f w"
proof -
  note I = init_started [OF assms(1-3,5)]
  have R: "life_inv f w" "kept f0 w1 f w" "b \<longrightarrow> balanced f0 w1 f w"
    using life_reach_ok [OF assms(6)] I(1) assms(4) by simp_all
  then show "life_inv f w" by simp
  have "mset (hp_live (w_heap w0)) + owned f w + owned f0 w1 \<subseteq># mset (hp_live (w_heap w)) + owned f0 w1"
    using R(2) unfolding kept_def I(2) by (simp add: ac_simps)
  then show "mset (hp_live (w_heap w0)) + owned f w \<subseteq># mset (hp_live (w_heap w))" by simp
  show "hp_bad (w_heap w) = hp_bad (w_heap w0)" using R(2) I(3) by (simp add: kept_def)
  assume b
  then have "mset (hp_live (w_heap w)) + owned f0 w1 = mset (hp_live (w_heap w0)) + owned f w + owned f0 w1"
    using R(3) unfolding balanced_def I(2) by (simp add: ac_simps)
  then show "mset (hp_live (w_heap w)) = mset (hp_live (w_heap w0)) + owned f w" by simp
qed

section \<open>Theorems\<close>

text \<open>C4: After any history of a machine, whatever \<open>malloc\<close> refused on the way: the tables and states are
  well-formed, the blocks of the machine are live and no two of them are the same, none of anyone
  else's blocks has been released, \<open>free\<close> was never called on a block that was not live, and
  when every allocation was granted no block has been lost.\<close>

theorem fsm_history_safe:
  assumes "heap_ok (w_heap w0)" "fm_state (w_mem w0) = Map.empty" "k \<le> 43" "quiet exec"
    and "fsm_init (2 ^ k) factor nq w0 = Some ((FSM_OK, Some f0), w1)" "life_reach exec b (f0, w1) (f, w)"
  shows "fsm_ok f w \<and> no_null w \<and> (\<forall>x. count (owned f w) x \<le> 1) \<and> hp_bad (w_heap w) = hp_bad (w_heap w0) \<and>
    mset (hp_live (w_heap w0)) + owned f w \<subseteq># mset (hp_live (w_heap w)) \<and>
    (b \<longrightarrow> mset (hp_live (w_heap w)) = mset (hp_live (w_heap w0)) + owned f w)"
proof -
  note H = history_ok [OF assms]
  show ?thesis using H lifeD(1,2) [OF H(1)] live_count [OF lifeD(3,5) [OF H(1)]] by blast
qed

lemma fsm_history_safe_witness:
  "fsm_ok lf_fsm lf_reg \<and> mset (hp_live (w_heap lf_reg)) = owned lf_fsm lf_reg"
  using fsm_history_safe [OF lf_start no_action_quiet lf_init lf_history]
  by (simp add: lf_world_def lf_heap_def)

text \<open>C24: In every such history no call is undefined: making states, registering them, adding and removing
  events, setting the state, marking, processing and serving an event in a current state, and
  releasing the machine all return.\<close>

theorem fsm_calls_return:
  assumes "heap_ok (w_heap w0)" "fm_state (w_mem w0) = Map.empty" "k \<le> 43" "quiet exec"
    and "fsm_init (2 ^ k) factor nq w0 = Some ((FSM_OK, Some f0), w1)" "life_reach exec b (f0, w1) (f, w)"
  shows "(\<forall>g j fac. j \<le> 43 \<longrightarrow> state_init g (2 ^ j) fac w \<noteq> None) \<and>
    (\<forall>a\<in>dom (fm_state (w_mem w)). (\<forall>key. state_rem_evt a key w \<noteq> None) \<and>
       (Some a \<notin> ran (st_map f w) \<longrightarrow> f_cstate f \<noteq> Some a \<longrightarrow> (\<forall>key. fsm_add_state f key a w \<noteq> None)) \<and>
       (\<forall>a'\<in>dom (fm_state (w_mem w)). \<forall>key desc act. state_add_evt a key desc act (Some a') w \<noteq> None)) \<and>
    (\<forall>key. fsm_set_state f key w \<noteq> None) \<and> fsm_mark_reachable_states f w \<noteq> None \<and>
    (f_cstate f \<noteq> None \<longrightarrow> (\<forall>key d. fsm_process_event exec f key d w \<noteq> None) \<and>
       (f_nqueues f \<noteq> 0 \<longrightarrow> fsm_dequeue_event exec f w \<noteq> None)) \<and>
    fsm_free f w \<noteq> None"
proof -
  note inv = history_ok(1) [OF assms]
  have 1: "state_init g (2 ^ j) fac w \<noteq> None" if "j \<le> 43" for g j fac
    using state_init_ok [OF inv that] by (metis option.distinct(1))
  have 2: "state_rem_evt a key w \<noteq> None" if "a \<in> dom (fm_state (w_mem w))" for a key
    using rem_evt_ok [OF inv] that by (metis domD option.distinct(1))
  have 3: "fsm_add_state f key a w \<noteq> None"
    if "a \<in> dom (fm_state (w_mem w))" "Some a \<notin> ran (st_map f w)" "f_cstate f \<noteq> Some a" for a key
    using add_state_ok [OF inv _ that(2,3), of _ key] that(1) by (metis domD option.distinct(1))
  have 4: "state_add_evt a key desc act (Some a') w \<noteq> None"
    if "a \<in> dom (fm_state (w_mem w))" "a' \<in> dom (fm_state (w_mem w))" for a a' key desc act
  proof -
    from that(1) obtain s where "fm_state (w_mem w) a = Some s" by blast
    from add_evt_ok [OF inv this that(2), of key desc act] show ?thesis by (metis option.distinct(1))
  qed
  have 5: "fsm_set_state f key w \<noteq> None" for key
    using set_state_ok [OF lifeD(1,2) [OF inv], of key] by (auto split: option.splits)
  have 6: "fsm_process_event exec f key d w \<noteq> None" if "f_cstate f \<noteq> None" for key d
    using process_ok [OF lifeD(1) [OF inv] _ assms(4), of _ key d] that by (fastforce split: option.splits)
  have 7: "fsm_dequeue_event exec f w \<noteq> None" if "f_cstate f \<noteq> None" "f_nqueues f \<noteq> 0"
    using dequeue_life [OF inv _ assms(4) that(2)] that(1) by fastforce
  have 8: "fsm_mark_reachable_states f w \<noteq> None" using mark_ok [OF lifeD(1,2) [OF inv]] by auto
  have 9: "fsm_free f w \<noteq> None" using free_ok [OF inv] by auto
  show ?thesis using 1 2 3 4 5 6 7 8 9 by blast
qed

lemma fsm_calls_return_witness:
  "fsm_set_state lf_fsm 1 lf_reg \<noteq> None \<and> state_add_evt 1248 7 [] None (Some 1248) lf_reg \<noteq> None \<and> fsm_free lf_fsm lf_reg \<noteq> None"
proof -
  have "1248 \<in> dom (fm_state (w_mem lf_reg))" by (simp add: lf_reg_def lf_new_def)
  with fsm_calls_return [OF lf_start no_action_quiet lf_init lf_history] show ?thesis by blast
qed

text \<open>C25: Releasing a machine after any history releases no block twice and none of anyone else's. What stays
  behind is exactly what the iteration over the table of states does not reach -- states that were never
  registered, and states in the last bucket behind its first one, whose keys alone are released --
  so that, with every allocation granted and every state in reach, the heap is as before \<open>fsm_init\<close>.\<close>

theorem fsm_free_releases:
  assumes "heap_ok (w_heap w0)" "fm_state (w_mem w0) = Map.empty" "k \<le> 43" "quiet exec"
    and "fsm_init (2 ^ k) factor nq w0 = Some ((FSM_OK, Some f0), w1)" "life_reach exec b (f0, w1) (f, w)"
  shows "\<exists>w'. fsm_free f w = Some (FSM_OK, w') \<and> hp_bad (w_heap w') = hp_bad (w_heap w0) \<and>
    mset (hp_live (w_heap w0)) \<subseteq># mset (hp_live (w_heap w')) \<and>
    (b \<longrightarrow> mset (hp_live (w_heap w')) + mset (hidden_keys f w) =
       mset (hp_live (w_heap w0)) + (\<Sum>a\<in>dom (fm_state (w_mem w)) - set (freed_states f w). st_own w a)) \<and>
    (b \<longrightarrow> dom (fm_state (w_mem w)) \<subseteq> set (freed_states f w) \<longrightarrow>
       mset (hp_live (w_heap w')) = mset (hp_live (w_heap w0)))"
proof -
  note H = history_ok [OF assms]
  let ?R = "\<Sum>a\<in>dom (fm_state (w_mem w)) - set (freed_states f w). st_own w a"
  from free_ok [OF H(1)] obtain w' where
    f: "fsm_free f w = Some (FSM_OK, w')" "hp_bad (w_heap w') = hp_bad (w_heap w)"
      "mset (hp_live (w_heap w')) + owned f w + mset (hidden_keys f w) = mset (hp_live (w_heap w)) + ?R" by blast
  have K: "mset (hidden_keys f w) \<subseteq># ?R" by (rule fsm_blocks_own(3) [OF H(1)])
  have E: "mset (hp_live (w_heap w')) + mset (hidden_keys f w) = mset (hp_live (w_heap w0)) + ?R" if b
    using f(3) unfolding H(4) [OF that] by (simp add: ac_simps)
  have "mset (hp_live (w_heap w0)) \<subseteq># mset (hp_live (w_heap w'))"
  proof (rule mset_subset_eqI)
    fix x
    have "count (mset (hp_live (w_heap w0)) + owned f w) x \<le> count (mset (hp_live (w_heap w))) x"
      by (rule mset_subset_eq_count [OF H(2)])
    moreover have "count (mset (hidden_keys f w)) x \<le> count ?R x" by (rule mset_subset_eq_count [OF K])
    ultimately show "count (mset (hp_live (w_heap w0))) x \<le> count (mset (hp_live (w_heap w'))) x"
      using arg_cong [OF f(3), of "\<lambda>M. count M x"] by simp
  qed
  moreover have "mset (hp_live (w_heap w')) = mset (hp_live (w_heap w0))"
    if b "dom (fm_state (w_mem w)) \<subseteq> set (freed_states f w)"
  proof -
    have "dom (fm_state (w_mem w)) - set (freed_states f w) = {}" using that(2) by blast
    with E [OF that(1)] K show ?thesis by simp
  qed
  ultimately show ?thesis using f(1,2) H(3) E by blast
qed

lemma fsm_free_releases_witness:
  "\<exists>w'. fsm_free lf_fsm lf_reg = Some (FSM_OK, w') \<and> hp_live (w_heap w') = []"
proof -
  have "dom (fm_state (w_mem lf_reg)) \<subseteq> set (freed_states lf_fsm lf_reg)"
    by (simp add: lf_reg_def lf_new_def lf_fsm_def freed_states_def visited_nodes_def lf_tab_def)
  with fsm_free_releases [OF lf_start no_action_quiet lf_init lf_history] show ?thesis
    by (auto simp: lf_world_def lf_heap_def)
qed

end
