(* ===== verification/Fsm_Plenty.thy ===== *)
theory Fsm_Plenty imports Fsm_Machine begin

text \<open>
  Building a machine when memory is plentiful and the tables have room: every call succeeds, the
  tables do not grow, and the states end up where \<open>fsm_free\<close> finds them.
\<close>

unbundle bit_operations_syntax

section \<open>Memory\<close>

lemma plenty_w_malloc:
  assumes "plenty n (w_heap w)" "max k 1 + m \<le> n"
  obtains a w' where "w_malloc k w = (Some a, w')" "plenty m (w_heap w')" "w' = w\<lparr>w_heap := w_heap w'\<rparr>"
proof -
  obtain a h' where "malloc k (w_heap w) = (Some a, h')" "plenty m h'" by (rule plenty_malloc [OF assms])
  then show thesis by (intro that [of a "w\<lparr>w_heap := h'\<rparr>"]) (simp_all add: w_malloc_def)
qed

lemma plenty_init:
  assumes "plenty n h" "2 ^ (k + 4) + m \<le> n" "k \<le> 43"
  obtains a h' where "htable_init (2 ^ k) factor hf cf pf h = Some ((HT_OK, Some \<lparr>ht_grows = 0, ht_size = 2 ^ k, ht_used = 0,
      ht_factor = factor, ht_limit = factor * 2 ^ k, ht_hashf = hf, ht_cmpf = cf, ht_printf = pf,
      ht_tbladdr = a, ht_table = replicate (2 ^ k) []\<rparr>), h')" "plenty m h'"
proof -
  have "(2 :: size_t) ^ k * sizeof_hhead = 2 ^ (k + 4)" by (simp add: sizeof_hhead_def power_add)
  then have sz: "unat ((2 :: size_t) ^ k * sizeof_hhead) = 2 ^ (k + 4)" using assms(3) by (simp only: unat_p2)
  have u: "unat ((2 :: size_t) ^ k) = 2 ^ k" using assms(3) by (intro unat_p2) simp
  have "(2::nat) ^ (k + 4) < 2 ^ 64" using assms(3) by (intro power_strict_increasing) simp_all
  then have small: "unat ((2 :: size_t) ^ k) * unat sizeof_hhead < 2 ^ 64"
    unfolding u by (simp add: sizeof_hhead_def power_add)
  have "max (2 ^ (k + 4)) 1 + m \<le> n" using assms(2) by simp
  from plenty_malloc [OF assms(1) this] obtain a h' where m: "malloc (2 ^ (k + 4)) h = (Some a, h')" "plenty m h'" by blast
  then have "tailq_heads (2 ^ k) h = Some (Some (a, replicate (2 ^ k) []), h')"
    using small u by (simp add: tailq_heads_def sz)
  then show thesis using m(2) by (intro that [of a h']) (simp_all add: htable_init_def)
qed

section \<open>Tables with room\<close>

definition room :: "nat \<Rightarrow> nat \<Rightarrow> 'm htable \<Rightarrow> bool" where
  \<comment> \<open>A table of \<open>2 ^ k\<close> buckets that does not grow with \<open>n\<close> more entries.\<close>
  "room k n t \<longleftrightarrow> ht_size t = 2 ^ k \<and> length (ht_nodes t) + n \<le> unat (ht_limit t)"

context ht_keys begin

lemma insert_room:
  assumes inv: "ht_inv kv m ht" and f: "for_ht ht" and hp: "ht_heap ht h" and rm: "room k (Suc n) ht"
    and new: "kv m key \<notin> dom (ht_map kv m ht)" and p: "plenty j h" "sizeof_hnode + i \<le> j"
  obtains ht' h' where "htable_insert m ht key data h = Some ((HT_OK, ht'), h')"
    "ht_map kv m ht' = (ht_map kv m ht)(kv m key \<mapsto> data)" "room k n ht'" "plenty i h'"
  using inv f
proof (cases rule: find_cases [of m ht key])
  case (present chain x)
  then have "kv m key \<in> dom (ht_map kv m ht)" by (auto simp: ht_map_dom)
  with new show thesis by blast
next
  case (absent chain)
  have "max sizeof_hnode 1 + i \<le> j" using p(2) by (simp add: sizeof_hnode_def)
  from plenty_malloc [OF p(1) this] obtain a h1 where r: "malloc sizeof_hnode h = (Some a, h1)" "plenty i h1" by blast
  let ?n = "\<lparr>hn_addr = a, hn_key = key, hn_data = data\<rparr>"
  let ?ht = "ht_link ht (ht_hashf ht m key) ?n"
  have lim: "ht_limit ?ht = ht_limit ht" and size: "ht_size ?ht = ht_size ht" by (simp_all add: ht_link_def)
  have u: "ht_used ht = of_nat (length (ht_nodes ht))" by (rule ht_invD(5) [OF inv])
  have le: "length (ht_nodes ht) + Suc n \<le> unat (ht_limit ht)" using rm by (simp add: room_def)
  have "unat (of_nat (Suc (length (ht_nodes ht))) :: size_t) = Suc (length (ht_nodes ht))"
    using le by (intro le_unat_uoi [of _ "ht_limit ht"]) simp
  then have "unat (ht_used ?ht) = Suc (length (ht_nodes ht))" by (simp add: ht_link_def u add.commute)
  then have "\<not> ht_used ?ht > ht_limit ?ht" using le by (simp add: lim word_less_nat_alt)
  then have run: "htable_insert m ht key data h = Some ((HT_OK, ?ht), h1)"
    using absent r by (simp add: htable_insert_def Let_def ht_link_def)
  obtain l where l: "ht_log ht l" using ht_invD(1) [OF inv] by blast
  have nodes: "mset (ht_nodes ?ht) = mset (?n # ht_nodes ht)"
    using mset_concat_append [OF ht_bucket_less [OF l]] by (simp add: ht_nodes_def ht_link_def)
  have "length (ht_nodes ?ht) = Suc (length (ht_nodes ht))" using mset_eq_length [OF nodes] by simp
  then have "room k n ?ht" using rm by (simp add: room_def lim size)
  moreover have "ht_map kv m ?ht = (ht_map kv m ht)(kv m key \<mapsto> data)"
    using insert_ok [OF inv f hp, of key data] run new by auto
  ultimately show thesis using run r(2) that by blast
qed

end

definition room_at :: "nat \<Rightarrow> nat \<Rightarrow> world \<Rightarrow> addr \<Rightarrow> bool" where
  "room_at k n w x \<longleftrightarrow> (\<exists>t. w_table w x = Some t \<and> room k n t)"

section \<open>Building\<close>

lemma w_heap_put [simp]: "w_heap (put_table x t w) = w_heap w" "w_heap (put_state a s w) = w_heap w"
  "w_heap (put_event a e w) = w_heap w"
  by (simp_all add: put_table_def put_state_def put_event_def)

lemma init_plenty:
  assumes ok: "heap_ok (w_heap w)" and none: "fm_state (w_mem w) = Map.empty" and k: "k \<le> 43"
    and p: "plenty n (w_heap w)" "sizeof_fsm + sizeof_htable + max (unat nq * sizeof_pqhead) 1 + sizeof_mutex + 2 ^ (k + 4) + m \<le> n"
  shows "\<exists>f w'. fsm_init (2 ^ k) factor nq w = Some ((FSM_OK, Some f), w') \<and> plenty m (w_heap w') \<and>
    room_at k (unat (ucast factor * 2 ^ k :: size_t)) w' (f_sttable f) \<and> w_out w' = w_out w \<and>
    w_mem w' = w_mem w \<and> f_cstate f = None"
proof -
  let ?m3 = "2 ^ (k + 4) + m"
  have "max sizeof_fsm 1 + (sizeof_htable + max (unat nq * sizeof_pqhead) 1 + sizeof_mutex + ?m3) \<le> n"
    using p(2) by (simp add: sizeof_fsm_def)
  from plenty_w_malloc [OF p(1) this] obtain pf w1 where 1: "w_malloc sizeof_fsm w = (Some pf, w1)"
    "plenty (sizeof_htable + max (unat nq * sizeof_pqhead) 1 + sizeof_mutex + ?m3) (w_heap w1)" "w1 = w\<lparr>w_heap := w_heap w1\<rparr>" by blast
  have "max sizeof_htable 1 + (max (unat nq * sizeof_pqhead) 1 + sizeof_mutex + ?m3) \<le>
      sizeof_htable + max (unat nq * sizeof_pqhead) 1 + sizeof_mutex + ?m3" by (simp add: sizeof_htable_def)
  from plenty_w_malloc [OF 1(2) this] obtain pt w2 where 2: "w_malloc sizeof_htable w1 = (Some pt, w2)"
    "plenty (max (unat nq * sizeof_pqhead) 1 + sizeof_mutex + ?m3) (w_heap w2)" "w2 = w1\<lparr>w_heap := w_heap w2\<rparr>" by blast
  have "max (unat nq * sizeof_pqhead) 1 + (sizeof_mutex + ?m3) \<le> max (unat nq * sizeof_pqhead) 1 + sizeof_mutex + ?m3" by simp
  from plenty_w_malloc [OF 2(2) this] obtain pq w3 where
    3: "w_malloc (unat nq * sizeof_pqhead) w2 = (Some pq, w3)" "plenty (sizeof_mutex + ?m3) (w_heap w3)"
    "w3 = w2\<lparr>w_heap := w_heap w3\<rparr>" by blast
  have "max sizeof_mutex 1 + ?m3 \<le> sizeof_mutex + ?m3" by (simp add: sizeof_mutex_def)
  from plenty_w_malloc [OF 3(2) this] obtain mo w4 where 4: "w_malloc sizeof_mutex w3 = (Some mo, w4)"
    "plenty ?m3 (w_heap w4)" "w4 = w3\<lparr>w_heap := w_heap w4\<rparr>" by blast
  from plenty_init [OF 4(2) order_refl k, of "ucast factor" fsm_hashf fsm_cmpf fsm_printf] obtain a h5 where
    5: "htable_init (2 ^ k) (ucast factor) fsm_hashf fsm_cmpf fsm_printf (w_heap w4) = Some ((HT_OK, Some
      \<lparr>ht_grows = 0, ht_size = 2 ^ k, ht_used = 0, ht_factor = ucast factor, ht_limit = ucast factor * 2 ^ k,
       ht_hashf = fsm_hashf, ht_cmpf = fsm_cmpf, ht_printf = fsm_printf, ht_tbladdr = a,
       ht_table = replicate (2 ^ k) []\<rparr>), h5)" "plenty m h5" by blast
  have w4: "w_out w4 = w_out w \<and> w_mem w4 = w_mem w" by (subst (1 2) 4(3), subst (1 2) 3(3), subst (1 2) 2(3), subst (1 2) 1(3)) simp
  show ?thesis
    using 1(1) 2(1) 3(1) 4(1) 5 w4
    by (simp add: fsm_init_def room_at_def room_def put_table_def ht_nodes_def)
qed

lemma new_state_plenty:
  assumes inv: "life_inv f w" and k: "k \<le> 43"
    and p: "plenty n (w_heap w)" "sizeof_state + sizeof_htable + 2 ^ (k + 4) + sizeof_uint + m \<le> n"
  shows "\<exists>a s w'. state_init g (2 ^ k) factor w = Some ((ST_OK, Some a), w') \<and> life_inv f w' \<and> balanced f w f w' \<and>
    plenty m (w_heap w') \<and> a \<notin> dom (fm_state (w_mem w)) \<and> fm_state (w_mem w') = (fm_state (w_mem w))(a \<mapsto> s) \<and>
    fm_cell (w_mem w') = fm_cell (w_mem w) \<and> fm_event (w_mem w') = fm_event (w_mem w) \<and> st_map f w' = st_map f w \<and>
    room_at k (unat (ucast factor * 2 ^ k :: size_t)) w' (evttable s) \<and>
    (\<forall>j. evt_at w' a j = None) \<and> w_out w' = w_out w \<and>
    (\<forall>x. x \<in># owned f w \<longrightarrow> w_table w' x = w_table w x)"
proof -
  have "max sizeof_state 1 + (sizeof_htable + 2 ^ (k + 4) + sizeof_uint + m) \<le> n" using p(2) by (simp add: sizeof_state_def)
  from plenty_w_malloc [OF p(1) this] obtain ps w1 where 1: "w_malloc sizeof_state w = (Some ps, w1)"
    "plenty (sizeof_htable + 2 ^ (k + 4) + sizeof_uint + m) (w_heap w1)" "w1 = w\<lparr>w_heap := w_heap w1\<rparr>" by blast
  have "max sizeof_htable 1 + (2 ^ (k + 4) + sizeof_uint + m) \<le> sizeof_htable + 2 ^ (k + 4) + sizeof_uint + m"
    by (simp add: sizeof_htable_def)
  from plenty_w_malloc [OF 1(2) this] obtain pt w2 where 2: "w_malloc sizeof_htable w1 = (Some pt, w2)"
    "plenty (2 ^ (k + 4) + sizeof_uint + m) (w_heap w2)" "w2 = w1\<lparr>w_heap := w_heap w2\<rparr>" by blast
  have "2 ^ (k + 4) + (sizeof_uint + m) \<le> 2 ^ (k + 4) + sizeof_uint + m" by simp
  from plenty_init [OF 2(2) this k, of "ucast factor" state_hashf state_cmpf state_printf] obtain a h3 where
    3: "htable_init (2 ^ k) (ucast factor) state_hashf state_cmpf state_printf (w_heap w2) = Some ((HT_OK, Some
      \<lparr>ht_grows = 0, ht_size = 2 ^ k, ht_used = 0, ht_factor = ucast factor, ht_limit = ucast factor * 2 ^ k,
       ht_hashf = state_hashf, ht_cmpf = state_cmpf, ht_printf = state_printf, ht_tbladdr = a,
       ht_table = replicate (2 ^ k) []\<rparr>), h3)" "plenty (sizeof_uint + m) h3" by blast
  have "plenty (sizeof_uint + m) (w_heap (w2\<lparr>w_heap := h3\<rparr>))" "max sizeof_uint 1 + m \<le> sizeof_uint + m"
    using 3(2) by (simp_all add: sizeof_uint_def)
  from plenty_w_malloc [OF this] obtain pk w4 where 4: "w_malloc sizeof_uint (w2\<lparr>w_heap := h3\<rparr>) = (Some pk, w4)"
    "plenty m (w_heap w4)" "w4 = w2\<lparr>w_heap := h3, w_heap := w_heap w4\<rparr>" by blast
  let ?S = "STATE_MARK_AS_UNREACHABLE \<lparr>evttable = pt, st_key = pk, st_flag = g\<rparr>"
  let ?t = "\<lparr>ht_grows = 0, ht_size = 2 ^ k, ht_used = 0, ht_factor = ucast factor, ht_limit = ucast factor * 2 ^ k,
       ht_hashf = state_hashf, ht_cmpf = state_cmpf, ht_printf = state_printf, ht_tbladdr = a,
       ht_table = replicate (2 ^ k) []\<rparr>"
  let ?w = "put_table pt ?t (put_state ps ?S w4)"
  have run: "state_init g (2 ^ k) factor w = Some ((ST_OK, Some ps), ?w)"
    using 1(1) 2(1) 3(1) 4(1) by (simp add: state_init_def)
  have w4: "w_out w4 = w_out w \<and> w_mem w4 = w_mem w \<and> w_table w4 = w_table w"
    by (subst (1 2 3) 4(3), subst (1 2 3) 2(3), subst (1 2 3) 1(3)) simp
  have S: "evttable ?S = pt" by (simp add: STATE_MARK_AS_UNREACHABLE_def)
  have st: "life_inv f ?w" "st_map f ?w = st_map f w" "balanced f w f ?w" "ps \<notin> dom (fm_state (w_mem w))"
    using state_init_ok [OF inv k, of g factor] unfolding run by auto
  have "pt \<notin># owned f w"
  proof -
    note M1 = life_malloc [OF inv 1(1)]
    show ?thesis using life_malloc(7) [OF M1(2) 2(1) HOL.refl] same_objs_owned [OF M1(1)] by simp
  qed
  then have "\<forall>x. x \<in># owned f w \<longrightarrow> w_table ?w x = w_table w x" using w4 by (auto simp: put_table_def put_state_def)
  moreover have "room_at k (unat (ucast factor * 2 ^ k :: size_t)) ?w (evttable ?S)"
    unfolding S by (simp add: room_at_def room_def put_table_def ht_nodes_def)
  moreover have "evt_at ?w ps j = None" for j
    by (simp add: evt_at_def put_table_def put_state_def S ht_map_def ht_pairs_def ht_nodes_def)
  moreover have "fm_state (w_mem ?w) = (fm_state (w_mem w))(ps \<mapsto> ?S)" "fm_cell (w_mem ?w) = fm_cell (w_mem w)"
    "fm_event (w_mem ?w) = fm_event (w_mem w)" "w_out ?w = w_out w"
    using w4 by (simp_all add: put_table_def put_state_def)
  ultimately show ?thesis using run st 4(2) by (intro exI conjI) (assumption | simp)+
qed

lemma evtab_heap:
  "life_inv f w \<Longrightarrow> fm_state (w_mem w) a = Some s \<Longrightarrow> w_table w (evttable s) = Some t \<Longrightarrow> ht_heap t (w_heap w)"
  using tbl_own_live [of f w a s t] lifeD(3) [of f w]
  by (auto simp: ht_heap_def tbl_own_def dest: mset_subset_eq_add_left [THEN subset_mset.order_trans])

lemma add_evt_plenty:
  assumes inv: "life_inv f w" and a: "fm_state (w_mem w) a = Some s" and b: "b \<in> dom (fm_state (w_mem w))"
    and rm: "room_at q (Suc i) w (evttable s)" and new: "evt_at w a k = None"
    and p: "plenty n (w_heap w)" "sizeof_uint + sizeof_event + sizeof_hnode + m \<le> n"
  shows "\<exists>w'. state_add_evt a k desc act (Some b) w = Some (ST_OK, w') \<and> life_inv f w' \<and> balanced f w f w' \<and>
    plenty m (w_heap w') \<and> fm_state (w_mem w') = fm_state (w_mem w) \<and> st_map f w' = st_map f w \<and> key_at w' = key_at w \<and>
    (\<forall>c j. evt_at w' c j = (if c = a \<and> j = k
      then Some \<lparr>evt_desc = strncpy desc MAX_EVT_DESC, evt_actionf = act, evt_newstate = Some b\<rparr> else evt_at w c j)) \<and>
    room_at q i w' (evttable s) \<and> w_out w' = w_out w \<and>
    (\<forall>x. x \<noteq> evttable s \<longrightarrow> w_table w' x = w_table w x)"
proof -
  let ?e = "\<lparr>evt_desc = strncpy desc MAX_EVT_DESC, evt_actionf = act, evt_newstate = Some b\<rparr>"
  have "max sizeof_uint 1 + (sizeof_event + sizeof_hnode + m) \<le> n" using p(2) by (simp add: sizeof_uint_def)
  from plenty_w_malloc [OF p(1) this] obtain pk w1 where 1: "w_malloc sizeof_uint w = (Some pk, w1)"
    "plenty (sizeof_event + sizeof_hnode + m) (w_heap w1)" "w1 = w\<lparr>w_heap := w_heap w1\<rparr>" by blast
  let ?w2 = "put_cell pk k w1"
  have "plenty (sizeof_event + sizeof_hnode + m) (w_heap ?w2)" "max sizeof_event 1 + (sizeof_hnode + m) \<le> sizeof_event + sizeof_hnode + m"
    using 1(2) by (simp_all add: sizeof_event_def)
  from plenty_w_malloc [OF this] obtain ev w3 where 3: "w_malloc sizeof_event ?w2 = (Some ev, w3)"
    "plenty (sizeof_hnode + m) (w_heap w3)" "w3 = ?w2\<lparr>w_heap := w_heap w3\<rparr>" by blast
  note E = event_block [OF inv 1(1) 3(1)]
  note s4 = E(1) [of ?e] and i4 = E(2) [of ?e]
  let ?w4 = "put_event ev ?e w3"
  have w4: "w_table ?w4 = w_table w \<and> w_out ?w4 = w_out w \<and> w_heap ?w4 = w_heap w3"
    by (simp add: put_event_def, subst (1 2) 3(3), simp, subst (1 2) 1(3), simp add: put_cell_def)
  obtain t where t: "w_table w (evttable s) = Some t" "room q (Suc i) t" using rm by (auto simp: room_at_def)
  have t4: "w_table ?w4 (evttable s) = Some t" using t(1) w4 by simp
  have a4: "fm_state (w_mem ?w4) a = Some s" using a s4 by (simp add: same_objs_def)
  have tok: "ht_inv fm_cell (w_mem ?w4) t" "stk.for_ht t" using life_table [OF i4 a4] t4 by (auto simp: tbl_ok_def)
  have hp: "ht_heap t (w_heap ?w4)" by (rule evtab_heap [OF i4 a4 t4])
  have "evt_at ?w4 a k = None" using same_objs_maps(3) [OF inv s4] new by simp
  then have nk: "fm_cell (w_mem ?w4) pk \<notin> dom (ht_map fm_cell (w_mem ?w4) t)"
    using evt_at_dom [OF i4 a4 t4, of k] E(6) [of ?e] by simp
  have "plenty (sizeof_hnode + m) (w_heap ?w4)" using 3(2) w4 by simp
  from stk.insert_room [OF tok hp t(2) nk this order_refl, of "Some ev"] obtain t' h' where
    r: "htable_insert (w_mem ?w4) t pk (Some ev) (w_heap ?w4) = Some ((HT_OK, t'), h')"
      "ht_map fm_cell (w_mem ?w4) t' = (ht_map fm_cell (w_mem ?w4) t)(k \<mapsto> Some ev)" "room q i t'" "plenty m h'"
    unfolding E(6) [of ?e] by blast
  let ?w = "put_table (evttable s) t' (?w4\<lparr>w_heap := h'\<rparr>)"
  have run: "state_add_evt a k desc act (Some b) w = Some (ST_OK, ?w)"
    using 1(1) 3(1) a4 t4 r(1) by (simp add: state_add_evt_def Let_def)
  have at: "evt_at ?w a k = Some ?e" using a4 r(2) E(7) [of ?e] by (simp add: evt_at_def put_table_def)
  obtain ret w' where ret: "state_add_evt a k desc act (Some b) w = Some (ret, w')" and A: "life_inv f w'"
      "st_map f w' = st_map f w" "fm_state (w_mem w') = fm_state (w_mem w)" "key_at w' = key_at w"
    and ok: "ret = ST_OK \<longrightarrow> evt_at w a k = None \<and>
      (same_objs f w w' \<and> mset (hp_live (w_heap w)) \<subseteq># mset (hp_live (w_heap w')) \<or> balanced f w f w' \<and>
       (\<forall>c j. evt_at w' c j = (if c = a \<and> j = k then Some ?e else evt_at w c j)))"
    by (rule add_evt_ok [OF inv a b, of k desc act]) (rule that)
  have eq: "ret = ST_OK" "w' = ?w" using ret run by simp_all
  have "same_objs f w w' \<or> balanced f w f w' \<and>
       (\<forall>c j. evt_at w' c j = (if c = a \<and> j = k then Some ?e else evt_at w c j))" using ok eq(1) by blast
  moreover have "\<not> same_objs f w w'" using same_objs_maps(3) [OF inv, of w' a k] at new unfolding eq(2) [symmetric] by auto
  ultimately have "life_inv f ?w \<and> balanced f w f ?w \<and> fm_state (w_mem ?w) = fm_state (w_mem w) \<and> st_map f ?w = st_map f w \<and>
      key_at ?w = key_at w \<and> (\<forall>c j. evt_at ?w c j = (if c = a \<and> j = k then Some ?e else evt_at w c j))"
    using A unfolding eq(2) [symmetric] by blast
  moreover have "room_at q i ?w (evttable s)" "w_out ?w = w_out w" "\<forall>x. x \<noteq> evttable s \<longrightarrow> w_table ?w x = w_table w x"
    using r(3) w4 by (simp_all add: room_at_def put_table_def)
  ultimately show ?thesis using run r(4) by (intro exI [of _ ?w] conjI) (assumption | simp)+
qed

lemma add_state_plenty:
  assumes inv: "life_inv f w" and a: "fm_state (w_mem w) a = Some s" and un: "Some a \<notin> ran (st_map f w)"
    and cur: "f_cstate f \<noteq> Some a" and new: "k \<notin> dom (st_map f w)"
    and rm: "room_at q (Suc i) w (f_sttable f)" and p: "plenty n (w_heap w)" "sizeof_hnode + m \<le> n"
  shows "\<exists>w'. fsm_add_state f k a w = Some (FSM_OK, w') \<and> life_inv f w' \<and> balanced f w f w' \<and> plenty m (w_heap w') \<and>
    fm_state (w_mem w') = fm_state (w_mem w) \<and> st_map f w' = (st_map f w)(k \<mapsto> Some a) \<and>
    (\<forall>b j. evt_at w' b j = evt_at w b j) \<and> (\<forall>b. key_at w' b = (if b = a then Some k else key_at w b)) \<and>
    room_at q i w' (f_sttable f) \<and> w_out w' = w_out w"
proof -
  let ?u = "put_cell (st_key s) k w"
  note P = life_put_key [OF inv a un cur, of k]
  obtain t where t: "w_table w (f_sttable f) = Some t" "room q (Suc i) t" using rm by (auto simp: room_at_def)
  have tu: "w_table ?u (f_sttable f) = Some t" using t(1) by simp
  have tok: "tbl_ok (w_mem ?u) t" and sm: "st_map f ?u = ht_map fm_cell (w_mem ?u) t"
    using fsm_okD(3) [OF lifeD(1) [OF P(1)]] tu by auto
  then have tk: "ht_inv fm_cell (w_mem ?u) t" "stk.for_ht t" by (simp_all add: tbl_ok_def)
  have nk: "fm_cell (w_mem ?u) (st_key s) \<notin> dom (ht_map fm_cell (w_mem ?u) t)"
    using new unfolding sm [symmetric] P(3) by simp
  have "plenty n (w_heap ?u)" using p(1) by simp
  from stk.insert_room [OF tk sttab_heap [OF P(1) tu] t(2) nk this p(2), of "Some a"] obtain t' h' where
    r: "htable_insert (w_mem ?u) t (st_key s) (Some a) (w_heap ?u) = Some ((HT_OK, t'), h')" "room q i t'" "plenty m h'"
    by blast
  let ?w = "put_table (f_sttable f) t' (?u\<lparr>w_heap := h'\<rparr>)"
  have run: "fsm_add_state f k a w = Some (FSM_OK, ?w)" using a t(1) r(1) by (simp add: fsm_add_state_def)
  have "sizeof_hnode + m \<le> n \<Longrightarrow> max sizeof_hnode 1 + m \<le> n" by (simp add: sizeof_hnode_def)
  from plenty_malloc [OF p(1) this [OF p(2)]] have "fst (malloc sizeof_hnode (w_heap w)) \<noteq> None"
    by (metis fst_conv option.distinct(1))
  with add_state_ok [OF inv a un cur, of k] new have A: "life_inv f ?w \<and> balanced f w f ?w \<and>
    fm_state (w_mem ?w) = fm_state (w_mem w) \<and> (\<forall>b j. evt_at ?w b j = evt_at w b j) \<and>
    (\<forall>b. key_at ?w b = (if b = a then Some k else key_at w b)) \<and> st_map f ?w = (st_map f w)(k \<mapsto> Some a)"
    unfolding run by simp
  moreover have "room_at q i ?w (f_sttable f)" "w_out ?w = w_out w" using r(2) by (simp_all add: room_at_def put_table_def put_cell_def)
  ultimately show ?thesis using run r(3) by (intro exI [of _ ?w]) simp
qed

section \<open>Releasing\<close>

lemma life_print: "life_inv f w \<Longrightarrow> life_inv f (w_print out w)"
  using same_objs_inv [OF _ same_objs_print, of f w out] lifeD(3,5) [of f w] by (simp add: w_print_def)

lemma small_bucket:
  assumes tok: "tbl_ok m t" and size: "ht_size t = 2 ^ q" and q: "q \<le> 31" and n: "n \<in> set (ht_nodes t)"
    and k: "unat (fm_cell m (hn_key n)) < 2 ^ q"
  shows "length (ht_table t) = 2 ^ q" "ht_bucket t (ht_hashf t m (hn_key n)) = unat (fm_cell m (hn_key n))"
    "n \<in> set (ht_table t ! unat (fm_cell m (hn_key n)))"
proof -
  let ?k = "fm_cell m (hn_key n)"
  have ti: "ht_inv fm_cell m t" "ht_hashf t = state_hashf \<or> ht_hashf t = fsm_hashf"
    using tok by (auto simp: tbl_ok_def stk.for_ht_def)
  have usize: "unat (ht_size t) = 2 ^ q" unfolding size using q by (intro unat_p2) simp
  obtain l where "ht_log t l" using ht_invD(1) [OF ti(1)] by blast
  then show "length (ht_table t) = 2 ^ q" using usize by (auto simp: ht_log_def unat_p2)
  have hash: "ht_hashf t m (hn_key n) = ucast ?k" using ti(2) by (auto simp: state_hashf_def fsm_hashf_def)
  have "unat ?k < 2 ^ LENGTH(32)" by (rule unsigned_less)
  then have uk: "unat (ucast ?k :: size_t) = unat ?k" by (simp add: unsigned_ucast_eq take_bit_nat_eq_self_iff)
  have "unat ((ucast ?k :: size_t) AND (2 ^ q - 1)) = unat ?k mod 2 ^ q" by (simp only: unat_mask uk)
  then show b: "ht_bucket t (ht_hashf t m (hn_key n)) = unat ?k" unfolding ht_bucket_def hash size using k by simp
  show "n \<in> set (ht_table t ! unat ?k)" using ht_node_placed [OF ht_invD(2) [OF ti(1)] n] b by simp
qed

lemma states_freed:
  assumes inv: "life_inv f w" and rm: "room_at q 0 w (f_sttable f)" and q: "q \<le> 31"
    and keys: "\<And>a. a \<in> dom (fm_state (w_mem w)) \<Longrightarrow> \<exists>k. st_map f w k = Some (Some a) \<and> unat k < 2 ^ q - 1"
  shows "dom (fm_state (w_mem w)) \<subseteq> set (freed_states f w)"
proof
  fix a
  assume "a \<in> dom (fm_state (w_mem w))"
  then obtain k where k: "st_map f w k = Some (Some a)" "unat k < 2 ^ q - 1" using keys by blast
  obtain t where t: "w_table w (f_sttable f) = Some t" "room q 0 t" using rm by (auto simp: room_at_def)
  have tok: "tbl_ok (w_mem w) t" and m: "st_map f w = ht_map fm_cell (w_mem w) t" using fsm_okD(3) [OF lifeD(1) [OF inv]] t(1) by auto
  from tbl_map_node [OF tok] k(1) m obtain n where
    n: "n \<in> set (ht_nodes t)" "fm_cell (w_mem w) (hn_key n) = k" "hn_data n = Some a" by metis
  have size: "ht_size t = 2 ^ q" using t(2) by (simp add: room_def)
  have "length (ht_table t) = 2 ^ q" "n \<in> set (ht_table t ! unat k)" using small_bucket [OF tok size q n(1)] n(2) k(2) by simp_all
  moreover from this(1) have "ht_table t ! unat k \<in> set (butlast (ht_table t))"
    using k(2) by (auto simp: in_set_conv_nth nth_butlast intro!: exI [of _ "unat k"])
  ultimately have "n \<in> set (visited_nodes t)" by (auto simp: visited_nodes_def)
  then show "a \<in> set (freed_states f w)" using n(3) t(1) by (force simp: freed_states_def)
qed

lemma free_all:
  assumes inv: "life_inv f w" and rm: "room_at q 0 w (f_sttable f)" and q: "q \<le> 31"
    and keys: "\<And>a. a \<in> dom (fm_state (w_mem w)) \<Longrightarrow> \<exists>k. st_map f w k = Some (Some a) \<and> unat k < 2 ^ q - 1"
    and live: "mset (hp_live (w_heap w)) = L + owned f w"
  obtains w' where "fsm_free f w = Some (FSM_OK, w')" "mset (hp_live (w_heap w')) = L"
    "hp_bad (w_heap w') = hp_bad (w_heap w)" "w_out w' = w_out w"
proof -
  have none: "dom (fm_state (w_mem w)) - set (freed_states f w) = {}" using states_freed [OF inv rm q keys] by blast
  have "mset (hidden_keys f w) = {#}" using fsm_blocks_own(3) [OF inv] unfolding none by simp
  moreover obtain h where "fsm_free f w = Some (FSM_OK, w_set_heap h w)"
    using fsm_free_frees [OF inv subset_mset.order_trans [OF fsm_blocks_own(2) [OF inv] lifeD(5) [OF inv]]] by blast
  moreover have "w_out (w_set_heap h w) = w_out w" for h by (simp add: w_set_heap_def)
  ultimately show thesis using free_ok [OF inv] live unfolding none by (intro that [of "w_set_heap h w"]) simp_all
qed

end
