(* ===== verification/Rmcom.thy ===== *)
theory Rmcom imports Fsm_Plenty begin

text \<open>
  The client \<open>fsm/test_rmcom.c\<close>: a machine of two states that copies a file without its comments.
  \<open>get_evt_key\<close> looks at the machine's state and the input and says which event comes next.

  C leaves the order open in which the arguments of \<open>fsm_process_event(fsm, get_evt_key(fsm, &p), p)\<close> are
  evaluated; \<open>early\<close> says that \<open>p\<close> is read before \<open>get_evt_key\<close> advances it.
\<close>

unbundle bit_operations_syntax

section \<open>The program\<close>

definition EVT_NO_START_COMMENT :: "32 word" where "EVT_NO_START_COMMENT = 1"
definition EVT_NO_END_COMMENT :: "32 word" where "EVT_NO_END_COMMENT = 2"
definition EVT_START_COMMENT :: "32 word" where "EVT_START_COMMENT = 3"
definition EVT_END_COMMENT :: "32 word" where "EVT_END_COMMENT = 4"
definition ST_NO_COMMENT :: "32 word" where "ST_NO_COMMENT = 1"
definition ST_COMMENT :: "32 word" where "ST_COMMENT = 2"

definition get_evt_key :: "fsm_t \<Rightarrow> world \<Rightarrow> 8 word list \<Rightarrow> nat \<Rightarrow> (32 word \<times> nat) option" where
  \<comment> \<open>\<open>p\<close> is an index into the buffer; the character behind it is looked at only if the first one matches.\<close>
  "get_evt_key f w buf p =
     do { stkey \<leftarrow> fsm_get_current_state f w;
          if stkey = ST_NO_COMMENT then
            if p < length buf then
              if buf ! p = 47 then
                if Suc p < length buf then
                  Some (if buf ! Suc p = 42 then (EVT_START_COMMENT, p + 2) else (EVT_NO_START_COMMENT, p + 1))
                else None
              else Some (EVT_NO_START_COMMENT, p + 1)
            else None
          else if stkey = ST_COMMENT then
            if p < length buf then
              if buf ! p = 42 then
                if Suc p < length buf then
                  Some (if buf ! Suc p = 47 then (EVT_END_COMMENT, p + 2) else (EVT_NO_END_COMMENT, p + 1))
                else None
              else Some (EVT_NO_END_COMMENT, p + 1)
            else None
          else Some (-1, p + 1) }"

definition PRINT_CHAR :: nat where
  \<comment> \<open>The address of the function \<open>print_char\<close>.\<close>
  "PRINT_CHAR = 0"

definition print_char :: "8 word list \<Rightarrow> exec_t" where
  "print_char buf act data f w =
     do { p \<leftarrow> data;
          if p < length buf then Some (f, w_print [char_of (unat (buf ! p))] w) else None }"

lemma get_evt_key_advances: "get_evt_key f w buf p = Some (key, p') \<Longrightarrow> p < p'"
  by (auto simp: get_evt_key_def split: bind_splits if_splits)

function rm_line :: "bool \<Rightarrow> 8 word list \<Rightarrow> nat \<Rightarrow> fsm_t \<Rightarrow> world \<Rightarrow> (fsm_t \<times> world) option" where
  \<comment> \<open>The inner loop, until \<open>p\<close> points to a NUL.\<close>
  "rm_line early buf p f w =
     (if p < length buf then
        if buf ! p = 0 then Some (f, w)
        else case get_evt_key f w buf p of
          None \<Rightarrow> None
        | Some (key, p') \<Rightarrow>
            do { ((_, f'), w') \<leftarrow> fsm_process_event (print_char buf) f key (Some (if early then p else p')) w;
                 rm_line early buf p' f' w' }
      else None)"
  by pat_completeness auto

termination
  by (relation "measure (\<lambda>(_, buf, p, _). length buf - p)") (auto dest: get_evt_key_advances)

declare rm_line.simps [simp del]

function rm_file :: "bool \<Rightarrow> 8 word list \<Rightarrow> fsm_t \<Rightarrow> world \<Rightarrow> (fsm_t \<times> world) option" where
  \<comment> \<open>\<open>while (!feof(fp))\<close>; the buffer is cleared before every line.\<close>
  "rm_file early inp f w =
     (case fgets_line 255 inp of
        (line, rest, eof) \<Rightarrow>
          do { (f', w') \<leftarrow> rm_line early (line @ replicate (256 - length line) 0) 0 f w;
               if eof then Some (f', w') else rm_file early rest f' w' })"
  by pat_completeness auto

termination
  by (relation "measure (\<lambda>(_, inp, _). length inp)") (auto dest!: sym [of "(_, _, False)"] fgets_line_shorter [of 254, simplified])

declare rm_file.simps [simp del]

definition rm_add_evts :: "addr \<Rightarrow> addr \<Rightarrow> world \<Rightarrow> (bool \<times> world) option" where
  \<comment> \<open>The condition of the third \<open>if\<close>: the calls up to the first that fails. The last one is not
      compared with \<open>ST_NOMEM\<close>, so anything but \<open>ST_OK\<close> counts.\<close>
  "rm_add_evts nc co w =
     do { (r1, w1) \<leftarrow> state_add_evt nc EVT_NO_START_COMMENT [] (Some PRINT_CHAR) (Some nc) w;
          if r1 = ST_NOMEM then Some (True, w1) else do {
          (r2, w2) \<leftarrow> state_add_evt nc EVT_START_COMMENT [] None (Some co) w1;
          if r2 = ST_NOMEM then Some (True, w2) else do {
          (r3, w3) \<leftarrow> state_add_evt co EVT_NO_END_COMMENT [] None (Some co) w2;
          if r3 = ST_NOMEM then Some (True, w3) else do {
          (r4, w4) \<leftarrow> state_add_evt co EVT_END_COMMENT [] None (Some nc) w3;
          Some (r4 \<noteq> ST_OK, w4) } } } }"

definition rmcom_main :: "bool \<Rightarrow> 8 word \<Rightarrow> 8 word \<Rightarrow> 8 word list \<Rightarrow> world \<Rightarrow> (bool \<times> world) option" where
  \<comment> \<open>\<open>main\<close> on a file with the given text that is read without errors: whether it exits with
      \<open>EXIT_SUCCESS\<close>. A failed \<open>fsm_init\<close> is not noticed; using its null pointer is undefined.\<close>
  "rmcom_main early g1 g2 inp w =
     do { ((_, fsm), w1) \<leftarrow> fsm_init (push_bit 8 2) 5 0 w;
          ((r2, st1), w2) \<leftarrow> state_init g1 (push_bit 5 2) 2 w1;
          case st1 of
            None \<Rightarrow> do { f \<leftarrow> fsm; (_, w') \<leftarrow> fsm_free f w2; Some (False, w') }
          | Some nc \<Rightarrow> do {
          ((r3, st2), w3) \<leftarrow> state_init g2 (push_bit 5 2) 2 w2;
          case st2 of
            None \<Rightarrow> do { f \<leftarrow> fsm; (_, w4) \<leftarrow> fsm_free f w3; (_, w') \<leftarrow> state_free nc w4; Some (False, w') }
          | Some co \<Rightarrow> do {
          (failed, w4) \<leftarrow> rm_add_evts nc co w3;
          if failed then Some (False, w4) else do {
          f \<leftarrow> fsm;
          (_, w5) \<leftarrow> fsm_add_state f ST_NO_COMMENT nc w4;
          (_, w6) \<leftarrow> fsm_add_state f ST_COMMENT co w5;
          ((_, f1), w7) \<leftarrow> fsm_set_state f ST_NO_COMMENT w6;
          (f2, w8) \<leftarrow> rm_file early inp f1 w7;
          (_, w9) \<leftarrow> fsm_free f2 w8;
          Some (True, w9) } } } }"

section \<open>What is copied\<close>

fun copied :: "bool \<Rightarrow> bool \<Rightarrow> 8 word list \<Rightarrow> 8 word list \<times> bool" where
  \<comment> \<open>The characters printed for one string, from outside (\<open>False\<close>) or inside a comment, and where it
      ends. When \<open>p\<close> is read late, the character behind each copied one is printed instead.\<close>
  "copied early co [] = ([], co)"
| "copied early co [c] = (if co then [] else [if early then c else 0], co)"
| "copied early co (c # d # cs) =
     (if co then
        if c = 42 \<and> d = 47 then copied early False cs else copied early True (d # cs)
      else if c = 47 \<and> d = 42 then copied early True cs
      else let (out, co') = copied early False (d # cs) in ((if early then c else d) # out, co'))"

definition strip :: "8 word list \<Rightarrow> 8 word list" where
  \<comment> \<open>The text without its comments.\<close>
  "strip inp = fst (copied True False inp)"

lemma copied_append:
  "xs = [] \<or> ys = [] \<or> (last xs, hd ys) \<noteq> (47, 42) \<and> (last xs, hd ys) \<noteq> (42, 47) \<Longrightarrow>
    copied True co (xs @ ys) = (let (o1, c1) = copied True co xs; (o2, c2) = copied True c1 ys in (o1 @ o2, c2))"
proof (induction "True" co xs rule: copied.induct)
  case (2 co c)
  then show ?case by (cases ys) (auto split: prod.splits)
next
  case (3 co c d cs)
  then show ?case by (cases "cs = []") (auto split: prod.splits)
qed (auto split: prod.splits)

text \<open>What \<open>strip\<close> does, without reference to the machine.\<close>

lemma strip_plain: "\<nexists>xs ys. inp = xs @ [47, 42] @ ys \<Longrightarrow> strip inp = inp"
proof -
  have "\<nexists>xs ys. inp = xs @ [47, 42] @ ys \<Longrightarrow> copied True False inp = (inp, False)"
  proof (induction "True" "False" inp rule: copied.induct)
    case (3 c d cs)
    have "\<not> (c = 47 \<and> d = 42)" using 3(5) by (metis append_Cons append_Nil)
    moreover have "\<nexists>xs ys. d # cs = xs @ [47, 42] @ ys" using 3(5) by (metis append_Cons)
    ultimately show ?case using 3(4) by auto
  qed auto
  then show "\<nexists>xs ys. inp = xs @ [47, 42] @ ys \<Longrightarrow> strip inp = inp" by (simp add: strip_def)
qed

section \<open>Lines\<close>

fun short_lines :: "nat \<Rightarrow> 8 word list \<Rightarrow> bool" where
  \<comment> \<open>No line is longer than 255 characters, \<open>k\<close> of the first one being given.\<close>
  "short_lines k [] = (k \<le> 255)"
| "short_lines k (c # cs) = (if c = 10 then k \<le> 255 \<and> short_lines 0 cs else short_lines (Suc k) cs)"

lemma short_lines_le: "short_lines k inp \<Longrightarrow> k \<le> 255"
  by (induction k inp rule: short_lines.induct) (auto split: if_splits)

lemma fgets_boundary:
  "fgets_line n inp = (line, rest, eof) \<Longrightarrow> short_lines k inp \<Longrightarrow> n + k = 255 \<Longrightarrow>
    rest = [] \<or> short_lines 0 rest \<and> (line \<noteq> [] \<and> last line = 10 \<or> hd rest = 10)"
proof (induction n inp arbitrary: k line rule: fgets_line.induct)
  case (1 inp)
  then show ?case
  proof (cases inp)
    case (Cons c cs)
    with 1 short_lines_le [of "Suc k" cs] show ?thesis by (auto split: if_splits)
  qed simp
next
  case (3 n c cs)
  show ?case
  proof (cases "c = 10")
    case False
    then obtain l where l: "fgets_line n cs = (l, rest, eof)" "line = c # l" using 3(2) by (auto split: prod.splits)
    have "short_lines (Suc k) cs" "n + Suc k = 255" using 3(3,4) False by simp_all
    from 3(1) [OF False l(1) this] l(2) show ?thesis by auto
  qed (use 3 in auto)
qed simp

section \<open>The machine at work\<close>

abbreviation rm_evt :: "nat option \<Rightarrow> addr \<Rightarrow> event_t" where
  "rm_evt act b \<equiv> \<lparr>evt_desc = strncpy [] MAX_EVT_DESC, evt_actionf = act, evt_newstate = Some b\<rparr>"

definition rm_ready :: "addr multiset \<Rightarrow> fsm_t \<Rightarrow> world \<Rightarrow> addr \<Rightarrow> addr \<Rightarrow> bool \<Rightarrow> bool" where
  \<comment> \<open>The machine is built; \<open>com\<close> says that its current state is the one inside comments.\<close>
  "rm_ready L f w nc co com \<longleftrightarrow> life_inv f w \<and> f_cstate f = Some (if com then co else nc) \<and>
     st_map f w 1 = Some (Some nc) \<and> st_map f w 2 = Some (Some co) \<and> key_at w nc = Some 1 \<and> key_at w co = Some 2 \<and>
     evt_at w nc 1 = Some (rm_evt (Some PRINT_CHAR) nc) \<and> evt_at w nc 3 = Some (rm_evt None co) \<and>
     evt_at w co 2 = Some (rm_evt None co) \<and> evt_at w co 4 = Some (rm_evt None nc) \<and>
     dom (fm_state (w_mem w)) = {nc, co} \<and> room_at 9 0 w (f_sttable f) \<and> mset (hp_live (w_heap w)) = L + owned f w"

lemma w_print_print [simp]: "w_print b (w_print a w) = w_print (a @ b) w" "w_print [] w = w"
  by (simp_all add: w_print_def)

lemma life_cstate:
  assumes "life_inv f w" "key_at w b = Some k" "k \<in> dom (st_map f w)"
  shows "life_inv (f\<lparr>f_cstate := Some b\<rparr>) w"
  using assms fsm_ok_cstate [OF lifeD(1) [OF assms(1)] assms(2,3)] unfolding life_inv_def owned_fields by simp

lemma ready_step:
  assumes r: "rm_ready L f w nc co com"
  shows "rm_ready L (f\<lparr>f_cstate := Some (if com' then co else nc)\<rparr>) (w_print out w) nc co com'"
proof -
  have inv: "life_inv f w" using r by (simp add: rm_ready_def)
  note M = same_objs_maps [OF inv same_objs_print]
  have sm: "st_map (f\<lparr>f_cstate := c\<rparr>) v = st_map f v" for c v by (simp add: st_map_def)
  have "life_inv (f\<lparr>f_cstate := Some (if com' then co else nc)\<rparr>) w"
    using r by (cases com') (auto simp: rm_ready_def intro: life_cstate)
  moreover have "room_at 9 0 (w_print out w) (f_sttable f)" using r by (simp add: rm_ready_def room_at_def w_print_def)
  moreover have "owned (f\<lparr>f_cstate := Some (if com' then co else nc)\<rparr>) (w_print out w) = owned f w"
    unfolding owned_fields by (rule same_objs_owned [OF same_objs_print])
  ultimately show ?thesis using r M life_print by (simp add: rm_ready_def sm)
qed

lemma print_char_at:
  "q < length buf \<Longrightarrow> print_char buf act (Some q) f w = Some (f, w_print [char_of (unat (buf ! q))] w)"
  by (simp add: print_char_def)

lemma ready_process:
  assumes r: "rm_ready L f w nc co com" and e: "evt_at w (if com then co else nc) k = Some (rm_evt act (if com' then co else nc))"
    and act: "act = None \<or> act = Some PRINT_CHAR" and q: "q < length buf"
  shows "fsm_process_event (print_char buf) f k (Some q) w =
    Some ((FSM_OK, f\<lparr>f_cstate := Some (if com' then co else nc)\<rparr>),
      w_print (if act = None then [] else [char_of (unat (buf ! q))]) w)"
proof -
  have inv: "life_inv f w" and c: "f_cstate f = Some (if com then co else nc)" using r by (simp_all add: rm_ready_def)
  have "\<forall>a. \<exists>out. print_char buf a (Some q) f w = Some (f, w_print out w)" using print_char_at [OF q] by blast
  from process_at [where exec = "print_char buf" and data = "Some q" and k = k, OF lifeD(1) [OF inv] c this] e
  obtain out where
    o: "act = None \<longrightarrow> out = []" "\<forall>a. act = Some a \<longrightarrow> print_char buf a (Some q) f w = Some (f, w_print out w)"
    and run: "fsm_process_event (print_char buf) f k (Some q) w = Some
      (if \<exists>key. key_at w (if com' then co else nc) = Some key \<and> key \<in> dom (st_map f w)
       then (FSM_OK, f\<lparr>f_cstate := Some (if com' then co else nc)\<rparr>) else (FSM_ENOTFOUND, f), w_print out w)"
    by auto
  have "\<exists>key. key_at w (if com' then co else nc) = Some key \<and> key \<in> dom (st_map f w)"
    using r by (auto simp: rm_ready_def)
  then show ?thesis using run o print_char_at [OF q] act by auto
qed

lemma ready_key:
  assumes "rm_ready L f w nc co com"
  shows "fsm_get_current_state f w = Some (if com then 2 else 1)"
  using assms by (cases com) (auto simp: rm_ready_def key_at_def fsm_get_current_state_def)

lemma drop_two:
  assumes "drop p buf = c # d # rest"
  shows "Suc p < length buf" "p < length buf" "buf ! p = c" "buf ! Suc p = d" "drop (Suc p) buf = d # rest"
    "drop (Suc (Suc p)) buf = rest"
proof -
  have "length (drop p buf) = Suc (Suc (length rest))" using assms by simp
  then show l: "Suc p < length buf" "p < length buf" by simp_all
  show d: "drop (Suc p) buf = d # rest" "drop (Suc (Suc p)) buf = rest"
    using arg_cong [OF assms, of "drop 1"] arg_cong [OF assms, of "drop 2"] by simp_all
  show "buf ! p = c" "buf ! Suc p = d"
    using l assms d(1) by (simp_all flip: hd_drop_conv_nth)
qed

lemma ready_get_evt:
  assumes "rm_ready L f w nc co com" "drop p buf = c # d # rest"
  shows "get_evt_key f w buf p = Some
    (if com then if c = 42 \<and> d = 47 then (4, p + 2) else (2, p + 1)
     else if c = 47 \<and> d = 42 then (3, p + 2) else (1, p + 1))"
  using ready_key [OF assms(1)] drop_two [OF assms(2)]
  by (simp add: get_evt_key_def ST_NO_COMMENT_def ST_COMMENT_def EVT_NO_START_COMMENT_def EVT_NO_END_COMMENT_def
      EVT_START_COMMENT_def EVT_END_COMMENT_def)

lemma rm_line_step:
  assumes r: "rm_ready L f w nc co com" and d: "drop p buf = c # d # rest" "c \<noteq> 0"
    and k: "get_evt_key f w buf p = Some (key, p')" "p' < length buf"
    and e: "evt_at w (if com then co else nc) key = Some (rm_evt act (if com' then co else nc))"
    and act: "act = None \<or> act = Some PRINT_CHAR"
  shows "rm_line early buf p f w = rm_line early buf p' (f\<lparr>f_cstate := Some (if com' then co else nc)\<rparr>)
      (w_print (if act = None then [] else [char_of (unat (buf ! (if early then p else p')))]) w)"
proof -
  have "(if early then p else p') < length buf" using drop_two(2) [OF d(1)] k(2) by simp
  from ready_process [OF r e act this] show ?thesis
    using drop_two(2,3) [OF d(1)] d(2) k(1) by (subst rm_line.simps) simp
qed

lemma rm_line_ok:
  "rm_ready L f w nc co com \<Longrightarrow> drop p buf = xs @ 0 # zs \<Longrightarrow> 0 \<notin> set xs \<Longrightarrow>
    \<exists>f'. rm_line early buf p f w = Some (f', w_print (map (char_of \<circ> unat) (fst (copied early com xs))) w) \<and>
      rm_ready L f' (w_print (map (char_of \<circ> unat) (fst (copied early com xs))) w) nc co (snd (copied early com xs))"
proof (induction early com xs arbitrary: p f w rule: copied.induct)
  case (1 early com)
  have "p < length buf" "buf ! p = 0"
    using 1(2) by (metis append_Nil drop_eq_Nil leI list.distinct(1), metis append_Nil hd_drop_conv_nth drop_eq_Nil leI list.distinct(1) list.sel(1))
  then show ?case using 1(1) by (subst rm_line.simps) simp
next
  case (2 early com c)
  have d: "drop p buf = c # 0 # zs" using 2(2) by simp
  note D = drop_two [OF d]
  have k: "get_evt_key f w buf p = Some (if com then 2 else 1, p + 1)" using ready_get_evt [OF 2(1) d] by simp
  let ?act = "if com then None else Some PRINT_CHAR"
  have e: "evt_at w (if com then co else nc) (if com then 2 else 1) = Some (rm_evt ?act (if com then co else nc))"
    using 2(1) by (cases com) (simp_all add: rm_ready_def)
  let ?out = "if ?act = None then [] else [char_of (unat (buf ! (if early then p else p + 1)))]"
  have step: "rm_line early buf p f w = rm_line early buf (p + 1) (f\<lparr>f_cstate := Some (if com then co else nc)\<rparr>) (w_print ?out w)"
    by (rule rm_line_step [OF 2(1) d _ k _ e]) (use 2(3) D in auto)
  have "p + 1 < length buf" "buf ! (p + 1) = 0" using D by simp_all
  then have "rm_line early buf p f w = Some (f\<lparr>f_cstate := Some (if com then co else nc)\<rparr>, w_print ?out w)"
    unfolding step by (subst rm_line.simps) simp
  moreover have "?out = map (char_of \<circ> unat) (fst (copied early com [c]))" using D by auto
  moreover have "rm_ready L (f\<lparr>f_cstate := Some (if com then co else nc)\<rparr>) (w_print ?out w) nc co com" by (rule ready_step [OF 2(1)])
  ultimately show ?case by auto
next
  case (3 early com c d cs)
  have dr: "drop p buf = c # d # (cs @ 0 # zs)" using "3.prems"(2) by simp
  note D = drop_two [OF dr] and K = ready_get_evt [OF "3.prems"(1) dr]
  have nz: "c \<noteq> 0" "0 \<notin> set cs" "0 \<notin> set (d # cs)" using "3.prems"(3) by auto
  have len: "Suc (Suc p) < length buf" using arg_cong [OF dr, of length] by simp
  define pair where "pair = (if com then c = 42 \<and> d = 47 else c = 47 \<and> d = 42)"
  show ?case
  proof (cases pair)
    case True
    let ?f = "f\<lparr>f_cstate := Some (if \<not> com then co else nc)\<rparr>"
    have k: "get_evt_key f w buf p = Some (if com then 4 else 3, p + 2)" using K True unfolding pair_def by (cases com) simp_all
    have e: "evt_at w (if com then co else nc) (if com then 4 else 3) = Some (rm_evt None (if \<not> com then co else nc))"
      using "3.prems"(1) by (cases com) (simp_all add: rm_ready_def)
    have step: "rm_line early buf p f w = rm_line early buf (p + 2) ?f (w_print (if (None :: nat option) = None then [] else [char_of (unat (buf ! (if early then p else p + 2)))]) w)"
      by (rule rm_line_step [OF "3.prems"(1) dr nz(1) k _ e]) (use len in auto)
    have r: "rm_ready L ?f w nc co (\<not> com)" using ready_step [OF "3.prems"(1), of "\<not> com" "[]"] by simp
    have "copied early com (c # d # cs) = copied early (\<not> com) cs" using True unfolding pair_def by (cases com) simp_all
    moreover have "drop (p + 2) buf = cs @ 0 # zs" using D by simp
    ultimately show ?thesis using True "3.IH"(1,3) [of ?f w "p + 2"] r nz step by (cases com) (auto simp: pair_def)
  next
    case False
    let ?f = "f\<lparr>f_cstate := Some (if com then co else nc)\<rparr>"
    let ?act = "if com then None else Some PRINT_CHAR"
    let ?out = "if ?act = None then [] else [char_of (unat (buf ! (if early then p else p + 1)))]"
    have k: "get_evt_key f w buf p = Some (if com then 2 else 1, p + 1)" using K False unfolding pair_def by (cases com) simp_all
    have e: "evt_at w (if com then co else nc) (if com then 2 else 1) = Some (rm_evt ?act (if com then co else nc))"
      using "3.prems"(1) by (cases com) (simp_all add: rm_ready_def)
    have step: "rm_line early buf p f w = rm_line early buf (p + 1) ?f (w_print ?out w)"
      by (rule rm_line_step [OF "3.prems"(1) dr nz(1) k _ e]) (use len in auto)
    have r: "rm_ready L ?f (w_print ?out w) nc co com" by (rule ready_step [OF "3.prems"(1)])
    have dr': "drop (p + 1) buf = (d # cs) @ 0 # zs" using D by simp
    obtain out co' where o: "copied early com (d # cs) = (out, co')" by force
    have c: "copied early com (c # d # cs) = ((if com then [] else [if early then c else d]) @ out, co')"
      using False o unfolding pair_def by (cases com) auto
    have "com \<Longrightarrow> \<not> (c = 42 \<and> d = 47)" "\<not> com \<Longrightarrow> \<not> (c = 47 \<and> d = 42)" using False by (simp_all add: pair_def)
    note no = this
    have "\<exists>f'. rm_line early buf (p + 1) ?f (w_print ?out w) = Some (f', w_print (map (char_of \<circ> unat) out) (w_print ?out w)) \<and>
        rm_ready L f' (w_print (map (char_of \<circ> unat) out) (w_print ?out w)) nc co co'"
    proof (cases com)
      case True
      with "3.IH"(2) [OF _ no(1), of ?f "w_print ?out w" "p + 1"] r dr' nz(3) o show ?thesis by (simp only: simp_thms fst_conv snd_conv)
    next
      case False
      with "3.IH"(4) [OF _ no(2), of ?f "w_print ?out w" "p + 1"] r dr' nz(3) o show ?thesis by (simp only: simp_thms fst_conv snd_conv)
    qed
    moreover have "?out = map (char_of \<circ> unat) (if com then [] else [if early then c else d])" using D by auto
    ultimately show ?thesis unfolding c step by (auto simp: comp_def)
  qed
qed

lemma rm_file_ok:
  "rm_ready L f w nc co com \<Longrightarrow> 0 \<notin> set inp \<Longrightarrow> short_lines 0 inp \<Longrightarrow>
    \<exists>f'. rm_file True inp f w = Some (f', w_print (map (char_of \<circ> unat) (fst (copied True com inp))) w) \<and>
      rm_ready L f' (w_print (map (char_of \<circ> unat) (fst (copied True com inp))) w) nc co (snd (copied True com inp))"
proof (induction "length inp" arbitrary: inp f w com rule: less_induct)
  case less
  obtain line rest eof where g: "fgets_line 255 inp = (line, rest, eof)" by (cases "fgets_line 255 inp") auto
  have inp: "inp = line @ rest" by (rule fgets_line_rest [OF g])
  have b: "rest = [] \<or> short_lines 0 rest \<and> (line \<noteq> [] \<and> last line = 10 \<or> hd rest = 10)"
    by (rule fgets_boundary [OF g less.prems(3)]) simp
  have l: "drop 0 (line @ replicate (256 - length line) 0) = line @ (0 :: 8 word) # replicate (255 - length line) 0"
    using fgets_line_length [OF g] by (simp add: Suc_diff_le flip: replicate_Suc)
  obtain o1 c1 where c1: "copied True com line = (o1, c1)" by force
  have z: "0 \<notin> set line" "0 \<notin> set rest" using less.prems(2) inp by auto
  from rm_line_ok [where early = True, OF less.prems(1) l z(1)] c1 obtain f1 where
    f1: "rm_line True (line @ replicate (256 - length line) 0) 0 f w = Some (f1, w_print (map (char_of \<circ> unat) o1) w)"
      "rm_ready L f1 (w_print (map (char_of \<circ> unat) o1) w) nc co c1" by auto
  show ?case
  proof (cases eof)
    case True
    then have "rest = []" using fgets_eof [of 255 inp line rest] g by simp
    with f1 c1 inp True g show ?thesis by (subst rm_file.simps) simp
  next
    case False
    have sh: "length rest < length inp" using fgets_line_shorter [of 254] g False by simp
    have "short_lines 0 rest" using b by auto
    from less.hyps [OF sh f1(2) z(2) this] obtain f2 where
      f2: "rm_file True rest f1 (w_print (map (char_of \<circ> unat) o1) w) =
          Some (f2, w_print (map (char_of \<circ> unat) (fst (copied True c1 rest))) (w_print (map (char_of \<circ> unat) o1) w))"
        "rm_ready L f2 (w_print (map (char_of \<circ> unat) (fst (copied True c1 rest))) (w_print (map (char_of \<circ> unat) o1) w)) nc co
          (snd (copied True c1 rest))" by blast
    have "line = [] \<or> rest = [] \<or> (last line, hd rest) \<noteq> (47, 42) \<and> (last line, hd rest) \<noteq> (42, 47)" using b by auto
    from copied_append [OF this, of com] c1 have "copied True com inp = (o1 @ fst (copied True c1 rest), snd (copied True c1 rest))"
      unfolding inp by (simp split: prod.splits)
    then have c: "fst (copied True com inp) = o1 @ fst (copied True c1 rest)" "snd (copied True com inp) = snd (copied True c1 rest)"
      by simp_all
    have "rm_file True inp f w = rm_file True rest f1 (w_print (map (char_of \<circ> unat) o1) w)"
      using g f1(1) False by (subst rm_file.simps) simp
    with f2 show ?thesis unfolding c map_append w_print_print(1) by (intro exI [of _ f2] conjI) (simp only:)+
  qed
qed

section \<open>Building the machine\<close>

lemma room_at_le: "room_at k n w x \<Longrightarrow> m \<le> n \<Longrightarrow> room_at k m w x"
  by (auto simp: room_at_def room_def)

lemma built_evts:
  assumes inv: "life_inv f w" and s: "fm_state (w_mem w) nc = Some s1" "fm_state (w_mem w) co = Some s2" "nc \<noteq> co"
    and none: "\<forall>j. evt_at w nc j = None" "\<forall>j. evt_at w co j = None"
    and rm: "room_at 6 2 w (evttable s1)" "room_at 6 2 w (evttable s2)" and p: "plenty (464 + m) (w_heap w)"
  obtains w' where "rm_add_evts nc co w = Some (False, w')" "life_inv f w'" "balanced f w f w'" "plenty m (w_heap w')"
    "fm_state (w_mem w') = fm_state (w_mem w)" "st_map f w' = st_map f w"
    "evt_at w' nc 1 = Some (rm_evt (Some PRINT_CHAR) nc)" "evt_at w' nc 3 = Some (rm_evt None co)"
    "evt_at w' co 2 = Some (rm_evt None co)" "evt_at w' co 4 = Some (rm_evt None nc)"
    "w_out w' = w_out w" "w_table w' (f_sttable f) = w_table w (f_sttable f)"
proof -
  have d: "nc \<in> dom (fm_state (w_mem w))" "co \<in> dom (fm_state (w_mem w))" using s by auto
  have ne: "evttable s2 \<noteq> evttable s1" "f_sttable f \<noteq> evttable s1" "f_sttable f \<noteq> evttable s2"
    using state_sep(2) [OF inv s(1) s(2)] s(3) state_sep(1) [OF inv s(1)] state_sep(1) [OF inv s(2)] by auto
  note sizes = sizeof_uint_def sizeof_event_def sizeof_hnode_def
  have r: "room_at 6 (Suc (Suc 0)) w (evttable s1)" "room_at 6 (Suc (Suc 0)) w (evttable s2)" using rm by (simp_all add: numeral_2_eq_2)
  from add_evt_plenty [OF inv s(1) d(1) r(1) spec [OF none(1)] p, where m = "348 + m" and desc = "[]" and act = "Some PRINT_CHAR" and k = 1]
  obtain w1 where 1: "state_add_evt nc 1 [] (Some PRINT_CHAR) (Some nc) w = Some (ST_OK, w1)" "life_inv f w1" "balanced f w f w1"
      "plenty (348 + m) (w_heap w1)" "fm_state (w_mem w1) = fm_state (w_mem w)" "st_map f w1 = st_map f w"
      "\<And>c j. evt_at w1 c j = (if c = nc \<and> j = 1 then Some (rm_evt (Some PRINT_CHAR) nc) else evt_at w c j)"
      "room_at 6 (Suc 0) w1 (evttable s1)" "w_out w1 = w_out w" "\<And>x. x \<noteq> evttable s1 \<Longrightarrow> w_table w1 x = w_table w x"
    by (auto simp: sizes)
  have e1: "evt_at w1 nc 3 = None" "fm_state (w_mem w1) nc = Some s1" "co \<in> dom (fm_state (w_mem w1))"
    using none s d 1(5,7) by simp_all
  from add_evt_plenty [OF 1(2) e1(2,3) 1(8) e1(1) 1(4), where m = "232 + m" and desc = "[]" and act = None]
  obtain w2 where 2: "state_add_evt nc 3 [] None (Some co) w1 = Some (ST_OK, w2)" "life_inv f w2" "balanced f w1 f w2"
      "plenty (232 + m) (w_heap w2)" "fm_state (w_mem w2) = fm_state (w_mem w)" "st_map f w2 = st_map f w"
      "\<And>c j. evt_at w2 c j = (if c = nc \<and> j = 3 then Some (rm_evt None co) else evt_at w1 c j)"
      "w_out w2 = w_out w" "\<And>x. x \<noteq> evttable s1 \<Longrightarrow> w_table w2 x = w_table w x"
    by (auto simp: sizes 1)
  have e2: "evt_at w2 co 2 = None" "fm_state (w_mem w2) co = Some s2" "co \<in> dom (fm_state (w_mem w2))"
    using none s d 1(7) 2(5,7) by simp_all
  have r2: "room_at 6 (Suc (Suc 0)) w2 (evttable s2)" using r(2) 2(9) [OF ne(1)] by (simp add: room_at_def)
  from add_evt_plenty [OF 2(2) e2(2,3) r2 e2(1) 2(4), where m = "116 + m" and desc = "[]" and act = None]
  obtain w3 where 3: "state_add_evt co 2 [] None (Some co) w2 = Some (ST_OK, w3)" "life_inv f w3" "balanced f w2 f w3"
      "plenty (116 + m) (w_heap w3)" "fm_state (w_mem w3) = fm_state (w_mem w)" "st_map f w3 = st_map f w"
      "\<And>c j. evt_at w3 c j = (if c = co \<and> j = 2 then Some (rm_evt None co) else evt_at w2 c j)"
      "room_at 6 (Suc 0) w3 (evttable s2)" "w_out w3 = w_out w"
      "\<And>x. x \<noteq> evttable s2 \<Longrightarrow> w_table w3 x = w_table w2 x"
    by (auto simp: sizes 2)
  have e3: "evt_at w3 co 4 = None" "fm_state (w_mem w3) co = Some s2" "nc \<in> dom (fm_state (w_mem w3))"
    using none s d 1(7) 2(7) 3(5,7) by simp_all
  from add_evt_plenty [OF 3(2) e3(2,3) 3(8) e3(1) 3(4), where m = m and desc = "[]" and act = None]
  obtain w4 where 4: "state_add_evt co 4 [] None (Some nc) w3 = Some (ST_OK, w4)" "life_inv f w4" "balanced f w3 f w4"
      "plenty m (w_heap w4)" "fm_state (w_mem w4) = fm_state (w_mem w)" "st_map f w4 = st_map f w"
      "\<And>c j. evt_at w4 c j = (if c = co \<and> j = 4 then Some (rm_evt None nc) else evt_at w3 c j)"
      "w_out w4 = w_out w" "\<And>x. x \<noteq> evttable s2 \<Longrightarrow> w_table w4 x = w_table w3 x"
    by (auto simp: sizes 3)
  have "rm_add_evts nc co w = Some (False, w4)"
    using 1(1) 2(1) 3(1) 4(1) by (simp add: rm_add_evts_def EVT_NO_START_COMMENT_def EVT_NO_END_COMMENT_def
        EVT_START_COMMENT_def EVT_END_COMMENT_def)
  moreover have "balanced f w f w4" by (rule balanced_trans [OF balanced_trans [OF balanced_trans [OF 1(3) 2(3)] 3(3)] 4(3)])
  moreover have "w_table w4 (f_sttable f) = w_table w (f_sttable f)" using ne 2(9) 3(10) 4(9) by simp
  ultimately show thesis using 4(2,4-6,8) s(3) by (intro that) (assumption | simp add: 1(7) 2(7) 3(7) 4(7))+
qed

lemma built_states:
  assumes ok: "heap_ok (w_heap w0)" and none: "fm_state (w_mem w0) = Map.empty" and p: "plenty (10609 + m) (w_heap w0)"
  obtains f w1 nc w2 co w s1 s2 where
    "fsm_init (push_bit 8 2) 5 0 w0 = Some ((FSM_OK, Some f), w1)"
    "state_init g1 (push_bit 5 2) 2 w1 = Some ((ST_OK, Some nc), w2)"
    "state_init g2 (push_bit 5 2) 2 w2 = Some ((ST_OK, Some co), w)"
    "life_inv f w" "mset (hp_live (w_heap w)) = mset (hp_live (w_heap w0)) + owned f w"
    "hp_bad (w_heap w) = hp_bad (w_heap w0)" "plenty m (w_heap w)"
    "fm_state (w_mem w) nc = Some s1" "fm_state (w_mem w) co = Some s2" "nc \<noteq> co" "dom (fm_state (w_mem w)) = {nc, co}"
    "\<forall>j. evt_at w nc j = None" "\<forall>j. evt_at w co j = None"
    "room_at 6 2 w (evttable s1)" "room_at 6 2 w (evttable s2)" "room_at 9 2 w (f_sttable f)"
    "st_map f w = Map.empty" "f_cstate f = None" "w_out w = w_out w0"
proof -
  have k9: "(9 :: nat) \<le> 43" and k6: "(6 :: nat) \<le> 43" by simp_all
  have b: "(push_bit 8 2 :: size_t) = 2 ^ 9" "(push_bit 5 2 :: size_t) = 2 ^ 6" by (simp_all add: push_bit_eq_mult)
  note sizes = sizeof_fsm_def sizeof_htable_def sizeof_pqhead_def sizeof_mutex_def sizeof_state_def sizeof_uint_def
  from init_plenty [OF ok none k9 p, of 0 "2248 + m" 5] obtain f w1 where
    1: "fsm_init (2 ^ 9) 5 0 w0 = Some ((FSM_OK, Some f), w1)" "plenty (2248 + m) (w_heap w1)" "room_at 9 2560 w1 (f_sttable f)"
      "w_out w1 = w_out w0" "w_mem w1 = w_mem w0" "f_cstate f = None" by (auto simp: sizes)
  note S = init_started [OF ok none k9 1(1)]
  have sm1: "st_map f w1 = Map.empty" using fsm_init_ok [OF ok none k9, of 5 0] 1(1) by auto
  from new_state_plenty [OF S(1) k6 1(2), of "1124 + m" g1 2] obtain nc s1 w2 where
    2: "state_init g1 (2 ^ 6) 2 w1 = Some ((ST_OK, Some nc), w2)" "life_inv f w2" "balanced f w1 f w2" "plenty (1124 + m) (w_heap w2)"
      "fm_state (w_mem w2) = [nc \<mapsto> s1]" "st_map f w2 = Map.empty" "room_at 6 128 w2 (evttable s1)"
      "\<forall>j. evt_at w2 nc j = None" "w_out w2 = w_out w0" "\<And>x. x \<in># owned f w1 \<Longrightarrow> w_table w2 x = w_table w1 x"
    by (auto simp: sizes 1 none sm1)
  from new_state_plenty [OF 2(2) k6 2(4), of m g2 2] obtain co s2 w where
    3: "state_init g2 (2 ^ 6) 2 w2 = Some ((ST_OK, Some co), w)" "life_inv f w" "balanced f w2 f w" "plenty m (w_heap w)"
      "co \<noteq> nc" "fm_state (w_mem w) = [nc \<mapsto> s1, co \<mapsto> s2]" "fm_cell (w_mem w) = fm_cell (w_mem w2) \<and> fm_event (w_mem w) = fm_event (w_mem w2)"
      "st_map f w = Map.empty" "room_at 6 128 w (evttable s2)"
      "\<forall>j. evt_at w co j = None" "w_out w = w_out w0" "\<And>x. x \<in># owned f w2 \<Longrightarrow> w_table w x = w_table w2 x"
    by (auto simp: sizes 2)
  have s: "fm_state (w_mem w2) nc = Some s1" "fm_state (w_mem w) nc = Some s1" "fm_state (w_mem w) co = Some s2"
    using 2(5) 3(5,6) by simp_all
  have o: "f_sttable f \<in># owned f w1" "f_sttable f \<in># owned f w2" "evttable s1 \<in># owned f w2"
    using st_own_mem(2) [OF s(1)] 2(5) by (simp_all add: owned_def fsm_own_mem)
  note T = 2(10) [OF o(1)] 3(12) [OF o(2)] 3(12) [OF o(3)]
  have st: "room_at 9 2 w (f_sttable f)" using 1(3) T by (auto simp: room_at_def room_def)
  have e1: "room_at 6 2 w (evttable s1)" using 2(7) T by (auto simp: room_at_def room_def)
  have e2: "room_at 6 2 w (evttable s2)" using 3(9) by (auto simp: room_at_def room_def)
  have nc: "\<forall>j. evt_at w nc j = None" using 2(8) s(1,2) T(3) 3(7) by (simp add: evt_at_def ht_map_def ht_pairs_def)
  have bal: "balanced f w1 f w" by (rule balanced_trans [OF 2(3) 3(3)])
  have live: "mset (hp_live (w_heap w)) = mset (hp_live (w_heap w0)) + owned f w"
    using bal S(2) unfolding balanced_def by simp
  have bad: "hp_bad (w_heap w) = hp_bad (w_heap w0)" using bal S(3) by (simp add: balanced_def)
  have d: "dom (fm_state (w_mem w)) = {nc, co}" using 3(6) by auto
  show thesis
    by (rule that [OF _ _ _ 3(2) live bad 3(4) s(2,3) 3(5) [symmetric] d nc 3(10) e1 e2 st 3(8) 1(6) 3(11)])
      (use b 1(1) 2(1) 3(1) in simp_all)
qed

lemma built:
  assumes ok: "heap_ok (w_heap w0)" and none: "fm_state (w_mem w0) = Map.empty" and p: "plenty 12000 (w_heap w0)"
  obtains f w nc co where
    "\<And>inp. rmcom_main early g1 g2 inp w0 =
      do { (f', w8) \<leftarrow> rm_file early inp f w; (_, w9) \<leftarrow> fsm_free f' w8; Some (True, w9) }"
    "rm_ready (mset (hp_live (w_heap w0))) f w nc co False" "w_out w = w_out w0" "hp_bad (w_heap w) = hp_bad (w_heap w0)"
proof -
  have p': "plenty (10609 + 528) (w_heap w0)" by (rule plenty_le [OF p]) simp
  obtain f w1 nc w2 co w3 s1 s2 where
    i: "fsm_init (push_bit 8 2) 5 0 w0 = Some ((FSM_OK, Some f), w1)"
      "state_init g1 (push_bit 5 2) 2 w1 = Some ((ST_OK, Some nc), w2)"
      "state_init g2 (push_bit 5 2) 2 w2 = Some ((ST_OK, Some co), w3)" and inv: "life_inv f w3"
    and live: "mset (hp_live (w_heap w3)) = mset (hp_live (w_heap w0)) + owned f w3"
    and bad: "hp_bad (w_heap w3) = hp_bad (w_heap w0)" and p3: "plenty 528 (w_heap w3)"
    and s: "fm_state (w_mem w3) nc = Some s1" "fm_state (w_mem w3) co = Some s2" "nc \<noteq> co" "dom (fm_state (w_mem w3)) = {nc, co}"
    and e: "\<forall>j. evt_at w3 nc j = None" "\<forall>j. evt_at w3 co j = None"
    and r: "room_at 6 2 w3 (evttable s1)" "room_at 6 2 w3 (evttable s2)" "room_at 9 2 w3 (f_sttable f)"
    and st: "st_map f w3 = Map.empty" "f_cstate f = None" "w_out w3 = w_out w0"
    by (rule built_states [OF ok none p', of g1 g2]) (rule that)
  have p4: "plenty (464 + 64) (w_heap w3)" using p3 by simp
  obtain w4 where 4: "rm_add_evts nc co w3 = Some (False, w4)" "life_inv f w4" "balanced f w3 f w4" "plenty 64 (w_heap w4)"
    "fm_state (w_mem w4) = fm_state (w_mem w3)" "st_map f w4 = st_map f w3"
    "evt_at w4 nc 1 = Some (rm_evt (Some PRINT_CHAR) nc)" "evt_at w4 nc 3 = Some (rm_evt None co)"
    "evt_at w4 co 2 = Some (rm_evt None co)" "evt_at w4 co 4 = Some (rm_evt None nc)"
    "w_out w4 = w_out w3" "w_table w4 (f_sttable f) = w_table w3 (f_sttable f)"
    by (rule built_evts [OF inv s(1-3) e r(1,2) p4]) (rule that)
  have r4: "room_at 9 (Suc (Suc 0)) w4 (f_sttable f)" using r(3) 4(12) by (simp add: room_at_def numeral_2_eq_2)
  have a4: "fm_state (w_mem w4) nc = Some s1" "Some nc \<notin> ran (st_map f w4)" "f_cstate f \<noteq> Some nc" "1 \<notin> dom (st_map f w4)"
    using s(1) 4(5,6) st by simp_all
  from add_state_plenty [OF 4(2) a4 r4 4(4), of 32] obtain w5 where
    5: "fsm_add_state f 1 nc w4 = Some (FSM_OK, w5)" "life_inv f w5" "balanced f w4 f w5" "plenty 32 (w_heap w5)"
      "fm_state (w_mem w5) = fm_state (w_mem w3)" "st_map f w5 = [1 \<mapsto> Some nc]"
      "\<And>b j. evt_at w5 b j = evt_at w4 b j" "key_at w5 nc = Some 1"
      "room_at 9 (Suc 0) w5 (f_sttable f)" "w_out w5 = w_out w0"
    by (auto simp: sizeof_hnode_def 4 st)
  have a5: "fm_state (w_mem w5) co = Some s2" "Some co \<notin> ran (st_map f w5)" "f_cstate f \<noteq> Some co" "2 \<notin> dom (st_map f w5)"
    using s(2,3) 5(5,6) st by simp_all
  from add_state_plenty [OF 5(2) a5 5(9) 5(4), of 0] obtain w6 where
    6: "fsm_add_state f 2 co w5 = Some (FSM_OK, w6)" "life_inv f w6" "balanced f w5 f w6"
      "fm_state (w_mem w6) = fm_state (w_mem w3)" "st_map f w6 = [1 \<mapsto> Some nc, 2 \<mapsto> Some co]"
      "\<And>b j. evt_at w6 b j = evt_at w4 b j" "key_at w6 nc = Some 1" "key_at w6 co = Some 2"
      "room_at 9 0 w6 (f_sttable f)" "w_out w6 = w_out w0"
    using s(3) by (auto simp: sizeof_hnode_def 5)
  have sm: "st_map f w6 1 = Some (Some nc)" using 6(5) by simp
  from set_state_ok [OF lifeD(1,2) [OF 6(2)], of 1] sm obtain w7 where
    7: "fsm_set_state f 1 w6 = Some ((FSM_OK, f\<lparr>f_cstate := Some nc\<rparr>), w7)" and fl: "flags_only w6 w7" by auto
  note D = drive_ok [OF fsm_step.set_state [OF 7] 6(2) no_action_quiet]
  have bal: "balanced f w3 (f\<lparr>f_cstate := Some nc\<rparr>) w7"
    by (rule balanced_trans [OF 4(3) balanced_trans [OF 5(3) balanced_trans [OF 6(3) D(2)]]])
  have "mset (hp_live (w_heap w7)) = mset (hp_live (w_heap w0)) + owned (f\<lparr>f_cstate := Some nc\<rparr>) w7"
    using bal live unfolding balanced_def by simp
  moreover have "room_at 9 0 w7 (f_sttable (f\<lparr>f_cstate := Some nc\<rparr>))"
    using 6(9) flags_only_mem [OF fl] by (simp add: room_at_def)
  moreover have "dom (fm_state (w_mem w7)) = {nc, co}" using D(5) 6(4) s(4) by simp
  ultimately have "rm_ready (mset (hp_live (w_heap w0))) (f\<lparr>f_cstate := Some nc\<rparr>) w7 nc co False"
    using D(1,4,6,7) 6(5-8) 4(7-10) by (simp add: rm_ready_def)
  moreover have "w_out w7 = w_out w0" using fl 6(10) by (simp add: flags_only_def)
  moreover have "hp_bad (w_heap w7) = hp_bad (w_heap w0)" using bal bad by (simp add: balanced_def)
  moreover have "rmcom_main early g1 g2 inp w0 = do { (f', w8) \<leftarrow> rm_file early inp (f\<lparr>f_cstate := Some nc\<rparr>) w7;
      (_, w9) \<leftarrow> fsm_free f' w8; Some (True, w9) }" for inp
    using i 4(1) 5(1) 6(1) 7 by (simp add: rmcom_main_def ST_NO_COMMENT_def ST_COMMENT_def)
  ultimately show thesis by (intro that [of "f\<lparr>f_cstate := Some nc\<rparr>" w7 nc co])
qed

section \<open>The program as a whole\<close>

lemma ready_free:
  assumes r: "rm_ready L f w nc co com"
  obtains w' where "fsm_free f w = Some (FSM_OK, w')" "mset (hp_live (w_heap w')) = L"
    "hp_bad (w_heap w') = hp_bad (w_heap w)" "w_out w' = w_out w"
proof -
  have r': "life_inv f w" "room_at 9 0 w (f_sttable f)" "mset (hp_live (w_heap w)) = L + owned f w" using r by (simp_all add: rm_ready_def)
  have keys: "\<exists>k. st_map f w k = Some (Some a) \<and> unat k < 2 ^ 9 - 1" if "a \<in> dom (fm_state (w_mem w))" for a
  proof -
    have "st_map f w 1 = Some (Some a) \<or> st_map f w 2 = Some (Some a)" using r that by (auto simp: rm_ready_def)
    then show ?thesis by (elim disjE) (rule exI, rule conjI, assumption, simp)+
  qed
  show thesis by (rule free_all [OF r'(1,2) _ keys r'(3)]) (simp, assumption, rule that)
qed

lemma rmcom_run:
  assumes b: "\<And>inp. rmcom_main early g1 g2 inp w0 =
      do { (f', w8) \<leftarrow> rm_file early inp f w; (_, w9) \<leftarrow> fsm_free f' w8; Some (True, w9) }"
    and w: "w_out w = w_out w0" "hp_bad (w_heap w) = hp_bad (w_heap w0)"
    and run: "rm_file early inp f w = Some (f', w_print out w)"
      "rm_ready (mset (hp_live (w_heap w0))) f' (w_print out w) nc co com"
  shows "\<exists>w'. rmcom_main early g1 g2 inp w0 = Some (True, w') \<and> w_out w' = w_out w0 @ out \<and>
    mset (hp_live (w_heap w')) = mset (hp_live (w_heap w0)) \<and> hp_bad (w_heap w') = hp_bad (w_heap w0)"
proof -
  obtain w' where "fsm_free f' (w_print out w) = Some (FSM_OK, w')" "mset (hp_live (w_heap w')) = mset (hp_live (w_heap w0))"
    "hp_bad (w_heap w') = hp_bad (w_heap (w_print out w))" "w_out w' = w_out (w_print out w)" by (rule ready_free [OF run(2)])
  then show ?thesis using w run(1) by (simp add: b w_print_def)
qed

lemma copied_none:
  "\<nexists>xs ys. inp = xs @ [47, 42] @ ys \<Longrightarrow> inp \<noteq> [] \<Longrightarrow> copied False False inp = (tl inp @ [0], False)"
proof (induction "False" "False" inp rule: copied.induct)
  case (3 c d cs)
  have "\<not> (c = 47 \<and> d = 42)" using 3(5) by (metis append_Cons append_Nil)
  moreover have "\<nexists>xs ys. d # cs = xs @ [47, 42] @ ys" using 3(5) by (metis append_Cons)
  ultimately show ?case using 3(4) by auto
qed auto

lemma fgets_all: "10 \<notin> set inp \<Longrightarrow> length inp < n \<Longrightarrow> fgets_line n inp = (inp, [], True)"
  by (induction n inp rule: fgets_line.induct) (auto split: prod.splits)

definition rm_start :: world where
  \<comment> \<open>An empty heap of 20000 bytes.\<close>
  "rm_start = lf_world\<lparr>w_heap := (lf_heap 16 [])\<lparr>hp_limit := 20000\<rparr>\<rparr>"

lemma rm_start_ok: "heap_ok (w_heap rm_start)" "fm_state (w_mem rm_start) = Map.empty" "plenty 12000 (w_heap rm_start)"
  "w_out rm_start = []" "hp_live (w_heap rm_start) = []"
  by (simp_all add: rm_start_def lf_world_def lf_heap_def heap_ok_def heap_wf_def plenty_def)

text \<open>C9: When \<open>p\<close> is read before \<open>get_evt_key\<close> advances it, no line is longer than the buffer and memory
  suffices, the program prints exactly the text without its comments and releases every block it
  obtained: the machine driven by events refines a direct scan of the text.\<close>

theorem rmcom_strips:
  assumes "heap_ok (w_heap w0)" "fm_state (w_mem w0) = Map.empty" "plenty 12000 (w_heap w0)"
    and "0 \<notin> set inp" "short_lines 0 inp"
  shows "\<exists>w'. rmcom_main True g1 g2 inp w0 = Some (True, w') \<and>
    w_out w' = w_out w0 @ map (char_of \<circ> unat) (strip inp) \<and>
    mset (hp_live (w_heap w')) = mset (hp_live (w_heap w0)) \<and> hp_bad (w_heap w') = hp_bad (w_heap w0)"
proof -
  obtain f w nc co where
    b: "\<And>inp. rmcom_main True g1 g2 inp w0 = do { (f', w8) \<leftarrow> rm_file True inp f w; (_, w9) \<leftarrow> fsm_free f' w8; Some (True, w9) }"
      "rm_ready (mset (hp_live (w_heap w0))) f w nc co False" "w_out w = w_out w0" "hp_bad (w_heap w) = hp_bad (w_heap w0)"
    by (rule built [OF assms(1-3), of True g1 g2]) (rule that)
  from rm_file_ok [OF b(2) assms(4,5)] show ?thesis unfolding strip_def by (blast intro: rmcom_run [OF b(1,3,4)])
qed

lemma rmcom_strips_witness:
  \<comment> \<open>\<open>a/*b*/c\<close>\<close>
  "\<exists>w'. rmcom_main True 0 0 [97, 47, 42, 98, 42, 47, 99, 10] rm_start = Some (True, w') \<and> w_out w' = ''ac'' @ [CHR 0x0A] \<and>
    hp_live (w_heap w') = []"
proof -
  have "strip [97, 47, 42, 98, 42, 47, 99, 10] = [97, 99, 10]" by (simp add: strip_def)
  with rmcom_strips [OF rm_start_ok(1-3), of "[97, 47, 42, 98, 42, 47, 99, 10]" 0 0] rm_start_ok(4,5) show ?thesis
    by (auto simp: char_of_def bit_0)
qed

text \<open>When \<open>p\<close> is read late, a line without comments comes out without its first character, and with a NUL
  at its end.\<close>

theorem rmcom_late:
  assumes "heap_ok (w_heap w0)" "fm_state (w_mem w0) = Map.empty" "plenty 12000 (w_heap w0)"
    and "0 \<notin> set inp" "10 \<notin> set inp" "length inp < 255" "inp \<noteq> []" "\<nexists>xs ys. inp = xs @ [47, 42] @ ys"
  shows "\<exists>w'. rmcom_main False g1 g2 inp w0 = Some (True, w') \<and> w_out w' = w_out w0 @ map (char_of \<circ> unat) (tl inp @ [0])"
proof -
  obtain f w nc co where
    b: "\<And>inp. rmcom_main False g1 g2 inp w0 = do { (f', w8) \<leftarrow> rm_file False inp f w; (_, w9) \<leftarrow> fsm_free f' w8; Some (True, w9) }"
      "rm_ready (mset (hp_live (w_heap w0))) f w nc co False" "w_out w = w_out w0" "hp_bad (w_heap w) = hp_bad (w_heap w0)"
    by (rule built [OF assms(1-3), of False g1 g2]) (rule that)
  have l: "drop 0 (inp @ replicate (256 - length inp) 0) = inp @ (0 :: 8 word) # replicate (255 - length inp) 0"
    using assms(6) by (simp add: Suc_diff_le flip: replicate_Suc)
  from rm_line_ok [where early = False, OF b(2) l assms(4)] copied_none [OF assms(8,7)]
  obtain f' where f': "rm_line False (inp @ replicate (256 - length inp) 0) 0 f w = Some (f', w_print (map (char_of \<circ> unat) (tl inp @ [0])) w)"
      "rm_ready (mset (hp_live (w_heap w0))) f' (w_print (map (char_of \<circ> unat) (tl inp @ [0])) w) nc co False" by auto
  have "rm_file False inp f w = Some (f', w_print (map (char_of \<circ> unat) (tl inp @ [0])) w)"
    using f'(1) fgets_all [OF assms(5,6)] by (subst rm_file.simps) simp
  from rmcom_run [OF b(1,3,4) this f'(2)] show ?thesis by blast
qed

end
