(* ===== verification/Fsm_Stress.thy ===== *)
theory Fsm_Stress imports Fsm_Plenty begin

text \<open>
  The client \<open>fsm/test_stress.c\<close>: twenty states with twenty events each, all of which lead back to their state,
  and a hundred thousand random events. \<open>rnd\<close> gives the numbers that \<open>rand\<close> returns, in order.
\<close>

section \<open>The program\<close>

definition NSTATES :: nat where "NSTATES = 20"
definition NEVENTS :: nat where "NEVENTS = 20"
definition NEPOCHS :: nat where "NEPOCHS = 100000"

definition FOO1 :: nat where "FOO1 = 0"
definition FOO2 :: nat where "FOO2 = 1"

definition stress_exec :: exec_t where
  \<comment> \<open>\<open>foo1\<close> and \<open>foo2\<close> do nothing.\<close>
  "stress_exec act data f w = Some (f, w)"

definition pf :: "nat option list" where
  "pf = [Some FOO1, Some FOO2, None]"

fun stress_init :: "(nat \<Rightarrow> 8 word) \<Rightarrow> nat \<Rightarrow> addr list \<Rightarrow> world \<Rightarrow> ((bool \<times> addr list) \<times> world) option" where
  \<comment> \<open>The states still to be made, and those made so far.\<close>
  "stress_init g 0 st w = Some ((True, st), w)"
| "stress_init g (Suc n) st w =
     do { ((_, r), w1) \<leftarrow> state_init (g (length st)) (push_bit 12 2) 2 w;
          case r of None \<Rightarrow> Some ((False, st), w1) | Some a \<Rightarrow> stress_init g n (st @ [a]) w1 }"

fun stress_free :: "addr list \<Rightarrow> world \<Rightarrow> world option" where
  "stress_free [] w = Some w"
| "stress_free (a # as) w = do { (_, w1) \<leftarrow> state_free a w; stress_free as w1 }"

fun stress_events :: "(nat \<Rightarrow> nat) \<Rightarrow> addr \<Rightarrow> nat list \<Rightarrow> nat \<Rightarrow> world \<Rightarrow> (bool \<times> world) option" where
  \<comment> \<open>The inner loop; \<open>c\<close> numbers the calls of \<open>rand\<close>.\<close>
  "stress_events rnd a [] c w = Some (True, w)"
| "stress_events rnd a (j # js) c w =
     do { (r, w1) \<leftarrow> state_add_evt a (of_nat j) [] (pf ! (rnd c mod 3)) (Some a) w;
          if r = ST_NOMEM then Some (False, w1) else stress_events rnd a js (c + 1) w1 }"

fun stress_table :: "(nat \<Rightarrow> nat) \<Rightarrow> nat \<Rightarrow> addr list \<Rightarrow> world \<Rightarrow> (nat option \<times> world) option" where
  \<comment> \<open>The outer loop, and the state at which it failed.\<close>
  "stress_table rnd i [] w = Some (None, w)"
| "stress_table rnd i (a # as) w =
     do { (ok, w1) \<leftarrow> stress_events rnd a [0..<NEVENTS] (i * NEVENTS) w;
          if ok then stress_table rnd (i + 1) as w1 else Some (Some i, w1) }"

fun stress_add :: "fsm_t \<Rightarrow> nat \<Rightarrow> addr list \<Rightarrow> world \<Rightarrow> world option" where
  "stress_add f i [] w = Some w"
| "stress_add f i (a # as) w = do { (_, w1) \<leftarrow> fsm_add_state f (of_nat i) a w; stress_add f (i + 1) as w1 }"

fun stress_loop :: "(nat \<Rightarrow> nat) \<Rightarrow> nat \<Rightarrow> nat \<Rightarrow> fsm_t \<Rightarrow> world \<Rightarrow> (fsm_t \<times> world) option" where
  "stress_loop rnd 0 c f w = Some (f, w)"
| "stress_loop rnd (Suc n) c f w =
     do { ((_, f1), w1) \<leftarrow> fsm_process_event stress_exec f (of_nat (rnd c mod NEVENTS)) None w;
          stress_loop rnd n (c + 1) f1 w1 }"

definition stress_main :: "(nat \<Rightarrow> 8 word) \<Rightarrow> (nat \<Rightarrow> nat) \<Rightarrow> world \<Rightarrow> (bool \<times> world) option" where
  \<comment> \<open>\<open>main\<close> without its messages: whether it exits with \<open>EXIT_SUCCESS\<close>. A failed \<open>fsm_init\<close> is not noticed; using
      its null pointer is undefined.\<close>
  "stress_main g rnd w =
     do { ((_, fsm), w1) \<leftarrow> fsm_init (push_bit 11 2) 5 0 w;
          ((ok, st), w2) \<leftarrow> stress_init g NSTATES [] w1;
          if \<not> ok then do { w3 \<leftarrow> stress_free st w2; f \<leftarrow> fsm; (_, w4) \<leftarrow> fsm_free f w3; Some (False, w4) }
          else do {
            (failed, w3) \<leftarrow> stress_table rnd 0 st w2;
            case failed of
              Some i \<Rightarrow> do { w4 \<leftarrow> stress_free (take i st) w3; f \<leftarrow> fsm; (_, w5) \<leftarrow> fsm_free f w4; Some (False, w5) }
            | None \<Rightarrow> do {
                f \<leftarrow> fsm;
                w4 \<leftarrow> stress_add f 0 st w3;
                ((_, f1), w5) \<leftarrow> fsm_set_state f 0 w4;
                (f2, w6) \<leftarrow> stress_loop rnd NEPOCHS (NSTATES * NEVENTS) f1 w5;
                (_, w7) \<leftarrow> fsm_free f2 w6;
                Some (True, w7) } } }"

section \<open>Making the states\<close>

abbreviation plain_evt :: "nat option \<Rightarrow> addr \<Rightarrow> event_t" where
  "plain_evt act b \<equiv> \<lparr>evt_desc = strncpy [] MAX_EVT_DESC, evt_actionf = act, evt_newstate = Some b\<rparr>"

definition st_fresh :: "world \<Rightarrow> addr \<Rightarrow> bool" where
  "st_fresh w a \<longleftrightarrow> (\<exists>s. fm_state (w_mem w) a = Some s \<and> room_at 13 20 w (evttable s)) \<and> (\<forall>j. evt_at w a j = None)"

lemma fresh_kept:
  assumes "st_fresh w a" "fm_state (w_mem w') a = fm_state (w_mem w) a" "\<And>j. evt_at w' a j = evt_at w a j"
    "\<And>s. fm_state (w_mem w) a = Some s \<Longrightarrow> w_table w' (evttable s) = w_table w (evttable s)"
  shows "st_fresh w' a"
  using assms by (auto simp: st_fresh_def room_at_def)

lemma state_table_owned:
  assumes "life_inv f w" "fm_state (w_mem w) a = Some s"
  shows "evttable s \<in># owned f w"
proof -
  have "sum (st_own w) (dom (fm_state (w_mem w))) = st_own w a + sum (st_own w) (dom (fm_state (w_mem w)) - {a})"
    by (rule sum.remove [OF lifeD(4) [OF assms(1)]]) (use assms(2) in auto)
  then show ?thesis using st_own_mem(2) [OF assms(2)] by (simp add: owned_def)
qed

lemma stress_init_ok:
  "life_inv f w \<Longrightarrow> distinct st \<Longrightarrow> set st = dom (fm_state (w_mem w)) \<Longrightarrow> \<forall>a\<in>set st. st_fresh w a \<Longrightarrow>
    plenty (n * 131172 + m) (w_heap w) \<Longrightarrow>
    \<exists>st' w'. stress_init g n st w = Some ((True, st'), w') \<and> length st' = length st + n \<and> distinct st' \<and>
      set st' = dom (fm_state (w_mem w')) \<and> (\<forall>a\<in>set st'. st_fresh w' a) \<and> life_inv f w' \<and> balanced f w f w' \<and>
      plenty m (w_heap w') \<and> st_map f w' = st_map f w \<and> w_table w' (f_sttable f) = w_table w (f_sttable f)"
proof (induction n arbitrary: st w)
  case (Suc n)
  have k: "(13 :: nat) \<le> 43" by simp
  have "sizeof_state + sizeof_htable + 2 ^ (13 + 4) + sizeof_uint + (n * 131172 + m) \<le> Suc n * 131172 + m"
    by (simp add: sizeof_state_def sizeof_htable_def sizeof_uint_def)
  from new_state_plenty [OF Suc.prems(1) k Suc.prems(5) this, of "g (length st)" 2] obtain a s w1 where
    1: "state_init (g (length st)) (2 ^ 13) 2 w = Some ((ST_OK, Some a), w1)" "life_inv f w1" "balanced f w f w1"
      "plenty (n * 131172 + m) (w_heap w1)" "a \<notin> dom (fm_state (w_mem w))" "fm_state (w_mem w1) = (fm_state (w_mem w))(a \<mapsto> s)"
      "fm_cell (w_mem w1) = fm_cell (w_mem w)" "fm_event (w_mem w1) = fm_event (w_mem w)" "st_map f w1 = st_map f w"
      "room_at 13 (unat (ucast (2 :: 32 word) * 2 ^ 13 :: size_t)) w1 (evttable s)" "\<forall>j. evt_at w1 a j = None"
      "\<forall>x. x \<in># owned f w \<longrightarrow> w_table w1 x = w_table w x" by blast
  have b: "(push_bit 12 2 :: size_t) = 2 ^ 13" by (simp add: push_bit_eq_mult)
  have st: "w_table w1 (f_sttable f) = w_table w (f_sttable f)" using 1(12) by (simp add: owned_def fsm_own_mem)
  have old: "st_fresh w1 c" if c: "c \<in> set st" for c
  proof -
    obtain sc where sc: "fm_state (w_mem w) c = Some sc" using c Suc.prems(3) by blast
    have ne: "c \<noteq> a" using c 1(5) Suc.prems(3) by blast
    have "evttable sc \<in># owned f w" by (rule state_table_owned [OF Suc.prems(1) sc])
    then have t: "w_table w1 (evttable sc) = w_table w (evttable sc)" using 1(12) by blast
    show ?thesis
      by (rule fresh_kept [of w]) (use Suc.prems(4) c sc ne t 1(6-8) in \<open>auto simp: evt_at_def ht_map_def ht_pairs_def\<close>)
  qed
  have new: "st_fresh w1 a" using 1(6,10,11) by (auto simp: st_fresh_def room_at_def room_def)
  have run: "stress_init g (Suc n) st w = stress_init g n (st @ [a]) w1" using 1(1) b by simp
  have "\<exists>st' w'. stress_init g n (st @ [a]) w1 = Some ((True, st'), w') \<and> length st' = length (st @ [a]) + n \<and> distinct st' \<and>
      set st' = dom (fm_state (w_mem w')) \<and> (\<forall>a\<in>set st'. st_fresh w' a) \<and> life_inv f w' \<and> balanced f w1 f w' \<and>
      plenty m (w_heap w') \<and> st_map f w' = st_map f w1 \<and> w_table w' (f_sttable f) = w_table w1 (f_sttable f)"
    by (rule Suc.IH [OF 1(2) _ _ _ 1(4)]) (use Suc.prems(2,3) 1(5,6) old new in auto)
  then obtain st' w' where r: "stress_init g n (st @ [a]) w1 = Some ((True, st'), w')" "length st' = length (st @ [a]) + n"
    "distinct st'" "set st' = dom (fm_state (w_mem w'))" "\<forall>a\<in>set st'. st_fresh w' a" "life_inv f w'" "balanced f w1 f w'"
    "plenty m (w_heap w')" "st_map f w' = st_map f w1" "w_table w' (f_sttable f) = w_table w1 (f_sttable f)" by blast
  show ?case unfolding run using r 1(9) st balanced_trans [OF 1(3) r(7)] by (intro exI [of _ st'] exI [of _ w']) simp
qed auto

section \<open>Filling the tables\<close>

lemma key_inj: "i < 2 ^ 32 \<Longrightarrow> j < 2 ^ 32 \<Longrightarrow> (of_nat i :: 32 word) = of_nat j \<longleftrightarrow> i = j"
proof -
  assume ij: "i < 2 ^ 32" "j < 2 ^ 32"
  have u: "unat (of_nat n :: 32 word) = n" if "n < 2 ^ 32" for n using that by (simp add: unsigned_of_nat take_bit_nat_eq_self)
  show ?thesis using u [OF ij(1)] u [OF ij(2)] by metis
qed

lemma stress_events_ok:
  "life_inv f w \<Longrightarrow> fm_state (w_mem w) a = Some s \<Longrightarrow> room_at 13 (length js) w (evttable s) \<Longrightarrow> distinct js \<Longrightarrow>
    \<forall>j\<in>set js. j < 2 ^ 32 \<and> evt_at w a (of_nat j) = None \<Longrightarrow> plenty (length js * 116 + m) (w_heap w) \<Longrightarrow>
    \<exists>w'. stress_events rnd a js c w = Some (True, w') \<and> life_inv f w' \<and> balanced f w f w' \<and> plenty m (w_heap w') \<and>
      fm_state (w_mem w') = fm_state (w_mem w) \<and> st_map f w' = st_map f w \<and>
      (\<forall>b k. b \<noteq> a \<or> k \<notin> of_nat ` set js \<longrightarrow> evt_at w' b k = evt_at w b k) \<and>
      (\<forall>j\<in>set js. \<exists>act. evt_at w' a (of_nat j) = Some (plain_evt act a)) \<and>
      (\<forall>x. x \<noteq> evttable s \<longrightarrow> w_table w' x = w_table w x)"
proof (induction js arbitrary: c w)
  case (Cons j js)
  let ?act = "pf ! (rnd c mod 3)"
  have b: "a \<in> dom (fm_state (w_mem w))" using Cons.prems(2) by blast
  have r: "room_at 13 (Suc (length js)) w (evttable s)" using Cons.prems(3) by simp
  have n: "evt_at w a (of_nat j) = None" using Cons.prems(5) by simp
  have "sizeof_uint + sizeof_event + sizeof_hnode + (length js * 116 + m) \<le> length (j # js) * 116 + m"
    by (simp add: sizeof_uint_def sizeof_event_def sizeof_hnode_def)
  from add_evt_plenty [OF Cons.prems(1,2) b r n Cons.prems(6) this, of "[]" ?act] obtain w1 where
    1: "state_add_evt a (of_nat j) [] ?act (Some a) w = Some (ST_OK, w1)" "life_inv f w1" "balanced f w f w1"
      "plenty (length js * 116 + m) (w_heap w1)" "fm_state (w_mem w1) = fm_state (w_mem w)" "st_map f w1 = st_map f w"
      "\<forall>d k. evt_at w1 d k = (if d = a \<and> k = of_nat j then Some (plain_evt ?act a) else evt_at w d k)"
      "room_at 13 (length js) w1 (evttable s)" "\<forall>x. x \<noteq> evttable s \<longrightarrow> w_table w1 x = w_table w x" by blast
  have ne: "(of_nat i :: 32 word) \<noteq> of_nat j" if "i \<in> set js" for i
  proof -
    have "i \<noteq> j" "i < 2 ^ 32" "j < 2 ^ 32" using Cons.prems(4,5) that by auto
    then show ?thesis using key_inj by blast
  qed
  have "\<forall>i\<in>set js. i < 2 ^ 32 \<and> evt_at w1 a (of_nat i) = None" using Cons.prems(5) ne 1(7) by auto
  from Cons.IH [OF 1(2) _ 1(8) _ this 1(4), of "c + 1"] obtain w2 where
    2: "stress_events rnd a js (c + 1) w1 = Some (True, w2)" "life_inv f w2" "balanced f w1 f w2" "plenty m (w_heap w2)"
      "fm_state (w_mem w2) = fm_state (w_mem w1)" "st_map f w2 = st_map f w1"
      "\<forall>b k. b \<noteq> a \<or> k \<notin> of_nat ` set js \<longrightarrow> evt_at w2 b k = evt_at w1 b k"
      "\<forall>j\<in>set js. \<exists>act. evt_at w2 a (of_nat j) = Some (plain_evt act a)"
      "\<forall>x. x \<noteq> evttable s \<longrightarrow> w_table w2 x = w_table w1 x"
    using Cons.prems(2,4) 1(5) by auto
  have j: "evt_at w2 a (of_nat j) = Some (plain_evt ?act a)" using 2(7) 1(7) ne by (metis (no_types, lifting) imageE)
  have e: "\<forall>b k. b \<noteq> a \<or> k \<notin> of_nat ` set (j # js) \<longrightarrow> evt_at w2 b k = evt_at w b k" using 2(7) 1(7) by auto
  have run: "stress_events rnd a (j # js) c w = Some (True, w2)" using 1(1) 2(1) by simp
  have bal: "balanced f w f w2" by (rule balanced_trans [OF 1(3) 2(3)])
  show ?case using run bal e j 2(2,4-6,8,9) 1(5,6,9) by (intro exI [of _ w2]) simp
qed auto

lemma stress_table_ok:
  "life_inv f w \<Longrightarrow> distinct as \<Longrightarrow> set as \<subseteq> dom (fm_state (w_mem w)) \<Longrightarrow> \<forall>a\<in>set as. st_fresh w a \<Longrightarrow>
    plenty (length as * 2320 + m) (w_heap w) \<Longrightarrow>
    \<exists>w'. stress_table rnd i as w = Some (None, w') \<and> life_inv f w' \<and> balanced f w f w' \<and> plenty m (w_heap w') \<and>
      fm_state (w_mem w') = fm_state (w_mem w) \<and> st_map f w' = st_map f w \<and>
      (\<forall>b k. b \<notin> set as \<longrightarrow> evt_at w' b k = evt_at w b k) \<and>
      (\<forall>a\<in>set as. \<forall>j<NEVENTS. \<exists>act. evt_at w' a (of_nat j) = Some (plain_evt act a)) \<and>
      w_table w' (f_sttable f) = w_table w (f_sttable f)"
proof (induction "as" arbitrary: i w)
  case (Cons a "as")
  obtain s where s: "fm_state (w_mem w) a = Some s" "room_at 13 20 w (evttable s)" "\<forall>j. evt_at w a j = None"
    using Cons.prems(4) by (auto simp: st_fresh_def)
  have r: "room_at 13 (length [0..<NEVENTS]) w (evttable s)" using s(2) by (simp add: NEVENTS_def)
  have n: "\<forall>j\<in>set [0..<NEVENTS]. j < 2 ^ 32 \<and> evt_at w a (of_nat j) = None" using s(3) by (auto simp: NEVENTS_def)
  have p: "plenty (length [0..<NEVENTS] * 116 + (length as * 2320 + m)) (w_heap w)" using Cons.prems(5) by (simp add: NEVENTS_def add.assoc)
  from stress_events_ok [OF Cons.prems(1) s(1) r distinct_upt n p, of rnd "i * NEVENTS"] obtain w1 where
    1: "stress_events rnd a [0..<NEVENTS] (i * NEVENTS) w = Some (True, w1)" "life_inv f w1" "balanced f w f w1"
      "plenty (length as * 2320 + m) (w_heap w1)" "fm_state (w_mem w1) = fm_state (w_mem w)" "st_map f w1 = st_map f w"
      "\<forall>b k. b \<noteq> a \<or> k \<notin> of_nat ` set [0..<NEVENTS] \<longrightarrow> evt_at w1 b k = evt_at w b k"
      "\<forall>j\<in>set [0..<NEVENTS]. \<exists>act. evt_at w1 a (of_nat j) = Some (plain_evt act a)"
      "\<forall>x. x \<noteq> evttable s \<longrightarrow> w_table w1 x = w_table w x" by blast
  have fresh: "st_fresh w1 b" if b: "b \<in> set as" for b
  proof -
    have ne: "b \<noteq> a" using b Cons.prems(2) by auto
    have sep: "evttable sb \<noteq> evttable s" if "fm_state (w_mem w) b = Some sb" for sb
      using state_sep(2) [OF Cons.prems(1) s(1) that ne] by blast
    show ?thesis
      by (rule fresh_kept [of w]) (use Cons.prems(4) b ne sep 1(5,7,9) in \<open>simp_all\<close>)
  qed
  have st: "w_table w1 (f_sttable f) = w_table w (f_sttable f)" using 1(9) state_sep(1) [OF Cons.prems(1) s(1)] by auto
  have "\<exists>w'. stress_table rnd (i + 1) as w1 = Some (None, w') \<and> life_inv f w' \<and> balanced f w1 f w' \<and> plenty m (w_heap w') \<and>
      fm_state (w_mem w') = fm_state (w_mem w1) \<and> st_map f w' = st_map f w1 \<and>
      (\<forall>b k. b \<notin> set as \<longrightarrow> evt_at w' b k = evt_at w1 b k) \<and>
      (\<forall>a\<in>set as. \<forall>j<NEVENTS. \<exists>act. evt_at w' a (of_nat j) = Some (plain_evt act a)) \<and>
      w_table w' (f_sttable f) = w_table w1 (f_sttable f)"
    by (rule Cons.IH [OF 1(2) _ _ _ 1(4)]) (use Cons.prems(2,3) 1(5) fresh in auto)
  then obtain w2 where 2: "stress_table rnd (i + 1) as w1 = Some (None, w2)" "life_inv f w2" "balanced f w1 f w2" "plenty m (w_heap w2)"
      "fm_state (w_mem w2) = fm_state (w_mem w1)" "st_map f w2 = st_map f w1"
      "\<forall>b k. b \<notin> set as \<longrightarrow> evt_at w2 b k = evt_at w1 b k"
      "\<forall>a\<in>set as. \<forall>j<NEVENTS. \<exists>act. evt_at w2 a (of_nat j) = Some (plain_evt act a)"
      "w_table w2 (f_sttable f) = w_table w1 (f_sttable f)" by blast
  have na: "a \<notin> set as" using Cons.prems(2) by simp
  have row: "\<forall>j<NEVENTS. \<exists>act. evt_at w2 a (of_nat j) = Some (plain_evt act a)" using 1(8) 2(7) na by simp
  have run: "stress_table rnd i (a # as) w = Some (None, w2)" using 1(1) 2(1) by simp
  have bal: "balanced f w f w2" by (rule balanced_trans [OF 1(3) 2(3)])
  show ?case using run bal row 2(2,4-6,7-9) 1(5-7) st by (intro exI [of _ w2]) simp
qed auto

section \<open>Registering the states\<close>

lemma unat_key: "n < 2 ^ 32 \<Longrightarrow> unat (of_nat n :: 32 word) = n"
  by (simp add: unsigned_of_nat take_bit_nat_eq_self)

lemma stress_add_ok:
  "life_inv f w \<Longrightarrow> distinct as \<Longrightarrow> set as \<subseteq> dom (fm_state (w_mem w)) \<Longrightarrow> f_cstate f = None \<Longrightarrow>
    \<forall>a\<in>set as. Some a \<notin> ran (st_map f w) \<Longrightarrow> \<forall>k\<in>dom (st_map f w). unat k < i \<Longrightarrow> i + length as < 2 ^ 32 \<Longrightarrow>
    room_at 12 (length as) w (f_sttable f) \<Longrightarrow> plenty (length as * 32 + m) (w_heap w) \<Longrightarrow>
    \<exists>w'. stress_add f i as w = Some w' \<and> life_inv f w' \<and> balanced f w f w' \<and> plenty m (w_heap w') \<and>
      fm_state (w_mem w') = fm_state (w_mem w) \<and> (\<forall>b k. evt_at w' b k = evt_at w b k) \<and> room_at 12 0 w' (f_sttable f) \<and>
      (\<forall>n<length as. st_map f w' (of_nat (i + n)) = Some (Some (as ! n)) \<and> key_at w' (as ! n) = Some (of_nat (i + n))) \<and>
      (\<forall>k. unat k < i \<longrightarrow> st_map f w' k = st_map f w k) \<and> (\<forall>b. b \<notin> set as \<longrightarrow> key_at w' b = key_at w b)"
proof (induction "as" arbitrary: i w)
  case (Cons a "as")
  obtain s where s: "fm_state (w_mem w) a = Some s" using Cons.prems(3) by auto
  have i: "i < 2 ^ 32" using Cons.prems(7) by simp
  have new: "of_nat i \<notin> dom (st_map f w)"
  proof
    assume "of_nat i \<in> dom (st_map f w)"
    with Cons.prems(6) have "unat (of_nat i :: 32 word) < i" by blast
    then show False using unat_key [OF i] by simp
  qed
  have rm: "room_at 12 (Suc (length as)) w (f_sttable f)" using Cons.prems(8) by simp
  have un: "Some a \<notin> ran (st_map f w)" "f_cstate f \<noteq> Some a" using Cons.prems(4,5) by simp_all
  have "sizeof_hnode + (length as * 32 + m) \<le> length (a # as) * 32 + m" by (simp add: sizeof_hnode_def)
  from add_state_plenty [OF Cons.prems(1) s un new rm Cons.prems(9) this] obtain w1 where
    1: "fsm_add_state f (of_nat i) a w = Some (FSM_OK, w1)" "life_inv f w1" "balanced f w f w1" "plenty (length as * 32 + m) (w_heap w1)"
      "fm_state (w_mem w1) = fm_state (w_mem w)" "st_map f w1 = (st_map f w)(of_nat i \<mapsto> Some a)"
      "\<forall>b k. evt_at w1 b k = evt_at w b k" "\<forall>b. key_at w1 b = (if b = a then Some (of_nat i) else key_at w b)"
      "room_at 12 (length as) w1 (f_sttable f)" by blast
  have na: "a \<notin> set as" using Cons.prems(2) by simp
  have ran: "\<forall>b\<in>set as. Some b \<notin> ran (st_map f w1)"
    using Cons.prems(5) na new unfolding 1(6) by (auto simp: ran_def)
  have dom: "\<forall>k\<in>dom (st_map f w1). unat k < Suc i" using Cons.prems(6) unat_key [OF i] unfolding 1(6) by (auto simp: less_Suc_eq)
  have "\<exists>w'. stress_add f (Suc i) as w1 = Some w' \<and> life_inv f w' \<and> balanced f w1 f w' \<and> plenty m (w_heap w') \<and>
      fm_state (w_mem w') = fm_state (w_mem w1) \<and> (\<forall>b k. evt_at w' b k = evt_at w1 b k) \<and> room_at 12 0 w' (f_sttable f) \<and>
      (\<forall>n<length as. st_map f w' (of_nat (Suc i + n)) = Some (Some (as ! n)) \<and> key_at w' (as ! n) = Some (of_nat (Suc i + n))) \<and>
      (\<forall>k. unat k < Suc i \<longrightarrow> st_map f w' k = st_map f w1 k) \<and> (\<forall>b. b \<notin> set as \<longrightarrow> key_at w' b = key_at w1 b)"
    by (rule Cons.IH [OF 1(2) _ _ Cons.prems(4) ran dom _ 1(9,4)]) (use Cons.prems(2,3,7) 1(5) in auto)
  then obtain w2 where 2: "stress_add f (Suc i) as w1 = Some w2" "life_inv f w2" "balanced f w1 f w2" "plenty m (w_heap w2)"
      "fm_state (w_mem w2) = fm_state (w_mem w1)" "\<forall>b k. evt_at w2 b k = evt_at w1 b k" "room_at 12 0 w2 (f_sttable f)"
      "\<forall>n<length as. st_map f w2 (of_nat (Suc i + n)) = Some (Some (as ! n)) \<and> key_at w2 (as ! n) = Some (of_nat (Suc i + n))"
      "\<forall>k. unat k < Suc i \<longrightarrow> st_map f w2 k = st_map f w1 k" "\<forall>b. b \<notin> set as \<longrightarrow> key_at w2 b = key_at w1 b" by blast
  have all: "st_map f w2 (of_nat (i + n)) = Some (Some ((a # as) ! n)) \<and> key_at w2 ((a # as) ! n) = Some (of_nat (i + n))"
    if "n < length (a # as)" for n
  proof (cases n)
    case 0
    have "st_map f w2 (of_nat i) = Some (Some a)" using 2(9) unat_key [OF i] 1(6) by simp
    moreover have "key_at w2 a = Some (of_nat i)" using 2(10) 1(8) na by simp
    ultimately show ?thesis using 0 by simp
  next
    case (Suc k)
    then show ?thesis using 2(8) that by (simp del: of_nat_add of_nat_Suc)
  qed
  have low: "\<forall>k. unat k < i \<longrightarrow> st_map f w2 k = st_map f w k" using 2(9) unat_key [OF i] unfolding 1(6) by auto
  have keys: "\<forall>b. b \<notin> set (a # as) \<longrightarrow> key_at w2 b = key_at w b" using 2(10) 1(8) by simp
  have run: "stress_add f i (a # as) w = Some w2" using 1(1) 2(1) by simp
  have bal: "balanced f w f w2" by (rule balanced_trans [OF 1(3) 2(3)])
  show ?case
    by (intro exI [of _ w2] conjI) (use run bal low keys all 2(2,4-7) 1(5,7) in \<open>simp_all del: of_nat_add\<close>)
qed auto

section \<open>The events\<close>

lemma stress_process:
  assumes inv: "life_inv f w" and c: "f_cstate f = Some a" "key_at w a = Some k" "k \<in> dom (st_map f w)"
    and e: "evt_at w a j = Some (plain_evt act a)"
  shows "fsm_process_event stress_exec f j None w = Some ((FSM_OK, f), w)"
proof -
  have p: "w_print [] w = w" by (simp add: w_print_def)
  have "\<forall>a. \<exists>out. stress_exec a None f w = Some (f, w_print out w)" 
    by (intro allI exI [of _ "[]"]) (simp add: stress_exec_def p)
  from process_at [where exec = stress_exec and k = j, OF lifeD(1) [OF inv] c(1) this] e obtain out where
    o: "act = None \<longrightarrow> out = []" "\<forall>a. act = Some a \<longrightarrow> stress_exec a None f w = Some (f, w_print out w)"
    and run: "fsm_process_event stress_exec f j None w = Some
      (if \<exists>key. key_at w a = Some key \<and> key \<in> dom (st_map f w)
       then (FSM_OK, f\<lparr>f_cstate := Some a\<rparr>) else (FSM_ENOTFOUND, f), w_print out w)"
    by auto
  have "w_print out w = w" using o p by (cases act) (auto simp: stress_exec_def)
  moreover have "f\<lparr>f_cstate := Some a\<rparr> = f" using c(1) by simp
  ultimately show ?thesis using run c(2,3) by auto
qed

lemma stress_loop_ok:
  assumes "life_inv f w" "f_cstate f = Some a" "key_at w a = Some k" "k \<in> dom (st_map f w)"
    and "\<forall>j<NEVENTS. \<exists>act. evt_at w a (of_nat j) = Some (plain_evt act a)"
  shows "stress_loop rnd n c f w = Some (f, w)"
proof (induction n arbitrary: c)
  case (Suc n)
  obtain act where "evt_at w a (of_nat (rnd c mod NEVENTS)) = Some (plain_evt act a)"
    using assms(5) mod_less_divisor [of NEVENTS "rnd c"] by (auto simp: NEVENTS_def simp del: mod_less_divisor)
  from stress_process [OF assms(1-4) this] Suc show ?case by simp
qed simp

section \<open>The program as a whole\<close>

definition stress_start :: world where
  \<comment> \<open>An empty heap of four million bytes.\<close>
  "stress_start = \<lparr>w_mem = \<lparr>fm_cell = \<lambda>_. 0, fm_event = Map.empty, fm_state = Map.empty\<rparr>, w_table = Map.empty,
     w_heap = \<lparr>hp_next = 16, hp_limit = 4000000, hp_live = [], hp_sched = [], hp_bad = False\<rparr>, w_out = ''''\<rparr>"

lemma stress_built:
  assumes ok: "heap_ok (w_heap w0)" and none: "fm_state (w_mem w0) = Map.empty" and p: "plenty 3000000 (w_heap w0)"
  obtains f w1 st w2 w3 w4 where
    "fsm_init (push_bit 11 2) 5 0 w0 = Some ((FSM_OK, Some f), w1)" "stress_init g NSTATES [] w1 = Some ((True, st), w2)"
    "stress_table rnd 0 st w2 = Some (None, w3)" "stress_add f 0 st w3 = Some w4" "life_inv f w4"
    "mset (hp_live (w_heap w4)) = mset (hp_live (w_heap w0)) + owned f w4" "hp_bad (w_heap w4) = hp_bad (w_heap w0)"
    "length st = NSTATES" "dom (fm_state (w_mem w4)) = set st" "room_at 12 0 w4 (f_sttable f)"
    "\<forall>n<NSTATES. st_map f w4 (of_nat n) = Some (Some (st ! n)) \<and> key_at w4 (st ! n) = Some (of_nat n)"
    "\<forall>a\<in>set st. \<forall>j<NEVENTS. \<exists>act. evt_at w4 a (of_nat j) = Some (plain_evt act a)"
proof -
  have k: "(12 :: nat) \<le> 43" by simp
  have b: "(push_bit 11 2 :: size_t) = 2 ^ 12" by (simp add: push_bit_eq_mult)
  have "sizeof_fsm + sizeof_htable + max (unat (0 :: 32 word) * sizeof_pqhead) 1 + sizeof_mutex + 2 ^ (12 + 4) +
      (NSTATES * 131172 + (NSTATES * 2320 + (NSTATES * 32 + 0))) \<le> 3000000"
    by (simp add: sizeof_fsm_def sizeof_htable_def sizeof_mutex_def NSTATES_def)
  from init_plenty [OF ok none k p this, of 5] obtain f w1 where
    1: "fsm_init (2 ^ 12) 5 0 w0 = Some ((FSM_OK, Some f), w1)" "plenty (NSTATES * 131172 + (NSTATES * 2320 + (NSTATES * 32 + 0))) (w_heap w1)"
      "room_at 12 (unat (ucast (5 :: 32 word) * 2 ^ 12 :: size_t)) w1 (f_sttable f)" "w_mem w1 = w_mem w0" "f_cstate f = None" by blast
  note S = init_started [OF ok none k 1(1)]
  have sm1: "st_map f w1 = Map.empty" using fsm_init_ok [OF ok none k, of 5 0] 1(1) by auto
  have e: "set [] = dom (fm_state (w_mem w1))" "\<forall>a\<in>set []. st_fresh w1 a" using 1(4) none by simp_all
  from stress_init_ok [OF S(1) distinct.simps(1) [THEN iffD2, OF TrueI] e 1(2), of g] obtain st w2 where
    2: "stress_init g NSTATES [] w1 = Some ((True, st), w2)" "length st = NSTATES" "distinct st" "set st = dom (fm_state (w_mem w2))"
      "\<forall>a\<in>set st. st_fresh w2 a" "life_inv f w2" "balanced f w1 f w2" "plenty (NSTATES * 2320 + (NSTATES * 32 + 0)) (w_heap w2)"
      "st_map f w2 = st_map f w1" "w_table w2 (f_sttable f) = w_table w1 (f_sttable f)" by auto
  have p2: "plenty (length st * 2320 + (length st * 32 + 0)) (w_heap w2)" using 2(8) unfolding 2(2) .
  from stress_table_ok [OF 2(6,3) equalityD1 [OF 2(4)] 2(5) p2, of rnd 0] obtain w3 where
    3: "stress_table rnd 0 st w2 = Some (None, w3)" "life_inv f w3" "balanced f w2 f w3" "plenty (length st * 32 + 0) (w_heap w3)"
      "fm_state (w_mem w3) = fm_state (w_mem w2)" "st_map f w3 = st_map f w2"
      "\<forall>a\<in>set st. \<forall>j<NEVENTS. \<exists>act. evt_at w3 a (of_nat j) = Some (plain_evt act a)"
      "w_table w3 (f_sttable f) = w_table w2 (f_sttable f)" by blast
  have "set st \<subseteq> dom (fm_state (w_mem w3))" "\<forall>a\<in>set st. Some a \<notin> ran (st_map f w3)" "\<forall>k\<in>dom (st_map f w3). unat k < 0"
    "0 + length st < 2 ^ 32" "room_at 12 (length st) w3 (f_sttable f)"
    using 1(3) 2(2,4,9,10) 3(5,6,8) sm1 by (auto simp: NSTATES_def room_at_def room_def)
  from stress_add_ok [OF 3(2) 2(3) this(1) 1(5) this(2-5) 3(4)] obtain w4 where
    4: "stress_add f 0 st w3 = Some w4" "life_inv f w4" "balanced f w3 f w4" "fm_state (w_mem w4) = fm_state (w_mem w3)"
      "\<forall>b k. evt_at w4 b k = evt_at w3 b k" "room_at 12 0 w4 (f_sttable f)"
      "\<forall>n<length st. st_map f w4 (of_nat (0 + n)) = Some (Some (st ! n)) \<and> key_at w4 (st ! n) = Some (of_nat (0 + n))" by blast
  have bal: "balanced f w1 f w4" by (rule balanced_trans [OF balanced_trans [OF 2(7) 3(3)] 4(3)])
  have live: "mset (hp_live (w_heap w4)) = mset (hp_live (w_heap w0)) + owned f w4" "hp_bad (w_heap w4) = hp_bad (w_heap w0)"
    using bal S(2,3) unfolding balanced_def by simp_all
  have dm: "dom (fm_state (w_mem w4)) = set st" using 4(4) 3(5) 2(4) by simp
  have nth: "\<forall>n<NSTATES. st_map f w4 (of_nat n) = Some (Some (st ! n)) \<and> key_at w4 (st ! n) = Some (of_nat n)" using 4(7) 2(2) by simp
  have evs: "\<forall>a\<in>set st. \<forall>j<NEVENTS. \<exists>act. evt_at w4 a (of_nat j) = Some (plain_evt act a)" using 3(7) 4(5) by simp
  show thesis by (rule that [OF _ 2(1) 3(1) 4(1,2) live 2(2) dm 4(6) nth evs]) (simp only: b 1(1))
qed

text \<open>C23: When its three million bytes of memory are there the stress test runs to its end whatever \<open>rand\<close>
  returns: building the machine, all of its hundred thousand events and releasing it are defined and return, and every
  block it obtained is released exactly once.\<close>

theorem stress_runs:
  assumes "heap_ok (w_heap w0)" "fm_state (w_mem w0) = Map.empty" "plenty 3000000 (w_heap w0)"
  shows "\<exists>w'. stress_main g rnd w0 = Some (True, w') \<and> mset (hp_live (w_heap w')) = mset (hp_live (w_heap w0)) \<and>
    hp_bad (w_heap w') = hp_bad (w_heap w0)"
proof -
  obtain f w1 st w2 w3 w4 where
    r: "fsm_init (push_bit 11 2) 5 0 w0 = Some ((FSM_OK, Some f), w1)" "stress_init g NSTATES [] w1 = Some ((True, st), w2)"
      "stress_table rnd 0 st w2 = Some (None, w3)" "stress_add f 0 st w3 = Some w4" and inv: "life_inv f w4"
    and live: "mset (hp_live (w_heap w4)) = mset (hp_live (w_heap w0)) + owned f w4" "hp_bad (w_heap w4) = hp_bad (w_heap w0)"
    and st: "length st = NSTATES" "dom (fm_state (w_mem w4)) = set st" "room_at 12 0 w4 (f_sttable f)"
    and nth: "\<forall>n<NSTATES. st_map f w4 (of_nat n) = Some (Some (st ! n)) \<and> key_at w4 (st ! n) = Some (of_nat n)"
    and evs: "\<forall>a\<in>set st. \<forall>j<NEVENTS. \<exists>act. evt_at w4 a (of_nat j) = Some (plain_evt act a)"
    by (rule stress_built [OF assms, of g rnd]) (rule that)
  let ?a = "st ! 0"
  let ?f = "f\<lparr>f_cstate := Some ?a\<rparr>"
  have n0: "0 < NSTATES" by (simp add: NSTATES_def)
  then have a: "st_map f w4 0 = Some (Some ?a)" "key_at w4 ?a = Some 0" "?a \<in> set st" using nth st(1) by auto
  from set_state_ok [OF lifeD(1,2) [OF inv], of 0] a(1) obtain w5 where
    5: "fsm_set_state f 0 w4 = Some ((FSM_OK, ?f), w5)" and fl: "flags_only w4 w5" by auto
  note D = drive_ok [OF fsm_step.set_state [OF 5] inv no_action_quiet]
  have loop: "stress_loop rnd NEPOCHS (NSTATES * NEVENTS) ?f w5 = Some (?f, w5)"
    by (rule stress_loop_ok [OF D(1)]) (use D(4,6,7) a evs in auto)
  have room: "room_at 12 0 w5 (f_sttable ?f)" using st(3) flags_only_mem [OF fl] by (simp add: room_at_def)
  have keys: "\<exists>k. st_map ?f w5 k = Some (Some b) \<and> unat k < 2 ^ 12 - 1" if b: "b \<in> dom (fm_state (w_mem w5))" for b
  proof -
    obtain n where n: "n < NSTATES" "b = st ! n" using b D(5) st(1,2) by (auto simp: in_set_conv_nth)
    then have "n < 2 ^ 32" "n < 2 ^ 12 - 1" by (simp_all add: NSTATES_def)
    then show ?thesis using n nth D(4) unat_key by (intro exI [of _ "of_nat n"]) simp
  qed
  have "mset (hp_live (w_heap w5)) = mset (hp_live (w_heap w0)) + owned ?f w5"
    using D(2) live(1) unfolding balanced_def by simp
  from free_all [OF D(1) room _ keys this] obtain w6 where
    6: "fsm_free ?f w5 = Some (FSM_OK, w6)" "mset (hp_live (w_heap w6)) = mset (hp_live (w_heap w0))" "hp_bad (w_heap w6) = hp_bad (w_heap w5)"
    by auto
  have "hp_bad (w_heap w5) = hp_bad (w_heap w0)" using D(2) live(2) by (simp add: balanced_def)
  with 6 r 5 loop show ?thesis by (simp add: stress_main_def)
qed

lemma stress_runs_witness:
  "\<exists>w'. stress_main (\<lambda>_. 0) (\<lambda>i. i * i) stress_start = Some (True, w') \<and> hp_live (w_heap w') = [] \<and> \<not> hp_bad (w_heap w')"
proof -
  have "heap_ok (w_heap stress_start)" "fm_state (w_mem stress_start) = Map.empty" "plenty 3000000 (w_heap stress_start)"
    by (simp_all add: stress_start_def heap_ok_def heap_wf_def plenty_def)
  from stress_runs [OF this, of "\<lambda>_. 0" "\<lambda>i. i * i"] show ?thesis by (auto simp: stress_start_def)
qed

end
