(* ===== verification/Fsm_Threads.thy ===== *)
theory Fsm_Threads imports Fsm_Stress begin

text \<open>
  The client \<open>fsm/test_thread.c\<close>: a machine of one state that prints letters and digits, two threads that queue events
  for it and one that takes them out. This theory builds the machine; the queue that the threads share is in the theory
  Fsm_Race.
\<close>

section \<open>The machine\<close>

definition TH_PRINT :: nat where
  \<comment> \<open>The address of the function \<open>print_char\<close>.\<close>
  "TH_PRINT = 0"

definition th_exec :: "(addr \<Rightarrow> 8 word) \<Rightarrow> exec_t" where
  \<comment> \<open>\<open>print_char\<close>; \<open>ch\<close> is what memory holds at the data of an event.\<close>
  "th_exec ch act data f w = do { p \<leftarrow> data; Some (f, w_print [char_of (unat (ch p))] w) }"

fun th_events :: "addr \<Rightarrow> nat list \<Rightarrow> world \<Rightarrow> (bool \<times> world) option" where
  \<comment> \<open>One of the loops that add events; \<open>False\<close>: it exits in \<open>dief\<close>.\<close>
  "th_events a [] w = Some (True, w)"
| "th_events a (c # cs) w =
     do { (r, w1) \<leftarrow> state_add_evt a (of_nat c) [] (Some TH_PRINT) (Some a) w;
          if r = ST_NOMEM then Some (False, w1) else th_events a cs w1 }"

definition th_setup :: "8 word \<Rightarrow> world \<Rightarrow> (fsm_t option \<times> world) option" where
  \<comment> \<open>\<open>main\<close> up to the creation of the threads; \<open>None\<close> in the result is an exit in \<open>dief\<close>. A failed \<open>fsm_init\<close> is not
      noticed; using its null pointer is undefined.\<close>
  "th_setup g w =
     do { ((_, fsm), w1) \<leftarrow> fsm_init (push_bit 10 2) 5 2 w;
          ((_, st), w2) \<leftarrow> state_init g (push_bit 10 2) 2 w1;
          case st of
            None \<Rightarrow> do { f \<leftarrow> fsm; (_, w3) \<leftarrow> fsm_free f w2; Some (None, w3) }
          | Some a \<Rightarrow> do {
              (ok, w3) \<leftarrow> th_events a [65..<90] w2;
              if \<not> ok then Some (None, w3)
              else do {
                (ok, w4) \<leftarrow> th_events a [48..<57] w3;
                if \<not> ok then Some (None, w4)
                else do {
                  f \<leftarrow> fsm;
                  (_, w5) \<leftarrow> fsm_add_state f 0 a w4;
                  ((_, f1), w6) \<leftarrow> fsm_set_state f 0 w5;
                  Some (Some f1, w6) } } } }"

lemma th_events_ok:
  "life_inv f w \<Longrightarrow> fm_state (w_mem w) a = Some s \<Longrightarrow> room_at 11 (length cs + i) w (evttable s) \<Longrightarrow> distinct cs \<Longrightarrow>
    \<forall>c\<in>set cs. c < 2 ^ 32 \<and> evt_at w a (of_nat c) = None \<Longrightarrow> plenty (length cs * 116 + m) (w_heap w) \<Longrightarrow>
    \<exists>w'. th_events a cs w = Some (True, w') \<and> life_inv f w' \<and> balanced f w f w' \<and> plenty m (w_heap w') \<and>
      fm_state (w_mem w') = fm_state (w_mem w) \<and> st_map f w' = st_map f w \<and> room_at 11 i w' (evttable s) \<and> w_out w' = w_out w \<and>
      (\<forall>k. evt_at w' a k = (if k \<in> of_nat ` set cs then Some (plain_evt (Some TH_PRINT) a) else evt_at w a k)) \<and>
      (\<forall>x. x \<noteq> evttable s \<longrightarrow> w_table w' x = w_table w x)"
proof (induction cs arbitrary: w)
  case Nil
  then show ?case by (intro exI [of _ w]) (auto simp: balanced_def)
next
  case (Cons c cs)
  have b: "a \<in> dom (fm_state (w_mem w))" using Cons.prems(2) by blast
  have r: "room_at 11 (Suc (length cs + i)) w (evttable s)" using Cons.prems(3) by simp
  have n: "evt_at w a (of_nat c) = None" using Cons.prems(5) by simp
  have "sizeof_uint + sizeof_event + sizeof_hnode + (length cs * 116 + m) \<le> length (c # cs) * 116 + m"
    by (simp add: sizeof_uint_def sizeof_event_def sizeof_hnode_def)
  from add_evt_plenty [OF Cons.prems(1,2) b r n Cons.prems(6) this, of "[]" "Some TH_PRINT"] obtain w1 where
    1: "state_add_evt a (of_nat c) [] (Some TH_PRINT) (Some a) w = Some (ST_OK, w1)" "life_inv f w1" "balanced f w f w1"
      "plenty (length cs * 116 + m) (w_heap w1)" "fm_state (w_mem w1) = fm_state (w_mem w)" "st_map f w1 = st_map f w"
      "\<forall>d k. evt_at w1 d k = (if d = a \<and> k = of_nat c then Some (plain_evt (Some TH_PRINT) a) else evt_at w d k)"
      "room_at 11 (length cs + i) w1 (evttable s)" "w_out w1 = w_out w" "\<forall>x. x \<noteq> evttable s \<longrightarrow> w_table w1 x = w_table w x" by blast
  have ne: "(of_nat d :: 32 word) \<noteq> of_nat c" if "d \<in> set cs" for d
  proof -
    have "d \<noteq> c" "d < 2 ^ 32" "c < 2 ^ 32" using Cons.prems(4,5) that by auto
    then show ?thesis using key_inj by blast
  qed
  have s1: "fm_state (w_mem w1) a = Some s" "distinct cs" using Cons.prems(2,4) 1(5) by simp_all
  have new: "\<forall>d\<in>set cs. d < 2 ^ 32 \<and> evt_at w1 a (of_nat d) = None" using Cons.prems(5) ne 1(7) by auto
  from Cons.IH [OF 1(2) s1(1) 1(8) s1(2) new 1(4)] obtain w2 where
    2: "th_events a cs w1 = Some (True, w2)" "life_inv f w2" "balanced f w1 f w2" "plenty m (w_heap w2)"
      "fm_state (w_mem w2) = fm_state (w_mem w1)" "st_map f w2 = st_map f w1" "room_at 11 i w2 (evttable s)" "w_out w2 = w_out w1"
      "\<forall>k. evt_at w2 a k = (if k \<in> of_nat ` set cs then Some (plain_evt (Some TH_PRINT) a) else evt_at w1 a k)"
      "\<forall>x. x \<noteq> evttable s \<longrightarrow> w_table w2 x = w_table w1 x" by blast
  have e: "\<forall>k. evt_at w2 a k = (if k \<in> of_nat ` set (c # cs) then Some (plain_evt (Some TH_PRINT) a) else evt_at w a k)"
    using 2(9) 1(7) by auto
  have run: "th_events a (c # cs) w = Some (True, w2)" using 1(1) 2(1) by simp
  have bal: "balanced f w f w2" by (rule balanced_trans [OF 1(3) 2(3)])
  show ?case using run bal e 2(2,4-8,10) 1(5,6,9,10) by (intro exI [of _ w2]) simp
qed

definition th_handled :: "32 word \<Rightarrow> bool" where
  "th_handled k \<longleftrightarrow> 65 \<le> k \<and> k < 90 \<or> 48 \<le> k \<and> k < 57"

lemma th_keys: "k \<in> of_nat ` {a..<b} \<longleftrightarrow> of_nat a \<le> k \<and> k < of_nat b" if "b < 2 ^ 32" "a < 2 ^ 32" for k :: "32 word"
proof
  assume "k \<in> of_nat ` {a..<b}"
  then obtain n where n: "k = of_nat n" "a \<le> n" "n < b" by auto
  then show "of_nat a \<le> k \<and> k < of_nat b" using that unat_key by (simp add: word_le_nat_alt word_less_nat_alt)
next
  assume "of_nat a \<le> k \<and> k < of_nat b"
  then have "unat k \<in> {a..<b}" using that unat_key by (simp add: word_le_nat_alt word_less_nat_alt)
  then show "k \<in> of_nat ` {a..<b}" by (intro image_eqI [of _ _ "unat k"]) simp_all
qed

lemma th_letters:
  assumes inv: "life_inv f w2" and s: "fm_state (w_mem w2) a = Some s" and rm: "room_at 11 34 w2 (evttable s)"
    and none: "\<forall>j. evt_at w2 a j = None" and p: "plenty (25 * 116 + (9 * 116 + 32)) (w_heap w2)"
  shows "\<exists>w3 w4. th_events a [65..<90] w2 = Some (True, w3) \<and> th_events a [48..<57] w3 = Some (True, w4) \<and> life_inv f w4 \<and>
    plenty 32 (w_heap w4) \<and> fm_state (w_mem w4) = fm_state (w_mem w2) \<and> st_map f w4 = st_map f w2 \<and>
    (\<forall>k. evt_at w4 a k = (if th_handled k then Some (plain_evt (Some TH_PRINT) a) else None)) \<and>
    (\<forall>x. x \<noteq> evttable s \<longrightarrow> w_table w4 x = w_table w2 x)"
proof -
  have rm2: "room_at 11 (length [65..<90] + (9 + 0)) w2 (evttable s)" using rm by simp
  have new2: "\<forall>c\<in>set [65..<90]. c < 2 ^ 32 \<and> evt_at w2 a (of_nat c) = None" using none by auto
  have p2: "plenty (length [65..<90] * 116 + (9 * 116 + 32)) (w_heap w2)" using p by simp
  from th_events_ok [OF inv s rm2 distinct_upt new2 p2] obtain w3 where
    3: "th_events a [65..<90] w2 = Some (True, w3)" "life_inv f w3" "plenty (9 * 116 + 32) (w_heap w3)"
      "fm_state (w_mem w3) = fm_state (w_mem w2)" "st_map f w3 = st_map f w2" "room_at 11 (9 + 0) w3 (evttable s)"
      "\<forall>k. evt_at w3 a k = (if k \<in> of_nat ` set [65..<90] then Some (plain_evt (Some TH_PRINT) a) else evt_at w2 a k)"
      "\<forall>x. x \<noteq> evttable s \<longrightarrow> w_table w3 x = w_table w2 x" by blast
  have s3: "fm_state (w_mem w3) a = Some s" using 3(4) s by simp
  have rm3: "room_at 11 (length [48..<57] + 0) w3 (evttable s)"
    using 3(6) by (simp only: length_upt diff_numeral_simps) simp
  have "of_nat c \<notin> (of_nat ` set [65..<90] :: 32 word set)" if "c < 57" for c :: nat
  proof
    assume "of_nat c \<in> (of_nat ` set [65..<90] :: 32 word set)"
    then obtain d where d: "(of_nat c :: 32 word) = of_nat d" "d \<in> {65..<90}" unfolding set_upt by (rule imageE)
    then have "d < 2 ^ 32" "c < 2 ^ 32" using that by simp_all
    then have "c = d" using d(1) key_inj by blast
    with that d(2) show False by simp
  qed
  then have new3: "\<forall>c\<in>set [48..<57]. c < 2 ^ 32 \<and> evt_at w3 a (of_nat c) = None" using 3(7) none by simp
  have p3: "plenty (length [48..<57] * 116 + 32) (w_heap w3)" using 3(3) by simp
  from th_events_ok [OF 3(2) s3 rm3 distinct_upt new3 p3] obtain w4 where
    4: "th_events a [48..<57] w3 = Some (True, w4)" "life_inv f w4" "plenty 32 (w_heap w4)"
      "fm_state (w_mem w4) = fm_state (w_mem w3)" "st_map f w4 = st_map f w3"
      "\<forall>k. evt_at w4 a k = (if k \<in> of_nat ` set [48..<57] then Some (plain_evt (Some TH_PRINT) a) else evt_at w3 a k)"
      "\<forall>x. x \<noteq> evttable s \<longrightarrow> w_table w4 x = w_table w3 x" by blast
  have "evt_at w4 a j = (if th_handled j then Some (plain_evt (Some TH_PRINT) a) else None)" for j
  proof -
    have L: "j \<in> of_nat ` set [65..<90] \<longleftrightarrow> 65 \<le> j \<and> j < 90"
      unfolding set_upt using th_keys [of 90 65 j] by (simp del: set_upt)
    have N: "j \<in> of_nat ` set [48..<57] \<longleftrightarrow> 48 \<le> j \<and> j < 57"
      unfolding set_upt using th_keys [of 57 48 j] by (simp del: set_upt)
    show ?thesis using spec [OF 4(6), of j, unfolded N] spec [OF 3(7), of j, unfolded L] none by (auto simp: th_handled_def)
  qed
  with 3(1) 4 3(4,5,8) show ?thesis by (intro exI [of _ w3] exI [of _ w4]) simp
qed

lemma th_setup_ok:
  assumes ok: "heap_ok (w_heap w0)" and none: "fm_state (w_mem w0) = Map.empty" and p: "plenty 80000 (w_heap w0)"
  shows "\<exists>f a w. th_setup g w0 = Some (Some f, w) \<and> life_inv f w \<and> f_cstate f = Some a \<and> key_at w a = Some 0 \<and>
    0 \<in> dom (st_map f w) \<and> (\<forall>j. evt_at w a j = (if th_handled j then Some (plain_evt (Some TH_PRINT) a) else None))"
proof -
  have k: "(11 :: nat) \<le> 43" by simp
  have b: "(push_bit 10 2 :: size_t) = 2 ^ 11" by (simp add: push_bit_eq_mult)
  have "sizeof_fsm + sizeof_htable + max (unat (2 :: 32 word) * sizeof_pqhead) 1 + sizeof_mutex + 2 ^ (11 + 4) +
      (sizeof_state + sizeof_htable + 2 ^ (11 + 4) + sizeof_uint + (25 * 116 + (9 * 116 + 32))) \<le> 80000"
    by (simp add: sizeof_fsm_def sizeof_htable_def sizeof_mutex_def sizeof_pqhead_def sizeof_state_def sizeof_uint_def)
  from init_plenty [OF ok none k p this, of 5] obtain f w1 where
    1: "fsm_init (2 ^ 11) 5 2 w0 = Some ((FSM_OK, Some f), w1)"
      "plenty (sizeof_state + sizeof_htable + 2 ^ (11 + 4) + sizeof_uint + (25 * 116 + (9 * 116 + 32))) (w_heap w1)"
      "room_at 11 (unat (ucast (5 :: 32 word) * 2 ^ 11 :: size_t)) w1 (f_sttable f)" "w_mem w1 = w_mem w0" "f_cstate f = None" by blast
  note S = init_started [OF ok none k 1(1)]
  have sm1: "st_map f w1 = Map.empty" using fsm_init_ok [OF ok none k, of 5 2] 1(1) by auto
  from new_state_plenty [OF S(1) k 1(2) order_refl, of g 2] obtain a s w2 where
    2: "state_init g (2 ^ 11) 2 w1 = Some ((ST_OK, Some a), w2)" "life_inv f w2"
      "plenty (25 * 116 + (9 * 116 + 32)) (w_heap w2)" "fm_state (w_mem w2) = (fm_state (w_mem w1))(a \<mapsto> s)"
      "st_map f w2 = st_map f w1" "room_at 11 (unat (ucast (2 :: 32 word) * 2 ^ 11 :: size_t)) w2 (evttable s)"
      "\<forall>j. evt_at w2 a j = None" "\<forall>x. x \<in># owned f w1 \<longrightarrow> w_table w2 x = w_table w1 x" by blast
  have s: "fm_state (w_mem w2) a = Some s" using 2(4) by simp
  have rm2: "room_at 11 34 w2 (evttable s)" using 2(6) by (auto simp: room_at_def room_def)
  from th_letters [OF 2(2) s rm2 2(7,3)] obtain w3 w4 where
    3: "th_events a [65..<90] w2 = Some (True, w3)" and
    4: "th_events a [48..<57] w3 = Some (True, w4)" "life_inv f w4" "plenty 32 (w_heap w4)"
      "fm_state (w_mem w4) = fm_state (w_mem w2)" "st_map f w4 = st_map f w2"
      "\<forall>k. evt_at w4 a k = (if th_handled k then Some (plain_evt (Some TH_PRINT) a) else None)"
      "\<forall>x. x \<noteq> evttable s \<longrightarrow> w_table w4 x = w_table w2 x" by blast
  have s4: "fm_state (w_mem w4) a = Some s" using 4(4) s by simp
  have sm4: "st_map f w4 = Map.empty" using 4(5) 2(5) sm1 by simp
  have "f_sttable f \<in># owned f w1" by (simp add: owned_def fsm_own_mem)
  then have "w_table w4 (f_sttable f) = w_table w1 (f_sttable f)"
    using 2(8) 4(7) state_sep(1) [OF 2(2) s] by auto
  then have rm4: "room_at 11 (Suc 0) w4 (f_sttable f)" using 1(3) by (auto simp: room_at_def room_def)
  have un: "Some a \<notin> ran (st_map f w4)" "f_cstate f \<noteq> Some a" "0 \<notin> dom (st_map f w4)" using sm4 1(5) by simp_all
  have "sizeof_hnode + 0 \<le> 32" by (simp add: sizeof_hnode_def)
  from add_state_plenty [OF 4(2) s4 un rm4 4(3) this] obtain w5 where
    5: "fsm_add_state f 0 a w4 = Some (FSM_OK, w5)" "life_inv f w5" "st_map f w5 = (st_map f w4)(0 \<mapsto> Some a)"
      "\<forall>b j. evt_at w5 b j = evt_at w4 b j" "\<forall>b. key_at w5 b = (if b = a then Some 0 else key_at w4 b)" by blast
  from set_state_ok [OF lifeD(1,2) [OF 5(2)], of 0] obtain w6 where
    6: "fsm_set_state f 0 w5 = Some ((FSM_OK, f\<lparr>f_cstate := Some a\<rparr>), w6)" unfolding 5(3) by auto
  note D = drive_ok [OF fsm_step.set_state [OF 6] 5(2) no_action_quiet]
  let ?f = "f\<lparr>f_cstate := Some a\<rparr>"
  have run: "th_setup g w0 = Some (Some ?f, w6)"
    by (simp only: th_setup_def b 1(1) 2(1) 3 4(1) 5(1) 6 bind.bind_lunit prod.case option.case not_True_eq_False if_False)
  have "evt_at w6 a j = (if th_handled j then Some (plain_evt (Some TH_PRINT) a) else None)" for j
    using D(7) 5(4) 4(6) by simp
  moreover have "key_at w6 a = Some 0" "0 \<in> dom (st_map ?f w6)" using D(4,6) 5(3,5) by simp_all
  ultimately show ?thesis using run D(1) by (intro exI [of _ ?f] exI [of _ a] exI [of _ w6]) simp
qed

lemma stress_start_ok: "heap_ok (w_heap stress_start)" "fm_state (w_mem stress_start) = Map.empty" "plenty 80000 (w_heap stress_start)"
  by (simp_all add: stress_start_def heap_ok_def heap_wf_def plenty_def)

lemma th_run:
  assumes ok: "heap_ok (w_heap w0)" and none: "fm_state (w_mem w0) = Map.empty" and p: "plenty 80000 (w_heap w0)"
  shows "\<exists>f w. th_setup g w0 = Some (Some f, w) \<and> life_inv f w \<and>
    (\<forall>k ch d. fsm_process_event (th_exec ch) f k (Some d) w =
       Some (if th_handled k then ((FSM_OK, f), w_print [char_of (unat (ch d))] w) else ((FSM_ENOTFOUND, f), w)))"
proof -
  from th_setup_ok [OF assms, of g] obtain f a w where
    1: "th_setup g w0 = Some (Some f, w)" "life_inv f w" "f_cstate f = Some a" "key_at w a = Some 0" "0 \<in> dom (st_map f w)"
      "\<forall>j. evt_at w a j = (if th_handled j then Some (plain_evt (Some TH_PRINT) a) else None)" by blast
  have f: "f\<lparr>f_cstate := Some a\<rparr> = f" using 1(3) by simp
  have "fsm_process_event (th_exec ch) f j (Some d) w =
      Some (if th_handled j then ((FSM_OK, f), w_print [char_of (unat (ch d))] w) else ((FSM_ENOTFOUND, f), w))" for j ch d
  proof -
    have q: "\<forall>x. \<exists>out. th_exec ch x (Some d) f w = Some (f, w_print out w)" by (simp add: th_exec_def) blast
    note P = process_at [where exec = "th_exec ch" and k = j, OF lifeD(1) [OF 1(2)] 1(3) q]
    show ?thesis
    proof (cases "th_handled j")
      case True
      with P 1(4-6) obtain out where o: "th_exec ch TH_PRINT (Some d) f w = Some (f, w_print out w)"
        "fsm_process_event (th_exec ch) f j (Some d) w = Some ((FSM_OK, f), w_print out w)" using f by auto
      from o(1) have "w_print out w = w_print [char_of (unat (ch d))] w" by (simp add: th_exec_def)
      with o(2) True show ?thesis by simp
    next
      case False
      with P 1(6) show ?thesis by simp
    qed
  qed
  with 1(1,2) show ?thesis by blast
qed

text \<open>C27: When memory is plentiful the machine is built, and from then on each event for a letter up to Y or a digit up to
  8 is handled by printing the character that it carries and leaves the machine as it was; an event that is neither a
  letter nor a digit is not found and changes nothing.\<close>

theorem th_machine:
  assumes "heap_ok (w_heap w0)" "fm_state (w_mem w0) = Map.empty" "plenty 80000 (w_heap w0)"
  shows "\<exists>f w. th_setup g w0 = Some (Some f, w) \<and> life_inv f w \<and>
    (\<forall>k ch d. (65 \<le> k \<and> k \<le> 89 \<or> 48 \<le> k \<and> k \<le> 56 \<longrightarrow>
        fsm_process_event (th_exec ch) f k (Some d) w = Some ((FSM_OK, f), w_print [char_of (unat (ch d))] w)) \<and>
      (\<not> (65 \<le> k \<and> k \<le> 90) \<and> \<not> (48 \<le> k \<and> k \<le> 57) \<longrightarrow>
        fsm_process_event (th_exec ch) f k (Some d) w = Some ((FSM_ENOTFOUND, f), w)))"
proof -
  have h: "th_handled k \<longleftrightarrow> 65 \<le> k \<and> k \<le> 89 \<or> 48 \<le> k \<and> k \<le> 56" for k
    by (simp add: th_handled_def word_le_nat_alt word_less_nat_alt) linarith
  have n: "\<not> (65 \<le> k \<and> k \<le> 90) \<Longrightarrow> \<not> (48 \<le> k \<and> k \<le> 57) \<Longrightarrow> \<not> th_handled k" for k
    by (simp add: th_handled_def word_le_nat_alt word_less_nat_alt) linarith
  from th_run [OF assms, of g] obtain f w where "th_setup g w0 = Some (Some f, w)" "life_inv f w"
    "\<And>k ch d. fsm_process_event (th_exec ch) f k (Some d) w =
       Some (if th_handled k then ((FSM_OK, f), w_print [char_of (unat (ch d))] w) else ((FSM_ENOTFOUND, f), w))" by blast
  then show ?thesis using h n by (intro exI [of _ f] exI [of _ w]) simp
qed

lemma th_machine_witness:
  "\<exists>f w. th_setup 0 stress_start = Some (Some f, w) \<and>
     fsm_process_event (th_exec (\<lambda>_. 65)) f 65 (Some 8) w = Some ((FSM_OK, f), w_print ''A'' w) \<and>
     fsm_process_event (th_exec (\<lambda>_. 65)) f 97 (Some 8) w = Some ((FSM_ENOTFOUND, f), w)"
proof -
  have c: "(char_of (65 :: nat) :: char) = CHR ''A''" by code_simp
  from th_machine [OF stress_start_ok, of 0] obtain f w where f: "th_setup 0 stress_start = Some (Some f, w)"
    "\<And>k ch d. (65 \<le> k \<and> k \<le> 89 \<or> 48 \<le> k \<and> k \<le> 56 \<longrightarrow>
        fsm_process_event (th_exec ch) f k (Some d) w = Some ((FSM_OK, f), w_print [char_of (unat (ch d))] w)) \<and>
      (\<not> (65 \<le> k \<and> k \<le> 90) \<and> \<not> (48 \<le> k \<and> k \<le> 57) \<longrightarrow>
        fsm_process_event (th_exec ch) f k (Some d) w = Some ((FSM_ENOTFOUND, f), w))" by blast
  from f(2) [of 65 "\<lambda>_. 65" 8] f(2) [of 97 "\<lambda>_. 65" 8] f(1) show ?thesis by (auto simp: c)
qed

text \<open>The loops that add the events stop before Z and before 9, which the two threads do send: these events, which the
  comment in \<open>main\<close> says the state handles, are not found.\<close>

lemma th_machine_ends:
  "\<exists>f w. th_setup g stress_start = Some (Some f, w) \<and>
     (\<forall>ch d. \<forall>k\<in>{90, 57}. fsm_process_event (th_exec ch) f k (Some d) w = Some ((FSM_ENOTFOUND, f), w))"
proof -
  from th_run [OF stress_start_ok, of g] obtain f w where "th_setup g stress_start = Some (Some f, w)"
    "\<And>k ch d. fsm_process_event (th_exec ch) f k (Some d) w =
       Some (if th_handled k then ((FSM_OK, f), w_print [char_of (unat (ch d))] w) else ((FSM_ENOTFOUND, f), w))" by blast
  then show ?thesis by (intro exI [of _ f] exI [of _ w]) (auto simp: th_handled_def)
qed

end
