(* ===== verification/Queues.thy ===== *)
theory Queues imports Prelude begin

text \<open>
  The queue examples \<open>genstructs/slinkedlist.c\<close> and \<open>tailq.c\<close>, with the links that the macros of \<open>sys/queue.h\<close> read
  and write: a node that has been released is no longer in memory, and looking at it is undefined.
\<close>

section \<open>A singly linked list\<close>

record snode =
  sn_str :: string
  sn_next :: "addr option"

record slist =
  sl_first :: "addr option"
  sl_nodes :: "addr \<rightharpoonup> snode"

definition sizeof_snode :: nat where "sizeof_snode = 16"

definition slist_init :: slist where
  "slist_init = \<lparr>sl_first = None, sl_nodes = Map.empty\<rparr>"

definition slist_insert_head :: "addr \<Rightarrow> string \<Rightarrow> slist \<Rightarrow> slist" where
  "slist_insert_head n s l =
     l\<lparr>sl_nodes := (sl_nodes l)(n \<mapsto> \<lparr>sn_str = s, sn_next = sl_first l\<rparr>), sl_first := Some n\<rparr>"

definition slist_insert_after :: "addr option \<Rightarrow> addr \<Rightarrow> string \<Rightarrow> slist \<Rightarrow> slist option" where
  "slist_insert_after np n s l =
     do { p \<leftarrow> np;
          x \<leftarrow> sl_nodes l p;
          Some (l\<lparr>sl_nodes := (sl_nodes l)(n \<mapsto> \<lparr>sn_str = s, sn_next = sn_next x\<rparr>, p \<mapsto> x\<lparr>sn_next := Some n\<rparr>)\<rparr>) }"

fun slist_build :: "nat \<Rightarrow> string list \<Rightarrow> addr option \<Rightarrow> slist \<Rightarrow> cheap \<Rightarrow> ((bool \<times> slist) \<times> cheap) option" where
  \<comment> \<open>The loop from index \<open>i\<close> on; \<open>False\<close>: \<open>malloc\<close> has failed.\<close>
  "slist_build i [] np l h = Some ((True, l), h)"
| "slist_build i (s # ss) np l h =
     (case malloc sizeof_snode h of
        (None, h1) \<Rightarrow> Some ((False, l), h1)
      | (Some n, h1) \<Rightarrow>
          do { l1 \<leftarrow> (if i = 0 then Some (slist_insert_head n s l) else slist_insert_after np n s l);
               slist_build (i + 1) ss (Some n) l1 h1 })"

partial_function (option) slist_print :: "(addr \<rightharpoonup> snode) \<Rightarrow> addr option \<Rightarrow> string option" where
  \<comment> \<open>\<open>SLIST_FOREACH\<close>, from \<open>np\<close> on.\<close>
  "slist_print nodes np =
     (case np of
        None \<Rightarrow> Some []
      | Some a \<Rightarrow> do { x \<leftarrow> nodes a; r \<leftarrow> slist_print nodes (sn_next x); Some (sn_str x @ [CHR 0x0A] @ r) })"

partial_function (option) slist_delete :: "slist \<Rightarrow> cheap \<Rightarrow> cheap option" where
  \<comment> \<open>The loop at the end: \<open>SLIST_REMOVE_HEAD\<close> and \<open>free\<close>.\<close>
  "slist_delete l h =
     (case sl_first l of
        None \<Rightarrow> Some h
      | Some a \<Rightarrow>
          do { x \<leftarrow> sl_nodes l a;
               slist_delete (l\<lparr>sl_first := sn_next x, sl_nodes := (sl_nodes l)(a := None)\<rparr>) (cfree (Some a) h) })"

declare slist_print.simps [code] slist_delete.simps [code]

definition slist_strs :: "string list" where
  "slist_strs = [''this'', ''is'', ''a'', ''single'', ''linked'', ''list'']"

definition slist_main :: "cheap \<Rightarrow> (string \<times> cheap) option" where
  "slist_main h =
     do { ((ok, l), h1) \<leftarrow> slist_build 0 slist_strs None slist_init h;
          out \<leftarrow> (if ok then slist_print (sl_nodes l) (sl_first l) else Some []);
          h2 \<leftarrow> slist_delete l h1;
          Some (out, h2) }"

section \<open>The list in memory\<close>

fun slist_at :: "(addr \<rightharpoonup> snode) \<Rightarrow> addr option \<Rightarrow> (addr \<times> string) list \<Rightarrow> bool" where
  \<comment> \<open>From \<open>p\<close> on the links run through the nodes \<open>xs\<close>.\<close>
  "slist_at nodes p [] \<longleftrightarrow> p = None"
| "slist_at nodes p ((a, s) # xs) \<longleftrightarrow>
     p = Some a \<and> (\<exists>q. nodes a = Some \<lparr>sn_str = s, sn_next = q\<rparr> \<and> slist_at nodes q xs)"

lemma slist_at_cong: "(\<And>a. a \<in> fst ` set xs \<Longrightarrow> nodes' a = nodes a) \<Longrightarrow> slist_at nodes' p xs = slist_at nodes p xs"
  by (induction nodes p xs rule: slist_at.induct) auto

lemma slist_at_append:
  "slist_at nodes p xs \<Longrightarrow> xs \<noteq> [] \<Longrightarrow> last xs = (a, s) \<Longrightarrow> distinct (map fst xs) \<Longrightarrow> n \<notin> fst ` set xs \<Longrightarrow>
    nodes a = Some x \<and> sn_next x = None \<and>
    slist_at (nodes(n \<mapsto> \<lparr>sn_str = t, sn_next = None\<rparr>, a \<mapsto> x\<lparr>sn_next := Some n\<rparr>)) p (xs @ [(n, t)])"
  if "nodes a = Some x" for x
  using that
proof (induction nodes p xs rule: slist_at.induct)
  case (2 nodes p b u xs)
  then obtain q where q: "p = Some b" "nodes b = Some \<lparr>sn_str = u, sn_next = q\<rparr>" "slist_at nodes q xs" by auto
  show ?case
  proof (cases "xs = []")
    case True
    then show ?thesis using 2 q by auto
  next
    case False
    then have l: "last xs = (a, s)" using 2 by simp
    have "(a, s) \<in> set xs" using last_in_set [OF False] l by simp
    then have "a \<noteq> b" using 2(5) by (force simp: image_iff)
    with 2 q False l show ?thesis by auto
  qed
qed simp

lemma slist_at_del: "a \<notin> fst ` set xs \<Longrightarrow> slist_at (nodes(a := None)) p xs = slist_at nodes p xs"
  by (rule slist_at_cong) auto

definition slist_own :: "slist \<Rightarrow> (addr \<times> string) list \<Rightarrow> cheap \<Rightarrow> cheap \<Rightarrow> bool" where
  \<comment> \<open>The list holds \<open>xs\<close>, and its nodes are the blocks obtained since \<open>h0\<close>.\<close>
  "slist_own l xs h0 h \<longleftrightarrow> slist_at (sl_nodes l) (sl_first l) xs \<and> dom (sl_nodes l) = fst ` set xs \<and>
     distinct (map fst xs) \<and> heap_wf h \<and> hp_live h = rev (map fst xs) @ hp_live h0 \<and> hp_bad h = hp_bad h0"

lemma slist_build_ok:
  assumes "slist_own l xs h0 h" "i = length xs" "np = (if xs = [] then None else Some (fst (last xs)))"
  shows "\<exists>ok l' ys h'. slist_build i ss np l h = Some ((ok, l'), h') \<and> slist_own l' ys h0 h' \<and>
    (ok \<longrightarrow> map snd ys = map snd xs @ ss) \<and> (plenty (length ss * sizeof_snode) h \<longrightarrow> ok)"
  using assms
proof (induction ss arbitrary: i np l xs h)
  case Nil
  then show ?case by auto
next
  case (Cons s ss)
  obtain r h1 where m: "malloc sizeof_snode h = (r, h1)" by force
  note O = Cons.prems(1) [unfolded slist_own_def]
  have wf: "heap_wf h1" using O m malloc_wf by blast
  show ?case
  proof (cases r)
    case None
    note D = malloc_NoneD [OF m [unfolded None]]
    have "slist_own l xs h0 h1" using O D wf by (simp add: slist_own_def)
    moreover have "\<not> plenty (length (s # ss) * sizeof_snode) h"
      using m None by (auto simp: plenty_def malloc_def sizeof_snode_def split: if_splits)
    ultimately show ?thesis using m None by auto
  next
    case (Some n)
    note D = malloc_SomeD [OF m [unfolded Some]]
    have "n \<notin> set (hp_live h)" using malloc_fresh [of h] O m Some by blast
    then have fresh: "n \<notin> fst ` set xs" using O by auto
    have "\<exists>l1. (if i = 0 then Some (slist_insert_head n s l) else slist_insert_after np n s l) = Some l1 \<and>
        slist_at (sl_nodes l1) (sl_first l1) (xs @ [(n, s)]) \<and> dom (sl_nodes l1) = insert n (dom (sl_nodes l))"
    proof (cases "xs = []")
      case True
      then show ?thesis using Cons.prems(2) O by (simp add: slist_insert_head_def)
    next
      case False
      obtain a t where a: "last xs = (a, t)" by force
      then have "a \<in> dom (sl_nodes l)" using O last_in_set [OF False] by force
      then obtain x where x: "sl_nodes l a = Some x" by blast
      have "slist_at (sl_nodes l) (sl_first l) xs" "distinct (map fst xs)" using O by blast+
      from slist_at_append [OF x this(1) False a this(2) fresh] x a False Cons.prems(2,3) fresh
      show ?thesis using \<open>a \<in> dom (sl_nodes l)\<close> by (auto simp: slist_insert_after_def)
    qed
    then obtain l1 where l1: "(if i = 0 then Some (slist_insert_head n s l) else slist_insert_after np n s l) = Some l1"
      "slist_at (sl_nodes l1) (sl_first l1) (xs @ [(n, s)])" "dom (sl_nodes l1) = insert n (dom (sl_nodes l))" by blast
    have own: "slist_own l1 (xs @ [(n, s)]) h0 h1" using O D l1 wf fresh by (simp add: slist_own_def)
    have "plenty (length (s # ss) * sizeof_snode) h \<Longrightarrow> plenty (length ss * sizeof_snode) h1"
      using m Some by (auto simp: plenty_def malloc_def sizeof_snode_def split: if_splits)
    with Cons.IH [OF own, of "i + 1" "Some n"] Cons.prems(2) show ?thesis using m Some l1(1) by auto
  qed
qed

lemma slist_print_ok: "slist_at nodes p xs \<Longrightarrow> slist_print nodes p = Some (concat (map (\<lambda>x. snd x @ [CHR 0x0A]) xs))"
  by (induction nodes p xs rule: slist_at.induct) (subst slist_print.simps, auto)+

lemma slist_delete_ok:
  "slist_at (sl_nodes l) (sl_first l) xs \<Longrightarrow> distinct (map fst xs) \<Longrightarrow> set (map fst xs) \<subseteq> set (hp_live h) \<Longrightarrow>
    slist_delete l h = Some (fold (\<lambda>a. cfree (Some a)) (map fst xs) h)"
proof (induction xs arbitrary: l h)
  case Nil
  then show ?case by (subst slist_delete.simps) simp
next
  case (Cons x xs)
  obtain a s where x: "x = (a, s)" by force
  from Cons.prems(1) x obtain q where q: "sl_first l = Some a" "sl_nodes l a = Some \<lparr>sn_str = s, sn_next = q\<rparr>"
    "slist_at (sl_nodes l) q xs" by auto
  let ?l = "l\<lparr>sl_first := q, sl_nodes := (sl_nodes l)(a := None)\<rparr>"
  have 1: "slist_at (sl_nodes ?l) (sl_first ?l) xs"
    using q(3) slist_at_del [of a xs "sl_nodes l" q] Cons.prems(2) x by simp
  have 2: "set (map fst xs) \<subseteq> set (hp_live (cfree (Some a) h))"
    using Cons.prems(2,3) x by (auto simp: cfree_live image_iff intro!: in_set_remove1 [THEN iffD2])
  have d: "distinct (map fst xs)" using Cons.prems(2) by simp
  note IH = Cons.IH [OF 1 d 2]
  show ?case using q x by (subst slist_delete.simps) (simp add: IH [simplified])
qed

text \<open>However many of its calls of \<open>malloc\<close> fail, the program never looks at a node that is not there, releases
  each of its nodes once and keeps none; with memory for all it prints the strings in order, otherwise nothing.\<close>

theorem slist_main_correct:
  assumes "heap_wf h"
  shows "\<exists>out h'. slist_main h = Some (out, h') \<and> mset (hp_live h') = mset (hp_live h) \<and> hp_bad h' = hp_bad h \<and>
    (out = concat (map (\<lambda>s. s @ [CHR 0x0A]) slist_strs) \<or> out = [] \<and> \<not> plenty (length slist_strs * sizeof_snode) h)"
proof -
  have "slist_own slist_init [] h h" using assms by (simp add: slist_own_def slist_init_def)
  from slist_build_ok [OF this, of 0 None slist_strs] obtain ok l ys h1 where
    b: "slist_build 0 slist_strs None slist_init h = Some ((ok, l), h1)" "slist_own l ys h h1"
      "ok \<longrightarrow> map snd ys = slist_strs" "plenty (length slist_strs * sizeof_snode) h \<longrightarrow> ok" by auto
  note O = b(2) [unfolded slist_own_def]
  have p: "slist_print (sl_nodes l) (sl_first l) = Some (concat (map (\<lambda>s. s @ [CHR 0x0A]) (map snd ys)))"
    using slist_print_ok O by (simp add: comp_def)
  have "set (map fst ys) \<subseteq> set (hp_live h1)" using O by auto
  then have d: "slist_delete l h1 = Some (fold (\<lambda>a. cfree (Some a)) (map fst ys) h1)" using slist_delete_ok O by blast
  have "mset (map fst ys) \<subseteq># mset (hp_live h1)" using O by simp
  from cfrees_mset [OF this] O
  have "mset (hp_live (fold (\<lambda>a. cfree (Some a)) (map fst ys) h1)) = mset (hp_live h)"
    "hp_bad (fold (\<lambda>a. cfree (Some a)) (map fst ys) h1) = hp_bad h" by simp_all
  with b p d show ?thesis by (cases ok) (auto simp: slist_main_def)
qed

lemma slist_main_correct_witness:
  "\<exists>h'. slist_main \<lparr>hp_next = 8, hp_limit = 60, hp_live = [], hp_sched = [], hp_bad = False\<rparr> = Some ([], h') \<and> hp_live h' = []"
proof -
  let ?h = "\<lparr>hp_next = 8, hp_limit = 60, hp_live = [], hp_sched = [], hp_bad = False\<rparr>"
  have "heap_wf ?h" by (simp add: heap_wf_def)
  from slist_main_correct [OF this] obtain out h' where
    m: "slist_main ?h = Some (out, h')" "mset (hp_live h') = {#}"
      "out = concat (map (\<lambda>s. s @ [CHR 0x0A]) slist_strs) \<or> out = []" by auto
  have "\<exists>l h1. slist_build 0 slist_strs None slist_init ?h = Some ((False, l), h1)"
    by (simp add: slist_strs_def malloc_def sizeof_snode_def slist_insert_head_def slist_insert_after_def slist_init_def)
  then have "out = []" using m(1) by (auto simp: slist_main_def split: bind_splits)
  with m show ?thesis by auto
qed

section \<open>A tail queue\<close>

text \<open>
  \<open>tqe_prev\<close> and \<open>tqh_last\<close> point to a pointer: to \<open>tqh_first\<close> of the head, or to \<open>tqe_next\<close> of a node.
\<close>

datatype tq_ref = In_head | In_node addr

record tnode =
  tn_str :: string
  tn_next :: "addr option"
  tn_prev :: tq_ref

record tailq =
  tq_first :: "addr option"
  tq_last :: tq_ref
  tq_nodes :: "addr \<rightharpoonup> tnode"

definition sizeof_tnode :: nat where "sizeof_tnode = 24"

definition tq_load :: "tailq \<Rightarrow> tq_ref \<Rightarrow> addr option option" where
  \<comment> \<open>\<open>*r\<close>\<close>
  "tq_load q r = (case r of In_head \<Rightarrow> Some (tq_first q) | In_node a \<Rightarrow> do { x \<leftarrow> tq_nodes q a; Some (tn_next x) })"

definition tq_store :: "tq_ref \<Rightarrow> addr option \<Rightarrow> tailq \<Rightarrow> tailq option" where
  \<comment> \<open>\<open>*r = v\<close>\<close>
  "tq_store r v q =
     (case r of
        In_head \<Rightarrow> Some (q\<lparr>tq_first := v\<rparr>)
      | In_node a \<Rightarrow> do { x \<leftarrow> tq_nodes q a; Some (q\<lparr>tq_nodes := (tq_nodes q)(a \<mapsto> x\<lparr>tn_next := v\<rparr>)\<rparr>) })"

definition tq_before :: "tailq \<Rightarrow> tq_ref \<Rightarrow> tq_ref option" where
  \<comment> \<open>The second pointer of the head or node in which \<open>r\<close> is the first.\<close>
  "tq_before q r = (case r of In_head \<Rightarrow> Some (tq_last q) | In_node a \<Rightarrow> do { x \<leftarrow> tq_nodes q a; Some (tn_prev x) })"

definition tq_init :: tailq where
  "tq_init = \<lparr>tq_first = None, tq_last = In_head, tq_nodes = Map.empty\<rparr>"

definition tq_insert_tail :: "addr \<Rightarrow> string \<Rightarrow> tailq \<Rightarrow> tailq option" where
  "tq_insert_tail n s q =
     do { q1 \<leftarrow> tq_store (tq_last q) (Some n)
            (q\<lparr>tq_nodes := (tq_nodes q)(n \<mapsto> \<lparr>tn_str = s, tn_next = None, tn_prev = tq_last q\<rparr>)\<rparr>);
          Some (q1\<lparr>tq_last := In_node n\<rparr>) }"

definition tq_last_elm :: "tailq \<Rightarrow> addr option option" where
  \<comment> \<open>\<open>TAILQ_LAST\<close>\<close>
  "tq_last_elm q = do { r \<leftarrow> tq_before q (tq_last q); tq_load q r }"

definition tq_prev_elm :: "tailq \<Rightarrow> addr \<Rightarrow> addr option option" where
  \<comment> \<open>\<open>TAILQ_PREV\<close>\<close>
  "tq_prev_elm q a = do { x \<leftarrow> tq_nodes q a; r \<leftarrow> tq_before q (tn_prev x); tq_load q r }"

definition tq_remove :: "addr \<Rightarrow> tailq \<Rightarrow> tailq option" where
  "tq_remove a q =
     do { x \<leftarrow> tq_nodes q a;
          q1 \<leftarrow> (case tn_next x of
                  Some b \<Rightarrow> do { y \<leftarrow> tq_nodes q b; Some (q\<lparr>tq_nodes := (tq_nodes q)(b \<mapsto> y\<lparr>tn_prev := tn_prev x\<rparr>)\<rparr>) }
                | None \<Rightarrow> Some (q\<lparr>tq_last := tn_prev x\<rparr>));
          tq_store (tn_prev x) (tn_next x) q1 }"

fun tailq_build :: "string list \<Rightarrow> tailq \<Rightarrow> cheap \<Rightarrow> ((bool \<times> tailq) \<times> cheap) option" where
  "tailq_build [] q h = Some ((True, q), h)"
| "tailq_build (s # ss) q h =
     (case malloc sizeof_tnode h of
        (None, h1) \<Rightarrow> Some ((False, q), h1)
      | (Some n, h1) \<Rightarrow> do { q1 \<leftarrow> tq_insert_tail n s q; tailq_build ss q1 h1 })"

definition tq_item :: "string \<Rightarrow> addr option \<Rightarrow> string" where
  "tq_item s other = s @ '' '' @ (if other \<noteq> None then ''-> '' else [CHR 0x0A])"

partial_function (option) tailq_print :: "tailq \<Rightarrow> addr option \<Rightarrow> string option" where
  \<comment> \<open>\<open>TAILQ_FOREACH\<close>, from \<open>np\<close> on.\<close>
  "tailq_print q np =
     (case np of
        None \<Rightarrow> Some []
      | Some a \<Rightarrow> do { x \<leftarrow> tq_nodes q a; r \<leftarrow> tailq_print q (tn_next x); Some (tq_item (tn_str x) (tn_next x) @ r) })"

partial_function (option) tailq_print_back :: "tailq \<Rightarrow> addr option \<Rightarrow> string option" where
  \<comment> \<open>\<open>TAILQ_FOREACH_REVERSE\<close>, from \<open>np\<close> on.\<close>
  "tailq_print_back q np =
     (case np of
        None \<Rightarrow> Some []
      | Some a \<Rightarrow> do { x \<leftarrow> tq_nodes q a; p \<leftarrow> tq_prev_elm q a; r \<leftarrow> tailq_print_back q p; Some (tq_item (tn_str x) p @ r) })"

partial_function (option) tailq_delete :: "tailq \<Rightarrow> cheap \<Rightarrow> cheap option" where
  "tailq_delete q h =
     (case tq_first q of
        None \<Rightarrow> Some h
      | Some a \<Rightarrow> do { q1 \<leftarrow> tq_remove a q; tailq_delete (q1\<lparr>tq_nodes := (tq_nodes q1)(a := None)\<rparr>) (cfree (Some a) h) })"

declare tailq_print.simps [code] tailq_print_back.simps [code] tailq_delete.simps [code]

definition tailq_strs :: "string list" where
  "tailq_strs = [''this'', ''is'', ''a'', ''double'', ''linked'', ''tailq'']"

definition tailq_main :: "cheap \<Rightarrow> (string \<times> cheap) option" where
  "tailq_main h =
     do { ((ok, q), h1) \<leftarrow> tailq_build tailq_strs tq_init h;
          out \<leftarrow> (if ok then do { s \<leftarrow> tailq_print q (tq_first q);
                                  e \<leftarrow> tq_last_elm q;
                                  t \<leftarrow> tailq_print_back q e;
                                  Some (s @ t) }
                 else Some []);
          h2 \<leftarrow> tailq_delete q h1;
          Some (out, h2) }"

section \<open>The queue in memory\<close>

fun tq_at :: "(addr \<rightharpoonup> tnode) \<Rightarrow> tq_ref \<Rightarrow> addr option \<Rightarrow> tq_ref \<Rightarrow> (addr \<times> string) list \<Rightarrow> bool" where
  \<comment> \<open>From \<open>p\<close> on, which is stored at \<open>r\<close>, the links run through the nodes \<open>xs\<close>, and \<open>l\<close> is where they end.\<close>
  "tq_at nodes r p l [] \<longleftrightarrow> p = None \<and> l = r"
| "tq_at nodes r p l ((a, s) # xs) \<longleftrightarrow>
     p = Some a \<and> (\<exists>n. nodes a = Some \<lparr>tn_str = s, tn_next = n, tn_prev = r\<rparr> \<and> tq_at nodes (In_node a) n l xs)"

lemma tq_at_cong: "(\<And>a. a \<in> fst ` set xs \<Longrightarrow> nodes' a = nodes a) \<Longrightarrow> tq_at nodes' r p l xs = tq_at nodes r p l xs"
  by (induction nodes r p l xs rule: tq_at.induct) auto

lemma tq_at_node:
  "tq_at nodes r p l (ys @ (a, s) # zs) \<Longrightarrow>
    nodes a = Some \<lparr>tn_str = s, tn_next = (if zs = [] then None else Some (fst (hd zs))),
      tn_prev = (if ys = [] then r else In_node (fst (last ys)))\<rparr> \<and>
    l = In_node (fst (last ((a, s) # zs))) \<and> p = Some (fst (hd (ys @ [(a, s)])))"
proof (induction ys arbitrary: r p)
  case Nil
  have end_: "tq_at nodes r p l xs \<Longrightarrow> l = (if xs = [] then r else In_node (fst (last xs)))" for r p xs
    by (induction nodes r p l xs rule: tq_at.induct) auto
  from Nil obtain n where "nodes a = Some \<lparr>tn_str = s, tn_next = n, tn_prev = r\<rparr>" "tq_at nodes (In_node a) n l zs" "p = Some a" by auto
  with end_ [of "In_node a" n zs] show ?case by (cases zs) auto
next
  case (Cons y ys)
  obtain b t where y: "y = (b, t)" by force
  with Cons.prems obtain n where "p = Some b" "tq_at nodes (In_node b) n l (ys @ (a, s) # zs)" by auto
  with Cons.IH [of "In_node b" n] y show ?case by auto
qed

lemma tq_at_append:
  "tq_at nodes r p l xs \<Longrightarrow> xs \<noteq> [] \<Longrightarrow> distinct (map fst xs) \<Longrightarrow> n \<notin> fst ` set xs \<Longrightarrow>
    \<exists>b x. l = In_node b \<and> b \<in> fst ` set xs \<and> nodes b = Some x \<and>
      tq_at (nodes(n \<mapsto> \<lparr>tn_str = t, tn_next = None, tn_prev = l\<rparr>, b \<mapsto> x\<lparr>tn_next := Some n\<rparr>)) r p (In_node n) (xs @ [(n, t)])"
proof (induction xs arbitrary: r p)
  case (Cons y xs)
  obtain a s where y: "y = (a, s)" by force
  with Cons.prems obtain m where m: "p = Some a" "nodes a = Some \<lparr>tn_str = s, tn_next = m, tn_prev = r\<rparr>"
    "tq_at nodes (In_node a) m l xs" by auto
  show ?case
  proof (cases "xs = []")
    case True
    then show ?thesis using m y Cons.prems by auto
  next
    case False
    have d: "distinct (map fst xs)" "n \<notin> fst ` set xs" using Cons.prems(3,4) by auto
    from Cons.IH [OF m(3) False d] obtain b x where
      b: "l = In_node b" "b \<in> fst ` set xs" "nodes b = Some x"
        "tq_at (nodes(n \<mapsto> \<lparr>tn_str = t, tn_next = None, tn_prev = l\<rparr>, b \<mapsto> x\<lparr>tn_next := Some n\<rparr>)) (In_node a) m (In_node n) (xs @ [(n, t)])"
      by blast
    have "a \<noteq> b" using b(2) Cons.prems(3) y by auto
    let ?N = "nodes(n \<mapsto> \<lparr>tn_str = t, tn_next = None, tn_prev = l\<rparr>, b \<mapsto> x\<lparr>tn_next := Some n\<rparr>)"
    have "?N a = nodes a" using \<open>a \<noteq> b\<close> Cons.prems(4) y by auto
    then have "tq_at ?N r p (In_node n) ((y # xs) @ [(n, t)])" using m(1,2) b(4) y by simp
    moreover have "b \<in> fst ` set (y # xs)" using b(2) by simp
    ultimately show ?thesis using b(1,3) by blast
  qed
qed simp

fun tq_line :: "string list \<Rightarrow> string" where
  "tq_line [] = []"
| "tq_line (s # ss) = s @ '' '' @ (if ss = [] then [CHR 0x0A] else ''-> '') @ tq_line ss"

lemma tailq_print_ok: "tq_at (tq_nodes q) r p l xs \<Longrightarrow> tailq_print q p = Some (tq_line (map snd xs))"
proof (induction xs arbitrary: r p)
  case Nil
  then show ?case by (subst tailq_print.simps) simp
next
  case (Cons x xs)
  obtain a s where x: "x = (a, s)" by force
  with Cons.prems obtain n where n: "p = Some a" "tq_nodes q a = Some \<lparr>tn_str = s, tn_next = n, tn_prev = r\<rparr>"
    "tq_at (tq_nodes q) (In_node a) n l xs" by auto
  have "(n = None) = (xs = [])" using n(3) by (cases xs) auto
  with Cons.IH [OF n(3)] n x show ?case by (subst tailq_print.simps) (cases n, simp_all add: tq_item_def)
qed

definition tq_ok :: "tailq \<Rightarrow> (addr \<times> string) list \<Rightarrow> bool" where
  "tq_ok q xs \<longleftrightarrow> tq_at (tq_nodes q) In_head (tq_first q) (tq_last q) xs \<and> distinct (map fst xs) \<and> dom (tq_nodes q) = fst ` set xs"

lemma tq_prev_ok:
  assumes "tq_ok q (ys @ (a, s) # zs)"
  shows "tq_prev_elm q a = Some (if ys = [] then None else Some (fst (last ys)))"
proof -
  note at = assms [unfolded tq_ok_def, THEN conjunct1]
  note A = tq_at_node [OF at]
  obtain xs e t where l: "(a, s) # zs = xs @ [(e, t)]" by (metis prod.exhaust rev_exhaust list.distinct(1))
  have E: "tq_nodes q e = Some \<lparr>tn_str = t, tn_next = None, tn_prev = (if ys @ xs = [] then In_head else In_node (fst (last (ys @ xs))))\<rparr>"
    using tq_at_node [of "tq_nodes q" In_head _ _ "ys @ xs" e t "[]"] at l by simp
  show ?thesis
  proof (cases ys rule: rev_exhaust)
    case Nil
    then show ?thesis using A E l by (simp add: tq_prev_elm_def tq_before_def tq_load_def)
  next
    case (snoc vs v)
    obtain b u where v: "v = (b, u)" by force
    have at2: "tq_at (tq_nodes q) In_head (tq_first q) (tq_last q) (vs @ (b, u) # (a, s) # zs)" using at snoc v by simp
    note B = tq_at_node [OF at2]
    show ?thesis
    proof (cases vs rule: rev_exhaust)
      case Nil
      then show ?thesis using A B snoc v by (simp add: tq_prev_elm_def tq_before_def tq_load_def)
    next
      case (snoc us w)
      obtain c k where w: "w = (c, k)" by force
      have at3: "tq_at (tq_nodes q) In_head (tq_first q) (tq_last q) (us @ (c, k) # (b, u) # (a, s) # zs)" using at2 snoc w by simp
      note C = tq_at_node [OF at3]
      show ?thesis using A B C \<open>ys = vs @ [v]\<close> snoc v w by (simp add: tq_prev_elm_def tq_before_def tq_load_def)
    qed
  qed
qed

lemma tq_last_ok:
  assumes "tq_ok q xs"
  shows "tq_last_elm q = Some (if xs = [] then None else Some (fst (last xs)))"
proof (cases xs rule: rev_exhaust)
  case Nil
  then show ?thesis using assms by (simp add: tq_ok_def tq_last_elm_def tq_before_def tq_load_def)
next
  case (snoc ys x)
  obtain a s where x: "x = (a, s)" by force
  note at = assms [unfolded tq_ok_def snoc x, THEN conjunct1]
  note A = tq_at_node [OF at]
  show ?thesis
  proof (cases ys rule: rev_exhaust)
    case Nil
    then show ?thesis using A snoc x by (simp add: tq_last_elm_def tq_before_def tq_load_def)
  next
    case (snoc vs v)
    obtain b u where v: "v = (b, u)" by force
    have "tq_at (tq_nodes q) In_head (tq_first q) (tq_last q) (vs @ (b, u) # [(a, s)])" using at snoc v by simp
    from tq_at_node [OF this] A snoc v x \<open>xs = ys @ [x]\<close> show ?thesis by (simp add: tq_last_elm_def tq_before_def tq_load_def)
  qed
qed

lemma tailq_print_back_ok:
  "tq_ok q (ys @ zs) \<Longrightarrow> tailq_print_back q (if ys = [] then None else Some (fst (last ys))) = Some (tq_line (rev (map snd ys)))"
proof (induction ys arbitrary: zs rule: rev_induct)
  case Nil
  then show ?case by (subst tailq_print_back.simps) simp
next
  case (snoc y ys)
  obtain a s where y: "y = (a, s)" by force
  with snoc.prems have ok: "tq_ok q (ys @ (a, s) # zs)" by simp
  then have "\<exists>n r. tq_nodes q a = Some \<lparr>tn_str = s, tn_next = n, tn_prev = r\<rparr>" using tq_at_node [OF ok [unfolded tq_ok_def, THEN conjunct1]] by simp
  with snoc.IH [OF ok] tq_prev_ok [OF ok] y show ?case
    by (subst tailq_print_back.simps) (auto simp: tq_item_def)
qed

definition tq_own :: "tailq \<Rightarrow> (addr \<times> string) list \<Rightarrow> cheap \<Rightarrow> cheap \<Rightarrow> bool" where
  \<comment> \<open>The queue holds \<open>xs\<close>, and its nodes are the blocks obtained since \<open>h0\<close>.\<close>
  "tq_own q xs h0 h \<longleftrightarrow> tq_ok q xs \<and> heap_wf h \<and> hp_live h = rev (map fst xs) @ hp_live h0 \<and> hp_bad h = hp_bad h0"

lemma tq_insert_ok:
  assumes ok: "tq_ok q xs" and n: "n \<notin> fst ` set xs"
  shows "\<exists>q'. tq_insert_tail n s q = Some q' \<and> tq_ok q' (xs @ [(n, s)])"
proof (cases "xs = []")
  case True
  then show ?thesis using ok by (simp add: tq_ok_def tq_insert_tail_def tq_store_def)
next
  case False
  have "tq_at (tq_nodes q) In_head (tq_first q) (tq_last q) xs" "distinct (map fst xs)" using ok by (simp_all add: tq_ok_def)
  from tq_at_append [OF this(1) False this(2) n, of s] obtain b x where
    b: "tq_last q = In_node b" "b \<in> fst ` set xs" "tq_nodes q b = Some x"
      "tq_at ((tq_nodes q)(n \<mapsto> \<lparr>tn_str = s, tn_next = None, tn_prev = tq_last q\<rparr>, b \<mapsto> x\<lparr>tn_next := Some n\<rparr>))
         In_head (tq_first q) (In_node n) (xs @ [(n, s)])" by blast
  have "b \<noteq> n" using b(2) n by blast
  let ?N = "(tq_nodes q)(n \<mapsto> \<lparr>tn_str = s, tn_next = None, tn_prev = tq_last q\<rparr>, b \<mapsto> x\<lparr>tn_next := Some n\<rparr>)"
  have "tq_insert_tail n s q = Some (q\<lparr>tq_nodes := ?N, tq_last := In_node n\<rparr>)"
    using b(1,3) \<open>b \<noteq> n\<close> by (simp add: tq_insert_tail_def tq_store_def)
  moreover have "tq_ok (q\<lparr>tq_nodes := ?N, tq_last := In_node n\<rparr>) (xs @ [(n, s)])"
    unfolding tq_ok_def
  proof (intro conjI)
    show "tq_at (tq_nodes (q\<lparr>tq_nodes := ?N, tq_last := In_node n\<rparr>)) In_head (tq_first (q\<lparr>tq_nodes := ?N, tq_last := In_node n\<rparr>))
        (tq_last (q\<lparr>tq_nodes := ?N, tq_last := In_node n\<rparr>)) (xs @ [(n, s)])" using b(4) by simp
    show "distinct (map fst (xs @ [(n, s)]))" using ok n by (simp add: tq_ok_def)
    show "dom (tq_nodes (q\<lparr>tq_nodes := ?N, tq_last := In_node n\<rparr>)) = fst ` set (xs @ [(n, s)])"
      using ok b(2) by (auto simp: tq_ok_def)
  qed
  ultimately show ?thesis by blast
qed

lemma tq_remove_ok:
  assumes "tq_ok q ((a, s) # xs)"
  shows "\<exists>q'. tq_remove a q = Some q' \<and> tq_ok (q'\<lparr>tq_nodes := (tq_nodes q')(a := None)\<rparr>) xs"
proof -
  obtain n where n: "tq_first q = Some a" "tq_nodes q a = Some \<lparr>tn_str = s, tn_next = n, tn_prev = In_head\<rparr>"
    "tq_at (tq_nodes q) (In_node a) n (tq_last q) xs" using assms by (auto simp: tq_ok_def)
  have d: "a \<notin> fst ` set xs" "distinct (map fst xs)" "dom (tq_nodes q) = insert a (fst ` set xs)"
    using assms by (simp_all add: tq_ok_def)
  show ?thesis
  proof (cases xs)
    case Nil
    then show ?thesis using n d by (auto simp: tq_remove_def tq_store_def tq_ok_def)
  next
    case (Cons y ys)
    obtain b t where y: "y = (b, t)" by force
    with Cons n(3) obtain m where m: "n = Some b" "tq_nodes q b = Some \<lparr>tn_str = t, tn_next = m, tn_prev = In_node a\<rparr>"
      "tq_at (tq_nodes q) (In_node b) m (tq_last q) ys" by auto
    let ?q = "q\<lparr>tq_nodes := (tq_nodes q)(b \<mapsto> \<lparr>tn_str = t, tn_next = m, tn_prev = In_head\<rparr>), tq_first := n\<rparr>"
    have run: "tq_remove a q = Some ?q" using n m by (simp add: tq_remove_def tq_store_def)
    have ab: "a \<noteq> b" "a \<notin> fst ` set ys" "b \<notin> fst ` set ys" using d Cons y by auto
    let ?N = "(tq_nodes ?q)(a := None)"
    have "tq_at ?N (In_node b) m (tq_last q) ys"
      by (subst tq_at_cong [of ys _ "tq_nodes q"]) (use m(3) ab in auto)
    then have "tq_at ?N In_head n (tq_last q) xs" using Cons y m(1) ab by simp
    moreover have "dom ?N = fst ` set xs" using d Cons y ab by auto
    ultimately show ?thesis using run d(2) by (simp add: tq_ok_def)
  qed
qed

lemma tailq_build_ok:
  assumes "tq_own q xs h0 h"
  shows "\<exists>ok q' ys h'. tailq_build ss q h = Some ((ok, q'), h') \<and> tq_own q' ys h0 h' \<and>
    (ok \<longrightarrow> map snd ys = map snd xs @ ss) \<and> (plenty (length ss * sizeof_tnode) h \<longrightarrow> ok)"
  using assms
proof (induction ss arbitrary: q xs h)
  case Nil
  then show ?case by auto
next
  case (Cons s ss)
  obtain r h1 where m: "malloc sizeof_tnode h = (r, h1)" by force
  note O = Cons.prems(1) [unfolded tq_own_def]
  have wf: "heap_wf h1" using O m malloc_wf by blast
  show ?case
  proof (cases r)
    case None
    note D = malloc_NoneD [OF m [unfolded None]]
    have "tq_own q xs h0 h1" using O D wf by (simp add: tq_own_def)
    moreover have "\<not> plenty (length (s # ss) * sizeof_tnode) h"
      using m None by (auto simp: plenty_def malloc_def sizeof_tnode_def split: if_splits)
    ultimately show ?thesis using m None by auto
  next
    case (Some n)
    note D = malloc_SomeD [OF m [unfolded Some]]
    have "n \<notin> set (hp_live h)" using malloc_fresh [of h] O m Some by blast
    then have fresh: "n \<notin> fst ` set xs" using O by auto
    from tq_insert_ok [of q xs n s] O fresh obtain q1 where q1: "tq_insert_tail n s q = Some q1" "tq_ok q1 (xs @ [(n, s)])" by blast
    have own: "tq_own q1 (xs @ [(n, s)]) h0 h1" using O D q1 wf by (simp add: tq_own_def)
    have "plenty (length (s # ss) * sizeof_tnode) h \<Longrightarrow> plenty (length ss * sizeof_tnode) h1"
      using m Some by (auto simp: plenty_def malloc_def sizeof_tnode_def split: if_splits)
    with Cons.IH [OF own] show ?thesis using m Some q1(1) by auto
  qed
qed

lemma tailq_delete_ok:
  "tq_ok q xs \<Longrightarrow> tailq_delete q h = Some (fold (\<lambda>a. cfree (Some a)) (map fst xs) h)"
proof (induction xs arbitrary: q h)
  case Nil
  then show ?case by (subst tailq_delete.simps) (simp add: tq_ok_def)
next
  case (Cons x xs)
  obtain a s where x: "x = (a, s)" by force
  with tq_remove_ok [of q a s xs] Cons.prems obtain q' where
    q': "tq_remove a q = Some q'" "tq_ok (q'\<lparr>tq_nodes := (tq_nodes q')(a := None)\<rparr>) xs" by blast
  have "tq_first q = Some a" using Cons.prems x by (simp add: tq_ok_def)
  then show ?case using q'(1) x by (subst tailq_delete.simps) (simp add: Cons.IH [OF q'(2)])
qed

text \<open>However many of its calls of \<open>malloc\<close> fail, the program never follows a link to a node that is not there,
  releases each of its nodes once and keeps none; with memory for all it prints the strings in order and then in reverse
  order, otherwise nothing.\<close>

theorem tailq_main_correct:
  assumes "heap_wf h"
  shows "\<exists>out h'. tailq_main h = Some (out, h') \<and> mset (hp_live h') = mset (hp_live h) \<and> hp_bad h' = hp_bad h \<and>
    (out = tq_line tailq_strs @ tq_line (rev tailq_strs) \<or> out = [] \<and> \<not> plenty (length tailq_strs * sizeof_tnode) h)"
proof -
  have "tq_own tq_init [] h h" using assms by (simp add: tq_own_def tq_ok_def tq_init_def)
  from tailq_build_ok [OF this, of tailq_strs] obtain ok q ys h1 where
    b: "tailq_build tailq_strs tq_init h = Some ((ok, q), h1)" "tq_own q ys h h1"
      "ok \<longrightarrow> map snd ys = tailq_strs" "plenty (length tailq_strs * sizeof_tnode) h \<longrightarrow> ok" by auto
  note O = b(2) [unfolded tq_own_def]
  have p: "tailq_print q (tq_first q) = Some (tq_line (map snd ys))" using O tailq_print_ok unfolding tq_ok_def by blast
  have l: "tq_last_elm q = Some (if ys = [] then None else Some (fst (last ys)))" using O tq_last_ok by blast
  have k: "tailq_print_back q (if ys = [] then None else Some (fst (last ys))) = Some (tq_line (rev (map snd ys)))"
    using tailq_print_back_ok [of q ys "[]"] O by simp
  have d: "tailq_delete q h1 = Some (fold (\<lambda>a. cfree (Some a)) (map fst ys) h1)" using tailq_delete_ok O by blast
  have "mset (map fst ys) \<subseteq># mset (hp_live h1)" using O by simp
  from cfrees_mset [OF this] O
  have "mset (hp_live (fold (\<lambda>a. cfree (Some a)) (map fst ys) h1)) = mset (hp_live h)"
    "hp_bad (fold (\<lambda>a. cfree (Some a)) (map fst ys) h1) = hp_bad h" by simp_all
  with b p l k d show ?thesis by (cases ok) (simp_all add: tailq_main_def)
qed

lemma tailq_main_correct_witness:
  "\<exists>h'. tailq_main \<lparr>hp_next = 8, hp_limit = 900, hp_live = [4], hp_sched = [], hp_bad = False\<rparr> =
     Some (tq_line tailq_strs @ tq_line (rev tailq_strs), h') \<and> hp_live h' = [4]"
proof -
  let ?h = "\<lparr>hp_next = 8, hp_limit = 900, hp_live = [4], hp_sched = [], hp_bad = False\<rparr>"
  have "heap_wf ?h" "plenty (length tailq_strs * sizeof_tnode) ?h"
    by (simp_all add: heap_wf_def plenty_def tailq_strs_def sizeof_tnode_def)
  with tailq_main_correct [of ?h] show ?thesis by auto
qed

end
