(* ===== verification/Threads.thy ===== *)
theory Threads imports Main "HOL-Library.Word" "HOL-Library.Monad_Syntax" begin

text \<open>
  Programs of several threads. A program is a function \<open>tstep\<close>: the state after the next atomic
  action of a thread, or \<open>None\<close> when that thread does not exist, has ended or is blocked. A
  schedule is the list of the threads in the order in which they act. The locale \<open>program\<close> is
  what a program's model proves of each action; its lemmas carry it to all schedules.
\<close>

fun run :: "(nat \<Rightarrow> 's \<Rightarrow> 's option) \<Rightarrow> nat list \<Rightarrow> 's \<Rightarrow> 's option" where
  "run tstep [] s = Some s"
| "run tstep (t # ts) s = do { s' \<leftarrow> tstep t s; run tstep ts s' }"

definition stopped :: "(nat \<Rightarrow> 's \<Rightarrow> 's option) \<Rightarrow> 's \<Rightarrow> bool" where
  \<comment> \<open>No thread can act any more.\<close>
  "stopped tstep s \<longleftrightarrow> (\<forall>t. tstep t s = None)"

lemma run_append: "run tstep (ts @ us) s = do { s' \<leftarrow> run tstep ts s; run tstep us s' }"
  by (induction ts arbitrary: s) (auto split: bind_splits)

locale program =
  fixes tstep :: "nat \<Rightarrow> 's \<Rightarrow> 's option" and inv :: "'s \<Rightarrow> bool" and mu :: "'s \<Rightarrow> nat"
  assumes inv_step: "inv s \<Longrightarrow> tstep t s = Some s' \<Longrightarrow> inv s'"
    and mu_step: "inv s \<Longrightarrow> tstep t s = Some s' \<Longrightarrow> mu s' < mu s"
begin

lemma run_ok: "inv s \<Longrightarrow> run tstep ts s = Some s' \<Longrightarrow> inv s' \<and> length ts + mu s' \<le> mu s"
proof (induction ts arbitrary: s)
  case (Cons t ts)
  then obtain s1 where s1: "tstep t s = Some s1" "run tstep ts s1 = Some s'"
    by (auto split: bind_splits)
  from Cons.IH [OF inv_step [OF Cons.prems(1) s1(1)] s1(2)] mu_step [OF Cons.prems(1) s1(1)]
  show ?case by simp
qed simp

lemma run_stops: "inv s \<Longrightarrow> \<exists>ts s'. run tstep ts s = Some s' \<and> stopped tstep s'"
proof (induction "mu s" arbitrary: s rule: less_induct)
  case less
  show ?case
  proof (cases "stopped tstep s")
    case True
    then show ?thesis by (intro exI [of _ "[]"]) simp
  next
    case False
    then obtain t s1 where s1: "tstep t s = Some s1" by (auto simp: stopped_def)
    from less.hyps [OF mu_step [OF less.prems s1] inv_step [OF less.prems s1]] obtain ts s' where
      "run tstep ts s1 = Some s'" "stopped tstep s'" by blast
    then show ?thesis using s1 by (intro exI [of _ "t # ts"]) simp
  qed
qed

end

section \<open>Counting threads\<close>

definition cnt :: "('a \<Rightarrow> bool) \<Rightarrow> 'a list \<Rightarrow> nat" where
  "cnt P xs = length (filter P xs)"

lemma cnt_simps [simp]: "cnt P [] = 0" "cnt P (x # xs) = of_bool (P x) + cnt P xs"
  by (simp_all add: cnt_def)

lemma cnt_update: "i < length xs \<Longrightarrow> cnt P (xs[i := y]) + of_bool (P (xs ! i)) = cnt P xs + of_bool (P y)"
proof (induction xs arbitrary: i)
  case (Cons x xs)
  then show ?case by (cases i) auto
qed simp

lemma cnt_pos: "i < length xs \<Longrightarrow> P (xs ! i) \<Longrightarrow> 0 < cnt P xs"
  by (auto simp: cnt_def filter_empty_conv)

lemma cnt_two:
  "i < length xs \<Longrightarrow> j < length xs \<Longrightarrow> i \<noteq> j \<Longrightarrow> P (xs ! i) \<Longrightarrow> P (xs ! j) \<Longrightarrow> 2 \<le> cnt P xs"
proof (induction xs arbitrary: i j)
  case (Cons x xs)
  then show ?case
    by (cases i; cases j) (auto dest: cnt_pos intro: le_trans [OF Cons.IH])
qed simp

lemma cnt_0: "cnt P xs = 0 \<longleftrightarrow> (\<forall>x\<in>set xs. \<not> P x)"
  by (simp add: cnt_def filter_empty_conv)

lemma cnt_replicate [simp]: "cnt P (replicate n x) = (if P x then n else 0)"
  by (simp add: cnt_def)

lemma sum_update:
  "i < length xs \<Longrightarrow> sum_list (map f (xs[i := y])) + f (xs ! i) = sum_list (map f xs) + (f y :: nat)"
proof (induction xs arbitrary: i)
  case (Cons x xs)
  then show ?case by (cases i) auto
qed simp

end
