(* ===== verification/Fsm_Race.thy ===== *)
theory Fsm_Race imports Queues Threads begin

text \<open>
  The queue that the threads of \<open>fsm/test_thread.c\<close> share: the two producers run \<open>fsm_queue_event\<close>, the consumer
  \<open>fsm_dequeue_event\<close> of \<open>fsm/fsm.c\<close>, each in a loop. All events have the same priority, so one queue is used. Every
  access to a link is an action of its own, as the macros \<open>STAILQ_INSERT_TAIL\<close> and \<open>STAILQ_REMOVE_HEAD\<close> make them.
  \<open>fsm_queue_event\<close> holds the mutex while it links a node; \<open>fsm_dequeue_event\<close> does not take it. The lemmas are about
  the producers alone, about what can go wrong with the consumer, and about the runs in which nothing does.
\<close>

section \<open>The shared queue\<close>

datatype pr_pc = PR_idle | PR_lock addr | PR_null addr | PR_load addr | PR_store addr tq_ref | PR_last addr | PR_unlock

datatype co_pc = CO_test | CO_process addr | CO_first | CO_next addr | CO_read addr addr | CO_write addr "addr option" | CO_fix addr | CO_free addr

record squeue =
  sq_first :: "addr option"
  sq_last :: tq_ref
  sq_next :: "addr \<rightharpoonup> addr option"
  sq_lock :: bool
  sq_prod :: "pr_pc list"
  sq_cons :: co_pc
  sq_new :: addr
  sq_bad :: bool
  sq_queued :: "addr list"
  sq_served :: "addr list"

definition sq_init :: squeue where
  "sq_init = \<lparr>sq_first = None, sq_last = In_head, sq_next = Map.empty, sq_lock = False, sq_prod = [PR_idle, PR_idle],
     sq_cons = CO_test, sq_new = 1, sq_bad = False, sq_queued = [], sq_served = []\<rparr>"

definition sq_set :: "nat \<Rightarrow> pr_pc \<Rightarrow> squeue \<Rightarrow> squeue" where
  "sq_set t pc s = s\<lparr>sq_prod := (sq_prod s)[t := pc]\<rparr>"

definition sq_write :: "addr \<Rightarrow> addr option \<Rightarrow> squeue \<Rightarrow> squeue" where
  \<comment> \<open>Writing the link of a node; that of a node that was released is undefined.\<close>
  "sq_write a v s = (if sq_next s a = None then s\<lparr>sq_bad := True\<rparr> else s\<lparr>sq_next := (sq_next s)(a \<mapsto> v)\<rparr>)"

definition sq_queue_event :: "nat \<Rightarrow> squeue \<Rightarrow> squeue option" where
  \<comment> \<open>\<open>fsm_queue_event\<close> of producer \<open>t\<close>, whose allocations succeed; \<open>None\<close> while it waits for the mutex. The event
      counts as queued when the link to it is written.\<close>
  "sq_queue_event t s =
     (case sq_prod s ! t of
        PR_idle \<Rightarrow> Some (sq_set t (PR_lock (sq_new s)) (s\<lparr>sq_next := (sq_next s)(sq_new s \<mapsto> None), sq_new := sq_new s + 1\<rparr>))
      | PR_lock n \<Rightarrow> if sq_lock s then None else Some (sq_set t (PR_null n) (s\<lparr>sq_lock := True\<rparr>))
      | PR_null n \<Rightarrow> Some (sq_set t (PR_load n) (sq_write n None s))
      | PR_load n \<Rightarrow> Some (sq_set t (PR_store n (sq_last s)) s)
      | PR_store n r \<Rightarrow>
          Some (sq_set t (PR_last n) (case r of In_head \<Rightarrow> s\<lparr>sq_first := Some n, sq_queued := sq_queued s @ [n]\<rparr>
                                      | In_node a \<Rightarrow> sq_write a (Some n) s\<lparr>sq_queued := sq_queued s @ [n]\<rparr>))
      | PR_last n \<Rightarrow> Some (sq_set t PR_unlock (s\<lparr>sq_last := In_node n\<rparr>))
      | PR_unlock \<Rightarrow> Some (sq_set t PR_idle (s\<lparr>sq_lock := False\<rparr>)))"

definition sq_dequeue_event :: "squeue \<Rightarrow> squeue" where
  \<comment> \<open>\<open>fsm_dequeue_event\<close>: it looks at the first node, lets the machine process its event, removes the first node and
      releases it.\<close>
  "sq_dequeue_event s =
     (case sq_cons s of
        CO_test \<Rightarrow> (case sq_first s of None \<Rightarrow> s | Some a \<Rightarrow> s\<lparr>sq_cons := CO_process a\<rparr>)
      | CO_process a \<Rightarrow> s\<lparr>sq_cons := CO_first, sq_bad := (sq_bad s \<or> sq_next s a = None), sq_served := sq_served s @ [a]\<rparr>
      | CO_first \<Rightarrow> (case sq_first s of None \<Rightarrow> s\<lparr>sq_bad := True\<rparr> | Some p \<Rightarrow> s\<lparr>sq_cons := CO_next p\<rparr>)
      | CO_next p \<Rightarrow> (case sq_first s of None \<Rightarrow> s\<lparr>sq_bad := True\<rparr> | Some f \<Rightarrow> s\<lparr>sq_cons := CO_read p f\<rparr>)
      | CO_read p f \<Rightarrow> (case sq_next s f of None \<Rightarrow> s\<lparr>sq_bad := True\<rparr> | Some v \<Rightarrow> s\<lparr>sq_cons := CO_write p v\<rparr>)
      | CO_write p v \<Rightarrow> s\<lparr>sq_first := v, sq_cons := (if v = None then CO_fix p else CO_free p)\<rparr>
      | CO_fix p \<Rightarrow> s\<lparr>sq_last := In_head, sq_cons := CO_free p\<rparr>
      | CO_free p \<Rightarrow> s\<lparr>sq_next := (sq_next s)(p := None), sq_cons := CO_test\<rparr>)"

definition sq_step :: "nat \<Rightarrow> squeue \<Rightarrow> squeue option" where
  \<comment> \<open>Threads 0 and 1 are the producers, thread 2 the consumer. Nothing goes on after undefined behaviour.\<close>
  "sq_step t s =
     (if sq_bad s then None
      else if t < 2 then sq_queue_event t s
      else if t = 2 then Some (sq_dequeue_event s) else None)"

section \<open>The race\<close>

lemmas sq_eval = sq_step_def sq_queue_event_def sq_dequeue_event_def sq_set_def sq_write_def sq_init_def

text \<open>The consumer races with the producers. It can lose an event: both events are queued, one is served, and the
  queue is empty with every thread between two calls. And a producer can come to write the link of a node that the
  consumer has released, which is undefined.\<close>

lemma th_queue_race:
  "\<exists>ts s. run sq_step ts sq_init = Some s \<and> \<not> sq_bad s \<and> sq_prod s = [PR_idle, PR_idle] \<and> sq_cons s = CO_test \<and>
     sq_queued s = [1, 2] \<and> sq_served s = [1] \<and> sq_first s = None \<and> sq_last s = In_head"
  "\<exists>ts s s'. run sq_step ts sq_init = Some s \<and> sq_prod s ! 1 = PR_store 2 (In_node 1) \<and> sq_served s = [1] \<and>
     sq_cons s = CO_test \<and> sq_next s 1 = None \<and> \<not> sq_bad s \<and> sq_step 1 s = Some s' \<and> sq_bad s'"
proof -
  let ?lost = "[0, 0, 0, 0, 0, 0, 0, 2, 2, 2, 2, 2, 1, 1, 1, 1, 1, 1, 1, 2, 2, 2]"
  have "\<exists>s. run sq_step ?lost sq_init = Some s \<and> \<not> sq_bad s \<and> sq_prod s = [PR_idle, PR_idle] \<and> sq_cons s = CO_test \<and>
      sq_queued s = [1, 2] \<and> sq_served s = [1] \<and> sq_first s = None \<and> sq_last s = In_head"
    by (simp add: sq_eval)
  then show "\<exists>ts s. run sq_step ts sq_init = Some s \<and> \<not> sq_bad s \<and> sq_prod s = [PR_idle, PR_idle] \<and> sq_cons s = CO_test \<and>
      sq_queued s = [1, 2] \<and> sq_served s = [1] \<and> sq_first s = None \<and> sq_last s = In_head"
    by (rule exI [of _ ?lost])
  let ?dead = "[0, 0, 0, 0, 0, 0, 0, 1, 1, 1, 1, 2, 2, 2, 2, 2, 2, 2, 2]"
  have "\<exists>s s'. run sq_step ?dead sq_init = Some s \<and> sq_prod s ! 1 = PR_store 2 (In_node 1) \<and> sq_served s = [1] \<and>
      sq_cons s = CO_test \<and> sq_next s 1 = None \<and> \<not> sq_bad s \<and> sq_step 1 s = Some s' \<and> sq_bad s'"
    by (simp add: sq_eval)
  then show "\<exists>ts s s'. run sq_step ts sq_init = Some s \<and> sq_prod s ! 1 = PR_store 2 (In_node 1) \<and> sq_served s = [1] \<and>
      sq_cons s = CO_test \<and> sq_next s 1 = None \<and> \<not> sq_bad s \<and> sq_step 1 s = Some s' \<and> sq_bad s'"
    by (rule exI [of _ ?dead])
qed

section \<open>The producers alone\<close>

fun sq_at :: "(addr \<rightharpoonup> addr option) \<Rightarrow> tq_ref \<Rightarrow> addr option \<Rightarrow> tq_ref \<Rightarrow> addr list \<Rightarrow> bool" where
  \<comment> \<open>From \<open>p\<close> on, which is stored at \<open>r\<close>, the links run through \<open>xs\<close> and end at \<open>l\<close>.\<close>
  "sq_at nx r p l [] \<longleftrightarrow> p = None \<and> l = r"
| "sq_at nx r p l (a # xs) \<longleftrightarrow> p = Some a \<and> (\<exists>q. nx a = Some q \<and> sq_at nx (In_node a) q l xs)"

lemma sq_at_cong: "(\<And>a. a \<in> set xs \<Longrightarrow> nx' a = nx a) \<Longrightarrow> sq_at nx' r p l xs = sq_at nx r p l xs"
  by (induction nx r p l xs rule: sq_at.induct) auto

lemma sq_at_append:
  "sq_at nx r p l xs \<Longrightarrow> xs \<noteq> [] \<Longrightarrow> distinct xs \<Longrightarrow> n \<notin> set xs \<Longrightarrow> nx n = Some None \<Longrightarrow>
    \<exists>b. l = In_node b \<and> b \<in> set xs \<and> sq_at (nx(b \<mapsto> Some n)) r p (In_node n) (xs @ [n])"
proof (induction xs arbitrary: r p)
  case (Cons a xs)
  then obtain q where q: "p = Some a" "nx a = Some q" "sq_at nx (In_node a) q l xs" by auto
  show ?case
  proof (cases "xs = []")
    case True
    then show ?thesis using q Cons.prems by auto
  next
    case False
    have d: "distinct xs" "n \<notin> set xs" using Cons.prems by auto
    from Cons.IH [OF q(3) False d Cons.prems(5)] obtain b where
      b: "l = In_node b" "b \<in> set xs" "sq_at (nx(b \<mapsto> Some n)) (In_node a) q (In_node n) (xs @ [n])" by blast
    have "(nx(b \<mapsto> Some n)) a = nx a" using b(2) Cons.prems(3) by auto
    then have "sq_at (nx(b \<mapsto> Some n)) r p (In_node n) ((a # xs) @ [n])" using q b(3) by simp
    moreover have "b \<in> set (a # xs)" using b(2) by simp
    ultimately show ?thesis using b(1) by blast
  qed
qed simp

lemma sq_at_last: "sq_at nx r p l xs \<Longrightarrow> l = (if xs = [] then r else In_node (last xs))"
  by (induction nx r p l xs rule: sq_at.induct) auto

fun pr_node :: "pr_pc \<Rightarrow> addr option" where
  "pr_node (PR_lock n) = Some n"
| "pr_node (PR_null n) = Some n"
| "pr_node (PR_load n) = Some n"
| "pr_node (PR_store n r) = Some n"
| "pr_node pc = None"

fun pr_crit :: "pr_pc \<Rightarrow> bool" where
  "pr_crit PR_idle = False"
| "pr_crit (PR_lock n) = False"
| "pr_crit pc = True"

fun pr_ok :: "nat \<Rightarrow> squeue \<Rightarrow> pr_pc \<Rightarrow> bool" where
  \<comment> \<open>What holds of the queue while a producer is at this point of its critical region and \<open>d\<close> events have been removed.\<close>
  "pr_ok d s (PR_null n) = sq_at (sq_next s) In_head (sq_first s) (sq_last s) (drop d (sq_queued s))"
| "pr_ok d s (PR_load n) = (sq_next s n = Some None \<and> sq_at (sq_next s) In_head (sq_first s) (sq_last s) (drop d (sq_queued s)))"
| "pr_ok d s (PR_store n r) =
     (r = sq_last s \<and> sq_next s n = Some None \<and> sq_at (sq_next s) In_head (sq_first s) (sq_last s) (drop d (sq_queued s)))"
| "pr_ok d s (PR_last n) = sq_at (sq_next s) In_head (sq_first s) (In_node n) (drop d (sq_queued s))"
| "pr_ok d s PR_unlock = sq_at (sq_next s) In_head (sq_first s) (sq_last s) (drop d (sq_queued s))"
| "pr_ok d s pc = True"

definition pr_pair :: "nat \<Rightarrow> squeue \<Rightarrow> pr_pc \<Rightarrow> pr_pc \<Rightarrow> bool" where
  \<comment> \<open>The invariant, for producers at the points \<open>a\<close> and \<open>b\<close> when \<open>d\<close> events have been removed.\<close>
  "pr_pair d s a b \<longleftrightarrow> \<not> sq_bad s \<and> d \<le> length (sq_queued s) \<and>
     (\<forall>n. pr_node a = Some n \<or> pr_node b = Some n \<longrightarrow> n < sq_new s \<and> n \<notin> set (sq_queued s) \<and> sq_next s n \<noteq> None) \<and>
     (\<forall>n. pr_node a = Some n \<longrightarrow> pr_node b \<noteq> Some n) \<and> (\<forall>n\<in>set (sq_queued s). n < sq_new s) \<and> distinct (sq_queued s) \<and>
     (if sq_lock s then pr_crit a \<and> \<not> pr_crit b \<and> pr_ok d s a \<or> pr_crit b \<and> \<not> pr_crit a \<and> pr_ok d s b
      else \<not> pr_crit a \<and> \<not> pr_crit b \<and> sq_at (sq_next s) In_head (sq_first s) (sq_last s) (drop d (sq_queued s)))"

lemma pr_pair_sym: "pr_pair d s a b = pr_pair d s b a"
  unfolding pr_pair_def by (cases "sq_lock s") auto

lemma pr_ok_set [simp]: "pr_ok d (sq_set t pc s) a = pr_ok d s a"
  by (cases a) (simp_all add: sq_set_def)

lemma pr_pair_set [simp]: "pr_pair d (sq_set t pc s) a b = pr_pair d s a b"
  unfolding pr_pair_def pr_ok_set by (simp add: sq_set_def)

lemma pr_pair_new:
  assumes "pr_pair d s PR_idle b"
  shows "pr_pair d (s\<lparr>sq_next := (sq_next s)(sq_new s \<mapsto> None), sq_new := sq_new s + 1\<rparr>) (PR_lock (sq_new s)) b"
proof -
  let ?nx = "(sq_next s)(sq_new s \<mapsto> None)"
  have q: "sq_at ?nx r p l (drop d (sq_queued s)) = sq_at (sq_next s) r p l (drop d (sq_queued s))" for r p l
    by (rule sq_at_cong) (use assms in \<open>auto simp: pr_pair_def dest: in_set_dropD\<close>)
  have "pr_ok d (s\<lparr>sq_next := ?nx, sq_new := sq_new s + 1\<rparr>) b" if "pr_ok d s b"
    using that assms q by (cases b) (auto simp: pr_pair_def)
  then show ?thesis using assms q by (auto simp: pr_pair_def split: if_splits)
qed

lemma sq_at_alive: "a \<in> set xs \<Longrightarrow> sq_at nx q p l xs \<Longrightarrow> nx a \<noteq> None"
  by (induction nx q p l xs rule: sq_at.induct) auto

lemma pr_pair_link:
  assumes "pr_pair d s (PR_store n r) b"
  shows "pr_pair d (case r of In_head \<Rightarrow> s\<lparr>sq_first := Some n, sq_queued := sq_queued s @ [n]\<rparr>
      | In_node a \<Rightarrow> sq_write a (Some n) s\<lparr>sq_queued := sq_queued s @ [n]\<rparr>) (PR_last n) b"
proof -
  have s: "sq_lock s" "\<not> pr_crit b" "r = sq_last s" "sq_next s n = Some None" "d \<le> length (sq_queued s)"
    "sq_at (sq_next s) In_head (sq_first s) (sq_last s) (drop d (sq_queued s))" "distinct (sq_queued s)" "n \<notin> set (sq_queued s)"
    using assms by (auto simp: pr_pair_def split: if_splits)
  have dr: "distinct (drop d (sq_queued s))" "n \<notin> set (drop d (sq_queued s))" using s(7,8) by (auto dest: in_set_dropD)
  show ?thesis
  proof (cases "drop d (sq_queued s) = []")
    case True
    then show ?thesis using assms s by (auto simp: pr_pair_def)
  next
    case False
    from sq_at_append [OF s(6) False dr s(4)] obtain a where
      a: "sq_last s = In_node a" "a \<in> set (drop d (sq_queued s))"
        "sq_at ((sq_next s)(a \<mapsto> Some n)) In_head (sq_first s) (In_node n) (drop d (sq_queued s) @ [n])" by blast
    from sq_at_alive [OF a(2) s(6)] have "sq_write a (Some n) s = s\<lparr>sq_next := (sq_next s)(a \<mapsto> Some n)\<rparr>"
      by (simp only: sq_write_def if_False)
    then show ?thesis using assms s a by (auto simp: pr_pair_def)
  qed
qed

lemma pr_pair_null:
  assumes "pr_pair d s (PR_null n) b"
  shows "pr_pair d (sq_write n None s) (PR_load n) b"
proof -
  have n: "sq_next s n \<noteq> None" "n \<notin> set (sq_queued s)" "\<not> pr_crit b" "sq_lock s" using assms by (auto simp: pr_pair_def split: if_splits)
  have "sq_at ((sq_next s)(n \<mapsto> None)) r p l (drop d (sq_queued s)) = sq_at (sq_next s) r p l (drop d (sq_queued s))" for r p l
    by (rule sq_at_cong) (use n in \<open>auto dest: in_set_dropD\<close>)
  then show ?thesis using assms n by (auto simp: pr_pair_def sq_write_def)
qed

definition pr_did :: "nat \<Rightarrow> nat \<Rightarrow> squeue \<Rightarrow> pr_pc \<Rightarrow> squeue \<Rightarrow> bool" where
  \<comment> \<open>The producer \<open>t\<close> has gone on, and the invariant holds with the other one at \<open>b\<close>.\<close>
  "pr_did d t s b s' \<longleftrightarrow> (\<exists>s1 pc. s' = sq_set t pc s1 \<and> sq_prod s1 = sq_prod s \<and> pr_pair d s1 pc b)"

lemma pr_didI: "pr_pair d s1 pc b \<Longrightarrow> sq_prod s1 = sq_prod s \<Longrightarrow> pr_did d t s b (sq_set t pc s1)"
  unfolding pr_did_def by blast

lemma sq_prod_write [simp]: "sq_prod (sq_write a v s) = sq_prod s"
  by (simp add: sq_write_def)

lemma pr_pair_step:
  assumes inv: "pr_pair d s (sq_prod s ! t) b" and st: "sq_queue_event t s = Some s'"
  shows "pr_did d t s b s'"
proof (cases "sq_prod s ! t")
  case PR_idle
  then have "s' = sq_set t (PR_lock (sq_new s)) (s\<lparr>sq_next := (sq_next s)(sq_new s \<mapsto> None), sq_new := sq_new s + 1\<rparr>)"
    using st by (simp add: sq_queue_event_def)
  then show ?thesis using pr_didI [OF pr_pair_new] inv PR_idle by simp
next
  case (PR_lock n)
  then have "\<not> sq_lock s" "s' = sq_set t (PR_null n) (s\<lparr>sq_lock := True\<rparr>)"
    using st by (auto simp: sq_queue_event_def split: if_splits)
  moreover from this have "pr_pair d (s\<lparr>sq_lock := True\<rparr>) (PR_null n) b" using inv PR_lock by (auto simp: pr_pair_def)
  ultimately show ?thesis using pr_didI by simp
next
  case (PR_null n)
  then have "s' = sq_set t (PR_load n) (sq_write n None s)" using st by (simp add: sq_queue_event_def)
  then show ?thesis using pr_didI [OF pr_pair_null] inv PR_null by simp
next
  case (PR_load n)
  then have "s' = sq_set t (PR_store n (sq_last s)) s" using st by (simp add: sq_queue_event_def)
  moreover have "pr_pair d s (PR_store n (sq_last s)) b" using inv PR_load by (auto simp: pr_pair_def split: if_splits)
  ultimately show ?thesis using pr_didI by simp
next
  case (PR_store n r)
  then have "s' = sq_set t (PR_last n) (case r of In_head \<Rightarrow> s\<lparr>sq_first := Some n, sq_queued := sq_queued s @ [n]\<rparr>
      | In_node a \<Rightarrow> sq_write a (Some n) s\<lparr>sq_queued := sq_queued s @ [n]\<rparr>)"
    using st by (simp add: sq_queue_event_def)
  then show ?thesis using pr_didI [OF pr_pair_link] inv PR_store by (simp split: tq_ref.splits)
next
  case (PR_last n)
  then have "s' = sq_set t PR_unlock (s\<lparr>sq_last := In_node n\<rparr>)"
    using st by (simp add: sq_queue_event_def)
  moreover have "pr_pair d (s\<lparr>sq_last := In_node n\<rparr>) PR_unlock b"
    using inv PR_last by (auto simp: pr_pair_def split: if_splits)
  ultimately show ?thesis using pr_didI by simp
next
  case PR_unlock
  then have "s' = sq_set t PR_idle (s\<lparr>sq_lock := False\<rparr>)" using st by (simp add: sq_queue_event_def)
  moreover have "pr_pair d (s\<lparr>sq_lock := False\<rparr>) PR_idle b" using inv PR_unlock by (auto simp: pr_pair_def split: if_splits)
  ultimately show ?thesis using pr_didI by simp
qed

definition pr_inv :: "squeue \<Rightarrow> bool" where
  "pr_inv s \<longleftrightarrow> length (sq_prod s) = 2 \<and> pr_pair 0 s (sq_prod s ! 0) (sq_prod s ! 1)"

lemma pr_inv_step:
  assumes inv: "pr_inv s" and st: "sq_step t s = Some s'" and t: "t < 2"
  shows "pr_inv s'"
proof -
  have len: "length (sq_prod s) = 2" using inv by (simp add: pr_inv_def)
  have q: "sq_queue_event t s = Some s'" using st t by (simp add: sq_step_def split: if_splits)
  have p: "pr_pair 0 s (sq_prod s ! t) (sq_prod s ! (1 - t))"
    using inv t pr_pair_sym by (cases t) (auto simp: pr_inv_def)
  from pr_pair_step [OF p q] obtain s1 pc where
    s1: "s' = sq_set t pc s1" "sq_prod s1 = sq_prod s" "pr_pair 0 s1 pc (sq_prod s ! (1 - t))" unfolding pr_did_def by blast
  have "sq_prod s' = (sq_prod s)[t := pc]" using s1(1,2) by (simp add: sq_set_def)
  moreover have "pr_pair 0 s' pc (sq_prod s ! (1 - t))" using s1(1,3) by simp
  ultimately show ?thesis using t len pr_pair_sym by (cases t) (auto simp: pr_inv_def)
qed

text \<open>C29: Without the consumer the mutex does its work: whatever the two producers do, no released or absent node is
  touched, and whenever the mutex is free the links of the queue run through exactly the events that were queued, each
  once and in the order in which they were queued, and end where \<open>stqh_last\<close> points.\<close>

theorem th_producers_queue:
  assumes "run sq_step ts sq_init = Some s" "set ts \<subseteq> {0, 1}"
  shows "\<not> sq_bad s \<and> distinct (sq_queued s) \<and>
    (\<not> sq_lock s \<longrightarrow> sq_at (sq_next s) In_head (sq_first s) (sq_last s) (sq_queued s))"
proof -
  have step: "pr_inv s0 \<Longrightarrow> run sq_step ts s0 = Some s \<Longrightarrow> set ts \<subseteq> {0, 1} \<Longrightarrow> pr_inv s" for s0
  proof (induction ts arbitrary: s0)
    case (Cons t ts)
    then obtain s1 where s1: "sq_step t s0 = Some s1" "run sq_step ts s1 = Some s" by (auto split: bind_splits)
    have "t < 2" using Cons.prems(3) by auto
    from Cons.IH [OF pr_inv_step [OF Cons.prems(1) s1(1) this] s1(2)] Cons.prems(3) show ?case by simp
  qed simp
  have "pr_inv sq_init" by (simp add: pr_inv_def pr_pair_def sq_init_def)
  from step [OF this assms] show ?thesis by (auto simp: pr_inv_def pr_pair_def)
qed

lemma th_producers_queue_witness:
  "\<exists>s. run sq_step [0, 1, 0, 0, 0, 0, 0, 0, 1, 1, 1, 1, 1, 1] sq_init = Some s \<and> \<not> sq_lock s \<and>
     sq_at (sq_next s) In_head (sq_first s) (sq_last s) [1, 2]"
proof -
  let ?ts = "[0, 1, 0, 0, 0, 0, 0, 0, 1, 1, 1, 1, 1, 1] :: nat list"
  have "\<exists>s. run sq_step ?ts sq_init = Some s \<and> \<not> sq_lock s \<and> sq_queued s = [1, 2]" by (simp add: sq_eval)
  then obtain s where s: "run sq_step ?ts sq_init = Some s" "\<not> sq_lock s" "sq_queued s = [1, 2]" by blast
  have "set ?ts \<subseteq> {0, 1}" by simp
  from th_producers_queue [OF s(1) this] s show ?thesis by auto
qed

section \<open>Producers and consumer taking turns\<close>

fun co_crit :: "co_pc \<Rightarrow> bool" where
  \<comment> \<open>Inside \<open>STAILQ_REMOVE_HEAD\<close>.\<close>
  "co_crit (CO_next p) = True"
| "co_crit (CO_read p f) = True"
| "co_crit (CO_write p v) = True"
| "co_crit (CO_fix p) = True"
| "co_crit pc = False"

definition sq_overlap :: "squeue \<Rightarrow> bool" where
  \<comment> \<open>The consumer is removing a node while a producer holds the mutex.\<close>
  "sq_overlap s \<longleftrightarrow> co_crit (sq_cons s) \<and> (\<exists>pc\<in>set (sq_prod s). pr_crit pc)"

fun sq_turns :: "nat list \<Rightarrow> squeue \<Rightarrow> bool" where
  \<comment> \<open>They never overlap, as if the consumer took the mutex too.\<close>
  "sq_turns [] s \<longleftrightarrow> \<not> sq_overlap s"
| "sq_turns (t # ts) s \<longleftrightarrow> \<not> sq_overlap s \<and> (case sq_step t s of None \<Rightarrow> True | Some s' \<Rightarrow> sq_turns ts s')"

fun co_ok :: "nat \<Rightarrow> squeue \<Rightarrow> co_pc \<Rightarrow> bool" where
  \<comment> \<open>What holds at each point of the consumer, which has removed \<open>d\<close> events.\<close>
  "co_ok d s CO_test = (sq_served s = take d (sq_queued s))"
| "co_ok d s (CO_process a) = (sq_served s = take d (sq_queued s) \<and> sq_first s = Some a)"
| "co_ok d s CO_first = (d < length (sq_queued s) \<and> sq_served s = take (Suc d) (sq_queued s))"
| "co_ok d s (CO_next p) = (d < length (sq_queued s) \<and> sq_served s = take (Suc d) (sq_queued s) \<and> sq_first s = Some p)"
| "co_ok d s (CO_read p f) =
     (d < length (sq_queued s) \<and> sq_served s = take (Suc d) (sq_queued s) \<and> sq_first s = Some p \<and> f = p)"
| "co_ok d s (CO_write p v) =
     (d < length (sq_queued s) \<and> sq_served s = take (Suc d) (sq_queued s) \<and> sq_first s = Some p \<and> sq_next s p = Some v)"
| "co_ok d s (CO_fix p) = (sq_served s = take d (sq_queued s) \<and> p \<in> set (take d (sq_queued s)) \<and> sq_first s = None)"
| "co_ok d s (CO_free p) = (sq_served s = take d (sq_queued s) \<and> p \<in> set (take d (sq_queued s)))"

definition sq_fixed :: "squeue \<Rightarrow> squeue" where
  \<comment> \<open>The queue when the consumer has repaired the last link.\<close>
  "sq_fixed s = (case sq_cons s of CO_fix p \<Rightarrow> s\<lparr>sq_last := In_head\<rparr> | _ \<Rightarrow> s)"

definition sq_inv :: "nat \<Rightarrow> squeue \<Rightarrow> bool" where
  "sq_inv d s \<longleftrightarrow> length (sq_prod s) = 2 \<and> pr_pair d (sq_fixed s) (sq_prod s ! 0) (sq_prod s ! 1) \<and> co_ok d s (sq_cons s)"

lemma pr_ok_cons [simp]: "pr_ok d (s\<lparr>sq_cons := c\<rparr>) a = pr_ok d s a" "pr_ok d (s\<lparr>sq_served := xs\<rparr>) a = pr_ok d s a"
  by (cases a; simp)+

lemma pr_pair_cons [simp]:
  "pr_pair d (s\<lparr>sq_cons := c\<rparr>) a b = pr_pair d s a b" "pr_pair d (s\<lparr>sq_served := xs\<rparr>) a b = pr_pair d s a b"
  unfolding pr_pair_def pr_ok_cons by simp_all

lemma pr_pair_same:
  assumes "pr_pair d s a b" "sq_bad s' = sq_bad s" "sq_queued s' = sq_queued s" "sq_new s' = sq_new s" "sq_next s' = sq_next s"
    and "sq_lock s' = sq_lock s" "sq_first s' = sq_first s" "sq_last s' = sq_last s"
  shows "pr_pair d s' a b"
proof -
  have "pr_ok d s' c = pr_ok d s c" for c using assms(2-8) by (cases c) simp_all
  then show ?thesis using assms by (simp add: pr_pair_def)
qed

lemma pr_pair_at: "pr_pair d s a b \<Longrightarrow> \<exists>l. sq_at (sq_next s) In_head (sq_first s) l (drop d (sq_queued s))"
  by (cases a; cases b) (auto simp: pr_pair_def split: if_splits)

lemma pr_pair_first:
  assumes "pr_pair d s a b" "sq_first s = Some x"
  shows "d < length (sq_queued s)" "x = sq_queued s ! d" "sq_next s x \<noteq> None"
proof -
  from pr_pair_at [OF assms(1)] obtain l where l: "sq_at (sq_next s) In_head (sq_first s) l (drop d (sq_queued s))" by blast
  with assms(2) obtain xs where xs: "drop d (sq_queued s) = x # xs" "sq_next s x \<noteq> None" by (cases "drop d (sq_queued s)") auto
  then show "d < length (sq_queued s)" "sq_next s x \<noteq> None" by (metis drop_all leI list.distinct(1), simp)
  with xs(1) show "x = sq_queued s ! d" by (simp add: Cons_nth_drop_Suc [symmetric])
qed

lemma pr_pair_some:
  assumes "pr_pair d s a b" "d < length (sq_queued s)"
  shows "sq_first s = Some (sq_queued s ! d)"
proof -
  from pr_pair_at [OF assms(1)] obtain l where "sq_at (sq_next s) In_head (sq_first s) l (drop d (sq_queued s))" by blast
  then show ?thesis using assms(2) by (simp add: Cons_nth_drop_Suc [symmetric])
qed

lemma sq_at_ref: "xs \<noteq> [] \<Longrightarrow> sq_at nx r p l xs = sq_at nx r' p l xs"
  by (cases xs) simp_all

lemma pr_pair_removed:
  \<comment> \<open>The first node is taken out of the queue.\<close>
  assumes p: "pr_pair d s a b" and f: "sq_first s = Some x" "sq_next s x = Some v" and c: "\<not> pr_crit a" "\<not> pr_crit b"
  shows "pr_pair (Suc d) (s\<lparr>sq_first := v, sq_last := (if v = None then In_head else sq_last s)\<rparr>) a b"
proof -
  note F = pr_pair_first [OF p f(1)]
  have l: "sq_at (sq_next s) In_head (sq_first s) (sq_last s) (drop d (sq_queued s))" "\<not> sq_lock s" using p c by (auto simp: pr_pair_def split: if_splits)
  let ?xs = "drop (Suc d) (sq_queued s)"
  have at: "sq_at (sq_next s) (In_node x) v (sq_last s) ?xs" using l(1) f F(1,2) by (simp add: Cons_nth_drop_Suc [symmetric])
  have "sq_at (sq_next s) In_head v (if v = None then In_head else sq_last s) ?xs"
    using at sq_at_ref [of ?xs "sq_next s" "In_node x" v "sq_last s" In_head] by (cases ?xs) auto
  then show ?thesis using p c l(2) F(1) by (auto simp: pr_pair_def)
qed

lemma pr_pair_free:
  \<comment> \<open>A node that is not in the queue any more is released.\<close>
  assumes p: "pr_pair d s a b" and x: "x \<in> set (take d (sq_queued s))"
  shows "pr_pair d (s\<lparr>sq_next := (sq_next s)(x := None)\<rparr>) a b"
proof -
  have q: "distinct (sq_queued s)" "x \<in> set (sq_queued s)" using p x by (auto simp: pr_pair_def dest: in_set_takeD)
  then have n: "pr_node a \<noteq> Some x" "pr_node b \<noteq> Some x" using p by (auto simp: pr_pair_def)
  have "x \<notin> set (drop d (sq_queued s))" using q(1) x by (metis disjoint_iff set_take_disj_set_drop_if_distinct order_refl)
  then have at: "sq_at ((sq_next s)(x := None)) r h l (drop d (sq_queued s)) = sq_at (sq_next s) r h l (drop d (sq_queued s))" for r h l
    by (intro sq_at_cong) auto
  have "pr_ok d (s\<lparr>sq_next := (sq_next s)(x := None)\<rparr>) c = pr_ok d s c" if "pr_node c \<noteq> Some x" for c
    using that at by (cases c) auto
  then show ?thesis using p n at by (auto simp: pr_pair_def)
qed

lemma sq_fixed_simps [simp]:
  "sq_first (sq_fixed s) = sq_first s" "sq_next (sq_fixed s) = sq_next s" "sq_queued (sq_fixed s) = sq_queued s"
  "sq_bad (sq_fixed s) = sq_bad s" "sq_prod (sq_fixed s) = sq_prod s" "sq_new (sq_fixed s) = sq_new s"
  by (simp_all add: sq_fixed_def split: co_pc.split)

lemma consumer_step:
  assumes inv: "sq_inv d s" and no: "\<not> sq_overlap s"
  shows "\<exists>d'. sq_inv d' (sq_dequeue_event s)"
proof -
  let ?a = "sq_prod s ! 0" and ?b = "sq_prod s ! 1" and ?s = "sq_dequeue_event s"
  have len: "length (sq_prod s) = 2" and P: "pr_pair d (sq_fixed s) ?a ?b" and C: "co_ok d s (sq_cons s)"
    using inv by (simp_all add: sq_inv_def)
  note F = pr_pair_first [OF P, simplified] and S = pr_pair_some [OF P, simplified]
  have b: "\<not> sq_bad s" using P by (simp add: pr_pair_def)
  show ?thesis
  proof (cases "sq_cons s")
    case CO_test
    then show ?thesis using len P C by (intro exI [of _ d]) (auto simp: sq_inv_def sq_dequeue_event_def sq_fixed_def split: option.split)
  next
    case (CO_process x)
    then have x: "sq_first s = Some x" "sq_served s = take d (sq_queued s)" using C by simp_all
    have "?s = s\<lparr>sq_cons := CO_first, sq_served := sq_served s @ [x]\<rparr>"
      using CO_process b F(3) [OF x(1)] by (cases s) (simp add: sq_dequeue_event_def)
    then show ?thesis using CO_process len P x F(1,2) [OF x(1)]
      by (intro exI [of _ d]) (auto simp: sq_inv_def sq_fixed_def take_Suc_conv_app_nth)
  next
    case CO_first
    then show ?thesis using len P C S
      by (intro exI [of _ d]) (auto simp: sq_inv_def sq_dequeue_event_def sq_fixed_def)
  next
    case (CO_next x)
    then show ?thesis using len P C
      by (intro exI [of _ d]) (auto simp: sq_inv_def sq_dequeue_event_def sq_fixed_def)
  next
    case (CO_read x y)
    then have "sq_first s = Some x" "y = x" using C by simp_all
    then show ?thesis using CO_read len P C F(3)
      by (intro exI [of _ d]) (auto simp: sq_inv_def sq_dequeue_event_def sq_fixed_def)
  next
    case (CO_write x v)
    then have x: "sq_first s = Some x" "sq_next s x = Some v" using C by simp_all
    have P': "pr_pair d s ?a ?b" using P CO_write by (simp add: sq_fixed_def)
    have "\<not> pr_crit ?a" "\<not> pr_crit ?b" using no CO_write len by (auto simp: sq_overlap_def)
    note R = pr_pair_removed [OF P' x this]
    have "pr_pair (Suc d) (sq_fixed ?s) ?a ?b"
      by (rule pr_pair_same [OF R]) (simp_all add: sq_dequeue_event_def sq_fixed_def CO_write)
    moreover have "sq_queued s ! d \<in> set (take (Suc d) (sq_queued s))" using F(1) [OF x(1)] by (simp add: take_Suc_conv_app_nth)
    ultimately show ?thesis using R CO_write len C F(1,2) [OF x(1)]
      by (intro exI [of _ "Suc d"]) (auto simp: sq_inv_def sq_dequeue_event_def)
  next
    case (CO_fix x)
    then show ?thesis using len P C
      by (intro exI [of _ d]) (auto simp: sq_inv_def sq_dequeue_event_def sq_fixed_def)
  next
    case (CO_free x)
    then have P': "pr_pair d s ?a ?b" using P by (simp add: sq_fixed_def)
    then show ?thesis using CO_free len C pr_pair_free [OF P']
      by (intro exI [of _ d]) (auto simp: sq_inv_def sq_dequeue_event_def sq_fixed_def)
  qed
qed

lemma producer_frame:
  assumes "sq_queue_event t s = Some s'"
  shows "sq_cons s' = sq_cons s" "sq_served s' = sq_served s" "\<exists>xs. sq_queued s' = sq_queued s @ xs"
    "sq_first s' = sq_first s \<or> (\<exists>n. sq_prod s ! t = PR_store n In_head)"
    "length (sq_prod s') = length (sq_prod s)"
  using assms
  by (auto simp: sq_queue_event_def sq_set_def sq_write_def split: pr_pc.splits tq_ref.splits if_splits)

lemma sq_turns_now: "sq_turns ts s \<Longrightarrow> \<not> sq_overlap s"
  by (cases ts) simp_all

lemma producer_co_ok:
  assumes P: "pr_pair d (sq_fixed s) (sq_prod s ! t) b" and C: "co_ok d s (sq_cons s)" and st: "sq_queue_event t s = Some s'"
    and no: "\<not> sq_overlap s" and len: "length (sq_prod s) = 2" and t: "t < 2"
  shows "co_ok d s' (sq_cons s')"
proof -
  note F = producer_frame [OF st]
  obtain xs where xs: "sq_queued s' = sq_queued s @ xs" using F(3) by blast
  have d: "d \<le> length (sq_queued s)" and new: "\<And>n. n \<in> set (sq_queued s) \<Longrightarrow> n < sq_new (sq_fixed s)" using P by (simp_all add: pr_pair_def)
  have first: "sq_first s' = sq_first s" if "sq_first s \<noteq> None" "\<not> (\<exists>p. sq_cons s = CO_fix p)"
  proof (rule ccontr)
    assume "sq_first s' \<noteq> sq_first s"
    then obtain n where n: "sq_prod s ! t = PR_store n In_head" using F(4) by blast
    then have "sq_at (sq_next s) In_head (sq_first s) In_head (drop d (sq_queued s))"
      using P that(2) by (auto simp: pr_pair_def sq_fixed_def split: if_splits co_pc.splits)
    from sq_at_last [OF this] this that(1) show False by (auto split: if_splits)
  qed
  have idle: "sq_first s' = sq_first s \<and> (\<forall>x\<in>set (sq_queued s). sq_next s' x = sq_next s x)" if "co_crit (sq_cons s)"
  proof -
    have "\<not> pr_crit (sq_prod s ! t)" using no that len t by (auto simp: sq_overlap_def)
    then show ?thesis using st new [of "sq_new s"]
      by (cases "sq_prod s ! t") (auto simp: sq_queue_event_def sq_set_def split: if_splits)
  qed
  show ?thesis unfolding F(1)
  proof (cases "sq_cons s")
    case (CO_write x v)
    then have "x \<in> set (sq_queued s)" using C pr_pair_first [OF P, of x] by simp
    then show "co_ok d s' (sq_cons s)" using CO_write C idle F(2) xs d by simp
  qed (use C first idle F(2) xs d in auto)
qed

lemma producer_step:
  assumes inv: "sq_inv d s" and st: "sq_queue_event t s = Some s'" and t: "t < 2"
    and no: "\<not> sq_overlap s" "\<not> sq_overlap s'"
  shows "sq_inv d s'"
proof -
  let ?b = "sq_prod s ! (1 - t)"
  have len: "length (sq_prod s) = 2" and C: "co_ok d s (sq_cons s)" using inv by (simp_all add: sq_inv_def)
  have P: "pr_pair d (sq_fixed s) (sq_prod s ! t) ?b" using inv t pr_pair_sym by (cases t) (auto simp: sq_inv_def)
  note F = producer_frame [OF st]
  have step: "sq_queue_event t (sq_fixed s) = Some (sq_fixed s')"
  proof (cases "\<exists>p. sq_cons s = CO_fix p")
    case False
    then show ?thesis using st F(1) by (auto simp: sq_fixed_def split: co_pc.splits)
  next
    case True
    then have "\<not> pr_crit (sq_prod s ! t)" "\<not> pr_crit (sq_prod s' ! t)" using no F(1,5) len t by (auto simp: sq_overlap_def)
    then show ?thesis using st True len t
      by (cases "sq_prod s ! t") (auto simp: sq_queue_event_def sq_fixed_def sq_set_def split: if_splits)
  qed
  from pr_pair_step [OF _ step, of d ?b] P obtain s1 pc where
    1: "sq_fixed s' = sq_set t pc s1" "sq_prod s1 = sq_prod s" "pr_pair d s1 pc ?b"
    unfolding pr_did_def by (auto simp: sq_fixed_def split: co_pc.splits)
  have "sq_prod s' = (sq_prod s)[t := pc]" using arg_cong [OF 1(1), of sq_prod] 1(2) by (simp add: sq_set_def)
  moreover have "pr_pair d (sq_fixed s') pc ?b" using 1(1,3) by simp
  moreover have "co_ok d s' (sq_cons s')" by (rule producer_co_ok [OF P C st _ len t]) (use no(1) in blast)
  ultimately show ?thesis using t len pr_pair_sym by (cases t) (auto simp: sq_inv_def)
qed

lemma sq_inv_step:
  assumes inv: "sq_inv d s" and st: "sq_step t s = Some s'" and no: "\<not> sq_overlap s" "\<not> sq_overlap s'"
  shows "\<exists>d'. sq_inv d' s'"
proof (cases "t < 2")
  case True
  then have "sq_queue_event t s = Some s'" using st by (simp add: sq_step_def split: if_splits)
  from producer_step [OF inv this True no] show ?thesis by blast
next
  case False
  then have "s' = sq_dequeue_event s" using st by (simp add: sq_step_def split: if_splits)
  with consumer_step [OF inv no(1)] show ?thesis by simp
qed

lemma sq_turns_inv: "sq_inv d s0 \<Longrightarrow> run sq_step ts s0 = Some s \<Longrightarrow> sq_turns ts s0 \<Longrightarrow> \<exists>d'. sq_inv d' s"
proof (induction ts arbitrary: s0 d)
  case Nil
  then show ?case by auto
next
  case (Cons t ts)
  then obtain s1 where s1: "sq_step t s0 = Some s1" "run sq_step ts s1 = Some s" by (auto split: bind_splits)
  then have n: "\<not> sq_overlap s0" "sq_turns ts s1" using Cons.prems(3) by simp_all
  from sq_inv_step [OF Cons.prems(1) s1(1) n(1) sq_turns_now [OF n(2)]] obtain d' where "sq_inv d' s1" by blast
  from Cons.IH [OF this s1(2) n(2)] show ?case .
qed

text \<open>C28: As long as the consumer does not remove a node while a producer is linking one in, which is what its not taking
  the mutex leaves to chance, the three threads share the queue correctly in every run: no released node is touched, the
  events are served each once and in the order in which they were queued, and whenever nobody is in the middle of a call
  the links run through exactly those that were not served and end where \<open>stqh_last\<close> points.\<close>

theorem th_queue_turns:
  assumes "run sq_step ts sq_init = Some s" "sq_turns ts sq_init"
  shows "\<not> sq_bad s \<and> distinct (sq_queued s) \<and> (\<exists>d. sq_served s = take d (sq_queued s)) \<and>
    (\<not> sq_lock s \<and> sq_cons s = CO_test \<longrightarrow>
       sq_at (sq_next s) In_head (sq_first s) (sq_last s) (drop (length (sq_served s)) (sq_queued s)))"
proof -
  have "sq_inv 0 sq_init" by (simp add: sq_inv_def pr_pair_def sq_fixed_def sq_init_def)
  from sq_turns_inv [OF this assms] obtain d where inv: "sq_inv d s" by blast
  then have P: "pr_pair d (sq_fixed s) (sq_prod s ! 0) (sq_prod s ! 1)" and C: "co_ok d s (sq_cons s)" by (simp_all add: sq_inv_def)
  have "\<exists>k. sq_served s = take k (sq_queued s)" using C by (cases "sq_cons s") auto
  moreover have "sq_at (sq_next s) In_head (sq_first s) (sq_last s) (drop (length (sq_served s)) (sq_queued s))"
    if "\<not> sq_lock s" "sq_cons s = CO_test"
    using that P C by (auto simp: pr_pair_def sq_fixed_def min_absorb2)
  ultimately show ?thesis using P by (simp add: pr_pair_def)
qed

lemma th_queue_turns_witness:
  "\<exists>s. run sq_step [0, 1, 0, 0, 0, 0, 2, 0, 0, 1, 2, 1, 1, 1, 1, 1, 2, 2, 2, 2, 2] sq_init = Some s \<and> sq_queued s = [1, 2] \<and>
     sq_served s = [1] \<and> sq_at (sq_next s) In_head (sq_first s) (sq_last s) [2]"
proof -
  let ?ts = "[0, 1, 0, 0, 0, 0, 2, 0, 0, 1, 2, 1, 1, 1, 1, 1, 2, 2, 2, 2, 2] :: nat list"
  have "\<exists>s. run sq_step ?ts sq_init = Some s \<and> \<not> sq_lock s \<and> sq_queued s = [1, 2] \<and> sq_served s = [1] \<and> sq_cons s = CO_test"
    by (simp add: sq_eval)
  then obtain s where s: "run sq_step ?ts sq_init = Some s" "\<not> sq_lock s" "sq_queued s = [1, 2]" "sq_served s = [1]" "sq_cons s = CO_test" by blast
  have "sq_turns ?ts sq_init" by (simp add: sq_eval sq_overlap_def)
  from th_queue_turns [OF s(1) this] s show ?thesis by auto
qed

end
