(* ===== verification/Fsm_Debug.thy ===== *)
theory Fsm_Debug imports Fsm_Stress begin

text \<open>
  Printing a machine, and the client \<open>fsm/dbg_fsm.c\<close>, which builds a machine of four states, two of them out of reach of
  the initial one, marks what is reachable, prints the table and gives everything back.
\<close>

section \<open>The program\<close>

fun dbg_states :: "8 word list \<Rightarrow> world \<Rightarrow> (addr list option \<times> world) option" where
  \<comment> \<open>The calls of \<open>state_init\<close>, one for each byte that \<open>malloc\<close> leaves in a flag; \<open>None\<close> in the result is a failed
      \<open>assert\<close>.\<close>
  "dbg_states [] w = Some (Some [], w)"
| "dbg_states (g # gs) w =
     do { ((r, st), w1) \<leftarrow> state_init g (push_bit 5 2) 2 w;
          if r = ST_NOMEM then Some (None, w1)
          else do { a \<leftarrow> st; (as, w2) \<leftarrow> dbg_states gs w1; Some (map_option ((#) a) as, w2) } }"

fun dbg_evts :: "(addr \<times> 32 word \<times> 8 word list \<times> addr) list \<Rightarrow> world \<Rightarrow> (bool \<times> world) option" where
  \<comment> \<open>The calls of \<open>state_add_evt\<close>; \<open>False\<close>: an \<open>assert\<close> fails.\<close>
  "dbg_evts [] w = Some (True, w)"
| "dbg_evts ((a, k, desc, b) # cs) w =
     do { (r, w1) \<leftarrow> state_add_evt a k desc None (Some b) w;
          if r = ST_NOMEM then Some (False, w1) else dbg_evts cs w1 }"

fun dbg_adds :: "fsm_t \<Rightarrow> (32 word \<times> addr) list \<Rightarrow> world \<Rightarrow> world option" where
  \<comment> \<open>The calls of \<open>fsm_add_state\<close>, whose results are not looked at.\<close>
  "dbg_adds f [] w = Some w"
| "dbg_adds f ((k, a) # cs) w = do { (_, w1) \<leftarrow> fsm_add_state f k a w; dbg_adds f cs w1 }"

definition E0 :: "8 word list" where "E0 = [101, 48]"
definition E1 :: "8 word list" where "E1 = [101, 49]"

definition dbg_main :: "8 word list \<Rightarrow> world \<Rightarrow> (string option \<times> world) option" where
  \<comment> \<open>The text is that of \<open>fsm_print_states\<close>; \<open>None\<close> in the result is a failed \<open>assert\<close>. \<open>gs\<close> are the four bytes for
      \<open>dbg_states\<close>. A failed \<open>fsm_init\<close> is not noticed; using its null pointer is undefined.\<close>
  "dbg_main gs w =
     do { ((_, fsm), w1) \<leftarrow> fsm_init (push_bit 8 2) 5 0 w;
          (sts, w2) \<leftarrow> dbg_states gs w1;
          case sts of
            None \<Rightarrow> Some (None, w2)
          | Some as \<Rightarrow>
              let state1 = as ! 0; state2 = as ! 1; state3 = as ! 2; state4 = as ! 3 in
              do { (ok, w3) \<leftarrow> dbg_evts [(state1, 0, E0, state1), (state1, 1, E1, state2), (state2, 0, E0, state2),
                                        (state2, 1, E1, state1), (state3, 0, E0, state4)] w2;
                   if \<not> ok then Some (None, w3)
                   else do {
                     f \<leftarrow> fsm;
                     w4 \<leftarrow> dbg_adds f [(1, state1), (2, state2), (3, state3), (4, state4)] w3;
                     ((_, f1), w5) \<leftarrow> fsm_set_state f 1 w4;
                     w6 \<leftarrow> fsm_mark_reachable_states f1 w5;
                     (out, w7) \<leftarrow> fsm_print_states f1 w6;
                     (_, w8) \<leftarrow> fsm_free f1 w7;
                     Some (Some out, w8) } } }"

section \<open>The order of an iteration\<close>

lemma sorted_chains:
  "(\<forall>i<length xss. \<forall>x\<in>set (xss ! i). f x = i) \<Longrightarrow> sorted (map f (concat xss))"
proof (induction xss rule: rev_induct)
  case (snoc xs xss)
  have "\<forall>i<length xss. \<forall>x\<in>set (xss ! i). f x = i" using snoc.prems by (auto simp: nth_append split: if_splits)
  moreover have c: "\<forall>x\<in>set xs. f x = length xss" using snoc.prems by (auto simp: nth_append dest: spec [of _ "length xss"])
  moreover have "\<forall>x\<in>set (concat xss). f x < length xss" using calculation(1) by (metis UN_iff in_set_conv_nth set_concat)
  moreover have "map f xs = replicate (length xs) (length xss)" using c by (induction xs) simp_all
  ultimately show ?case using snoc.IH by (auto simp: sorted_append less_imp_le simp del: set_concat)
qed simp

lemma small_visit:
  assumes tok: "tbl_ok m t" and size: "ht_size t = 2 ^ q" and q: "q \<le> 31"
    and small: "\<forall>n\<in>set (ht_nodes t). unat (fm_cell m (hn_key n)) < 2 ^ q - 1"
  shows "ht_iterate t htable_iterator_init = Some (ht_nodes t)"
    "sorted (map (\<lambda>n. unat (fm_cell m (hn_key n))) (ht_nodes t))" "distinct (map (\<lambda>n. fm_cell m (hn_key n)) (ht_nodes t))"
proof -
  have ti: "ht_inv fm_cell m t" using tok by (simp add: tbl_ok_def)
  obtain l where l: "ht_log t l" using ht_invD(1) [OF ti] by blast
  have at: "unat (fm_cell m (hn_key n)) = i" if "i < length (ht_table t)" "n \<in> set (ht_table t ! i)" for i n
  proof -
    have n: "n \<in> set (ht_nodes t)" using that unfolding ht_nodes_def set_concat_nth by blast
    then have "unat (fm_cell m (hn_key n)) < 2 ^ q" using small by force
    from small_bucket(2) [OF tok size q n this] show ?thesis using that ht_invD(2) [OF ti] by (auto simp: ht_placed_def)
  qed
  show "sorted (map (\<lambda>n. unat (fm_cell m (hn_key n))) (ht_nodes t))"
    unfolding ht_nodes_def by (rule sorted_chains) (use at in blast)
  show "distinct (map (\<lambda>n. fm_cell m (hn_key n)) (ht_nodes t))" by (rule ht_invD(3) [OF ti])
  have "0 < length (ht_table t)" using l by (simp add: ht_log_def)
  then have ne: "ht_table t \<noteq> []" by auto
  have len: "length (ht_table t) = 2 ^ q" using l size q by (auto simp: ht_log_def dest!: arg_cong [where f = unat] simp: unat_p2)
  have "last (ht_table t) = []"
  proof (rule ccontr)
    assume "last (ht_table t) \<noteq> []"
    then obtain n where "n \<in> set (last (ht_table t))" using last_in_set by blast
    then have n: "n \<in> set (ht_table t ! (length (ht_table t) - 1))" using ne by (simp add: last_conv_nth)
    then have "n \<in> set (ht_nodes t)" using ne by (auto simp: ht_nodes_def)
    with at [OF _ n] small ne len show False by auto
  qed
  then have "ht_visit t 0 = ht_nodes t"
    using nodes_parts [OF l] ne by (simp add: ht_visit_def visited_nodes_def hidden_nodes_def)
  moreover have "distinct (map hn_addr (concat (ht_table t)))" using ht_invD(4) [OF ti] by (simp add: ht_nodes_def)
  ultimately show "ht_iterate t htable_iterator_init = Some (ht_nodes t)" using iterate_ok [OF l] by simp
qed

section \<open>Marking reaches what an event leads to\<close>

lemma flags_only_reach: "flags_only w w' \<Longrightarrow> reach_set w \<subseteq> reach_set w'"
  by (fastforce simp: flags_only_def reach_set_def dom_def)

lemma mark_events_flags: "fsm_mark_events p ns w = Some w' \<Longrightarrow> flags_only w w'"
proof (induction ns arbitrary: w)
  case (Cons n ns)
  then show ?case
    by (auto split: bind_splits if_splits intro: flags_only_trans [OF flags_only_mark])
qed simp

lemma mark_states_flags: "fsm_mark_states ns w = Some w' \<Longrightarrow> flags_only w w'"
proof (induction ns arbitrary: w)
  case (Cons n ns)
  then show ?case
    by (auto split: bind_splits intro: flags_only_trans [OF mark_events_flags])
qed simp

lemma mark_events_hit:
  "fsm_mark_events p ns w = Some w' \<Longrightarrow> p \<in> reach_set w \<Longrightarrow> n \<in> set ns \<Longrightarrow> hn_data n = Some ev \<Longrightarrow>
    fm_event (w_mem w) ev = Some e \<Longrightarrow> evt_newstate e = Some b \<Longrightarrow> b \<in> reach_set w'"
proof (induction ns arbitrary: w)
  case (Cons x ns)
  note w = Cons.prems
  from w(1,2) obtain w1 s where 1: "fsm_mark_events p ns w1 = Some w'" "fsm_mark_events p [x] w = Some w1"
    "fm_state (w_mem w) p = Some s" "STATE_IS_REACHABLE s" by (auto simp: reach_set_def split: bind_splits if_splits)
  note F = mark_events_flags [OF 1(2)] and G = mark_events_flags [OF 1(1)]
  show ?case
  proof (cases "n = x")
    case True
    with 1 w(4-6) have "b \<in> reach_set w1"
      by (auto simp: reach_set_def put_state_def split: bind_splits)
    then show ?thesis using flags_only_reach [OF G] by blast
  next
    case False
    show ?thesis
      by (rule Cons.IH [OF 1(1)]) (use F flags_only_reach [OF F] flags_only_mem [OF F] w False in auto)
  qed
qed simp

lemma mark_states_hit:
  "fsm_mark_states ns w = Some w' \<Longrightarrow> n \<in> set ns \<Longrightarrow> hn_data n = Some p \<Longrightarrow> p \<in> reach_set w \<Longrightarrow>
    fm_state (w_mem w) p = Some s \<Longrightarrow> w_table w (evttable s) = Some t \<Longrightarrow> ht_iterate t htable_iterator_init = Some es \<Longrightarrow>
    m \<in> set es \<Longrightarrow> hn_data m = Some ev \<Longrightarrow> fm_event (w_mem w) ev = Some e \<Longrightarrow> evt_newstate e = Some b \<Longrightarrow> b \<in> reach_set w'"
proof (induction ns arbitrary: w s)
  case (Cons x ns)
  note w = Cons.prems
  from w(1) obtain w1 where 1: "fsm_mark_states ns w1 = Some w'" "fsm_mark_states [x] w = Some w1" by (auto split: bind_splits)
  note F = mark_states_flags [OF 1(2)] and G = mark_states_flags [OF 1(1)]
  show ?case
  proof (cases "n = x")
    case True
    with 1(2) w have "fsm_mark_events p es w = Some w1" by (auto split: bind_splits)
    from mark_events_hit [OF this w(4,8-11)] show ?thesis using flags_only_reach [OF G] by blast
  next
    case False
    obtain s' where s': "fm_state (w_mem w1) p = Some s'" "evttable s' = evttable s" using flags_only_state [OF F w(5)] by blast
    show ?thesis
      by (rule Cons.IH [OF 1(1) _ w(3) _ s'(1) _ w(7-9) _ w(11)])
        (use F flags_only_reach [OF F] flags_only_mem [OF F] w s' False in auto)
  qed
qed simp

section \<open>Printing\<close>

definition state_line :: "32 word \<Rightarrow> bool \<Rightarrow> string" where
  "state_line k r =
     ''state [key = '' @ show_uint k @ '', reachable = '' @ (if r then ''T'' else ''F'') @ '']'' @ [CHR 0x0A]"

definition printable :: "world \<Rightarrow> addr \<Rightarrow> bool" where
  "printable w a \<longleftrightarrow> (\<exists>s t out. fm_state (w_mem w) a = Some s \<and> w_table w (evttable s) = Some t \<and>
     htable_print (w_mem w) t = Some out)"

lemma print_states_lines:
  "(\<forall>n\<in>set ns. \<exists>a s. hn_data n = Some a \<and> fm_state (w_mem w) a = Some s \<and> st_key s = hn_key n \<and> printable w a) \<Longrightarrow>
    \<exists>out. print_states ns w fp = Some (fp @ concat (map (\<lambda>n. state_line (fm_cell (w_mem w) (hn_key n))
      (the (hn_data n) \<in> reach_set w)) ns), w_print out w)"
proof (induction ns arbitrary: w fp)
  case Nil
  then show ?case by (intro exI [of _ "[]"]) (simp add: w_print_def)
next
  case (Cons n ns)
  then obtain a s where a: "hn_data n = Some a" "fm_state (w_mem w) a = Some s" "st_key s = hn_key n" "printable w a" by auto
  then obtain out where o: "state_print_evts a w = Some (w_print out w)" by (auto simp: printable_def state_print_evts_def)
  have p: "printable (w_print out w) = printable w" "reach_set (w_print out w) = reach_set w"
    by (simp_all add: printable_def reach_set_def fun_eq_iff)
  let ?fp = "fp @ state_line (fm_cell (w_mem w) (hn_key n)) (a \<in> reach_set w)"
  have r: "STATE_IS_REACHABLE s \<longleftrightarrow> a \<in> reach_set w" using a(2) by (simp add: reach_set_def)
  have "print_states (n # ns) w fp = print_states ns (w_print out w) ?fp"
    using a(1-3) o r by (simp add: state_line_def)
  moreover obtain out2 where "print_states ns (w_print out w) ?fp = Some (?fp @ concat (map (\<lambda>n. state_line
      (fm_cell (w_mem w) (hn_key n)) (the (hn_data n) \<in> reach_set w)) ns), w_print out2 (w_print out w))"
    using Cons.IH [of "w_print out w" ?fp] Cons.prems p by auto
  ultimately show ?case using a(1) by (intro exI [of _ "out @ out2"]) (simp add: w_print_def)
qed

lemma fsm_print_lines:
  assumes ok: "fsm_ok f w" and t: "w_table w (f_sttable f) = Some t" "ht_size t = 2 ^ q" "q \<le> 31"
    and small: "\<forall>k\<in>dom (st_map f w). unat k < 2 ^ q - 1" and p: "\<forall>a. Some a \<in> ran (st_map f w) \<longrightarrow> printable w a"
  shows "\<exists>ks out. fsm_print_states f w =
      Some (concat (map (\<lambda>k. state_line k (\<exists>a\<in>reach_set w. st_map f w k = Some (Some a))) ks), w_print out w) \<and>
    sorted ks \<and> distinct ks \<and> set ks = dom (st_map f w)"
proof -
  let ?k = "\<lambda>n. fm_cell (w_mem w) (hn_key n)"
  have tok: "tbl_ok (w_mem w) t" and m: "st_map f w = ht_map fm_cell (w_mem w) t"
    and st: "\<forall>n\<in>set (ht_nodes t). \<exists>a s. hn_data n = Some a \<and> fm_state (w_mem w) a = Some s \<and> st_key s = hn_key n"
    using fsm_okD(3) [OF ok] t(1) by auto
  have inv: "ht_inv fm_cell (w_mem w) t" using tok by (simp add: tbl_ok_def)
  have at: "st_map f w (?k n) = Some (hn_data n)" if "n \<in> set (ht_nodes t)" for n
    using ht_map_node [OF inv that] m by simp
  have dom: "set (map ?k (ht_nodes t)) = dom (st_map f w)" unfolding m set_eq_iff ht_map_dom by auto
  have sm: "\<forall>n\<in>set (ht_nodes t). unat (?k n) < 2 ^ q - 1" using small at by blast
  note V = small_visit [OF tok t(2,3) sm]
  have "\<forall>n\<in>set (ht_nodes t). \<exists>a s. hn_data n = Some a \<and> fm_state (w_mem w) a = Some s \<and> st_key s = hn_key n \<and> printable w a"
  proof
    fix n
    assume n: "n \<in> set (ht_nodes t)"
    with st obtain a s where a: "hn_data n = Some a" "fm_state (w_mem w) a = Some s" "st_key s = hn_key n" by blast
    then have "Some a \<in> ran (st_map f w)" using at [OF n] by (auto simp: ran_def)
    with a p show "\<exists>a s. hn_data n = Some a \<and> fm_state (w_mem w) a = Some s \<and> st_key s = hn_key n \<and> printable w a" by blast
  qed
  from print_states_lines [OF this, of "[]"] obtain out where o: "print_states (ht_nodes t) w [] =
    Some (concat (map (\<lambda>n. state_line (?k n) (the (hn_data n) \<in> reach_set w)) (ht_nodes t)), w_print out w)" by auto
  have L: "map (\<lambda>n. state_line (?k n) (the (hn_data n) \<in> reach_set w)) (ht_nodes t) =
      map (\<lambda>k. state_line k (\<exists>a\<in>reach_set w. st_map f w k = Some (Some a))) (map ?k (ht_nodes t))"
    using at st by (auto simp: comp_def intro!: map_cong arg_cong2 [where f = state_line])
  have "fsm_print_states f w = print_states (ht_nodes t) w []" using t(1) V(1) by (simp add: fsm_print_states_def)
  note run = this [unfolded o L]
  moreover have "sorted (map ?k (ht_nodes t))" using V(2) by (simp add: sorted_map word_le_nat_alt)
  ultimately show ?thesis using V(3) dom by blast
qed

lemma print_chain_some:
  "(\<forall>n\<in>set ns. ht_printf t m (hn_key n) (hn_data n) \<noteq> None) \<Longrightarrow> ht_print_chain m t ns \<noteq> None"
  by (induction ns) auto

lemma print_chains_some:
  "(\<forall>n\<in>set (concat nss). ht_printf t m (hn_key n) (hn_data n) \<noteq> None) \<Longrightarrow> ht_print_chains m t nss \<noteq> None"
proof (induction nss)
  case (Cons ns nss)
  then show ?case using print_chain_some [of ns t m] by auto
qed simp

lemma printableI:
  assumes ok: "world_ok w" and s: "fm_state (w_mem w) a = Some s" "w_table w (evttable s) = Some t" "ht_printf t = state_printf"
    and e: "\<And>k e. evt_at w a k = Some e \<Longrightarrow> 0 \<in> set (evt_desc e) \<and> evt_newstate e \<noteq> None"
  shows "printable w a"
proof -
  have t: "tbl_ok (w_mem w) t" "evts_ok w t" using ok s(1,2) by (fastforce simp: world_ok_def)+
  then have inv: "ht_inv fm_cell (w_mem w) t" by (simp add: tbl_ok_def)
  obtain k where k: "ht_log t k" using ht_invD(1) [OF inv] by blast
  have "\<forall>n\<in>set (concat (ht_table t)). ht_printf t (w_mem w) (hn_key n) (hn_data n) \<noteq> None"
  proof
    fix n
    assume "n \<in> set (concat (ht_table t))"
    then have n: "n \<in> set (ht_nodes t)" by (simp add: ht_nodes_def)
    with t(2) obtain ev e where v: "hn_data n = Some ev" "fm_event (w_mem w) ev = Some e"
      "\<forall>b. evt_newstate e = Some b \<longrightarrow> b \<in> dom (fm_state (w_mem w))" by (auto simp: evts_ok_def)
    have "evt_at w a (fm_cell (w_mem w) (hn_key n)) = Some e"
      using s(1,2) ht_map_node [OF inv n] v(1,2) by (simp add: evt_at_def)
    from e [OF this] v show "ht_printf t (w_mem w) (hn_key n) (hn_data n) \<noteq> None"
      by (auto simp: s(3) state_printf_def show_desc_def)
  qed
  from print_chains_some [OF this] show ?thesis
    using s(1,2) ht_chains_log [OF k] by (auto simp: printable_def htable_print_def)
qed

section \<open>Building\<close>

lemma init_printf: "htable_init n fac hf cf pr h = Some ((r, Some t), h') \<Longrightarrow> ht_printf t = pr"
  by (auto simp: htable_init_def Let_def split: bind_splits option.splits if_splits)

lemma insert_printf: "htable_insert m t k d h = Some ((r, t'), h') \<Longrightarrow> ht_printf t' = ht_printf t"
  by (auto simp: htable_insert_def htable_grow_def Let_def split: bind_splits option.splits if_splits prod.splits)

lemma unreachable_flag: "((g :: 8 word) AND NOT STATE_REACHABLE) AND STATE_REACHABLE = 0"
  by (rule bit_eqI) (simp add: bit_simps)

lemma state_init_new:
  "state_init g n fac w = Some ((ST_OK, Some a), w') \<Longrightarrow>
    \<exists>s t. fm_state (w_mem w') a = Some s \<and> w_table w' (evttable s) = Some t \<and> ht_printf t = state_printf \<and> \<not> STATE_IS_REACHABLE s"
  by (auto simp: state_init_def Let_def put_table_def put_state_def STATE_IS_REACHABLE_def STATE_MARK_AS_UNREACHABLE_def unreachable_flag
      dest: init_printf split: bind_splits option.splits prod.splits)

lemma add_evt_printf:
  "state_add_evt a k d act b w = Some (ST_OK, w') \<Longrightarrow> w_table w' x = Some t' \<Longrightarrow> \<exists>t. w_table w x = Some t \<and> ht_printf t' = ht_printf t"
  by (auto simp: state_add_evt_def Let_def put_table_def put_event_def put_cell_def w_malloc_def
      dest: insert_printf split: bind_splits option.splits prod.splits if_splits)

lemma add_state_tables:
  "fsm_add_state f k a w = Some (r, w') \<Longrightarrow> x \<noteq> f_sttable f \<Longrightarrow> w_table w' x = w_table w x"
  by (auto simp: fsm_add_state_def Let_def put_table_def put_cell_def split: bind_splits option.splits prod.splits if_splits)

definition dbg_st :: "world \<Rightarrow> nat \<Rightarrow> addr \<Rightarrow> bool" where
  \<comment> \<open>A state whose table has room for \<open>n\<close> more events and prints them.\<close>
  "dbg_st w n a \<longleftrightarrow> (\<exists>s t. fm_state (w_mem w) a = Some s \<and> w_table w (evttable s) = Some t \<and> room 6 n t \<and> ht_printf t = state_printf)"

definition dbg_inv :: "fsm_t \<Rightarrow> world \<Rightarrow> addr set \<Rightarrow> bool" where
  \<comment> \<open>A machine without states, and states without events that nothing has marked.\<close>
  "dbg_inv f w A \<longleftrightarrow> life_inv f w \<and> dom (fm_state (w_mem w)) = A \<and> (\<forall>a\<in>A. dbg_st w 5 a \<and> (\<forall>j. evt_at w a j = None)) \<and>
     reach_set w = {} \<and> st_map f w = Map.empty \<and> room_at 9 4 w (f_sttable f)"

lemma dbg_new_state:
  assumes inv: "dbg_inv f w A" and p: "plenty (1124 + m) (w_heap w)"
  shows "\<exists>a w'. state_init g (2 ^ 6) 2 w = Some ((ST_OK, Some a), w') \<and> a \<notin> A \<and> dbg_inv f w' (insert a A) \<and>
    balanced f w f w' \<and> plenty m (w_heap w')"
proof -
  have I: "life_inv f w" "dom (fm_state (w_mem w)) = A" "\<forall>a\<in>A. dbg_st w 5 a \<and> (\<forall>j. evt_at w a j = None)"
    "reach_set w = {}" "st_map f w = Map.empty" "room_at 9 4 w (f_sttable f)" using inv by (simp_all add: dbg_inv_def)
  have k: "(6 :: nat) \<le> 43" by simp
  have "sizeof_state + sizeof_htable + 2 ^ (6 + 4) + sizeof_uint + m \<le> 1124 + m"
    by (simp add: sizeof_state_def sizeof_htable_def sizeof_uint_def)
  from new_state_plenty [OF I(1) k p this, of g 2] obtain a s w' where
    1: "state_init g (2 ^ 6) 2 w = Some ((ST_OK, Some a), w')" "life_inv f w'" "balanced f w f w'" "plenty m (w_heap w')"
      "a \<notin> A" "fm_state (w_mem w') = (fm_state (w_mem w))(a \<mapsto> s)" "fm_cell (w_mem w') = fm_cell (w_mem w)"
      "fm_event (w_mem w') = fm_event (w_mem w)" "st_map f w' = Map.empty" "room_at 6 128 w' (evttable s)"
      "\<forall>j. evt_at w' a j = None" "\<forall>x. x \<in># owned f w \<longrightarrow> w_table w' x = w_table w x"
    unfolding I(2,5) by (auto simp: ucast_eq)
  from state_init_new [OF 1(1)] 1(6) obtain t where
    n: "w_table w' (evttable s) = Some t" "ht_printf t = state_printf" "\<not> STATE_IS_REACHABLE s" by auto
  have a: "dbg_st w' 5 a" using 1(6,10) n by (auto simp: dbg_st_def room_at_def room_def)
  have old: "dbg_st w' 5 b \<and> (\<forall>j. evt_at w' b j = None)" if b: "b \<in> A" for b
  proof -
    obtain s2 where s2: "fm_state (w_mem w) b = Some s2" using b I(2) by blast
    then have "evttable s2 \<in># owned f w" using owned_state [OF lifeD(4) [OF I(1)], of b] st_own_mem(2) [OF s2]
      by (auto dest: mset_subset_eqD)
    then have "w_table w' (evttable s2) = w_table w (evttable s2)" "fm_state (w_mem w') b = Some s2"
      using 1(5,6,12) b s2 by auto
    with s2 bspec [OF I(3) b] 1(7,8) show ?thesis by (simp add: dbg_st_def evt_at_def ht_map_def ht_pairs_def)
  qed
  have "f_sttable f \<in># owned f w" by (simp add: owned_def fsm_own_mem)
  then have st: "room_at 9 4 w' (f_sttable f)" using I(6) 1(12) by (simp add: room_at_def)
  have "reach_set w' = {}" using I(4) 1(6) n(3) by (auto simp: reach_set_def split: if_splits)
  then have "dbg_inv f w' (insert a A)" using 1(2,6,9,11) a old st I(2) by (simp add: dbg_inv_def)
  with 1(1,3-5) show ?thesis by blast
qed

lemma dbg_states_ok:
  "dbg_inv f w A \<Longrightarrow> plenty (length gs * 1124 + m) (w_heap w) \<Longrightarrow>
    \<exists>as w'. dbg_states gs w = Some (Some as, w') \<and> length as = length gs \<and> distinct as \<and> set as \<inter> A = {} \<and>
      dbg_inv f w' (A \<union> set as) \<and> balanced f w f w' \<and> plenty m (w_heap w')"
proof (induction gs arbitrary: w A)
  case (Cons g gs)
  have b: "(push_bit 5 2 :: size_t) = 2 ^ 6" by (simp add: push_bit_eq_mult)
  have "plenty (1124 + (length gs * 1124 + m)) (w_heap w)" using Cons.prems(2) by (simp add: ac_simps)
  from dbg_new_state [OF Cons.prems(1) this, of g] obtain a w1 where
    1: "state_init g (2 ^ 6) 2 w = Some ((ST_OK, Some a), w1)" "a \<notin> A" "dbg_inv f w1 (insert a A)" "balanced f w f w1"
      "plenty (length gs * 1124 + m) (w_heap w1)" by blast
  from Cons.IH [OF 1(3,5)] obtain as w2 where
    2: "dbg_states gs w1 = Some (Some as, w2)" "length as = length gs" "distinct as" "set as \<inter> insert a A = {}"
      "dbg_inv f w2 (insert a A \<union> set as)" "balanced f w1 f w2" "plenty m (w_heap w2)" by blast
  have "dbg_states (g # gs) w = Some (Some (a # as), w2)" using 1(1) 2(1) b by simp
  moreover have "dbg_inv f w2 (A \<union> set (a # as))" using 2(5) by (simp add: insert_commute Un_commute)
  ultimately show ?case using 1(2) 2(2-4,7) balanced_trans [OF 1(4) 2(6)]
    by (intro exI [of _ "a # as"] exI [of _ w2]) auto
qed simp

definition dbg_evt :: "8 word list \<Rightarrow> addr \<Rightarrow> event_t" where
  "dbg_evt desc b = \<lparr>evt_desc = strncpy desc MAX_EVT_DESC, evt_actionf = None, evt_newstate = Some b\<rparr>"

definition dbg_map :: "(addr \<times> 32 word \<times> 8 word list \<times> addr) list \<Rightarrow> addr \<times> 32 word \<rightharpoonup> event_t" where
  "dbg_map cs = map_of (map (\<lambda>(a, k, desc, b). ((a, k), dbg_evt desc b)) cs)"

lemma dbg_evts_ok:
  "life_inv f w \<Longrightarrow> \<forall>a\<in>dom (fm_state (w_mem w)). dbg_st w (length cs) a \<Longrightarrow> distinct (map (\<lambda>(a, k, desc, b). (a, k)) cs) \<Longrightarrow>
    \<forall>(a, k, desc, b)\<in>set cs. a \<in> dom (fm_state (w_mem w)) \<and> b \<in> dom (fm_state (w_mem w)) \<and> evt_at w a k = None \<Longrightarrow>
    plenty (length cs * 116 + m) (w_heap w) \<Longrightarrow>
    \<exists>w'. dbg_evts cs w = Some (True, w') \<and> life_inv f w' \<and> balanced f w f w' \<and> plenty m (w_heap w') \<and>
      fm_state (w_mem w') = fm_state (w_mem w) \<and> st_map f w' = st_map f w \<and> w_table w' (f_sttable f) = w_table w (f_sttable f) \<and>
      (\<forall>a\<in>dom (fm_state (w_mem w)). dbg_st w' 0 a) \<and>
      (\<forall>a k. evt_at w' a k = (case dbg_map cs (a, k) of None \<Rightarrow> evt_at w a k | e \<Rightarrow> e))"
proof (induction cs arbitrary: w)
  case Nil
  then show ?case by (intro exI [of _ w]) (simp add: dbg_map_def)
next
  case (Cons c cs)
  obtain a k desc b where c: "c = (a, k, desc, b)" by (cases c) auto
  have ab: "a \<in> dom (fm_state (w_mem w))" "b \<in> dom (fm_state (w_mem w))" "evt_at w a k = None" using Cons.prems(4) by (auto simp: c)
  obtain s t where s: "fm_state (w_mem w) a = Some s" "w_table w (evttable s) = Some t" "room 6 (Suc (length cs)) t"
    "ht_printf t = state_printf" using bspec [OF Cons.prems(2) ab(1)] by (auto simp: dbg_st_def)
  then have rm: "room_at 6 (Suc (length cs)) w (evttable s)" by (simp add: room_at_def)
  have "sizeof_uint + sizeof_event + sizeof_hnode + (length cs * 116 + m) \<le> length (c # cs) * 116 + m"
    by (simp add: sizeof_uint_def sizeof_event_def sizeof_hnode_def)
  from add_evt_plenty [OF Cons.prems(1) s(1) ab(2) rm ab(3) Cons.prems(5) this, of desc None] obtain w1 where
    1: "state_add_evt a k desc None (Some b) w = Some (ST_OK, w1)" "life_inv f w1" "balanced f w f w1"
      "plenty (length cs * 116 + m) (w_heap w1)" "fm_state (w_mem w1) = fm_state (w_mem w)" "st_map f w1 = st_map f w"
      "\<forall>c j. evt_at w1 c j = (if c = a \<and> j = k then Some (dbg_evt desc b) else evt_at w c j)"
      "room_at 6 (length cs) w1 (evttable s)" "\<forall>x. x \<noteq> evttable s \<longrightarrow> w_table w1 x = w_table w x"
    unfolding dbg_evt_def by blast
  have st: "dbg_st w1 (length cs) d" if d: "d \<in> dom (fm_state (w_mem w1))" for d
  proof (cases "d = a")
    case True
    from 1(8) obtain t1 where t1: "w_table w1 (evttable s) = Some t1" "room 6 (length cs) t1" by (auto simp: room_at_def)
    with add_evt_printf [OF 1(1) t1(1)] s show ?thesis by (auto simp: dbg_st_def True 1(5))
  next
    case False
    obtain s2 t2 where s2: "fm_state (w_mem w) d = Some s2" "w_table w (evttable s2) = Some t2" "room 6 (Suc (length cs)) t2"
      "ht_printf t2 = state_printf" using bspec [OF Cons.prems(2) d [unfolded 1(5)]] by (auto simp: dbg_st_def)
    have "evttable s2 \<noteq> evttable s" using state_sep(2) [OF Cons.prems(1) s(1) s2(1) False] by blast
    with 1(5,9) s2 show ?thesis by (auto simp: dbg_st_def room_def)
  qed
  have d: "distinct (map (\<lambda>(a, k, desc, b). (a, k)) cs)" using Cons.prems(3) unfolding list.map distinct.simps by blast
  have new: "\<forall>(a, k, desc, b)\<in>set cs. a \<in> dom (fm_state (w_mem w1)) \<and> b \<in> dom (fm_state (w_mem w1)) \<and> evt_at w1 a k = None"
    using Cons.prems(3,4) by (force simp: c 1(5,7))
  from Cons.IH [OF 1(2) ballI [OF st] d new 1(4)] obtain w2 where
    2: "dbg_evts cs w1 = Some (True, w2)" "life_inv f w2" "balanced f w1 f w2" "plenty m (w_heap w2)"
      "fm_state (w_mem w2) = fm_state (w_mem w1)" "st_map f w2 = st_map f w1" "w_table w2 (f_sttable f) = w_table w1 (f_sttable f)"
      "\<forall>a\<in>dom (fm_state (w_mem w1)). dbg_st w2 0 a"
      "\<forall>a k. evt_at w2 a k = (case dbg_map cs (a, k) of None \<Rightarrow> evt_at w1 a k | e \<Rightarrow> e)" by blast
  have "dbg_map cs (a, k) = None"
    using Cons.prems(3) by (force simp: c dbg_map_def map_of_eq_None_iff)
  then have e: "\<forall>d j. evt_at w2 d j = (case dbg_map (c # cs) (d, j) of None \<Rightarrow> evt_at w d j | e \<Rightarrow> e)"
    using 2(9) 1(7) by (auto simp: c dbg_map_def split: option.split)
  have run: "dbg_evts (c # cs) w = Some (True, w2)" using 1(1) 2(1) by (simp add: c)
  have tb: "w_table w2 (f_sttable f) = w_table w (f_sttable f)" using 2(7) 1(9) state_sep(1) [OF Cons.prems(1) s(1)] by auto
  show ?case using run balanced_trans [OF 1(3) 2(3)] 2(2,4-6,8) 1(5,6) tb e by (intro exI [of _ w2]) simp
qed

lemma dbg_adds_ok:
  "life_inv f w \<Longrightarrow> f_cstate f = None \<Longrightarrow> distinct (map fst cs) \<Longrightarrow> distinct (map snd cs) \<Longrightarrow> room_at 9 (length cs) w (f_sttable f) \<Longrightarrow>
    \<forall>(k, a)\<in>set cs. a \<in> dom (fm_state (w_mem w)) \<and> Some a \<notin> ran (st_map f w) \<and> k \<notin> dom (st_map f w) \<Longrightarrow>
    plenty (length cs * 32 + m) (w_heap w) \<Longrightarrow>
    \<exists>w'. dbg_adds f cs w = Some w' \<and> life_inv f w' \<and> balanced f w f w' \<and> fm_state (w_mem w') = fm_state (w_mem w) \<and>
      st_map f w' = st_map f w ++ map_of (map (\<lambda>(k, a). (k, Some a)) cs) \<and> (\<forall>b j. evt_at w' b j = evt_at w b j) \<and>
      room_at 9 0 w' (f_sttable f) \<and> (\<forall>x. x \<noteq> f_sttable f \<longrightarrow> w_table w' x = w_table w x)"
proof (induction cs arbitrary: w)
  case Nil
  then show ?case by (intro exI [of _ w]) simp
next
  case (Cons c cs)
  obtain k a where c: "c = (k, a)" by (cases c)
  have new: "k \<notin> dom (st_map f w)" "Some a \<notin> ran (st_map f w)" "f_cstate f \<noteq> Some a" using Cons.prems(2,6) by (auto simp: c)
  obtain s where s: "fm_state (w_mem w) a = Some s" using Cons.prems(6) by (auto simp: c)
  have rm: "room_at 9 (Suc (length cs)) w (f_sttable f)" using Cons.prems(5) by simp
  have "sizeof_hnode + (length cs * 32 + m) \<le> length (c # cs) * 32 + m" by (simp add: sizeof_hnode_def)
  from add_state_plenty [OF Cons.prems(1) s new(2,3,1) rm Cons.prems(7) this] obtain w1 where
    1: "fsm_add_state f k a w = Some (FSM_OK, w1)" "life_inv f w1" "balanced f w f w1" "plenty (length cs * 32 + m) (w_heap w1)"
      "fm_state (w_mem w1) = fm_state (w_mem w)" "st_map f w1 = (st_map f w)(k \<mapsto> Some a)"
      "\<forall>b j. evt_at w1 b j = evt_at w b j" "room_at 9 (length cs) w1 (f_sttable f)" by blast
  have d: "distinct (map fst cs)" "distinct (map snd cs)" "k \<notin> fst ` set cs" "a \<notin> snd ` set cs" using Cons.prems(3,4) by (auto simp: c)
  have "\<forall>(j, b)\<in>set cs. b \<in> dom (fm_state (w_mem w1)) \<and> Some b \<notin> ran (st_map f w1) \<and> j \<notin> dom (st_map f w1)"
    using Cons.prems(6) d(3,4) new(1) by (force simp: 1(5,6))
  from Cons.IH [OF 1(2) Cons.prems(2) d(1,2) 1(8) this 1(4)] obtain w2 where
    2: "dbg_adds f cs w1 = Some w2" "life_inv f w2" "balanced f w1 f w2" "fm_state (w_mem w2) = fm_state (w_mem w1)"
      "st_map f w2 = st_map f w1 ++ map_of (map (\<lambda>(k, a). (k, Some a)) cs)" "\<forall>b j. evt_at w2 b j = evt_at w1 b j"
      "room_at 9 0 w2 (f_sttable f)" "\<forall>x. x \<noteq> f_sttable f \<longrightarrow> w_table w2 x = w_table w1 x" by blast
  have "k \<notin> dom (map_of (map (\<lambda>(k, a). (k, Some a)) cs))" using d(3) by (simp add: dom_map_of_conv_image_fst image_image case_prod_beta)
  then have M: "st_map f w2 = st_map f w ++ map_of (map (\<lambda>(k, a). (k, Some a)) (c # cs))"
    by (simp add: 2(5) 1(6) c map_add_upd_left)
  have "dbg_adds f (c # cs) w = Some w2" using 1(1) 2(1) by (simp add: c)
  then show ?case using balanced_trans [OF 1(3) 2(3)] 2(2,4,6-8) 1(5,7) add_state_tables [OF 1(1)]
    by (intro exI [of _ w2] conjI M) simp_all
qed

section \<open>Which states are marked\<close>

lemma edge_evt:
  assumes "world_ok w" "st_edge w a b"
  shows "\<exists>k e. evt_at w a k = Some e \<and> evt_newstate e = Some b"
proof -
  from assms(2) obtain s t n ev e where e: "fm_state (w_mem w) a = Some s" "w_table w (evttable s) = Some t"
    "n \<in> set (ht_nodes t)" "hn_data n = Some ev" "fm_event (w_mem w) ev = Some e" "evt_newstate e = Some b"
    by (auto simp: st_edge_def)
  then have "ht_inv fm_cell (w_mem w) t" using assms(1) by (fastforce simp: world_ok_def tbl_ok_def)
  from ht_map_node [OF this e(3)] e have "evt_at w a (fm_cell (w_mem w) (hn_key n)) = Some e" by (simp add: evt_at_def)
  with e(6) show ?thesis by blast
qed

lemma closed_reach:
  assumes "marks w w'" "world_ok w" "reach_set w \<subseteq> S" "\<And>a b k e. a \<in> S \<Longrightarrow> evt_at w a k = Some e \<Longrightarrow> evt_newstate e = Some b \<Longrightarrow> b \<in> S"
  shows "reach_set w' \<subseteq> S"
proof
  fix b
  assume "b \<in> reach_set w'"
  then obtain a where a: "a \<in> reach_set w" "(st_edge w)\<^sup>*\<^sup>* a b" using assms(1) by (auto simp: marks_def)
  from a(2) show "b \<in> S"
  proof induction
    case base
    then show ?case using a(1) assms(3) by blast
  next
    case (step c d)
    then show ?case using edge_evt [OF assms(2) step.hyps(2)] assms(4) by blast
  qed
qed

lemma marked_successor:
  assumes ok: "fsm_ok f w" and m: "fsm_mark_reachable_states f w = Some w'" and a: "a \<in> reach_set w"
    and e: "evt_at w a k = Some e" "evt_newstate e = Some b" and k: "dbg_st w n a" "\<And>j. evt_at w a j \<noteq> None \<Longrightarrow> unat j < 63"
    and st: "st_map f w l = Some (Some a)" "w_table w (f_sttable f) = Some u" "ht_size u = 2 ^ 9"
      "\<forall>l\<in>dom (st_map f w). unat l < 511"
  shows "b \<in> reach_set w'"
proof -
  have u: "tbl_ok (w_mem w) u" "st_map f w = ht_map fm_cell (w_mem w) u" using fsm_okD(3) [OF ok] st(2) by auto
  have keys: "\<forall>n\<in>set (ht_nodes u). unat (fm_cell (w_mem w) (hn_key n)) < 2 ^ 9 - 1"
    using st(4) unfolding u(2) Ball_def ht_map_dom by auto
  have run: "fsm_mark_states (ht_nodes u) w = Some w'"
    using m small_visit(1) [OF u(1) st(3) _ keys] st(2) by (simp add: fsm_mark_reachable_states_def)
  from tbl_map_node [OF u(1)] st(1) u(2) obtain x where x: "x \<in> set (ht_nodes u)" "hn_data x = Some a" by metis
  obtain s t where s: "fm_state (w_mem w) a = Some s" "w_table w (evttable s) = Some t" "ht_size t = 2 ^ 6"
    using k(1) by (auto simp: dbg_st_def room_def)
  have t: "tbl_ok (w_mem w) t" "evts_ok w t" using fsm_okD(1) [OF ok] s(1,2) by (fastforce simp: world_ok_def)+
  have inv: "ht_inv fm_cell (w_mem w) t" using t(1) by (simp add: tbl_ok_def)
  have "evt_at w a (fm_cell (w_mem w) (hn_key n)) \<noteq> None" if n: "n \<in> set (ht_nodes t)" for n
    using t(2) n ht_map_node [OF inv n] s(1,2) by (fastforce simp: evts_ok_def evt_at_def)
  then have keys2: "\<forall>n\<in>set (ht_nodes t). unat (fm_cell (w_mem w) (hn_key n)) < 2 ^ 6 - 1" using k(2) by force
  have it: "ht_iterate t htable_iterator_init = Some (ht_nodes t)" by (rule small_visit(1) [OF t(1) s(3) _ keys2]) simp
  obtain d ev where d: "ht_map fm_cell (w_mem w) t k = Some d" "d = Some ev" "fm_event (w_mem w) ev = Some e"
    using e(1) s(1,2) by (auto simp: evt_at_def split: bind_splits)
  from tbl_map_node [OF t(1) d(1)] obtain y where y: "y \<in> set (ht_nodes t)" "hn_data y = Some ev" using d(2) by auto
  show ?thesis by (rule mark_states_hit [OF run x a s(1,2) it y d(3) e(2)])
qed

section \<open>The run\<close>

definition dbg_calls :: "addr \<Rightarrow> addr \<Rightarrow> addr \<Rightarrow> addr \<Rightarrow> (addr \<times> 32 word \<times> 8 word list \<times> addr) list" where
  "dbg_calls a b c d = [(a, 0, E0, a), (a, 1, E1, b), (b, 0, E0, b), (b, 1, E1, a), (c, 0, E0, d)]"

definition dbg_ready :: "addr multiset \<Rightarrow> fsm_t \<Rightarrow> world \<Rightarrow> addr \<Rightarrow> addr \<Rightarrow> addr \<Rightarrow> addr \<Rightarrow> bool" where
  \<comment> \<open>The machine as it is built; \<open>L\<close> are the blocks that were live before.\<close>
  "dbg_ready L f w a b c d \<longleftrightarrow> life_inv f w \<and> mset (hp_live (w_heap w)) = L + owned f w \<and> distinct [a, b, c, d] \<and>
     dom (fm_state (w_mem w)) = {a, b, c, d} \<and> st_map f w = [1 \<mapsto> Some a, 2 \<mapsto> Some b, 3 \<mapsto> Some c, 4 \<mapsto> Some d] \<and>
     (\<forall>x k. evt_at w x k = dbg_map (dbg_calls a b c d) (x, k)) \<and> (\<forall>x\<in>{a, b, c, d}. dbg_st w 0 x) \<and> room_at 9 0 w (f_sttable f)"

lemma dbg_start:
  assumes ok: "heap_ok (w_heap w0)" and none: "fm_state (w_mem w0) = Map.empty" and p: "plenty 20000 (w_heap w0)" and g: "length gs = 4"
  shows "\<exists>f w1 a b c d w2. fsm_init (2 ^ 9) 5 0 w0 = Some ((FSM_OK, Some f), w1) \<and>
    dbg_states gs w1 = Some (Some [a, b, c, d], w2) \<and> distinct [a, b, c, d] \<and> dbg_inv f w2 {a, b, c, d} \<and> f_cstate f = None \<and>
    plenty (5 * 116 + 4 * 32) (w_heap w2) \<and> mset (hp_live (w_heap w2)) = mset (hp_live (w_heap w0)) + owned f w2 \<and>
    hp_bad (w_heap w2) = hp_bad (w_heap w0)"
proof -
  have k: "(9 :: nat) \<le> 43" by simp
  have "sizeof_fsm + sizeof_htable + max (unat (0 :: 32 word) * sizeof_pqhead) 1 + sizeof_mutex + 2 ^ (9 + 4) +
      (length gs * 1124 + (5 * 116 + 4 * 32)) \<le> 20000"
    by (simp add: g sizeof_fsm_def sizeof_htable_def sizeof_mutex_def)
  from init_plenty [OF ok none k p this, of 5] obtain f w1 where
    1: "fsm_init (2 ^ 9) 5 0 w0 = Some ((FSM_OK, Some f), w1)" "plenty (length gs * 1124 + (5 * 116 + 4 * 32)) (w_heap w1)"
      "room_at 9 (unat (ucast (5 :: 32 word) * 2 ^ 9 :: size_t)) w1 (f_sttable f)" "w_mem w1 = w_mem w0" "f_cstate f = None" by blast
  note S = init_started [OF ok none k 1(1)]
  have "st_map f w1 = Map.empty" using fsm_init_ok [OF ok none k, of 5 0] 1(1) by auto
  moreover have "room_at 9 4 w1 (f_sttable f)" using 1(3) by (auto simp: room_at_def room_def)
  ultimately have "dbg_inv f w1 {}" using S(1) none 1(4) by (simp add: dbg_inv_def reach_set_def)
  from dbg_states_ok [OF this 1(2)] obtain as w2 where
    2: "dbg_states gs w1 = Some (Some as, w2)" "length as = 4" "distinct as" "dbg_inv f w2 (set as)" "balanced f w1 f w2"
      "plenty (5 * 116 + 4 * 32) (w_heap w2)" using g by auto
  from 2(2) obtain a b c d where as: "as = [a, b, c, d]" by (auto simp: numeral_eq_Suc length_Suc_conv)
  have "mset (hp_live (w_heap w2)) = mset (hp_live (w_heap w0)) + owned f w2" "hp_bad (w_heap w2) = hp_bad (w_heap w0)"
    using 2(5) S(2,3) by (simp_all add: balanced_def)
  then show ?thesis using 1(1,5) 2(1,3,4,6) unfolding as by auto
qed

lemma dbg_built:
  assumes ok: "heap_ok (w_heap w0)" and none: "fm_state (w_mem w0) = Map.empty" and p: "plenty 20000 (w_heap w0)" and g: "length gs = 4"
  shows "\<exists>f w1 a b c d w2 w3 w. fsm_init (2 ^ 9) 5 0 w0 = Some ((FSM_OK, Some f), w1) \<and>
    dbg_states gs w1 = Some (Some [a, b, c, d], w2) \<and> dbg_evts (dbg_calls a b c d) w2 = Some (True, w3) \<and>
    dbg_adds f [(1, a), (2, b), (3, c), (4, d)] w3 = Some w \<and>
    dbg_ready (mset (hp_live (w_heap w0))) f w a b c d \<and> reach_set w = {} \<and> hp_bad (w_heap w) = hp_bad (w_heap w0)"
proof -
  from dbg_start [OF assms] obtain f w1 a b c d w2 where
    1: "fsm_init (2 ^ 9) 5 0 w0 = Some ((FSM_OK, Some f), w1)" "dbg_states gs w1 = Some (Some [a, b, c, d], w2)" and
    di: "distinct [a, b, c, d]" and 2: "dbg_inv f w2 {a, b, c, d}" "f_cstate f = None" "plenty (5 * 116 + 4 * 32) (w_heap w2)" and
    L: "mset (hp_live (w_heap w2)) = mset (hp_live (w_heap w0)) + owned f w2" "hp_bad (w_heap w2) = hp_bad (w_heap w0)" by blast
  have I: "life_inv f w2" "dom (fm_state (w_mem w2)) = {a, b, c, d}" "\<forall>x\<in>{a, b, c, d}. dbg_st w2 5 x \<and> (\<forall>j. evt_at w2 x j = None)"
    "reach_set w2 = {}" "st_map f w2 = Map.empty" "room_at 9 4 w2 (f_sttable f)" using 2(1) by (simp_all add: dbg_inv_def)
  let ?cs = "dbg_calls a b c d" and ?ks = "[(1, a), (2, b), (3, c), (4, d)] :: (32 word \<times> addr) list"
  have n: "length ?cs = 5" by (simp add: dbg_calls_def)
  have c1: "\<forall>x\<in>dom (fm_state (w_mem w2)). dbg_st w2 (length ?cs) x" unfolding n I(2) using I(3) by blast
  have c2: "distinct (map (\<lambda>(a, k, desc, b). (a, k)) ?cs)" using di by (simp add: dbg_calls_def)
  have c3: "\<forall>(x, k, desc, y)\<in>set ?cs. x \<in> dom (fm_state (w_mem w2)) \<and> y \<in> dom (fm_state (w_mem w2)) \<and> evt_at w2 x k = None"
    unfolding I(2) using I(3) by (simp add: dbg_calls_def)
  have c4: "plenty (length ?cs * 116 + 4 * 32) (w_heap w2)" using 2(3) by (simp add: dbg_calls_def)
  from dbg_evts_ok [OF I(1) c1 c2 c3 c4] obtain w3 where
    3: "dbg_evts ?cs w2 = Some (True, w3)" "life_inv f w3" "balanced f w2 f w3" "plenty (4 * 32) (w_heap w3)"
      "fm_state (w_mem w3) = fm_state (w_mem w2)" "st_map f w3 = Map.empty" "w_table w3 (f_sttable f) = w_table w2 (f_sttable f)"
      "\<forall>x\<in>{a, b, c, d}. dbg_st w3 0 x"
      "\<forall>x k. evt_at w3 x k = (case dbg_map ?cs (x, k) of None \<Rightarrow> evt_at w2 x k | e \<Rightarrow> e)" unfolding I(2,5) by blast
  have evt: "evt_at w3 x j = dbg_map ?cs (x, j)" for x j
  proof -
    have "evt_at w2 x j = None"
      using I(2,3) by (cases "x \<in> {a, b, c, d}") (auto simp: evt_at_def)
    then show ?thesis using 3(9) by (simp split: option.split)
  qed
  have d1: "distinct (map fst ?ks)" "distinct (map snd ?ks)" using di by simp_all
  have d2: "room_at 9 (length ?ks) w3 (f_sttable f)" using I(6) by (simp add: room_at_def 3(7) eval_nat_numeral)
  have d3: "\<forall>(k, x)\<in>set ?ks. x \<in> dom (fm_state (w_mem w3)) \<and> Some x \<notin> ran (st_map f w3) \<and> k \<notin> dom (st_map f w3)"
    unfolding 3(5,6) I(2) by simp
  have d4: "plenty (length ?ks * 32 + 0) (w_heap w3)" using 3(4) by simp
  from dbg_adds_ok [OF 3(2) 2(2) d1 d2 d3 d4] obtain w where
    4: "dbg_adds f ?ks w3 = Some w" "life_inv f w" "balanced f w3 f w" "fm_state (w_mem w) = fm_state (w_mem w3)"
      "st_map f w = st_map f w3 ++ map_of (map (\<lambda>(k, a). (k, Some a)) ?ks)" "\<forall>b j. evt_at w b j = evt_at w3 b j"
      "room_at 9 0 w (f_sttable f)" "\<forall>x. x \<noteq> f_sttable f \<longrightarrow> w_table w x = w_table w3 x" by blast
  have sm: "st_map f w = [1 \<mapsto> Some a, 2 \<mapsto> Some b, 3 \<mapsto> Some c, 4 \<mapsto> Some d]" by (auto simp: 4(5) 3(6) fun_eq_iff)
  have st: "dbg_st w 0 x" if "x \<in> {a, b, c, d}" for x
  proof -
    from bspec [OF 3(8) that] obtain s t where "fm_state (w_mem w3) x = Some s" "w_table w3 (evttable s) = Some t" "room 6 0 t"
      "ht_printf t = state_printf" by (auto simp: dbg_st_def)
    then show ?thesis using 4(4,8) state_sep(1) [OF 3(2)] by (simp add: dbg_st_def)
  qed
  have bal: "balanced f w2 f w" by (rule balanced_trans [OF 3(3) 4(3)])
  then have "mset (hp_live (w_heap w)) = mset (hp_live (w_heap w0)) + owned f w" "hp_bad (w_heap w) = hp_bad (w_heap w0)"
    using L by (simp_all add: balanced_def)
  moreover have "reach_set w = {}" using I(4) 4(4) 3(5) by (simp add: reach_set_def)
  moreover have "dom (fm_state (w_mem w)) = {a, b, c, d}" by (simp only: 4(4) 3(5) I(2))
  ultimately have "dbg_ready (mset (hp_live (w_heap w0))) f w a b c d \<and> reach_set w = {} \<and> hp_bad (w_heap w) = hp_bad (w_heap w0)"
    using 4(2,6,7) sm st evt di by (simp add: dbg_ready_def)
  then show ?thesis using 1 3(1) 4(1) by blast
qed

lemma dbg_st_flags: "flags_only w w' \<Longrightarrow> dbg_st w n a \<Longrightarrow> dbg_st w' n a"
  using flags_only_state [of w w' a] flags_only_mem [of w w'] by (fastforce simp: dbg_st_def)

lemma dbg_closed:
  "distinct [a, b, c, d] \<Longrightarrow> x \<in> {a, b} \<Longrightarrow> dbg_map (dbg_calls a b c d) (x, k) = Some e \<Longrightarrow> evt_newstate e = Some y \<Longrightarrow> y \<in> {a, b}"
  by (auto simp: dbg_map_def dbg_calls_def dbg_evt_def split: if_splits)

lemma dbg_marked:
  assumes r: "dbg_ready L f w a b c d" and none: "reach_set w = {}"
  shows "\<exists>f1 w1 w'. fsm_set_state f 1 w = Some ((FSM_OK, f1), w1) \<and> fsm_mark_reachable_states f1 w1 = Some w' \<and>
    dbg_ready L f1 w' a b c d \<and> reach_set w' = {a, b} \<and> hp_bad (w_heap w') = hp_bad (w_heap w)"
proof -
  have R: "life_inv f w" "mset (hp_live (w_heap w)) = L + owned f w" "distinct [a, b, c, d]"
    "dom (fm_state (w_mem w)) = {a, b, c, d}" "st_map f w = [1 \<mapsto> Some a, 2 \<mapsto> Some b, 3 \<mapsto> Some c, 4 \<mapsto> Some d]"
    "\<And>x k. evt_at w x k = dbg_map (dbg_calls a b c d) (x, k)" "\<And>x. x \<in> {a, b, c, d} \<Longrightarrow> dbg_st w 0 x" "room_at 9 0 w (f_sttable f)"
    using r unfolding dbg_ready_def by blast+
  have sm: "st_map f w 1 = Some (Some a)" by (simp add: R(5))
  from set_state_ok [OF lifeD(1,2) [OF R(1)], of 1] obtain s w1 where
    1: "fm_state (w_mem w) a = Some s" "fsm_set_state f 1 w = Some ((FSM_OK, f\<lparr>f_cstate := Some a\<rparr>), w1)"
      "marks (put_state a (STATE_MARK_AS_REACHABLE s) w) w1" "flags_only w w1" unfolding sm by auto
  let ?f = "f\<lparr>f_cstate := Some a\<rparr>" and ?p = "put_state a (STATE_MARK_AS_REACHABLE s) w"
  note D = drive_ok [OF fsm_step.set_state [OF 1(2)] R(1) no_action_quiet]
  from mark_ok [OF lifeD(1,2) [OF D(1)]] obtain w' where
    2: "fsm_mark_reachable_states ?f w1 = Some w'" "marks w1 w'" by blast
  note M = drive_ok [OF fsm_step.mark [OF 2(1)] D(1) no_action_quiet]
  have fl: "flags_only w1 w'" "flags_only w w'" using 2(2) 1(4) flags_only_trans by (auto simp: marks_def)
  have bal: "balanced f w ?f w'" by (rule balanced_trans [OF D(2) M(2)])
  have tb: "w_table w' = w_table w" "w_table w1 = w_table w" using flags_only_mem [OF fl(2)] flags_only_mem [OF 1(4)] by simp_all
  have ready: "dbg_ready L ?f w' a b c d"
    unfolding dbg_ready_def using M(1,4,5,7) D(4,5,7) R(2-6,8) bal tb dbg_st_flags [OF fl(2) R(7)]
    by (simp add: balanced_def room_at_def)
  have p: "flags_only w ?p" by (rule flags_only_mark [OF 1(1)])
  have pr: "reach_set ?p = {a}" using none by (auto simp: reach_set_def put_state_def split: if_splits)
  have cl: "y \<in> {a, b}" if "x \<in> {a, b}" "evt_at w x k = Some e" "evt_newstate e = Some y" for x y k e
    using dbg_closed [OF R(3) that(1) _ that(3)] that(2) R(6) by simp
  have "reach_set w1 \<subseteq> {a, b}"
    by (rule closed_reach [OF 1(3) world_ok_flags [OF p lifeD(6) [OF R(1)]]]) (use pr cl in \<open>auto simp: flags_evt_at [OF p]\<close>)
  then have sub: "reach_set w' \<subseteq> {a, b}"
    by (rule closed_reach [OF 2(2) lifeD(6) [OF D(1)]]) (use cl D(7) in auto)
  have a1: "a \<in> reach_set w1" using flags_only_reach [of ?p w1] 1(3) pr by (simp add: marks_def)
  obtain u where u: "w_table w1 (f_sttable ?f) = Some u" "ht_size u = 2 ^ 9" using R(8) tb by (auto simp: room_at_def room_def)
  have e: "evt_at w1 a 1 = Some (dbg_evt E1 b)" "evt_newstate (dbg_evt E1 b) = Some b"
    using D(7) R(6) by (simp_all add: dbg_map_def dbg_calls_def dbg_evt_def)
  have k1: "unat j < 63" if "evt_at w1 a j \<noteq> None" for j
  proof -
    have "j = 0 \<or> j = 1" using that D(7) R(3,6) by (auto simp: dbg_map_def dbg_calls_def split: if_splits)
    then show ?thesis by auto
  qed
  have k2: "st_map ?f w1 1 = Some (Some a)" "\<forall>l\<in>dom (st_map ?f w1). unat l < 511" using D(4) R(5) by auto
  have st: "dbg_st w1 0 a" by (rule dbg_st_flags [OF 1(4) R(7)]) simp
  have "b \<in> reach_set w'" by (rule marked_successor [OF lifeD(1) [OF D(1)] 2(1) a1 e st k1 k2(1) u k2(2)])
  moreover have "a \<in> reach_set w'" using a1 flags_only_reach [OF fl(1)] by blast
  ultimately have "reach_set w' = {a, b}" using sub by blast
  with 1(2) 2(1) ready bal show ?thesis by (intro exI [of _ ?f] exI [of _ w1] exI [of _ w']) (simp add: balanced_def)
qed

lemma dbg_printed:
  assumes r: "dbg_ready L f w a b c d" and m: "reach_set w = {a, b}"
  shows "\<exists>out. fsm_print_states f w =
    Some (state_line 1 True @ state_line 2 True @ state_line 3 False @ state_line 4 False, w_print out w)"
proof -
  have R: "life_inv f w" "distinct [a, b, c, d]" "dom (fm_state (w_mem w)) = {a, b, c, d}"
    "st_map f w = [1 \<mapsto> Some a, 2 \<mapsto> Some b, 3 \<mapsto> Some c, 4 \<mapsto> Some d]"
    "\<And>x k. evt_at w x k = dbg_map (dbg_calls a b c d) (x, k)" "\<And>x. x \<in> {a, b, c, d} \<Longrightarrow> dbg_st w 0 x" "room_at 9 0 w (f_sttable f)"
    using r unfolding dbg_ready_def by blast+
  obtain t where t: "w_table w (f_sttable f) = Some t" "ht_size t = 2 ^ 9" using R(7) by (auto simp: room_at_def room_def)
  have ev: "0 \<in> set (evt_desc e) \<and> evt_newstate e \<noteq> None" if "evt_at w x k = Some e" for x k e
    using that by (auto simp: R(5) dbg_map_def dbg_calls_def dbg_evt_def strncpy_def E0_def E1_def MAX_EVT_DESC_def split: if_splits)
  have "printable w x" if x: "x \<in> {a, b, c, d}" for x
  proof -
    from R(6) [OF x] obtain s u where "fm_state (w_mem w) x = Some s" "w_table w (evttable s) = Some u" "ht_printf u = state_printf"
      by (auto simp: dbg_st_def)
    from printableI [OF lifeD(6) [OF R(1)] this ev] show ?thesis .
  qed
  moreover have dom: "dom (st_map f w) = {1, 2, 3, 4}" unfolding R(4) by auto
  moreover have "\<forall>x. Some x \<in> ran (st_map f w) \<longrightarrow> x \<in> {a, b, c, d}" unfolding R(4) by (auto simp: ran_def split: if_splits)
  moreover have "\<forall>k\<in>dom (st_map f w). unat k < 2 ^ 9 - 1" unfolding dom by simp
  ultimately obtain ks out where o: "fsm_print_states f w =
      Some (concat (map (\<lambda>k. state_line k (\<exists>x\<in>reach_set w. st_map f w k = Some (Some x))) ks), w_print out w)"
      "sorted ks" "distinct ks" "set ks = dom (st_map f w)"
    using fsm_print_lines [OF lifeD(1) [OF R(1)] t(1,2)] by auto
  have "ks = [1, 2, 3, 4]"
    by (rule sorted_distinct_set_unique [OF o(2,3)]) (simp_all add: o(4) dom)
  then show ?thesis using o(1) R(2) by (auto simp: R(4) m)
qed

text \<open>C26: When memory is plentiful no assertion fails, the table is printed in the order of the keys with the two states
  that the initial one leads to marked and the other two not, and every block is released.\<close>

theorem dbg_main_correct:
  assumes "heap_ok (w_heap w0)" "fm_state (w_mem w0) = Map.empty" "plenty 20000 (w_heap w0)" "length gs = 4"
  shows "\<exists>w'. dbg_main gs w0 =
      Some (Some (state_line 1 True @ state_line 2 True @ state_line 3 False @ state_line 4 False), w') \<and>
    mset (hp_live (w_heap w')) = mset (hp_live (w_heap w0)) \<and> hp_bad (w_heap w') = hp_bad (w_heap w0)"
proof -
  from dbg_built [OF assms] obtain f w1 a b c d w2 w3 w4 where
    1: "fsm_init (2 ^ 9) 5 0 w0 = Some ((FSM_OK, Some f), w1)" "dbg_states gs w1 = Some (Some [a, b, c, d], w2)"
      "dbg_evts (dbg_calls a b c d) w2 = Some (True, w3)" "dbg_adds f [(1, a), (2, b), (3, c), (4, d)] w3 = Some w4"
      "dbg_ready (mset (hp_live (w_heap w0))) f w4 a b c d" "reach_set w4 = {}" "hp_bad (w_heap w4) = hp_bad (w_heap w0)" by blast
  from dbg_marked [OF 1(5,6)] obtain f1 w5 w6 where
    2: "fsm_set_state f 1 w4 = Some ((FSM_OK, f1), w5)" "fsm_mark_reachable_states f1 w5 = Some w6"
      "dbg_ready (mset (hp_live (w_heap w0))) f1 w6 a b c d" "reach_set w6 = {a, b}" "hp_bad (w_heap w6) = hp_bad (w_heap w4)" by blast
  from dbg_printed [OF 2(3,4)] obtain out where
    3: "fsm_print_states f1 w6 = Some (state_line 1 True @ state_line 2 True @ state_line 3 False @ state_line 4 False, w_print out w6)"
    by blast
  let ?w = "w_print out w6"
  have R: "life_inv f1 w6" "mset (hp_live (w_heap w6)) = mset (hp_live (w_heap w0)) + owned f1 w6" "dom (fm_state (w_mem w6)) = {a, b, c, d}"
    "st_map f1 w6 = [1 \<mapsto> Some a, 2 \<mapsto> Some b, 3 \<mapsto> Some c, 4 \<mapsto> Some d]" "room_at 9 0 w6 (f_sttable f1)" "distinct [a, b, c, d]"
    using 2(3) unfolding dbg_ready_def by blast+
  have keys: "\<exists>k. st_map f1 ?w k = Some (Some x) \<and> unat k < 2 ^ 9 - 1" if "x \<in> dom (fm_state (w_mem ?w))" for x
  proof -
    have "\<exists>k\<in>{1, 2, 3, 4}. st_map f1 ?w k = Some (Some x)" using that R(3) by (auto simp: R(4))
    then show ?thesis by auto
  qed
  have own: "room_at 9 0 ?w (f_sttable f1)" "mset (hp_live (w_heap ?w)) = mset (hp_live (w_heap w0)) + owned f1 ?w"
    using R(2,5) same_objs_owned [OF same_objs_print [of f1 w6 out]] by (simp_all add: room_at_def)
  obtain w' where 4: "fsm_free f1 ?w = Some (FSM_OK, w')" "mset (hp_live (w_heap w')) = mset (hp_live (w_heap w0))"
    "hp_bad (w_heap w') = hp_bad (w_heap ?w)" by (rule free_all [OF life_print [OF R(1)] own(1) _ keys own(2)]) (simp, assumption, rule that)
  have "dbg_main gs w0 =
      Some (Some (state_line 1 True @ state_line 2 True @ state_line 3 False @ state_line 4 False), w')"
    using 1(1,2,4) 1(3) [unfolded dbg_calls_def] 2(1,2) 3 4(1)
    by (simp add: dbg_main_def push_bit_eq_mult del: dbg_evts.simps dbg_adds.simps)
  then show ?thesis using 4(2,3) 2(5) 1(7) by simp
qed

lemma dbg_main_correct_witness:
  "\<exists>w'. dbg_main [7, 0, 255, 1] stress_start =
      Some (Some (state_line 1 True @ state_line 2 True @ state_line 3 False @ state_line 4 False), w') \<and>
    hp_live (w_heap w') = []"
proof -
  have "heap_ok (w_heap stress_start)" "fm_state (w_mem stress_start) = Map.empty" "plenty 20000 (w_heap stress_start)"
    by (simp_all add: stress_start_def heap_ok_def heap_wf_def plenty_def)
  from dbg_main_correct [OF this, of "[7, 0, 255, 1]"] show ?thesis by (auto simp: stress_start_def)
qed

end
