(* ===== verification/Barber.thy ===== *)
theory Barber imports Threads begin

text \<open>
  The sleeping barber of \<open>pthreads/sleepbarber.c\<close>: thread 0 is \<open>main\<close>, thread 1 the barber, the
  threads from 2 on the customers. The atomic actions are the semaphore calls, the accesses to
  \<open>freeseats\<close>, and the calls of \<open>printf\<close>. A constructor of \<open>bar_pc\<close> and \<open>cus_pc\<close> names the action
  its thread does next. \<open>sp_refuse\<close> says which of the coming calls of \<open>pthread_create\<close> fail; the
  process then exits, and no thread acts any more.
\<close>

section \<open>The program\<close>

definition NUM_CUSTOMERS :: nat where "NUM_CUSTOMERS = 10"
definition MAX_FREESEATS :: "32 word" where "MAX_FREESEATS = 2"

datatype main_pc = M_barber | M_customer nat | M_join | M_exit

datatype bar_pc = B_new | B_sleep | B_wait | B_lock | B_inc | B_post | B_unlock | B_cut

datatype cus_pc = C_new | C_arrive | C_lock | C_check | C_dec | C_post | C_unlock | C_wait
  | C_full | C_leave | C_done bool

record shop =
  barsem :: nat
  cussem :: nat
  seasem :: nat
  freeseats :: "32 word"
  sp_main :: main_pc
  sp_barber :: bar_pc
  sp_custs :: "cus_pc list"
  sp_refuse :: "bool list"
  sp_out :: "string list"

definition sem_wait :: "nat \<Rightarrow> nat option" where
  \<comment> \<open>\<open>None\<close>: the caller blocks.\<close>
  "sem_wait v = (if 0 < v then Some (v - 1) else None)"

definition sem_post :: "nat \<Rightarrow> nat" where
  "sem_post v = v + 1"

definition shop_init :: "bool list \<Rightarrow> shop" where
  "shop_init refuse =
     \<lparr>barsem = 0, cussem = 0, seasem = 1, freeseats = MAX_FREESEATS, sp_main = M_barber, sp_barber = B_new,
      sp_custs = replicate NUM_CUSTOMERS C_new, sp_refuse = refuse, sp_out = []\<rparr>"

definition sp_print :: "string \<Rightarrow> shop \<Rightarrow> shop" where
  "sp_print l s = s\<lparr>sp_out := sp_out s @ [l]\<rparr>"

definition refused :: "shop \<Rightarrow> bool" where
  "refused s = (case sp_refuse s of [] \<Rightarrow> False | b # _ \<Rightarrow> b)"

definition main_step :: "shop \<Rightarrow> shop option" where
  "main_step s =
     (let s1 = s\<lparr>sp_refuse := tl (sp_refuse s)\<rparr> in
      case sp_main s of
        M_barber \<Rightarrow> Some (if refused s then s1\<lparr>sp_main := M_exit\<rparr>
                         else s1\<lparr>sp_main := M_customer 0, sp_barber := B_sleep\<rparr>)
      | M_customer i \<Rightarrow>
          Some (if i < NUM_CUSTOMERS
                then if refused s then s1\<lparr>sp_main := M_exit\<rparr>
                     else s1\<lparr>sp_main := M_customer (i + 1), sp_custs := (sp_custs s)[i := C_arrive]\<rparr>
                else s\<lparr>sp_main := M_join\<rparr>)
      | M_join \<Rightarrow> None \<comment> \<open>the barber never ends\<close>
      | M_exit \<Rightarrow> None)"

definition barthread :: "shop \<Rightarrow> shop option" where
  "barthread s =
     (case sp_barber s of
        B_new \<Rightarrow> None
      | B_sleep \<Rightarrow> Some (sp_print ''ZZZzzz'' (s\<lparr>sp_barber := B_wait\<rparr>))
      | B_wait \<Rightarrow> do { v \<leftarrow> sem_wait (cussem s); Some (s\<lparr>cussem := v, sp_barber := B_lock\<rparr>) }
      | B_lock \<Rightarrow> do { v \<leftarrow> sem_wait (seasem s); Some (s\<lparr>seasem := v, sp_barber := B_inc\<rparr>) }
      | B_inc \<Rightarrow> Some (s\<lparr>freeseats := freeseats s + 1, sp_barber := B_post\<rparr>)
      | B_post \<Rightarrow> Some (s\<lparr>barsem := sem_post (barsem s), sp_barber := B_unlock\<rparr>)
      | B_unlock \<Rightarrow> Some (s\<lparr>seasem := sem_post (seasem s), sp_barber := B_cut\<rparr>)
      | B_cut \<Rightarrow> Some (sp_print ''The barber is cutting hair'' (s\<lparr>sp_barber := B_sleep\<rparr>)))"

definition sp_set :: "nat \<Rightarrow> cus_pc \<Rightarrow> shop \<Rightarrow> shop" where
  "sp_set i pc s = s\<lparr>sp_custs := (sp_custs s)[i := pc]\<rparr>"

definition custhread :: "nat \<Rightarrow> shop \<Rightarrow> shop option" where
  "custhread i s =
     (if i < length (sp_custs s) then
        case sp_custs s ! i of
          C_new \<Rightarrow> None
        | C_arrive \<Rightarrow> Some (sp_print ''Customer has arrived'' (sp_set i C_lock s))
        | C_lock \<Rightarrow> do { v \<leftarrow> sem_wait (seasem s); Some (sp_set i C_check (s\<lparr>seasem := v\<rparr>)) }
        | C_check \<Rightarrow> Some (sp_set i (if freeseats s > 0 then C_dec else C_full) s)
        | C_dec \<Rightarrow> Some (sp_set i C_post (s\<lparr>freeseats := freeseats s - 1\<rparr>))
        | C_post \<Rightarrow> Some (sp_set i C_unlock (s\<lparr>cussem := sem_post (cussem s)\<rparr>))
        | C_unlock \<Rightarrow> Some (sp_set i C_wait (s\<lparr>seasem := sem_post (seasem s)\<rparr>))
        | C_wait \<Rightarrow> do { v \<leftarrow> sem_wait (barsem s); Some (sp_set i (C_done True) (s\<lparr>barsem := v\<rparr>)) }
        | C_full \<Rightarrow> Some (sp_print ''No free seats - customer leaving'' (sp_set i C_leave s))
        | C_leave \<Rightarrow> Some (sp_set i (C_done False) (s\<lparr>seasem := sem_post (seasem s)\<rparr>))
        | C_done served \<Rightarrow> None
      else None)"

definition shop_step :: "nat \<Rightarrow> shop \<Rightarrow> shop option" where
  "shop_step t s =
     (if sp_main s = M_exit then None
      else case t of 0 \<Rightarrow> main_step s | Suc 0 \<Rightarrow> barthread s | Suc (Suc i) \<Rightarrow> custhread i s)"

section \<open>The invariant\<close>

definition b_crit :: "bar_pc \<Rightarrow> bool" where
  "b_crit pc \<longleftrightarrow> pc \<in> {B_inc, B_post, B_unlock}"

definition c_crit :: "cus_pc \<Rightarrow> bool" where
  "c_crit pc \<longleftrightarrow> pc \<in> {C_check, C_dec, C_post, C_unlock, C_full, C_leave}"

definition sp_lock_ok :: "shop \<Rightarrow> bool" where
  \<comment> \<open>\<open>seasem\<close> is a lock.\<close>
  "sp_lock_ok s \<longleftrightarrow> seasem s + of_bool (b_crit (sp_barber s)) + cnt c_crit (sp_custs s) = 1"

definition sp_seats_ok :: "shop \<Rightarrow> bool" where
  \<comment> \<open>A seat is free, or its customer is on the way to the barber.\<close>
  "sp_seats_ok s \<longleftrightarrow>
     unat (freeseats s) + cussem s + cnt ((=) C_post) (sp_custs s) + of_bool (sp_barber s \<in> {B_lock, B_inc}) = 2"

definition sp_turns_ok :: "shop \<Rightarrow> bool" where
  \<comment> \<open>Each customer that waits is announced to the barber or has its turn already.\<close>
  "sp_turns_ok s \<longleftrightarrow>
     cussem s + of_bool (sp_barber s \<in> {B_lock, B_inc, B_post}) + barsem s =
     cnt (\<lambda>pc. pc \<in> {C_unlock, C_wait}) (sp_custs s)"

definition sp_main_ok :: "shop \<Rightarrow> bool" where
  \<comment> \<open>The threads that \<open>main\<close> has created are the ones that run.\<close>
  "sp_main_ok s \<longleftrightarrow>
     length (sp_custs s) = NUM_CUSTOMERS \<and>
     (sp_main s = M_barber \<longrightarrow> sp_barber s = B_new \<and> (\<forall>i<NUM_CUSTOMERS. sp_custs s ! i = C_new)) \<and>
     (\<forall>n. sp_main s = M_customer n \<longrightarrow> n \<le> NUM_CUSTOMERS \<and> sp_barber s \<noteq> B_new \<and>
        (\<forall>i<NUM_CUSTOMERS. sp_custs s ! i = C_new \<longleftrightarrow> n \<le> i)) \<and>
     (sp_main s = M_join \<longrightarrow> sp_barber s \<noteq> B_new \<and> (\<forall>i<NUM_CUSTOMERS. sp_custs s ! i \<noteq> C_new))"

definition shop_inv :: "shop \<Rightarrow> bool" where
  "shop_inv s \<longleftrightarrow> sp_lock_ok s \<and> sp_seats_ok s \<and> sp_turns_ok s \<and> sp_main_ok s \<and>
     (\<forall>i<length (sp_custs s). sp_custs s ! i = C_dec \<longrightarrow> freeseats s \<noteq> 0)"

text \<open>What is left to do: every action lowers it.\<close>

fun main_left :: "main_pc \<Rightarrow> nat" where
  "main_left M_barber = NUM_CUSTOMERS + 2"
| "main_left (M_customer n) = NUM_CUSTOMERS - n + 1"
| "main_left M_join = 0"
| "main_left M_exit = 0"

fun bar_left :: "bar_pc \<Rightarrow> nat" where
  "bar_left B_new = 1"
| "bar_left B_sleep = 1"
| "bar_left B_wait = 0"
| "bar_left B_lock = 6"
| "bar_left B_inc = 5"
| "bar_left B_post = 4"
| "bar_left B_unlock = 3"
| "bar_left B_cut = 2"

fun cus_left :: "cus_pc \<Rightarrow> nat" where
  "cus_left C_new = 15"
| "cus_left C_arrive = 15"
| "cus_left C_lock = 14"
| "cus_left C_check = 12"
| "cus_left C_dec = 11"
| "cus_left C_post = 10"
| "cus_left C_unlock = 2"
| "cus_left C_wait = 1"
| "cus_left C_full = 2"
| "cus_left C_leave = 1"
| "cus_left (C_done b) = 0"

definition shop_left :: "shop \<Rightarrow> nat" where
  "shop_left s = main_left (sp_main s) + bar_left (sp_barber s) + sum_list (map cus_left (sp_custs s)) + 7 * cussem s"

end
