(* ===== verification/Barber_Inv.thy ===== *)
theory Barber_Inv imports Barber begin

section \<open>Every action keeps the invariant\<close>

lemma freeseats_inc: "unat f \<le> 1 \<Longrightarrow> unat (f + 1 :: 32 word) = unat f + 1"
  by (subst unat_word_ariths) simp

lemma freeseats_dec: "f \<noteq> 0 \<Longrightarrow> unat (f - 1 :: 32 word) + 1 = unat f"
  by (metis Suc_eq_plus1 Suc_pred' unat_gt_0 unat_minus_one)

lemmas shop_inv_defs = shop_inv_def sp_lock_ok_def sp_seats_ok_def sp_turns_ok_def

lemma barthread_counts:
  assumes "shop_inv s" "barthread s = Some s'"
  shows "sp_lock_ok s' \<and> sp_seats_ok s' \<and> sp_turns_ok s' \<and> sp_main_ok s' \<and> shop_left s' < shop_left s"
proof -
  have L: "seasem s + of_bool (b_crit (sp_barber s)) + cnt c_crit (sp_custs s) = 1"
    and F: "unat (freeseats s) + cussem s + cnt ((=) C_post) (sp_custs s) + of_bool (sp_barber s \<in> {B_lock, B_inc}) = 2"
    and T: "cussem s + of_bool (sp_barber s \<in> {B_lock, B_inc, B_post}) + barsem s =
      cnt (\<lambda>pc. pc \<in> {C_unlock, C_wait}) (sp_custs s)"
    and M: "sp_main_ok s"
    using assms(1) by (simp_all add: shop_inv_defs)
  have "sp_main_ok s'"
    using M assms(2) by (cases "sp_barber s")
      (auto simp: sp_main_ok_def barthread_def sp_print_def split: bind_splits)
  moreover have "sp_lock_ok s'"
    using L assms(2) by (cases "sp_barber s")
      (auto simp: sp_lock_ok_def barthread_def sp_print_def b_crit_def sem_wait_def sem_post_def split: bind_splits if_splits)
  moreover have "sp_turns_ok s'"
    using T assms(2) by (cases "sp_barber s")
      (auto simp: sp_turns_ok_def barthread_def sp_print_def sem_wait_def sem_post_def split: bind_splits if_splits)
  moreover have "sp_seats_ok s'"
    using F assms(2) freeseats_inc [of "freeseats s"] by (cases "sp_barber s")
      (auto simp: sp_seats_ok_def barthread_def sp_print_def sem_wait_def sem_post_def split: bind_splits if_splits)
  moreover have "shop_left s' < shop_left s"
    using assms(2) by (cases "sp_barber s")
      (auto simp: shop_left_def barthread_def sp_print_def sem_wait_def sem_post_def split: bind_splits if_splits)
  ultimately show ?thesis by blast
qed

lemma barthread_inv:
  assumes "shop_inv s" "barthread s = Some s'"
  shows "shop_inv s' \<and> shop_left s' < shop_left s"
proof -
  have custs: "sp_custs s' = sp_custs s" "freeseats s' = (if sp_barber s = B_inc then freeseats s + 1 else freeseats s)"
    using assms(2) by (auto simp: barthread_def sp_print_def split: bar_pc.splits bind_splits)
  have "freeseats s' \<noteq> 0" if "i < length (sp_custs s')" "sp_custs s' ! i = C_dec" for i
  proof -
    have "freeseats s \<noteq> 0" using that assms(1) custs by (simp add: shop_inv_def)
    moreover have "sp_barber s \<noteq> B_inc"
    proof
      assume "sp_barber s = B_inc"
      then have "cnt c_crit (sp_custs s) = 0" using assms(1) by (simp add: shop_inv_defs b_crit_def)
      then show False using that custs by (auto simp: cnt_0 c_crit_def)
    qed
    ultimately show ?thesis using custs by simp
  qed
  then show ?thesis using barthread_counts [OF assms] by (simp add: shop_inv_def)
qed

lemma custhread_cases:
  \<comment> \<open>What a customer's action does to the counters.\<close>
  assumes "custhread i s = Some s'"
  obtains pc where "i < length (sp_custs s)" "sp_custs s' = (sp_custs s)[i := pc]"
    "sp_main s' = sp_main s" "sp_barber s' = sp_barber s" "sp_custs s ! i \<noteq> C_new" "pc \<noteq> C_new"
    "sp_custs s ! i = C_arrive \<and> pc = C_lock \<and> barsem s' = barsem s \<and> cussem s' = cussem s \<and> seasem s' = seasem s \<and> freeseats s' = freeseats s \<or>
     sp_custs s ! i = C_lock \<and> pc = C_check \<and> barsem s' = barsem s \<and> cussem s' = cussem s \<and> seasem s = seasem s' + 1 \<and> freeseats s' = freeseats s \<or>
     sp_custs s ! i = C_check \<and> (pc = C_full \<or> pc = C_dec \<and> freeseats s > 0) \<and> barsem s' = barsem s \<and> cussem s' = cussem s \<and> seasem s' = seasem s \<and> freeseats s' = freeseats s \<or>
     sp_custs s ! i = C_dec \<and> pc = C_post \<and> barsem s' = barsem s \<and> cussem s' = cussem s \<and> seasem s' = seasem s \<and> freeseats s' = freeseats s - 1 \<or>
     sp_custs s ! i = C_post \<and> pc = C_unlock \<and> barsem s' = barsem s \<and> cussem s' = cussem s + 1 \<and> seasem s' = seasem s \<and> freeseats s' = freeseats s \<or>
     sp_custs s ! i = C_unlock \<and> pc = C_wait \<and> barsem s' = barsem s \<and> cussem s' = cussem s \<and> seasem s' = seasem s + 1 \<and> freeseats s' = freeseats s \<or>
     sp_custs s ! i = C_wait \<and> pc = C_done True \<and> barsem s = barsem s' + 1 \<and> cussem s' = cussem s \<and> seasem s' = seasem s \<and> freeseats s' = freeseats s \<or>
     sp_custs s ! i = C_full \<and> pc = C_leave \<and> barsem s' = barsem s \<and> cussem s' = cussem s \<and> seasem s' = seasem s \<and> freeseats s' = freeseats s \<or>
     sp_custs s ! i = C_leave \<and> pc = C_done False \<and> barsem s' = barsem s \<and> cussem s' = cussem s \<and> seasem s' = seasem s + 1 \<and> freeseats s' = freeseats s"
  using assms
  by (cases "sp_custs s ! i")
    (auto simp: custhread_def sp_set_def sp_print_def sem_wait_def sem_post_def split: if_splits bind_splits)

lemma custhread_counts:
  assumes "shop_inv s" "custhread i s = Some s'"
  shows "sp_lock_ok s' \<and> sp_seats_ok s' \<and> sp_turns_ok s' \<and> shop_left s' < shop_left s"
  using assms(2)
proof (cases rule: custhread_cases)
  case (1 pc)
  note U = cnt_update [OF 1(1), of _ pc] and S = sum_update [OF 1(1), of cus_left pc]
  have L: "seasem s + of_bool (b_crit (sp_barber s)) + cnt c_crit (sp_custs s) = 1"
    and F: "unat (freeseats s) + cussem s + cnt ((=) C_post) (sp_custs s) + of_bool (sp_barber s \<in> {B_lock, B_inc}) = 2"
    and T: "cussem s + of_bool (sp_barber s \<in> {B_lock, B_inc, B_post}) + barsem s =
      cnt (\<lambda>pc. pc \<in> {C_unlock, C_wait}) (sp_custs s)"
    and D: "sp_custs s ! i = C_dec \<longrightarrow> freeseats s \<noteq> 0"
    using assms(1) 1(1) by (simp_all add: shop_inv_defs)
  define b :: nat where "b = of_bool (b_crit (sp_barber s))"
  have "sp_lock_ok s'"
    using 1(7) L U [of c_crit] unfolding sp_lock_ok_def 1(2,4) b_def [symmetric]
    by (elim disjE conjE) (simp_all add: c_crit_def)
  moreover have "sp_seats_ok s'"
    using 1(7) F D U [of "(=) C_post"] freeseats_dec [of "freeseats s"] unfolding sp_seats_ok_def 1(2,4)
    by (elim disjE conjE) simp_all
  moreover have "sp_turns_ok s'"
    using 1(7) T U [of "\<lambda>pc. pc \<in> {C_unlock, C_wait}"] unfolding sp_turns_ok_def 1(2,4) by (elim disjE conjE) simp_all
  moreover have "shop_left s' < shop_left s"
    using 1(7) S unfolding shop_left_def 1(2,3,4) by (elim disjE conjE) simp_all
  ultimately show ?thesis by blast
qed

lemma custhread_inv:
  assumes "shop_inv s" "custhread i s = Some s'"
  shows "shop_inv s' \<and> shop_left s' < shop_left s"
  using assms(2)
proof (cases rule: custhread_cases)
  case (1 pc)
  have one: "cnt c_crit (sp_custs s) \<le> 1" using assms(1) by (simp add: shop_inv_defs)
  have "freeseats s' \<noteq> 0" if j: "j < length (sp_custs s')" "sp_custs s' ! j = C_dec" for j
  proof (cases "j = i")
    case True
    then show ?thesis using 1 that by auto
  next
    case False
    then have "j < length (sp_custs s)" "sp_custs s ! j = C_dec" using j 1 by simp_all
    moreover from this have "sp_custs s ! i \<noteq> C_dec"
      using cnt_two [of i "sp_custs s" j c_crit] False 1(1) one by (auto simp: c_crit_def)
    ultimately show ?thesis using 1(7) assms(1) by (auto simp: shop_inv_def)
  qed
  moreover have "sp_main_ok s'"
    using assms(1) 1(1-6) by (auto simp: shop_inv_def sp_main_ok_def nth_list_update)
  ultimately show ?thesis using custhread_counts [OF assms] by (simp add: shop_inv_def)
qed

lemma main_step_inv:
  assumes "shop_inv s" "main_step s = Some s'"
  shows "shop_inv s' \<and> shop_left s' < shop_left s"
proof (cases "sp_main s")
  case M_barber
  have "sp_barber s = B_new" using assms(1) M_barber by (simp add: shop_inv_def sp_main_ok_def)
  with assms M_barber show ?thesis
    by (auto simp: main_step_def Let_def shop_inv_def sp_lock_ok_def sp_seats_ok_def sp_turns_ok_def
        sp_main_ok_def b_crit_def shop_left_def split: if_splits)
next
  case (M_customer i)
  have M: "sp_main_ok s" using assms(1) by (simp add: shop_inv_def)
  show ?thesis
  proof (cases "i < NUM_CUSTOMERS \<and> \<not> refused s")
    case True
    then have i: "i < length (sp_custs s)" "sp_custs s ! i = C_new" using M M_customer by (simp_all add: sp_main_ok_def)
    have s': "s' = s\<lparr>sp_refuse := tl (sp_refuse s), sp_main := M_customer (i + 1), sp_custs := (sp_custs s)[i := C_arrive]\<rparr>"
      using assms(2) M_customer True by (simp add: main_step_def Let_def)
    note U = cnt_update [OF i(1), where y = C_arrive, unfolded i(2)] and S = sum_update [OF i(1), of cus_left C_arrive]
    have left: "NUM_CUSTOMERS - i = Suc (NUM_CUSTOMERS - Suc i)" using True by (simp add: Suc_diff_Suc)
    have "sp_main_ok s'" using M M_customer True unfolding s' by (auto simp: sp_main_ok_def nth_list_update)
    moreover have "shop_left s' < shop_left s" using S M_customer i(2) left unfolding s' by (simp add: shop_left_def)
    moreover have "freeseats s \<noteq> 0" if "j < length (sp_custs s)" "(sp_custs s)[i := C_arrive] ! j = C_dec" for j
      using assms(1) that by (cases "j = i") (simp_all add: shop_inv_def)
    ultimately show ?thesis
      using assms(1) U [of c_crit] U [of "(=) C_post"] U [of "\<lambda>pc. pc \<in> {C_unlock, C_wait}"] unfolding s'
      by (simp add: shop_inv_def sp_lock_ok_def sp_seats_ok_def sp_turns_ok_def c_crit_def)
  next
    case False
    then have "s' = s\<lparr>sp_refuse := sp_refuse s', sp_main := sp_main s'\<rparr> \<and>
      (sp_main s' = M_exit \<or> sp_main s' = M_join \<and> \<not> i < NUM_CUSTOMERS)"
      using assms(2) M_customer by (auto simp: main_step_def Let_def split: if_splits)
    then obtain r pc where s': "s' = s\<lparr>sp_refuse := r, sp_main := pc\<rparr>"
      "pc = M_exit \<or> pc = M_join \<and> \<not> i < NUM_CUSTOMERS" by blast
    have "sp_main_ok s'" using M M_customer s' by (auto simp: sp_main_ok_def)
    moreover have "shop_left s' < shop_left s" using M_customer s' by (auto simp: shop_left_def)
    ultimately show ?thesis using assms(1) unfolding s'(1) shop_inv_def sp_lock_ok_def sp_seats_ok_def sp_turns_ok_def
      by simp
  qed
qed (use assms in \<open>simp_all add: main_step_def Let_def\<close>)

lemma shop_step_cases:
  assumes "shop_step t s = Some s'"
  obtains "main_step s = Some s'" | "barthread s = Some s'" | i where "custhread i s = Some s'"
proof (cases t)
  case 0
  with assms that(1) show thesis by (simp add: shop_step_def split: if_splits)
next
  case (Suc n)
  with assms that(2,3) show thesis by (cases n) (simp_all add: shop_step_def split: if_splits)
qed

lemma shop_step_ok:
  assumes "shop_inv s" "shop_step t s = Some s'"
  shows "shop_inv s' \<and> shop_left s' < shop_left s"
  using assms(2)
proof (cases rule: shop_step_cases)
  case 1
  with assms(1) show ?thesis by (rule main_step_inv)
next
  case 2
  with assms(1) show ?thesis by (rule barthread_inv)
next
  case (3 i)
  with assms(1) show ?thesis by (rule custhread_inv)
qed

interpretation shop: program shop_step shop_inv shop_left
  by unfold_locales (simp_all add: shop_step_ok)

lemma shop_init_inv: "shop_inv (shop_init refuse)"
  by (simp add: shop_inv_def sp_lock_ok_def sp_seats_ok_def sp_turns_ok_def sp_main_ok_def shop_init_def
      b_crit_def c_crit_def MAX_FREESEATS_def)

lemma shop_init_left: "shop_left (shop_init refuse) = 163"
  by (simp add: shop_left_def shop_init_def NUM_CUSTOMERS_def sum_list_replicate)

section \<open>Where it stops\<close>

lemma critical_moves:
  assumes "sp_main s \<noteq> M_exit"
  shows "b_crit (sp_barber s) \<Longrightarrow> shop_step 1 s \<noteq> None"
    "i < length (sp_custs s) \<Longrightarrow> c_crit (sp_custs s ! i) \<Longrightarrow> shop_step (Suc (Suc i)) s \<noteq> None"
  using assms by (auto simp: shop_step_def barthread_def custhread_def b_crit_def c_crit_def)

lemma shop_stopped:
  assumes inv: "shop_inv s" and st: "stopped shop_step s"
  shows "sp_main s = M_exit \<or> sp_main s = M_join \<and> sp_barber s = B_wait \<and>
    (\<forall>pc\<in>set (sp_custs s). \<exists>b. pc = C_done b) \<and> cussem s = 0 \<and> barsem s = 0 \<and> seasem s = 1 \<and> freeseats s = 2"
proof (cases "sp_main s = M_exit")
  case False
  have none: "main_step s = None" "barthread s = None" "custhread i s = None" for i
    using st [unfolded stopped_def, rule_format, of 0] st [unfolded stopped_def, rule_format, of "Suc 0"]
      st [unfolded stopped_def, rule_format, of "Suc (Suc i)"] False
    by (simp_all add: shop_step_def)
  have M: "sp_main s = M_join" using none(1) False by (auto simp: main_step_def Let_def split: main_pc.splits)
  have nb: "\<not> b_crit (sp_barber s)" using critical_moves(1) [OF False] st by (auto simp: stopped_def)
  have nc: "\<not> c_crit (sp_custs s ! i)" if "i < length (sp_custs s)" for i
    using critical_moves(2) [OF False that] st by (auto simp: stopped_def)
  then have "cnt c_crit (sp_custs s) = 0" unfolding cnt_0 by (metis in_set_conv_nth)
  then have sea: "seasem s = 1" using inv nb by (simp add: shop_inv_def sp_lock_ok_def)
  have "sp_barber s \<noteq> B_new" using inv M by (simp add: shop_inv_def sp_main_ok_def)
  then have b: "sp_barber s = B_wait" "cussem s = 0" using none(2) nb sea
    by (auto simp: barthread_def b_crit_def sem_wait_def split: bar_pc.splits bind_splits if_splits)
  have new: "sp_custs s ! i \<noteq> C_new" if "i < length (sp_custs s)" for i
    using inv M that by (simp add: shop_inv_def sp_main_ok_def)
  have fin: "(sp_custs s ! i = C_wait \<and> barsem s = 0) \<or> (\<exists>b. sp_custs s ! i = C_done b)"
    if "i < length (sp_custs s)" for i
    using none(3) [of i] that new [OF that] nc [OF that] sea
    by (cases "sp_custs s ! i") (auto simp: custhread_def c_crit_def sem_wait_def split: if_splits)
  have ended: "\<forall>pc\<in>set (sp_custs s). pc = C_wait \<and> barsem s = 0 \<or> (\<exists>b. pc = C_done b)"
    unfolding all_set_conv_all_nth using fin by blast
  then have post: "cnt ((=) C_post) (sp_custs s) = 0" unfolding cnt_0 by auto
  have T: "barsem s = cnt (\<lambda>pc. pc \<in> {C_unlock, C_wait}) (sp_custs s)" using inv b by (simp add: shop_inv_def sp_turns_ok_def)
  have bar: "barsem s = 0"
  proof (rule ccontr)
    assume "barsem s \<noteq> 0"
    with ended have "cnt (\<lambda>pc. pc \<in> {C_unlock, C_wait}) (sp_custs s) = 0" unfolding cnt_0 by auto
    with T \<open>barsem s \<noteq> 0\<close> show False by simp
  qed
  with T have "cnt (\<lambda>pc. pc \<in> {C_unlock, C_wait}) (sp_custs s) = 0" by simp
  then have "\<forall>pc\<in>set (sp_custs s). \<exists>b. pc = C_done b" using ended unfolding cnt_0 by blast
  moreover have "unat (freeseats s) = 2" using inv b post by (simp add: shop_inv_def sp_seats_ok_def)
  then have "freeseats s = 2" by (simp add: word_unat_eq_iff)
  ultimately show ?thesis using M b sea bar by blast
qed simp

section \<open>Theorems\<close>

text \<open>C16: However the barber, the customers and \<open>main\<close> are interleaved: \<open>seasem\<close> guards \<open>freeseats\<close>
  (at most one thread is between its wait and its post), \<open>freeseats\<close> never exceeds the two seats
  nor wraps around below zero, and at most two customers have taken a seat the barber has not
  freed again.\<close>

theorem barber_shop_safe:
  assumes "run shop_step ts (shop_init refuse) = Some s"
  shows "of_bool (b_crit (sp_barber s)) + cnt c_crit (sp_custs s) \<le> 1 \<and> freeseats s \<le> MAX_FREESEATS \<and>
    unat (freeseats s) + cussem s \<le> 2 \<and> (\<forall>i<NUM_CUSTOMERS. sp_custs s ! i = C_dec \<longrightarrow> freeseats s > 0)"
proof -
  have inv: "shop_inv s" using shop.run_ok [OF shop_init_inv assms] by simp
  then have "unat (freeseats s) + cussem s \<le> 2" by (simp add: shop_inv_def sp_seats_ok_def)
  then have "freeseats s \<le> MAX_FREESEATS" by (simp add: MAX_FREESEATS_def word_le_nat_alt)
  then show ?thesis using inv \<open>unat (freeseats s) + cussem s \<le> 2\<close>
    by (simp add: shop_inv_def sp_lock_ok_def sp_main_ok_def word_gt_0)
qed

lemma barber_shop_safe_witness:
  "\<exists>s. run shop_step [0, 0, 2, 2, 2, 2] (shop_init []) = Some s \<and> freeseats s \<le> MAX_FREESEATS \<and> freeseats s = 1"
proof -
  have "\<exists>s. run shop_step [0, 0, 2, 2, 2, 2] (shop_init []) = Some s \<and> freeseats s = 1"
    by (simp add: shop_step_def main_step_def shop_init_def refused_def NUM_CUSTOMERS_def custhread_def sp_set_def
        sp_print_def sem_wait_def MAX_FREESEATS_def numeral_2_eq_2)
  then show ?thesis using barber_shop_safe by blast
qed

text \<open>C17: The program never deadlocks while a customer is in the shop, and it never ends: every run has
  at most 163 actions, can be continued until nothing moves, and then (unless a thread could not
  be created and the process has exited) every customer has left, served or turned away, all
  seats are free, the barber waits for a customer for ever and \<open>main\<close> waits for the barber.\<close>

theorem barber_shop_ends:
  assumes "run shop_step ts (shop_init refuse) = Some s"
  shows "length ts \<le> 163 \<and> (\<exists>us s'. run shop_step (ts @ us) (shop_init refuse) = Some s' \<and> stopped shop_step s') \<and>
    (stopped shop_step s \<longrightarrow> sp_main s = M_exit \<or>
       sp_main s = M_join \<and> sp_barber s = B_wait \<and> cussem s = 0 \<and> freeseats s = MAX_FREESEATS \<and>
       (\<forall>pc\<in>set (sp_custs s). \<exists>served. pc = C_done served))"
proof -
  note ok = shop.run_ok [OF shop_init_inv assms]
  then have inv: "shop_inv s" and len: "length ts \<le> 163" by (simp_all add: shop_init_left)
  from shop.run_stops [OF inv] obtain us s' where "run shop_step us s = Some s'" "stopped shop_step s'" by blast
  then have "run shop_step (ts @ us) (shop_init refuse) = Some s'" "stopped shop_step s'"
    using assms by (simp_all add: run_append)
  then show ?thesis using len shop_stopped [OF inv] unfolding MAX_FREESEATS_def by blast
qed

lemma barber_shop_ends_witness:
  "\<exists>s. run shop_step [0, 1] (shop_init [False, True]) = Some s \<and>
     (\<exists>us s'. run shop_step ([0, 1] @ us) (shop_init [False, True]) = Some s' \<and> stopped shop_step s')"
proof -
  have "\<exists>s. run shop_step [0, 1] (shop_init [False, True]) = Some s"
    by (simp add: shop_step_def main_step_def shop_init_def refused_def barthread_def)
  then show ?thesis using barber_shop_ends by blast
qed

end
