(* ===== verification/Counter.thy ===== *)
theory Counter imports Threads begin

text \<open>
  Five threads that each add one to \<open>myglobal\<close> five times: \<open>pthreads/pthread_mutex.c\<close> and
  \<open>pthreads/pthread_semaphore.c\<close>, which differ only in the lock around the critical region.
  Thread 0 is \<open>main\<close>, thread \<open>i + 1\<close> the one whose id is \<open>tid[i]\<close>. The locale \<open>lock\<close> is what the
  threads rely on; the mutex and the semaphore are its interpretations.
\<close>

section \<open>The program\<close>

definition NUM_THREADS :: nat where "NUM_THREADS = 5"

datatype thr_pc = T_new | T_loop nat | T_read nat | T_incr nat int | T_sleep nat int | T_write nat int
  | T_unlock nat | T_done

datatype cmain_pc = CM_create nat | CM_join nat | CM_print | CM_exit bool

record 'l counter =
  c_lock :: 'l
  myglobal :: int
  c_main :: cmain_pc
  c_thr :: "thr_pc list"
  c_refuse :: "bool list"
  c_out :: "int option"

definition counter_init :: "'l \<Rightarrow> bool list \<Rightarrow> 'l counter" where
  "counter_init l refuse =
     \<lparr>c_lock = l, myglobal = 0, c_main = CM_create 0, c_thr = replicate NUM_THREADS T_new,
      c_refuse = refuse, c_out = None\<rparr>"

definition c_set :: "nat \<Rightarrow> thr_pc \<Rightarrow> 'l counter \<Rightarrow> 'l counter" where
  "c_set i pc s = s\<lparr>c_thr := (c_thr s)[i := pc]\<rparr>"

definition threadfun :: "('l \<Rightarrow> 'l option) \<Rightarrow> ('l \<Rightarrow> 'l) \<Rightarrow> nat \<Rightarrow> 'l counter \<Rightarrow> 'l counter option" where
  \<comment> \<open>\<open>T_loop i\<close>: before the test \<open>i < 5\<close>; the operand \<open>j\<close> is the thread's own.\<close>
  "threadfun acquire release t s =
     (if t < length (c_thr s) then
        case c_thr s ! t of
          T_new \<Rightarrow> None
        | T_loop i \<Rightarrow> (if i < 5 then do { l \<leftarrow> acquire (c_lock s); Some (c_set t (T_read i) (s\<lparr>c_lock := l\<rparr>)) }
                      else Some (c_set t T_done s))
        | T_read i \<Rightarrow> Some (c_set t (T_incr i (myglobal s)) s)
        | T_incr i j \<Rightarrow> Some (c_set t (T_sleep i (j + 1)) s)
        | T_sleep i j \<Rightarrow> Some (c_set t (T_write i j) s)
        | T_write i j \<Rightarrow> Some (c_set t (T_unlock i) (s\<lparr>myglobal := j\<rparr>))
        | T_unlock i \<Rightarrow> Some (c_set t (T_loop (i + 1)) (s\<lparr>c_lock := release (c_lock s)\<rparr>))
        | T_done \<Rightarrow> None
      else None)"

definition counter_main :: "'l counter \<Rightarrow> 'l counter option" where
  "counter_main s =
     (case c_main s of
        CM_create i \<Rightarrow>
          Some (if i < NUM_THREADS
                then let s1 = s\<lparr>c_refuse := tl (c_refuse s)\<rparr> in
                     if c_refuse s \<noteq> [] \<and> hd (c_refuse s) then s1\<lparr>c_main := CM_exit False\<rparr>
                     else c_set i (T_loop 0) (s1\<lparr>c_main := CM_create (i + 1)\<rparr>)
                else s\<lparr>c_main := CM_join 0\<rparr>)
      | CM_join i \<Rightarrow>
          (if i < NUM_THREADS
           then if c_thr s ! i = T_done then Some (s\<lparr>c_main := CM_join (i + 1)\<rparr>) else None
           else Some (s\<lparr>c_main := CM_print\<rparr>))
      | CM_print \<Rightarrow> Some (s\<lparr>c_out := Some (myglobal s), c_main := CM_exit True\<rparr>)
      | CM_exit ok \<Rightarrow> None)"

definition counter_step :: "('l \<Rightarrow> 'l option) \<Rightarrow> ('l \<Rightarrow> 'l) \<Rightarrow> nat \<Rightarrow> 'l counter \<Rightarrow> 'l counter option" where
  \<comment> \<open>The process ends when \<open>main\<close> does.\<close>
  "counter_step acquire release t s =
     (if \<exists>ok\<in>{True, False}. c_main s = CM_exit ok then None
      else case t of 0 \<Rightarrow> counter_main s | Suc i \<Rightarrow> threadfun acquire release i s)"

text \<open>The two locks: \<open>mymutex\<close>, and the semaphore \<open>mutex\<close> whose value starts at 1.\<close>

definition mutex_lock :: "bool \<Rightarrow> bool option" where
  "mutex_lock locked = (if locked then None else Some True)"

definition mutex_unlock :: "bool \<Rightarrow> bool" where
  "mutex_unlock locked = False"

definition csem_wait :: "nat \<Rightarrow> nat option" where
  "csem_wait v = (if 0 < v then Some (v - 1) else None)"

definition csem_post :: "nat \<Rightarrow> nat" where
  "csem_post v = v + 1"

definition mutex_step :: "nat \<Rightarrow> bool counter \<Rightarrow> bool counter option" where
  "mutex_step = counter_step mutex_lock mutex_unlock"

definition mutex_init :: "bool list \<Rightarrow> bool counter" where
  "mutex_init = counter_init False"

definition sem_step :: "nat \<Rightarrow> nat counter \<Rightarrow> nat counter option" where
  "sem_step = counter_step csem_wait csem_post"

definition sem_init :: "bool list \<Rightarrow> nat counter" where
  "sem_init = counter_init 1"

section \<open>Progress of a thread\<close>

fun t_crit :: "thr_pc \<Rightarrow> bool" where
  "t_crit (T_read i) = True"
| "t_crit (T_incr i j) = True"
| "t_crit (T_sleep i j) = True"
| "t_crit (T_write i j) = True"
| "t_crit (T_unlock i) = True"
| "t_crit pc = False"

fun t_made :: "thr_pc \<Rightarrow> nat" where
  \<comment> \<open>How many times the thread has written \<open>myglobal\<close>.\<close>
  "t_made T_new = 0"
| "t_made (T_loop i) = i"
| "t_made (T_read i) = i"
| "t_made (T_incr i j) = i"
| "t_made (T_sleep i j) = i"
| "t_made (T_write i j) = i"
| "t_made (T_unlock i) = i + 1"
| "t_made T_done = 5"

fun t_left :: "thr_pc \<Rightarrow> nat" where
  "t_left T_new = 31"
| "t_left (T_loop i) = 6 * (5 - i) + 1"
| "t_left (T_read i) = 6 * (4 - i) + 6"
| "t_left (T_incr i j) = 6 * (4 - i) + 5"
| "t_left (T_sleep i j) = 6 * (4 - i) + 4"
| "t_left (T_write i j) = 6 * (4 - i) + 3"
| "t_left (T_unlock i) = 6 * (4 - i) + 2"
| "t_left T_done = 0"

fun t_ok :: "int \<Rightarrow> thr_pc \<Rightarrow> bool" where
  \<comment> \<open>The copies that a thread holds agree with \<open>myglobal\<close>.\<close>
  "t_ok g T_new = True"
| "t_ok g (T_loop i) = (i \<le> 5)"
| "t_ok g (T_read i) = (i < 5)"
| "t_ok g (T_incr i j) = (i < 5 \<and> j = g)"
| "t_ok g (T_sleep i j) = (i < 5 \<and> j = g + 1)"
| "t_ok g (T_write i j) = (i < 5 \<and> j = g + 1)"
| "t_ok g (T_unlock i) = (i < 5)"
| "t_ok g T_done = True"

fun cm_ok :: "cmain_pc \<Rightarrow> thr_pc list \<Rightarrow> int option \<Rightarrow> bool" where
  "cm_ok (CM_create n) pcs out = (n \<le> NUM_THREADS \<and> out = None \<and> (\<forall>i<NUM_THREADS. pcs ! i = T_new \<longleftrightarrow> n \<le> i))"
| "cm_ok (CM_join n) pcs out = (n \<le> NUM_THREADS \<and> out = None \<and> (\<forall>i<NUM_THREADS. pcs ! i \<noteq> T_new \<and> (i < n \<longrightarrow> pcs ! i = T_done)))"
| "cm_ok CM_print pcs out = (out = None \<and> (\<forall>i<NUM_THREADS. pcs ! i = T_done))"
| "cm_ok (CM_exit ok) pcs out = (if ok then out = Some 25 else out = None)"

fun cm_left :: "cmain_pc \<Rightarrow> nat" where
  "cm_left (CM_create n) = 2 * NUM_THREADS + 3 - n"
| "cm_left (CM_join n) = NUM_THREADS + 2 - n"
| "cm_left CM_print = 1"
| "cm_left (CM_exit ok) = 0"

definition counter_left :: "'l counter \<Rightarrow> nat" where
  "counter_left s = cm_left (c_main s) + sum_list (map t_left (c_thr s))"

definition counter_inv :: "('l \<Rightarrow> bool) \<Rightarrow> ('l \<Rightarrow> bool) \<Rightarrow> 'l counter \<Rightarrow> bool" where
  "counter_inv lok held s \<longleftrightarrow>
     length (c_thr s) = NUM_THREADS \<and> lok (c_lock s) \<and>
     cnt t_crit (c_thr s) = of_bool (held (c_lock s)) \<and>
     myglobal s = int (sum_list (map t_made (c_thr s))) \<and>
     (\<forall>i<NUM_THREADS. t_ok (myglobal s) (c_thr s ! i)) \<and>
     cm_ok (c_main s) (c_thr s) (c_out s)"

section \<open>Any lock\<close>

locale lock =
  fixes acquire :: "'l \<Rightarrow> 'l option" and release :: "'l \<Rightarrow> 'l" and lok held :: "'l \<Rightarrow> bool" and l0 :: 'l
  assumes acquire_held: "lok l \<Longrightarrow> acquire l = Some l' \<Longrightarrow> \<not> held l \<and> held l' \<and> lok l'"
    and acquire_free: "lok l \<Longrightarrow> \<not> held l \<Longrightarrow> acquire l \<noteq> None"
    and release_free: "lok l \<Longrightarrow> held l \<Longrightarrow> \<not> held (release l) \<and> lok (release l)"
    and free0: "lok l0 \<and> \<not> held l0"
begin

lemma crit_one:
  assumes "counter_inv lok held s" "i < NUM_THREADS" "j < NUM_THREADS" "t_crit (c_thr s ! i)" "t_crit (c_thr s ! j)"
  shows "i = j"
proof (rule ccontr)
  assume "i \<noteq> j"
  with assms have "2 \<le> cnt t_crit (c_thr s)" by (intro cnt_two [of i _ j]) (simp_all add: counter_inv_def)
  then show False using assms(1) by (cases "held (c_lock s)") (auto simp: counter_inv_def)
qed

lemma threadfun_cases:
  assumes "counter_inv lok held s" "threadfun acquire release t s = Some s'"
  obtains pc l g where "t < NUM_THREADS" "s' = s\<lparr>c_thr := (c_thr s)[t := pc], c_lock := l, myglobal := g\<rparr>"
    "t_ok g pc" "t_left pc < t_left (c_thr s ! t)" "c_thr s ! t \<notin> {T_new, T_done}" "pc \<noteq> T_new"
    "g = myglobal s \<and> t_made pc = t_made (c_thr s ! t) \<or>
       t_crit (c_thr s ! t) \<and> g = myglobal s + 1 \<and> t_made pc = t_made (c_thr s ! t) + 1"
    "lok l" "held (c_lock s) = held l \<and> t_crit pc = t_crit (c_thr s ! t) \<or>
       \<not> held (c_lock s) \<and> held l \<and> t_crit pc \<and> \<not> t_crit (c_thr s ! t) \<or>
       held (c_lock s) \<and> \<not> held l \<and> \<not> t_crit pc \<and> t_crit (c_thr s ! t)"
proof -
  have t: "t < NUM_THREADS" "t_ok (myglobal s) (c_thr s ! t)" "length (c_thr s) = NUM_THREADS"
    using assms by (auto simp: counter_inv_def threadfun_def split: if_splits)
  have lk: "lok (c_lock s)" using assms(1) by (simp add: counter_inv_def)
  have h: "t_crit (c_thr s ! t) \<Longrightarrow> held (c_lock s)"
    using assms(1) t(1) cnt_pos [of t "c_thr s" t_crit] by (simp add: counter_inv_def split: if_splits)
  have th: "Some s' = threadfun acquire release t s" using assms(2) by simp
  show thesis
  proof (cases "c_thr s ! t")
    case (T_loop i)
    show thesis
    proof (cases "i < 5")
      case True
      then obtain l where "acquire (c_lock s) = Some l" "s' = c_set t (T_read i) (s\<lparr>c_lock := l\<rparr>)"
        using assms(2) T_loop t by (auto simp: threadfun_def split: bind_splits)
      with acquire_held [OF lk] T_loop t True show thesis
        by (intro that [where pc = "T_read i" and l = l and g = "myglobal s"]) (simp_all add: c_set_def)
    next
      case False
      then have "s' = c_set t T_done s" using assms(2) T_loop t by (simp add: threadfun_def)
      with False show thesis using T_loop t lk
        by (intro that [where pc = T_done and l = "c_lock s" and g = "myglobal s"]) (simp_all add: c_set_def)
    qed
  next
    case (T_read i)
    then show thesis using th t lk
      by (intro that [where pc = "T_incr i (myglobal s)" and l = "c_lock s" and g = "myglobal s"]) (simp_all add: c_set_def threadfun_def)
  next
    case (T_incr i j)
    then show thesis using th t lk
      by (intro that [where pc = "T_sleep i (j + 1)" and l = "c_lock s" and g = "myglobal s"]) (simp_all add: c_set_def threadfun_def)
  next
    case (T_sleep i j)
    then show thesis using th t lk
      by (intro that [where pc = "T_write i j" and l = "c_lock s" and g = "myglobal s"]) (simp_all add: c_set_def threadfun_def)
  next
    case (T_write i j)
    then show thesis using th t lk
      by (intro that [where pc = "T_unlock i" and l = "c_lock s" and g = j]) (simp_all add: c_set_def threadfun_def)
  next
    case (T_unlock i)
    then show thesis using th t lk h release_free [OF lk]
      by (intro that [where pc = "T_loop (i + 1)" and l = "release (c_lock s)" and g = "myglobal s"]) (simp_all add: c_set_def threadfun_def)
  qed (use assms(2) t in \<open>simp_all add: threadfun_def\<close>)
qed

lemma t_ok_any: "\<not> t_crit pc \<Longrightarrow> t_ok g pc \<Longrightarrow> t_ok g' pc"
  by (cases pc) simp_all

lemma threadfun_ok:
  assumes inv: "counter_inv lok held s" and st: "threadfun acquire release t s = Some s'" and run: "\<And>ok. c_main s \<noteq> CM_exit ok"
  shows "counter_inv lok held s' \<and> counter_left s' < counter_left s"
  using inv st
proof (cases rule: threadfun_cases)
  case (1 pc l g)
  have len: "t < length (c_thr s)" using 1(1) inv by (simp add: counter_inv_def)
  note C = cnt_update [OF len, of t_crit pc] and M = sum_update [OF len, of t_made pc]
    and L = sum_update [OF len, of t_left pc]
  have "cnt t_crit (c_thr s') = of_bool (held (c_lock s'))"
    using inv C 1(9) unfolding 1(2) counter_inv_def by (elim disjE conjE) simp_all
  moreover have "myglobal s' = int (sum_list (map t_made (c_thr s')))"
    using inv M 1(7) unfolding 1(2) counter_inv_def by (elim disjE conjE) simp_all
  moreover have "t_ok (myglobal s') (c_thr s' ! i)" if "i < NUM_THREADS" for i
  proof (cases "i = t")
    case True
    then show ?thesis using 1 len by simp
  next
    case False
    moreover have "t_ok (myglobal s) (c_thr s ! i)" using inv that unfolding counter_inv_def by blast
    moreover have "g = myglobal s \<or> \<not> t_crit (c_thr s ! i)" using 1(7) crit_one [OF inv 1(1) that] False by blast
    ultimately show ?thesis using 1(2) t_ok_any by auto
  qed
  moreover have "cm_ok (c_main s') (c_thr s') (c_out s')"
    using inv run 1(1,5,6) len unfolding 1(2) counter_inv_def
    by (cases "c_main s") (auto simp: nth_list_update)
  moreover have "counter_left s' < counter_left s" using L 1(4) unfolding 1(2) counter_left_def by simp
  ultimately show ?thesis using inv 1(8) unfolding counter_inv_def 1(2) by simp
qed

lemma made_25:
  assumes "counter_inv lok held s" "\<forall>i<NUM_THREADS. c_thr s ! i = T_done"
  shows "myglobal s = 25"
proof -
  have "c_thr s = replicate NUM_THREADS T_done" using assms by (intro nth_equalityI) (simp_all add: counter_inv_def)
  then show ?thesis using assms(1) by (simp add: counter_inv_def NUM_THREADS_def sum_list_replicate)
qed

lemma counter_main_ok:
  assumes inv: "counter_inv lok held s" and st: "counter_main s = Some s'"
  shows "counter_inv lok held s' \<and> counter_left s' < counter_left s"
proof (cases "c_main s")
  case (CM_create i)
  show ?thesis
  proof (cases "i < NUM_THREADS \<and> \<not> (c_refuse s \<noteq> [] \<and> hd (c_refuse s))")
    case True
    then have i: "i < length (c_thr s)" "c_thr s ! i = T_new" "length (c_thr s) = NUM_THREADS"
      using inv CM_create by (simp_all add: counter_inv_def)
    have s': "s' = s\<lparr>c_refuse := tl (c_refuse s), c_main := CM_create (i + 1), c_thr := (c_thr s)[i := T_loop 0]\<rparr>"
      using st CM_create True by (auto simp: counter_main_def Let_def c_set_def split: if_splits)
    note C = cnt_update [OF i(1), of t_crit "T_loop 0", unfolded i(2)] and M = sum_update [OF i(1), of t_made "T_loop 0", unfolded i(2)]
      and L = sum_update [OF i(1), of t_left "T_loop 0", unfolded i(2)]
    have left: "2 * NUM_THREADS + 3 - i = Suc (2 * NUM_THREADS + 3 - Suc i)" using True by linarith
    have "counter_left s' < counter_left s" using L CM_create left unfolding s' counter_left_def by simp
    moreover have "cm_ok (c_main s') (c_thr s') (c_out s')" "\<forall>j<NUM_THREADS. t_ok (myglobal s') (c_thr s' ! j)"
      using inv CM_create i True unfolding s' by (auto simp: counter_inv_def nth_list_update)
    ultimately show ?thesis using inv C M unfolding counter_inv_def s' by simp
  next
    case False
    then have "s' = s\<lparr>c_refuse := c_refuse s', c_main := c_main s'\<rparr> \<and>
      (c_main s' = CM_exit False \<or> c_main s' = CM_join 0 \<and> \<not> i < NUM_THREADS)"
      using st CM_create by (auto simp: counter_main_def Let_def split: if_splits)
    then obtain r pc where s': "s' = s\<lparr>c_refuse := r, c_main := pc\<rparr>" "pc = CM_exit False \<or> pc = CM_join 0 \<and> \<not> i < NUM_THREADS"
      by blast
    have "cm_ok (c_main s') (c_thr s') (c_out s')" using s' inv CM_create by (auto simp: counter_inv_def)
    moreover have "counter_left s' < counter_left s" using s' inv CM_create by (auto simp: counter_inv_def counter_left_def)
    ultimately show ?thesis using inv unfolding s'(1) counter_inv_def by (elim conjE) simp
  qed
next
  case (CM_join i)
  then show ?thesis using inv st
    by (auto simp: counter_main_def counter_inv_def counter_left_def less_Suc_eq split: if_splits)
next
  case CM_print
  then have "myglobal s = 25" using inv made_25 [OF inv] by (simp add: counter_inv_def)
  then show ?thesis using inv st CM_print
    by (auto simp: counter_main_def counter_inv_def counter_left_def)
qed (use st in \<open>simp add: counter_main_def\<close>)

lemma counter_step_ok:
  assumes inv: "counter_inv lok held s" and st: "counter_step acquire release t s = Some s'"
  shows "counter_inv lok held s' \<and> counter_left s' < counter_left s"
proof -
  have run: "c_main s \<noteq> CM_exit ok" for ok using st by (cases ok) (auto simp: counter_step_def)
  show ?thesis
  proof (cases t)
    case 0
    then show ?thesis using counter_main_ok [OF inv] st by (auto simp: counter_step_def split: if_splits)
  next
    case (Suc i)
    then show ?thesis using threadfun_ok [OF inv _ run] st by (auto simp: counter_step_def split: if_splits)
  qed
qed

lemma counter_init_inv: "counter_inv lok held (counter_init l0 refuse)"
  using free0 by (simp add: counter_inv_def counter_init_def sum_list_replicate)

lemma counter_stopped:
  assumes inv: "counter_inv lok held s" and st: "stopped (counter_step acquire release) s"
  shows "\<exists>ok. c_main s = CM_exit ok"
proof (rule ccontr)
  assume no: "\<not> ?thesis"
  then have none: "counter_main s = None" "threadfun acquire release i s = None" for i
    using st [unfolded stopped_def, rule_format, of 0] st [unfolded stopped_def, rule_format, of "Suc i"]
    by (auto simp: counter_step_def split: if_splits)
  have len: "length (c_thr s) = NUM_THREADS" using inv by (simp add: counter_inv_def)
  obtain n where n: "c_main s = CM_join n" "n < NUM_THREADS" "c_thr s ! n \<noteq> T_done"
    using none(1) no by (auto simp: counter_main_def Let_def split: cmain_pc.splits if_splits)
  then have new: "c_thr s ! n \<noteq> T_new" using inv by (auto simp: counter_inv_def)
  have nc: "\<not> t_crit (c_thr s ! i)" if "i < NUM_THREADS" for i
    using none(2) [of i] that len by (cases "c_thr s ! i") (auto simp: threadfun_def)
  then have "\<forall>pc\<in>set (c_thr s). \<not> t_crit pc" unfolding all_set_conv_all_nth len by blast
  then have "cnt t_crit (c_thr s) = 0" unfolding cnt_0 .
  then have "\<not> held (c_lock s)" using inv by (simp add: counter_inv_def split: if_splits)
  from acquire_free [OF _ this] inv none(2) [of n] n new nc [of n] len show False
    by (cases "c_thr s ! n") (auto simp: threadfun_def counter_inv_def split: if_splits bind_splits)
qed

end

sublocale lock \<subseteq> program "counter_step acquire release" "counter_inv lok held" counter_left
  by unfold_locales (simp_all add: counter_step_ok)

lemma no_refusal_step:
  assumes "counter_step acquire release t s = Some s'" "True \<notin> set (c_refuse s)" "c_main s \<noteq> CM_exit False"
  shows "True \<notin> set (c_refuse s') \<and> c_main s' \<noteq> CM_exit False"
proof (cases t)
  case 0
  have "True \<notin> set (tl (c_refuse s))" "c_refuse s \<noteq> [] \<Longrightarrow> \<not> hd (c_refuse s)"
    using assms(2) by (cases "c_refuse s"; auto)+
  with assms 0 show ?thesis
    by (auto simp: counter_step_def counter_main_def Let_def c_set_def split: if_splits cmain_pc.splits)
next
  case (Suc i)
  with assms show ?thesis
    by (auto simp: counter_step_def threadfun_def c_set_def split: if_splits thr_pc.splits bind_splits)
qed

lemma no_refusal:
  "run (counter_step acquire release) ts s = Some s' \<Longrightarrow> True \<notin> set (c_refuse s) \<Longrightarrow>
    c_main s \<noteq> CM_exit False \<Longrightarrow> c_main s' \<noteq> CM_exit False"
proof (induction ts arbitrary: s)
  case (Cons t ts)
  then obtain s1 where s1: "counter_step acquire release t s = Some s1" "run (counter_step acquire release) ts s1 = Some s'"
    by (auto split: bind_splits)
  from Cons.IH [OF s1(2)] no_refusal_step [OF s1(1) Cons.prems(2,3)] show ?case by blast
qed simp

context lock begin

lemma counter_ok:
  assumes "run (counter_step acquire release) ts (counter_init l0 refuse) = Some s"
  shows "length ts \<le> 168 \<and> cnt t_crit (c_thr s) \<le> 1 \<and>
    (\<exists>us s'. run (counter_step acquire release) (ts @ us) (counter_init l0 refuse) = Some s' \<and>
       stopped (counter_step acquire release) s') \<and>
    (stopped (counter_step acquire release) s \<longrightarrow>
       c_main s = CM_exit True \<and> c_out s = Some 25 \<or> c_main s = CM_exit False \<and> True \<in> set refuse)"
proof -
  note ok = run_ok [OF counter_init_inv assms]
  then have inv: "counter_inv lok held s" by simp
  have "length ts \<le> 168" using ok by (simp add: counter_left_def counter_init_def NUM_THREADS_def sum_list_replicate)
  moreover have "cnt t_crit (c_thr s) \<le> 1" using inv by (cases "held (c_lock s)") (simp_all add: counter_inv_def)
  moreover from run_stops [OF inv] obtain us s' where
    "run (counter_step acquire release) us s = Some s'" "stopped (counter_step acquire release) s'" by blast
  then have "run (counter_step acquire release) (ts @ us) (counter_init l0 refuse) = Some s'"
    "stopped (counter_step acquire release) s'" using assms by (simp_all add: run_append)
  moreover have "c_out s = Some 25" if "c_main s = CM_exit True" using inv that by (simp add: counter_inv_def)
  moreover have "True \<in> set refuse" if "c_main s = CM_exit False"
    using no_refusal [OF assms] that by (auto simp: counter_init_def)
  ultimately show ?thesis using counter_stopped [OF inv] by (metis (full_types))
qed

end

section \<open>The two programs\<close>

interpretation mutex: lock mutex_lock mutex_unlock "\<lambda>locked. True" "\<lambda>locked. locked" False
  by unfold_locales (auto simp: mutex_lock_def mutex_unlock_def split: if_splits)

interpretation csem: lock csem_wait csem_post "\<lambda>v. v \<le> 1" "\<lambda>v. v = 0" 1
  by unfold_locales (auto simp: csem_wait_def csem_post_def split: if_splits)

text \<open>C18: The program with the mutex, under every interleaving: at most one thread is in the critical
  region; no deadlock: every run has at most 168 actions and can be continued until the process
  ends; and a process that ends normally has printed \<open>myglobal = 25\<close>. It ends otherwise only when
  a thread could not be created.\<close>

theorem mutex_program_correct:
  assumes "run mutex_step ts (mutex_init refuse) = Some s"
  shows "length ts \<le> 168 \<and> cnt t_crit (c_thr s) \<le> 1 \<and>
    (\<exists>us s'. run mutex_step (ts @ us) (mutex_init refuse) = Some s' \<and> stopped mutex_step s') \<and>
    (stopped mutex_step s \<longrightarrow>
       c_main s = CM_exit True \<and> c_out s = Some 25 \<or> c_main s = CM_exit False \<and> True \<in> set refuse)"
  using mutex.counter_ok assms unfolding mutex_step_def mutex_init_def by blast

lemma mutex_program_correct_witness:
  "\<exists>s. run mutex_step [0, 1, 1] (mutex_init []) = Some s \<and> cnt t_crit (c_thr s) = 1 \<and>
     (\<exists>us s'. run mutex_step ([0, 1, 1] @ us) (mutex_init []) = Some s' \<and> stopped mutex_step s')"
proof -
  have "\<exists>s. run mutex_step [0, 1, 1] (mutex_init []) = Some s \<and> cnt t_crit (c_thr s) = 1"
    by (simp add: mutex_step_def mutex_init_def counter_init_def counter_step_def counter_main_def threadfun_def
        c_set_def NUM_THREADS_def mutex_lock_def eval_nat_numeral)
  then show ?thesis using mutex_program_correct by blast
qed

text \<open>The same of the program with the semaphore, whose value never exceeds 1.\<close>

theorem semaphore_program_correct:
  assumes "run sem_step ts (sem_init refuse) = Some s"
  shows "length ts \<le> 168 \<and> cnt t_crit (c_thr s) + c_lock s = 1 \<and>
    (\<exists>us s'. run sem_step (ts @ us) (sem_init refuse) = Some s' \<and> stopped sem_step s') \<and>
    (stopped sem_step s \<longrightarrow>
       c_main s = CM_exit True \<and> c_out s = Some 25 \<or> c_main s = CM_exit False \<and> True \<in> set refuse)"
proof -
  have r: "run (counter_step csem_wait csem_post) ts (counter_init 1 refuse) = Some s"
    using assms unfolding sem_step_def sem_init_def .
  have "counter_inv (\<lambda>v. v \<le> 1) (\<lambda>v. v = 0) s" using csem.run_ok [OF csem.counter_init_inv r] by blast
  then have "cnt t_crit (c_thr s) + c_lock s = 1"
    by (cases "c_lock s = 0") (simp_all add: counter_inv_def)
  then show ?thesis using csem.counter_ok [OF r] unfolding sem_step_def sem_init_def by blast
qed

lemma semaphore_program_correct_witness:
  "\<exists>s. run sem_step [0, 1] (sem_init [False, True]) = Some s \<and> c_lock s = 0 \<and> cnt t_crit (c_thr s) = 1"
proof -
  have "\<exists>s. run sem_step [0, 1] (sem_init [False, True]) = Some s \<and> c_lock s = 0"
    by (simp add: sem_step_def sem_init_def counter_init_def counter_step_def counter_main_def threadfun_def
        c_set_def NUM_THREADS_def csem_wait_def)
  then show ?thesis using semaphore_program_correct by (metis add_0_right)
qed

end
