(* ===== verification/Matrix.thy ===== *)
theory Matrix imports Prelude Threads begin

text \<open>
  The threaded matrix multiplication of \<open>pthreads/matrixmul/matrixmul.c\<close>: allocating, releasing,
  reading and printing matrices, and the program that starts one thread per element of the
  result. \<open>w\<close> is the size of \<open>size_t\<close> and of a pointer in bytes (4 or 8, little-endian). The
  elements are \<open>int\<close> values; a result outside their range is undefined.
\<close>

section \<open>Matrices\<close>

record matrix =
  m_addr :: addr
  m_rows :: nat
  m_cols :: nat
  m_dataaddr :: addr
  m_rowaddrs :: "addr list"
  m_data :: "int list list"

datatype mmret_t = MM_OK | MM_ENOMEM | MM_EIO

definition sizeof_matrix :: "nat \<Rightarrow> nat" where "sizeof_matrix w = 3 * w"
definition sizeof_int :: nat where "sizeof_int = 4"

definition int_ok :: "int \<Rightarrow> bool" where
  "int_ok x \<longleftrightarrow> - (2 ^ 31) \<le> x \<and> x < 2 ^ 31"

fun alloc_rows :: "nat \<Rightarrow> nat \<Rightarrow> nat \<Rightarrow> addr list \<Rightarrow> cheap \<Rightarrow> (addr list \<times> bool) \<times> cheap" where
  \<comment> \<open>The loop of \<open>matrix_alloc\<close>: the rows obtained, and whether all were.\<close>
  "alloc_rows w cols 0 as h = ((as, True), h)"
| "alloc_rows w cols (Suc n) as h =
     (case malloc (cols * sizeof_int mod size_mod w) h of
        (None, h1) \<Rightarrow> ((as, False), h1)
      | (Some a, h1) \<Rightarrow> alloc_rows w cols n (as @ [a]) h1)"

definition matrix_alloc ::
  "nat \<Rightarrow> (nat \<Rightarrow> nat \<Rightarrow> int) \<Rightarrow> nat \<Rightarrow> nat \<Rightarrow> cheap \<Rightarrow> ((mmret_t \<times> matrix option) \<times> cheap) option" where
  \<comment> \<open>\<open>g\<close> is what the elements' memory holds. A product that wraps around makes the accesses to the
      rows or to their elements undefined. The switch at the end releases by depth: the rows
      before the failing one, the array of rows, the matrix.\<close>
  "matrix_alloc w g rows cols h =
     (case malloc (sizeof_matrix w) h of
        (None, h1) \<Rightarrow> Some ((MM_ENOMEM, None), h1)
      | (Some mat, h1) \<Rightarrow>
          (case malloc (rows * w mod size_mod w) h1 of
             (None, h2) \<Rightarrow> Some ((MM_ENOMEM, None), cfree (Some mat) h2)
           | (Some data, h2) \<Rightarrow>
               if rows * w < size_mod w \<and> cols * sizeof_int < size_mod w then
                 case alloc_rows w cols rows [] h2 of
                   ((as, True), h3) \<Rightarrow>
                     Some ((MM_OK, Some \<lparr>m_addr = mat, m_rows = rows, m_cols = cols, m_dataaddr = data,
                       m_rowaddrs = as, m_data = map (\<lambda>i. map (g i) [0..<cols]) [0..<rows]\<rparr>), h3)
                 | ((as, False), h3) \<Rightarrow>
                     let mdepth = (if as \<noteq> [] then 3 else 2 :: nat);
                         h4 = (if mdepth = 3 then fold (\<lambda>a. cfree (Some a)) as h3 else h3) in
                     Some ((MM_ENOMEM, None), cfree (Some mat) (cfree (Some data) h4))
               else None))"

definition matrix_free :: "matrix \<Rightarrow> cheap \<Rightarrow> cheap" where
  "matrix_free m h =
     cfree (Some (m_addr m)) (cfree (Some (m_dataaddr m)) (fold (\<lambda>a. cfree (Some a)) (m_rowaddrs m) h))"

text \<open>
  A file is the list of the numbers \<open>fscanf\<close> finds in it, \<open>None\<close> when it cannot be opened. \<open>%u\<close>
  stores 32 bits: the rest of a \<open>size_t\<close> of 64 bits keeps its old contents \<open>g\<close>, as does
  everything \<open>fscanf\<close> finds no number for.
\<close>

definition scan_u :: "nat \<Rightarrow> nat \<Rightarrow> int list \<Rightarrow> nat \<times> int list" where
  "scan_u w g toks =
     (case toks of [] \<Rightarrow> (g, []) | v # rest \<Rightarrow> (g div 2 ^ 32 * 2 ^ 32 + nat (v mod 2 ^ 32), rest))"

fun scan_row :: "int list \<Rightarrow> int list \<Rightarrow> (int list \<times> int list) option" where
  \<comment> \<open>The elements of a row, given what they hold; a number \<open>%d\<close> cannot represent is undefined.\<close>
  "scan_row [] toks = Some ([], toks)"
| "scan_row (x # xs) [] = Some (x # xs, [])"
| "scan_row (x # xs) (v # toks) =
     (if int_ok v then do { (ys, rest) \<leftarrow> scan_row xs toks; Some (v # ys, rest) } else None)"

fun scan_rows :: "int list list \<Rightarrow> int list \<Rightarrow> int list list option" where
  "scan_rows [] toks = Some []"
| "scan_rows (r # rs) toks = do { (r', rest) \<leftarrow> scan_row r toks; rs' \<leftarrow> scan_rows rs rest; Some (r' # rs') }"

definition matrix_read ::
  "nat \<Rightarrow> (nat \<Rightarrow> nat \<Rightarrow> int) \<Rightarrow> nat \<Rightarrow> nat \<Rightarrow> int list option \<Rightarrow> cheap \<Rightarrow> ((mmret_t \<times> matrix option) \<times> cheap) option" where
  "matrix_read w g gr gc path h =
     (case path of
        None \<Rightarrow> Some ((MM_EIO, None), h)
      | Some toks \<Rightarrow>
          let (rows, toks1) = scan_u w gr toks; (cols, toks2) = scan_u w gc toks1 in
          do { ((ret, m), h1) \<leftarrow> matrix_alloc w g rows cols h;
               case m of
                 None \<Rightarrow> Some ((MM_ENOMEM, None), h1)
               | Some mat \<Rightarrow> do { d \<leftarrow> scan_rows (m_data mat) toks2;
                                 Some ((MM_OK, Some (mat\<lparr>m_data := d\<rparr>)), h1) } })"

section \<open>The threads\<close>

datatype wrk_pc = W_row | W_col nat | W_zero nat nat | W_load nat nat nat | W_store nat nat nat int | W_done

datatype mmain_pc = MP_create nat nat | MP_join nat | MP_print | MP_freed | MP_exit bool

record mmul =
  mm_v :: "(nat \<times> nat) list"
  mm_tid :: "nat option list"
  mm_mat3 :: "int list list"
  mm_main :: mmain_pc
  mm_thr :: "(nat \<times> wrk_pc) list"
  mm_refuse :: "bool list"
  mm_out :: "int list list option"
  mm_bad :: bool

definition mm_init :: "(nat \<times> nat) list \<Rightarrow> int list list \<Rightarrow> bool list \<Rightarrow> mmul" where
  \<comment> \<open>\<open>v\<close> and \<open>mat3\<close> hold what the memory held; \<open>tid\<close> holds no thread.\<close>
  "mm_init v mat3 refuse =
     \<lparr>mm_v = v, mm_tid = replicate (length v) None, mm_mat3 = mat3, mm_main = MP_create 0 0, mm_thr = [],
      mm_refuse = refuse, mm_out = None, mm_bad = False\<rparr>"

definition bad :: "mmul \<Rightarrow> mmul" where
  \<comment> \<open>Undefined behaviour has occurred.\<close>
  "bad s = s\<lparr>mm_bad := True\<rparr>"

definition create_one :: "nat \<Rightarrow> nat \<Rightarrow> nat \<Rightarrow> mmul \<Rightarrow> mmul" where
  \<comment> \<open>\<open>v[k].row = i; v[k].col = j; pthread_create(&tid[k], NULL, mulvect, &v[k])\<close>\<close>
  "create_one i j k s =
     (if k < length (mm_v s) then
        let s1 = s\<lparr>mm_v := (mm_v s)[k := (i, j)], mm_refuse := tl (mm_refuse s)\<rparr> in
        if mm_refuse s \<noteq> [] \<and> hd (mm_refuse s) then s1\<lparr>mm_main := MP_freed\<rparr>
        else s1\<lparr>mm_tid := (mm_tid s)[k := Some (length (mm_thr s))], mm_thr := mm_thr s @ [(k, W_row)],
                mm_main := MP_create i (j + 1)\<rparr>
      else bad s)"

definition mm_main_step :: "matrix \<Rightarrow> matrix \<Rightarrow> mmul \<Rightarrow> mmul option" where
  "mm_main_step mat1 mat2 s =
     (case mm_main s of
        MP_create i j \<Rightarrow>
          Some (if i < m_rows mat1
                then if j < m_cols mat2 then create_one i j (i * m_rows mat1 + j) s
                     else s\<lparr>mm_main := MP_create (i + 1) 0\<rparr>
                else s\<lparr>mm_main := MP_join 0\<rparr>)
      | MP_join i \<Rightarrow>
          (if i < m_rows mat1 * m_cols mat2 then
             case mm_tid s ! i of
               None \<Rightarrow> Some (bad s)
             | Some t \<Rightarrow> if snd (mm_thr s ! t) = W_done then Some (s\<lparr>mm_main := MP_join (i + 1)\<rparr>) else None
           else Some (s\<lparr>mm_main := MP_print\<rparr>))
      | MP_print \<Rightarrow> Some (s\<lparr>mm_out := Some (mm_mat3 s), mm_main := MP_exit True\<rparr>)
      | MP_freed \<Rightarrow> Some (s\<lparr>mm_main := MP_exit False\<rparr>)
      | MP_exit ok \<Rightarrow> None)"

definition int_at :: "nat \<Rightarrow> nat \<times> nat \<Rightarrow> nat \<Rightarrow> nat" where
  \<comment> \<open>\<open>*((int *)arg + n)\<close> of a \<open>matindex_t\<close>, as the \<open>size_t\<close> it is assigned to.\<close>
  "int_at w v n =
     (let bits = (if w = 4 then if n = 0 then fst v else snd v else fst v div 2 ^ (32 * n)) mod 2 ^ 32
      in if bits < 2 ^ 31 then bits else bits + size_mod w - 2 ^ 32)"

definition cell_ok :: "int list list \<Rightarrow> nat \<Rightarrow> nat \<Rightarrow> bool" where
  "cell_ok d r c \<longleftrightarrow> r < length d \<and> c < length (d ! r)"

definition cell_set :: "nat \<Rightarrow> nat \<Rightarrow> int \<Rightarrow> int list list \<Rightarrow> int list list" where
  "cell_set r c x d = d[r := (d ! r)[c := x]]"

definition mm_set :: "nat \<Rightarrow> wrk_pc \<Rightarrow> mmul \<Rightarrow> mmul" where
  "mm_set t pc s = s\<lparr>mm_thr := (mm_thr s)[t := (fst (mm_thr s ! t), pc)]\<rparr>"

definition mulvect :: "nat \<Rightarrow> matrix \<Rightarrow> matrix \<Rightarrow> nat \<Rightarrow> mmul \<Rightarrow> mmul option" where
  "mulvect w mat1 mat2 t s =
     (if t < length (mm_thr s) then
        case mm_thr s ! t of
          (k, W_row) \<Rightarrow> Some (mm_set t (W_col (int_at w (mm_v s ! k) 0)) s)
        | (k, W_col r) \<Rightarrow> Some (mm_set t (W_zero r (int_at w (mm_v s ! k) 1)) s)
        | (k, W_zero r c) \<Rightarrow>
            Some (if cell_ok (mm_mat3 s) r c
                  then mm_set t (W_load r c 0) (s\<lparr>mm_mat3 := cell_set r c 0 (mm_mat3 s)\<rparr>)
                  else bad s)
        | (k, W_load r c i) \<Rightarrow>
            Some (if i < m_cols mat1
                  then let a = m_data mat1 ! r ! i; b = m_data mat2 ! i ! c; x = mm_mat3 s ! r ! c + a * b in
                       if cell_ok (m_data mat1) r i \<and> cell_ok (m_data mat2) i c \<and> int_ok (a * b) \<and> int_ok x
                       then mm_set t (W_store r c i x) s else bad s
                  else mm_set t W_done s)
        | (k, W_store r c i x) \<Rightarrow>
            Some (mm_set t (W_load r c (i + 1)) (s\<lparr>mm_mat3 := cell_set r c x (mm_mat3 s)\<rparr>))
        | (k, W_done) \<Rightarrow> None
      else None)"

definition mm_step :: "nat \<Rightarrow> matrix \<Rightarrow> matrix \<Rightarrow> nat \<Rightarrow> mmul \<Rightarrow> mmul option" where
  \<comment> \<open>Nothing follows undefined behaviour or the end of the process; a thread that still runs when
      \<open>main\<close> has released the matrices accesses freed memory.\<close>
  "mm_step w mat1 mat2 t s =
     (if mm_bad s \<or> mm_main s = MP_exit True \<or> mm_main s = MP_exit False then None
      else case t of
        0 \<Rightarrow> mm_main_step mat1 mat2 s
      | Suc i \<Rightarrow> do { s' \<leftarrow> mulvect w mat1 mat2 i s; Some (if mm_main s = MP_freed then bad s else s') })"

section \<open>Before and after the threads\<close>

definition mm_cleanup :: "nat \<Rightarrow> addr \<Rightarrow> addr \<Rightarrow> matrix option \<Rightarrow> matrix option \<Rightarrow> matrix option \<Rightarrow> cheap \<Rightarrow> cheap" where
  \<comment> \<open>The switch at \<open>CLEANUP_AND_EXIT\<close>: each case falls through to the next.\<close>
  "mm_cleanup mdepth tid v mat3 mat2 mat1 h =
     (let free_mat = (\<lambda>m h. case m of None \<Rightarrow> h | Some a \<Rightarrow> matrix_free a h);
          h5 = (if mdepth \<ge> 5 then cfree (Some tid) h else h);
          h4 = (if mdepth \<ge> 4 then cfree (Some v) h5 else h5);
          h3 = (if mdepth \<ge> 3 then free_mat mat3 h4 else h4);
          h2 = (if mdepth \<ge> 2 then free_mat mat2 h3 else h3)
      in (if mdepth \<ge> 1 then free_mat mat1 h2 else h2))"

record mm_work =
  wk_mat1 :: matrix
  wk_mat2 :: matrix
  wk_mat3 :: matrix
  wk_v :: addr
  wk_tid :: addr

definition mm_setup ::
  "nat \<Rightarrow> (nat \<Rightarrow> nat \<Rightarrow> int) \<Rightarrow> nat \<times> nat \<Rightarrow> nat \<times> nat \<Rightarrow> int list option \<Rightarrow> int list option \<Rightarrow> cheap \<Rightarrow>
   (mm_work option \<times> cheap) option" where
  \<comment> \<open>\<open>main\<close> up to the creation of the threads; \<open>None\<close> inside: it has cleaned up and left.\<close>
  "mm_setup w g g1 g2 file1 file2 h =
     do { ((_, r1), h1) \<leftarrow> matrix_read w g (fst g1) (snd g1) file1 h;
          case r1 of
            None \<Rightarrow> Some (None, mm_cleanup 0 0 0 None None None h1)
          | Some m1 \<Rightarrow> do {
          ((_, r2), h2) \<leftarrow> matrix_read w g (fst g2) (snd g2) file2 h1;
          case r2 of
            None \<Rightarrow> Some (None, mm_cleanup 1 0 0 None None (Some m1) h2)
          | Some m2 \<Rightarrow>
          if m_cols m1 \<noteq> m_rows m2 then Some (None, mm_cleanup 2 0 0 None (Some m2) (Some m1) h2)
          else do {
          ((_, r3), h3) \<leftarrow> matrix_alloc w g (m_rows m1) (m_cols m2) h2;
          case r3 of
            None \<Rightarrow> Some (None, mm_cleanup 2 0 0 None (Some m2) (Some m1) h3)
          | Some m3 \<Rightarrow>
          let numthreads = m_rows m1 * m_cols m2 in
          case malloc (numthreads * (2 * w) mod size_mod w) h3 of
            (None, h4) \<Rightarrow> Some (None, mm_cleanup 3 0 0 (Some m3) (Some m2) (Some m1) h4)
          | (Some v, h4) \<Rightarrow>
          (case malloc (numthreads * w mod size_mod w) h4 of
            (None, h5) \<Rightarrow> Some (None, mm_cleanup 4 0 v (Some m3) (Some m2) (Some m1) h5)
          | (Some tid, h5) \<Rightarrow>
              if numthreads * (2 * w) < size_mod w
              then Some (Some \<lparr>wk_mat1 = m1, wk_mat2 = m2, wk_mat3 = m3, wk_v = v, wk_tid = tid\<rparr>, h5)
              else None) } } }"

definition mm_finish :: "mm_work \<Rightarrow> cheap \<Rightarrow> cheap" where
  "mm_finish k = mm_cleanup 5 (wk_tid k) (wk_v k) (Some (wk_mat3 k)) (Some (wk_mat2 k)) (Some (wk_mat1 k))"

definition matrix_print :: "matrix \<Rightarrow> int list list" where
  \<comment> \<open>The numbers printed, line by line.\<close>
  "matrix_print m = map (\<lambda>r. take (m_cols m) r) (take (m_rows m) (m_data m))"

end
