(* ===== verification/Matrix_Inv.thy ===== *)
theory Matrix_Inv imports Matrix begin

text \<open>
  What \<open>matrix_alloc\<close> and \<open>matrix_free\<close> do to the heap, the invariant of the threads on an ILP32
  system for a square result, and which elements they reach on an LP64 system.
\<close>

section \<open>Allocation\<close>

definition m_blocks :: "matrix \<Rightarrow> addr list" where
  "m_blocks m = rev (m_rowaddrs m) @ [m_dataaddr m, m_addr m]"

lemma alloc_rows_ok:
  assumes "heap_wf h" "alloc_rows w cols n as h = ((bs, ok), h')"
  shows "heap_wf h' \<and> hp_bad h' = hp_bad h \<and>
    (\<exists>cs. bs = as @ cs \<and> hp_live h' = rev cs @ hp_live h \<and> (ok \<longrightarrow> length cs = n))"
  using assms
proof (induction n arbitrary: as h)
  case (Suc n)
  show ?case
  proof (cases "malloc (cols * sizeof_int mod size_mod w) h")
    case (Pair r h1)
    show ?thesis
    proof (cases r)
      case None
      then show ?thesis using Suc.prems Pair malloc_NoneD malloc_wf by fastforce
    next
      case (Some a)
      have wf: "heap_wf h1" using malloc_wf [OF Suc.prems(1) Pair] .
      have "alloc_rows w cols n (as @ [a]) h1 = ((bs, ok), h')" using Suc.prems(2) Pair Some by simp
      from Suc.IH [OF wf this] obtain cs where
        "heap_wf h'" "hp_bad h' = hp_bad h1" "bs = (as @ [a]) @ cs" "hp_live h' = rev cs @ hp_live h1" "ok \<longrightarrow> length cs = n"
        by blast
      then show ?thesis using malloc_SomeD [OF Pair [unfolded Some]] by (intro conjI exI [of _ "a # cs"]) simp_all
    qed
  qed
qed simp

lemma cfrees_prefix:
  assumes "distinct (rev as @ ls)" "hp_live h = rev as @ ls"
  shows "fold (\<lambda>a. cfree (Some a)) as h = h\<lparr>hp_live := ls\<rparr>"
  using assms
proof (induction as arbitrary: h)
  case (Cons a as)
  have "cfree (Some a) h = h\<lparr>hp_live := rev as @ ls\<rparr>"
    using Cons.prems by (simp add: cfree_live remove1_append)
  then show ?case using Cons.IH [of "h\<lparr>hp_live := rev as @ ls\<rparr>"] Cons.prems(1) by auto
qed simp

lemma matrix_alloc_cases:
  assumes wf: "heap_wf h" and "rows * w < size_mod w" "cols * sizeof_int < size_mod w"
  obtains (nomem) h' where "matrix_alloc w g rows cols h = Some ((MM_ENOMEM, None), h')"
      "hp_live h' = hp_live h" "hp_bad h' = hp_bad h" "heap_wf h'"
    | (matrix) m h' where "matrix_alloc w g rows cols h = Some ((MM_OK, Some m), h')"
      "m_rows m = rows" "m_cols m = cols" "length (m_data m) = rows" "\<forall>r<rows. length (m_data m ! r) = cols"
      "length (m_rowaddrs m) = rows" "hp_live h' = m_blocks m @ hp_live h" "heap_wf h'" "hp_bad h' = hp_bad h"
proof -
  obtain r1 h1 where 1: "malloc (sizeof_matrix w) h = (r1, h1)" by force
  obtain r2 h2 where 2: "malloc (rows * w mod size_mod w) h1 = (r2, h2)" by force
  obtain as ok h3 where 3: "alloc_rows w cols rows [] h2 = ((as, ok), h3)" by (metis prod.exhaust)
  have wf1: "heap_wf h1" by (rule malloc_wf [OF wf 1])
  have wf2: "heap_wf h2" by (rule malloc_wf [OF wf1 2])
  from alloc_rows_ok [OF wf2 3] have A: "heap_wf h3" "hp_bad h3 = hp_bad h2" "hp_live h3 = rev as @ hp_live h2"
    "ok \<longrightarrow> length as = rows" by auto
  show thesis
  proof (cases r1)
    case None
    then show thesis using 1 malloc_NoneD nomem wf1 by (simp add: matrix_alloc_def)
  next
    case (Some mat)
    note S1 = malloc_SomeD [OF 1 [unfolded Some]]
    show thesis
    proof (cases r2)
      case None
      note S2 = malloc_NoneD [OF 2 [unfolded None]]
      have "matrix_alloc w g rows cols h = Some ((MM_ENOMEM, None), cfree (Some mat) h2)"
        using 1 2 Some None by (simp add: matrix_alloc_def)
      moreover have "hp_live (cfree (Some mat) h2) = hp_live h" "hp_bad (cfree (Some mat) h2) = hp_bad h"
        using S1 S2 by (simp_all add: cfree_def)
      ultimately show thesis using cfree_wf [OF wf2] by (rule nomem)
    next
      case (Some data)
      note S2 = malloc_SomeD [OF 2 [unfolded Some]]
      have live: "hp_live h3 = rev as @ [data, mat] @ hp_live h" "hp_bad h3 = hp_bad h" using A S1 S2 by simp_all
      have d: "distinct (rev as @ [data, mat] @ hp_live h)" using A(1) live by (simp add: heap_wf_def)
      show thesis
      proof (cases ok)
        case True
        then show thesis using 1 2 3 \<open>r1 = Some mat\<close> Some A live assms(2,3)
          by (intro matrix [of "\<lparr>m_addr = mat, m_rows = rows, m_cols = cols, m_dataaddr = data,
                m_rowaddrs = as, m_data = map (\<lambda>i. map (g i) [0..<cols]) [0..<rows]\<rparr>" h3])
            (simp_all add: matrix_alloc_def m_blocks_def)
      next
        case False
        let ?h4 = "h3\<lparr>hp_live := [data, mat] @ hp_live h\<rparr>"
        have f: "(if as \<noteq> [] then fold (\<lambda>a. cfree (Some a)) as h3 else h3) = ?h4"
          using cfrees_prefix [OF d live(1)] live(1) by (cases as) simp_all
        have "matrix_alloc w g rows cols h = Some ((MM_ENOMEM, None), cfree (Some mat) (cfree (Some data) ?h4))"
          using 1 2 3 \<open>r1 = Some mat\<close> Some False assms(2,3) f by (simp add: matrix_alloc_def Let_def split: if_splits)
        moreover have "heap_wf ?h4" using A(1) live d by (auto simp: heap_wf_def)
        then have "heap_wf (cfree (Some mat) (cfree (Some data) ?h4))" by (intro cfree_wf)
        moreover have "hp_live (cfree (Some mat) (cfree (Some data) ?h4)) = hp_live h"
          "hp_bad (cfree (Some mat) (cfree (Some data) ?h4)) = hp_bad h" using live d by (auto simp: cfree_def)
        ultimately show thesis using nomem by blast
      qed
    qed
  qed
qed

lemma matrix_free_ok:
  assumes "heap_wf h" "hp_live h = m_blocks m @ ls"
  shows "matrix_free m h = h\<lparr>hp_live := ls\<rparr>"
proof -
  have "distinct (rev (m_rowaddrs m) @ [m_dataaddr m, m_addr m] @ ls)"
    using assms by (simp add: heap_wf_def m_blocks_def)
  then show ?thesis using cfrees_prefix [of "m_rowaddrs m" "[m_dataaddr m, m_addr m] @ ls" h] assms(2)
    by (simp add: matrix_free_def m_blocks_def cfree_def)
qed

lemma scan_row_length: "scan_row xs toks = Some (ys, rest) \<Longrightarrow> length ys = length xs"
  by (induction xs toks arbitrary: ys rest rule: scan_row.induct) (auto split: if_splits bind_splits)

lemma scan_rows_shape: "scan_rows rs toks = Some d \<Longrightarrow> map length d = map length rs"
proof (induction rs arbitrary: toks d)
  case (Cons r rs)
  then obtain r' rest rs' where "scan_row r toks = Some (r', rest)" "scan_rows rs rest = Some rs'" "d = r' # rs'"
    by (auto split: bind_splits)
  then show ?case using scan_row_length [of r toks r' rest] Cons.IH by simp
qed simp

definition matrix_wf :: "matrix \<Rightarrow> bool" where
  "matrix_wf m \<longleftrightarrow> length (m_data m) = m_rows m \<and> (\<forall>r<m_rows m. length (m_data m ! r) = m_cols m) \<and>
     length (m_rowaddrs m) = m_rows m"

lemma matrix_alloc_result:
  assumes wf: "heap_wf h" and r: "matrix_alloc w g rows cols h = Some ((ret, r), h')"
  shows "heap_wf h' \<and> hp_bad h' = hp_bad h \<and>
    (case r of None \<Rightarrow> hp_live h' = hp_live h
     | Some m \<Rightarrow> matrix_wf m \<and> m_rows m = rows \<and> m_cols m = cols \<and> hp_live h' = m_blocks m @ hp_live h)"
proof (cases "rows * w < size_mod w \<and> cols * sizeof_int < size_mod w")
  case True
  then have s: "rows * w < size_mod w" "cols * sizeof_int < size_mod w" by simp_all
  from wf s show ?thesis
    by (cases rule: matrix_alloc_cases [where g = g]) (use r in \<open>simp_all add: matrix_wf_def\<close>)
next
  case False
  obtain r1 h1 where 1: "malloc (sizeof_matrix w) h = (r1, h1)" by force
  obtain r2 h2 where 2: "malloc (rows * w mod size_mod w) h1 = (r2, h2)" by force
  have wf1: "heap_wf h1" by (rule malloc_wf [OF wf 1])
  have wf2: "heap_wf h2" by (rule malloc_wf [OF wf1 2])
  show ?thesis
  proof (cases r1)
    case None
    then show ?thesis using r 1 malloc_NoneD wf1 by (auto simp: matrix_alloc_def)
  next
    case (Some mat)
    then have rs: "r2 = None" "r = None" "h' = cfree (Some mat) h2"
      using r 1 2 False by (auto simp: matrix_alloc_def split: option.splits)
    have "hp_live (cfree (Some mat) h2) = hp_live h" "hp_bad (cfree (Some mat) h2) = hp_bad h"
      using malloc_SomeD [OF 1 [unfolded Some]] malloc_NoneD [of _ h1 h2] 2 rs(1) by (auto simp: cfree_def)
    then show ?thesis using rs cfree_wf [OF wf2, of "Some mat"] by simp
  qed
qed

lemma matrix_read_result:
  assumes wf: "heap_wf h" and r: "matrix_read w g gr gc path h = Some ((ret, r), h')"
  shows "heap_wf h' \<and> hp_bad h' = hp_bad h \<and>
    (case r of None \<Rightarrow> hp_live h' = hp_live h | Some m \<Rightarrow> matrix_wf m \<and> hp_live h' = m_blocks m @ hp_live h)"
proof (cases path)
  case (Some toks)
  obtain rows t1 where 1: "scan_u w gr toks = (rows, t1)" by force
  obtain cols t2 where 2: "scan_u w gc t1 = (cols, t2)" by force
  obtain ret0 m h0 where a: "matrix_alloc w g rows cols h = Some ((ret0, m), h0)"
    using r Some 1 2 by (auto simp: matrix_read_def split: bind_splits)
  note A = matrix_alloc_result [OF wf a]
  show ?thesis
  proof (cases m)
    case None
    then show ?thesis using r Some 1 2 a A by (simp add: matrix_read_def)
  next
    case (Some mat)
    then obtain d where d: "scan_rows (m_data mat) t2 = Some d" "r = Some (mat\<lparr>m_data := d\<rparr>)" "h' = h0"
      using r \<open>path = Some toks\<close> 1 2 a by (auto simp: matrix_read_def split: bind_splits)
    have "map length d = map length (m_data mat)" by (rule scan_rows_shape [OF d(1)])
    then have "length d = length (m_data mat)" "\<forall>i<length d. length (d ! i) = length (m_data mat ! i)"
      by (metis length_map, metis length_map nth_map)
    then show ?thesis using A Some d by (simp add: matrix_wf_def m_blocks_def)
  qed
qed (use r wf in \<open>simp add: matrix_read_def\<close>)

section \<open>The program before and after the threads\<close>

lemma mm_cleanup_1: "mm_cleanup (Suc 0) tid v m3 m2 (Some m1) h = matrix_free m1 h"
  by (simp add: mm_cleanup_def Let_def)

lemma mm_cleanup_2: "mm_cleanup 2 tid v m3 (Some m2) (Some m1) h = matrix_free m1 (matrix_free m2 h)"
  by (simp add: mm_cleanup_def Let_def)

lemma mm_cleanup_3: "mm_cleanup 3 tid v (Some m3) (Some m2) (Some m1) h = matrix_free m1 (matrix_free m2 (matrix_free m3 h))"
  by (simp add: mm_cleanup_def Let_def)

lemma mm_cleanup_4:
  "mm_cleanup 4 tid v (Some m3) (Some m2) (Some m1) h = matrix_free m1 (matrix_free m2 (matrix_free m3 (cfree (Some v) h)))"
  by (simp add: mm_cleanup_def Let_def)

lemma mm_cleanup_5:
  "mm_cleanup 5 tid v (Some m3) (Some m2) (Some m1) h =
    matrix_free m1 (matrix_free m2 (matrix_free m3 (cfree (Some v) (cfree (Some tid) h))))"
  by (simp add: mm_cleanup_def Let_def)

lemmas mm_cleanups = mm_cleanup_1 mm_cleanup_2 mm_cleanup_3 mm_cleanup_4 mm_cleanup_5

lemma heap_wf_live: "heap_wf h \<Longrightarrow> hp_live h = as @ ls \<Longrightarrow> heap_wf (h\<lparr>hp_live := ls\<rparr>)"
  by (auto simp: heap_wf_def)

lemma free_step:
  assumes "heap_wf h" "hp_live h = m_blocks m @ ls"
  shows "heap_wf (matrix_free m h) \<and> hp_live (matrix_free m h) = ls \<and> hp_bad (matrix_free m h) = hp_bad h"
  using matrix_free_ok [OF assms] heap_wf_live [OF assms] by simp

lemma cfree_step:
  assumes "heap_wf h" "hp_live h = a # ls"
  shows "heap_wf (cfree (Some a) h) \<and> hp_live (cfree (Some a) h) = ls \<and> hp_bad (cfree (Some a) h) = hp_bad h"
  by (intro conjI cfree_wf assms(1)) (simp_all add: assms(2) cfree_def)

lemma malloc_result:
  assumes "heap_wf h" "malloc n h = (r, h')"
  shows "heap_wf h' \<and> hp_bad h' = hp_bad h \<and>
    hp_live h' = (case r of None \<Rightarrow> hp_live h | Some a \<Rightarrow> a # hp_live h)"
  using malloc_wf [OF assms] assms(2) by (cases r) (auto dest: malloc_NoneD malloc_SomeD)

lemma mm_setup_ok:
  assumes wf: "heap_wf h" and r: "mm_setup w g g1 g2 file1 file2 h = Some (r, h')"
  shows "hp_bad h' = hp_bad h \<and>
    (case r of
       None \<Rightarrow> hp_live h' = hp_live h
     | Some k \<Rightarrow> matrix_wf (wk_mat1 k) \<and> matrix_wf (wk_mat2 k) \<and> matrix_wf (wk_mat3 k) \<and>
         m_cols (wk_mat1 k) = m_rows (wk_mat2 k) \<and> m_rows (wk_mat3 k) = m_rows (wk_mat1 k) \<and>
         m_cols (wk_mat3 k) = m_cols (wk_mat2 k) \<and>
         hp_live (mm_finish k h') = hp_live h \<and> hp_bad (mm_finish k h') = hp_bad h)"
proof -
  obtain x1 r1 h1 where 1: "matrix_read w g (fst g1) (snd g1) file1 h = Some ((x1, r1), h1)"
    using r by (auto simp: mm_setup_def split: bind_splits)
  note R1 = matrix_read_result [OF wf 1]
  show ?thesis
  proof (cases r1)
    case None
    then show ?thesis using r 1 R1 by (simp add: mm_setup_def mm_cleanup_def)
  next
    case (Some m1)
    note S1 = this
    obtain x2 r2 h2 where 2: "matrix_read w g (fst g2) (snd g2) file2 h1 = Some ((x2, r2), h2)"
      using r 1 Some by (auto simp: mm_setup_def split: bind_splits)
    have W1: "heap_wf h1" "hp_live h1 = m_blocks m1 @ hp_live h" "hp_bad h1 = hp_bad h" "matrix_wf m1" using R1 Some by simp_all
    note R2 = matrix_read_result [OF W1(1) 2]
    show ?thesis
    proof (cases r2)
      case None
      then have "r = None" "h' = matrix_free m1 h2" using r 1 S1 2 by (simp_all add: mm_setup_def mm_cleanups)
      then show ?thesis using free_step [of h2 m1 "hp_live h"] R2 None W1 by simp
    next
      case (Some m2)
      note S2 = this
      have W2: "heap_wf h2" "hp_live h2 = m_blocks m2 @ m_blocks m1 @ hp_live h" "hp_bad h2 = hp_bad h" "matrix_wf m2"
        using R2 Some W1 by simp_all
      have F2: "hp_live (matrix_free m1 (matrix_free m2 x)) = hp_live h \<and> hp_bad (matrix_free m1 (matrix_free m2 x)) = hp_bad x"
        if "heap_wf x" "hp_live x = m_blocks m2 @ m_blocks m1 @ hp_live h" for x
        using free_step [OF that] free_step [of "matrix_free m2 x" m1 "hp_live h"] by simp
      show ?thesis
      proof (cases "m_cols m1 = m_rows m2")
        case False
        then have "r = None" "h' = matrix_free m1 (matrix_free m2 h2)"
          using r 1 S1 2 S2 by (simp_all add: mm_setup_def mm_cleanups)
        then show ?thesis using F2 [OF W2(1,2)] W2 by simp
      next
        case True
        obtain x3 r3 h3 where 3: "matrix_alloc w g (m_rows m1) (m_cols m2) h2 = Some ((x3, r3), h3)"
          using r 1 S1 2 S2 True by (auto simp: mm_setup_def split: bind_splits)
        note R3 = matrix_alloc_result [OF W2(1) 3]
        show ?thesis
        proof (cases r3)
          case None
          then have "r = None" "h' = matrix_free m1 (matrix_free m2 h3)"
            using r 1 S1 2 S2 True 3 by (simp_all add: mm_setup_def mm_cleanups)
          then show ?thesis using F2 [of h3] R3 None W2 by simp
        next
          case (Some m3)
          have W3: "heap_wf h3" "hp_live h3 = m_blocks m3 @ hp_live h2" "hp_bad h3 = hp_bad h" "matrix_wf m3"
            "m_rows m3 = m_rows m1" "m_cols m3 = m_cols m2" using R3 Some W2 by simp_all
          have F3: "hp_live (matrix_free m1 (matrix_free m2 (matrix_free m3 x))) = hp_live h \<and>
              hp_bad (matrix_free m1 (matrix_free m2 (matrix_free m3 x))) = hp_bad x"
            if "heap_wf x" "hp_live x = hp_live h3" for x
            using free_step [of x m3 "hp_live h2"] that W3(2) F2 [of "matrix_free m3 x"] W2(2) by simp
          let ?n = "m_rows m1 * m_cols m2"
          obtain r4 h4 where 4: "malloc (?n * (2 * w) mod size_mod w) h3 = (r4, h4)" by force
          note R4 = malloc_result [OF W3(1) 4]
          show ?thesis
          proof (cases r4)
            case None
            then have "r = None" "h' = matrix_free m1 (matrix_free m2 (matrix_free m3 h4))"
              using r 1 S1 2 S2 True 3 Some 4 by (simp_all add: mm_setup_def Let_def mm_cleanups)
            then show ?thesis using F3 [of h4] R4 None W3 by simp
          next
            case (Some v)
            obtain r5 h5 where 5: "malloc (?n * w mod size_mod w) h4 = (r5, h5)" by force
            have "heap_wf h4" using R4 by simp
            note R5 = malloc_result [OF this 5]
            show ?thesis
            proof (cases r5)
              case None
              then have "r = None" "h' = matrix_free m1 (matrix_free m2 (matrix_free m3 (cfree (Some v) h5)))"
                using r 1 S1 2 S2 True 3 \<open>r3 = Some m3\<close> 4 Some 5 by (simp_all add: mm_setup_def Let_def mm_cleanups)
              then show ?thesis using cfree_step [of h5 v "hp_live h3"] F3 [of "cfree (Some v) h5"] R4 R5 None Some W3 by simp
            next
              case (Some tid)
              then have "r = Some \<lparr>wk_mat1 = m1, wk_mat2 = m2, wk_mat3 = m3, wk_v = v, wk_tid = tid\<rparr>" "h' = h5"
                using r 1 S1 2 S2 True 3 \<open>r3 = Some m3\<close> 4 \<open>r4 = Some v\<close> 5 by (simp_all add: mm_setup_def Let_def split: if_splits)
              then show ?thesis
                using cfree_step [of h5 tid "v # hp_live h3"] cfree_step [of "cfree (Some tid) h5" v "hp_live h3"]
                  F3 [of "cfree (Some v) (cfree (Some tid) h5)"] R4 R5 Some \<open>r4 = Some v\<close> W1 W2 W3 True
                by (simp add: mm_finish_def mm_cleanups)
            qed
          qed
        qed
      qed
    qed
  qed
qed

end
