(* ===== verification/Matrix_Threads.thy ===== *)
theory Matrix_Threads imports Matrix_Inv begin

text \<open>
  The threads of the matrix multiplication. On a 32-bit system and for a square result every
  interleaving computes the product; on an LP64 system \<open>mulvect\<close> reads its column from the wrong
  bytes, and only the first column of the result is ever written.
\<close>

section \<open>The product\<close>

definition dot :: "matrix \<Rightarrow> matrix \<Rightarrow> nat \<Rightarrow> nat \<Rightarrow> nat \<Rightarrow> int" where
  \<comment> \<open>The sum of the first \<open>k\<close> products for an element of the result.\<close>
  "dot A B r c k = (\<Sum>i<k. m_data A ! r ! i * m_data B ! i ! c)"

definition mat_product :: "matrix \<Rightarrow> matrix \<Rightarrow> int list list" where
  "mat_product A B = map (\<lambda>r. map (\<lambda>c. dot A B r c (m_cols A)) [0..<m_cols B]) [0..<m_rows A]"

definition no_overflow :: "matrix \<Rightarrow> matrix \<Rightarrow> bool" where
  "no_overflow A B \<longleftrightarrow> (\<forall>r<m_rows A. \<forall>c<m_cols B. \<forall>k<m_cols A.
     int_ok (m_data A ! r ! k * m_data B ! k ! c) \<and> int_ok (dot A B r c (Suc k)))"

definition square_ok :: "matrix \<Rightarrow> matrix \<Rightarrow> bool" where
  "square_ok A B \<longleftrightarrow> matrix_wf A \<and> matrix_wf B \<and> m_cols A = m_rows B \<and> m_cols B = m_rows A \<and>
     m_rows A < 2 ^ 31 \<and> no_overflow A B"

definition shape :: "nat \<Rightarrow> nat \<Rightarrow> int list list \<Rightarrow> bool" where
  "shape n k d \<longleftrightarrow> length d = n \<and> (\<forall>r<n. length (d ! r) = k)"

lemma shape_set: "shape n k d \<Longrightarrow> shape n k (cell_set r c x d)"
  by (cases "r < length d") (auto simp: shape_def cell_set_def nth_list_update list_update_beyond)

lemma cell_set_same: "cell_ok d r c \<Longrightarrow> cell_set r c x d ! r ! c = x"
  by (simp add: cell_set_def cell_ok_def)

lemma cell_set_other: "(r', c') \<noteq> (r, c) \<Longrightarrow> cell_set r c x d ! r' ! c' = d ! r' ! c'"
  by (cases "r < length d"; cases "r' = r") (auto simp: cell_set_def nth_list_update list_update_beyond)

section \<open>The invariant\<close>

fun wrk_ok :: "matrix \<Rightarrow> matrix \<Rightarrow> int list list \<Rightarrow> nat \<Rightarrow> nat \<Rightarrow> wrk_pc \<Rightarrow> bool" where
  \<comment> \<open>A worker for the element \<open>(r, c)\<close>.\<close>
  "wrk_ok A B d r c W_row = True"
| "wrk_ok A B d r c (W_col r') = (r' = r)"
| "wrk_ok A B d r c (W_zero r' c') = (r' = r \<and> c' = c)"
| "wrk_ok A B d r c (W_load r' c' i) = (r' = r \<and> c' = c \<and> i \<le> m_cols A \<and> d ! r ! c = dot A B r c i)"
| "wrk_ok A B d r c (W_store r' c' i x) =
     (r' = r \<and> c' = c \<and> i < m_cols A \<and> d ! r ! c = dot A B r c i \<and> x = dot A B r c (Suc i))"
| "wrk_ok A B d r c W_done = (d ! r ! c = dot A B r c (m_cols A))"

fun wrk_left :: "nat \<Rightarrow> wrk_pc \<Rightarrow> nat" where
  "wrk_left p W_row = 2 * p + 4"
| "wrk_left p (W_col r) = 2 * p + 3"
| "wrk_left p (W_zero r c) = 2 * p + 2"
| "wrk_left p (W_load r c i) = 2 * (p - i) + 1"
| "wrk_left p (W_store r c i x) = 2 * (p - i)"
| "wrk_left p W_done = 0"

fun mmain_ok :: "matrix \<Rightarrow> matrix \<Rightarrow> mmul \<Rightarrow> mmain_pc \<Rightarrow> bool" where
  "mmain_ok A B s (MP_create i j) =
     (i \<le> m_rows A \<and> j \<le> m_rows A \<and> (i = m_rows A \<longrightarrow> j = 0) \<and> length (mm_thr s) = i * m_rows A + j)"
| "mmain_ok A B s (MP_join k) = (k \<le> m_rows A * m_rows A \<and> length (mm_thr s) = m_rows A * m_rows A \<and>
     (\<forall>t<k. snd (mm_thr s ! t) = W_done))"
| "mmain_ok A B s MP_print = (length (mm_thr s) = m_rows A * m_rows A \<and>
     (\<forall>t<m_rows A * m_rows A. snd (mm_thr s ! t) = W_done))"
| "mmain_ok A B s MP_freed = False"
| "mmain_ok A B s (MP_exit ok) = (ok \<and> mm_out s = Some (mat_product A B))"

fun mmain_left :: "nat \<Rightarrow> nat \<Rightarrow> mmain_pc \<Rightarrow> nat" where
  "mmain_left n p (MP_create i j) = (n * n - (i * n + j)) * (2 * p + 5) + (n - i) + (n * n + 3)"
| "mmain_left n p (MP_join k) = n * n - k + 2"
| "mmain_left n p MP_print = 1"
| "mmain_left n p MP_freed = 0"
| "mmain_left n p (MP_exit ok) = 0"

definition mm_left :: "matrix \<Rightarrow> matrix \<Rightarrow> mmul \<Rightarrow> nat" where
  "mm_left A B s = mmain_left (m_rows A) (m_cols A) (mm_main s) +
     sum_list (map (\<lambda>t. wrk_left (m_cols A) (snd t)) (mm_thr s))"

definition thr_ok :: "matrix \<Rightarrow> matrix \<Rightarrow> mmul \<Rightarrow> nat \<Rightarrow> bool" where
  "thr_ok A B s t \<longleftrightarrow> fst (mm_thr s ! t) = t \<and> mm_v s ! t = (t div m_rows A, t mod m_rows A) \<and> mm_tid s ! t = Some t \<and>
     wrk_ok A B (mm_mat3 s) (t div m_rows A) (t mod m_rows A) (snd (mm_thr s ! t))"

definition mm_inv :: "matrix \<Rightarrow> matrix \<Rightarrow> mmul \<Rightarrow> bool" where
  "mm_inv A B s \<longleftrightarrow> square_ok A B \<and> \<not> mm_bad s \<and> mm_refuse s = [] \<and>
     length (mm_v s) = m_rows A * m_rows A \<and> length (mm_tid s) = m_rows A * m_rows A \<and>
     shape (m_rows A) (m_rows A) (mm_mat3 s) \<and> length (mm_thr s) \<le> m_rows A * m_rows A \<and>
     (\<forall>t<length (mm_thr s). thr_ok A B s t) \<and> mmain_ok A B s (mm_main s)"

lemma int_at_32:
  assumes "r < 2 ^ 31" "c < 2 ^ 31"
  shows "int_at 4 (r, c) 0 = r" "int_at 4 (r, c) 1 = c"
  using assms by (simp_all add: int_at_def Let_def)

lemma div_mod_bounds: "t < n * n \<Longrightarrow> t div n < n \<and> t mod n < (n::nat)"
  by (cases "n = 0") (simp_all add: less_mult_imp_div_less)

lemma div_mod_inj: "t div n = u div n \<Longrightarrow> t mod n = u mod n \<Longrightarrow> t = (u::nat)"
  by (metis div_mult_mod_eq)

lemma wrk_ok_other: "d' ! r ! c = d ! r ! c \<Longrightarrow> wrk_ok A B d r c pc \<Longrightarrow> wrk_ok A B d' r c pc"
  by (cases pc) simp_all

lemma mulvect_cases:
  \<comment> \<open>One action of a worker, on its own element.\<close>
  assumes inv: "mm_inv A B s" and st: "mulvect 4 A B t s = Some s'"
  obtains pc d where "t < length (mm_thr s)" "s' = s\<lparr>mm_mat3 := d, mm_thr := (mm_thr s)[t := (t, pc)]\<rparr>"
    "wrk_ok A B d (t div m_rows A) (t mod m_rows A) pc" "shape (m_rows A) (m_rows A) d"
    "\<And>r' c'. (r', c') \<noteq> (t div m_rows A, t mod m_rows A) \<Longrightarrow> d ! r' ! c' = mm_mat3 s ! r' ! c'"
    "wrk_left (m_cols A) pc < wrk_left (m_cols A) (snd (mm_thr s ! t))" "snd (mm_thr s ! t) \<noteq> W_done"
proof -
  let ?n = "m_rows A" and ?r = "t div m_rows A" and ?c = "t mod m_rows A"
  have t: "t < length (mm_thr s)" using st by (simp add: mulvect_def split: if_splits)
  have ok: "thr_ok A B s t" "square_ok A B" "shape ?n ?n (mm_mat3 s)" "length (mm_thr s) \<le> ?n * ?n"
    using inv t by (simp_all add: mm_inv_def)
  have rc: "?r < ?n" "?c < ?n" using div_mod_bounds [of t ?n] t ok(4) by simp_all
  have cell: "cell_ok (mm_mat3 s) ?r ?c" using ok(3) rc by (simp add: cell_ok_def shape_def)
  have "?n < 2 ^ 31" using ok(2) by (simp add: square_ok_def)
  then have n31: "?r < 2 ^ 31" "?c < 2 ^ 31" using rc by linarith+
  have th: "Some s' = mulvect 4 A B t s" using st by simp
  obtain pc0 where pc0: "mm_thr s ! t = (t, pc0)" using ok(1) by (metis thr_ok_def prod.collapse)
  have v: "mm_v s ! t = (?r, ?c)" and w: "wrk_ok A B (mm_mat3 s) ?r ?c pc0" using ok(1) pc0 by (simp_all add: thr_ok_def)
  have s0: "s\<lparr>mm_mat3 := mm_mat3 s, mm_thr := x\<rparr> = s\<lparr>mm_thr := x\<rparr>" for x by simp
  show thesis
  proof (cases pc0)
    case W_row
    then have "s' = mm_set t (W_col ?r) s" using th t pc0 v int_at_32 [OF n31] by (simp add: mulvect_def)
    then show thesis using t pc0 ok(3) W_row
      by (intro that [where pc = "W_col ?r" and d = "mm_mat3 s"]) (simp_all add: mm_set_def)
  next
    case (W_col r)
    then have "s' = mm_set t (W_zero ?r ?c) s" using th t pc0 v w int_at_32 [OF n31] by (simp add: mulvect_def)
    then show thesis using t pc0 ok(3) W_col
      by (intro that [where pc = "W_zero ?r ?c" and d = "mm_mat3 s"]) (simp_all add: mm_set_def)
  next
    case (W_zero r c)
    then have "s' = mm_set t (W_load ?r ?c 0) (s\<lparr>mm_mat3 := cell_set ?r ?c 0 (mm_mat3 s)\<rparr>)"
      using th t pc0 w cell by (simp add: mulvect_def)
    then show thesis using t pc0 W_zero cell_set_same [OF cell] shape_set [OF ok(3)] cell_set_other
      by (intro that [where pc = "W_load ?r ?c 0" and d = "cell_set ?r ?c 0 (mm_mat3 s)"])
        (simp_all add: mm_set_def dot_def)
  next
    case (W_load r c i)
    then have i: "r = ?r" "c = ?c" "i \<le> m_cols A" "mm_mat3 s ! ?r ! ?c = dot A B ?r ?c i" using w by simp_all
    show thesis
    proof (cases "i < m_cols A")
      case True
      let ?x = "dot A B ?r ?c (Suc i)"
      have x: "mm_mat3 s ! ?r ! ?c + m_data A ! ?r ! i * m_data B ! i ! ?c = ?x" using i by (simp add: dot_def)
      have "cell_ok (m_data A) ?r i" "cell_ok (m_data B) i ?c" "int_ok (m_data A ! ?r ! i * m_data B ! i ! ?c)" "int_ok ?x"
        using ok(2) rc True by (simp_all add: cell_ok_def square_ok_def matrix_wf_def no_overflow_def)
      then have "s' = mm_set t (W_store ?r ?c i ?x) s" using th t pc0 W_load i(1,2) True x by (simp add: mulvect_def Let_def)
      then show thesis using t pc0 ok(3) W_load i True
        by (intro that [where pc = "W_store ?r ?c i ?x" and d = "mm_mat3 s"]) (simp_all add: mm_set_def)
    next
      case False
      then have "s' = mm_set t W_done s" using th t pc0 W_load by (simp add: mulvect_def)
      then show thesis using t pc0 ok(3) W_load i False
        by (intro that [where pc = W_done and d = "mm_mat3 s"]) (simp_all add: mm_set_def)
    qed
  next
    case (W_store r c i x)
    then have i: "r = ?r" "c = ?c" "i < m_cols A" "x = dot A B ?r ?c (Suc i)" using w by simp_all
    then have "s' = mm_set t (W_load ?r ?c (Suc i)) (s\<lparr>mm_mat3 := cell_set ?r ?c x (mm_mat3 s)\<rparr>)"
      using th t pc0 W_store by (simp add: mulvect_def)
    then show thesis using t pc0 W_store i cell_set_same [OF cell] shape_set [OF ok(3)] cell_set_other
      by (intro that [where pc = "W_load ?r ?c (Suc i)" and d = "cell_set ?r ?c x (mm_mat3 s)"])
        (simp_all add: mm_set_def)
  next
    case W_done
    then show thesis using th t pc0 by (simp add: mulvect_def)
  qed
qed

lemma mulvect_ok:
  assumes inv: "mm_inv A B s" and st: "mulvect 4 A B t s = Some s'"
  shows "mm_inv A B s' \<and> mm_left A B s' < mm_left A B s"
  using inv st
proof (cases rule: mulvect_cases)
  case (1 pc d)
  have "thr_ok A B s' u" if u: "u < length (mm_thr s')" for u
  proof -
    have u': "thr_ok A B s u" "u < length (mm_thr s)" using inv u 1(2) by (simp_all add: mm_inv_def)
    show ?thesis
    proof (cases "u = t")
      case True
      then show ?thesis using u' 1 by (simp add: thr_ok_def)
    next
      case False
      then have "(u div m_rows A, u mod m_rows A) \<noteq> (t div m_rows A, t mod m_rows A)" using div_mod_inj [of u "m_rows A" t] by auto
      note d = 1(5) [OF this]
      have "wrk_ok A B (mm_mat3 s) (u div m_rows A) (u mod m_rows A) (snd (mm_thr s ! u))" using u'(1) by (simp add: thr_ok_def)
      then have "wrk_ok A B d (u div m_rows A) (u mod m_rows A) (snd (mm_thr s ! u))" by (rule wrk_ok_other [OF d])
      then show ?thesis using u' False unfolding 1(2) by (simp add: thr_ok_def)
    qed
  qed
  moreover have "mmain_ok A B s' (mm_main s)"
  proof -
    have "mmain_ok A B s (mm_main s)" using inv by (simp add: mm_inv_def)
    then show ?thesis using 1(1,7) unfolding 1(2) by (cases "mm_main s") (auto simp: nth_list_update)
  qed
  moreover have "mm_left A B s' < mm_left A B s"
    using sum_update [OF 1(1), of "\<lambda>t. wrk_left (m_cols A) (snd t)" "(t, pc)"] 1(6) unfolding 1(2) mm_left_def by simp
  ultimately show ?thesis using inv 1(4) unfolding mm_inv_def 1(2) by simp
qed

lemma create_index: "i < n \<Longrightarrow> j < n \<Longrightarrow> i * n + j < n * (n::nat)"
proof -
  assume "i < n" "j < n"
  then have "i * n + j < Suc i * n" by simp
  also have "\<dots> \<le> n * n" using \<open>i < n\<close> by (intro mult_le_mono1) simp
  finally show ?thesis .
qed

lemma product_done:
  assumes "mm_inv A B s" "length (mm_thr s) = m_rows A * m_rows A" "\<forall>t<m_rows A * m_rows A. snd (mm_thr s ! t) = W_done"
  shows "mm_mat3 s = mat_product A B"
proof -
  let ?n = "m_rows A"
  have sh: "shape ?n ?n (mm_mat3 s)" and sq: "m_cols B = ?n" using assms(1) by (simp_all add: mm_inv_def square_ok_def)
  have "mm_mat3 s ! r ! c = dot A B r c (m_cols A)" if "r < ?n" "c < ?n" for r c
  proof -
    have t: "r * ?n + c < ?n * ?n" using create_index that by simp
    then have "thr_ok A B s (r * ?n + c)" using assms(1,2) by (simp add: mm_inv_def)
    then show ?thesis using assms(3) t that by (simp add: thr_ok_def)
  qed
  then show ?thesis using sh sq by (intro nth_equalityI) (auto simp: shape_def mat_product_def intro!: nth_equalityI)
qed

lemma mm_create_ok:
  assumes inv: "mm_inv A B s" and m: "mm_main s = MP_create i j" and ij: "i < m_rows A" "j < m_cols B"
  shows "mm_inv A B (create_one i j (i * m_rows A + j) s) \<and>
    mm_left A B (create_one i j (i * m_rows A + j) s) < mm_left A B s"
proof -
  let ?n = "m_rows A" and ?k = "i * m_rows A + j" and ?p = "m_cols A"
  have B: "m_cols B = ?n" using inv by (simp add: mm_inv_def square_ok_def)
  have len: "length (mm_thr s) = ?k" using inv m by (simp add: mm_inv_def)
  have k: "?k < ?n * ?n" using create_index ij B by simp
  have dm: "?k div ?n = i" "?k mod ?n = j" using ij B by simp_all
  have s': "create_one i j ?k s = s\<lparr>mm_v := (mm_v s)[?k := (i, j)], mm_refuse := [],
      mm_tid := (mm_tid s)[?k := Some ?k], mm_thr := mm_thr s @ [(?k, W_row)], mm_main := MP_create i (j + 1)\<rparr>"
    using inv k len by (simp add: create_one_def mm_inv_def Let_def)
  have thr: "thr_ok A B (create_one i j ?k s) t" if "t < Suc ?k" for t
  proof (cases "t = ?k")
    case True
    then show ?thesis unfolding s' using inv k len dm by (simp add: thr_ok_def mm_inv_def nth_append)
  next
    case False
    then have "t < ?k" using that by simp
    moreover have "thr_ok A B s t" using inv len calculation by (simp add: mm_inv_def)
    ultimately show ?thesis unfolding s' using len by (simp add: thr_ok_def nth_append)
  qed
  have "?n * ?n - ?k = Suc (?n * ?n - Suc ?k)" using k by (simp add: Suc_diff_Suc)
  then have "mm_left A B (create_one i j ?k s) < mm_left A B s" unfolding s' mm_left_def using m by simp
  moreover have "mm_inv A B (create_one i j ?k s)"
    using inv thr k len ij B unfolding s' by (simp add: mm_inv_def less_Suc_eq_le Suc_le_eq)
  ultimately show ?thesis by blast
qed

lemma mm_main_ok:
  assumes inv: "mm_inv A B s" and st: "mm_main_step A B s = Some s'"
  shows "mm_inv A B s' \<and> mm_left A B s' < mm_left A B s"
proof (cases "mm_main s")
  case (MP_create i j)
  let ?n = "m_rows A"
  have c: "i \<le> ?n" "j \<le> ?n" "i = ?n \<longrightarrow> j = 0" "length (mm_thr s) = i * ?n + j" "m_cols B = ?n"
    using inv MP_create by (simp_all add: mm_inv_def square_ok_def)
  show ?thesis
  proof (cases "i < ?n")
    case True
    show ?thesis
    proof (cases "j < ?n")
      case j: True
      then have "s' = create_one i j (i * ?n + j) s" using st MP_create True c(5) by (simp add: mm_main_step_def)
      then show ?thesis using mm_create_ok [OF inv MP_create True] j c(5) by simp
    next
      case False
      then have s': "s' = s\<lparr>mm_main := MP_create (i + 1) 0\<rparr>" using st MP_create True c(5) by (simp add: mm_main_step_def)
      have j: "j = ?n" using False c by simp
      have e: "?n - i = Suc (?n - Suc i)" "Suc i * ?n + 0 = i * ?n + ?n" using True by (simp_all add: Suc_diff_Suc)
      have "mm_left A B s' < mm_left A B s"
        unfolding s' mm_left_def using MP_create j by (simp only: mmul.simps mmain_left.simps e Suc_eq_plus1 [symmetric]) (simp add: add.commute)
      moreover have "mm_inv A B s'" using inv c j True MP_create unfolding s' by (simp add: mm_inv_def thr_ok_def)
      ultimately show ?thesis by blast
    qed
  next
    case False
    then have s': "s' = s\<lparr>mm_main := MP_join 0\<rparr>" using st MP_create by (simp add: mm_main_step_def)
    show ?thesis using inv c False MP_create unfolding s' by (simp add: mm_inv_def thr_ok_def mm_left_def)
  qed
next
  case (MP_join i)
  let ?n = "m_rows A"
  have c: "i \<le> ?n * ?n" "length (mm_thr s) = ?n * ?n" "\<forall>t<i. snd (mm_thr s ! t) = W_done" "m_cols B = ?n"
    using inv MP_join by (simp_all add: mm_inv_def square_ok_def)
  show ?thesis
  proof (cases "i < ?n * ?n")
    case True
    then have "mm_tid s ! i = Some i" using inv c(2) by (simp add: mm_inv_def thr_ok_def)
    then have d: "snd (mm_thr s ! i) = W_done" and s': "s' = s\<lparr>mm_main := MP_join (i + 1)\<rparr>"
      using st MP_join True c(4) by (simp_all add: mm_main_step_def split: if_splits)
    then have "\<forall>t<Suc i. snd (mm_thr s ! t) = W_done" using c(3) less_Suc_eq by auto
    then show ?thesis using inv c True MP_join unfolding s' by (simp add: mm_inv_def thr_ok_def mm_left_def)
  next
    case False
    then have s': "s' = s\<lparr>mm_main := MP_print\<rparr>" using st MP_join c(4) by (simp add: mm_main_step_def)
    have "i = ?n * ?n" using False c(1) by simp
    then show ?thesis using inv c MP_join unfolding s' by (simp add: mm_inv_def thr_ok_def mm_left_def)
  qed
next
  case MP_print
  then have s': "s' = s\<lparr>mm_out := Some (mm_mat3 s), mm_main := MP_exit True\<rparr>" using st by (simp add: mm_main_step_def)
  have "mm_mat3 s = mat_product A B" using inv MP_print by (intro product_done) (simp_all add: mm_inv_def)
  moreover have "thr_ok A B s' = thr_ok A B s" by (simp add: fun_eq_iff thr_ok_def s')
  ultimately show ?thesis using inv MP_print unfolding mm_inv_def by (simp add: s' mm_left_def)
next
  case MP_freed
  then show ?thesis using inv by (simp add: mm_inv_def)
qed (use st in \<open>simp add: mm_main_step_def\<close>)

lemma mm_step_ok:
  assumes inv: "mm_inv A B s" and st: "mm_step 4 A B t s = Some s'"
  shows "mm_inv A B s' \<and> mm_left A B s' < mm_left A B s"
proof (cases t)
  case 0
  then have "mm_main_step A B s = Some s'" using st by (simp add: mm_step_def split: if_splits)
  then show ?thesis by (rule mm_main_ok [OF inv])
next
  case (Suc i)
  have "mm_main s \<noteq> MP_freed" using inv by (auto simp: mm_inv_def)
  then have "mulvect 4 A B i s = Some s'" using st Suc by (auto simp: mm_step_def split: if_splits bind_splits)
  then show ?thesis by (rule mulvect_ok [OF inv])
qed

interpretation mm: program "mm_step 4 A B" "mm_inv A B" "mm_left A B" for A B
  by unfold_locales (simp_all add: mm_step_ok)

lemma mm_stopped:
  assumes inv: "mm_inv A B s" and st: "stopped (mm_step 4 A B) s"
  shows "mm_main s = MP_exit True"
proof (rule ccontr)
  assume no: "mm_main s \<noteq> MP_exit True"
  have "mm_main s \<noteq> MP_freed" "mm_main s \<noteq> MP_exit False" "\<not> mm_bad s" using inv by (auto simp: mm_inv_def)
  then have none: "mm_main_step A B s = None" "mulvect 4 A B i s = None" for i
    using st [unfolded stopped_def, rule_format, of 0] st [unfolded stopped_def, rule_format, of "Suc i"] no
    by (auto simp: mm_step_def split: bind_splits)
  from none(1) no \<open>mm_main s \<noteq> MP_freed\<close> \<open>mm_main s \<noteq> MP_exit False\<close> obtain k where
    k: "mm_main s = MP_join k" by (auto simp: mm_main_step_def split: mmain_pc.splits)
  have len: "length (mm_thr s) = m_rows A * m_rows A" "m_cols B = m_rows A" using inv k by (simp_all add: mm_inv_def square_ok_def)
  have lt: "k < m_rows A * m_rows A" using none(1) k len by (auto simp: mm_main_step_def split: if_splits)
  then have "thr_ok A B s k" using inv len by (simp add: mm_inv_def)
  then have "mm_tid s ! k = Some k" by (simp add: thr_ok_def)
  then have "snd (mm_thr s ! k) \<noteq> W_done" using none(1) k lt len by (auto simp: mm_main_step_def split: if_splits)
  then show False using none(2) [of k] lt len by (cases "mm_thr s ! k"; cases "snd (mm_thr s ! k)") (auto simp: mulvect_def)
qed

section \<open>LP64\<close>

fun wrk_col0 :: "wrk_pc \<Rightarrow> bool" where
  "wrk_col0 (W_zero r c) = (c = 0)"
| "wrk_col0 (W_load r c i) = (c = 0)"
| "wrk_col0 (W_store r c i x) = (c = 0)"
| "wrk_col0 pc = True"

definition col0_inv :: "int list list \<Rightarrow> mmul \<Rightarrow> bool" where
  \<comment> \<open>The workers stay in the first column; the others are as in \<open>d0\<close>.\<close>
  "col0_inv d0 s \<longleftrightarrow>
     (\<forall>(k, pc)\<in>set (mm_thr s). k < length (mm_v s) \<and> fst (mm_v s ! k) < 2 ^ 31 \<and> wrk_col0 pc) \<and>
     length (mm_mat3 s) = length d0 \<and> (\<forall>r<length d0. \<forall>c. 0 < c \<longrightarrow> mm_mat3 s ! r ! c = d0 ! r ! c)"

lemma int_at_64: "r < 2 ^ 31 \<Longrightarrow> int_at 8 (r, c) 0 = r \<and> int_at 8 (r, c) 1 = 0"
  by (simp add: int_at_def Let_def)

lemma col0_set:
  assumes "col0_inv d0 s" "t < length (mm_thr s)" "mm_thr s ! t = (k, pc0)" "wrk_col0 pc"
    and "d = mm_mat3 s \<or> (\<exists>r x. d = cell_set r 0 x (mm_mat3 s))"
  shows "col0_inv d0 (mm_set t pc (s\<lparr>mm_mat3 := d\<rparr>))"
proof -
  have "(k, pc0) \<in> set (mm_thr s)" using assms(2,3) by (metis nth_mem)
  moreover have "set ((mm_thr s)[t := (k, pc)]) \<subseteq> insert (k, pc) (set (mm_thr s))" by (rule set_update_subset_insert)
  moreover have "length d = length (mm_mat3 s)" "\<And>r c. 0 < c \<Longrightarrow> d ! r ! c = mm_mat3 s ! r ! c"
    using assms(5) cell_set_other by (auto simp: cell_set_def)
  ultimately show ?thesis using assms(1,3,4) by (auto simp: col0_inv_def mm_set_def)
qed

lemma mulvect_col0:
  assumes "col0_inv d0 s" "mulvect 8 A B t s = Some s'"
  shows "col0_inv d0 s'"
proof -
  have t: "t < length (mm_thr s)" using assms(2) by (simp add: mulvect_def split: if_splits)
  obtain k pc where pc: "mm_thr s ! t = (k, pc)" by force
  then have "(k, pc) \<in> set (mm_thr s)" using t by (metis nth_mem)
  then have k: "fst (mm_v s ! k) < 2 ^ 31" "wrk_col0 pc" using assms(1) by (auto simp: col0_inv_def)
  note S = col0_set [OF assms(1) t pc]
  have bad: "col0_inv d0 (bad s)" using assms(1) by (simp add: col0_inv_def bad_def)
  have col: "int_at 8 (mm_v s ! k) 1 = 0" using int_at_64 [OF k(1)] by (metis prod.collapse)
  have S0: "wrk_col0 pc' \<Longrightarrow> col0_inv d0 (mm_set t pc' s)" for pc' using S [of pc' "mm_mat3 s"] by simp
  have th: "Some s' = mulvect 8 A B t s" using assms(2) by simp
  show ?thesis
  proof (cases pc)
    case (W_zero r c)
    then show ?thesis using th t pc k(2) bad S [of "W_load r 0 0" "cell_set r 0 0 (mm_mat3 s)"]
      by (auto simp: mulvect_def)
  next
    case (W_load r c i)
    then show ?thesis using th t pc k(2) bad S0 by (auto simp: mulvect_def Let_def)
  next
    case (W_store r c i x)
    then show ?thesis using th t pc k(2) S [of "W_load r 0 (i + 1)" "cell_set r 0 x (mm_mat3 s)"]
      by (auto simp: mulvect_def)
  qed (use th t pc S0 col in \<open>auto simp: mulvect_def\<close>)
qed

lemma main_col0:
  assumes "col0_inv d0 s" "mm_main_step A B s = Some s'" "m_rows A < 2 ^ 31"
  shows "col0_inv d0 s'"
proof (cases "mm_main s")
  case (MP_create i j)
  show ?thesis
  proof (cases "i < m_rows A \<and> j < m_cols B \<and> i * m_rows A + j < length (mm_v s)")
    case True
    let ?k = "i * m_rows A + j"
    have "i < 2 ^ 31" using True assms(3) by linarith
    moreover have "s' = create_one i j ?k s" using assms(2) MP_create True by (simp add: mm_main_step_def)
    ultimately show ?thesis using assms(1) True
      by (auto simp: col0_inv_def create_one_def Let_def nth_list_update)
  next
    case False
    then show ?thesis using assms(1,2) MP_create
      by (auto simp: mm_main_step_def col0_inv_def create_one_def bad_def split: if_splits)
  qed
qed (use assms in \<open>auto simp: mm_main_step_def col0_inv_def bad_def split: if_splits option.splits\<close>)

lemma run_col0:
  assumes "m_rows A < 2 ^ 31"
  shows "run (mm_step 8 A B) ts s = Some s' \<Longrightarrow> col0_inv d0 s \<Longrightarrow> col0_inv d0 s'"
proof (induction ts arbitrary: s)
  case (Cons t ts)
  then obtain s1 where s1: "mm_step 8 A B t s = Some s1" "run (mm_step 8 A B) ts s1 = Some s'"
    by (auto split: bind_splits)
  have "col0_inv d0 s1"
  proof (cases t)
    case 0
    then show ?thesis using s1(1) main_col0 [OF Cons.prems(2) _ assms] by (simp add: mm_step_def split: if_splits)
  next
    case (Suc i)
    then obtain s2 where "mulvect 8 A B i s = Some s2" "s1 = (if mm_main s = MP_freed then bad s else s2)"
      using s1(1) by (auto simp: mm_step_def split: if_splits bind_splits)
    then show ?thesis using mulvect_col0 [OF Cons.prems(2)] Cons.prems(2) by (auto simp: col0_inv_def bad_def)
  qed
  then show ?case using Cons.IH s1(2) by blast
qed simp

end
