(* ===== verification/Matrix_Props.thy ===== *)
theory Matrix_Props imports Matrix_Threads begin

text \<open>
  What the matrix multiplication program promises, and where it breaks.
\<close>

section \<open>Matrices to apply the theorems to\<close>

definition ex_mat :: "int list list \<Rightarrow> matrix" where
  "ex_mat d = \<lparr>m_addr = 1, m_rows = 2, m_cols = 2, m_dataaddr = 2, m_rowaddrs = [3, 4], m_data = d\<rparr>"

definition ex_A :: matrix where "ex_A = ex_mat [[1, 2], [3, 4]]"
definition ex_B :: matrix where "ex_B = ex_mat [[0, 1], [1, 0]]"

lemma less_two: "r < (2::nat) \<longleftrightarrow> r = 0 \<or> r = 1"
  by auto

lemma ex_square: "square_ok ex_A ex_B"
  by (auto simp: square_ok_def matrix_wf_def no_overflow_def less_two int_ok_def dot_def ex_A_def ex_B_def ex_mat_def)

lemma ex_shape: "shape 2 2 [[7, 7], [7, 7 :: int]]"
  by (auto simp: shape_def less_two)

section \<open>Theorems\<close>

text \<open>C20: Whatever the files hold and whichever allocation fails, \<open>main\<close> either reaches the threads with
  matrices of fitting dimensions, and its cleanup at the end gives back all the memory it took,
  or it leaves through the cleanup for the depth it had reached, and that gives back everything;
  no path releases a block twice.\<close>

theorem matrix_setup_releases:
  assumes "heap_wf h" "mm_setup w g g1 g2 file1 file2 h = Some (r, h')"
  shows "hp_bad h' = hp_bad h \<and>
    (case r of
       None \<Rightarrow> hp_live h' = hp_live h
     | Some k \<Rightarrow> matrix_wf (wk_mat1 k) \<and> matrix_wf (wk_mat2 k) \<and> matrix_wf (wk_mat3 k) \<and>
         m_cols (wk_mat1 k) = m_rows (wk_mat2 k) \<and> m_rows (wk_mat3 k) = m_rows (wk_mat1 k) \<and>
         m_cols (wk_mat3 k) = m_cols (wk_mat2 k) \<and>
         hp_live (mm_finish k h') = hp_live h \<and> hp_bad (mm_finish k h') = hp_bad h)"
  by (rule mm_setup_ok [OF assms])

lemma matrix_setup_releases_witness:
  "\<exists>k h'. mm_setup 4 (\<lambda>_ _. 0) (0, 0) (0, 0) (Some [1, 1, 5]) (Some [1, 1, 6])
      \<lparr>hp_next = 8, hp_limit = 1000, hp_live = [], hp_sched = [], hp_bad = False\<rparr> = Some (Some k, h') \<and>
     hp_live (mm_finish k h') = []"
proof -
  let ?h = "\<lparr>hp_next = 8, hp_limit = 1000, hp_live = [], hp_sched = [], hp_bad = False\<rparr>"
  have "heap_wf ?h" by (simp add: heap_wf_def)
  moreover have "\<exists>k h'. mm_setup 4 (\<lambda>_ _. 0) (0, 0) (0, 0) (Some [1, 1, 5]) (Some [1, 1, 6]) ?h = Some (Some k, h')"
    by (simp add: mm_setup_def matrix_read_def scan_u_def matrix_alloc_def malloc_def sizeof_matrix_def sizeof_int_def
        size_mod_def int_ok_def)
  ultimately show ?thesis using matrix_setup_releases by fastforce
qed

text \<open>C19: On a 32-bit system, for a square result, without overflow and when no thread is refused, every interleaving
  of the threads computes the product: nothing undefined happens, no run is longer than a bound in the dimensions, so
  none goes on for ever, every run can be continued until the process ends, and what is printed then is the product of
  the two matrices.\<close>

theorem matrix_square_correct:
  assumes "square_ok A B" "length v = m_rows A * m_rows A" "shape (m_rows A) (m_rows A) ini"
    and "run (mm_step 4 A B) ts (mm_init v ini []) = Some s"
  shows "\<not> mm_bad s \<and>
    length ts \<le> m_rows A * m_rows A * (2 * m_cols A + 6) + m_rows A + 3 \<and>
    (\<exists>us s'. run (mm_step 4 A B) (ts @ us) (mm_init v ini []) = Some s' \<and> stopped (mm_step 4 A B) s') \<and>
    (stopped (mm_step 4 A B) s \<longrightarrow> mm_main s = MP_exit True \<and> mm_out s = Some (mat_product A B))"
proof -
  have "mm_inv A B (mm_init v ini [])" using assms(1-3) by (simp add: mm_inv_def mm_init_def)
  from mm.run_ok [OF this assms(4)] have inv: "mm_inv A B s" and len: "length ts \<le> mm_left A B (mm_init v ini [])" by simp_all
  have "mm_left A B (mm_init v ini []) = m_rows A * m_rows A * (2 * m_cols A + 6) + m_rows A + 3"
    by (simp add: mm_left_def mm_init_def algebra_simps)
  with len have "length ts \<le> m_rows A * m_rows A * (2 * m_cols A + 6) + m_rows A + 3" by simp
  moreover from mm.run_stops [OF inv] obtain us s' where "run (mm_step 4 A B) us s = Some s'" "stopped (mm_step 4 A B) s'" by blast
  then have "run (mm_step 4 A B) (ts @ us) (mm_init v ini []) = Some s'" "stopped (mm_step 4 A B) s'"
    using assms(4) by (simp_all add: run_append)
  moreover have "mm_out s = Some (mat_product A B)" if "mm_main s = MP_exit True" using inv that by (simp add: mm_inv_def)
  ultimately show ?thesis using inv mm_stopped [OF inv] unfolding mm_inv_def by blast
qed

lemma matrix_square_correct_witness:
  "\<exists>s. run (mm_step 4 ex_A ex_B) [0, 1] (mm_init (replicate 4 (9, 9)) [[7, 7], [7, 7]] []) = Some s \<and> \<not> mm_bad s \<and>
     mat_product ex_A ex_B = [[2, 1], [4, 3]]"
proof -
  have "\<exists>s. run (mm_step 4 ex_A ex_B) [0, 1] (mm_init (replicate 4 (9, 9)) [[7, 7], [7, 7]] []) = Some s"
    by (simp add: mm_step_def mm_init_def mm_main_step_def create_one_def mulvect_def mm_set_def Let_def
        ex_A_def ex_B_def ex_mat_def eval_nat_numeral)
  moreover have "mat_product ex_A ex_B = [[2, 1], [4, 3]]"
    by (simp add: mat_product_def dot_def ex_A_def ex_B_def ex_mat_def upt_rec eval_nat_numeral)
  moreover have "length (replicate 4 (9 :: nat, 9 :: nat)) = m_rows ex_A * m_rows ex_A"
    "shape (m_rows ex_A) (m_rows ex_A) [[7, 7], [7, 7]]" using ex_shape by (simp_all add: ex_A_def ex_mat_def)
  ultimately show ?thesis using matrix_square_correct [OF ex_square] by blast
qed

text \<open>On an LP64 system \<open>mulvect\<close> takes the high half of the row index for the column, so the threads
  write only the first column: every other element of the result stays what the memory held.\<close>

theorem matrix_lp64_columns:
  assumes "run (mm_step 8 A B) ts (mm_init v ini refuse) = Some s" "m_rows A < 2 ^ 31"
    and "r < length ini" "0 < c"
  shows "mm_mat3 s ! r ! c = ini ! r ! c"
proof -
  have "col0_inv ini (mm_init v ini refuse)" by (simp add: col0_inv_def mm_init_def)
  from run_col0 [OF assms(2,1) this] assms(3,4) show ?thesis by (simp add: col0_inv_def)
qed

lemma matrix_lp64_columns_witness:
  "\<exists>s. run (mm_step 8 ex_A ex_B) [0, 0, Suc 1, Suc 1, Suc 1] (mm_init ([(9, 9), (9, 9), (9, 9), (9, 9)]) [[7, 7], [7, 7]] []) = Some s \<and>
     mm_mat3 s ! 0 ! 1 = 7 \<and> mm_mat3 s ! 0 ! 0 = 0"
proof -
  have r: "m_rows ex_A < 2 ^ 31" by (simp add: ex_A_def ex_mat_def)
  have "\<exists>s. run (mm_step 8 ex_A ex_B) [0, 0, Suc 1, Suc 1, Suc 1] (mm_init ([(9, 9), (9, 9), (9, 9), (9, 9)]) [[7, 7], [7, 7]] []) = Some s \<and>
      mm_mat3 s ! 0 ! 0 = 0"
    by (simp add: mm_step_def mm_init_def mm_main_step_def create_one_def mulvect_def mm_set_def Let_def int_at_def
        cell_ok_def cell_set_def ex_A_def ex_B_def ex_mat_def)
  then obtain s where s: "run (mm_step 8 ex_A ex_B) [0, 0, Suc 1, Suc 1, Suc 1] (mm_init ([(9, 9), (9, 9), (9, 9), (9, 9)]) [[7, 7], [7, 7]] []) = Some s"
    "mm_mat3 s ! 0 ! 0 = 0" by blast
  from matrix_lp64_columns [OF s(1) r, of 0 1] s show ?thesis by auto
qed

end
