(* ===== verification/Spawn.thy ===== *)
theory Spawn imports Threads Prelude begin

text \<open>
  Programs that start threads and processes: \<open>pthreads/pthread_create.c\<close>, which starts twenty threads and then waits
  for all of them, \<open>pthreads/pthread_join.c\<close>, which waits for each before it starts the next, and
  \<open>ipc/fork_mult.c\<close>, which does the same with five processes. Thread 0 is \<open>main\<close>, thread \<open>i + 1\<close> the one that is
  started with \<open>&cnt[i]\<close>. A list says which of the calls that start something the system refuses.
\<close>

section \<open>Threads\<close>

definition SPAWN_THREADS :: nat where "SPAWN_THREADS = 20"

datatype sp_line = Creating int | Hello int

datatype sp_pc = SP_print nat | SP_create nat | SP_join nat | SP_exit bool

datatype hello_pc = H_new | H_run | H_done

record spawn =
  sp_main :: sp_pc
  sp_cnt :: "int list"
  sp_thr :: "hello_pc list"
  sp_refuse :: "bool list"
  sp_out :: "sp_line list"

definition spawn_init :: "int list \<Rightarrow> bool list \<Rightarrow> spawn" where
  \<comment> \<open>\<open>g\<close> is what the array \<open>cnt\<close> holds before it is written.\<close>
  "spawn_init g refuse =
     \<lparr>sp_main = SP_print 0, sp_cnt = g, sp_thr = replicate SPAWN_THREADS H_new, sp_refuse = refuse, sp_out = []\<rparr>"

definition hello_thread :: "nat \<Rightarrow> spawn \<Rightarrow> spawn option" where
  "hello_thread i s =
     (if i < length (sp_thr s) \<and> sp_thr s ! i = H_run
      then Some (s\<lparr>sp_out := sp_out s @ [Hello (sp_cnt s ! i)], sp_thr := (sp_thr s)[i := H_done]\<rparr>)
      else None)"

definition sp_start :: "nat \<Rightarrow> sp_pc \<Rightarrow> spawn \<Rightarrow> spawn" where
  \<comment> \<open>\<open>pthread_create\<close>, and where \<open>main\<close> goes on when it succeeds.\<close>
  "sp_start i pc s =
     (let s1 = s\<lparr>sp_refuse := tl (sp_refuse s)\<rparr> in
      if sp_refuse s \<noteq> [] \<and> hd (sp_refuse s) then s1\<lparr>sp_main := SP_exit False\<rparr>
      else s1\<lparr>sp_thr := (sp_thr s)[i := H_run], sp_main := pc\<rparr>)"

definition create_main :: "spawn \<Rightarrow> spawn option" where
  "create_main s =
     (case sp_main s of
        SP_print i \<Rightarrow>
          Some (if i < SPAWN_THREADS
                then s\<lparr>sp_cnt := (sp_cnt s)[i := int i], sp_out := sp_out s @ [Creating (int i)], sp_main := SP_create i\<rparr>
                else s\<lparr>sp_main := SP_join 0\<rparr>)
      | SP_create i \<Rightarrow> Some (sp_start i (SP_print (i + 1)) s)
      | SP_join i \<Rightarrow>
          (if i < SPAWN_THREADS
           then if sp_thr s ! i = H_done then Some (s\<lparr>sp_main := SP_join (i + 1)\<rparr>) else None
           else Some (s\<lparr>sp_main := SP_exit True\<rparr>))
      | SP_exit ok \<Rightarrow> None)"

definition join_main :: "spawn \<Rightarrow> spawn option" where
  "join_main s =
     (case sp_main s of
        SP_print i \<Rightarrow>
          Some (if i < SPAWN_THREADS
                then s\<lparr>sp_cnt := (sp_cnt s)[i := int i], sp_out := sp_out s @ [Creating (int i)], sp_main := SP_create i\<rparr>
                else s\<lparr>sp_main := SP_exit True\<rparr>)
      | SP_create i \<Rightarrow> Some (sp_start i (SP_join i) s)
      | SP_join i \<Rightarrow> (if sp_thr s ! i = H_done then Some (s\<lparr>sp_main := SP_print (i + 1)\<rparr>) else None)
      | SP_exit ok \<Rightarrow> None)"

definition sp_ended :: "sp_pc \<Rightarrow> bool" where
  "sp_ended pc \<longleftrightarrow> (case pc of SP_exit _ \<Rightarrow> True | _ \<Rightarrow> False)"

definition sp_step :: "(spawn \<Rightarrow> spawn option) \<Rightarrow> nat \<Rightarrow> spawn \<Rightarrow> spawn option" where
  \<comment> \<open>The process ends when \<open>main\<close> does.\<close>
  "sp_step pmain t s =
     (if sp_ended (sp_main s) then None else case t of 0 \<Rightarrow> pmain s | Suc i \<Rightarrow> hello_thread i s)"

definition create_step :: "nat \<Rightarrow> spawn \<Rightarrow> spawn option" where "create_step = sp_step create_main"
definition join_step :: "nat \<Rightarrow> spawn \<Rightarrow> spawn option" where "join_step = sp_step join_main"

section \<open>What is printed\<close>

fun created :: "sp_line list \<Rightarrow> int list" where
  "created [] = []"
| "created (Creating n # xs) = n # created xs"
| "created (Hello n # xs) = created xs"

fun hellos :: "sp_line list \<Rightarrow> int list" where
  "hellos [] = []"
| "hellos (Creating n # xs) = hellos xs"
| "hellos (Hello n # xs) = n # hellos xs"

lemma created_append [simp]: "created (xs @ ys) = created xs @ created ys"
  by (induction xs rule: created.induct) simp_all

lemma hellos_append [simp]: "hellos (xs @ ys) = hellos xs @ hellos ys"
  by (induction xs rule: hellos.induct) simp_all

lemma created_set: "n \<in> set (created xs) \<longleftrightarrow> Creating n \<in> set xs"
  by (induction xs rule: created.induct) auto

definition announced :: "sp_line list \<Rightarrow> bool" where
  \<comment> \<open>No thread says hello before its creation is printed.\<close>
  "announced out \<longleftrightarrow> (\<forall>ys n zs. out = ys @ Hello n # zs \<longrightarrow> Creating n \<in> set ys)"

lemma announced_nil: "announced []"
  by (simp add: announced_def)

lemma announced_snoc:
  "announced (xs @ [x]) \<longleftrightarrow> announced xs \<and> (case x of Hello n \<Rightarrow> Creating n \<in> set xs | Creating n \<Rightarrow> True)"
proof
  assume a: "announced (xs @ [x])"
  have "announced xs" unfolding announced_def
  proof (intro allI impI)
    fix ys n zs assume "xs = ys @ Hello n # zs"
    then have "xs @ [x] = ys @ Hello n # (zs @ [x])" by simp
    then show "Creating n \<in> set ys" using a unfolding announced_def by blast
  qed
  moreover have "case x of Hello n \<Rightarrow> Creating n \<in> set xs | Creating n \<Rightarrow> True"
    using a unfolding announced_def by (cases x) auto
  ultimately show "announced xs \<and> (case x of Hello n \<Rightarrow> Creating n \<in> set xs | Creating n \<Rightarrow> True)" ..
next
  assume a: "announced xs \<and> (case x of Hello n \<Rightarrow> Creating n \<in> set xs | Creating n \<Rightarrow> True)"
  show "announced (xs @ [x])" unfolding announced_def
  proof (intro allI impI)
    fix ys n zs assume e: "xs @ [x] = ys @ Hello n # zs"
    show "Creating n \<in> set ys"
    proof (cases zs rule: rev_exhaust)
      case Nil
      then show ?thesis using e a by simp
    next
      case (snoc us u)
      then have "xs = ys @ Hello n # us" using e by simp
      then show ?thesis using a unfolding announced_def by blast
    qed
  qed
qed

section \<open>All at once\<close>

abbreviation upto_int :: "nat \<Rightarrow> int list" where "upto_int k \<equiv> map int [0..<k]"

fun cr_main_ok :: "bool list \<Rightarrow> sp_pc \<Rightarrow> spawn \<Rightarrow> bool" where
  "cr_main_ok r (SP_print k) s = (k \<le> SPAWN_THREADS \<and> (\<forall>i<SPAWN_THREADS. sp_thr s ! i = H_new \<longleftrightarrow> k \<le> i) \<and>
     created (sp_out s) = upto_int k \<and> sp_refuse s = drop k r \<and> True \<notin> set (take k r))"
| "cr_main_ok r (SP_create k) s = (k < SPAWN_THREADS \<and> (\<forall>i<SPAWN_THREADS. sp_thr s ! i = H_new \<longleftrightarrow> k \<le> i) \<and>
     created (sp_out s) = upto_int (Suc k) \<and> sp_cnt s ! k = int k \<and> sp_refuse s = drop k r \<and> True \<notin> set (take k r))"
| "cr_main_ok r (SP_join k) s = (k \<le> SPAWN_THREADS \<and> (\<forall>i<SPAWN_THREADS. sp_thr s ! i \<noteq> H_new \<and> (i < k \<longrightarrow> sp_thr s ! i = H_done)) \<and>
     created (sp_out s) = upto_int SPAWN_THREADS \<and> True \<notin> set (take SPAWN_THREADS r))"
| "cr_main_ok r (SP_exit ok) s =
     (if ok then (\<forall>i<SPAWN_THREADS. sp_thr s ! i = H_done) \<and> created (sp_out s) = upto_int SPAWN_THREADS \<and> True \<notin> set (take SPAWN_THREADS r)
      else True \<in> set (take SPAWN_THREADS r))"

definition cr_inv :: "bool list \<Rightarrow> spawn \<Rightarrow> bool" where
  "cr_inv r s \<longleftrightarrow> length (sp_thr s) = SPAWN_THREADS \<and> length (sp_cnt s) = SPAWN_THREADS \<and> cr_main_ok r (sp_main s) s \<and>
     (\<forall>i<SPAWN_THREADS. sp_thr s ! i \<noteq> H_new \<longrightarrow> sp_cnt s ! i = int i \<and> Creating (int i) \<in> set (sp_out s)) \<and>
     distinct (hellos (sp_out s)) \<and> (\<forall>n. n \<in> set (hellos (sp_out s)) \<longleftrightarrow> (\<exists>i<SPAWN_THREADS. n = int i \<and> sp_thr s ! i = H_done)) \<and>
     announced (sp_out s)"

fun cr_left :: "sp_pc \<Rightarrow> nat" where
  "cr_left (SP_print k) = 2 * (SPAWN_THREADS - k) + SPAWN_THREADS + 2"
| "cr_left (SP_create k) = 2 * (SPAWN_THREADS - k) + SPAWN_THREADS + 1"
| "cr_left (SP_join k) = SPAWN_THREADS + 1 - k"
| "cr_left (SP_exit ok) = 0"

definition spawn_left :: "(sp_pc \<Rightarrow> nat) \<Rightarrow> spawn \<Rightarrow> nat" where
  "spawn_left left s = left (sp_main s) + cnt (\<lambda>pc. pc \<noteq> H_done) (sp_thr s)"

lemma hello_left:
  "hello_thread i s = Some s' \<Longrightarrow> spawn_left left s' < spawn_left left s"
  using cnt_update [of i "sp_thr s" "\<lambda>pc. pc \<noteq> H_done" H_done]
  by (auto simp: hello_thread_def spawn_left_def split: if_splits)

lemma start_left:
  "i < length (sp_thr s) \<Longrightarrow> sp_thr s ! i = H_new \<Longrightarrow> left pc < left (sp_main s) \<Longrightarrow> left (SP_exit False) < left (sp_main s) \<Longrightarrow>
    spawn_left left (sp_start i pc s) < spawn_left left s"
  using cnt_update [of i "sp_thr s" "\<lambda>pc. pc \<noteq> H_done" H_run]
  by (auto simp: sp_start_def Let_def spawn_left_def)

lemma hello_cr_inv:
  assumes inv: "cr_inv r s" and st: "hello_thread i s = Some s'"
  shows "cr_inv r s'"
proof -
  have i: "i < SPAWN_THREADS" "sp_thr s ! i = H_run" "i < length (sp_thr s)"
    and s': "s' = s\<lparr>sp_out := sp_out s @ [Hello (sp_cnt s ! i)], sp_thr := (sp_thr s)[i := H_done]\<rparr>"
    using inv st by (auto simp: hello_thread_def cr_inv_def split: if_splits)
  have c: "sp_cnt s ! i = int i" "Creating (int i) \<in> set (sp_out s)" using inv i unfolding cr_inv_def by auto
  have "int i \<notin> set (hellos (sp_out s))" using inv i unfolding cr_inv_def by auto
  moreover have "cr_main_ok r (sp_main s') s'"
    using inv i unfolding cr_inv_def s' by (cases "sp_main s") (auto simp: nth_list_update split: if_splits)
  moreover have "\<forall>n. n \<in> set (hellos (sp_out s')) \<longleftrightarrow> (\<exists>j<SPAWN_THREADS. n = int j \<and> sp_thr s' ! j = H_done)"
  proof
    fix n
    have "n \<in> set (hellos (sp_out s')) \<longleftrightarrow> n = int i \<or> (\<exists>j<SPAWN_THREADS. n = int j \<and> sp_thr s ! j = H_done)"
      using inv c(1) unfolding cr_inv_def s' by simp
    also have "\<dots> \<longleftrightarrow> (\<exists>j<SPAWN_THREADS. n = int j \<and> sp_thr s' ! j = H_done)"
      using i unfolding s' by (auto simp: nth_list_update)
    finally show "n \<in> set (hellos (sp_out s')) \<longleftrightarrow> (\<exists>j<SPAWN_THREADS. n = int j \<and> sp_thr s' ! j = H_done)" .
  qed
  ultimately show ?thesis
    using inv c i unfolding cr_inv_def s' by (auto simp: announced_snoc nth_list_update)
qed

lemma refused_drop: "(drop k r \<noteq> [] \<and> hd (drop k r)) \<longleftrightarrow> (k < length r \<and> r ! k)"
  by (auto simp: hd_drop_conv_nth)

lemma refused_take: "True \<in> set (take (Suc k) r) \<longleftrightarrow> True \<in> set (take k r) \<or> k < length r \<and> r ! k"
  by (cases "k < length r") (auto simp: take_Suc_conv_app_nth)

lemma refused_mono: "True \<in> set (take k r) \<Longrightarrow> k \<le> n \<Longrightarrow> True \<in> set (take n r)"
  using set_take_subset_set_take [of k n r] by blast

lemma start_cases:
  assumes "sp_refuse s = drop k r" "True \<notin> set (take k r)" "k < SPAWN_THREADS"
  obtains (refused) "sp_start k pc s = s\<lparr>sp_refuse := drop (Suc k) r, sp_main := SP_exit False\<rparr>"
      "True \<in> set (take SPAWN_THREADS r)"
    | (started) "sp_start k pc s = s\<lparr>sp_refuse := drop (Suc k) r, sp_thr := (sp_thr s)[k := H_run], sp_main := pc\<rparr>"
      "True \<notin> set (take (Suc k) r)"
proof (cases "k < length r \<and> r ! k")
  case True
  then have "True \<in> set (take SPAWN_THREADS r)" using refused_take [of k r] refused_mono [of "Suc k" r SPAWN_THREADS] assms(3) by simp
  then show thesis using True refused_drop [of k r] assms(1) by (intro refused) (simp_all add: sp_start_def Let_def drop_Suc tl_drop)
next
  case False
  then show thesis using refused_drop [of k r] refused_take [of k r] assms(1,2)
    by (intro started) (auto simp: sp_start_def Let_def drop_Suc tl_drop)
qed

lemma create_main_ok:
  assumes inv: "cr_inv r s" and st: "create_main s = Some s'"
  shows "cr_inv r s' \<and> spawn_left cr_left s' < spawn_left cr_left s"
proof (cases "sp_main s")
  case (SP_print k)
  show ?thesis
  proof (cases "k < SPAWN_THREADS")
    case True
    have s': "s' = s\<lparr>sp_cnt := (sp_cnt s)[k := int k], sp_out := sp_out s @ [Creating (int k)], sp_main := SP_create k\<rparr>"
      using st SP_print True by (simp add: create_main_def)
    have "\<forall>i<SPAWN_THREADS. sp_thr s ! i \<noteq> H_new \<longrightarrow> i \<noteq> k" using inv SP_print by (auto simp: cr_inv_def)
    then show ?thesis using inv SP_print True unfolding s' cr_inv_def
      by (auto simp: announced_snoc spawn_left_def nth_list_update)
  next
    case False
    then have "s' = s\<lparr>sp_main := SP_join 0\<rparr>" "k = SPAWN_THREADS" using st SP_print inv by (auto simp: create_main_def cr_inv_def)
    then show ?thesis using inv SP_print by (auto simp: cr_inv_def spawn_left_def)
  qed
next
  case (SP_create k)
  have k: "k < SPAWN_THREADS" "sp_refuse s = drop k r" "True \<notin> set (take k r)" "sp_cnt s ! k = int k"
    "created (sp_out s) = upto_int (Suc k)" "\<forall>i<SPAWN_THREADS. sp_thr s ! i = H_new \<longleftrightarrow> k \<le> i"
    using inv SP_create by (simp_all add: cr_inv_def)
  have s': "s' = sp_start k (SP_print (k + 1)) s" using st SP_create by (simp add: create_main_def)
  have "Creating (int k) \<in> set (sp_out s)" using k(5) unfolding created_set [symmetric] by simp
  have l: "spawn_left cr_left s' < spawn_left cr_left s" unfolding s'
    by (rule start_left) (use k inv SP_create in \<open>auto simp: cr_inv_def\<close>)
  from k(2,3,1) show ?thesis
  proof (cases rule: start_cases [of s k r "SP_print (k + 1)"])
    case refused
    then show ?thesis using inv l unfolding s' cr_inv_def by auto
  next
    case started
    have "cr_inv r s'" unfolding s' started(1) cr_inv_def
    proof (intro conjI)
      show "cr_main_ok r (sp_main (s\<lparr>sp_refuse := drop (Suc k) r, sp_thr := (sp_thr s)[k := H_run], sp_main := SP_print (k + 1)\<rparr>))
        (s\<lparr>sp_refuse := drop (Suc k) r, sp_thr := (sp_thr s)[k := H_run], sp_main := SP_print (k + 1)\<rparr>)"
        using k started(2) inv by (auto simp: nth_list_update cr_inv_def)
    qed (use inv k \<open>Creating (int k) \<in> set (sp_out s)\<close> in \<open>auto simp: cr_inv_def nth_list_update\<close>)
    then show ?thesis using l by simp
  qed
next
  case (SP_join k)
  then show ?thesis using inv st
    by (auto simp: create_main_def cr_inv_def spawn_left_def less_Suc_eq split: if_splits)
qed (use st in \<open>simp add: create_main_def\<close>)

interpretation create: program create_step "cr_inv r" "spawn_left cr_left" for r
proof
  fix s t s' assume inv: "cr_inv r s" and st: "create_step t s = Some s'"
  have "cr_inv r s' \<and> spawn_left cr_left s' < spawn_left cr_left s"
  proof (cases t)
    case 0
    then show ?thesis using create_main_ok [OF inv] st by (simp add: create_step_def sp_step_def split: if_splits)
  next
    case (Suc i)
    then have "hello_thread i s = Some s'" using st by (simp add: create_step_def sp_step_def split: if_splits)
    then show ?thesis using hello_cr_inv [OF inv] hello_left by blast
  qed
  then show "cr_inv r s'" "spawn_left cr_left s' < spawn_left cr_left s" by simp_all
qed

lemma create_init: "length g = SPAWN_THREADS \<Longrightarrow> cr_inv r (spawn_init g r)"
  by (simp add: cr_inv_def spawn_init_def announced_nil)

lemma create_stopped:
  assumes inv: "cr_inv r s" and st: "stopped create_step s"
  shows "\<exists>ok. sp_main s = SP_exit ok"
proof (cases "sp_main s")
  case (SP_print k)
  moreover have "create_step 0 s = None" using st by (simp add: stopped_def)
  ultimately show ?thesis by (simp add: create_step_def sp_step_def create_main_def sp_ended_def)
next
  case (SP_create k)
  moreover have "create_step 0 s = None" using st by (simp add: stopped_def)
  ultimately show ?thesis by (simp add: create_step_def sp_step_def create_main_def sp_ended_def)
next
  case (SP_join k)
  have m: "create_step 0 s = None" "create_step (Suc k) s = None" using st by (simp_all add: stopped_def)
  have k: "k < SPAWN_THREADS" "sp_thr s ! k \<noteq> H_done"
    using m(1) SP_join by (auto simp: create_step_def sp_step_def create_main_def sp_ended_def split: if_splits)
  then have "sp_thr s ! k = H_run" "k < length (sp_thr s)" using inv SP_join by (cases "sp_thr s ! k"; simp add: cr_inv_def)+
  then show ?thesis using m(2) SP_join by (simp add: create_step_def sp_step_def hello_thread_def sp_ended_def)
qed auto

text \<open>C31: However the twenty threads are scheduled, \<open>pthread_create\<close> ends after at most 82 actions: with
  \<open>EXIT_SUCCESS\<close> exactly when no creation was refused, and then each thread has said hello once with its own number,
  after its creation was announced, and the announcements are in order.\<close>

theorem pthread_create_correct:
  assumes "run create_step ts (spawn_init g refuse) = Some s" "length g = SPAWN_THREADS"
  shows "length ts \<le> 82 \<and> (stopped create_step s \<longrightarrow>
    (\<exists>ok. sp_main s = SP_exit ok \<and> ok = (True \<notin> set (take SPAWN_THREADS refuse)) \<and> announced (sp_out s) \<and>
      (ok \<longrightarrow> created (sp_out s) = upto_int SPAWN_THREADS \<and> mset (hellos (sp_out s)) = mset (upto_int SPAWN_THREADS))))"
proof -
  have R: "cr_inv refuse s" "length ts + spawn_left cr_left s \<le> spawn_left cr_left (spawn_init g refuse)"
    using create.run_ok [OF create_init [OF assms(2)] assms(1)] by simp_all
  have "spawn_left cr_left (spawn_init g refuse) = 82" by (simp add: spawn_left_def spawn_init_def SPAWN_THREADS_def)
  with R(2) have n: "length ts \<le> 82" by linarith
  have "\<exists>ok. sp_main s = SP_exit ok \<and> ok = (True \<notin> set (take SPAWN_THREADS refuse)) \<and> announced (sp_out s) \<and>
      (ok \<longrightarrow> created (sp_out s) = upto_int SPAWN_THREADS \<and> mset (hellos (sp_out s)) = mset (upto_int SPAWN_THREADS))"
    if st: "stopped create_step s"
  proof -
    obtain ok where ok: "sp_main s = SP_exit ok" using create_stopped [OF R(1) st] by blast
    have "mset (hellos (sp_out s)) = mset (upto_int SPAWN_THREADS)" if "ok"
    proof (rule set_eq_iff_mset_eq_distinct [THEN iffD1])
      show "distinct (hellos (sp_out s))" using R(1) by (simp add: cr_inv_def)
      show "distinct (upto_int SPAWN_THREADS)" by (simp add: distinct_map)
      show "set (hellos (sp_out s)) = set (upto_int SPAWN_THREADS)" using R(1) ok that by (auto simp: cr_inv_def)
    qed
    then show ?thesis using R(1) ok by (auto simp: cr_inv_def split: if_splits)
  qed
  with n show ?thesis by blast
qed

lemma pthread_create_correct_witness:
  "\<exists>ts s. run create_step ts (spawn_init (replicate 20 7) []) = Some s \<and> length ts \<le> 82 \<and> sp_main s = SP_exit True"
proof -
  have g: "length (replicate 20 (7 :: int)) = SPAWN_THREADS" by (simp add: SPAWN_THREADS_def)
  obtain ts s where r: "run create_step ts (spawn_init (replicate 20 7) []) = Some s" "stopped create_step s"
    using create.run_stops [OF create_init [OF g]] by blast
  from pthread_create_correct [OF r(1) g] r show ?thesis by (intro exI [of _ ts] exI [of _ s]) auto
qed

section \<open>One after the other\<close>

definition greetings :: "nat \<Rightarrow> sp_line list" where
  "greetings k = concat (map (\<lambda>i. [Creating (int i), Hello (int i)]) [0..<k])"

lemma greetings_Suc: "greetings (Suc k) = greetings k @ [Creating (int k), Hello (int k)]"
  by (simp add: greetings_def)

definition joined :: "nat \<Rightarrow> spawn \<Rightarrow> bool" where
  \<comment> \<open>The threads before \<open>k\<close> are done, the others are not there yet.\<close>
  "joined k s \<longleftrightarrow> (\<forall>i<SPAWN_THREADS. sp_thr s ! i = (if i < k then H_done else H_new))"

fun jn_main_ok :: "bool list \<Rightarrow> sp_pc \<Rightarrow> spawn \<Rightarrow> bool" where
  "jn_main_ok r (SP_print k) s = (k \<le> SPAWN_THREADS \<and> joined k s \<and> sp_out s = greetings k \<and>
     sp_refuse s = drop k r \<and> True \<notin> set (take k r))"
| "jn_main_ok r (SP_create k) s = (k < SPAWN_THREADS \<and> joined k s \<and> sp_out s = greetings k @ [Creating (int k)] \<and>
     sp_cnt s ! k = int k \<and> sp_refuse s = drop k r \<and> True \<notin> set (take k r))"
| "jn_main_ok r (SP_join k) s = (k < SPAWN_THREADS \<and> sp_cnt s ! k = int k \<and> sp_refuse s = drop (Suc k) r \<and> True \<notin> set (take (Suc k) r) \<and>
     (sp_thr s ! k = H_run \<and> (\<forall>i<SPAWN_THREADS. i \<noteq> k \<longrightarrow> sp_thr s ! i = (if i < k then H_done else H_new)) \<and> sp_out s = greetings k @ [Creating (int k)] \<or>
      joined (Suc k) s \<and> sp_out s = greetings (Suc k)))"
| "jn_main_ok r (SP_exit ok) s =
     (if ok then sp_out s = greetings SPAWN_THREADS \<and> True \<notin> set (take SPAWN_THREADS r)
      else (\<exists>k<SPAWN_THREADS. sp_out s = greetings k @ [Creating (int k)] \<and> True \<notin> set (take k r) \<and> k < length r \<and> r ! k))"

definition jn_inv :: "bool list \<Rightarrow> spawn \<Rightarrow> bool" where
  "jn_inv r s \<longleftrightarrow> length (sp_thr s) = SPAWN_THREADS \<and> length (sp_cnt s) = SPAWN_THREADS \<and> jn_main_ok r (sp_main s) s"

fun jn_left :: "sp_pc \<Rightarrow> nat" where
  "jn_left (SP_print k) = 3 * (SPAWN_THREADS - k) + 1"
| "jn_left (SP_create k) = 3 * (SPAWN_THREADS - k)"
| "jn_left (SP_join k) = 3 * (SPAWN_THREADS - k) - 1"
| "jn_left (SP_exit ok) = 0"

lemma hello_jn_inv:
  assumes inv: "jn_inv r s" and st: "hello_thread i s = Some s'" and run: "\<not> sp_ended (sp_main s)"
  shows "jn_inv r s'"
proof -
  have i: "i < SPAWN_THREADS" "sp_thr s ! i = H_run" "i < length (sp_thr s)"
    and s': "s' = s\<lparr>sp_out := sp_out s @ [Hello (sp_cnt s ! i)], sp_thr := (sp_thr s)[i := H_done]\<rparr>"
    using inv st by (auto simp: hello_thread_def jn_inv_def split: if_splits)
  obtain k where k: "sp_main s = SP_join k"
    using inv i run by (cases "sp_main s") (auto simp: jn_inv_def joined_def sp_ended_def split: if_splits)
  have "i = k"
  proof (rule ccontr)
    assume "i \<noteq> k"
    with inv k i show False by (auto simp: jn_inv_def joined_def split: if_splits)
  qed
  then have "sp_thr s ! k = H_run" "sp_out s = greetings k @ [Creating (int k)]"
      "\<forall>i<SPAWN_THREADS. i \<noteq> k \<longrightarrow> sp_thr s ! i = (if i < k then H_done else H_new)"
    using inv i k by (auto simp: jn_inv_def joined_def)
  then show ?thesis using inv i k \<open>i = k\<close> unfolding s' jn_inv_def
    by (auto simp: joined_def nth_list_update greetings_Suc less_Suc_eq)
qed

lemma join_main_ok:
  assumes inv: "jn_inv r s" and st: "join_main s = Some s'"
  shows "jn_inv r s' \<and> spawn_left jn_left s' < spawn_left jn_left s"
proof (cases "sp_main s")
  case (SP_print k)
  then show ?thesis using inv st
    by (auto simp: join_main_def jn_inv_def spawn_left_def joined_def split: if_splits)
next
  case (SP_create k)
  have k: "k < SPAWN_THREADS" "sp_refuse s = drop k r" "True \<notin> set (take k r)" "joined k s"
    using inv SP_create by (simp_all add: jn_inv_def)
  have s': "s' = sp_start k (SP_join k) s" using st SP_create by (simp add: join_main_def)
  have "SPAWN_THREADS - k > 0" using k(1) by simp
  then have l: "spawn_left jn_left s' < spawn_left jn_left s" unfolding s'
    by (intro start_left) (use k inv SP_create in \<open>auto simp: jn_inv_def joined_def\<close>)
  show ?thesis
  proof (cases "k < length r \<and> r ! k")
    case True
    then have "s' = s\<lparr>sp_refuse := drop (Suc k) r, sp_main := SP_exit False\<rparr>"
      using refused_drop [of k r] k(2) unfolding s' by (simp add: sp_start_def Let_def drop_Suc tl_drop)
    then show ?thesis using inv SP_create True l by (auto simp: jn_inv_def)
  next
    case False
    then have e: "s' = s\<lparr>sp_refuse := drop (Suc k) r, sp_thr := (sp_thr s)[k := H_run], sp_main := SP_join k\<rparr>"
      using refused_drop [of k r] k(2) unfolding s' by (auto simp: sp_start_def Let_def drop_Suc tl_drop)
    have "True \<notin> set (take (Suc k) r)" using False k(3) refused_take [of k r] by blast
    then have "jn_inv r s'" using inv SP_create k unfolding e jn_inv_def by (simp add: joined_def nth_list_update)
    then show ?thesis using l by simp
  qed
next
  case (SP_join k)
  then have "joined (Suc k) s" "sp_out s = greetings (Suc k)" "s' = s\<lparr>sp_main := SP_print (k + 1)\<rparr>" "k < SPAWN_THREADS"
    using inv st by (auto simp: join_main_def jn_inv_def split: if_splits)
  moreover from this have "joined (Suc k) s'" by (simp add: joined_def)
  ultimately show ?thesis using inv SP_join by (auto simp: jn_inv_def spawn_left_def)
qed (use st in \<open>simp add: join_main_def\<close>)

interpretation join: program join_step "jn_inv r" "spawn_left jn_left" for r
proof
  fix s t s' assume inv: "jn_inv r s" and st: "join_step t s = Some s'"
  have run: "\<not> sp_ended (sp_main s)" using st by (simp add: join_step_def sp_step_def split: if_splits)
  have "jn_inv r s' \<and> spawn_left jn_left s' < spawn_left jn_left s"
  proof (cases t)
    case 0
    then show ?thesis using join_main_ok [OF inv] st run by (simp add: join_step_def sp_step_def)
  next
    case (Suc i)
    then have "hello_thread i s = Some s'" using st run by (simp add: join_step_def sp_step_def)
    then show ?thesis using hello_jn_inv [OF inv _ run] hello_left by blast
  qed
  then show "jn_inv r s'" "spawn_left jn_left s' < spawn_left jn_left s" by simp_all
qed

lemma join_init: "length g = SPAWN_THREADS \<Longrightarrow> jn_inv r (spawn_init g r)"
  by (simp add: jn_inv_def spawn_init_def joined_def greetings_def)

lemma join_stopped:
  assumes inv: "jn_inv r s" and st: "stopped join_step s"
  shows "\<exists>ok. sp_main s = SP_exit ok"
proof (cases "sp_main s")
  case (SP_join k)
  have m: "join_step 0 s = None" "join_step (Suc k) s = None" using st by (simp_all add: stopped_def)
  have "sp_thr s ! k \<noteq> H_done" using m(1) SP_join by (auto simp: join_step_def sp_step_def join_main_def sp_ended_def split: if_splits)
  then have "sp_thr s ! k = H_run" "k < length (sp_thr s)" using inv SP_join by (auto simp: jn_inv_def joined_def)
  then show ?thesis using m(2) SP_join by (simp add: join_step_def sp_step_def hello_thread_def sp_ended_def)
next
  case (SP_print k)
  moreover have "join_step 0 s = None" using st by (simp add: stopped_def)
  ultimately show ?thesis by (simp add: join_step_def sp_step_def join_main_def sp_ended_def)
next
  case (SP_create k)
  moreover have "join_step 0 s = None" using st by (simp add: stopped_def)
  ultimately show ?thesis by (simp add: join_step_def sp_step_def join_main_def sp_ended_def)
qed auto

text \<open>\<open>pthread_join\<close> prints the same under every schedule: the announcement and the greeting of each thread in turn,
  up to the first creation that is refused.\<close>

theorem pthread_join_sequential:
  assumes "run join_step ts (spawn_init g refuse) = Some s" "length g = SPAWN_THREADS" "stopped join_step s"
  shows "sp_main s = SP_exit True \<and> True \<notin> set (take SPAWN_THREADS refuse) \<and> sp_out s = greetings SPAWN_THREADS \<or>
    (\<exists>k<SPAWN_THREADS. sp_main s = SP_exit False \<and> True \<notin> set (take k refuse) \<and> k < length refuse \<and> refuse ! k \<and>
       sp_out s = greetings k @ [Creating (int k)])"
proof -
  have inv: "jn_inv refuse s" using join.run_ok [OF join_init [OF assms(2)] assms(1)] by simp
  obtain ok where "sp_main s = SP_exit ok" using join_stopped [OF inv assms(3)] by blast
  with inv show ?thesis by (cases ok) (auto simp: jn_inv_def)
qed

lemma pthread_join_sequential_witness:
  "\<exists>ts s. run join_step ts (spawn_init (replicate 20 7) [False, True]) = Some s \<and>
     sp_out s = [Creating 0, Hello 0, Creating 1] \<and> sp_main s = SP_exit False"
proof -
  have g: "length (replicate 20 (7 :: int)) = SPAWN_THREADS" by (simp add: SPAWN_THREADS_def)
  obtain ts s where r: "run join_step ts (spawn_init (replicate 20 7) [False, True]) = Some s" "stopped join_step s"
    using join.run_stops [OF join_init [OF g]] by blast
  from pthread_join_sequential [OF r(1) g r(2)] have
    "\<exists>k<SPAWN_THREADS. sp_main s = SP_exit False \<and> k < 2 \<and> [False, True] ! k \<and> sp_out s = greetings k @ [Creating (int k)]"
    by (auto simp: SPAWN_THREADS_def)
  then obtain k where "sp_main s = SP_exit False" "k = 1" "sp_out s = greetings k @ [Creating (int k)]"
    by (auto simp: less_2_cases_iff)
  with r(1) show ?thesis by (intro exI [of _ ts] exI [of _ s]) (simp add: greetings_def)
qed

section \<open>Processes\<close>

text \<open>
  Process 0 is the parent, process \<open>i + 1\<close> the child of its \<open>i\<close>-th \<open>fork\<close>, whose \<open>getpid\<close> is \<open>pid i\<close>. A child that has
  ended stays until a \<open>wait\<close> of its parent takes it; \<open>wait\<close> takes any of them, here the one with the least number, and
  returns at once when there is no child.
\<close>

definition NUM_CHILDS :: nat where "NUM_CHILDS = 5"

datatype fk_pc = FK_fork nat | FK_wait nat | FK_exit bool

datatype child_pc = Ch_none | Ch_print | Ch_zombie | Ch_gone

record forks =
  fk_parent :: fk_pc
  fk_child :: "child_pc list"
  fk_refuse :: "bool list"
  fk_out :: "(nat \<times> int) list"

definition forks_init :: "bool list \<Rightarrow> forks" where
  "forks_init refuse = \<lparr>fk_parent = FK_fork 0, fk_child = replicate NUM_CHILDS Ch_none, fk_refuse = refuse, fk_out = []\<rparr>"

definition fk_wait :: "child_pc list \<Rightarrow> child_pc list option" where
  \<comment> \<open>The children after a \<open>wait\<close>; \<open>None\<close> while it blocks.\<close>
  "fk_wait cs =
     (case List.find (\<lambda>i. cs ! i = Ch_zombie) [0..<length cs] of
        Some i \<Rightarrow> Some (cs[i := Ch_gone])
      | None \<Rightarrow> if Ch_print \<in> set cs then None else Some cs)"

definition fk_step :: "(nat \<Rightarrow> int) \<Rightarrow> nat \<Rightarrow> forks \<Rightarrow> forks option" where
  \<comment> \<open>The parent goes on in its loop after \<open>wait\<close>; a child prints, leaves the loop and ends.\<close>
  "fk_step pid t s =
     (case t of
        0 \<Rightarrow>
          (case fk_parent s of
             FK_fork i \<Rightarrow>
               Some (if i < NUM_CHILDS
                     then let s1 = s\<lparr>fk_refuse := tl (fk_refuse s)\<rparr> in
                          if fk_refuse s \<noteq> [] \<and> hd (fk_refuse s) then s1\<lparr>fk_parent := FK_exit False\<rparr>
                          else s1\<lparr>fk_child := (fk_child s)[i := Ch_print], fk_parent := FK_wait i\<rparr>
                     else s\<lparr>fk_parent := FK_exit True\<rparr>)
           | FK_wait i \<Rightarrow> do { cs \<leftarrow> fk_wait (fk_child s); Some (s\<lparr>fk_child := cs, fk_parent := FK_fork (i + 1)\<rparr>) }
           | FK_exit ok \<Rightarrow> None)
      | Suc i \<Rightarrow>
          (if i < length (fk_child s) \<and> fk_child s ! i = Ch_print
           then Some (s\<lparr>fk_out := fk_out s @ [(i, pid i)], fk_child := (fk_child s)[i := Ch_zombie]\<rparr>)
           else None))"

definition gone :: "nat \<Rightarrow> child_pc list \<Rightarrow> bool" where
  "gone k cs \<longleftrightarrow> cs = replicate k Ch_gone @ replicate (NUM_CHILDS - k) Ch_none"

definition fk_lines :: "(nat \<Rightarrow> int) \<Rightarrow> nat \<Rightarrow> (nat \<times> int) list" where
  "fk_lines pid k = map (\<lambda>i. (i, pid i)) [0..<k]"

fun fk_ok :: "(nat \<Rightarrow> int) \<Rightarrow> bool list \<Rightarrow> fk_pc \<Rightarrow> forks \<Rightarrow> bool" where
  "fk_ok pid r (FK_fork k) s = (k \<le> NUM_CHILDS \<and> gone k (fk_child s) \<and> fk_out s = fk_lines pid k \<and>
     fk_refuse s = drop k r \<and> True \<notin> set (take k r))"
| "fk_ok pid r (FK_wait k) s = (k < NUM_CHILDS \<and> fk_refuse s = drop (Suc k) r \<and> True \<notin> set (take (Suc k) r) \<and>
     (fk_child s = replicate k Ch_gone @ Ch_print # replicate (NUM_CHILDS - Suc k) Ch_none \<and> fk_out s = fk_lines pid k \<or>
      fk_child s = replicate k Ch_gone @ Ch_zombie # replicate (NUM_CHILDS - Suc k) Ch_none \<and> fk_out s = fk_lines pid (Suc k)))"
| "fk_ok pid r (FK_exit ok) s = (\<exists>k\<le>NUM_CHILDS. gone k (fk_child s) \<and> fk_out s = fk_lines pid k \<and> True \<notin> set (take k r) \<and>
     (if ok then k = NUM_CHILDS else k < length r \<and> r ! k))"

definition fk_left :: "forks \<Rightarrow> nat" where
  "fk_left s = (case fk_parent s of
      FK_fork k \<Rightarrow> 3 * (NUM_CHILDS - k) + 1
    | FK_wait k \<Rightarrow> 3 * (NUM_CHILDS - Suc k) + 2 + of_bool (Ch_print \<in> set (fk_child s))
    | FK_exit ok \<Rightarrow> 0)"

lemma replicate_find:
  "List.find (\<lambda>i. (replicate k Ch_gone @ c # replicate n Ch_none) ! i = Ch_zombie) [0..<Suc (k + n)] =
    (if c = Ch_zombie then Some k else None)"
proof (cases "c = Ch_zombie")
  case True
  have "List.find (\<lambda>i. (replicate k Ch_gone @ c # replicate n Ch_none) ! i = Ch_zombie) [0..<Suc (k + n)] = Some k"
    unfolding find_Some_iff
  proof (intro exI [of _ k] conjI allI impI)
    show "(replicate k Ch_gone @ c # replicate n Ch_none) ! ([0..<Suc (k + n)] ! k) = Ch_zombie"
      using True by (simp add: nth_append del: upt_Suc)
    show "k = [0..<Suc (k + n)] ! k" by (simp del: upt_Suc)
    fix j assume "j < k"
    then show "(replicate k Ch_gone @ c # replicate n Ch_none) ! ([0..<Suc (k + n)] ! j) \<noteq> Ch_zombie"
      by (simp add: nth_append del: upt_Suc)
  qed simp
  with True show ?thesis by simp
next
  case False
  let ?cs = "replicate k Ch_gone @ c # replicate n Ch_none"
  have "?cs ! i \<noteq> Ch_zombie" if "i < Suc (k + n)" for i
  proof -
    have "?cs ! i \<in> set ?cs" using that by (intro nth_mem) simp
    then show ?thesis using False by (auto split: if_splits)
  qed
  then have "List.find (\<lambda>i. ?cs ! i = Ch_zombie) [0..<Suc (k + n)] = None"
    unfolding find_None_iff set_upt by simp
  then show ?thesis using False by simp
qed

lemma fk_step_ok:
  assumes inv: "fk_ok pid r (fk_parent s) s" and st: "fk_step pid t s = Some s'"
  shows "fk_ok pid r (fk_parent s') s' \<and> fk_left s' < fk_left s"
proof (cases "fk_parent s")
  case (FK_fork k)
  then have k: "k \<le> NUM_CHILDS" "gone k (fk_child s)" "fk_out s = fk_lines pid k" "fk_refuse s = drop k r" "True \<notin> set (take k r)"
    using inv by simp_all
  have t: "t = 0"
  proof (rule ccontr)
    assume "t \<noteq> 0"
    then obtain i where "i < length (fk_child s)" "fk_child s ! i = Ch_print" using st by (cases t) (auto simp: fk_step_def split: if_splits)
    then show False using k(2) by (auto simp: gone_def nth_append split: if_splits)
  qed
  show ?thesis
  proof (cases "k < NUM_CHILDS")
    case False
    then have "s' = s\<lparr>fk_parent := FK_exit True\<rparr>" "k = NUM_CHILDS" using st t FK_fork k(1) by (auto simp: fk_step_def)
    then show ?thesis using k FK_fork by (auto simp: fk_left_def)
  next
    case True
    show ?thesis
    proof (cases "k < length r \<and> r ! k")
      case r: True
      then have "s' = s\<lparr>fk_refuse := tl (fk_refuse s), fk_parent := FK_exit False\<rparr>"
        using st t FK_fork True k(4) refused_drop [of k r] by (simp add: fk_step_def Let_def)
      then show ?thesis using k FK_fork r by (auto simp: fk_left_def)
    next
      case r: False
      then have s': "s' = s\<lparr>fk_refuse := drop (Suc k) r, fk_child := (fk_child s)[k := Ch_print], fk_parent := FK_wait k\<rparr>"
        using st t FK_fork True k(4) refused_drop [of k r] by (auto simp: fk_step_def Let_def drop_Suc tl_drop)
      obtain n where n: "NUM_CHILDS - k = Suc n" using True by (cases "NUM_CHILDS - k") auto
      have "(fk_child s)[k := Ch_print] = replicate k Ch_gone @ Ch_print # replicate (NUM_CHILDS - Suc k) Ch_none"
        using k(2) n by (auto simp: gone_def list_update_append)
      moreover have "NUM_CHILDS - Suc k < NUM_CHILDS - k" using True by linarith
      ultimately show ?thesis using k True r refused_take [of k r] FK_fork n unfolding s' by (auto simp: fk_left_def)
    qed
  qed
next
  case (FK_wait k)
  then have k: "k < NUM_CHILDS" "fk_refuse s = drop (Suc k) r" "True \<notin> set (take (Suc k) r)" using inv by simp_all
  obtain c where c: "fk_child s = replicate k Ch_gone @ c # replicate (NUM_CHILDS - Suc k) Ch_none"
    "c = Ch_print \<and> fk_out s = fk_lines pid k \<or> c = Ch_zombie \<and> fk_out s = fk_lines pid (Suc k)" using inv FK_wait by auto
  have len: "length (fk_child s) = Suc (k + (NUM_CHILDS - Suc k))" using c(1) k(1) by simp
  have f: "List.find (\<lambda>i. fk_child s ! i = Ch_zombie) [0..<length (fk_child s)] = (if c = Ch_zombie then Some k else None)"
    unfolding len unfolding c(1) by (rule replicate_find)
  show ?thesis
  proof (cases t)
    case 0
    then have z: "c = Ch_zombie" using st FK_wait f c by (auto simp: fk_step_def fk_wait_def split: bind_splits if_splits)
    have "(fk_child s)[k := Ch_gone] = replicate (Suc k) Ch_gone @ replicate (NUM_CHILDS - Suc k) Ch_none"
      unfolding c(1) by (simp add: list_update_append replicate_append_same)
    moreover have "s' = s\<lparr>fk_child := (fk_child s)[k := Ch_gone], fk_parent := FK_fork (k + 1)\<rparr>"
      using st 0 FK_wait f z by (simp add: fk_step_def fk_wait_def)
    ultimately show ?thesis using k c(2) z FK_wait by (auto simp: gone_def fk_left_def)
  next
    case (Suc i)
    then have i: "i < length (fk_child s)" "fk_child s ! i = Ch_print" using st by (auto simp: fk_step_def split: if_splits)
    then have "i = k" "c = Ch_print" using c by (auto simp: nth_append nth_Cons' split: if_splits)
    moreover from this have "(fk_child s)[k := Ch_zombie] = replicate k Ch_gone @ Ch_zombie # replicate (NUM_CHILDS - Suc k) Ch_none"
      using c(1) by (simp add: list_update_append)
    moreover have "s' = s\<lparr>fk_out := fk_out s @ [(i, pid i)], fk_child := (fk_child s)[i := Ch_zombie]\<rparr>"
      using st Suc i by (simp add: fk_step_def)
    ultimately show ?thesis using k c FK_wait by (auto simp: fk_lines_def fk_left_def)
  qed
next
  case (FK_exit ok)
  then obtain k where k: "gone k (fk_child s)" using inv by auto
  obtain i where "i < length (fk_child s)" "fk_child s ! i = Ch_print" using st FK_exit
    by (cases t) (auto simp: fk_step_def split: if_splits)
  then show ?thesis using k by (auto simp: gone_def nth_append split: if_splits)
qed

interpretation forks: program "fk_step pid" "\<lambda>s. fk_ok pid r (fk_parent s) s" fk_left for pid r
  by unfold_locales (use fk_step_ok in blast)+

lemma forks_init_ok: "fk_ok pid r (fk_parent (forks_init r)) (forks_init r)"
  by (simp add: forks_init_def gone_def fk_lines_def)

lemma forks_stopped:
  assumes inv: "fk_ok pid r (fk_parent s) s" and st: "stopped (fk_step pid) s"
  shows "\<exists>ok. fk_parent s = FK_exit ok"
proof (cases "fk_parent s")
  case (FK_fork k)
  moreover have "fk_step pid 0 s = None" using st by (simp add: stopped_def)
  ultimately show ?thesis by (simp add: fk_step_def)
next
  case (FK_wait k)
  have m: "fk_step pid 0 s = None" "fk_step pid (Suc k) s = None" using st by (simp_all add: stopped_def)
  obtain c where c: "fk_child s = replicate k Ch_gone @ c # replicate (NUM_CHILDS - Suc k) Ch_none" "c = Ch_print \<or> c = Ch_zombie"
    using inv FK_wait by auto
  then have "fk_child s ! k = c" "k < length (fk_child s)" by (simp_all add: nth_append)
  then have "c = Ch_zombie" using m(2) c(2) by (auto simp: fk_step_def)
  then have "List.find (\<lambda>i. fk_child s ! i = Ch_zombie) [0..<length (fk_child s)] = Some k"
    using replicate_find [of k c "NUM_CHILDS - Suc k"] c(1) by simp
  then show ?thesis using m(1) FK_wait by (simp add: fk_step_def fk_wait_def)
qed auto

text \<open>However the parent and its children are scheduled, \<open>fork_mult\<close> ends after at most sixteen actions: each child
  that was made has printed its line, in the order in which they were made, and has been waited for, and no child has
  made children of its own; the parent fails only when a \<open>fork\<close> was refused.\<close>

theorem fork_mult_sequential:
  assumes "run (fk_step pid) ts (forks_init refuse) = Some s"
  shows "length ts \<le> 16 \<and> (stopped (fk_step pid) s \<longrightarrow>
    (\<exists>k\<le>NUM_CHILDS. fk_out s = map (\<lambda>i. (i, pid i)) [0..<k] \<and> Ch_print \<notin> set (fk_child s) \<and> Ch_zombie \<notin> set (fk_child s) \<and>
       (k = NUM_CHILDS \<and> fk_parent s = FK_exit True \<or> k < length refuse \<and> refuse ! k \<and> fk_parent s = FK_exit False)))"
proof -
  have R: "fk_ok pid refuse (fk_parent s) s" "length ts + fk_left s \<le> fk_left (forks_init refuse)"
    using forks.run_ok [OF forks_init_ok assms] by simp_all
  have "fk_left (forks_init refuse) = 16" by (simp add: fk_left_def forks_init_def NUM_CHILDS_def)
  with R(2) have n: "length ts \<le> 16" by linarith
  have "\<exists>k\<le>NUM_CHILDS. fk_out s = map (\<lambda>i. (i, pid i)) [0..<k] \<and> Ch_print \<notin> set (fk_child s) \<and> Ch_zombie \<notin> set (fk_child s) \<and>
       (k = NUM_CHILDS \<and> fk_parent s = FK_exit True \<or> k < length refuse \<and> refuse ! k \<and> fk_parent s = FK_exit False)"
    if st: "stopped (fk_step pid) s"
  proof -
    obtain ok where ok: "fk_parent s = FK_exit ok" using forks_stopped [OF R(1) st] by blast
    then obtain k where k: "k \<le> NUM_CHILDS" "gone k (fk_child s)" "fk_out s = fk_lines pid k"
      "if ok then k = NUM_CHILDS else k < length refuse \<and> refuse ! k" using R(1) by auto
    then show ?thesis using ok by (intro exI [of _ k]) (auto simp: gone_def fk_lines_def split: if_splits)
  qed
  with n show ?thesis by blast
qed

lemma fork_mult_sequential_witness:
  "\<exists>ts s. run (fk_step (\<lambda>i. 100 + int i)) ts (forks_init []) = Some s \<and>
     fk_out s = [(0, 100), (1, 101), (2, 102), (3, 103), (4, 104)] \<and> fk_parent s = FK_exit True"
proof -
  obtain ts s where r: "run (fk_step (\<lambda>i. 100 + int i)) ts (forks_init []) = Some s" "stopped (fk_step (\<lambda>i. 100 + int i)) s"
    using forks.run_stops [OF forks_init_ok] by blast
  from fork_mult_sequential [OF r(1)] r(2) have
    "fk_out s = map (\<lambda>i. (i, 100 + int i)) [0..<NUM_CHILDS]" "fk_parent s = FK_exit True" by auto
  with r(1) show ?thesis by (intro exI [of _ ts] exI [of _ s]) (simp add: NUM_CHILDS_def upt_rec)
qed

end
