(* ===== verification/Hexdump.thy ===== *)
theory Hexdump imports Prelude begin

text \<open>
  The program \<open>fileops/hexdump.c\<close>: it prints the bytes of a file in hexadecimal, twenty on a line, with
  their offset in front and their characters behind. The functions below translate its loops; what
  they print is then given in closed form, and a decoder reads the bytes back.
\<close>

section \<open>The program\<close>

definition BUFSIZE :: nat where "BUFSIZE = 20"

definition INT_MAX :: int where "INT_MAX = 2 ^ 31 - 1"

definition isspace :: "char \<Rightarrow> bool" where
  "isspace c \<longleftrightarrow> c = CHR '' '' \<or> (9 \<le> (of_char c :: nat) \<and> (of_char c :: nat) \<le> 13)"

definition isdigit :: "char \<Rightarrow> bool" where
  "isdigit c \<longleftrightarrow> 48 \<le> (of_char c :: nat) \<and> (of_char c :: nat) \<le> 57"

definition atoi :: "string \<Rightarrow> int option" where
  \<comment> \<open>The C library's: blanks, a sign, digits. A value that is not an \<open>int\<close> is undefined.\<close>
  "atoi s =
     (let s1 = dropWhile isspace s;
          neg = (s1 \<noteq> [] \<and> hd s1 = CHR ''-'');
          s2 = (if s1 \<noteq> [] \<and> (hd s1 = CHR ''-'' \<or> hd s1 = CHR ''+'') then tl s1 else s1);
          v = foldl (\<lambda>a c. 10 * a + (of_char c - 48)) 0 (takeWhile isdigit s2);
          n = (if neg then - v else v)
      in if - INT_MAX - 1 \<le> n \<and> n \<le> INT_MAX then Some n else None)"

record hex_args =
  ha_caps :: bool
  ha_len :: int
  ha_skip :: int
  ha_fpath :: "string option"

fun hex_options :: "(char \<times> string) list \<Rightarrow> hex_args \<Rightarrow> hex_args option option" where
  \<comment> \<open>The options as \<open>getopt\<close> returns them, with their arguments. \<open>Some None\<close> is the exit in \<open>dieu\<close>.\<close>
  "hex_options [] a = Some (Some a)"
| "hex_options ((opt, optarg) # os) a =
     (if opt = CHR ''C'' then hex_options os (a\<lparr>ha_caps := True\<rparr>)
      else if opt = CHR ''n'' then do { v \<leftarrow> atoi optarg; hex_options os (a\<lparr>ha_len := v\<rparr>) }
      else if opt = CHR ''s'' then do { v \<leftarrow> atoi optarg; hex_options os (a\<lparr>ha_skip := v\<rparr>) }
      else if opt = CHR ''f'' then hex_options os (a\<lparr>ha_fpath := Some optarg\<rparr>)
      else Some None)"

definition hex_digit :: "bool \<Rightarrow> nat \<Rightarrow> char" where
  "hex_digit caps d = (if caps then ''0123456789ABCDEF'' else ''0123456789abcdef'') ! d"

fun hex_digits :: "bool \<Rightarrow> nat \<Rightarrow> string" where
  "hex_digits caps n =
     (if n < 16 then [hex_digit caps n] else hex_digits caps (n div 16) @ [hex_digit caps (n mod 16)])"

declare hex_digits.simps [simp del]

definition hex_pad :: "nat \<Rightarrow> bool \<Rightarrow> nat \<Rightarrow> string" where
  \<comment> \<open>\<open>%0<w>x\<close>, or \<open>%0<w>X\<close>.\<close>
  "hex_pad w caps n = (let s = hex_digits caps n in replicate (w - length s) (CHR ''0'') @ s)"

function hex_bytes :: "bool \<Rightarrow> int \<Rightarrow> 8 word list \<Rightarrow> nat \<Rightarrow> nat \<Rightarrow> int \<Rightarrow> (string \<times> nat \<times> int) option" where
  \<comment> \<open>The loop over \<open>i\<close>: what is printed, and the values of \<open>i\<close> and \<open>totalbytes\<close> after it.\<close>
  "hex_bytes caps len buf readbytes i tot =
     (if i < readbytes \<and> (tot < len \<or> len = -1) then
        if i < length buf \<and> tot < INT_MAX then
          do { (out, i', tot') \<leftarrow> hex_bytes caps len buf readbytes (i + 1) (tot + 1);
               Some (hex_pad 2 caps (unat (buf ! i)) @ '' '' @ (if i = BUFSIZE div 2 - 1 then '' '' else '''') @ out,
                 i', tot') }
        else None
      else Some ('''', i, tot))"
  by pat_completeness auto

termination
  by (relation "measure (\<lambda>(_, _, _, readbytes, i, _). readbytes - i)") auto

declare hex_bytes.simps [simp del]

definition hex_blanks :: "nat \<Rightarrow> string" where
  \<comment> \<open>The loop over \<open>j\<close> that fills in the blanks.\<close>
  "hex_blanks i = concat (map (\<lambda>j. ''   '' @ (if j = BUFSIZE div 2 - 1 then '' '' else '''')) [0..<BUFSIZE - i])"

definition hex_char :: "8 word \<Rightarrow> string" where
  "hex_char b = (if b \<ge> 32 \<and> b \<le> 127 then [char_of (unat b)] else ''.'')"

definition hex_chars :: "8 word list \<Rightarrow> nat \<Rightarrow> string" where
  "hex_chars buf i = concat (map (\<lambda>j. hex_char (buf ! j)) [0..<i])"

function hex_loop :: "bool \<Rightarrow> int \<Rightarrow> int \<Rightarrow> 8 word list \<Rightarrow> bool \<Rightarrow> int \<Rightarrow> int \<Rightarrow> string option" where
  \<comment> \<open>The loop over the file, of which \<open>inp\<close> is still to be read; \<open>eof\<close> is \<open>feof(fp)\<close>.\<close>
  "hex_loop caps len skip inp eof cnt tot =
     (if \<not> eof \<and> (tot < len \<or> len = -1) then
        let chunk = take BUFSIZE inp; readbytes = length chunk;
            buf = chunk @ replicate (BUFSIZE - readbytes) 0;
            off = (of_int cnt :: 64 word) * of_nat BUFSIZE + of_int skip
        in do { (out, i, tot') \<leftarrow> hex_bytes caps len buf readbytes 0 tot;
                if cnt < INT_MAX then do {
                  rest \<leftarrow> hex_loop caps len skip (drop BUFSIZE inp) (readbytes < BUFSIZE) (cnt + 1) tot';
                  Some (hex_pad 8 caps (unat off) @ '' '' @ out @ hex_blanks i @ '' |'' @ hex_chars buf i @ ''|'' @
                    [CHR 0x0A] @ rest) }
                else None }
      else Some '''')"
  by pat_completeness auto

termination
  by (relation "measure (\<lambda>(_, _, _, inp, eof, _). if eof then 0 else Suc (length inp))")
    (auto simp: BUFSIZE_def split: if_splits)

declare hex_loop.simps [simp del]

definition hexdump_main :: "(char \<times> string) list \<Rightarrow> string list \<Rightarrow> (string \<Rightarrow> 8 word list option) \<Rightarrow> (bool \<times> string) option" where
  \<comment> \<open>\<open>main\<close>: whether it exits with \<open>EXIT_SUCCESS\<close>, and what it prints. \<open>rest\<close> are the arguments that are
      no options, \<open>files\<close> the files that can be opened; they are read without errors. \<open>fseek\<close> to a negative position fails
      and leaves the position where it was.\<close>
  "hexdump_main os rest files =
     do { r \<leftarrow> hex_options os \<lparr>ha_caps = False, ha_len = -1, ha_skip = 0, ha_fpath = None\<rparr>;
          case r of
            None \<Rightarrow> Some (False, '''')
          | Some a \<Rightarrow>
              if rest \<noteq> [] then Some (False, '''')
              else case ha_fpath a of
                None \<Rightarrow> Some (False, '''')
              | Some fpath \<Rightarrow>
                  (case files fpath of
                     None \<Rightarrow> Some (False, '''')
                   | Some dat \<Rightarrow>
                       do { out \<leftarrow> hex_loop (ha_caps a) (ha_len a) (ha_skip a) (drop (nat (ha_skip a)) dat) False 0 0;
                            Some (True, out) }) }"

section \<open>The bytes of one line\<close>

definition hex_field :: "bool \<Rightarrow> nat \<Rightarrow> 8 word \<Rightarrow> string" where
  "hex_field caps i b = hex_pad 2 caps (unat b) @ '' '' @ (if i = 9 then '' '' else '''')"

definition hex_fields :: "bool \<Rightarrow> 8 word list \<Rightarrow> string" where
  "hex_fields caps xs = concat (map (\<lambda>i. hex_field caps i (xs ! i)) [0..<length xs])"

definition shown :: "int \<Rightarrow> 'a list \<Rightarrow> 'a list" where
  \<comment> \<open>What \<open>-n\<close> leaves to be printed.\<close>
  "shown len xs = (if len = -1 then xs else take (nat len) xs)"

definition hex_line :: "bool \<Rightarrow> 64 word \<Rightarrow> 8 word list \<Rightarrow> string" where
  "hex_line caps off xs =
     hex_pad 8 caps (unat off) @ '' '' @ hex_fields caps xs @ hex_blanks (length xs) @ '' |'' @ concat (map hex_char xs) @ ''|''"

lemma hex_bytes_ok:
  assumes "readbytes \<le> length buf" "i \<le> readbytes" "0 \<le> tot" "len = -1 \<longrightarrow> tot + int (readbytes - i) \<le> INT_MAX"
    "len \<le> INT_MAX" "n = (if len = -1 then readbytes - i else min (readbytes - i) (nat (len - tot)))"
  shows "hex_bytes caps len buf readbytes i tot =
    Some (concat (map (\<lambda>k. hex_field caps k (buf ! k)) [i..<i + n]), i + n, tot + int n)"
  using assms
proof (induction "readbytes - i" arbitrary: i tot n)
  case 0
  then show ?case by (subst hex_bytes.simps) simp
next
  case (Suc m)
  show ?case
  proof (cases "tot < len \<or> len = -1")
    case True
    define n' where "n' = (if len = -1 then readbytes - (i + 1) else min (readbytes - (i + 1)) (nat (len - (tot + 1))))"
    have a: "readbytes - i = Suc (readbytes - (i + 1))" using Suc.hyps(2) by simp
    have m: "m = readbytes - (i + 1)" using Suc.hyps(2) by simp
    have b: "nat (len - tot) = Suc (nat (len - (tot + 1)))" if "tot < len" using that by linarith
    have n: "n = Suc n'" unfolding Suc.prems(6) n'_def using True a b by (cases "len = -1") (simp_all del: diff_Suc_1)
    have lt: "tot < INT_MAX" using Suc.prems Suc.hyps(2) True by auto
    have "hex_bytes caps len buf readbytes (i + 1) (tot + 1) =
        Some (concat (map (\<lambda>k. hex_field caps k (buf ! k)) [i + 1..<i + 1 + n']), i + 1 + n', tot + 1 + int n')"
      by (rule Suc.hyps(1) [OF m]) (use Suc.prems Suc.hyps(2) n'_def in auto)
    moreover have "[i..<i + n] = i # [i + 1..<i + 1 + n']" unfolding n by (simp add: upt_conv_Cons del: upt_Suc)
    ultimately show ?thesis
      using True lt Suc.hyps(2) Suc.prems(1) n by (subst hex_bytes.simps) (simp add: hex_field_def BUFSIZE_def)
  next
    case False
    then have "n = 0" using Suc.prems(6) by simp
    with False show ?thesis by (subst hex_bytes.simps) auto
  qed
qed

section \<open>The lines\<close>

definition hex_lines :: "int \<Rightarrow> nat \<Rightarrow> nat" where
  \<comment> \<open>The number of lines for a file of the given length: one more than are full when its end ends the loop.\<close>
  "hex_lines len L = (if len = -1 then L div 20 + 1 else min ((nat len + 19) div 20) (L div 20 + 1))"

definition hex_text :: "bool \<Rightarrow> int \<Rightarrow> 64 word \<Rightarrow> 8 word list \<Rightarrow> string" where
  "hex_text caps len off inp =
     concat (map (\<lambda>k. hex_line caps (off + of_nat (20 * k)) (take 20 (drop (20 * k) (shown len inp))) @ [CHR 0x0A])
       [0..<hex_lines len (length inp)])"

lemma hex_fields_take:
  "n \<le> length chunk \<Longrightarrow> concat (map (\<lambda>k. hex_field caps k ((chunk @ ys) ! k)) [0..<n]) = hex_fields caps (take n chunk)"
  unfolding hex_fields_def by (intro arg_cong [where f = concat] map_cong) (auto simp: nth_append)

lemma hex_chars_take: "n \<le> length chunk \<Longrightarrow> hex_chars (chunk @ ys) n = concat (map hex_char (take n chunk))"
proof -
  assume n: "n \<le> length chunk"
  then have "map (\<lambda>j. hex_char ((chunk @ ys) ! j)) [0..<n] = map hex_char (take n chunk)"
    by (intro nth_equalityI) (auto simp: nth_append)
  then show ?thesis by (simp add: hex_chars_def)
qed

lemma hex_step:
  assumes "tot < len \<or> len = -1" "0 \<le> tot" "len \<le> INT_MAX" "len = -1 \<longrightarrow> tot + int (length inp) \<le> INT_MAX" "int c < INT_MAX"
    and n: "n = (if len = -1 then min 20 (length inp) else min (min 20 (length inp)) (nat (len - tot)))"
  shows "hex_loop caps len skip inp False (int c) tot =
    map_option (\<lambda>rest. hex_line caps (of_int skip + of_nat (20 * c)) (take n inp) @ [CHR 0x0A] @ rest)
      (hex_loop caps len skip (drop 20 inp) (length inp < 20) (int (Suc c)) (tot + int n))"
proof -
  let ?chunk = "take 20 inp"
  let ?buf = "?chunk @ replicate (20 - length ?chunk) 0"
  have n': "n = (if len = -1 then length ?chunk - 0 else min (length ?chunk - 0) (nat (len - tot)))"
    unfolding n by (simp add: min.commute)
  have le: "n \<le> length ?chunk" using n' by auto
  then have tk: "take n ?chunk = take n inp" by simp
  have "hex_bytes caps len ?buf (length ?chunk) 0 tot =
      Some (concat (map (\<lambda>k. hex_field caps k (?buf ! k)) [0..<0 + n]), 0 + n, tot + int n)"
    by (rule hex_bytes_ok [OF _ _ assms(2) _ assms(3) n']) (use assms(4) in auto)
  then have b: "hex_bytes caps len ?buf (length ?chunk) 0 tot = Some (hex_fields caps (take n inp), n, tot + int n)"
    using hex_fields_take [OF le] tk by simp
  have ch: "hex_chars ?buf n = concat (map hex_char (take n inp))" using hex_chars_take [OF le] tk by simp
  have len: "length (take n inp) = n" using le by simp
  have e: "(length ?chunk < 20) = (length inp < 20)" by auto
  have off: "(of_int (int c) :: 64 word) * of_nat 20 + of_int skip = of_int skip + of_nat (20 * c)" by (simp add: mult.commute)
  show ?thesis
    by (subst hex_loop.simps, unfold BUFSIZE_def Let_def e b off)
      (use assms(1,5) in \<open>simp add: ch [simplified] hex_line_def len [simplified] add.commute split: option.split bind_split\<close>)
qed

lemma shown_drop: "len \<noteq> -1 \<longrightarrow> 20 \<le> len \<Longrightarrow> shown (if len = -1 then -1 else len - 20) (drop 20 inp) = drop 20 (shown len inp)"
  by (auto simp: shown_def drop_take nat_diff_distrib)

lemma hex_lines_Suc:
  assumes "20 \<le> L" "len \<noteq> -1 \<longrightarrow> 20 \<le> len"
  shows "hex_lines len L = Suc (hex_lines (if len = -1 then -1 else len - 20) (L - 20))"
proof -
  have a: "L div 20 = Suc ((L - 20) div 20)" using assms(1) by (simp add: le_div_geq)
  have "(nat len + 19) div 20 = Suc ((nat (len - 20) + 19) div 20)" if "20 \<le> len"
  proof -
    have "nat len + 19 = nat (len - 20) + 19 + 20" using that by simp
    then show ?thesis by (simp only: div_add_self2 Suc_eq_plus1)
  qed
  with a assms(2) show ?thesis by (auto simp: hex_lines_def)
qed

lemma hex_text_Suc:
  assumes "20 \<le> length inp" "len \<noteq> -1 \<longrightarrow> 20 \<le> len"
  shows "hex_text caps len off inp = hex_line caps off (take 20 (shown len inp)) @ [CHR 0x0A] @
    hex_text caps (if len = -1 then -1 else len - 20) (off + 20) (drop 20 inp)"
proof -
  have "off + of_nat (20 * Suc k) = off + 20 + of_nat (20 * k)" for k by simp
  then show ?thesis
    unfolding hex_text_def hex_lines_Suc [OF assms] shown_drop [OF assms(2)]
    by (simp add: map_upt_Suc ac_simps del: upt_Suc)
qed

lemma hex_loop_ok:
  "0 \<le> tot \<Longrightarrow> tot = 20 * int c \<Longrightarrow> len \<le> INT_MAX \<Longrightarrow> (len = -1 \<longrightarrow> tot + int (length inp) \<le> INT_MAX) \<Longrightarrow> tot \<le> INT_MAX \<Longrightarrow>
    hex_loop caps len skip inp False (int c) tot =
      Some (hex_text caps (if len = -1 then -1 else max 0 (len - tot)) (of_int skip + of_nat (20 * c)) inp)"
proof (induction "length inp" arbitrary: inp c tot rule: less_induct)
  case less
  let ?r = "if len = -1 then -1 else max 0 (len - tot)"
  show ?case
  proof (cases "tot < len \<or> len = -1")
    case False
    then have "hex_lines ?r (length inp) = 0" by (auto simp: hex_lines_def)
    with False show ?thesis by (subst hex_loop.simps) (simp add: hex_text_def)
  next
    case True
    define n where "n = (if len = -1 then min 20 (length inp) else min (min 20 (length inp)) (nat (len - tot)))"
    have c: "int c < INT_MAX" using less.prems by (simp add: INT_MAX_def)
    note step = hex_step [OF True less.prems(1,3,4) c n_def, of caps skip]
    have tk: "take n inp = take 20 (shown ?r inp)" using True by (auto simp: n_def shown_def min_def)
    show ?thesis
    proof (cases "20 \<le> length inp \<and> (len \<noteq> -1 \<longrightarrow> 20 \<le> len - tot)")
      case full: True
      then have n: "n = 20" by (auto simp: n_def)
      have "hex_loop caps len skip (drop 20 inp) False (int (Suc c)) (tot + int n) =
          Some (hex_text caps (if len = -1 then -1 else max 0 (len - (tot + int n))) (of_int skip + of_nat (20 * Suc c)) (drop 20 inp))"
        by (rule less.hyps) (use full less.prems n in auto)
      moreover have "(if len = -1 then -1 else max 0 (len - (tot + int n))) = (if ?r = -1 then -1 else ?r - 20)" using full n by auto
      moreover have "hex_text caps ?r (of_int skip + of_nat (20 * c)) inp =
          hex_line caps (of_int skip + of_nat (20 * c)) (take 20 (shown ?r inp)) @ [CHR 0x0A] @
          hex_text caps (if ?r = -1 then -1 else ?r - 20) (of_int skip + of_nat (20 * c) + 20) (drop 20 inp)"
        by (rule hex_text_Suc) (use full in auto)
      ultimately show ?thesis using full tk unfolding step by (simp add: ac_simps)
    next
      case last: False
      have stop: "hex_loop caps len skip (drop 20 inp) (length inp < 20) (int (Suc c)) (tot + int n) = Some ''''"
        by (subst hex_loop.simps) (use last in \<open>auto simp: n_def\<close>)
      have one: "hex_lines ?r (length inp) = 1"
      proof (cases "length inp < 20")
        case True
        have "1 \<le> (nat ?r + 19) div 20" if "len \<noteq> -1" using that \<open>tot < len \<or> len = -1\<close> by auto
        then show ?thesis using True by (auto simp: hex_lines_def)
      next
        case False
        then have r: "len \<noteq> -1" "nat ?r < 20" "1 \<le> nat ?r" using last \<open>tot < len \<or> len = -1\<close> by auto
        then have "(nat ?r + 19) div 20 = 1" by linarith
        then show ?thesis using r by (auto simp: hex_lines_def)
      qed
      show ?thesis unfolding step stop hex_text_def one by (simp add: tk)
    qed
  qed
qed

section \<open>Reading the output back\<close>

definition unhex :: "char \<Rightarrow> nat" where
  "unhex c = (let n = of_char c in if n \<le> 57 then n - 48 else if n \<le> 70 then n - 55 else n - 87)"

fun undump_hex :: "string \<Rightarrow> 8 word list" where
  \<comment> \<open>The bytes between the offset and the bar; blanks do not matter.\<close>
  "undump_hex (c # d # cs) =
     (if c = CHR '' '' then undump_hex (d # cs)
      else if c = CHR ''|'' then [] else of_nat (16 * unhex c + unhex d) # undump_hex cs)"
| "undump_hex _ = []"

function undump :: "string \<Rightarrow> 8 word list" where
  "undump s =
     (if s = [] then []
      else undump_hex (dropWhile (\<lambda>c. c \<noteq> CHR '' '') (takeWhile (\<lambda>c. c \<noteq> CHR 0x0A) s)) @
        undump (tl (dropWhile (\<lambda>c. c \<noteq> CHR 0x0A) s)))"
  by pat_completeness auto

termination
proof (relation "measure length")
  fix s :: string
  assume "s \<noteq> []"
  then show "(tl (dropWhile (\<lambda>c. c \<noteq> CHR 0x0A) s), s) \<in> measure length"
    using length_dropWhile_le [of "\<lambda>c. c \<noteq> CHR 0x0A" s] by (cases s) auto
qed simp

declare undump.simps [simp del]

lemma hex_digit_ok:
  assumes "d < 16"
  shows "unhex (hex_digit caps d) = d" "hex_digit caps d \<noteq> CHR '' ''" "hex_digit caps d \<noteq> CHR ''|''" "hex_digit caps d \<noteq> CHR 0x0A"
proof -
  have "d = 0 \<or> d = 1 \<or> d = 2 \<or> d = 3 \<or> d = 4 \<or> d = 5 \<or> d = 6 \<or> d = 7 \<or> d = 8 \<or> d = 9 \<or> d = 10 \<or> d = 11 \<or> d = 12 \<or>
      d = 13 \<or> d = 14 \<or> d = 15" using assms by presburger
  then show "unhex (hex_digit caps d) = d" "hex_digit caps d \<noteq> CHR '' ''" "hex_digit caps d \<noteq> CHR ''|''" "hex_digit caps d \<noteq> CHR 0x0A"
    by (elim disjE; cases caps; simp add: hex_digit_def unhex_def)+
qed

lemma hex_digits_chars: "c \<in> set (hex_digits caps n) \<Longrightarrow> c \<noteq> CHR '' '' \<and> c \<noteq> CHR 0x0A"
proof (induction caps n rule: hex_digits.induct)
  case (1 caps n)
  then show ?case
    using hex_digit_ok(2,4) [of n caps] hex_digit_ok(2,4) [of "n mod 16" caps]
      hex_digits.simps [of caps n]
    by (cases "n < 16") auto
qed

lemma hex_pad_chars: "c \<in> set (hex_pad w caps n) \<Longrightarrow> c \<noteq> CHR '' '' \<and> c \<noteq> CHR 0x0A"
  using hex_digits_chars [of c caps n] by (auto simp: hex_pad_def Let_def)

lemma hex_pad_byte: "n < 256 \<Longrightarrow> hex_pad 2 caps n = [hex_digit caps (n div 16), hex_digit caps (n mod 16)]"
proof -
  assume n: "n < 256"
  have z: "CHR ''0'' = hex_digit caps 0" by (simp add: hex_digit_def)
  show ?thesis
  proof (cases "n < 16")
    case True
    then have "hex_digits caps n = [hex_digit caps n]" by (subst hex_digits.simps) simp
    with True show ?thesis by (simp add: hex_pad_def z)
  next
    case False
    then have "n div 16 < 16" using n by simp
    then have "hex_digits caps (n div 16) = [hex_digit caps (n div 16)]" by (subst hex_digits.simps) simp
    then have "hex_digits caps n = [hex_digit caps (n div 16), hex_digit caps (n mod 16)]" using False by (subst hex_digits.simps) simp
    then show ?thesis by (simp add: hex_pad_def)
  qed
qed

lemma unat_byte: "unat (b :: 8 word) < 256"
proof -
  have "unat b < 2 ^ LENGTH(8)" by (rule unsigned_less)
  then show ?thesis by simp
qed

lemma undump_blanks: "\<forall>c\<in>set s. c = CHR '' '' \<Longrightarrow> t \<noteq> [] \<Longrightarrow> undump_hex (s @ t) = undump_hex t"
proof (induction s)
  case (Cons c s)
  then obtain d ds where "s @ t = d # ds" by (cases "s @ t") auto
  with Cons show ?case by simp
qed simp

lemma undump_field:
  assumes "t \<noteq> []"
  shows "undump_hex (hex_field caps i b @ t) = b # undump_hex t"
proof -
  have b: "unat b < 256" by (rule unat_byte)
  then have d: "unat b div 16 < 16" "unat b mod 16 < 16" by simp_all
  have "of_nat (16 * (unat b div 16) + unat b mod 16) = b" by simp
  moreover have "undump_hex (CHR '' '' # (if i = 9 then '' '' else '''') @ t) = undump_hex t"
    using undump_blanks [of "CHR '' '' # (if i = 9 then '' '' else '''')" t] assms by auto
  ultimately show ?thesis
    using hex_digit_ok [OF d(1), of caps] hex_digit_ok [OF d(2), of caps] by (simp add: hex_field_def hex_pad_byte [OF b])
qed

lemma undump_fields: "t \<noteq> [] \<Longrightarrow> undump_hex (hex_fields caps xs @ t) = xs @ undump_hex t"
proof -
  assume t: "t \<noteq> []"
  have "undump_hex (concat (map (\<lambda>i. hex_field caps i (xs ! i)) is) @ t) = map ((!) xs) is @ undump_hex t" for "is"
    by (induction "is") (simp_all add: undump_field t)
  then show ?thesis by (simp add: hex_fields_def map_nth)
qed

lemma hex_blanks_chars: "c \<in> set (hex_blanks i) \<Longrightarrow> c = CHR '' ''"
  by (auto simp: hex_blanks_def split: if_splits)

lemma hex_char_chars: "c \<in> set (hex_char b) \<Longrightarrow> c \<noteq> CHR 0x0A"
proof -
  have "unat b = 10" if "char_of (unat b) = CHR 0x0A"
  proof -
    have "of_char (char_of (unat b) :: char) = (10 :: nat)" unfolding that by simp
    then show ?thesis using unat_byte [of b] by simp
  qed
  then show "c \<in> set (hex_char b) \<Longrightarrow> c \<noteq> CHR 0x0A" by (auto simp: hex_char_def word_le_nat_alt split: if_splits)
qed

lemma hex_line_newline: "CHR 0x0A \<notin> set (hex_line caps off xs)"
  using hex_pad_chars [of "CHR 0x0A"] hex_blanks_chars [of "CHR 0x0A"] hex_char_chars [of "CHR 0x0A"]
  by (auto simp: hex_line_def hex_fields_def hex_field_def split: if_splits)

lemma undump_line: "undump (hex_line caps off xs @ CHR 0x0A # rest) = xs @ undump rest"
proof -
  let ?l = "hex_line caps off xs"
  let ?t = "hex_blanks (length xs) @ '' |'' @ concat (map hex_char xs) @ ''|''"
  have n: "takeWhile (\<lambda>c. c \<noteq> CHR 0x0A) (?l @ CHR 0x0A # rest) = ?l" "dropWhile (\<lambda>c. c \<noteq> CHR 0x0A) (?l @ CHR 0x0A # rest) = CHR 0x0A # rest"
    using hex_line_newline by (auto simp: takeWhile_append dropWhile_append)
  have "dropWhile (\<lambda>c. c \<noteq> CHR '' '') ?l = '' '' @ hex_fields caps xs @ ?t"
    using hex_pad_chars [of _ 8 caps "unat off"] by (auto simp: hex_line_def dropWhile_append)
  moreover have "undump_hex ('' '' @ hex_fields caps xs @ ?t) = undump_hex (hex_fields caps xs @ ?t)" by (rule undump_blanks) auto
  moreover have "undump_hex (hex_fields caps xs @ ?t) = xs @ undump_hex ?t" by (rule undump_fields) simp
  moreover have "undump_hex ?t = undump_hex ('' |'' @ concat (map hex_char xs) @ ''|'')"
    by (rule undump_blanks) (auto dest: hex_blanks_chars)
  moreover have "undump_hex ('' |'' @ concat (map hex_char xs) @ ''|'') = []"
    by (cases "concat (map hex_char xs) @ ''|''") simp_all
  ultimately show ?thesis by (subst undump.simps) (simp add: n)
qed

lemma concat_chunks: "concat (map (\<lambda>k. take m (drop (m * k) ys)) [0..<n]) = take (m * n) ys"
proof (induction n)
  case (Suc n)
  have "take (m * Suc n) ys = take (m * n + m) ys" by (simp add: add.commute)
  with Suc show ?case by (simp only: take_add) simp
qed simp

lemma undump_text: "undump (hex_text caps len off inp) = take (20 * hex_lines len (length inp)) (shown len inp)"
proof -
  have "undump (concat (map (\<lambda>k. hex_line caps (o' k) (f k) @ [CHR 0x0A]) ks)) = concat (map f ks)" for o' f and ks :: "nat list"
    by (induction ks) (simp_all add: undump_line undump.simps [of "''''"])
  then show ?thesis by (simp add: hex_text_def concat_chunks)
qed

lemma enough_lines: "length (shown len inp) \<le> 20 * hex_lines len (length inp)"
  by (auto simp: shown_def hex_lines_def min_def)

section \<open>The program as a whole\<close>

lemma atoi_bounds: "atoi s = Some n \<Longrightarrow> - INT_MAX - 1 \<le> n \<and> n \<le> INT_MAX"
  by (auto simp: atoi_def Let_def split: if_splits)

lemma hex_options_bounds:
  "hex_options os a = Some (Some b) \<Longrightarrow> ha_len a \<le> INT_MAX \<Longrightarrow> ha_len b \<le> INT_MAX"
  by (induction os a rule: hex_options.induct) (auto split: if_splits bind_splits dest: atoi_bounds)

definition hex_defaults :: hex_args where
  "hex_defaults = \<lparr>ha_caps = False, ha_len = -1, ha_skip = 0, ha_fpath = None\<rparr>"

definition hex_input :: "hex_args \<Rightarrow> 8 word list \<Rightarrow> 8 word list" where
  \<comment> \<open>The part of the file behind the skipped bytes.\<close>
  "hex_input a dat = drop (nat (ha_skip a)) dat"

lemma hex_text_neg: "hex_text caps (if len = -1 then -1 else max 0 len) off inp = hex_text caps len off inp"
  by (auto simp: hex_text_def shown_def hex_lines_def max_def)

lemma hexdump_run:
  assumes "hex_options os hex_defaults = Some (Some a)" "ha_fpath a = Some p" "files p = Some dat"
    and "ha_len a = -1 \<longrightarrow> int (length (hex_input a dat)) \<le> INT_MAX"
  shows "hexdump_main os [] files = Some (True, hex_text (ha_caps a) (ha_len a) (of_int (ha_skip a)) (hex_input a dat))"
proof -
  have "ha_len a \<le> INT_MAX" using hex_options_bounds [OF assms(1)] by (simp add: hex_defaults_def INT_MAX_def)
  with assms(4) have "hex_loop (ha_caps a) (ha_len a) (ha_skip a) (hex_input a dat) False 0 0 =
      Some (hex_text (ha_caps a) (ha_len a) (of_int (ha_skip a)) (hex_input a dat))"
    using hex_loop_ok [of 0 0 "ha_len a" "hex_input a dat" "ha_caps a" "ha_skip a"] hex_text_neg [where len = "ha_len a", of "ha_caps a" "of_int (ha_skip a)" "hex_input a dat"]
    by (cases "ha_len a = -1") (simp_all add: INT_MAX_def)
  with assms(1-3) show ?thesis by (simp add: hexdump_main_def hex_defaults_def hex_input_def)
qed

definition ex_files :: "string \<Rightarrow> 8 word list option" where
  "ex_files = [''f'' \<mapsto> map of_nat [0..<30]]"

lemma ex_hex_options:
  "hex_options [(CHR ''s'', ''5''), (CHR ''n'', ''22''), (CHR ''f'', ''f'')] hex_defaults =
     Some (Some \<lparr>ha_caps = False, ha_len = 22, ha_skip = 5, ha_fpath = Some ''f''\<rparr>)"
  by (simp add: hex_defaults_def atoi_def isspace_def isdigit_def INT_MAX_def)

text \<open>C22: The bytes can be read back from what the program prints: the decoder returns the bytes of
  the file after the skipped ones, as many as \<open>-n\<close> asks for.\<close>

theorem hexdump_roundtrip:
  assumes "hex_options os hex_defaults = Some (Some a)" "ha_fpath a = Some p" "files p = Some dat"
    and "ha_len a = -1 \<longrightarrow> int (length (hex_input a dat)) \<le> INT_MAX"
  shows "\<exists>out. hexdump_main os [] files = Some (True, out) \<and> undump out = shown (ha_len a) (hex_input a dat)"
  using hexdump_run [of os a p files, OF assms] undump_text enough_lines by simp

lemma hexdump_roundtrip_witness:
  "\<exists>out. hexdump_main [(CHR ''s'', ''5''), (CHR ''n'', ''22''), (CHR ''f'', ''f'')] [] ex_files = Some (True, out) \<and>
    undump out = map of_nat [5..<27]"
proof -
  have "shown 22 (drop 5 (map of_nat [0..<30])) = (map of_nat [5..<27] :: 8 word list)"
    by (simp add: shown_def drop_map take_map drop_upt take_upt)
  with hexdump_roundtrip [OF ex_hex_options, of "''f''" ex_files "map of_nat [0..<30]"] show ?thesis
    by (simp add: ex_files_def hex_input_def)
qed

text \<open>The output line by line: line \<open>k\<close> shows the \<open>k\<close>-th twenty bytes at their offset, and their number follows from
  the length of the file and \<open>-n\<close> alone. Where the end of the file ends the loop, a file of
  a multiple of twenty bytes gets a last line without bytes.\<close>

theorem hexdump_lines:
  assumes "hex_options os hex_defaults = Some (Some a)" "ha_fpath a = Some p" "files p = Some dat"
    and "ha_len a = -1 \<longrightarrow> int (length (hex_input a dat)) \<le> INT_MAX"
  shows "hexdump_main os [] files = Some (True, concat (map (\<lambda>k.
      hex_line (ha_caps a) (of_int (ha_skip a) + of_nat (20 * k))
        (take 20 (drop (20 * k) (shown (ha_len a) (hex_input a dat)))) @ [CHR 0x0A])
      [0..<hex_lines (ha_len a) (length (hex_input a dat))]))"
  using hexdump_run [of os a p files, OF assms] by (simp add: hex_text_def)

lemma hexdump_lines_witness:
  "hexdump_main [(CHR ''s'', ''5''), (CHR ''n'', ''22''), (CHR ''f'', ''f'')] [] ex_files =
    Some (True, hex_line False 5 (map of_nat [5..<25]) @ [CHR 0x0A] @ hex_line False 25 [25, 26] @ [CHR 0x0A])"
proof -
  have "shown 22 (drop 5 (map of_nat [0..<30])) = (map of_nat [5..<27] :: 8 word list)"
    by (simp add: shown_def drop_map take_map drop_upt take_upt)
  moreover have "take 20 (map of_nat [5..<27]) = (map of_nat [5..<25] :: 8 word list)" by (simp add: take_map take_upt)
  moreover have "take 20 (drop 20 (map of_nat [5..<27])) = ([25, 26] :: 8 word list)" by (simp add: drop_map drop_upt upt_rec)
  moreover have "[0..<2] = [0, 1 :: nat]" by (simp add: upt_rec)
  ultimately show ?thesis using hexdump_lines [OF ex_hex_options, of "''f''" ex_files "map of_nat [0..<30]"]
    by (simp add: ex_files_def hex_input_def hex_lines_def)
qed

text \<open>The columns: the bytes of a line take 61 characters with their blanks, except that the blank in the
  middle is printed twice when there are ten of them.\<close>

lemma hex_fields_length: "length (hex_fields caps xs) = 3 * length xs + (if 10 \<le> length xs then 1 else 0)"
proof -
  have "length (concat (map (\<lambda>i. hex_field caps i (f i)) [0..<n])) = 3 * n + (if 10 \<le> n then 1 else 0)" for f n
    by (induction n) (simp_all add: hex_field_def hex_pad_byte [OF unat_byte])
  then show ?thesis by (simp add: hex_fields_def)
qed

lemma hex_blanks_length: "i \<le> 20 \<Longrightarrow> length (hex_blanks i) = 3 * (20 - i) + (if i \<le> 10 then 1 else 0)"
proof -
  have "length (concat (map (\<lambda>j. ''   '' @ (if j = 9 then '' '' else '''')) [0..<n])) = 3 * n + (if 10 \<le> n then 1 else 0)" for n
    by (induction n) simp_all
  then show "i \<le> 20 \<Longrightarrow> length (hex_blanks i) = 3 * (20 - i) + (if i \<le> 10 then 1 else 0)"
    by (auto simp: hex_blanks_def BUFSIZE_def)
qed

lemma hex_columns:
  "length xs \<le> 20 \<Longrightarrow> length (hex_fields caps xs @ hex_blanks (length xs)) = (if length xs = 10 then 62 else 61)"
  by (auto simp: hex_fields_length hex_blanks_length)

end
