(* ===== verification/Mydev.thy ===== *)
theory Mydev imports Prelude begin

text \<open>
  The pseudo-device \<open>cdev/mydev.c\<close> and its test program \<open>cdev/testdev.c\<close>. The kernel's \<open>uiomove(9)\<close> and
  the library \<open>proplib(3)\<close> are parameters; what the driver relies on is stated as hypotheses.
\<close>

section \<open>Open and close\<close>

record mydev_softc =
  sc_usage :: "32 word"

definition EBUSY :: int where "EBUSY = 16"
definition ENOTTY :: int where "ENOTTY = 25"

definition mydevattach :: "mydev_softc \<Rightarrow> mydev_softc" where
  "mydevattach sc = sc\<lparr>sc_usage := 0\<rparr>"

definition mydevopen :: "mydev_softc \<Rightarrow> int \<times> mydev_softc" where
  "mydevopen sc =
     (if sc_usage sc > 0 then (EBUSY, sc) else (0, sc\<lparr>sc_usage := sc_usage sc + 1\<rparr>))"

definition mydevclose :: "mydev_softc \<Rightarrow> int \<times> mydev_softc" where
  "mydevclose sc =
     (0, if sc_usage sc > 0 then sc\<lparr>sc_usage := sc_usage sc - 1\<rparr> else sc)"

datatype mydev_call = Dev_open | Dev_close

fun mydev_calls :: "mydev_call list \<Rightarrow> mydev_softc \<Rightarrow> int list \<times> mydev_softc" where
  \<comment> \<open>Calls in the order in which the kernel makes them; reading and \<open>ioctl\<close> leave the state alone.\<close>
  "mydev_calls [] sc = ([], sc)"
| "mydev_calls (c # cs) sc =
     (let (r, sc1) = (case c of Dev_open \<Rightarrow> mydevopen sc | Dev_close \<Rightarrow> mydevclose sc);
          (rs, sc2) = mydev_calls cs sc1
      in (r # rs, sc2))"

text \<open>The contract: one user at a time, any number of closes.\<close>

fun lock_calls :: "mydev_call list \<Rightarrow> bool \<Rightarrow> int list \<times> bool" where
  "lock_calls [] held = ([], held)"
| "lock_calls (c # cs) held =
     (let (r, h1) = (case c of Dev_open \<Rightarrow> (if held then EBUSY else 0, True) | Dev_close \<Rightarrow> (0, False));
          (rs, h2) = lock_calls cs h1
      in (r # rs, h2))"

definition mydev_held :: "mydev_softc \<Rightarrow> bool" where
  "mydev_held sc \<longleftrightarrow> sc_usage sc = 1"

lemma mydev_call_ok:
  assumes "sc_usage sc \<le> 1"
  shows "sc_usage (snd (mydevopen sc)) \<le> 1" "sc_usage (snd (mydevclose sc)) \<le> 1"
    "fst (mydevopen sc) = (if mydev_held sc then EBUSY else 0)" "mydev_held (snd (mydevopen sc))"
    "fst (mydevclose sc) = 0" "\<not> mydev_held (snd (mydevclose sc))"
proof -
  have "unat (sc_usage sc) \<le> 1" using assms by (simp add: word_le_nat_alt)
  then have "unat (sc_usage sc) = unat (0 :: 32 word) \<or> unat (sc_usage sc) = unat (1 :: 32 word)" by auto
  then have "sc_usage sc = 0 \<or> sc_usage sc = 1" by (metis unsigned_word_eqI)
  then show "sc_usage (snd (mydevopen sc)) \<le> 1" "sc_usage (snd (mydevclose sc)) \<le> 1"
    "fst (mydevopen sc) = (if mydev_held sc then EBUSY else 0)" "mydev_held (snd (mydevopen sc))"
    "fst (mydevclose sc) = 0" "\<not> mydev_held (snd (mydevclose sc))"
    by (auto simp: mydevopen_def mydevclose_def mydev_held_def)
qed

lemma mydev_calls_ok:
  "sc_usage sc \<le> 1 \<Longrightarrow> mydev_calls cs sc = (rs, sc') \<Longrightarrow>
    sc_usage sc' \<le> 1 \<and> lock_calls cs (mydev_held sc) = (rs, mydev_held sc')"
proof (induction cs arbitrary: sc rs)
  case (Cons c cs)
  note ok = mydev_call_ok [OF Cons.prems(1)]
  obtain r sc1 where 1: "(case c of Dev_open \<Rightarrow> mydevopen sc | Dev_close \<Rightarrow> mydevclose sc) = (r, sc1)" by force
  obtain rs1 where 2: "mydev_calls cs sc1 = (rs1, sc')" "rs = r # rs1" using Cons.prems(2) 1 by (auto split: prod.splits)
  have "sc_usage sc1 \<le> 1" using ok(1,2) 1 by (cases c) auto
  note ih = Cons.IH [OF this 2(1)]
  have "(case c of Dev_open \<Rightarrow> (if mydev_held sc then EBUSY else 0, True) | Dev_close \<Rightarrow> (0, False)) = (r, mydev_held sc1)"
    using ok(3-6) 1 by (cases c) auto
  then show ?case using ih 2(2) by simp
qed simp

section \<open>Read\<close>

record uio =
  uio_resid :: "64 word"
  uio_sent :: "8 word list"

definition mybuffer :: "8 word list" where
  \<comment> \<open>\<open>This is a test\<close>, and the NUL at its end.\<close>
  "mybuffer = map (of_nat \<circ> of_char) ''This is a test'' @ [0]"

type_synonym uiomove_t = "8 word list \<Rightarrow> 64 word \<Rightarrow> uio \<Rightarrow> int \<times> uio"

partial_function (option) mydevread :: "uiomove_t \<Rightarrow> uio \<Rightarrow> (int \<times> uio) option" where
  "mydevread uiomove uio =
     (if uio_resid uio > 0 then
        let nbytes = min (uio_resid uio) (of_nat (length mybuffer));
            (ret, uio') = uiomove mybuffer nbytes uio
        in if ret \<noteq> 0 then Some (ret, uio') else mydevread uiomove uio'
      else Some (0, uio))"

definition uiomove_ok :: "uiomove_t \<Rightarrow> bool" where
  \<comment> \<open>\<open>uiomove(9)\<close>: it fails, or moves the bytes asked for and counts them.\<close>
  "uiomove_ok uiomove \<longleftrightarrow> (\<forall>buf n u. unat n \<le> length buf \<longrightarrow> n \<le> uio_resid u \<longrightarrow> fst (uiomove buf n u) = 0 \<longrightarrow>
     snd (uiomove buf n u) = u\<lparr>uio_resid := uio_resid u - n, uio_sent := uio_sent u @ take (unat n) buf\<rparr>)"

definition cycled :: "nat \<Rightarrow> 8 word list" where
  \<comment> \<open>\<open>n\<close> bytes of the buffer over and over.\<close>
  "cycled n = map (\<lambda>i. mybuffer ! (i mod length mybuffer)) [0..<n]"

lemma mybuffer_length: "length mybuffer = 15"
  by (simp add: mybuffer_def)

lemma cycled_short: "n \<le> 15 \<Longrightarrow> cycled n = take n mybuffer"
  unfolding cycled_def by (rule nth_equalityI) (auto simp: mybuffer_length)

lemma cycled_add: "cycled (15 + n) = mybuffer @ cycled n"
proof -
  show ?thesis
    by (rule nth_equalityI) (auto simp: cycled_def mybuffer_length nth_append le_mod_geq)
qed

lemma mydevread_ok:
  "uiomove_ok uiomove \<Longrightarrow>
    \<exists>ret u'. mydevread uiomove u = Some (ret, u') \<and> ((\<forall>buf n u. fst (uiomove buf n u) = 0) \<longrightarrow> ret = 0) \<and>
      (ret = 0 \<longrightarrow> uio_resid u' = 0 \<and> uio_sent u' = uio_sent u @ cycled (unat (uio_resid u)))"
proof (induction "unat (uio_resid u)" arbitrary: u rule: less_induct)
  case less
  show ?case
  proof (cases "uio_resid u > 0")
    case False
    then have "uio_resid u = 0" by (simp add: word_less_nat_alt unat_eq_0)
    then show ?thesis by (subst mydevread.simps) (simp add: cycled_def)
  next
    case True
    define n where "n = min (uio_resid u) 15"
    obtain ret u1 where m: "uiomove mybuffer n u = (ret, u1)" by force
    have run: "mydevread uiomove u = (if ret \<noteq> 0 then Some (ret, u1) else mydevread uiomove u1)"
      using True m by (subst mydevread.simps) (simp add: n_def mybuffer_length)
    have un: "unat n = min (unat (uio_resid u)) 15" by (cases "uio_resid u \<le> 15") (simp_all add: n_def min_def word_le_nat_alt)
    show ?thesis
    proof (cases "ret = 0")
      case False
      with run m show ?thesis by (metis fst_conv)
    next
      case z: True
      have le: "n \<le> uio_resid u" by (simp add: n_def)
      have u1: "u1 = u\<lparr>uio_resid := uio_resid u - n, uio_sent := uio_sent u @ take (unat n) mybuffer\<rparr>"
        using less.prems m z un le unfolding uiomove_ok_def by (metis fst_conv snd_conv min.cobounded2 mybuffer_length)
      have r1: "unat (uio_resid u1) = unat (uio_resid u) - unat n" using le by (simp add: u1 unat_sub)
      moreover have "0 < unat n" using True un by (simp add: word_less_nat_alt)
      ultimately have "unat (uio_resid u1) < unat (uio_resid u)" using True by (simp add: word_less_nat_alt)
      from less.hyps [OF this less.prems] obtain r2 u2 where
        2: "mydevread uiomove u1 = Some (r2, u2)" "(\<forall>buf n u. fst (uiomove buf n u) = 0) \<longrightarrow> r2 = 0"
          "r2 = 0 \<longrightarrow> uio_resid u2 = 0 \<and> uio_sent u2 = uio_sent u1 @ cycled (unat (uio_resid u1))" by blast
      have "take (unat n) mybuffer @ cycled (unat (uio_resid u1)) = cycled (unat (uio_resid u))"
      proof (cases "unat (uio_resid u) \<le> 15")
        case True
        then have "unat n = unat (uio_resid u)" by (simp add: un)
        then show ?thesis using True by (simp add: r1 cycled_short)
      next
        case False
        then have "unat n = 15" by (simp add: un)
        then show ?thesis using False cycled_add [of "unat (uio_resid u) - 15"] by (simp add: r1 mybuffer_length)
      qed
      then show ?thesis using 2 z by (simp add: run) (simp add: u1)
    qed
  qed
qed

section \<open>Ioctl\<close>

unbundle bit_operations_syntax

definition MAX_STR :: nat where "MAX_STR = 80"

record mydev_params =
  mp_number :: int
  mp_string :: string

definition IOW :: "nat \<Rightarrow> nat \<Rightarrow> nat \<Rightarrow> 64 word" where
  \<comment> \<open>\<open>_IOW\<close> of \<open>sys/ioccom.h\<close>: direction, size of the argument, group and number.\<close>
  "IOW g n sz = 0x80000000 OR push_bit 16 (of_nat sz AND 0x1FFF) OR push_bit 8 (of_nat g) OR of_nat n"

definition MYDEVOLDIOCTL :: "64 word" where "MYDEVOLDIOCTL = IOW (of_char (CHR ''M'')) 1 (4 + MAX_STR)"

definition MYDEVSETPROPS :: "64 word" where
  \<comment> \<open>The argument is a pointer and a size.\<close>
  "MYDEVSETPROPS = IOW (of_char (CHR ''M'')) 2 16"

datatype mydev_log = Log_params int string | Log_count "32 word" | Log_no_string | Log_no_cstring | Log_value string

datatype 'p ioctl_data = Data_params mydev_params | Data_plistref 'p

record ('s, 'o, 'p) proplib =
  prop_dictionary_copyin_ioctl :: "'p \<Rightarrow> 64 word \<Rightarrow> 's \<Rightarrow> (int \<times> 'o) \<times> 's"
  prop_dictionary_count :: "'o \<Rightarrow> 's \<Rightarrow> 32 word"
  prop_dictionary_get :: "'o \<Rightarrow> string \<Rightarrow> 's \<Rightarrow> 'o option"
  prop_is_string :: "'o \<Rightarrow> 's \<Rightarrow> bool"
  prop_string_cstring :: "'o \<Rightarrow> 's \<Rightarrow> string option \<times> 's"
  prop_free :: "string \<Rightarrow> 's \<Rightarrow> 's"
  prop_object_release :: "'o \<Rightarrow> 's \<Rightarrow> 's"

definition c_string :: "string \<Rightarrow> string option" where
  \<comment> \<open>What \<open>%s\<close> prints of an array: undefined if there is no NUL in it.\<close>
  "c_string s = (if CHR 0x00 \<in> set s then Some (takeWhile (\<lambda>c. c \<noteq> CHR 0x00) s) else None)"

definition mydevioctl ::
  "('s, 'o, 'p) proplib \<Rightarrow> 64 word \<Rightarrow> 'p ioctl_data \<Rightarrow> 's \<Rightarrow> ((int \<times> mydev_log list) \<times> 's) option" where
  \<comment> \<open>The error and what is logged. The cast of \<open>data\<close> has a meaning only for data of the command's type. The calls of
      \<open>proplib\<close> always return here: a release of an object that has no reference left is not told apart.\<close>
  "mydevioctl lib cmd dat s =
     (if cmd = MYDEVOLDIOCTL then
        case dat of
          Data_params params \<Rightarrow>
            do { str \<leftarrow> c_string (mp_string params); Some ((0, [Log_params (mp_number params) str]), s) }
        | Data_plistref _ \<Rightarrow> None
      else if cmd = MYDEVSETPROPS then
        case dat of
          Data_params _ \<Rightarrow> None
        | Data_plistref pref \<Rightarrow>
            (case prop_dictionary_copyin_ioctl lib pref cmd s of ((error, dict), s1) \<Rightarrow>
               if error \<noteq> 0 then Some ((error, []), s1)
               else let l1 = [Log_count (prop_dictionary_count lib dict s1)] in
                 (case prop_dictionary_get lib dict ''key'' s1 of
                    None \<Rightarrow> Some ((-1, l1 @ [Log_no_string]), prop_object_release lib dict s1)
                  | Some po \<Rightarrow>
                      if \<not> prop_is_string lib po s1 then
                        Some ((-1, l1 @ [Log_no_string]), prop_object_release lib dict s1)
                      else
                        (case prop_string_cstring lib po s1 of
                           (None, s2) \<Rightarrow>
                             Some ((-1, l1 @ [Log_no_cstring]),
                               prop_object_release lib dict (prop_object_release lib po s2))
                         | (Some val, s2) \<Rightarrow>
                             let s3 = prop_object_release lib po s2;
                                 s4 = prop_free lib val s3
                             in Some ((0, l1 @ [Log_value val]), prop_object_release lib dict s4))))
      else Some ((ENOTTY, []), s))"

definition proplib_counts :: "('s \<Rightarrow> 'o \<Rightarrow> nat) \<Rightarrow> ('s, 'o, 'p) proplib \<Rightarrow> bool" where
  \<comment> \<open>What \<open>proplib(3)\<close> says of reference counts: a dictionary is made with one reference, \<open>prop_object_release\<close> drops
      one, a string has no other objects inside it, and the other calls leave the counts alone.\<close>
  "proplib_counts refs lib \<longleftrightarrow>
     (\<forall>p c s e d s1. prop_dictionary_copyin_ioctl lib p c s = ((e, d), s1) \<longrightarrow>
        (if e = 0 then refs s1 d = refs s d + 1 \<and> \<not> prop_is_string lib d s1 else refs s1 = refs s)) \<and>
     (\<forall>po s r s1. prop_string_cstring lib po s = (r, s1) \<longrightarrow> refs s1 = refs s \<and> prop_is_string lib po s1 = prop_is_string lib po s) \<and>
     (\<forall>v s. refs (prop_free lib v s) = refs s) \<and>
     (\<forall>po s. refs (prop_object_release lib po s) po = refs s po - 1) \<and>
     (\<forall>po s x. prop_is_string lib po s \<longrightarrow> x \<noteq> po \<longrightarrow> refs (prop_object_release lib po s) x = refs s x)"

lemma ioctl_commands: "MYDEVOLDIOCTL \<noteq> MYDEVSETPROPS"
proof -
  have e: "MYDEVOLDIOCTL = 0x80544D01" "MYDEVSETPROPS = 0x80104D02"
    by (simp_all add: MYDEVOLDIOCTL_def MYDEVSETPROPS_def IOW_def MAX_STR_def push_bit_eq_mult)
  show ?thesis unfolding e by simp
qed

lemma setprops_counts:
  assumes laws: "proplib_counts refs lib"
    and c: "prop_dictionary_copyin_ioctl lib pref MYDEVSETPROPS s = ((e, dict), s1)"
  obtains error logs s' where "mydevioctl lib MYDEVSETPROPS (Data_plistref pref) s = Some ((error, logs), s')"
    "e \<noteq> 0 \<longrightarrow> error = e \<and> refs s' = refs s" "e = 0 \<longrightarrow> refs s' dict = refs s dict \<and> (error = 0 \<or> error = -1)"
    "e = 0 \<longrightarrow> (error = 0 \<longleftrightarrow> (\<exists>po v. prop_dictionary_get lib dict ''key'' s1 = Some po \<and> prop_is_string lib po s1 \<and>
       fst (prop_string_cstring lib po s1) = Some v \<and> logs = [Log_count (prop_dictionary_count lib dict s1), Log_value v]))"
proof -
  note L = laws [unfolded proplib_counts_def]
  have step: "refs s1 dict = refs s dict + 1 \<and> \<not> prop_is_string lib dict s1" if "e = 0" using L c that by metis
  have rel: "refs (prop_object_release lib dict u) dict = refs u dict - 1" for u using L by blast
  have strs: "refs (prop_object_release lib po u) dict = refs s1 dict"
    if "prop_is_string lib po s1" "prop_string_cstring lib po s1 = (r, u)" "e = 0" for po r u
  proof -
    have "po \<noteq> dict" using that(1) step [OF that(3)] by blast
    moreover have "refs u = refs s1" "prop_is_string lib po u" using L that(1,2) by blast+
    ultimately show ?thesis using L by metis
  qed
  have fr: "refs (prop_free lib v u) = refs u" for v u using L by blast
  have bad: "e \<noteq> 0 \<Longrightarrow> refs s1 = refs s" using L c by metis
  note run = mydevioctl_def ioctl_commands [symmetric] c Let_def
  show thesis
  proof (cases "e = 0")
    case False
    then show ?thesis by (intro that [of e "[]" s1]) (simp_all add: run bad)
  next
    case e: True
    show ?thesis
    proof (cases "prop_dictionary_get lib dict ''key'' s1")
      case None
      then show ?thesis by (rule_tac that, simp add: run e) (simp_all add: e rel step)
    next
      case po: (Some po)
      show ?thesis
      proof (cases "prop_is_string lib po s1")
        case False
        then show ?thesis by (rule_tac that, simp add: run e po) (simp_all add: e po rel step)
      next
        case str: True
        obtain r u where r: "prop_string_cstring lib po s1 = (r, u)" by force
        note facts = run e po str r rel strs [OF str r e] step fr
        show ?thesis by (cases r; rule_tac that, simp add: run e po str r) (simp_all add: facts)
      qed
    qed
  qed
qed

section \<open>The test program\<close>








section \<open>Properties\<close>

text \<open>The driver lets one user in at a time: from attaching on, whatever the sequence of opens
  and closes, it answers as a lock does and \<open>sc_usage\<close> stays at most 1, so it never wraps around.\<close>

theorem mydev_open_close:
  "mydev_calls cs (mydevattach sc) = (rs, sc') \<Longrightarrow> sc_usage sc' \<le> 1 \<and> lock_calls cs False = (rs, sc_usage sc' = 1)"
  using mydev_calls_ok [of "mydevattach sc" cs rs sc'] by (simp add: mydevattach_def mydev_held_def)

lemma mydev_open_close_witness:
  "lock_calls [Dev_open, Dev_open, Dev_close, Dev_close, Dev_open] False = ([0, EBUSY, 0, 0, 0], True)"
proof -
  have "mydev_calls [Dev_open, Dev_open, Dev_close, Dev_close, Dev_open] (mydevattach \<lparr>sc_usage = 7\<rparr>) =
      ([0, EBUSY, 0, 0, 0], \<lparr>sc_usage = 1\<rparr>)"
    by (simp add: mydevattach_def mydevopen_def mydevclose_def)
  from mydev_open_close [OF this] show ?thesis by simp
qed

text \<open>A read ends, and if no copy fails it fills the caller's whole buffer with the string, NUL included,
  over and over; a failing copy is reported.\<close>

theorem mydevread_fills:
  "uiomove_ok uiomove \<Longrightarrow> \<exists>ret u'. mydevread uiomove u = Some (ret, u') \<and>
    (ret = 0 \<longrightarrow> uio_resid u' = 0 \<and> uio_sent u' = uio_sent u @ cycled (unat (uio_resid u)))"
  using mydevread_ok [of uiomove u] by blast

definition ex_uiomove :: uiomove_t where
  "ex_uiomove buf n u = (0, u\<lparr>uio_resid := uio_resid u - n, uio_sent := uio_sent u @ take (unat n) buf\<rparr>)"

lemma ex_uiomove_ok: "uiomove_ok ex_uiomove"
  by (simp add: uiomove_ok_def ex_uiomove_def)

lemma mydevread_fills_witness:
  "\<exists>ret u'. mydevread ex_uiomove \<lparr>uio_resid = 17, uio_sent = []\<rparr> = Some (ret, u') \<and> (ret = 0 \<longrightarrow> uio_sent u' = mybuffer @ [84, 104])"
proof -
  have "cycled 2 = [84, 104]" by (subst cycled_short) (simp_all add: mybuffer_def)
  with mydevread_fills [OF ex_uiomove_ok, of "\<lparr>uio_resid = 17, uio_sent = []\<rparr>"] cycled_add [of 2] show ?thesis by auto
qed

text \<open>Setting properties, on every branch: a failed copy comes back as it is and changes no count;
  otherwise the dictionary is released exactly once, and the result is 0 precisely if \<open>key\<close> is bound to a string
  whose text could be had. Every other failure comes back as -1, which is no error number.\<close>

theorem mydevioctl_setprops:
  assumes "proplib_counts refs lib"
    and "prop_dictionary_copyin_ioctl lib pref MYDEVSETPROPS s = ((e, dict), s1)"
  shows "\<exists>error logs s'. mydevioctl lib MYDEVSETPROPS (Data_plistref pref) s = Some ((error, logs), s') \<and>
    (e \<noteq> 0 \<longrightarrow> error = e \<and> refs s' = refs s) \<and>
    (e = 0 \<longrightarrow> refs s' dict = refs s dict \<and> (error = 0 \<or> error = -1) \<and>
      (error = 0 \<longleftrightarrow> (\<exists>po v. prop_dictionary_get lib dict ''key'' s1 = Some po \<and> prop_is_string lib po s1 \<and>
         fst (prop_string_cstring lib po s1) = Some v \<and> logs = [Log_count (prop_dictionary_count lib dict s1), Log_value v])))"
  by (rule setprops_counts [OF assms]) blast

text \<open>A library with one dictionary, object 1, that holds the string \<open>value\<close>, object 2. The state counts references.\<close>

definition ex_lib :: "(nat \<Rightarrow> nat, nat, unit) proplib" where
  "ex_lib = \<lparr>prop_dictionary_copyin_ioctl = \<lambda>_ _ s. ((0, 1), s(1 := s 1 + 1)), prop_dictionary_count = \<lambda>_ _. 1,
     prop_dictionary_get = \<lambda>_ k _. if k = ''key'' then Some 2 else None, prop_is_string = \<lambda>d _. d = 2,
     prop_string_cstring = \<lambda>_ s. (Some ''value'', s), prop_free = \<lambda>_ s. s,
     prop_object_release = \<lambda>d s. s(d := s d - 1)\<rparr>"

lemma ex_lib_ok: "proplib_counts id ex_lib"
  by (auto simp: proplib_counts_def ex_lib_def)

lemma mydevioctl_setprops_witness:
  "\<exists>error logs s'. mydevioctl ex_lib MYDEVSETPROPS (Data_plistref ()) (\<lambda>_. 0) = Some ((error, logs), s') \<and> error = 0 \<and> s' 1 = 0"
proof -
  have "prop_dictionary_copyin_ioctl ex_lib () MYDEVSETPROPS (\<lambda>_. 0) = ((0, 1), (\<lambda>_. 0)(1 := 1))" by (simp add: ex_lib_def)
  from mydevioctl_setprops [OF ex_lib_ok this] obtain error logs s' where
    "mydevioctl ex_lib MYDEVSETPROPS (Data_plistref ()) (\<lambda>_. 0) = Some ((error, logs), s')" "id s' 1 = id (\<lambda>_. 0) (1 :: nat)"
    "error = 0 \<or> error = -1" by auto
  moreover have "mydevioctl ex_lib MYDEVSETPROPS (Data_plistref ()) (\<lambda>_. 0) = Some ((error', logs'), s'') \<Longrightarrow> error' = 0" for error' logs' s''
    using ioctl_commands [symmetric] by (auto simp: mydevioctl_def ex_lib_def)
  ultimately show ?thesis by auto
qed



end
