(* ===== verification/Listdir.thy ===== *)
theory Listdir imports Prelude begin

text \<open>
  The program \<open>fileops/listdir_recursive.c\<close>. A directory is the list of its entries in the order in which
  \<open>readdir\<close> returns them, \<open>.\<close> and \<open>..\<close> among them; one that \<open>opendir\<close> refuses is \<open>None\<close>.
\<close>

section \<open>The program\<close>

datatype dirent = Other string | Directory string "dirent list option"

record ls_state =
  dirdepth :: "32 word"
  ls_heap :: cheap
  ls_open :: nat
  ls_out :: string

definition ls_line :: "32 word \<Rightarrow> dirent \<Rightarrow> string" where
  "ls_line d e =
     concat (replicate (unat d) ''  '') @
     (case e of Other n \<Rightarrow> n | Directory n _ \<Rightarrow> ''['' @ n @ '']'') @ [CHR 0x0A]"

definition is_dot :: "string \<Rightarrow> bool" where
  "is_dot n \<longleftrightarrow> n = ''.'' \<or> n = ''..''"

function list_entries :: "string \<Rightarrow> dirent list \<Rightarrow> addr option \<Rightarrow> ls_state \<Rightarrow> int \<times> ls_state" where
  \<comment> \<open>The loop of \<open>listdir\<close> with what follows it; \<open>newpath\<close> is the program's variable.\<close>
  "list_entries path [] newpath s =
     (1, s\<lparr>ls_open := ls_open s - 1, ls_heap := cfree newpath (ls_heap s), dirdepth := dirdepth s - 1\<rparr>)"
| "list_entries path (e # es) newpath s =
     (let s1 = s\<lparr>ls_out := ls_out s @ ls_line (dirdepth s) e\<rparr> in
      case e of
        Other n \<Rightarrow> list_entries path es newpath s1
      | Directory n sub \<Rightarrow>
          if is_dot n then list_entries path es newpath s1
          else (case malloc (length path + length n + 2) (ls_heap s1) of
              (None, h) \<Rightarrow> (-1, s1\<lparr>dirdepth := dirdepth s1 + 1, ls_heap := h\<rparr>)
            | (Some a, h) \<Rightarrow>
                let s2 = s1\<lparr>dirdepth := dirdepth s1 + 1, ls_heap := h\<rparr>;
                    (ret, s3) = (case sub of
                        None \<Rightarrow> (-1, s2)
                      | Some es' \<Rightarrow> list_entries (path @ ''/'' @ n) es' None (s2\<lparr>ls_open := ls_open s2 + 1\<rparr>))
                in if ret = -1 then
                     (-1, s3\<lparr>ls_open := ls_open s3 - 1, ls_heap := cfree (Some a) (ls_heap s3)\<rparr>)
                   else list_entries path es (Some a) s3))"
  by pat_completeness auto

termination
  by (relation "measure (\<lambda>(_, es, _, _). size_list size es)") auto

declare list_entries.simps(2) [simp del]

definition listdir :: "string \<Rightarrow> dirent list option \<Rightarrow> ls_state \<Rightarrow> int \<times> ls_state" where
  "listdir path dir s =
     (case dir of None \<Rightarrow> (-1, s) | Some es \<Rightarrow> list_entries path es None (s\<lparr>ls_open := ls_open s + 1\<rparr>))"

definition listdir_main :: "string list \<Rightarrow> (string \<Rightarrow> dirent list option) \<Rightarrow> cheap \<Rightarrow> bool \<times> string \<times> cheap" where
  "listdir_main argv fs h =
     (case argv of
        [_, path] \<Rightarrow> (case listdir path (fs path) \<lparr>dirdepth = 0, ls_heap = h, ls_open = 0, ls_out = ''''\<rparr> of
          (_, s) \<Rightarrow> (True, ls_out s, ls_heap s))
      | _ \<Rightarrow> (False, '''', h))"

section \<open>What is to be printed\<close>

function tree_text :: "32 word \<Rightarrow> dirent list \<Rightarrow> string" where
  \<comment> \<open>The tree in preorder, each entry behind two blanks for every directory it is in.\<close>
  "tree_text d [] = ''''"
| "tree_text d (e # es) =
     ls_line d e @
     (case e of Directory n (Some es') \<Rightarrow> if is_dot n then '''' else tree_text (d + 1) es' | _ \<Rightarrow> '''') @
     tree_text d es"
  by pat_completeness auto

termination
  by (relation "measure (\<lambda>(_, es). size_list size es)") auto

function all_open :: "dirent list \<Rightarrow> bool" where
  "all_open [] = True"
| "all_open (e # es) =
     ((case e of Directory n sub \<Rightarrow> is_dot n \<or> (case sub of None \<Rightarrow> False | Some es' \<Rightarrow> all_open es') | _ \<Rightarrow> True) \<and> all_open es)"
  by pat_completeness auto

termination
  by (relation "measure (size_list size)") auto

function lost_paths :: "bool \<Rightarrow> dirent list \<Rightarrow> nat" where
  \<comment> \<open>The paths that are overwritten before they are released: in each directory all but that of its last subdirectory.\<close>
  "lost_paths b [] = 0"
| "lost_paths b (e # es) =
     (case e of
        Directory n sub \<Rightarrow>
          if is_dot n then lost_paths b es
          else (if b then 1 else 0) + (case sub of None \<Rightarrow> 0 | Some es' \<Rightarrow> lost_paths False es') + lost_paths True es
      | Other _ \<Rightarrow> lost_paths b es)"
  by pat_completeness auto

termination
  by (relation "measure (\<lambda>(_, es). size_list size es)") auto

function path_bytes :: "string \<Rightarrow> dirent list \<Rightarrow> nat" where
  \<comment> \<open>The memory for all paths.\<close>
  "path_bytes path [] = 0"
| "path_bytes path (e # es) =
     (case e of
        Directory n (Some es') \<Rightarrow>
          if is_dot n then 0 else length path + length n + 2 + path_bytes (path @ ''/'' @ n) es'
      | _ \<Rightarrow> 0) + path_bytes path es"
  by pat_completeness auto

termination
  by (relation "measure (\<lambda>(_, es). size_list size es)") auto

section \<open>Correctness\<close>

definition ls_result :: "string \<Rightarrow> dirent list \<Rightarrow> addr option \<Rightarrow> ls_state \<Rightarrow> int \<Rightarrow> ls_state \<Rightarrow> bool" where
  "ls_result path es np s r s' \<longleftrightarrow>
     (r = 1 \<or> r = -1) \<and> heap_wf (ls_heap s') \<and> hp_bad (ls_heap s') = hp_bad (ls_heap s) \<and>
     (\<forall>x\<in>set (hp_live (ls_heap s)). Some x \<noteq> np \<longrightarrow> x \<in> set (hp_live (ls_heap s'))) \<and>
     (\<exists>rest. ls_out s' @ rest = ls_out s @ tree_text (dirdepth s) es) \<and>
     (r = 1 \<longrightarrow> all_open es \<and> ls_out s' = ls_out s @ tree_text (dirdepth s) es \<and> dirdepth s' = dirdepth s - 1 \<and>
        ls_open s' = ls_open s - 1 \<and>
        length (hp_live (ls_heap s')) + of_bool (np \<noteq> None) = length (hp_live (ls_heap s)) + lost_paths (np \<noteq> None) es) \<and>
     (\<forall>m. all_open es \<longrightarrow> plenty (path_bytes path es + m) (ls_heap s) \<longrightarrow> r = 1 \<and> plenty m (ls_heap s'))"

definition ls_ready :: "addr option \<Rightarrow> ls_state \<Rightarrow> bool" where
  "ls_ready np s \<longleftrightarrow> heap_wf (ls_heap s) \<and> 0 < ls_open s \<and> (\<forall>a. np = Some a \<longrightarrow> a \<in> set (hp_live (ls_heap s)))"

lemma ls_end:
  assumes "ls_ready np s"
  shows "ls_result path [] np s 1 (s\<lparr>ls_open := ls_open s - 1, ls_heap := cfree np (ls_heap s), dirdepth := dirdepth s - 1\<rparr>)"
proof -
  have "length (hp_live (cfree np (ls_heap s))) + of_bool (np \<noteq> None) = length (hp_live (ls_heap s))"
  proof (cases np)
    case (Some a)
    then have "a \<in> set (hp_live (ls_heap s))" using assms by (simp add: ls_ready_def)
    then show ?thesis using Some length_pos_if_in_set [of a] by (simp add: cfree_live length_remove1)
  qed simp
  moreover have "x \<in> set (hp_live (cfree np (ls_heap s)))" if "x \<in> set (hp_live (ls_heap s))" "Some x \<noteq> np" for x
    using assms that by (cases np) (auto simp: ls_ready_def cfree_live)
  moreover have "hp_bad (cfree np (ls_heap s)) = hp_bad (ls_heap s)" using assms by (cases np) (auto simp: ls_ready_def cfree_live)
  ultimately show ?thesis using assms unfolding ls_result_def by (auto simp: ls_ready_def cfree_wf plenty_free)
qed

lemma ls_print_ready [simp]: "ls_ready np (s\<lparr>ls_out := out\<rparr>) = ls_ready np s"
  by (simp add: ls_ready_def)

lemma ls_skip:
  \<comment> \<open>An entry that is only printed.\<close>
  assumes "ls_result path es np (s\<lparr>ls_out := ls_out s @ ls_line (dirdepth s) e\<rparr>) r s'"
    and "case e of Other n \<Rightarrow> True | Directory n sub \<Rightarrow> is_dot n"
  shows "ls_result path (e # es) np s r s'"
  using assms unfolding ls_result_def by (auto split: dirent.splits option.splits)

lemma ls_enter:
  assumes rd: "ls_ready np s" and n: "\<not> is_dot n" and a: "malloc (length path + length n + 2) (ls_heap s) = (Some a, h)"
    and s1: "s1 = s\<lparr>ls_out := ls_out s @ ls_line (dirdepth s) (Directory n (Some es')), dirdepth := dirdepth s + 1, ls_heap := h, ls_open := ls_open s + 1\<rparr>"
    and sub: "ls_result (path @ ''/'' @ n) es' None s1 r s3"
  shows "r = 1 \<Longrightarrow> ls_ready (Some a) s3" "r = 1 \<Longrightarrow> ls_result path es (Some a) s3 r' s' \<Longrightarrow> ls_result path (Directory n (Some es') # es) np s r' s'"
    "r = -1 \<Longrightarrow> ls_result path (Directory n (Some es') # es) np s (-1) (s3\<lparr>ls_open := ls_open s3 - 1, ls_heap := cfree (Some a) (ls_heap s3)\<rparr>)"
proof -
  note A = malloc_SomeD [OF a]
  have wf: "heap_wf (ls_heap s)" using rd by (simp add: ls_ready_def)
  have fresh: "a \<notin> set (hp_live (ls_heap s))" by (rule malloc_fresh [OF wf a])
  have live: "a \<in> set (hp_live (ls_heap s3))" "\<forall>x\<in>set (hp_live (ls_heap s)). x \<in> set (hp_live (ls_heap s3))"
    using sub A unfolding ls_result_def s1 by auto
  show rd': "ls_ready (Some a) s3" if "r = 1" using sub that live rd unfolding ls_result_def ls_ready_def s1 by auto
  have pl: "plenty (path_bytes (path @ ''/'' @ n) es' + m) h"
    if "plenty (length path + length n + 2 + path_bytes (path @ ''/'' @ n) es' + m) (ls_heap s)" for m
    using plenty_malloc [OF that, of "length path + length n + 2" "path_bytes (path @ ''/'' @ n) es' + m"] a by auto
  have S: "heap_wf (ls_heap s3)" "hp_bad (ls_heap s3) = hp_bad (ls_heap s)" using sub A unfolding ls_result_def s1 by simp_all
  show "ls_result path (Directory n (Some es') # es) np s r' s'" if r: "r = 1" and rest: "ls_result path es (Some a) s3 r' s'"
  proof -
    let ?t = "ls_line (dirdepth s) (Directory n (Some es')) @ tree_text (dirdepth s + 1) es'"
    have T: "all_open es'" "ls_out s3 = ls_out s @ ?t" "dirdepth s3 = dirdepth s" "ls_open s3 = ls_open s"
      "length (hp_live (ls_heap s3)) = Suc (length (hp_live (ls_heap s))) + lost_paths False es'"
      using sub r A unfolding ls_result_def s1 by simp_all
    have R: "r' = 1 \<or> r' = -1" "heap_wf (ls_heap s')" "hp_bad (ls_heap s') = hp_bad (ls_heap s)"
      "\<exists>rest. ls_out s' @ rest = ls_out s @ ?t @ tree_text (dirdepth s) es"
      "r' = 1 \<longrightarrow> all_open es \<and> ls_out s' = ls_out s @ ?t @ tree_text (dirdepth s) es \<and> dirdepth s' = dirdepth s - 1 \<and>
        ls_open s' = ls_open s - 1 \<and>
        Suc (length (hp_live (ls_heap s'))) = length (hp_live (ls_heap s3)) + lost_paths True es"
      using rest S(2) unfolding ls_result_def T(2-4) append_assoc by simp_all
    have X: "\<forall>x\<in>set (hp_live (ls_heap s)). x \<in> set (hp_live (ls_heap s'))"
      using rest live(2) fresh unfolding ls_result_def by auto
    have P: "r' = 1 \<and> plenty m (ls_heap s')"
      if "all_open es" "plenty (path_bytes path (Directory n (Some es') # es) + m) (ls_heap s)" for m
    proof -
      have "plenty (length path + length n + 2 + path_bytes (path @ ''/'' @ n) es' + (path_bytes path es + m)) (ls_heap s)"
        using that(2) n by (simp add: add.assoc)
      from pl [OF this] T(1) sub have "plenty (path_bytes path es + m) (ls_heap s3)" unfolding ls_result_def s1 by auto
      then show ?thesis using rest that(1) unfolding ls_result_def by auto
    qed
    show ?thesis unfolding ls_result_def
      by (intro conjI) (use R X P T(1,5) n in \<open>simp_all\<close>)
  qed
  show "ls_result path (Directory n (Some es') # es) np s (-1) (s3\<lparr>ls_open := ls_open s3 - 1, ls_heap := cfree (Some a) (ls_heap s3)\<rparr>)"
    if r: "r = -1"
  proof -
    have "x \<in> set (hp_live (cfree (Some a) (ls_heap s3)))" if "x \<in> set (hp_live (ls_heap s))" for x
    proof -
      have "x \<noteq> a" using fresh that by blast
      then show ?thesis using live that by (simp add: cfree_live)
    qed
    moreover have "\<not> plenty (path_bytes path (Directory n (Some es') # es) + m) (ls_heap s)" if "all_open es'" for m
    proof
      assume "plenty (path_bytes path (Directory n (Some es') # es) + m) (ls_heap s)"
      then have "plenty (length path + length n + 2 + path_bytes (path @ ''/'' @ n) es' + (path_bytes path es + m)) (ls_heap s)"
        using n by (simp add: add.assoc)
      from pl [OF this] that sub r show False unfolding ls_result_def s1 by auto
    qed
    moreover have "\<exists>rest. ls_out s3 @ rest = ls_out s @ tree_text (dirdepth s) (Directory n (Some es') # es)"
    proof -
      obtain rest where "ls_out s3 @ rest = ls_out s @ ls_line (dirdepth s) (Directory n (Some es')) @ tree_text (dirdepth s + 1) es'"
        using sub unfolding ls_result_def s1 by auto
      then show ?thesis using n by (intro exI [of _ "rest @ tree_text (dirdepth s) es"]) (simp add: append_eq_append_conv2 flip: append_assoc)
    qed
    moreover have "heap_wf (ls_heap s3)" "hp_bad (ls_heap s3) = hp_bad (ls_heap s)" using sub A unfolding ls_result_def s1 by auto
    moreover from cfree_wf [OF this(1), of "Some a"] have "heap_wf (cfree (Some a) (ls_heap s3))" .
    ultimately show ?thesis using n live(1) unfolding ls_result_def by (intro conjI) (simp_all add: cfree_live)
  qed
qed

lemma ls_refused:
  assumes rd: "ls_ready np s" and n: "\<not> is_dot n"
    and m: "malloc (length path + length n + 2) (ls_heap s) = (r, h)" "r = None \<or> sub = None"
  shows "ls_result path (Directory n sub # es) np s (-1)
    (case r of None \<Rightarrow> s\<lparr>ls_out := ls_out s @ ls_line (dirdepth s) (Directory n sub), dirdepth := dirdepth s + 1, ls_heap := h\<rparr>
     | Some a \<Rightarrow> s\<lparr>ls_out := ls_out s @ ls_line (dirdepth s) (Directory n sub), dirdepth := dirdepth s + 1,
         ls_open := ls_open s - 1, ls_heap := cfree (Some a) h\<rparr>)"
proof -
  have wf: "heap_wf (ls_heap s)" using rd by (simp add: ls_ready_def)
  show ?thesis
  proof (cases r)
    case None
    have "\<not> plenty (path_bytes path (Directory n sub # es) + k) (ls_heap s)" if o: "all_open (Directory n sub # es)" for k
    proof
      assume p: "plenty (path_bytes path (Directory n sub # es) + k) (ls_heap s)"
      obtain es' where "sub = Some es'" using o n by (cases sub) auto
      then have "max (length path + length n + 2) 1 + (path_bytes (path @ ''/'' @ n) es' + path_bytes path es + k) \<le>
          path_bytes path (Directory n sub # es) + k" using n by simp
      from plenty_malloc [OF p this] m(1) None show False by auto
    qed
    then show ?thesis using None malloc_NoneD [OF m(1) [unfolded None]] malloc_wf [OF wf m(1)] unfolding ls_result_def by auto
  next
    case (Some a)
    note A = malloc_SomeD [OF m(1) [unfolded Some]]
    have "cfree (Some a) h = h\<lparr>hp_live := hp_live (ls_heap s)\<rparr>" using A by (simp add: cfree_live)
    moreover have "\<not> all_open (Directory n sub # es)" using Some m(2) n by simp
    moreover have "heap_wf (cfree (Some a) h)" by (rule cfree_wf [OF malloc_wf [OF wf m(1)]])
    ultimately show ?thesis using Some A unfolding ls_result_def by auto
  qed
qed

lemma list_entries_ok:
  "ls_ready np s \<Longrightarrow> list_entries path es np s = (r, s') \<Longrightarrow> ls_result path es np s r s'"
proof (induction "size_list size es" arbitrary: path es np s r s' rule: less_induct)
  case less
  show ?case
  proof (cases es)
    case Nil
    with less.prems ls_end show ?thesis by auto
  next
    case (Cons e es')
    let ?s = "s\<lparr>ls_out := ls_out s @ ls_line (dirdepth s) e\<rparr>"
    have ih: "ls_result path es' np ?s r s'" if "list_entries path es' np ?s = (r, s')"
      by (rule less.hyps [OF _ _ that]) (use less.prems(1) Cons in simp_all)
    show ?thesis
    proof (cases "case e of Other n \<Rightarrow> True | Directory n sub \<Rightarrow> is_dot n")
      case True
      then have "list_entries path es' np ?s = (r, s')"
        using less.prems(2) Cons by (cases e) (simp_all add: list_entries.simps(2))
      from ls_skip [OF ih [OF this] True] show ?thesis using Cons by simp
    next
      case False
      then obtain n sub where e: "e = Directory n sub" "\<not> is_dot n" by (cases e) auto
      obtain ra h where m: "malloc (length path + length n + 2) (ls_heap s) = (ra, h)" by force
      note run = less.prems(2) [unfolded Cons e(1), simplified list_entries.simps(2)]
      show ?thesis
      proof (cases "ra = None \<or> sub = None")
        case True
        then have "r = -1" "s' = (case ra of None \<Rightarrow> s\<lparr>ls_out := ls_out s @ ls_line (dirdepth s) e, dirdepth := dirdepth s + 1, ls_heap := h\<rparr>
           | Some a \<Rightarrow> s\<lparr>ls_out := ls_out s @ ls_line (dirdepth s) e, dirdepth := dirdepth s + 1,
               ls_open := ls_open s - 1, ls_heap := cfree (Some a) h\<rparr>)"
          using run m [simplified] e by (auto simp: Let_def split: option.splits)
        with ls_refused [OF less.prems(1) e(2) m True, of es'] show ?thesis unfolding Cons e(1) by simp
      next
        case False
        then obtain a sub' where a: "ra = Some a" "sub = Some sub'" by auto
        let ?s1 = "s\<lparr>ls_out := ls_out s @ ls_line (dirdepth s) (Directory n (Some sub')), dirdepth := dirdepth s + 1, ls_heap := h, ls_open := ls_open s + 1\<rparr>"
        obtain r3 s3 where sub: "list_entries (path @ ''/'' @ n) sub' None ?s1 = (r3, s3)" by force
        have "heap_wf (ls_heap s)" using less.prems(1) by (simp add: ls_ready_def)
        then have "ls_ready None ?s1" using malloc_wf [OF _ m] by (simp add: ls_ready_def)
        from less.hyps [OF _ this sub] have res: "ls_result (path @ ''/'' @ n) sub' None ?s1 r3 s3" by (simp add: Cons e(1) a(2))
        note enter = ls_enter [OF less.prems(1) e(2) m [unfolded a(1)] HOL.refl res]
        have r3: "r3 = 1 \<or> r3 = -1" using res by (simp add: ls_result_def)
        show ?thesis
        proof (cases "r3 = 1")
          case True
          then have "list_entries path es' (Some a) s3 = (r, s')" using run m [simplified] a e(2) sub by simp
          from less.hyps [OF _ enter(1) [OF True] this] enter(2) [OF True] show ?thesis by (simp add: Cons e(1) a(2))
        next
          case False
          with r3 have "r = -1" "s' = s3\<lparr>ls_open := ls_open s3 - 1, ls_heap := cfree (Some a) (ls_heap s3)\<rparr>"
            using run m [simplified] a e(2) sub by simp_all
          then show ?thesis using enter(3) r3 False by (simp add: Cons e(1) a(2))
        qed
      qed
    qed
  qed
qed

section \<open>Properties\<close>

definition ls_world :: "32 word \<Rightarrow> cheap \<Rightarrow> ls_state" where
  "ls_world d h = \<lparr>dirdepth = d, ls_heap = h, ls_open = 0, ls_out = ''''\<rparr>"

lemma listdir_ok:
  assumes "heap_wf h" "listdir path (Some es) (ls_world d h) = (r, s')"
  shows "ls_result path es None \<lparr>dirdepth = d, ls_heap = h, ls_open = 1, ls_out = ''''\<rparr> r s'"
  using assms by (intro list_entries_ok) (simp_all add: ls_ready_def listdir_def ls_world_def)

definition ex_tree :: "dirent list" where
  "ex_tree = [Directory ''.'' None, Directory ''..'' None, Directory ''a'' (Some [Other ''f'']), Directory ''b'' (Some [])]"

definition ex_ls_heap :: cheap where
  "ex_ls_heap = \<lparr>hp_next = 16, hp_limit = 100, hp_live = [], hp_sched = [], hp_bad = False\<rparr>"

text \<open>C35: When all directories can be opened and the memory for the paths is there, the program prints the
  tree in preorder, indented by depth, and closes what it opened. It loses the paths of all subdirectories of a
  directory but the last, and leaves \<open>dirdepth\<close> one too low: at the end it has wrapped around.\<close>

theorem listdir_prints:
  assumes "heap_wf h" "all_open es" "plenty (path_bytes path es) h"
  shows "\<exists>s'. listdir path (Some es) (ls_world d h) = (1, s') \<and> ls_out s' = tree_text d es \<and> dirdepth s' = d - 1 \<and>
    ls_open s' = 0 \<and> hp_bad (ls_heap s') = hp_bad h \<and> set (hp_live h) \<subseteq> set (hp_live (ls_heap s')) \<and>
    length (hp_live (ls_heap s')) = length (hp_live h) + lost_paths False es"
proof -
  obtain r s' where r: "listdir path (Some es) (ls_world d h) = (r, s')" by force
  from listdir_ok [OF assms(1) r] have R: "ls_result path es None \<lparr>dirdepth = d, ls_heap = h, ls_open = 1, ls_out = ''''\<rparr> r s'" .
  have "r = 1" using R assms(2,3) unfolding ls_result_def by (metis Nat.add_0_right ls_state.select_convs(2))
  with R r show ?thesis unfolding ls_result_def by auto
qed

lemma listdir_prints_witness:
  "\<exists>s'. listdir ''d'' (Some ex_tree) (ls_world 0 ex_ls_heap) = (1, s') \<and> dirdepth s' = -1 \<and> length (hp_live (ls_heap s')) = 1 \<and>
    ls_out s' = ''[.]'' @ [CHR 0x0A] @ ''[..]'' @ [CHR 0x0A] @ ''[a]'' @ [CHR 0x0A] @ ''  f'' @ [CHR 0x0A] @ ''[b]'' @ [CHR 0x0A]"
proof -
  have "heap_wf ex_ls_heap" "all_open ex_tree" "plenty (path_bytes ''d'' ex_tree) ex_ls_heap" "lost_paths False ex_tree = 1"
    "hp_live ex_ls_heap = []"
    "tree_text 0 ex_tree = ''[.]'' @ [CHR 0x0A] @ ''[..]'' @ [CHR 0x0A] @ ''[a]'' @ [CHR 0x0A] @ ''  f'' @ [CHR 0x0A] @ ''[b]'' @ [CHR 0x0A]"
    by (simp_all add: ex_tree_def ex_ls_heap_def heap_wf_def plenty_def is_dot_def ls_line_def)
  with listdir_prints [of ex_ls_heap ex_tree "''d''" 0] show ?thesis by auto
qed

text \<open>C36: Whatever directory cannot be opened and whichever \<open>malloc\<close> is refused, the program returns, releases nothing
  that is not its own, and what it has printed is the beginning of the listing: the first failure ends it,
  also for the directories above. It fails precisely if there was a failure.\<close>

theorem listdir_fails_early:
  assumes "heap_wf h" "listdir path (Some es) (ls_world d h) = (r, s')"
  shows "(\<exists>rest. tree_text d es = ls_out s' @ rest) \<and> (r = 1 \<and> all_open es \<and> ls_out s' = tree_text d es \<or> r = -1 \<and>
      \<not> (all_open es \<and> plenty (path_bytes path es) h)) \<and>
    hp_bad (ls_heap s') = hp_bad h \<and> set (hp_live h) \<subseteq> set (hp_live (ls_heap s'))"
proof -
  have R: "ls_result path es None \<lparr>dirdepth = d, ls_heap = h, ls_open = 1, ls_out = ''''\<rparr> r s'" by (rule listdir_ok [OF assms])
  have "all_open es \<and> plenty (path_bytes path es) h \<longrightarrow> r = 1"
    using R unfolding ls_result_def by (metis Nat.add_0_right ls_state.select_convs(2))
  moreover have "r = 1 \<or> r = -1" "r = 1 \<longrightarrow> all_open es \<and> ls_out s' = tree_text d es" "hp_bad (ls_heap s') = hp_bad h"
    "set (hp_live h) \<subseteq> set (hp_live (ls_heap s'))"
    using R unfolding ls_result_def by auto
  moreover obtain rest where "ls_out s' @ rest = tree_text d es" using R unfolding ls_result_def by auto
  then have "\<exists>rest. tree_text d es = ls_out s' @ rest" by metis
  ultimately show ?thesis by argo
qed

lemma listdir_fails_early_witness:
  "listdir ''d'' (Some [Other ''x'', Directory ''a'' None, Other ''y'']) (ls_world 0 ex_ls_heap) =
     (-1, \<lparr>dirdepth = 1, ls_heap = ex_ls_heap\<lparr>hp_next := 20\<rparr>, ls_open = 0, ls_out = ''x'' @ [CHR 0x0A] @ ''[a]'' @ [CHR 0x0A]\<rparr>) \<and>
   (\<exists>rest. tree_text 0 [Other ''x'', Directory ''a'' None, Other ''y''] = (''x'' @ [CHR 0x0A] @ ''[a]'' @ [CHR 0x0A]) @ rest)"
proof -
  have r: "listdir ''d'' (Some [Other ''x'', Directory ''a'' None, Other ''y'']) (ls_world 0 ex_ls_heap) =
     (-1, \<lparr>dirdepth = 1, ls_heap = ex_ls_heap\<lparr>hp_next := 20\<rparr>, ls_open = 0, ls_out = ''x'' @ [CHR 0x0A] @ ''[a]'' @ [CHR 0x0A]\<rparr>)"
    by (simp add: listdir_def ls_world_def list_entries.simps(2) ls_line_def is_dot_def malloc_def ex_ls_heap_def cfree_def)
  moreover have "heap_wf ex_ls_heap" by (simp add: ex_ls_heap_def heap_wf_def)
  ultimately show ?thesis using listdir_fails_early [OF _ r] by auto
qed

end
