(* ===== verification/Homework.thy ===== *)
theory Homework imports Prelude begin

text \<open>
  Two programs of \<open>homework\<close>: \<open>bitmap.c\<close>, which keeps one bit for each of a number of blocks, and
  \<open>charfreq.c\<close>, which counts the letters of a text and draws their histogram.
\<close>

unbundle bit_operations_syntax

fun dec_digits :: "nat \<Rightarrow> string" where
  "dec_digits n = (if n < 10 then [char_of (48 + n)] else dec_digits (n div 10) @ [char_of (48 + n mod 10)])"

declare dec_digits.simps [simp del]

definition dec_pad :: "nat \<Rightarrow> char \<Rightarrow> nat \<Rightarrow> string" where
  \<comment> \<open>\<open>%<w>u\<close>, filled up with the given character.\<close>
  "dec_pad w c n = (let s = dec_digits n in replicate (w - length s) c @ s)"

section \<open>The bitmap\<close>

definition CHAR_BIT :: "32 word" where "CHAR_BIT = 8"

definition is_blk_free :: "8 word list \<Rightarrow> 32 word \<Rightarrow> bool option" where
  "is_blk_free array nblk =
     (let idx = nblk div CHAR_BIT;
          u = nblk - CHAR_BIT * idx
      in if unat idx < length array then Some (array ! unat idx AND push_bit (unat u) 1 = 0) else None)"

definition blk_line :: "nat \<Rightarrow> bool \<Rightarrow> string" where
  "blk_line i free = ''blk['' @ dec_pad 4 (CHR ''0'') i @ ''] = '' @ (if free then ''FREE'' else ''USED'') @ [CHR 0x0A]"

fun print_blks :: "8 word list \<Rightarrow> nat list \<Rightarrow> string option" where
  \<comment> \<open>The loop, over the values that \<open>i\<close> takes.\<close>
  "print_blks array [] = Some ''''"
| "print_blks array (i # is) =
     do { free \<leftarrow> is_blk_free array (of_nat i);
          rest \<leftarrow> print_blks array is;
          Some (blk_line i free @ rest) }"

definition bitmap_narr :: "32 word \<Rightarrow> 32 word" where
  "bitmap_narr nblks =
     (let u = nblks - CHAR_BIT * (nblks div CHAR_BIT)
      in if u = 0 then nblks div CHAR_BIT else nblks div CHAR_BIT + 1)"

definition bitmap_main :: "32 word \<Rightarrow> cheap \<Rightarrow> ((bool \<times> string) \<times> cheap) option" where
  \<comment> \<open>\<open>main\<close> for an argument that reads as \<open>nblks\<close>: whether it exits with \<open>EXIT_SUCCESS\<close>, and what it prints.\<close>
  "bitmap_main nblks h =
     (let narr = bitmap_narr nblks;
          out = ''Requested nblks = '' @ dec_digits (unat nblks) @ [CHR 0x09] @ ''Allocating narr = '' @
                dec_digits (unat narr) @ '' chars'' @ [CHR 0x0A]
      in case malloc (unat narr) h of
           (None, h1) \<Rightarrow> Some ((False, out), h1)
         | (Some p, h1) \<Rightarrow>
             let array = replicate (unat narr) 0 in do {
               out1 \<leftarrow> print_blks array [0..<unat nblks];
               let array' = foldl (\<lambda>a i. a[i := 0xFF]) array [0..<unat narr];
               out2 \<leftarrow> print_blks array' [0..<unat nblks];
               Some ((True, out @ out1 @ out2), cfree (Some p) h1) })"

lemma is_blk_free_bit:
  assumes "unat nblk div 8 < length array"
  shows "is_blk_free array nblk = Some (\<not> bit (array ! (unat nblk div 8)) (unat nblk mod 8))"
proof -
  have d: "unat (nblk div CHAR_BIT) = unat nblk div 8" by (simp add: CHAR_BIT_def unat_div)
  have "nblk - CHAR_BIT * (nblk div CHAR_BIT) = nblk mod CHAR_BIT" by (simp add: minus_mult_div_eq_mod)
  then have u: "unat (nblk - CHAR_BIT * (nblk div CHAR_BIT)) = unat nblk mod 8" by (simp add: CHAR_BIT_def unat_mod)
  let ?b = "array ! (unat nblk div 8)" and ?i = "unat nblk mod 8"
  have "(?b AND push_bit ?i 1 = 0) = (\<not> bit ?b ?i)"
  proof
    assume z: "?b AND push_bit ?i 1 = 0"
    have "bit (?b AND push_bit ?i 1) ?i = bit ?b ?i" by (simp add: bit_simps)
    with z show "\<not> bit ?b ?i" by simp
  next
    assume "\<not> bit ?b ?i"
    then show "?b AND push_bit ?i 1 = 0" by (intro bit_eqI) (auto simp: bit_simps bit_1_iff)
  qed
  then show ?thesis using assms d u by (simp add: is_blk_free_def Let_def)
qed

lemma ceil_div8: "(n + 7) div 8 = (if n mod 8 = 0 then n div 8 else n div 8 + 1)" for n :: nat
proof -
  have "n + 7 = n mod 8 + 7 + 8 * (n div 8)" using mult_div_mod_eq [of 8 n] by linarith
  then have "(n + 7) div 8 = (n mod 8 + 7) div 8 + n div 8" by (metis add.commute div_mult_self2 zero_neq_numeral)
  moreover have "(n mod 8 + 7) div 8 = 1" if "n mod 8 \<noteq> 0"
  proof (rule div_nat_eqI)
    have "n mod 8 < 8" by simp
    then show "n mod 8 + 7 < 8 * Suc 1" by simp
    show "8 * 1 \<le> n mod 8 + 7" using that by simp
  qed
  ultimately show ?thesis by simp
qed

lemma bitmap_narr_ceil: "unat (bitmap_narr nblks) = (unat nblks + 7) div 8"
proof -
  have u: "nblks - CHAR_BIT * (nblks div CHAR_BIT) = nblks mod CHAR_BIT" by (simp add: minus_mult_div_eq_mod)
  have d: "unat (nblks div CHAR_BIT) = unat nblks div 8" "unat (nblks mod CHAR_BIT) = unat nblks mod 8"
    by (simp_all add: CHAR_BIT_def unat_div unat_mod)
  have z: "nblks mod CHAR_BIT = 0 \<longleftrightarrow> unat nblks mod 8 = 0" using d(2) by (metis unat_0 unsigned_word_eqI)
  have "unat nblks < 2 ^ LENGTH(32)" by (rule unsigned_less)
  then have "unat nblks div 8 + 1 < 2 ^ 32" by simp
  then have "unat (nblks div CHAR_BIT + 1) = unat nblks div 8 + 1" using d(1) by (simp add: unat_word_ariths)
  then show ?thesis unfolding bitmap_narr_def Let_def u using d z ceil_div8 [of "unat nblks"] by simp
qed

lemma print_blks_ok:
  assumes "\<forall>i\<in>set is. i < 2 ^ 32 \<and> i div 8 < length array \<and> bit (array ! (i div 8)) (i mod 8) = used"
  shows "print_blks array is = Some (concat (map (\<lambda>i. blk_line i (\<not> used)) is))"
  using assms
proof (induction "is")
  case (Cons i "is")
  have "unat (of_nat i :: 32 word) = i" using Cons.prems by (simp add: unsigned_of_nat take_bit_nat_eq_self)
  then have "is_blk_free array (of_nat i) = Some (\<not> used)" using is_blk_free_bit [of "of_nat i" array] Cons.prems by simp
  with Cons show ?case by simp
qed simp

lemma foldl_fill: "foldl (\<lambda>a i. a[i := v]) xs [0..<length xs] = replicate (length xs) v"
proof -
  have "n \<le> length xs \<Longrightarrow> foldl (\<lambda>a i. a[i := v]) xs [0..<n] = replicate n v @ drop n xs" for n
  proof (induction n)
    case (Suc n)
    then have "drop n xs = xs ! n # drop (Suc n) xs" by (simp add: Cons_nth_drop_Suc)
    with Suc show ?case by (simp add: list_update_append replicate_append_same)
  qed simp
  from this [of "length xs"] show ?thesis by simp
qed

text \<open>C38: For every number of blocks the array is just long enough, no access is outside of it, all
  blocks are printed free and then, with all bits set, used; the array is released.\<close>

theorem bitmap_correct:
  assumes "heap_wf h"
  shows "\<exists>h'. bitmap_main nblks h =
    Some (if fst (malloc ((unat nblks + 7) div 8) h) = None
      then ((False, ''Requested nblks = '' @ dec_digits (unat nblks) @ [CHR 0x09] @ ''Allocating narr = '' @
          dec_digits ((unat nblks + 7) div 8) @ '' chars'' @ [CHR 0x0A]), h')
      else ((True, ''Requested nblks = '' @ dec_digits (unat nblks) @ [CHR 0x09] @ ''Allocating narr = '' @
          dec_digits ((unat nblks + 7) div 8) @ '' chars'' @ [CHR 0x0A] @
          concat (map (\<lambda>i. blk_line i True) [0..<unat nblks]) @ concat (map (\<lambda>i. blk_line i False) [0..<unat nblks])), h')) \<and>
    hp_live h' = hp_live h \<and> hp_bad h' = hp_bad h"
proof -
  let ?n = "(unat nblks + 7) div 8"
  have lt: "unat nblks < 2 ^ 32" using unsigned_less [of nblks] by simp
  obtain r h1 where m: "malloc ?n h = (r, h1)" by force
  have in_range: "i div 8 < ?n" if "i < unat nblks" for i using that by linarith
  have free: "print_blks (replicate ?n 0) [0..<unat nblks] = Some (concat (map (\<lambda>i. blk_line i (\<not> False)) [0..<unat nblks]))"
    by (rule print_blks_ok) (use lt in_range in \<open>auto\<close>)
  have ff: "bit (0xFF :: 8 word) k" if "k < 8" for k
  proof -
    have m1: "(0xFF :: 8 word) = - 1" by simp
    show ?thesis unfolding m1 using that by (simp only: bit_minus_1_iff) simp
  qed
  have used: "print_blks (replicate ?n 0xFF) [0..<unat nblks] = Some (concat (map (\<lambda>i. blk_line i (\<not> True)) [0..<unat nblks]))"
    by (rule print_blks_ok) (use lt in_range ff in \<open>auto\<close>)
  have fill: "foldl (\<lambda>a i. a[i := 0xFF]) (replicate ?n 0) [0..<?n] = (replicate ?n 0xFF :: 8 word list)"
    using foldl_fill [of "0xFF :: 8 word" "replicate ?n 0"] by simp
  show ?thesis
  proof (cases r)
    case None
    then show ?thesis using m malloc_NoneD [of ?n h h1] by (simp add: bitmap_main_def bitmap_narr_ceil)
  next
    case (Some p)
    have "hp_live (cfree (Some p) h1) = hp_live h" "hp_bad (cfree (Some p) h1) = hp_bad h"
      using malloc_SomeD [OF m [unfolded Some]] by (simp_all add: cfree_live)
    then show ?thesis using m Some free used fill by (simp add: bitmap_main_def bitmap_narr_ceil)
  qed
qed

definition ex_bitmap_heap :: cheap where
  "ex_bitmap_heap = \<lparr>hp_next = 16, hp_limit = 100, hp_live = [], hp_sched = [], hp_bad = False\<rparr>"

lemma bitmap_correct_witness:
  "\<exists>h'. bitmap_main 1 ex_bitmap_heap = Some ((True, ''Requested nblks = 1'' @ [CHR 0x09] @ ''Allocating narr = 1 chars'' @ [CHR 0x0A] @
     ''blk[0000] = FREE'' @ [CHR 0x0A] @ ''blk[0000] = USED'' @ [CHR 0x0A]), h') \<and> hp_live h' = []"
proof -
  have z: "dec_digits 0 = ''0''" "dec_digits 1 = ''1''" by (subst dec_digits.simps, simp add: char_of_def bit_0)+
  have "replicate 3 (CHR ''0'') = ''000''" by code_simp
  then have "dec_pad 4 (CHR ''0'') 0 = ''0000''" by (simp add: dec_pad_def z)
  moreover have "heap_wf ex_bitmap_heap" "fst (malloc 1 ex_bitmap_heap) = Some 16" "hp_live ex_bitmap_heap = []"
    by (simp_all add: ex_bitmap_heap_def heap_wf_def malloc_def)
  ultimately show ?thesis using z(2) bitmap_correct [of ex_bitmap_heap 1] by (auto simp: blk_line_def)
qed

section \<open>The frequencies of letters\<close>

definition toupper :: "nat \<Rightarrow> nat" where
  \<comment> \<open>In the C locale.\<close>
  "toupper c = (if 97 \<le> c \<and> c \<le> 122 then c - 32 else c)"

fun count_letters :: "8 word list \<Rightarrow> 32 word list \<Rightarrow> 32 word list" where
  "count_letters [] freq = freq"
| "count_letters (b # bs) freq =
     (let c = toupper (unat b)
      in count_letters bs (if 65 \<le> c \<and> c \<le> 90 then freq[c - 65 := freq ! (c - 65) + 1] else freq))"

fun max_freq :: "32 word list \<Rightarrow> nat list \<Rightarrow> 32 word \<Rightarrow> 32 word" where
  \<comment> \<open>The loop as it is written: \<open>maxf\<close> starts as a frequency and goes on as an index.\<close>
  "max_freq freq [] maxf = maxf"
| "max_freq freq (i # is) maxf = max_freq freq is (if freq ! i > maxf then of_nat i else maxf)"

definition freq_row :: "32 word list \<Rightarrow> nat \<Rightarrow> string" where
  "freq_row freq i =
     dec_pad 3 (CHR '' '') i @ ''| '' @ map (\<lambda>j. if unat (freq ! j) \<ge> i then CHR ''*'' else CHR '' '') [0..<26] @ [CHR 0x0A]"

definition charfreq_main :: "8 word list \<Rightarrow> string option" where
  \<comment> \<open>What \<open>main\<close> prints for a file with the given text. Reading \<open>freq\<close> outside of its 26 elements is undefined.\<close>
  "charfreq_main inp =
     (let freq = count_letters inp (replicate 26 0);
          maxf = max_freq freq [1..<26] (freq ! 0)
      in if unat maxf < 26 then
           Some (concat (map (freq_row freq) (rev [1..<unat (freq ! unat maxf) + 1])) @
             ''     '' @ map (\<lambda>i. char_of (65 + i)) [0..<26 :: nat] @ [CHR 0x0A])
         else None)"

definition letter_count :: "8 word list \<Rightarrow> nat \<Rightarrow> nat" where
  \<comment> \<open>How often letter \<open>k\<close> of the alphabet is in a text, large or small.\<close>
  "letter_count inp k = length (filter (\<lambda>b. unat b = 65 + k \<or> unat b = 97 + k) inp)"

lemma count_letters_length: "length (count_letters inp freq) = length freq"
  by (induction inp freq rule: count_letters.induct) (simp_all add: Let_def)

lemma toupper_letter: "k < 26 \<Longrightarrow> toupper c = 65 + k \<longleftrightarrow> c = 65 + k \<or> c = 97 + k"
  by (auto simp: toupper_def)

lemma count_letters_nth:
  "length freq = 26 \<Longrightarrow> k < 26 \<Longrightarrow> count_letters inp freq ! k = freq ! k + of_nat (letter_count inp k)"
proof (induction inp freq rule: count_letters.induct)
  case (2 b bs freq)
  let ?c = "toupper (unat b)"
  have "(65 \<le> ?c \<and> ?c \<le> 90 \<and> ?c - 65 = k) = (?c = 65 + k)" using 2(3) by auto
  then have hit: "(65 \<le> ?c \<and> ?c \<le> 90 \<and> ?c - 65 = k) = (unat b = 65 + k \<or> unat b = 97 + k)"
    using toupper_letter [OF 2(3)] by simp
  show ?case
  proof (cases "65 \<le> ?c \<and> ?c \<le> 90")
    case True
    then show ?thesis using 2 hit by (auto simp: Let_def letter_count_def nth_list_update)
  next
    case False
    then show ?thesis using 2 hit by (auto simp: Let_def letter_count_def)
  qed
qed (simp add: letter_count_def)

lemma max_freq_stays: "\<forall>i\<in>set is. freq ! i \<le> maxf \<Longrightarrow> max_freq freq is maxf = maxf"
  by (induction "is") (auto simp: not_less)

text \<open>The counts of letters are right, but the search for the largest one is not: it compares
  frequencies with an index. When \<open>A\<close> is as frequent as any letter, its number is taken for an index: from 26 on the program reads
  outside of its array, and below it draws as many rows as the letter of that number occurs.\<close>

theorem charfreq_wrong_maximum:
  assumes "\<forall>k<26. letter_count inp k \<le> letter_count inp 0" "letter_count inp 0 < 2 ^ 32"
  shows "(\<forall>k<26. unat (count_letters inp (replicate 26 0) ! k) = letter_count inp k) \<and>
    (26 \<le> letter_count inp 0 \<longrightarrow> charfreq_main inp = None) \<and>
    (letter_count inp 0 < 26 \<longrightarrow> charfreq_main inp =
      Some (concat (map (freq_row (count_letters inp (replicate 26 0))) (rev [1..<letter_count inp (letter_count inp 0) + 1])) @
        ''     '' @ map (\<lambda>i. char_of (65 + i)) [0..<26 :: nat] @ [CHR 0x0A]))"
proof -
  let ?f = "count_letters inp (replicate 26 0)"
  have u: "unat (?f ! k) = letter_count inp k" if "k < 26" for k
  proof -
    have "letter_count inp k < 2 ^ 32" using assms that by (meson le_less_trans)
    then show ?thesis using that by (simp add: count_letters_nth unsigned_of_nat take_bit_nat_eq_self)
  qed
  have "\<forall>i\<in>set [1..<26]. ?f ! i \<le> ?f ! 0" using u assms(1) by (auto simp: word_le_nat_alt)
  then have m: "max_freq ?f [1..<26] (?f ! 0) = ?f ! 0" by (rule max_freq_stays)
  show ?thesis using m u [of 0] u u [of "letter_count inp 0"] by (simp add: charfreq_main_def)
qed

lemma charfreq_wrong_maximum_witness: "charfreq_main (replicate 26 97) = None"
proof -
  have "letter_count (replicate 26 97) k = (if k = 0 then 26 else 0)" if "k < 26" for k
    using that by (auto simp: letter_count_def)
  then show ?thesis using charfreq_wrong_maximum [of "replicate 26 97"] by simp
qed

end
