(* ===== verification/Arrays.thy ===== *)
theory Arrays imports Homework begin

text \<open>
  Three programs of \<open>homework\<close> on small arrays: \<open>qsort2darray.c\<close>, which sorts the rows of a matrix with \<open>qsort\<close>,
  \<open>2darray.c\<close>, which prints a matrix through pointers to its first element, and \<open>tree.c\<close>, which draws a triangle.
\<close>

section \<open>Numbers\<close>

definition dec_int :: "int \<Rightarrow> string" where
  \<comment> \<open>\<open>%d\<close>\<close>
  "dec_int n = (if n < 0 then CHR ''-'' # dec_digits (nat (- n)) else dec_digits (nat n))"

definition dec_int4 :: "int \<Rightarrow> string" where
  \<comment> \<open>\<open>%4d\<close>\<close>
  "dec_int4 n = (let s = dec_int n in replicate (4 - length s) (CHR '' '') @ s)"

section \<open>Sorting the rows of a matrix\<close>

definition mycmp :: "int \<Rightarrow> int \<Rightarrow> int" where
  "mycmp x y = (if x > y then 1 else if x = y then 0 else - 1)"

definition printarray :: "int list list \<Rightarrow> string" where
  "printarray a = concat (map (\<lambda>i. concat (map (\<lambda>j. dec_int4 (a ! i ! j)) [0..<3]) @ [CHR 0x0A]) [0..<3])"

type_synonym qsort_t = "(int \<Rightarrow> int \<Rightarrow> int) \<Rightarrow> int list \<Rightarrow> int list"

definition sort_rows :: "qsort_t \<Rightarrow> int list list \<Rightarrow> int list list" where
  \<comment> \<open>\<open>qsort(a[i], 3, sizeof(int), mycmp)\<close> for each row.\<close>
  "sort_rows qsrt a = foldl (\<lambda>a i. a[i := qsrt mycmp (a ! i)]) a [0..<3]"

definition qsort_main :: "qsort_t \<Rightarrow> string" where
  "qsort_main qsrt =
     (let a = [[1, 10, 3], [4, 0, 6], [70, - 3, 9]]
      in ''UNSORTED'' @ [CHR 0x0A] @ printarray a @ ''SORTED'' @ [CHR 0x0A] @ printarray (sort_rows qsrt a))"

definition consistent :: "('a \<Rightarrow> 'a \<Rightarrow> int) \<Rightarrow> bool" where
  \<comment> \<open>What \<open>qsort\<close> requires of its comparison: a total preorder.\<close>
  "consistent cmp \<longleftrightarrow> (\<forall>x y. sgn (cmp x y) = - sgn (cmp y x)) \<and> (\<forall>x y z. cmp x y \<le> 0 \<longrightarrow> cmp y z \<le> 0 \<longrightarrow> cmp x z \<le> 0)"

definition qsort_spec :: "qsort_t \<Rightarrow> bool" where
  \<comment> \<open>What \<open>qsort\<close> promises: a permutation in ascending order.\<close>
  "qsort_spec qsrt \<longleftrightarrow> (\<forall>cmp xs. consistent cmp \<longrightarrow> mset (qsrt cmp xs) = mset xs \<and> sorted_wrt (\<lambda>x y. cmp x y \<le> 0) (qsrt cmp xs))"

lemma mycmp_consistent: "consistent mycmp"
  by (auto simp: consistent_def mycmp_def)

lemma mycmp_le: "mycmp x y \<le> 0 \<longleftrightarrow> x \<le> y"
  by (simp add: mycmp_def)

lemma qsort_is_sort: "qsort_spec qsrt \<Longrightarrow> qsrt mycmp xs = sort xs"
proof -
  assume "qsort_spec qsrt"
  then have q: "mset (qsrt mycmp xs) = mset xs" "sorted_wrt (\<lambda>x y. mycmp x y \<le> 0) (qsrt mycmp xs)"
    using mycmp_consistent unfolding qsort_spec_def by blast+
  from q(2) have "sorted (qsrt mycmp xs)" by (simp only: mycmp_le)
  with q(1) show ?thesis by (metis properties_for_sort)
qed

lemma sort_rows_sorts:
  assumes "qsort_spec qsrt" "length a = 3"
  shows "sort_rows qsrt a = map sort a"
proof -
  obtain x y z where "a = [x, y, z]" using assms(2) by (metis length_0_conv length_Suc_conv numeral_3_eq_3)
  then show ?thesis by (simp add: sort_rows_def qsort_is_sort [OF assms(1)] upt_rec)
qed

text \<open>Whatever \<open>qsort\<close> the system has, as long as it sorts with a consistent comparison, the comparison given to
  it is one, and the program prints the matrix as it is and then with each row in ascending order.\<close>

theorem qsort_prints:
  assumes "qsort_spec qsrt"
  shows "qsort_main qsrt = ''UNSORTED'' @ [CHR 0x0A] @ printarray [[1, 10, 3], [4, 0, 6], [70, - 3, 9]] @
    ''SORTED'' @ [CHR 0x0A] @ printarray [[1, 3, 10], [0, 4, 6], [- 3, 9, 70]]"
  by (simp add: qsort_main_def sort_rows_sorts [OF assms])

definition cmp_insort :: "qsort_t" where
  "cmp_insort cmp xs = foldr (\<lambda>x ys. takeWhile (\<lambda>y. cmp x y > 0) ys @ x # dropWhile (\<lambda>y. cmp x y > 0) ys) xs []"

lemma cmp_insert:
  assumes "consistent cmp" "sorted_wrt (\<lambda>x y. cmp x y \<le> 0) ys"
  shows "sorted_wrt (\<lambda>x y. cmp x y \<le> 0) (takeWhile (\<lambda>y. cmp x y > 0) ys @ x # dropWhile (\<lambda>y. cmp x y > 0) ys)"
  using assms(2)
proof (induction ys)
  case (Cons y ys)
  have c: "cmp a b \<le> 0 \<Longrightarrow> cmp b d \<le> 0 \<Longrightarrow> cmp a d \<le> 0" for a b d using assms(1) unfolding consistent_def by blast
  have t: "cmp a b > 0 \<Longrightarrow> cmp b a \<le> 0" for a b
  proof -
    assume "cmp a b > 0"
    then have "sgn (cmp a b) = 1" by simp
    moreover have "sgn (cmp b a) = - sgn (cmp a b)" using assms(1) unfolding consistent_def by blast
    ultimately show ?thesis by (simp add: sgn_if split: if_splits)
  qed
  show ?case
  proof (cases "cmp x y > 0")
    case True
    then show ?thesis using Cons t by (auto dest: set_takeWhileD set_dropWhileD)
  next
    case False
    then have "cmp x y \<le> 0" by simp
    with Cons.prems c [OF this] False show ?thesis by auto
  qed
qed simp

lemma cmp_insort_spec: "qsort_spec cmp_insort"
proof -
  have "mset (cmp_insort cmp xs) = mset xs \<and> sorted_wrt (\<lambda>x y. cmp x y \<le> 0) (cmp_insort cmp xs)" if "consistent cmp" for cmp xs
  proof (induction xs)
    case (Cons x xs)
    have e: "cmp_insort cmp (x # xs) =
        takeWhile (\<lambda>y. cmp x y > 0) (cmp_insort cmp xs) @ x # dropWhile (\<lambda>y. cmp x y > 0) (cmp_insort cmp xs)"
      by (simp add: cmp_insort_def)
    have "mset (takeWhile P ys) + mset (dropWhile P ys) = mset ys" for P and ys :: "int list"
      by (simp flip: mset_append)
    then show ?case unfolding e using cmp_insert [OF that] Cons by simp
  qed (simp add: cmp_insort_def)
  then show ?thesis by (simp add: qsort_spec_def)
qed

lemma qsort_prints_witness: "length (qsort_main cmp_insort) = 94"
  unfolding qsort_prints [OF cmp_insort_spec] by code_simp

section \<open>A matrix through pointers\<close>

text \<open>The argument \<open>mat\<close> is the address of the first element; the elements follow row by row.\<close>

fun print_row :: "(nat \<Rightarrow> int option) \<Rightarrow> nat list \<Rightarrow> string option" where
  \<comment> \<open>The inner loop, over the values that \<open>j\<close> takes.\<close>
  "print_row elem [] = Some [CHR 0x0A]"
| "print_row elem (j # js) = do { x \<leftarrow> elem j; r \<leftarrow> print_row elem js; Some (dec_int x @ '' '' @ r) }"

fun print_rows :: "(nat \<Rightarrow> nat \<Rightarrow> int option) \<Rightarrow> nat \<Rightarrow> nat list \<Rightarrow> string option" where
  "print_rows elem cols [] = Some []"
| "print_rows elem cols (i # is) = do { s \<leftarrow> print_row (elem i) [0..<cols]; r \<leftarrow> print_rows elem cols is; Some (s @ r) }"

definition load :: "int list \<Rightarrow> nat \<Rightarrow> int option" where
  "load mem i = (if i < length mem then Some (mem ! i) else None)"

definition foo2 :: "int list \<Rightarrow> nat \<Rightarrow> nat \<Rightarrow> cheap \<Rightarrow> (string option \<times> cheap) option" where
  \<comment> \<open>\<open>None\<close> in the result: it exits after a failed \<open>malloc\<close>. \<open>aux[i]\<close> points to element \<open>cols * i\<close>.\<close>
  "foo2 mat rows cols h =
     (case malloc (rows * 8) h of
        (None, h1) \<Rightarrow> Some (None, h1)
      | (Some aux, h1) \<Rightarrow> do { out \<leftarrow> print_rows (\<lambda>i j. load mat (cols * i + j)) cols [0..<rows];
                               Some (Some out, cfree (Some aux) h1) })"

definition add_int :: "int \<Rightarrow> int \<Rightarrow> int option" where
  \<comment> \<open>The addition of two \<open>int\<close>s; an overflow is undefined.\<close>
  "add_int x y = (if - (2 ^ 31) \<le> x + y \<and> x + y < 2 ^ 31 then Some (x + y) else None)"

definition foo3 :: "int list \<Rightarrow> nat \<Rightarrow> nat \<Rightarrow> string option" where
  "foo3 mat rows cols = print_rows (\<lambda>i j. do { x \<leftarrow> load mat (cols * i); add_int x (int j) }) cols [0..<rows]"

definition mat_main :: "cheap \<Rightarrow> ((bool \<times> string) \<times> cheap) option" where
  \<comment> \<open>Whether it exits with \<open>EXIT_SUCCESS\<close>, and what it prints.\<close>
  "mat_main h =
     (let mat = [1, 2, 3, 4, 5, 6, 7, 8, 9, 10, 11, 12] in
      do { out3 \<leftarrow> foo3 mat 4 3;
           (r, h1) \<leftarrow> foo2 mat 4 3 h;
           Some (case r of None \<Rightarrow> ((False, out3), h1) | Some out2 \<Rightarrow> ((True, out3 @ out2), h1)) })"

definition row_text :: "int list \<Rightarrow> string" where
  "row_text xs = concat (map (\<lambda>x. dec_int x @ '' '') xs) @ [CHR 0x0A]"

lemma print_row_ok: "\<forall>j\<in>set js. elem j = Some (f j) \<Longrightarrow> print_row elem js = Some (row_text (map f js))"
  by (induction js) (simp_all add: row_text_def)

lemma print_rows_ok:
  "\<forall>i\<in>set is. \<forall>j<cols. elem i j = Some (f i j) \<Longrightarrow>
    print_rows elem cols is = Some (concat (map (\<lambda>i. row_text (map (f i) [0..<cols])) is))"
proof (induction "is")
  case (Cons i "is")
  have "print_row (elem i) [0..<cols] = Some (row_text (map (f i) [0..<cols]))"
    by (rule print_row_ok) (use Cons.prems in simp)
  with Cons show ?case by simp
qed simp

lemma index_less: "i < rows \<Longrightarrow> j < cols \<Longrightarrow> cols * i + j < rows * cols" for i j :: nat
proof -
  assume "i < rows" "j < cols"
  then have "cols * i + j < cols * i + cols" "cols * Suc i \<le> cols * rows" by (simp_all del: mult_Suc_right)
  then show ?thesis by (simp add: mult.commute)
qed

lemma cfree_malloc: "heap_wf h \<Longrightarrow> malloc n h = (Some a, h') \<Longrightarrow> hp_live (cfree (Some a) h') = hp_live h \<and> hp_bad (cfree (Some a) h') = hp_bad h"
  by (auto dest!: malloc_SomeD simp: cfree_live)

text \<open>\<open>foo2\<close> prints any matrix row by row, reads nothing outside of it and releases its array of pointers. \<open>foo3\<close>,
  which is marked as correct too, prints the first element of each row and the numbers that follow it, if none of them
  overflows.\<close>

theorem foo2_foo3_print:
  assumes "length mat = rows * cols" "heap_wf h" "\<forall>x\<in>set mat. - (2 ^ 31) \<le> x \<and> x + int cols \<le> 2 ^ 31"
  shows "(\<exists>r h'. foo2 mat rows cols h = Some (r, h') \<and> hp_live h' = hp_live h \<and> hp_bad h' = hp_bad h \<and>
      (r = None \<and> fst (malloc (rows * 8) h) = None \<or>
       r = Some (concat (map (\<lambda>i. row_text (take cols (drop (cols * i) mat))) [0..<rows])))) \<and>
    foo3 mat rows cols = Some (concat (map (\<lambda>i. row_text (map (\<lambda>j. mat ! (cols * i) + int j) [0..<cols])) [0..<rows]))"
proof -
  have l: "load mat (cols * i + j) = Some (mat ! (cols * i + j))" if "i < rows" "j < cols" for i j
    using index_less [OF that] assms(1) by (simp add: load_def)
  have row: "map (\<lambda>j. mat ! (cols * i + j)) [0..<cols] = take cols (drop (cols * i) mat)" if "i < rows" for i
  proof (rule nth_equalityI)
    have "cols * Suc i \<le> cols * rows" using that by (simp del: mult_Suc_right)
    then show len: "length (map (\<lambda>j. mat ! (cols * i + j)) [0..<cols]) = length (take cols (drop (cols * i) mat))"
      using assms(1) by (simp add: mult.commute)
  qed (use that assms(1) in simp)
  have p: "print_rows (\<lambda>i j. load mat (cols * i + j)) cols [0..<rows] =
      Some (concat (map (\<lambda>i. row_text (map (\<lambda>j. mat ! (cols * i + j)) [0..<cols])) [0..<rows]))"
    by (rule print_rows_ok) (use l in simp)
  have "map (\<lambda>i. row_text (map (\<lambda>j. mat ! (cols * i + j)) [0..<cols])) [0..<rows] =
      map (\<lambda>i. row_text (take cols (drop (cols * i) mat))) [0..<rows]" by (simp add: row)
  with p have p': "print_rows (\<lambda>i j. load mat (cols * i + j)) cols [0..<rows] =
      Some (concat (map (\<lambda>i. row_text (take cols (drop (cols * i) mat))) [0..<rows]))" by simp
  obtain r h1 where m: "malloc (rows * 8) h = (r, h1)" by force
  have f2: "\<exists>r h'. foo2 mat rows cols h = Some (r, h') \<and> hp_live h' = hp_live h \<and> hp_bad h' = hp_bad h \<and>
      (r = None \<and> fst (malloc (rows * 8) h) = None \<or>
       r = Some (concat (map (\<lambda>i. row_text (take cols (drop (cols * i) mat))) [0..<rows])))"
  proof (cases r)
    case None
    then show ?thesis using m malloc_NoneD [OF m [unfolded None]] by (simp add: foo2_def)
  next
    case (Some a)
    then show ?thesis using m p' cfree_malloc [OF assms(2) m [unfolded Some]] by (simp add: foo2_def)
  qed
  have f3: "foo3 mat rows cols = Some (concat (map (\<lambda>i. row_text (map (\<lambda>j. mat ! (cols * i) + int j) [0..<cols])) [0..<rows]))"
    unfolding foo3_def
  proof (rule print_rows_ok, intro ballI allI impI)
    fix i j assume "i \<in> set [0..<rows]" "j < cols"
    then have i: "i < rows" "j < cols" "0 < cols" by simp_all
    have "cols * i < length mat" using index_less [OF i(1,3)] assms(1) by simp
    then have "mat ! (cols * i) \<in> set mat" by simp
    with assms(3) i(2) have "add_int (mat ! (cols * i)) (int j) = Some (mat ! (cols * i) + int j)"
      by (force simp: add_int_def)
    then show "do { x \<leftarrow> load mat (cols * i); add_int x (int j) } = Some (mat ! (cols * i) + int j)"
      using l [OF i(1,3)] by simp
  qed
  show ?thesis using f2 f3 by blast
qed

lemma foo2_foo3_print_witness:
  "foo3 [4, 7, 2, 9] 2 2 = Some (''4 5 '' @ [CHR 0x0A] @ ''2 3 '' @ [CHR 0x0A])"
proof -
  have e: "dec_digits 4 = ''4''" "dec_digits 5 = ''5''" "dec_digits 2 = ''2''" "dec_digits 3 = ''3''" by code_simp+
  have "heap_wf \<lparr>hp_next = 1, hp_limit = 9, hp_live = [], hp_sched = [], hp_bad = False\<rparr>" by (simp add: heap_wf_def)
  from foo2_foo3_print [of "[4, 7, 2, 9]" 2 2, OF _ this] show ?thesis
    by (simp add: upt_rec row_text_def dec_int_def e)
qed

text \<open>The rows that the program itself prints are the same in both ways.\<close>

theorem mat_main_same:
  "mat_main h = Some (case malloc 32 h of
      (None, h1) \<Rightarrow> ((False, concat (map row_text [[1, 2, 3], [4, 5, 6], [7, 8, 9], [10, 11, 12]])), h1)
    | (Some a, h1) \<Rightarrow> ((True, concat (map row_text [[1, 2, 3], [4, 5, 6], [7, 8, 9], [10, 11, 12]]) @
        concat (map row_text [[1, 2, 3], [4, 5, 6], [7, 8, 9], [10, 11, 12]])), cfree (Some a) h1))"
  by (simp add: mat_main_def foo2_def foo3_def upt_rec row_text_def load_def add_int_def split: option.splits prod.splits)

section \<open>The tree\<close>

definition LINES :: "32 word" where "LINES = 10"
definition COLS :: "32 word" where "COLS = 2 * LINES"

definition tree_cell :: "32 word \<Rightarrow> 32 word \<Rightarrow> char" where
  "tree_cell i j = (if j < COLS div 2 - i \<or> j > COLS div 2 + i then CHR '' '' else CHR ''*'')"

definition tree_main :: string where
  "tree_main = concat (map (\<lambda>i. map (\<lambda>j. tree_cell (of_nat i) (of_nat j)) [0..<unat COLS] @ [CHR 0x0A]) [0..<unat LINES])"

text \<open>Row \<open>i\<close> has \<open>2 * i + 1\<close> stars around the eleventh column.\<close>

theorem tree_rows:
  "tree_main = concat (map (\<lambda>i. replicate (10 - i) (CHR '' '') @ replicate (2 * i + 1) (CHR ''*'') @
     replicate (9 - i) (CHR '' '') @ [CHR 0x0A]) [0..<10])"
  by code_simp

end
