(* ===== verification/Kqueue.thy ===== *)
theory Kqueue imports Prelude begin

text \<open>
  Two clients of \<open>kqueue(2)\<close>: \<open>kqueue/kqclient.c\<close>, which passes on what comes from a socket and from the standard
  input, and \<open>kqueue/kqdir.c\<close>, which opens the files of a directory to watch them. The system calls
  are parameters; an event carries what the call made on it returns.
\<close>

unbundle bit_operations_syntax

section \<open>Sending\<close>

type_synonym 's send_t = "8 word list \<Rightarrow> 's \<Rightarrow> int \<times> 's"

partial_function (option) sendbuftosck :: "'s send_t \<Rightarrow> 8 word list \<Rightarrow> nat \<Rightarrow> nat \<Rightarrow> 's \<Rightarrow> (bool \<times> 's) option" where
  \<comment> \<open>The loop, from \<open>pos\<close> on; \<open>False\<close> is the exit in \<open>diep\<close>.\<close>
  "sendbuftosck send buf len pos s =
     (case send (take (len - pos) (drop pos buf)) s of (bytessent, s') \<Rightarrow>
        if bytessent < 0 then Some (False, s')
        else if bytessent > 0 then sendbuftosck send buf len (pos + nat bytessent) s'
        else Some (True, s'))"

definition send_ok :: "('s \<Rightarrow> 8 word list) \<Rightarrow> 's send_t \<Rightarrow> bool" where
  \<comment> \<open>\<open>send(2)\<close> on a connected stream: it fails, or sends some of the bytes, none only if there are none.\<close>
  "send_ok sent send \<longleftrightarrow> (\<forall>xs s. let (r, s') = send xs s in
     r \<le> int (length xs) \<and> (r < 0 \<longrightarrow> sent s' = sent s) \<and> (0 \<le> r \<longrightarrow> sent s' = sent s @ take (nat r) xs) \<and> (r = 0 \<longrightarrow> xs = []))"

lemma sendbuf_ok:
  assumes ok: "send_ok sent send" and len: "len \<le> length buf"
  shows "pos \<le> len \<Longrightarrow> \<exists>r s'. sendbuftosck send buf len pos s = Some (r, s') \<and>
    (r \<longrightarrow> sent s' = sent s @ take (len - pos) (drop pos buf)) \<and>
    (\<exists>n. sent s' = sent s @ take n (take (len - pos) (drop pos buf))) \<and> ((\<forall>xs s. 0 \<le> fst (send xs s)) \<longrightarrow> r)"
proof (induction "len - pos" arbitrary: pos s rule: less_induct)
  case less
  let ?xs = "take (len - pos) (drop pos buf)"
  obtain b s1 where 1: "send ?xs s = (b, s1)" by force
  have lx: "length ?xs = len - pos" using len less.prems by simp
  have law: "b \<le> int (len - pos)" "b < 0 \<longrightarrow> sent s1 = sent s" "0 \<le> b \<longrightarrow> sent s1 = sent s @ take (nat b) ?xs" "b = 0 \<longrightarrow> ?xs = []"
    using ok [unfolded send_ok_def, rule_format, of ?xs s] 1 lx by simp_all
  show ?case
  proof (cases "b > 0")
    case False
    have "b \<ge> 0 \<longrightarrow> ?xs = [] \<and> sent s1 = sent s" using law False by auto
    moreover have "(\<forall>xs s. 0 \<le> fst (send xs s)) \<longrightarrow> 0 \<le> b" using 1 by (metis fst_conv)
    moreover have run: "sendbuftosck send buf len pos s = Some (\<not> b < 0, s1)"
      using 1 False by (subst sendbuftosck.simps) simp
    moreover have "sent s1 = sent s @ take 0 ?xs" using law(2) calculation(1) by fastforce
    ultimately show ?thesis by (intro exI [of _ "\<not> b < 0"] exI [of _ s1] conjI exI [of _ 0]) auto
  next
    case True
    have pos: "pos + nat b \<le> len" "len - (pos + nat b) < len - pos" using law(1) True less.prems by linarith+
    from less.hyps [OF pos(2,1), of s1] obtain r s2 n where
      2: "sendbuftosck send buf len (pos + nat b) s1 = Some (r, s2)"
        "r \<longrightarrow> sent s2 = sent s1 @ take (len - (pos + nat b)) (drop (pos + nat b) buf)"
        "sent s2 = sent s1 @ take n (take (len - (pos + nat b)) (drop (pos + nat b) buf))" "(\<forall>xs s. 0 \<le> fst (send xs s)) \<longrightarrow> r" by blast
    have split: "?xs = take (nat b) ?xs @ take (len - (pos + nat b)) (drop (pos + nat b) buf)"
    proof -
      have "?xs = take (nat b) ?xs @ drop (nat b) ?xs" by (rule append_take_drop_id [symmetric])
      moreover have "drop (nat b) ?xs = take (len - (pos + nat b)) (drop (pos + nat b) buf)" by (simp add: drop_take add.commute)
      ultimately show ?thesis by (simp only:)
    qed
    have s1: "sent s1 = sent s @ take (nat b) ?xs" using law(3) True by simp
    have "length (take (nat b) ?xs) = nat b" using law(1) lx True by simp
    then have tk: "take (nat b + n) ?xs = take (nat b) ?xs @ take n (take (len - (pos + nat b)) (drop (pos + nat b) buf))"
      by (subst split) simp
    have run: "sendbuftosck send buf len pos s = Some (r, s2)" using 1 True 2(1) by (subst sendbuftosck.simps) simp
    have "r \<longrightarrow> sent s2 = sent s @ ?xs" using 2(2) s1 split by simp
    moreover have "sent s2 = sent s @ take (nat b + n) ?xs" using 2(3) s1 tk by simp
    ultimately show ?thesis using run 2(4) by blast
  qed
qed

section \<open>The client\<close>

definition KQ_BUFSIZE :: nat where "KQ_BUFSIZE = 1024"

datatype kq_event = Ev_error | Ev_sock "8 word list option" | Ev_stdin | Ev_other

record 's kq_client =
  kc_net :: 's
  kc_inp :: "8 word list"
  kc_out :: "8 word list"

definition c_str :: "8 word list \<Rightarrow> 8 word list option" where
  \<comment> \<open>The string in an array: undefined without a NUL.\<close>
  "c_str buf = (if 0 \<in> set buf then Some (takeWhile (\<lambda>c. c \<noteq> 0) buf) else None)"

fun kq_events :: "'s send_t \<Rightarrow> kq_event list \<Rightarrow> 's kq_client \<Rightarrow> (bool \<times> 's kq_client) option" where
  \<comment> \<open>The loop over the events that were triggered; \<open>False\<close> is an exit.\<close>
  "kq_events send [] c = Some (True, c)"
| "kq_events send (e # es) c =
     (case e of
        Ev_error \<Rightarrow> Some (False, c)
      | Ev_sock None \<Rightarrow> Some (False, c)
      | Ev_sock (Some xs) \<Rightarrow>
          do { str \<leftarrow> c_str (xs @ replicate (KQ_BUFSIZE - length xs) 0);
               kq_events send es (c\<lparr>kc_out := kc_out c @ str\<rparr>) }
      | Ev_stdin \<Rightarrow>
          (case fgets_line (KQ_BUFSIZE - 1) (kc_inp c) of (line, rest, _) \<Rightarrow>
             let buf = line @ replicate (KQ_BUFSIZE - length line) 0 in
             do { str \<leftarrow> c_str buf;
                  (ok, net) \<leftarrow> sendbuftosck send buf (length str) 0 (kc_net c);
                  let c' = c\<lparr>kc_net := net, kc_inp := rest\<rparr>;
                  if ok then kq_events send es c' else Some (False, c') })
      | Ev_other \<Rightarrow> kq_events send es c)"

definition kq_round :: "'s send_t \<Rightarrow> bool \<Rightarrow> kq_event list \<Rightarrow> 's kq_client \<Rightarrow> (bool \<times> 's kq_client) option" where
  \<comment> \<open>One round of \<open>main\<close>'s endless loop; \<open>eof\<close> is the flag of the first event.\<close>
  "kq_round send eof evlist c =
     (if evlist = [] then Some (True, c) else if eof then Some (False, c) else kq_events send evlist c)"

section \<open>The whole client\<close>

definition htons :: "int \<Rightarrow> 16 word" where
  \<comment> \<open>On a little-endian machine.\<close>
  "htons port = (let v = of_int port :: 16 word in push_bit 8 v OR drop_bit 8 v)"

definition tcpopen :: "(string \<Rightarrow> 'h option) \<Rightarrow> int \<Rightarrow> (int \<Rightarrow> 16 word \<Rightarrow> 'h \<Rightarrow> int) \<Rightarrow> string \<Rightarrow> int \<Rightarrow> string + int" where
  \<comment> \<open>\<open>Inl\<close>: it exits in \<open>diep\<close>. The arguments are what \<open>gethostbyname\<close>, \<open>socket\<close> and \<open>connect\<close> answer.\<close>
  "tcpopen gethost sock connect host port =
     (case gethost host of
        None \<Rightarrow> Inl ''gethostbyname()''
      | Some hp \<Rightarrow>
          if sock < 0 then Inl ''socket()''
          else if connect sock (htons port) hp < 0 then Inl ''connect()''
          else Inr sock)"

datatype kq_answer = Kq_failed | Kq_events bool "kq_event list"

fun kq_loop :: "'s send_t \<Rightarrow> kq_answer list \<Rightarrow> 's kq_client \<Rightarrow> (bool \<times> 's kq_client) option" where
  \<comment> \<open>The endless loop, for what \<open>kevent\<close> answers: \<open>True\<close> while it waits for the next answer, \<open>False\<close> after an exit.\<close>
  "kq_loop send [] c = Some (True, c)"
| "kq_loop send (Kq_failed # as) c = Some (False, c)"
| "kq_loop send (Kq_events eof es # as) c =
     do { (go, c') \<leftarrow> kq_round send eof es c; if go then kq_loop send as c' else Some (False, c') }"

definition kq_main ::
  "(string \<Rightarrow> 'h option) \<Rightarrow> int \<Rightarrow> (int \<Rightarrow> 16 word \<Rightarrow> 'h \<Rightarrow> int) \<Rightarrow> int \<Rightarrow> 's send_t \<Rightarrow> string \<Rightarrow> int \<Rightarrow> kq_answer list \<Rightarrow>
     's kq_client \<Rightarrow> (bool \<times> 's kq_client) option" where
  "kq_main gethost sock connect kq send host port as c =
     (case tcpopen gethost sock connect host port of
        Inl _ \<Rightarrow> Some (False, c)
      | Inr _ \<Rightarrow> if kq = - 1 then Some (False, c) else kq_loop send as c)"

fun kq_received :: "kq_event list \<Rightarrow> 8 word list" where
  "kq_received [] = []"
| "kq_received (e # es) = (case e of Ev_sock (Some xs) \<Rightarrow> xs | _ \<Rightarrow> []) @ kq_received es"

lemma kq_received_append: "kq_received (xs @ ys) = kq_received xs @ kq_received ys"
  by (induction xs) simp_all

definition kq_plain :: "kq_event \<Rightarrow> bool" where
  "kq_plain e \<longleftrightarrow> e \<noteq> Ev_error \<and> (\<forall>r. e = Ev_sock r \<longrightarrow> (\<exists>xs. r = Some xs \<and> length xs < KQ_BUFSIZE \<and> 0 \<notin> set xs))"

lemma c_str_append: "0 \<notin> set xs \<Longrightarrow> 0 < n \<Longrightarrow> c_str (xs @ replicate n 0) = Some xs"
proof -
  assume a: "0 \<notin> set xs" "0 < n"
  then obtain k where "n = Suc k" by (cases n) auto
  then show ?thesis using a by (auto simp: c_str_def takeWhile_append)
qed

lemma kq_events_ok:
  assumes ok: "send_ok sent send" and pos: "\<forall>xs s. 0 \<le> fst (send xs s)"
  shows "\<forall>e\<in>set es. kq_plain e \<Longrightarrow> 0 \<notin> set (kc_inp c) \<Longrightarrow> \<exists>c'. kq_events send es c = Some (True, c') \<and>
    kc_out c' = kc_out c @ kq_received es \<and> sent (kc_net c') @ kc_inp c' = sent (kc_net c) @ kc_inp c \<and>
    0 \<notin> set (kc_inp c')"
proof (induction es arbitrary: c)
  case (Cons e es)
  show ?case
  proof (cases e)
    case Ev_error
    with Cons.prems(1) show ?thesis by (simp add: kq_plain_def)
  next
    case (Ev_sock r)
    then obtain xs where xs: "r = Some xs" "length xs < KQ_BUFSIZE" "0 \<notin> set xs" using Cons.prems(1) by (auto simp: kq_plain_def)
    from Cons.IH [of "c\<lparr>kc_out := kc_out c @ xs\<rparr>"] Cons.prems show ?thesis
      using c_str_append [OF xs(3), of "KQ_BUFSIZE - length xs"] xs Ev_sock by auto
  next
    case Ev_stdin
    obtain line rest eof where l: "fgets_line (KQ_BUFSIZE - 1) (kc_inp c) = (line, rest, eof)" by (cases "fgets_line (KQ_BUFSIZE - 1) (kc_inp c)") auto
    have inp: "kc_inp c = line @ rest" by (rule fgets_line_rest [OF l])
    have z: "0 \<notin> set line" "0 \<notin> set rest" using Cons.prems(2) inp by auto
    have len: "length line < KQ_BUFSIZE" using fgets_line_length [OF l] by (simp add: KQ_BUFSIZE_def)
    let ?buf = "line @ replicate (KQ_BUFSIZE - length line) 0"
    have str: "c_str ?buf = Some line" using c_str_append [OF z(1), of "KQ_BUFSIZE - length line"] len by simp
    from sendbuf_ok [OF ok, of "length line" ?buf 0 "kc_net c"] pos obtain net where
      net: "sendbuftosck send ?buf (length line) 0 (kc_net c) = Some (True, net)" "sent net = sent (kc_net c) @ line" by auto
    from Cons.IH [of "c\<lparr>kc_net := net, kc_inp := rest\<rparr>"] Cons.prems(1) z(2) show ?thesis
      using l str net inp Ev_stdin by (auto simp: Let_def)
  next
    case Ev_other
    with Cons show ?thesis by simp
  qed
qed simp

section \<open>Watching a directory\<close>

definition MAX_ENTRIES :: nat where "MAX_ENTRIES = 256"

fun kqdir_skip :: "string list \<Rightarrow> nat \<Rightarrow> string list" where
  \<comment> \<open>The loop that is to skip \<open>.\<close> and \<open>..\<close>: an entry is read before \<open>cnt\<close> is looked at.\<close>
  "kqdir_skip [] cnt = []"
| "kqdir_skip (e # es) cnt = (if cnt < 2 then kqdir_skip es (cnt + 1) else es)"

fun kqdir_scan :: "string \<Rightarrow> (string \<Rightarrow> int option) \<Rightarrow> string list \<Rightarrow> int list \<Rightarrow> (bool \<times> int list) option" where
  \<comment> \<open>The loop that opens the entries; \<open>False\<close> is the jump to the end. \<open>strlen(argv[1] + strlen(d_name) + 2)\<close> is undefined
      when the pointer is behind the string, and so is copying a path of more than 255 characters.\<close>
  "kqdir_scan dir op [] fds = Some (True, fds)"
| "kqdir_scan dir op (e # es) fds =
     (if length fds > MAX_ENTRIES - 1 then Some (False, fds)
      else if length e + 2 > length dir then None
      else if length dir - (length e + 2) > 256 then Some (False, fds)
      else if length dir + 1 + length e + 1 > 256 then None
      else case op (dir @ ''/'' @ e) of
        None \<Rightarrow> Some (False, fds)
      | Some fd \<Rightarrow> kqdir_scan dir op es (fds @ [fd]))"

record kqdir_event =
  kd_error :: bool
  kd_delete :: bool
  kd_extend :: bool
  kd_write :: bool
  kd_attrib :: bool
  kd_ident :: int

datatype kqdir_line = Deleted int | Modified int | Attributes_modified int

fun kqdir_report :: "kqdir_event list \<Rightarrow> kqdir_line list \<times> bool" where
  \<comment> \<open>The loop over the events that were triggered, and whether the program goes on.\<close>
  "kqdir_report [] = ([], True)"
| "kqdir_report (e # es) =
     (if kd_error e then ([], False)
      else let (ls, go) = kqdir_report es in
        ((if kd_delete e then [Deleted (kd_ident e)]
          else if kd_extend e \<or> kd_write e then [Modified (kd_ident e)]
          else if kd_attrib e then [Attributes_modified (kd_ident e)] else []) @ ls, go))"

definition kqdir_cleanup :: "(int \<Rightarrow> bool) \<Rightarrow> bool \<Rightarrow> bool \<Rightarrow> int list \<Rightarrow> int list \<times> bool" where
  \<comment> \<open>The descriptors that \<open>close\<close> is called on, and whether all went well.\<close>
  "kqdir_cleanup cl dir_closed kq_closed fds = (fds, (\<forall>fd\<in>set fds. cl fd) \<and> dir_closed \<and> kq_closed)"

fun kqdir_loop :: "kqdir_event list option list \<Rightarrow> kqdir_line list \<times> bool" where
  \<comment> \<open>The endless loop, for what \<open>kevent\<close> answers, \<open>None\<close> when it fails; \<open>True\<close> while it waits for the next answer.\<close>
  "kqdir_loop [] = ([], True)"
| "kqdir_loop (None # as) = kqdir_loop as"
| "kqdir_loop (Some es # as) =
     (case kqdir_report es of
        (ls, False) \<Rightarrow> (ls, False)
      | (ls, True) \<Rightarrow> (case kqdir_loop as of (ls', go) \<Rightarrow> (ls @ ls', go)))"

datatype kqdir_end = KD_early | KD_waits "kqdir_line list" "int list" | KD_ends "kqdir_line list" "int list" bool

definition kqdir_main ::
  "bool \<Rightarrow> string list option \<Rightarrow> string \<Rightarrow> (string \<Rightarrow> int option) \<Rightarrow> kqdir_event list option list \<Rightarrow> (int \<Rightarrow> bool) \<Rightarrow> bool \<Rightarrow> bool \<Rightarrow>
     kqdir_end option" where
  \<comment> \<open>\<open>KD_early\<close>: there is no queue or no directory. Otherwise the lines printed and either the descriptors watched, or
      those on which \<open>close\<close> was called and whether it exits with \<open>EXIT_SUCCESS\<close>.\<close>
  "kqdir_main kq entries dir op as cl dir_closed kq_closed =
     (case entries of
        None \<Rightarrow> Some KD_early
      | Some es \<Rightarrow>
          if \<not> kq then Some KD_early
          else do {
            (all, fds) \<leftarrow> kqdir_scan dir op (kqdir_skip es 0) [];
            let (ls, go) = (if all then kqdir_loop as else ([], False));
            Some (if go then KD_waits ls fds
                  else case kqdir_cleanup cl dir_closed kq_closed fds of (closed, ok) \<Rightarrow> KD_ends ls closed ok) })"

lemma kqdir_skip_three: "kqdir_skip es 0 = drop 3 es"
proof -
  have "cnt \<le> 2 \<Longrightarrow> kqdir_skip es cnt = drop (3 - cnt) es" for cnt
    by (induction es cnt rule: kqdir_skip.induct) (auto simp: Suc_diff_le drop_Cons')
  then show ?thesis by simp
qed

lemma kqdir_scan_ok:
  "kqdir_scan dir op es fds = Some (c, fds') \<Longrightarrow> length fds \<le> 256 \<Longrightarrow>
    \<exists>n\<le>length es. length fds' = length fds + n \<and> length fds' \<le> 256 \<and> take (length fds) fds' = fds \<and> (c \<longrightarrow> n = length es) \<and>
      map Some (drop (length fds) fds') = map (\<lambda>e. op (dir @ ''/'' @ e)) (take n es) \<and>
      (\<forall>e\<in>set (take n es). length e + 2 \<le> length dir \<and> length (dir @ ''/'' @ e) < 256)"
proof (induction es arbitrary: fds)
  case (Cons e es)
  show ?case
  proof (cases "length fds > MAX_ENTRIES - 1 \<or> length dir - (length e + 2) > 256 \<or> op (dir @ ''/'' @ e) = None")
    case True
    then have "fds' = fds \<and> \<not> c" using Cons.prems(1) by (auto split: if_splits option.splits)
    then show ?thesis using Cons.prems(2) by (intro exI [of _ 0]) simp
  next
    case False
    then obtain fd where fd: "op (dir @ ''/'' @ e) = Some fd" by auto
    have small: "length e + 2 \<le> length dir" "length (dir @ ''/'' @ e) < 256" and rest: "kqdir_scan dir op es (fds @ [fd]) = Some (c, fds')"
      using Cons.prems(1) False fd by (auto split: if_splits)
    have "length (fds @ [fd]) \<le> 256" using False by (simp add: MAX_ENTRIES_def)
    from Cons.IH [OF rest this] obtain n where n: "n \<le> length es" "length fds' = Suc (length fds) + n" "length fds' \<le> 256"
      "take (Suc (length fds)) fds' = fds @ [fd]" "c \<longrightarrow> n = length es"
      "map Some (drop (Suc (length fds)) fds') = map (\<lambda>e. op (dir @ ''/'' @ e)) (take n es)"
      "\<forall>e\<in>set (take n es). length e + 2 \<le> length dir \<and> length (dir @ ''/'' @ e) < 256" by auto
    have lt: "length fds < length fds'" using n(2) by simp
    have "fds' ! length fds = fd" using arg_cong [OF n(4), of last] lt by (simp add: take_Suc_conv_app_nth)
    then have "drop (length fds) fds' = fd # drop (Suc (length fds)) fds'" using lt by (simp add: Cons_nth_drop_Suc [symmetric])
    moreover have "take (length fds) fds' = fds" using arg_cong [OF n(4), of butlast] lt by (simp add: take_Suc_conv_app_nth)
    ultimately show ?thesis using n fd small by (intro exI [of _ "Suc n"]) simp
  qed
qed auto

section \<open>Properties\<close>

text \<open>A round of the client in which no call fails and the socket's data come in pieces shorter than the
  buffer and without NULs: everything received is printed, and of the input each byte is either
  sent, once and in order, or still to be read.\<close>

theorem kqclient_relays:
  assumes "send_ok sent send" "\<forall>xs s. 0 \<le> fst (send xs s)" "\<forall>e\<in>set es. kq_plain e" "0 \<notin> set (kc_inp c)"
  shows "\<exists>c'. kq_round send False es c = Some (True, c') \<and> kc_out c' = kc_out c @ kq_received es \<and>
    sent (kc_net c') @ kc_inp c' = sent (kc_net c) @ kc_inp c"
  using kq_events_ok [OF assms] by (auto simp: kq_round_def)

definition ex_send :: "8 word list send_t" where
  \<comment> \<open>A network that takes up to two bytes at a time.\<close>
  "ex_send xs s = (int (length (take 2 xs)), s @ take 2 xs)"

lemma ex_send_ok: "send_ok id ex_send"
  by (auto simp: send_ok_def ex_send_def min_def)

lemma kqclient_relays_witness:
  "\<exists>c'. kq_round ex_send False [Ev_sock (Some [65, 66]), Ev_stdin] \<lparr>kc_net = [], kc_inp = [67, 68, 69, 10, 70], kc_out = []\<rparr> = Some (True, c') \<and>
    kc_out c' = [65, 66] \<and> kc_net c' @ kc_inp c' = [67, 68, 69, 10, 70]"
  using kqclient_relays [OF ex_send_ok, of "[Ev_sock (Some [65, 66]), Ev_stdin]" "\<lparr>kc_net = [], kc_inp = [67, 68, 69, 10, 70], kc_out = []\<rparr>"]
  by (simp add: ex_send_def kq_plain_def KQ_BUFSIZE_def)

lemma kq_loop_ok:
  assumes "send_ok sent send" "\<forall>xs s. 0 \<le> fst (send xs s)"
  shows "\<forall>es\<in>set as. \<forall>e\<in>set es. kq_plain e \<Longrightarrow> 0 \<notin> set (kc_inp c) \<Longrightarrow>
    \<exists>c'. kq_loop send (map (Kq_events False) as) c = Some (True, c') \<and> kc_out c' = kc_out c @ kq_received (concat as) \<and>
      sent (kc_net c') @ kc_inp c' = sent (kc_net c) @ kc_inp c \<and> 0 \<notin> set (kc_inp c')"
proof (induction as arbitrary: c)
  case (Cons es as)
  have "\<exists>c1. kq_events send es c = Some (True, c1) \<and> kc_out c1 = kc_out c @ kq_received es \<and>
      sent (kc_net c1) @ kc_inp c1 = sent (kc_net c) @ kc_inp c \<and> 0 \<notin> set (kc_inp c1)"
    by (rule kq_events_ok [OF assms]) (use Cons.prems in simp_all)
  then obtain c1 where 1: "kq_events send es c = Some (True, c1)" "kc_out c1 = kc_out c @ kq_received es"
    "sent (kc_net c1) @ kc_inp c1 = sent (kc_net c) @ kc_inp c" "0 \<notin> set (kc_inp c1)" by blast
  have "kq_round send False es c = Some (True, c1)" using 1(1) by (cases "es = []") (simp_all add: kq_round_def)
  moreover from Cons.IH [OF _ 1(4)] Cons.prems(1) obtain c2 where
    "kq_loop send (map (Kq_events False) as) c1 = Some (True, c2)" "kc_out c2 = kc_out c1 @ kq_received (concat as)"
    "sent (kc_net c2) @ kc_inp c2 = sent (kc_net c1) @ kc_inp c1" "0 \<notin> set (kc_inp c2)" by auto
  ultimately show ?case using 1(2,3) by (simp add: kq_received_append)
qed simp

text \<open>A session of the client of any number of rounds, in which no call fails, the end of the socket is not reached
  and its data come in pieces shorter than the buffer and without NULs: everything received is printed in order, and of
  the input each byte is either sent, once and in order, or still to be read.\<close>

theorem kqclient_session:
  assumes "send_ok sent send" "\<forall>xs s. 0 \<le> fst (send xs s)" "tcpopen gethost sock connect host port = Inr sock" "kq \<noteq> - 1"
    "\<forall>es\<in>set as. \<forall>e\<in>set es. kq_plain e" "0 \<notin> set (kc_inp c)"
  shows "\<exists>c'. kq_main gethost sock connect kq send host port (map (Kq_events False) as) c = Some (True, c') \<and>
    kc_out c' = kc_out c @ kq_received (concat as) \<and> sent (kc_net c') @ kc_inp c' = sent (kc_net c) @ kc_inp c"
  using kq_loop_ok [OF assms(1,2,5,6)] assms(3,4) by (auto simp: kq_main_def)

lemma kqclient_session_witness:
  "\<exists>c'. kq_main (\<lambda>_. Some ()) 3 (\<lambda>_ _ _. 0) 4 ex_send ''h'' 80 (map (Kq_events False) [[Ev_sock (Some [65, 66]), Ev_stdin], [Ev_stdin]])
      \<lparr>kc_net = [], kc_inp = [67, 68, 69, 10, 70], kc_out = []\<rparr> = Some (True, c') \<and>
    kc_out c' = [65, 66] \<and> kc_net c' @ kc_inp c' = [67, 68, 69, 10, 70]"
proof -
  let ?c = "\<lparr>kc_net = [], kc_inp = [67, 68, 69, 10, 70], kc_out = []\<rparr> :: 8 word list kq_client"
  have "tcpopen (\<lambda>_. Some ()) 3 (\<lambda>_ _ _. 0) ''h'' 80 = Inr 3" by (simp add: tcpopen_def)
  from kqclient_session [OF ex_send_ok _ this, of 4 "[[Ev_sock (Some [65, 66]), Ev_stdin], [Ev_stdin]]" ?c] show ?thesis
    by (simp add: ex_send_def kq_plain_def KQ_BUFSIZE_def)
qed

text \<open>A piece that fills the buffer is printed without a NUL behind it, which is undefined.\<close>

lemma kqclient_unterminated: "length xs = KQ_BUFSIZE \<Longrightarrow> 0 \<notin> set xs \<Longrightarrow> kq_round send False [Ev_sock (Some xs)] c = None"
  by (simp add: kq_round_def c_str_def)

text \<open>The directory scan: it watches at most 256 files, in the order of the directory but only from its fourth
  entry on, each under the descriptor that opening it returned. It stops before the end only at the
  limits or when a file cannot be opened, and it is defined only for names shorter than the directory's, less one.\<close>

theorem kqdir_watches:
  assumes "kqdir_scan dir op (kqdir_skip es 0) [] = Some (c, fds)"
  shows "length fds \<le> 256 \<and> (c \<longrightarrow> length fds = length es - 3) \<and>
    map Some fds = map (\<lambda>e. op (dir @ ''/'' @ e)) (take (length fds) (drop 3 es)) \<and>
    (\<forall>e\<in>set (take (length fds) (drop 3 es)). length e + 2 \<le> length dir \<and> length (dir @ ''/'' @ e) < 256)"
  using kqdir_scan_ok [OF assms] by (auto simp: kqdir_skip_three)

lemma kqdir_watches_witness:
  "kqdir_scan ''some'' (\<lambda>p. Some (int (length p))) (kqdir_skip [''.'', ''..'', ''a'', ''b'', ''cc''] 0) [] = Some (True, [6, 7]) \<and>
   length [6, 7 :: int] = length [''.'', ''..'', ''a'', ''b'', ''cc''] - 3"
proof -
  have r: "kqdir_scan ''some'' (\<lambda>p. Some (int (length p))) (kqdir_skip [''.'', ''..'', ''a'', ''b'', ''cc''] 0) [] = Some (True, [6, 7])"
    by (simp add: MAX_ENTRIES_def)
  with kqdir_watches [OF r] show ?thesis by blast
qed

text \<open>The whole watch: when it ends, on whatever path, it has called \<open>close\<close> once on each descriptor that it opened
  and on no other, and it fails exactly when one of these calls, \<open>closedir\<close> or the \<open>close\<close> of the queue does.\<close>

theorem kqdir_closes:
  assumes "kqdir_main kq (Some es) dir op as cl dir_closed kq_closed = Some (KD_ends ls closed ok)"
  shows "map Some closed = map (\<lambda>e. op (dir @ ''/'' @ e)) (take (length closed) (drop 3 es)) \<and>
    (ok \<longleftrightarrow> (\<forall>fd\<in>set closed. cl fd) \<and> dir_closed \<and> kq_closed) \<and>
    (length closed < length es - 3 \<longrightarrow> ls = [])"
proof -
  obtain al fds where s: "kqdir_scan dir op (kqdir_skip es 0) [] = Some (al, fds)"
    using assms by (auto simp: kqdir_main_def split: if_splits bind_splits)
  then have "closed = fds \<and> (ok \<longleftrightarrow> (\<forall>fd\<in>set fds. cl fd) \<and> dir_closed \<and> kq_closed) \<and> (\<not> al \<longrightarrow> ls = [])"
    using assms by (auto simp: kqdir_main_def kqdir_cleanup_def split: if_splits prod.splits)
  with kqdir_scan_ok [OF s] show ?thesis by (auto simp: kqdir_skip_three)
qed

lemma kqdir_closes_witness:
  "\<exists>ok. kqdir_main True (Some [''.'', ''..'', ''a'', ''b'', ''cc'']) ''some'' (\<lambda>p. Some (int (length p)))
      [None, Some [\<lparr>kd_error = True, kd_delete = False, kd_extend = False, kd_write = False, kd_attrib = False, kd_ident = 6\<rparr>]]
      (\<lambda>fd. fd \<noteq> 7) True True = Some (KD_ends [] [6, 7] ok) \<and> \<not> ok"
proof -
  have r: "kqdir_main True (Some [''.'', ''..'', ''a'', ''b'', ''cc'']) ''some'' (\<lambda>p. Some (int (length p)))
      [None, Some [\<lparr>kd_error = True, kd_delete = False, kd_extend = False, kd_write = False, kd_attrib = False, kd_ident = 6\<rparr>]]
      (\<lambda>fd. fd \<noteq> 7) True True = Some (KD_ends [] [6, 7] False)"
    by (simp add: kqdir_main_def MAX_ENTRIES_def kqdir_cleanup_def)
  with kqdir_closes [OF r] show ?thesis by blast
qed

end
