(* ===== verification/Syscalls.thy ===== *)
theory Syscalls imports Prelude begin

text \<open>
  Four programs around a system call: \<open>fileops/readwd.c\<close>, which asks a disk for the name of its model,
  \<open>termios/echo_off.c\<close>, which reads a password without showing it, \<open>ipc/mmap.c\<close>, which writes a file through memory,
  and \<open>ipc/popen_ls.c\<close>, which copies what a command prints. What the kernel answers is an argument.
\<close>

unbundle bit_operations_syntax

section \<open>The model of a disk\<close>

definition load16 :: "8 word list \<Rightarrow> nat \<Rightarrow> 16 word option" where
  \<comment> \<open>A load through \<open>u_int16_t *\<close> on a little-endian machine.\<close>
  "load16 m i = (if i + 1 < length m then Some (ucast (m ! i) OR push_bit 8 (ucast (m ! (i + 1)))) else None)"

definition store16 :: "8 word list \<Rightarrow> nat \<Rightarrow> 16 word \<Rightarrow> 8 word list" where
  "store16 m i v = m[i := ucast v, i + 1 := ucast (drop_bit 8 v)]"

definition ntohs :: "16 word \<Rightarrow> 16 word" where
  \<comment> \<open>On a little-endian machine.\<close>
  "ntohs v = push_bit 8 v OR drop_bit 8 v"

fun swap_loop :: "8 word list \<Rightarrow> nat list \<Rightarrow> 8 word list option" where
  \<comment> \<open>Over the values that \<open>i\<close> takes.\<close>
  "swap_loop m [] = Some m"
| "swap_loop m (i # is) = do { v \<leftarrow> load16 m i; swap_loop (store16 m i (ntohs v)) is }"

definition evens :: "nat \<Rightarrow> nat list" where
  \<comment> \<open>\<open>for (i = 0; i < n; i += 2)\<close>\<close>
  "evens n = filter even [0..<n]"

definition print_model :: "8 word list \<Rightarrow> 8 word list" where
  "print_model m = filter (\<lambda>c. c \<noteq> 0x20) m @ [10]"

datatype rd_end = RD_open | RD_ioctl | RD_timeout | RD_fault | RD_error "8 word" | RD_unknown "8 word" | RD_model "8 word list"

datatype ata_ret = ATACMD_OK | ATACMD_TIMEOUT | ATACMD_DF | ATACMD_ERROR "8 word" | ATACMD_OTHER "8 word"

definition readwd_main :: "bool \<Rightarrow> (ata_ret \<times> 8 word list) option \<Rightarrow> rd_end option" where
  \<comment> \<open>Whether the device can be opened, and the answer to the request with the bytes of \<open>atap_model\<close>.\<close>
  "readwd_main opened answer =
     (if \<not> opened then Some RD_open
      else case answer of
        None \<Rightarrow> Some RD_ioctl
      | Some (ret, model) \<Rightarrow>
          (case ret of
             ATACMD_TIMEOUT \<Rightarrow> Some RD_timeout
           | ATACMD_DF \<Rightarrow> Some RD_fault
           | ATACMD_ERROR e \<Rightarrow> Some (RD_error e)
           | ATACMD_OTHER r \<Rightarrow> Some (RD_unknown r)
           | ATACMD_OK \<Rightarrow> do { m \<leftarrow> swap_loop model (evens (length model)); Some (RD_model (print_model m)) }))"

fun swap_pairs :: "'a list \<Rightarrow> 'a list" where
  "swap_pairs (a # b # xs) = b # a # swap_pairs xs"
| "swap_pairs xs = xs"

lemma swap_pairs_twice: "swap_pairs (swap_pairs xs) = xs"
  by (induction xs rule: swap_pairs.induct) simp_all

lemma swap_pairs_length [simp]: "length (swap_pairs xs) = length xs"
  by (induction xs rule: swap_pairs.induct) simp_all

lemma swap_word:
  fixes a b :: "8 word"
  defines "v \<equiv> ntohs (ucast a OR push_bit 8 (ucast b))"
  shows "ucast v = b" "ucast (drop_bit 8 v) = a"
proof -
  show "ucast v = b" unfolding v_def ntohs_def
    by (rule bit_word_eqI) (auto simp: bit_simps dest: bit_imp_le_length)
  show "ucast (drop_bit 8 v) = a" unfolding v_def ntohs_def
    by (rule bit_word_eqI) (auto simp: bit_simps dest: bit_imp_le_length)
qed

lemma swap_step:
  "load16 (xs @ a # b # ys) (length xs) = Some (ucast a OR push_bit 8 (ucast b))"
  "store16 (xs @ a # b # ys) (length xs) (ntohs (ucast a OR push_bit 8 (ucast b))) = xs @ b # a # ys"
  by (simp_all add: load16_def store16_def nth_append list_update_append swap_word)

lemma evens_Suc_Suc: "even k \<Longrightarrow> filter even [k..<k + Suc (Suc n)] = k # filter even [Suc (Suc k)..<Suc (Suc k) + n]"
proof -
  assume "even k"
  moreover have "[k..<k + Suc (Suc n)] = k # Suc k # [Suc (Suc k)..<Suc (Suc k) + n]"
    by (simp add: upt_conv_Cons del: upt_Suc)
  ultimately show ?thesis by (simp del: upt_Suc)
qed

lemma swap_loop_pairs:
  "even (length xs) \<Longrightarrow> even (length ys) \<Longrightarrow>
    swap_loop (xs @ ys) (filter even [length xs..<length xs + length ys]) = Some (xs @ swap_pairs ys)"
proof (induction ys arbitrary: xs rule: swap_pairs.induct)
  case (1 a b ys)
  have l: "length (a # b # ys) = Suc (Suc (length ys))" by simp
  show ?case
    unfolding l evens_Suc_Suc [OF 1(2)]
    using 1(1) [of "xs @ [b, a]"] 1(2,3) by (simp add: swap_step [of xs a b ys])
qed simp_all

text \<open>The name of the model, which the disk gives with the bytes of each pair exchanged, is printed in the right order,
  without any of its spaces; every other answer of the disk ends in its own message.\<close>

theorem readwd_prints_model:
  assumes "even (length name)"
  shows "readwd_main True (Some (ATACMD_OK, swap_pairs name)) = Some (RD_model (filter (\<lambda>c. c \<noteq> 0x20) name @ [10]))"
proof -
  have "swap_loop (swap_pairs name) (evens (length (swap_pairs name))) = Some name"
    using swap_loop_pairs [of "[]" "swap_pairs name"] assms by (simp add: evens_def swap_pairs_twice)
  then show ?thesis by (simp add: readwd_main_def print_model_def)
qed

lemma readwd_prints_model_witness:
  "readwd_main True (Some (ATACMD_OK, [0x44, 0x57, 0x20, 0x43, 0x38, 0x31, 0x20, 0x20])) = Some (RD_model [0x57, 0x44, 0x43, 0x31, 0x38, 10])"
  using readwd_prints_model [of "[0x57, 0x44, 0x43, 0x20, 0x31, 0x38, 0x20, 0x20]"] by simp

section \<open>A terminal without echo\<close>

record echo_result =
  er_ok :: bool
  er_prompt :: "(int \<Rightarrow> 32 word option) option"
  er_after :: "int \<Rightarrow> 32 word option"

definition echo_main :: "32 word \<Rightarrow> 32 word \<Rightarrow> int \<Rightarrow> (int \<Rightarrow> 32 word option) \<Rightarrow> echo_result" where
  \<comment> \<open>\<open>ttys fd\<close>: the local modes of the terminal behind a descriptor, \<open>None\<close> when there is none; \<open>opened\<close>: what \<open>open\<close>
      returns. The result has the modes while the password is read, if that point is reached, and at the end. The value
      that \<open>fd\<close> gets is that of the comparison.\<close>
  "echo_main ECHO ECHONL opened ttys =
     (let fd = (if opened = - 1 then 1 else 0)
      in if fd \<noteq> 0 then \<lparr>er_ok = False, er_prompt = None, er_after = ttys\<rparr>
         else case ttys fd of
           None \<Rightarrow> \<lparr>er_ok = False, er_prompt = None, er_after = ttys\<rparr>
         | Some oldt \<Rightarrow>
             let newt = (oldt AND NOT ECHO) OR ECHONL;
                 ttys1 = ttys(fd \<mapsto> newt)
             in \<lparr>er_ok = True, er_prompt = Some ttys1, er_after = ttys1(fd \<mapsto> oldt)\<rparr>)"

text \<open>While the password is read the standard input does not echo, but echoes the newline, and at the end every
  terminal is as it was. The terminal that was named and opened is never changed.\<close>

theorem echo_off_restores:
  assumes "opened \<noteq> - 1" "ttys 0 = Some oldt" "ECHO AND ECHONL = 0"
  shows "\<exists>p. echo_main ECHO ECHONL opened ttys = \<lparr>er_ok = True, er_prompt = Some p, er_after = ttys\<rparr> \<and>
    (\<exists>m. p 0 = Some m \<and> m AND ECHO = 0 \<and> m AND ECHONL = ECHONL) \<and> (\<forall>fd. fd \<noteq> 0 \<longrightarrow> p fd = ttys fd)"
proof -
  let ?m = "(oldt AND NOT ECHO) OR ECHONL"
  have "?m AND ECHO = ECHONL AND ECHO" by (rule bit_word_eqI) (auto simp: bit_simps)
  also have "\<dots> = 0" using assms(3) by (simp add: and.commute)
  finally have "?m AND ECHO = 0" .
  moreover have "?m AND ECHONL = ECHONL" by (rule bit_word_eqI) (auto simp: bit_simps)
  moreover have "(ttys(0 \<mapsto> ?m))(0 \<mapsto> oldt) = ttys" using assms(2) by auto
  ultimately show ?thesis using assms(1,2) by (auto simp: echo_main_def Let_def)
qed

lemma echo_off_restores_witness:
  "er_after (echo_main 8 16 3 [0 \<mapsto> 0x5CB, 3 \<mapsto> 0x5CB]) = [0 \<mapsto> 0x5CB, 3 \<mapsto> 0x5CB]"
  using echo_off_restores [of 3 "[0 \<mapsto> 0x5CB, 3 \<mapsto> 0x5CB]" "0x5CB" 8 16] by auto

section \<open>A file through memory\<close>

definition mm_message :: string where
  "mm_message = ''this shall be written to file'' @ [CHR 0x0A]"

definition file_write :: "nat \<Rightarrow> string \<Rightarrow> string \<Rightarrow> string" where
  \<comment> \<open>Writing at an offset, beyond the end if need be.\<close>
  "file_write pos s f = take pos (f @ replicate (pos - length f) (CHR 0x00)) @ s @ drop (pos + length s) f"

datatype mm_call = MM_open | MM_lseek | MM_write | MM_mmap | MM_munmap

definition mmap_main :: "(mm_call \<Rightarrow> bool) \<Rightarrow> string \<Rightarrow> bool \<times> string" where
  \<comment> \<open>Which calls fail, and what the file holds before: whether it exits with \<open>EXIT_SUCCESS\<close>, and what the file holds.\<close>
  "mmap_main fails f =
     (let n = length mm_message in
      if fails MM_open then (False, f)
      else let f0 = [] in
        if fails MM_lseek then (False, f0)
        else if fails MM_write then (False, f0)
        else let f1 = file_write (n - 1) [CHR 0x00] f0 in
          if fails MM_mmap then (False, f1)
          else let f2 = file_write 0 mm_message f1 in
            (\<not> fails MM_munmap, f2))"

text \<open>The file ends up with the message and nothing else, whatever it held before; when the memory cannot be mapped
  it has the length of the message but no text.\<close>

theorem mmap_writes:
  "mmap_main fails f =
     (if fails MM_open then (False, f)
      else if fails MM_lseek \<or> fails MM_write then (False, [])
      else if fails MM_mmap then (False, replicate (length mm_message) (CHR 0x00))
      else (\<not> fails MM_munmap, mm_message))"
proof -
  have "length mm_message = Suc 29" by (simp add: mm_message_def)
  then have e: "file_write (length mm_message - Suc 0) [CHR 0x00] [] = replicate (length mm_message) (CHR 0x00)"
    by (simp only: file_write_def diff_Suc_1 list.size replicate_Suc flip: replicate_append_same) simp
  have "file_write 0 mm_message (replicate (length mm_message) c) = mm_message" for c by (simp add: file_write_def)
  then show ?thesis by (simp add: mmap_main_def Let_def e)
qed

section \<open>The output of a command\<close>

definition POPEN_STR :: nat where "POPEN_STR = 100"

definition upto_nul :: "8 word list \<Rightarrow> 8 word list" where
  \<comment> \<open>What \<open>%s\<close> prints of a line.\<close>
  "upto_nul = takeWhile (\<lambda>c. c \<noteq> 0)"

function popen_copy :: "8 word list \<Rightarrow> 8 word list" where
  \<comment> \<open>\<open>while (fgets(str, MAX_STR, fp) != NULL) printf("%s", str);\<close>\<close>
  "popen_copy inp =
     (case fgets_line (POPEN_STR - 1) inp of (line, rest, eof) \<Rightarrow> if line = [] then [] else upto_nul line @ popen_copy rest)"
  by pat_completeness auto

termination
  by (relation "measure length") (auto dest!: sym [of _ "fgets_line _ _"] fgets_line_rest)

declare popen_copy.simps [simp del]

text \<open>Lines of any length are copied piece by piece: a command that prints no NUL is copied as it is.\<close>

theorem popen_copies:
  assumes "0 \<notin> set inp"
  shows "popen_copy inp = inp"
  using assms
proof (induction inp rule: popen_copy.induct)
  case (1 inp)
  obtain line rest eof where f: "fgets_line (POPEN_STR - 1) inp = (line, rest, eof)" by (cases "fgets_line (POPEN_STR - 1) inp")
  have i: "inp = line @ rest" by (rule fgets_line_rest [OF f])
  show ?case
  proof (cases "line = []")
    case True
    then have "inp = []" using f by (cases inp) (auto simp: POPEN_STR_def numeral_eq_Suc split: if_splits prod.splits)
    then show ?thesis using f True by (subst popen_copy.simps) simp
  next
    case False
    have "popen_copy rest = rest" using 1 f False i by auto
    moreover have "upto_nul line = line" unfolding upto_nul_def takeWhile_eq_all_conv using 1(2) i by auto
    ultimately show ?thesis using f False i by (subst popen_copy.simps) simp
  qed
qed

lemma popen_copies_witness: "popen_copy (replicate 150 0x61 @ [10, 0x62, 10]) = replicate 150 0x61 @ [10, 0x62, 10]"
  by (rule popen_copies) simp

datatype wait_status = WS_exited int | WS_signaled int | WS_stopped int | WS_continued | WS_other "32 word"

datatype po_line = PO_exited int | PO_killed int | PO_stopped int | PO_continued | PO_unexpected "32 word"

definition popen_main :: "8 word list option \<Rightarrow> wait_status option \<Rightarrow> (8 word list \<times> po_line) option" where
  \<comment> \<open>What \<open>popen\<close> delivers and what \<open>pclose\<close> returns, \<open>None\<close> for a failure of either; the result is what is printed,
      \<open>None\<close> after an exit with \<open>EXIT_FAILURE\<close>. The macros of \<open>sys/wait.h\<close> tell the cases of a status apart.\<close>
  "popen_main fp ret =
     do { inp \<leftarrow> fp;
          r \<leftarrow> ret;
          Some (popen_copy inp,
            case r of WS_exited n \<Rightarrow> PO_exited n | WS_signaled n \<Rightarrow> PO_killed n | WS_stopped n \<Rightarrow> PO_stopped n
                    | WS_continued \<Rightarrow> PO_continued | WS_other v \<Rightarrow> PO_unexpected v) }"

end
