(* ===== verification/Du.thy ===== *)
theory Du imports Hexdump Homework begin

text \<open>
  The program \<open>proplib/prop_parse_du.c\<close>: it reads what \<open>du -a -P\<close> prints, makes an entry of size, path and kind
  for each line, and shows the entry of \<open>.\<close>. The dictionaries of \<open>proplib\<close>, which is not in the repository, are a
  parameter with what \<open>prop_dictionary(3)\<close> says of them as a hypothesis.
\<close>

section \<open>The program\<close>

definition DU_MAX_STR :: nat where "DU_MAX_STR = 100"
definition MAX_TOKENS :: nat where "MAX_TOKENS = 3"

definition tab :: char where "tab = CHR 0x09"

definition strtok :: "string \<Rightarrow> string option \<times> string" where
  \<comment> \<open>\<open>strtok_r(s, "\t", &last)\<close>: the next token and what is left.\<close>
  "strtok s =
     (let s1 = dropWhile (\<lambda>c. c = tab) s
      in if s1 = [] then (None, []) else (Some (takeWhile (\<lambda>c. c \<noteq> tab) s1), tl (dropWhile (\<lambda>c. c \<noteq> tab) s1)))"

fun du_tokens :: "nat \<Rightarrow> string \<Rightarrow> string list" where
  \<comment> \<open>At most \<open>n\<close> tokens.\<close>
  "du_tokens 0 s = []"
| "du_tokens (Suc n) s = (case strtok s of (None, _) \<Rightarrow> [] | (Some t, rest) \<Rightarrow> t # du_tokens n rest)"

record ('d, 'v) pdict =
  \<comment> \<open>A kind of dictionary: \<open>create_with_capacity\<close>, \<open>set\<close> and \<open>get\<close>.\<close>
  pd_new :: "'d option"
  pd_set :: "'d \<Rightarrow> string \<Rightarrow> 'v \<Rightarrow> 'd option"
  pd_get :: "'d \<Rightarrow> string \<Rightarrow> 'v option"

datatype pval = PString string | PNumber int | PBool bool

record ('d, 'c) proplib =
  \<comment> \<open>The root dictionary, its children, and whether a value's object can be made.\<close>
  pl_root :: "('d, 'c) pdict"
  pl_child :: "('c, pval) pdict"
  pl_can :: "pval \<Rightarrow> bool"

definition S_IFDIR :: "32 word" where "S_IFDIR = 0x4000"

definition is_dir :: "32 word \<Rightarrow> bool" where "is_dir mode \<longleftrightarrow> mode AND S_IFDIR \<noteq> 0"

definition du_child :: "('d, 'c) proplib \<Rightarrow> (string \<Rightarrow> 32 word option) \<Rightarrow> int \<Rightarrow> string \<Rightarrow> 'c option" where
  \<comment> \<open>The child dictionary of a line; \<open>None\<close> is an exit in \<open>err\<close>.\<close>
  "du_child ops lstat n path =
     do { pcd \<leftarrow> pd_new (pl_child ops);
          if \<not> pl_can ops (PNumber n) \<or> \<not> pl_can ops (PString path) then None
          else do {
            mode \<leftarrow> lstat path;
            if \<not> pl_can ops (PBool (is_dir mode)) then None
            else do {
              c1 \<leftarrow> pd_set (pl_child ops) pcd ''path'' (PString path);
              c2 \<leftarrow> pd_set (pl_child ops) c1 ''size in bytes'' (PNumber n);
              pd_set (pl_child ops) c2 ''is it dir?'' (PBool (is_dir mode)) } } }"

definition du_fields :: "string \<Rightarrow> (int \<times> string) option" where
  \<comment> \<open>The size and the path of a line. A missing token is a null pointer, whose use is undefined, and so is the
      result of \<open>atoi\<close> beyond an \<open>int\<close>. The last character of the second token is cut off.\<close>
  "du_fields str =
     (case du_tokens (MAX_TOKENS - 1) str of
        t0 # t1 # _ \<Rightarrow> do { n \<leftarrow> atoi t0; Some (n, butlast t1) }
      | _ \<Rightarrow> None)"

definition str_of :: "8 word list \<Rightarrow> string" where "str_of = map (char_of \<circ> unat)"

lemma fgets_line_next: "fgets_line n inp = (line, rest, eof) \<Longrightarrow> line \<noteq> [] \<Longrightarrow> length rest < length inp"
  using fgets_line_rest [of n inp line rest eof] by auto

function du_read ::
    "('d, 'c) proplib \<Rightarrow> (string \<Rightarrow> 32 word option) \<Rightarrow> 8 word list \<Rightarrow> 'd \<Rightarrow> 'd option option" where
  \<comment> \<open>The loop over the lines; \<open>Some None\<close> is an exit in \<open>err\<close>, \<open>None\<close> undefined behaviour.\<close>
  "du_read ops lstat inp prd =
     (case fgets_line (DU_MAX_STR - 1) inp of (line, rest, eof) \<Rightarrow>
        if line = [] then Some (Some prd)
        else do {
          (n, path) \<leftarrow> du_fields (takeWhile (\<lambda>c. c \<noteq> CHR 0x00) (str_of line));
          case do { pcd \<leftarrow> du_child ops lstat n path; pd_set (pl_root ops) prd path pcd } of
            None \<Rightarrow> Some None
          | Some prd' \<Rightarrow> du_read ops lstat rest prd' })"
  by pat_completeness auto

termination
  by (relation "measure (\<lambda>(_, _, inp, _). length inp)") (auto dest!: sym [of _ "fgets_line _ _"] fgets_line_next)

declare du_read.simps [simp del]

definition du_show :: "('c, pval) pdict \<Rightarrow> 'c \<Rightarrow> (string \<times> int \<times> bool) option" where
  \<comment> \<open>The three values that are printed; a key that is missing or of another type is undefined.\<close>
  "du_show d po =
     (case (pd_get d po ''path'', pd_get d po ''size in bytes'', pd_get d po ''is it dir?'') of
        (Some (PString p), Some (PNumber n), Some (PBool b)) \<Rightarrow> Some (p, n, b)
      | _ \<Rightarrow> None)"

definition du_main ::
    "('d, 'c) proplib \<Rightarrow> (string \<Rightarrow> 32 word option) \<Rightarrow> ('d \<Rightarrow> bool) \<Rightarrow> bool \<Rightarrow> 8 word list option
     \<Rightarrow> ((string \<times> int \<times> bool) option \<times> bool) option"
  where
  \<comment> \<open>\<open>main\<close> on what the pipe delivers, if it can be opened: what is printed of the entry of \<open>.\<close>, if anything, and
      whether it returns \<open>EXIT_SUCCESS\<close> rather than leaving in \<open>err\<close>. \<open>externalize\<close> is whether the file can be
      written, \<open>closes\<close> whether \<open>pclose\<close>, which comes after the output, succeeds. \<open>prop_object_release\<close> changes only
      reference counts, which the dictionaries here do not have.\<close>
  "du_main ops lstat externalize closes pipe =
     (case pipe of
        None \<Rightarrow> Some (None, False)
      | Some inp \<Rightarrow>
          (case pd_new (pl_root ops) of
             None \<Rightarrow> Some (None, False)
           | Some prd0 \<Rightarrow>
               do { r \<leftarrow> du_read ops lstat inp prd0;
                    case r of
                      None \<Rightarrow> Some (None, False)
                    | Some prd \<Rightarrow>
                        if \<not> externalize prd then Some (None, False)
                        else (case pd_get (pl_root ops) prd ''.'' of
                                None \<Rightarrow> Some (None, False)
                              | Some po \<Rightarrow> do { out \<leftarrow> du_show (pl_child ops) po; Some (Some out, closes) }) }))"

section \<open>Numbers\<close>

lemma of_char_digit: "d < 10 \<Longrightarrow> (of_char (char_of (48 + d) :: char) :: int) = 48 + int d"
proof -
  assume "d < 10"
  then have "(of_char (char_of (48 + d) :: char) :: nat) = 48 + d" by simp
  then have "int (of_char (char_of (48 + d) :: char)) = 48 + int d" by (simp only: of_nat_add of_nat_numeral)
  then show ?thesis by (simp only: of_nat_of_char)
qed

lemma dec_digits_digit: "c \<in> set (dec_digits n) \<Longrightarrow> isdigit c"
proof (induction n rule: dec_digits.induct)
  case (1 n)
  show ?case
  proof (cases "n < 10")
    case True
    then have "dec_digits n = [char_of (48 + n)]" by (subst dec_digits.simps) simp
    with 1(2) True show ?thesis by (simp add: isdigit_def)
  next
    case False
    then have "dec_digits n = dec_digits (n div 10) @ [char_of (48 + n mod 10)]" by (subst dec_digits.simps) simp
    moreover have "isdigit (char_of (48 + n mod 10))" by (simp add: isdigit_def)
    ultimately show ?thesis using 1 False by auto
  qed
qed

lemma dec_digits_nonempty: "dec_digits n \<noteq> []"
  by (subst dec_digits.simps) simp

lemma dec_digits_value: "foldl (\<lambda>a c. 10 * a + (of_char c - 48)) 0 (dec_digits n) = (int n)"
proof (induction n rule: dec_digits.induct)
  case (1 n)
  show ?case
  proof (cases "n < 10")
    case True
    then have "dec_digits n = [char_of (48 + n)]" by (subst dec_digits.simps) simp
    moreover note of_char_digit [OF True]
    ultimately show ?thesis by simp
  next
    case False
    have e: "dec_digits n = dec_digits (n div 10) @ [char_of (48 + n mod 10)]" using False by (subst dec_digits.simps) simp
    have c: "(of_char (char_of (48 + n mod 10) :: char) :: int) = 48 + int (n mod 10)"
      by (rule of_char_digit) simp
    have ih: "foldl (\<lambda>a c. 10 * a + (of_char c - 48)) 0 (dec_digits (n div 10)) = int (n div 10)" by (rule 1 [OF False])
    have "10 * int (n div 10) + int (n mod 10) = int (10 * (n div 10) + n mod 10)" by (simp only: of_nat_add of_nat_mult of_nat_numeral)
    also have "\<dots> = int n" by (simp only: mult_div_mod_eq)
    finally show ?thesis unfolding e foldl_append ih foldl.simps c by simp
  qed
qed

lemma digit_plain: "isdigit c \<Longrightarrow> \<not> isspace c \<and> c \<noteq> CHR ''-'' \<and> c \<noteq> CHR ''+'' \<and> c \<noteq> tab \<and> c \<noteq> CHR 0x00"
  by (auto simp: isdigit_def isspace_def tab_def)

lemma atoi_dec: "int n \<le> INT_MAX \<Longrightarrow> atoi (dec_digits n) = Some (int n)"
proof -
  assume n: "int n \<le> INT_MAX"
  have d: "isdigit (hd (dec_digits n))" by (rule dec_digits_digit [OF hd_in_set [OF dec_digits_nonempty]])
  have "dropWhile isspace (dec_digits n) = dec_digits n"
    using digit_plain [OF d] dec_digits_nonempty [of n] by (cases "dec_digits n") auto
  moreover have "takeWhile isdigit (dec_digits n) = dec_digits n" unfolding takeWhile_eq_all_conv using dec_digits_digit by blast
  ultimately show ?thesis using digit_plain [OF d] n dec_digits_value [of n] by (simp add: atoi_def Let_def INT_MAX_def del: takeWhile_eq_all_conv)
qed

section \<open>One line\<close>

definition du_text :: "nat \<Rightarrow> string \<Rightarrow> 8 word list" where
  \<comment> \<open>A line of \<open>du\<close>.\<close>
  "du_text n path = map (of_nat \<circ> of_char) (dec_digits n @ tab # path) @ [10]"

definition plain_path :: "string \<Rightarrow> bool" where
  "plain_path path \<longleftrightarrow> path \<noteq> [] \<and> tab \<notin> set path \<and> CHR 0x0A \<notin> set path \<and> CHR 0x00 \<notin> set path"

lemma char_byte [simp]: "char_of (unat (of_nat (of_char c) :: 8 word)) = (c :: char)"
proof -
  have "(of_char c :: nat) < 256" using of_char_mod_256 [of c, where 'a = nat] by (metis mod_less_divisor zero_less_numeral)
  then show ?thesis by (simp add: unat_of_nat)
qed

lemma char_10: "(char_of (10 :: nat) :: char) = CHR 0x0A"
  by code_simp

lemma str_of_text: "str_of (du_text n path) = dec_digits n @ tab # path @ [CHR 0x0A]"
  by (simp add: str_of_def du_text_def comp_def char_10)

lemma char_byte_newline: "(of_nat (of_char c) :: 8 word) = 10 \<longleftrightarrow> c = CHR 0x0A"
proof
  assume "(of_nat (of_char c) :: 8 word) = 10"
  then have "char_of (unat (of_nat (of_char c) :: 8 word)) = (char_of (unat (10 :: 8 word)) :: char)" by (rule arg_cong)
  then show "c = CHR 0x0A" by (simp add: char_10)
qed simp

lemma fgets_line_nil: "fgets_line n [] = ([], [], n \<noteq> 0)"
  by (cases n) simp_all

lemma fgets_line_newline: "10 \<notin> set xs \<Longrightarrow> length xs < n \<Longrightarrow> fgets_line n (xs @ 10 # rest) = (xs @ [10], rest, False)"
proof (induction xs arbitrary: n)
  case Nil
  then show ?case by (cases n) simp_all
next
  case (Cons x xs)
  then show ?case by (cases n) auto
qed

lemma dec_digits_plain: "c \<in> set (dec_digits n) \<Longrightarrow> c \<noteq> tab \<and> c \<noteq> CHR 0x0A \<and> c \<noteq> CHR 0x00"
  using digit_plain [OF dec_digits_digit] dec_digits_digit [of c n] by (auto simp: isdigit_def)

lemma fgets_text:
  assumes "plain_path path" "length (du_text n path) < DU_MAX_STR"
  shows "fgets_line (DU_MAX_STR - 1) (du_text n path @ rest) = (du_text n path, rest, False)"
proof -
  let ?xs = "map (of_nat \<circ> of_char) (dec_digits n @ tab # path) :: 8 word list"
  have "10 \<notin> set ?xs"
  proof
    assume "10 \<in> set ?xs"
    then obtain c where c: "c \<in> set (dec_digits n @ tab # path)" "(of_nat (of_char c) :: 8 word) = 10"
      unfolding set_map image_iff comp_def by metis
    then have "c = CHR 0x0A" by (simp only: char_byte_newline)
    with c(1) show False using assms(1) dec_digits_plain [of c n] by (auto simp: plain_path_def tab_def)
  qed
  moreover have "length ?xs < DU_MAX_STR - 1" using assms(2) by (simp add: du_text_def)
  ultimately show ?thesis using fgets_line_newline [of ?xs "DU_MAX_STR - 1" rest] by (simp add: du_text_def)
qed

lemma strtok_token:
  assumes "t \<noteq> []" "tab \<notin> set t"
  shows "strtok (t @ tab # rest) = (Some t, rest)" "strtok t = (Some t, [])"
proof -
  have "hd t \<noteq> tab" using assms by (cases t) auto
  then have h: "dropWhile (\<lambda>c. c = tab) (t @ r) = t @ r" for r using assms(1) by (cases t) auto
  have n: "\<forall>c\<in>set t. c \<noteq> tab" using assms(2) by blast
  show "strtok (t @ tab # rest) = (Some t, rest)"
    using h [of "tab # rest"] n assms(1) by (simp add: strtok_def Let_def takeWhile_append2)
  show "strtok t = (Some t, [])"
    using h [of "[]"] n assms(1) by (simp add: strtok_def Let_def dropWhile_eq_Nil_conv [THEN iffD2])
qed

lemma du_fields_text:
  assumes "plain_path path" "int n \<le> INT_MAX"
  shows "du_fields (dec_digits n @ tab # path @ [CHR 0x0A]) = Some (int n, path)"
proof -
  have d: "tab \<notin> set (dec_digits n)" using dec_digits_plain [of tab n] by blast
  have p: "path @ [CHR 0x0A] \<noteq> []" "tab \<notin> set (path @ [CHR 0x0A])"
    using assms(1) by (auto simp: plain_path_def tab_def)
  have "du_tokens (Suc (Suc 0)) (dec_digits n @ tab # path @ [CHR 0x0A]) = [dec_digits n, path @ [CHR 0x0A]]"
    using strtok_token(1) [OF dec_digits_nonempty d] strtok_token(2) [OF p] by simp
  then show ?thesis using atoi_dec [OF assms(2)] by (simp add: du_fields_def MAX_TOKENS_def numeral_2_eq_2 del: du_tokens.simps)
qed

section \<open>The run\<close>

definition dict_works :: "('d, 'v) pdict \<Rightarrow> bool" where
  \<comment> \<open>Dictionaries can be made and set, and \<open>get\<close> returns what was set last for the key.\<close>
  "dict_works d \<longleftrightarrow> pd_new d \<noteq> None \<and>
     (\<forall>m k v. \<exists>m'. pd_set d m k v = Some m' \<and> (\<forall>k'. pd_get d m' k' = (if k' = k then Some v else pd_get d m k')))"

lemma dict_works_new: "dict_works d \<Longrightarrow> \<exists>m. pd_new d = Some m"
  by (auto simp: dict_works_def)

lemma dict_works_set:
  "dict_works d \<Longrightarrow> \<exists>m'. pd_set d m k v = Some m' \<and> (\<forall>k'. pd_get d m' k' = (if k' = k then Some v else pd_get d m k'))"
  unfolding dict_works_def by blast

lemma du_child_shows:
  assumes d: "dict_works (pl_child ops)" and c: "\<And>v. pl_can ops v" and l: "lstat path = Some mode"
  obtains pcd where "du_child ops lstat n path = Some pcd" "du_show (pl_child ops) pcd = Some (path, n, is_dir mode)"
proof -
  obtain m0 where m0: "pd_new (pl_child ops) = Some m0" using dict_works_new [OF d] by blast
  obtain m1 where m1: "pd_set (pl_child ops) m0 ''path'' (PString path) = Some m1"
    "\<And>k. pd_get (pl_child ops) m1 k = (if k = ''path'' then Some (PString path) else pd_get (pl_child ops) m0 k)"
    using dict_works_set [OF d, of m0 "''path''" "PString path"] by blast
  obtain m2 where m2: "pd_set (pl_child ops) m1 ''size in bytes'' (PNumber n) = Some m2"
    "\<And>k. pd_get (pl_child ops) m2 k = (if k = ''size in bytes'' then Some (PNumber n) else pd_get (pl_child ops) m1 k)"
    using dict_works_set [OF d, of m1 "''size in bytes''" "PNumber n"] by blast
  obtain m3 where m3: "pd_set (pl_child ops) m2 ''is it dir?'' (PBool (is_dir mode)) = Some m3"
    "\<And>k. pd_get (pl_child ops) m3 k = (if k = ''is it dir?'' then Some (PBool (is_dir mode)) else pd_get (pl_child ops) m2 k)"
    using dict_works_set [OF d, of m2 "''is it dir?''" "PBool (is_dir mode)"] by blast
  show ?thesis
  proof
    show "du_child ops lstat n path = Some m3" using m0 m1(1) m2(1) m3(1) c l by (simp add: du_child_def)
    show "du_show (pl_child ops) m3 = Some (path, n, is_dir mode)" by (simp add: du_show_def m1(2) m2(2) m3(2))
  qed
qed

definition du_line_ok :: "(string \<Rightarrow> 32 word option) \<Rightarrow> nat \<times> string \<Rightarrow> bool" where
  "du_line_ok lstat l \<longleftrightarrow> (case l of (n, path) \<Rightarrow>
     plain_path path \<and> int n \<le> INT_MAX \<and> length (du_text n path) < DU_MAX_STR \<and> lstat path \<noteq> None)"

definition du_output :: "(nat \<times> string) list \<Rightarrow> 8 word list" where
  "du_output ls = concat (map (\<lambda>(n, path). du_text n path) ls)"

lemma du_read_line:
  assumes "du_line_ok lstat (n, path)"
  shows "du_read ops lstat (du_text n path @ rest) prd =
    (case do { pcd \<leftarrow> du_child ops lstat (int n) path; pd_set (pl_root ops) prd path pcd } of
       None \<Rightarrow> Some None | Some prd' \<Rightarrow> du_read ops lstat rest prd')"
proof -
  have p: "plain_path path" "int n \<le> INT_MAX" "length (du_text n path) < DU_MAX_STR"
    using assms by (simp_all add: du_line_ok_def)
  have "\<forall>c\<in>set (str_of (du_text n path)). c \<noteq> CHR 0x00"
    using p(1) dec_digits_plain by (auto simp: str_of_text plain_path_def tab_def)
  then have t: "takeWhile (\<lambda>c. c \<noteq> CHR 0x00) (str_of (du_text n path)) = str_of (du_text n path)" by simp
  have "du_text n path \<noteq> []" by (simp add: du_text_def)
  moreover have "du_fields (takeWhile (\<lambda>c. c \<noteq> CHR 0x00) (str_of (du_text n path))) = Some (int n, path)"
    unfolding t unfolding str_of_text by (rule du_fields_text [OF p(1,2)])
  ultimately show ?thesis by (subst du_read.simps) (simp only: fgets_text [OF p(1,3)] prod.case if_False bind.bind_lunit)
qed

lemma du_read_lines:
  assumes r: "dict_works (pl_root ops)" and d: "dict_works (pl_child ops)" and c: "\<And>v. pl_can ops v"
    and ls: "\<forall>l\<in>set ls. du_line_ok lstat l"
  shows "\<exists>prd'. du_read ops lstat (du_output ls) prd = Some (Some prd') \<and>
    (\<forall>k. case map_of (rev (map prod.swap ls)) k of
           None \<Rightarrow> pd_get (pl_root ops) prd' k = pd_get (pl_root ops) prd k
         | Some n \<Rightarrow> \<exists>po mode. pd_get (pl_root ops) prd' k = Some po \<and> lstat k = Some mode \<and>
             du_show (pl_child ops) po = Some (k, int n, is_dir mode))"
  using ls
proof (induction ls arbitrary: prd)
  case Nil
  show ?case by (subst du_read.simps) (simp add: du_output_def fgets_line_nil)
next
  case (Cons l ls)
  obtain n path where l: "l = (n, path)" by (cases l)
  have ok: "du_line_ok lstat (n, path)" using Cons.prems l by simp
  then obtain mode where mode: "lstat path = Some mode" by (auto simp: du_line_ok_def)
  obtain pcd where pcd: "du_child ops lstat (int n) path = Some pcd"
    "du_show (pl_child ops) pcd = Some (path, int n, is_dir mode)" using du_child_shows [where ops = ops and lstat = lstat and path = path and mode = mode and n = "int n"] d c mode by blast
  obtain prd1 where prd1: "pd_set (pl_root ops) prd path pcd = Some prd1"
    "\<And>k. pd_get (pl_root ops) prd1 k = (if k = path then Some pcd else pd_get (pl_root ops) prd k)"
    using dict_works_set [OF r, of prd path pcd] by blast
  have "du_output (l # ls) = du_text n path @ du_output ls" by (simp add: du_output_def l)
  then have e: "du_read ops lstat (du_output (l # ls)) prd = du_read ops lstat (du_output ls) prd1"
    using pcd(1) prd1(1) by (simp add: du_read_line [OF ok])
  have "\<forall>l\<in>set ls. du_line_ok lstat l" using Cons.prems by simp
  from Cons.IH [OF this, of prd1] obtain prd' where ih: "du_read ops lstat (du_output ls) prd1 = Some (Some prd')"
    "\<forall>k. case map_of (rev (map prod.swap ls)) k of
           None \<Rightarrow> pd_get (pl_root ops) prd' k = pd_get (pl_root ops) prd1 k
         | Some n \<Rightarrow> \<exists>po mode. pd_get (pl_root ops) prd' k = Some po \<and> lstat k = Some mode \<and>
             du_show (pl_child ops) po = Some (k, int n, is_dir mode)" by blast
  show ?case
  proof (intro exI conjI allI)
    show "du_read ops lstat (du_output (l # ls)) prd = Some (Some prd')" using e ih(1) by simp
    fix k
    show "case map_of (rev (map prod.swap (l # ls))) k of
           None \<Rightarrow> pd_get (pl_root ops) prd' k = pd_get (pl_root ops) prd k
         | Some n \<Rightarrow> \<exists>po mode. pd_get (pl_root ops) prd' k = Some po \<and> lstat k = Some mode \<and>
             du_show (pl_child ops) po = Some (k, int n, is_dir mode)"
      using ih(2) [rule_format, of k] prd1(2) [of k] pcd(2) mode
      by (cases "map_of (rev (map prod.swap ls)) k") (auto simp: l map_add_def split: option.splits)
  qed
qed

definition map_dict :: "(string \<Rightarrow> 'v option, 'v) pdict" where
  \<comment> \<open>A dictionary as a function, for the witness.\<close>
  "map_dict = \<lparr>pd_new = Some (\<lambda>_. None), pd_set = (\<lambda>m k v. Some (m(k \<mapsto> v))), pd_get = (\<lambda>m k. m k)\<rparr>"

lemma map_dict_works: "dict_works map_dict"
  by (simp add: dict_works_def map_dict_def)

section \<open>Long lines and file types\<close>

lemma fgets_line_take: "10 \<notin> set xs \<Longrightarrow> fgets_line (length xs) (xs @ ys) = (xs, ys, False)"
  by (induction xs) auto

text \<open>
  A line that does not fit in the buffer is cut, and the last character that fits is cut off as if it were the newline:
  the path that is looked up is a proper prefix of the path of the line.
\<close>
theorem du_long_path_cut:
  assumes p: "plain_path path" and n: "int n \<le> INT_MAX"
    and q: "path = q @ c # r" "length (dec_digits n) + 1 + length (q @ [c]) = DU_MAX_STR - 1"
  shows "\<exists>line rest. fgets_line (DU_MAX_STR - 1) (du_text n path @ zs) = (line, rest, False) \<and>
    du_fields (str_of line) = Some (int n, q)"
proof -
  let ?t = "dec_digits n @ tab # q @ [c]"
  let ?xs = "map (of_nat \<circ> of_char) ?t :: 8 word list"
  have t: "tab \<notin> set (dec_digits n)" "tab \<notin> set (q @ [c])" "q @ [c] \<noteq> []"
    using dec_digits_plain [of tab n] p by (auto simp: plain_path_def q)
  have "10 \<notin> set ?xs"
  proof
    assume "10 \<in> set ?xs"
    then obtain c' where c': "c' \<in> set ?t" "(of_nat (of_char c') :: 8 word) = 10"
      unfolding set_map image_iff comp_def by metis
    then have "c' = CHR 0x0A" by (simp only: char_byte_newline)
    with c'(1) show False using p dec_digits_plain [of c' n] by (auto simp: plain_path_def tab_def q)
  qed
  moreover have "length ?xs = DU_MAX_STR - 1" using q(2) by simp
  moreover have "du_text n path = ?xs @ map (of_nat \<circ> of_char) r @ [10]" by (simp add: du_text_def q(1))
  ultimately have f: "fgets_line (DU_MAX_STR - 1) (du_text n path @ zs) = (?xs, map (of_nat \<circ> of_char) r @ [10] @ zs, False)"
    using fgets_line_take [of ?xs "map (of_nat \<circ> of_char) r @ [10] @ zs"] by simp
  have "str_of ?xs = ?t" by (simp add: str_of_def comp_def)
  moreover have "du_tokens (Suc (Suc 0)) ?t = [dec_digits n, q @ [c]]"
    using strtok_token(1) [OF dec_digits_nonempty t(1)] strtok_token(2) [OF t(3,2)] by simp
  ultimately have "du_fields (str_of ?xs) = Some (int n, q)"
    using atoi_dec [OF n] by (simp add: du_fields_def MAX_TOKENS_def numeral_2_eq_2 del: du_tokens.simps)
  with f show ?thesis by auto
qed

text \<open>A socket or a block device is taken for a directory: the mode is tested with a mask of one bit.\<close>
theorem du_socket_is_dir: "is_dir 0x41ED" "\<not> is_dir 0x81A4" "is_dir 0xC1FF" "is_dir 0x6180"
  by (simp_all add: is_dir_def S_IFDIR_def)

text \<open>C40: when dictionaries work and every line of \<open>du\<close> fits in the buffer and names a file that can be looked up, the
  program prints for \<open>.\<close> the path, the size on its last line and its kind, and it then succeeds exactly if \<open>pclose\<close>
  does.\<close>

theorem du_main_prints:
  assumes "dict_works (pl_root ops)" "dict_works (pl_child ops)" "\<And>v. pl_can ops v" "\<And>prd. externalize prd"
    and "\<forall>l\<in>set ls. du_line_ok lstat l"
    and "map_of (rev (map prod.swap ls)) ''.'' = Some n" "lstat ''.'' = Some mode"
  shows "du_main ops lstat externalize closes (Some (du_output ls)) = Some (Some (''.'', int n, is_dir mode), closes)"
proof -
  obtain prd0 where n: "pd_new (pl_root ops) = Some prd0" using dict_works_new [OF assms(1)] by blast
  obtain prd' where prd': "du_read ops lstat (du_output ls) prd0 = Some (Some prd')"
    "\<forall>k. case map_of (rev (map prod.swap ls)) k of
           None \<Rightarrow> pd_get (pl_root ops) prd' k = pd_get (pl_root ops) prd0 k
         | Some n \<Rightarrow> \<exists>po mode. pd_get (pl_root ops) prd' k = Some po \<and> lstat k = Some mode \<and>
             du_show (pl_child ops) po = Some (k, int n, is_dir mode)"
    using du_read_lines [where ops = ops, OF assms(1-3,5), of prd0] by blast
  have "\<exists>po. pd_get (pl_root ops) prd' ''.'' = Some po \<and> du_show (pl_child ops) po = Some (''.'', int n, is_dir mode)"
    using prd'(2) [rule_format, of "''.''"] assms(7) by (simp add: assms(6))
  with prd'(1) show ?thesis using n assms(4) by (auto simp: du_main_def)
qed

theorem du_main_prints_witness:
  "du_main \<lparr>pl_root = map_dict, pl_child = map_dict, pl_can = \<lambda>_. True\<rparr> (\<lambda>p. Some (if p = ''.'' then 0x41ED else 0x81A4))
     (\<lambda>_. True) True (Some (du_output [(8, ''./a b''), (12, ''.'')])) = Some (Some (''.'', 12, True), True)"
proof -
  let ?ops = "\<lparr>pl_root = map_dict, pl_child = map_dict, pl_can = \<lambda>_. True\<rparr>"
  let ?l = "\<lambda>p. Some (if p = ''.'' then 0x41ED else 0x81A4 :: 32 word)"
  have "dec_digits 8 = ''8''" "dec_digits 12 = ''12''" by code_simp+
  then have "du_line_ok ?l (8, ''./a b'')" "du_line_ok ?l (12, ''.'')"
    by (simp_all add: du_line_ok_def plain_path_def tab_def INT_MAX_def du_text_def DU_MAX_STR_def)
  then show ?thesis
    using du_main_prints [of ?ops "\<lambda>_. True" "[(8, ''./a b''), (12, ''.'')]" ?l 12 "0x41ED" True]
    by (simp add: map_dict_works is_dir_def S_IFDIR_def)
qed

end
