(* ===== verification/Scanf.thy ===== *)
theory Scanf imports Du Arrays begin

text \<open>
  The program \<open>homework/scanfprob.c\<close>, two ways of asking for numbers until \<open>-1\<close> is typed. The input is a text; a run
  that does not return is \<open>None\<close>. The prompts are left out.
\<close>

section \<open>The program\<close>

datatype scan = Scan_eof | Scan_fail | Scan_value int

definition scan_int :: "string \<Rightarrow> scan \<times> string" where
  \<comment> \<open>\<open>scanf("%d")\<close>: what it converts, and the input that it leaves. A sign without a digit behind it is taken.\<close>
  "scan_int inp =
     (let s = dropWhile isspace inp in
      if s = [] then (Scan_eof, [])
      else let sign = (hd s = CHR ''-'' \<or> hd s = CHR ''+''); t = (if sign then tl s else s); ds = takeWhile isdigit t;
               v = foldl (\<lambda>a c. 10 * a + (of_char c - 48)) 0 ds
           in if ds = [] then (Scan_fail, t)
              else (Scan_value (if hd s = CHR ''-'' then - v else v), dropWhile isdigit t))"

definition is_int :: "int \<Rightarrow> bool" where
  "is_int v \<longleftrightarrow> - INT_MAX - 1 \<le> v \<and> v \<le> INT_MAX"

datatype scan_end = Sc_undefined | Sc_done string

partial_function (option) scan_first :: "int option \<Rightarrow> string \<Rightarrow> scan_end option" where
  \<comment> \<open>The first loop; \<open>a\<close> is \<open>None\<close> while it has no value. After a failure \<open>scanf("%[^\n]")\<close> has no argument to store into,
      and a number beyond an \<open>int\<close> is undefined too.\<close>
  "scan_first a inp =
     (case scan_int inp of
        (Scan_fail, rest) \<Rightarrow> Some Sc_undefined
      | (Scan_eof, rest) \<Rightarrow>
          (case a of None \<Rightarrow> Some Sc_undefined | Some v \<Rightarrow> if v \<noteq> - 1 then scan_first a rest else Some (Sc_done rest))
      | (Scan_value v, rest) \<Rightarrow>
          if \<not> is_int v then Some Sc_undefined
          else if v \<noteq> - 1 then scan_first (Some v) rest else Some (Sc_done rest))"

definition sc_line :: "string \<Rightarrow> string" where
  \<comment> \<open>What \<open>fgets(buffer, sizeof buffer, stdin)\<close> reads.\<close>
  "sc_line inp = take 99 (takeWhile (\<lambda>c. c \<noteq> CHR 0x0A) inp @ take 1 (dropWhile (\<lambda>c. c \<noteq> CHR 0x0A) inp))"

partial_function (option) scan_second :: "int \<Rightarrow> string option \<Rightarrow> string \<Rightarrow> scan_end option" where
  \<comment> \<open>The second loop. At the end of the input the buffer keeps what it held.\<close>
  "scan_second a buf inp =
     (let line = sc_line inp;
          buf' = (if line = [] then buf else Some (takeWhile (\<lambda>c. c \<noteq> CHR 0x00) line));
          rest = drop (length line) inp
      in case buf' of
           None \<Rightarrow> Some Sc_undefined
         | Some b \<Rightarrow>
             (case fst (scan_int b) of
                Scan_fail \<Rightarrow> scan_second a buf' rest
              | Scan_eof \<Rightarrow> if a \<noteq> - 1 then scan_second a buf' rest else Some (Sc_done rest)
              | Scan_value v \<Rightarrow>
                  if \<not> is_int v then Some Sc_undefined
                  else if v \<noteq> - 1 then scan_second v buf' rest else Some (Sc_done rest)))"

definition scanf_main :: "string \<Rightarrow> scan_end option" where
  "scanf_main inp =
     do { e \<leftarrow> scan_first None inp;
          case e of Sc_undefined \<Rightarrow> Some Sc_undefined | Sc_done rest \<Rightarrow> scan_second (- 1) None (tl rest) }"

declare scan_first.simps [code] scan_second.simps [code]

section \<open>Reading numbers back\<close>

definition stops :: "string \<Rightarrow> bool" where
  \<comment> \<open>No digit follows.\<close>
  "stops rest \<longleftrightarrow> rest = [] \<or> \<not> isdigit (hd rest)"

lemma dec_digits_stop: "stops rest \<Longrightarrow> takeWhile isdigit (dec_digits n @ rest) = dec_digits n \<and> dropWhile isdigit (dec_digits n @ rest) = rest"
  using dec_digits_digit [of _ n] by (cases rest) (auto simp: stops_def takeWhile_append dropWhile_append)

lemma dec_digits_hd: "\<not> isspace (hd (dec_digits n)) \<and> hd (dec_digits n) \<noteq> CHR ''-'' \<and> hd (dec_digits n) \<noteq> CHR ''+''"
  using digit_plain [OF dec_digits_digit [OF hd_in_set [OF dec_digits_nonempty [of n]]]] by simp

lemma drop_spaces: "\<forall>c\<in>set ws. isspace c \<Longrightarrow> \<not> isspace x \<Longrightarrow> dropWhile isspace (ws @ x # xs) = x # xs"
  by (induction ws) auto

lemma scan_int_dec:
  assumes "\<forall>c\<in>set ws. isspace c" "stops rest"
  shows "scan_int (ws @ dec_int n @ rest) = (Scan_value n, rest)"
proof -
  let ?ds = "dec_digits (nat \<bar>n\<bar>)"
  have e: "dec_int n = (if n < 0 then CHR ''-'' # ?ds else ?ds)" by (simp add: dec_int_def)
  obtain c cs where c: "?ds = c # cs" using dec_digits_nonempty by (cases ?ds) auto
  then have h: "\<not> isspace c" "c \<noteq> CHR ''-''" "c \<noteq> CHR ''+''" using dec_digits_hd [of "nat \<bar>n\<bar>"] by simp_all
  have m: "\<not> isspace (CHR ''-'')" by (simp add: isspace_def)
  have d: "dropWhile isspace (ws @ dec_int n @ rest) = dec_int n @ rest"
    using drop_spaces [OF assms(1) h(1), of "cs @ rest"] drop_spaces [OF assms(1) m, of "?ds @ rest"] unfolding e c by simp
  note S = dec_digits_stop [OF assms(2), of "nat \<bar>n\<bar>"]
  have v: "foldl (\<lambda>a c. 10 * a + (of_char c - 48)) 0 ?ds = \<bar>n\<bar>" using dec_digits_value [of "nat \<bar>n\<bar>"] by simp
  show ?thesis
  proof (cases "n < 0")
    case True
    then show ?thesis unfolding scan_int_def d Let_def using S v c by (simp add: e)
  next
    case False
    then have "dec_int n = ?ds" "hd (dec_int n @ rest) = c" using e c by simp_all
    then show ?thesis unfolding scan_int_def d Let_def using S v c h False by simp
  qed
qed

definition typed :: "int list \<Rightarrow> string" where
  "typed ns = concat (map (\<lambda>n. dec_int n @ [CHR 0x0A]) ns)"

lemma typed_Cons: "typed (n # ns) = dec_int n @ CHR 0x0A # typed ns"
  by (simp add: typed_def)

lemma nl: "isspace (CHR 0x0A)" "stops (CHR 0x0A # s)"
  by (simp_all add: isspace_def stops_def isdigit_def)

lemma scan_first_step:
  assumes "\<forall>c\<in>set ws. isspace c" "is_int n" "n \<noteq> - 1"
  shows "scan_first a (ws @ dec_int n @ CHR 0x0A # s) = scan_first (Some n) (CHR 0x0A # s)"
  using scan_int_dec [OF assms(1) nl(2), of n s] assms(2,3) by (subst scan_first.simps) simp

lemma scan_first_numbers:
  "\<forall>n\<in>set ns. is_int n \<and> n \<noteq> - 1 \<Longrightarrow> \<forall>c\<in>set ws. isspace c \<Longrightarrow> ns \<noteq> [] \<Longrightarrow>
    scan_first a (ws @ typed ns @ s) = scan_first (Some (last ns)) (CHR 0x0A # s)"
proof (induction ns arbitrary: a ws)
  case (Cons n ns)
  have step: "scan_first a (ws @ typed (n # ns) @ s) = scan_first (Some n) (CHR 0x0A # typed ns @ s)"
    using scan_first_step [OF Cons.prems(2), of n a "typed ns @ s"] Cons.prems(1) by (simp add: typed_Cons)
  show ?case
  proof (cases "ns = []")
    case True
    then show ?thesis using step by (simp add: typed_def)
  next
    case False
    then show ?thesis using step Cons.IH [of "[CHR 0x0A]" "Some n"] Cons.prems(1) nl(1) by simp
  qed
qed simp

section \<open>What the two loops do\<close>

lemma scan_int_eof: "\<forall>c\<in>set ws. isspace c \<Longrightarrow> scan_int ws = (Scan_eof, [])"
  by (simp add: scan_int_def dropWhile_eq_Nil_conv [THEN iffD2])

lemma eof_needs_none:
  assumes "scan_first a inp = Some y"
  shows "a \<noteq> Some (- 1) \<longrightarrow> (\<forall>c\<in>set inp. isspace c) \<longrightarrow> a = None"
proof (rule scan_first.raw_induct [of "\<lambda>a inp y. a \<noteq> Some (- 1) \<longrightarrow> (\<forall>c\<in>set inp. isspace c) \<longrightarrow> a = None", OF _ assms], intro impI)
  fix rec and a :: "int option" and inp y
  assume IH: "\<And>a b y. rec a b = Some y \<Longrightarrow> a \<noteq> Some (- 1) \<longrightarrow> (\<forall>c\<in>set b. isspace c) \<longrightarrow> a = None"
    and body: "(case scan_int inp of
        (Scan_eof, rest) \<Rightarrow>
          (case a of None \<Rightarrow> Some Sc_undefined | Some v \<Rightarrow> if v \<noteq> - 1 then rec a rest else Some (Sc_done rest))
      | (Scan_fail, rest) \<Rightarrow> Some Sc_undefined
      | (Scan_value v, rest) \<Rightarrow>
          if \<not> is_int v then Some Sc_undefined
          else if v \<noteq> - 1 then rec (Some v) rest else Some (Sc_done rest)) = Some y"
    and P: "a \<noteq> Some (- 1)" "\<forall>c\<in>set inp. isspace c"
  show "a = None"
  proof (cases a)
    case (Some v)
    then have "rec a [] = Some y" using body P(1) scan_int_eof [OF P(2)] by simp
    from IH [OF this] P(1) show ?thesis by simp
  qed simp
qed

lemma no_more_input:
  assumes "a \<noteq> Some (- 1)" "\<forall>c\<in>set inp. isspace c"
  shows "scan_first a inp = (if a = None then Some Sc_undefined else None)"
proof -
  have "scan_first None inp = Some Sc_undefined" using scan_int_eof [OF assms(2)] by (subst scan_first.simps) simp
  then show ?thesis using eof_needs_none [of a inp] assms by (cases a; cases "scan_first a inp") auto
qed

text \<open>The first loop ends at the first \<open>-1\<close> when only numbers are typed; without a \<open>-1\<close> it goes on for ever when
  the input ends, and a word that is no number makes it undefined.\<close>

theorem scan_first_correct:
  assumes "\<forall>n\<in>set ns. is_int n \<and> n \<noteq> - 1" "c \<noteq> CHR ''-''" "c \<noteq> CHR ''+''" "\<not> isspace c" "\<not> isdigit c"
  shows "scan_first None (typed (ns @ [- 1]) @ s) = Some (Sc_done (CHR 0x0A # s))"
    and "ns \<noteq> [] \<Longrightarrow> scan_first None (typed ns) = None"
    and "scan_first None (typed ns @ c # s) = Some Sc_undefined"
proof -
  have one: "scan_first a (ws @ dec_int (- 1) @ CHR 0x0A # s) = Some (Sc_done (CHR 0x0A # s))" if "\<forall>c\<in>set ws. isspace c" for a ws
    using scan_int_dec [OF that nl(2), of "- 1" s] by (subst scan_first.simps) (simp add: is_int_def INT_MAX_def)
  have bad: "scan_first a (ws @ c # s) = Some Sc_undefined" if "\<forall>c\<in>set ws. isspace c" for a ws
  proof -
    have "dropWhile isspace (ws @ c # s) = c # s" using drop_spaces [OF that assms(4)] .
    then have "scan_int (ws @ c # s) = (Scan_fail, c # s)" using assms(2,3,5) by (simp add: scan_int_def Let_def)
    then show ?thesis by (subst scan_first.simps) simp
  qed
  note N = scan_first_numbers [OF assms(1), of "[]"]
  show "scan_first None (typed (ns @ [- 1]) @ s) = Some (Sc_done (CHR 0x0A # s))"
  proof (cases "ns = []")
    case True
    then show ?thesis using one [of "[]" None] by (simp add: typed_def)
  next
    case False
    then have "scan_first None (typed (ns @ [- 1]) @ s) = scan_first (Some (last ns)) ([CHR 0x0A] @ dec_int (- 1) @ CHR 0x0A # s)"
      using N [of None "dec_int (- 1) @ CHR 0x0A # s"] by (simp add: typed_def)
    then show ?thesis using one [of "[CHR 0x0A]"] nl(1) by simp
  qed
  show "scan_first None (typed ns) = None" if ne: "ns \<noteq> []"
    using N [of None "[]"] ne no_more_input [of "Some (last ns)" "[CHR 0x0A]"] assms(1) nl(1) by simp
  show "scan_first None (typed ns @ c # s) = Some Sc_undefined"
    using N [of None "c # s"] bad [of "[]" None] bad [of "[CHR 0x0A]"] nl(1) by (cases "ns = []") (simp_all add: typed_def)
qed

text \<open>The second loop starts with the \<open>-1\<close> of the first one in its variable, so an empty first line ends it.\<close>

lemma scan_second_empty_line: "scan_second (- 1) buf (CHR 0x0A # s) = Some (Sc_done s)"
  by (subst scan_second.simps) (simp add: sc_line_def scan_int_def isspace_def Let_def)

text \<open>A line that is no number does not disturb it.\<close>

lemma scan_second_word:
  assumes "c \<noteq> CHR ''-''" "c \<noteq> CHR ''+''" "\<not> isspace c" "\<not> isdigit c" "c \<noteq> CHR 0x00"
  shows "\<exists>buf'. scan_second a buf (c # CHR 0x0A # s) = scan_second a buf' s"
proof -
  have n: "c \<noteq> CHR 0x0A" using assms(3) nl(1) by auto
  have "sc_line (c # CHR 0x0A # s) = [c, CHR 0x0A]" using n by (simp add: sc_line_def)
  moreover have "fst (scan_int [c, CHR 0x0A]) = Scan_fail" using assms by (simp add: scan_int_def Let_def)
  ultimately show ?thesis using assms(5)
    by (intro exI [of _ "Some [c, CHR 0x0A]"]) (subst scan_second.simps, simp add: Let_def)
qed

end
