(* ===== verification/Proplib.thy ===== *)
theory Proplib imports Prelude begin

text \<open>
  The clients of the property lists, \<open>proplib/prop_write_array.c\<close>, \<open>prop_read_array_.c\<close> and \<open>prop_dict.c\<close>. The library
  is not part of the repository: its functions are parameters, and what prop_object(3), prop_array(3), prop_dictionary(3)
  and prop_string(3) say of them is a hypothesis, over a view of the objects: their numbers of references, what they
  hold, the iterators and the files.
\<close>

section \<open>The library\<close>

datatype pobj = P_string string | P_array "nat list" | P_dict "(string \<times> nat) list" | P_other

datatype pvalue = V_string string | V_other

datatype pfile = F_array "pvalue list" | F_dict "string \<rightharpoonup> string"

record 'l propapi =
  pl_array_create :: "'l \<Rightarrow> nat option \<times> 'l"
  pl_dict_create :: "'l \<Rightarrow> nat option \<times> 'l"
  pl_string_create :: "string \<Rightarrow> 'l \<Rightarrow> nat option \<times> 'l"
  pl_array_add :: "nat \<Rightarrow> nat \<Rightarrow> 'l \<Rightarrow> bool \<times> 'l"
  pl_dict_set :: "nat \<Rightarrow> string \<Rightarrow> nat \<Rightarrow> 'l \<Rightarrow> bool \<times> 'l"
  pl_release :: "nat \<Rightarrow> 'l \<Rightarrow> 'l"
  pl_externalize :: "nat \<Rightarrow> string \<Rightarrow> 'l \<Rightarrow> bool \<times> 'l"
  pl_internalize :: "string \<Rightarrow> 'l \<Rightarrow> nat option \<times> 'l"
  pl_count :: "nat \<Rightarrow> 'l \<Rightarrow> nat"
  pl_get :: "nat \<Rightarrow> nat \<Rightarrow> 'l \<Rightarrow> nat option"
  pl_is_string :: "nat option \<Rightarrow> 'l \<Rightarrow> bool"
  pl_cstring :: "nat option \<Rightarrow> 'l \<Rightarrow> string option"
  pl_iterator :: "nat \<Rightarrow> 'l \<Rightarrow> nat option \<times> 'l"
  pl_next :: "nat \<Rightarrow> 'l \<Rightarrow> nat option \<times> 'l"
  pl_iterator_release :: "nat \<Rightarrow> 'l \<Rightarrow> 'l"

section \<open>The programs\<close>

datatype p_end = PE_usage | PE_err string | PE_ok

fun write_items :: "'l propapi \<Rightarrow> nat \<Rightarrow> string list \<Rightarrow> 'l \<Rightarrow> p_end \<times> 'l" where
  \<comment> \<open>The loop over the arguments.\<close>
  "write_items P pa [] l = (PE_ok, l)"
| "write_items P pa (s # ss) l =
     (case pl_string_create P s l of
        (None, l1) \<Rightarrow> (PE_err ''prop_string_create_cstring_nocopy()'', pl_release P pa l1)
      | (Some ps, l1) \<Rightarrow>
          (case pl_array_add P pa ps l1 of
             (False, l2) \<Rightarrow> (PE_err ''prop_array_add()'', pl_release P ps (pl_release P pa l2))
           | (True, l2) \<Rightarrow> write_items P pa ss (pl_release P ps l2)))"

definition prop_write_main :: "'l propapi \<Rightarrow> string list \<Rightarrow> 'l \<Rightarrow> p_end \<times> 'l" where
  "prop_write_main P argv l =
     (if length argv < 2 then (PE_usage, l)
      else case pl_array_create P l of
        (None, l1) \<Rightarrow> (PE_err ''prop_array_create_with_capacity()'', l1)
      | (Some pa, l1) \<Rightarrow>
          (case write_items P pa argv l1 of
             (PE_ok, l2) \<Rightarrow>
               (case pl_externalize P pa (argv ! 1) l2 of
                  (False, l3) \<Rightarrow> (PE_err ''prop_array_externalize_to_file()'', pl_release P pa l3)
                | (True, l3) \<Rightarrow> (PE_ok, pl_release P pa l3))
           | (e, l2) \<Rightarrow> (e, l2)))"

fun dict_items :: "'l propapi \<Rightarrow> nat \<Rightarrow> string list \<Rightarrow> 'l \<Rightarrow> p_end \<times> 'l" where
  "dict_items P pd [] l = (PE_ok, l)"
| "dict_items P pd (s # ss) l =
     (case pl_string_create P s l of
        (None, l1) \<Rightarrow> (PE_err ''prop_string_create_cstring_nocopy()'', pl_release P pd l1)
      | (Some ps, l1) \<Rightarrow>
          (case pl_dict_set P pd s ps l1 of
             (False, l2) \<Rightarrow> (PE_err ''prop_dictionary_set()'', pl_release P pd (pl_release P ps l2))
           | (True, l2) \<Rightarrow> dict_items P pd ss (pl_release P ps l2)))"

definition prop_dict_main :: "'l propapi \<Rightarrow> string list \<Rightarrow> 'l \<Rightarrow> p_end \<times> 'l" where
  "prop_dict_main P argv l =
     (case pl_dict_create P l of
        (None, l1) \<Rightarrow> (PE_err ''prop_dictionary_create_with_capacity()'', l1)
      | (Some pd, l1) \<Rightarrow>
          (case dict_items P pd (tl argv) l1 of
             (PE_ok, l2) \<Rightarrow>
               (case pl_externalize P pd ''./data.xml'' l2 of
                  (False, l3) \<Rightarrow> (PE_err ''prop_dictionary_externalize_to_file()'', pl_release P pd l3)
                | (True, l3) \<Rightarrow> (PE_ok, pl_release P pd l3))
           | (e, l2) \<Rightarrow> (e, l2)))"

fun print_items :: "'l propapi \<Rightarrow> nat \<Rightarrow> nat list \<Rightarrow> 'l \<Rightarrow> (bool \<times> string) option" where
  \<comment> \<open>The loop over the indices; \<open>False\<close>: it exits in \<open>errx\<close>. \<open>None\<close>: a null pointer is printed.\<close>
  "print_items P pa [] l = Some (True, [])"
| "print_items P pa (i # is) l =
     (let po = pl_get P pa i l in
      if \<not> pl_is_string P po l then Some (False, [])
      else do { s \<leftarrow> pl_cstring P po l; (ok, t) \<leftarrow> print_items P pa is l; Some (ok, s @ CHR 0x0A # t) })"

partial_function (option) iterate_items :: "'l propapi \<Rightarrow> nat \<Rightarrow> 'l \<Rightarrow> (string \<times> 'l) option" where
  "iterate_items P pit l =
     (case pl_next P pit l of
        (None, l1) \<Rightarrow> Some ([], l1)
      | (Some po, l1) \<Rightarrow> do { s \<leftarrow> pl_cstring P (Some po) l1; (t, l2) \<leftarrow> iterate_items P pit l1; Some (s @ CHR 0x0A # t, l2) })"

definition prop_read_main :: "'l propapi \<Rightarrow> string list \<Rightarrow> 'l \<Rightarrow> ((p_end \<times> string) \<times> 'l) option" where
  "prop_read_main P argv l =
     (if length argv \<noteq> 2 then Some ((PE_usage, []), l)
      else case pl_internalize P (argv ! 1) l of
        (None, l1) \<Rightarrow> Some ((PE_err ''prop_array_internalize_from_file()'', []), l1)
      | (Some pa, l1) \<Rightarrow>
          do { (ok, s) \<leftarrow> print_items P pa [0..<pl_count P pa l1] l1;
               let out1 = ''-> Iterate with prop_array_count()'' @ CHR 0x0A # s;
               if \<not> ok then Some ((PE_err ''invalid string type'', out1), pl_release P pa l1)
               else let out2 = out1 @ ''-> Iterate with prop_array_iterator_t'' @ [CHR 0x0A] in
                 case pl_iterator P pa l1 of
                   (None, l2) \<Rightarrow> Some ((PE_err ''prop_array_iterator()'', out2), pl_release P pa l2)
                 | (Some pit, l2) \<Rightarrow>
                     do { (t, l3) \<leftarrow> iterate_items P pit l2;
                          Some ((PE_ok, out2 @ t), pl_iterator_release P pit (pl_release P pa l3)) } })"

declare iterate_items.simps [code]

section \<open>What the library promises\<close>

record pview =
  pv_refs :: "nat \<Rightarrow> nat"
  pv_obj :: "nat \<rightharpoonup> pobj"
  pv_iter :: "nat \<rightharpoonup> nat \<times> nat list"
  pv_file :: "string \<rightharpoonup> pfile"

definition pv_new :: "nat \<Rightarrow> pobj \<Rightarrow> pview \<Rightarrow> pview" where
  "pv_new a ob v = v\<lparr>pv_refs := (pv_refs v)(a := 1), pv_obj := (pv_obj v)(a \<mapsto> ob)\<rparr>"

definition pv_drop :: "nat \<Rightarrow> pview \<Rightarrow> pview" where
  \<comment> \<open>One reference less to an object that refers to no others.\<close>
  "pv_drop a v =
     (if pv_refs v a = 1 then v\<lparr>pv_refs := (pv_refs v)(a := 0), pv_obj := (pv_obj v)(a := None)\<rparr>
      else v\<lparr>pv_refs := (pv_refs v)(a := pv_refs v a - 1)\<rparr>)"

fun members :: "pobj option \<Rightarrow> nat list" where
  "members (Some (P_array xs)) = xs"
| "members (Some (P_dict kvs)) = map snd kvs"
| "members ob = []"

definition pv_release :: "nat \<Rightarrow> pview \<Rightarrow> pview" where
  \<comment> \<open>With its last reference an object goes, and the references that it holds.\<close>
  "pv_release a v = fold pv_drop (if pv_refs v a = 1 then members (pv_obj v a) else []) (pv_drop a v)"

fun p_value :: "pobj option \<Rightarrow> pvalue" where
  "p_value (Some (P_string s)) = V_string s"
| "p_value ob = V_other"

fun p_string :: "pobj option \<Rightarrow> string option" where
  "p_string (Some (P_string s)) = Some s"
| "p_string ob = None"

fun pv_contents :: "pview \<Rightarrow> pobj option \<Rightarrow> pfile option" where
  "pv_contents v (Some (P_array xs)) = Some (F_array (map (\<lambda>x. p_value (pv_obj v x)) xs))"
| "pv_contents v (Some (P_dict kvs)) = Some (F_dict (\<lambda>k. map_of kvs k \<bind> (\<lambda>x. p_string (pv_obj v x))))"
| "pv_contents v ob = None"

definition made :: "pview \<Rightarrow> pobj \<Rightarrow> nat option \<Rightarrow> pview \<Rightarrow> bool" where
  "made v ob r v' \<longleftrightarrow> (case r of None \<Rightarrow> v' = v | Some a \<Rightarrow> pv_refs v a = 0 \<and> v' = pv_new a ob v)"

definition p_obj_of :: "pvalue \<Rightarrow> pobj" where
  "p_obj_of pval = (case pval of V_string s \<Rightarrow> P_string s | V_other \<Rightarrow> P_other)"

definition loaded :: "pview \<Rightarrow> pvalue list \<Rightarrow> nat \<Rightarrow> pview \<Rightarrow> bool" where
  \<comment> \<open>A new array with new members.\<close>
  "loaded v vals a v' \<longleftrightarrow> (\<exists>xs. distinct (a # xs) \<and> length xs = length vals \<and> (\<forall>x\<in>set (a # xs). pv_refs v x = 0) \<and>
     v' = v\<lparr>pv_refs := (\<lambda>x. if x \<in> set (a # xs) then 1 else pv_refs v x),
            pv_obj := (pv_obj v ++ map_of (zip xs (map p_obj_of vals)))(a \<mapsto> P_array xs)\<rparr>)"

text \<open>The laws, one for each function or pair of functions.\<close>

definition law_create :: "'l propapi \<Rightarrow> ('l \<Rightarrow> pview) \<Rightarrow> bool" where
  "law_create P view \<longleftrightarrow>
     (\<forall>l. made (view l) (P_array []) (fst (pl_array_create P l)) (view (snd (pl_array_create P l))) \<and>
          made (view l) (P_dict []) (fst (pl_dict_create P l)) (view (snd (pl_dict_create P l))) \<and>
          (\<forall>s. made (view l) (P_string s) (fst (pl_string_create P s l)) (view (snd (pl_string_create P s l)))))"

definition law_add :: "'l propapi \<Rightarrow> ('l \<Rightarrow> pview) \<Rightarrow> bool" where
  "law_add P view \<longleftrightarrow>
     (\<forall>a b xs l. pv_obj (view l) a = Some (P_array xs) \<and> pv_obj (view l) b \<noteq> None \<longrightarrow>
        view (snd (pl_array_add P a b l)) =
          (if fst (pl_array_add P a b l)
           then (view l)\<lparr>pv_obj := (pv_obj (view l))(a \<mapsto> P_array (xs @ [b])),
                         pv_refs := (pv_refs (view l))(b := pv_refs (view l) b + 1)\<rparr>
           else view l))"

definition law_set :: "'l propapi \<Rightarrow> ('l \<Rightarrow> pview) \<Rightarrow> bool" where
  \<comment> \<open>The object that the key had before loses a reference.\<close>
  "law_set P view \<longleftrightarrow>
     (\<forall>a k b kvs l. pv_obj (view l) a = Some (P_dict kvs) \<and> pv_obj (view l) b \<noteq> None \<longrightarrow>
        view (snd (pl_dict_set P a k b l)) =
          (if fst (pl_dict_set P a k b l)
           then fold pv_drop (map snd (filter (\<lambda>(k', _). k' = k) kvs))
             ((view l)\<lparr>pv_obj := (pv_obj (view l))(a \<mapsto> P_dict (filter (\<lambda>(k', _). k' \<noteq> k) kvs @ [(k, b)])),
                       pv_refs := (pv_refs (view l))(b := pv_refs (view l) b + 1)\<rparr>)
           else view l))"

definition law_release :: "'l propapi \<Rightarrow> ('l \<Rightarrow> pview) \<Rightarrow> bool" where
  "law_release P view \<longleftrightarrow> (\<forall>a l. 0 < pv_refs (view l) a \<longrightarrow> view (pl_release P a l) = pv_release a (view l))"

definition law_write :: "'l propapi \<Rightarrow> ('l \<Rightarrow> pview) \<Rightarrow> bool" where
  "law_write P view \<longleftrightarrow>
     (\<forall>a f l c. pv_contents (view l) (pv_obj (view l) a) = Some c \<longrightarrow>
        (if fst (pl_externalize P a f l)
         then view (snd (pl_externalize P a f l)) = (view l)\<lparr>pv_file := (pv_file (view l))(f \<mapsto> c)\<rparr>
         else \<exists>r. view (snd (pl_externalize P a f l)) = (view l)\<lparr>pv_file := (pv_file (view l))(f := r)\<rparr>))"

definition law_read :: "'l propapi \<Rightarrow> ('l \<Rightarrow> pview) \<Rightarrow> bool" where
  "law_read P view \<longleftrightarrow>
     (\<forall>f l. case fst (pl_internalize P f l) of
        None \<Rightarrow> view (snd (pl_internalize P f l)) = view l
      | Some a \<Rightarrow> \<exists>vals. pv_file (view l) f = Some (F_array vals) \<and> loaded (view l) vals a (view (snd (pl_internalize P f l))))"

definition law_array :: "'l propapi \<Rightarrow> ('l \<Rightarrow> pview) \<Rightarrow> bool" where
  "law_array P view \<longleftrightarrow>
     (\<forall>a xs l. pv_obj (view l) a = Some (P_array xs) \<longrightarrow> pl_count P a l = length xs \<and>
        (\<forall>i<length xs. pl_get P a i l = Some (xs ! i)))"

definition law_string :: "'l propapi \<Rightarrow> ('l \<Rightarrow> pview) \<Rightarrow> bool" where
  "law_string P view \<longleftrightarrow>
     (\<forall>a l. pl_is_string P (Some a) l = (p_string (pv_obj (view l) a) \<noteq> None) \<and>
        pl_cstring P (Some a) l = p_string (pv_obj (view l) a))"

definition law_iterator :: "'l propapi \<Rightarrow> ('l \<Rightarrow> pview) \<Rightarrow> bool" where
  "law_iterator P view \<longleftrightarrow>
     (\<forall>a xs l. pv_obj (view l) a = Some (P_array xs) \<longrightarrow>
        (case fst (pl_iterator P a l) of
           None \<Rightarrow> view (snd (pl_iterator P a l)) = view l
         | Some pit \<Rightarrow> pv_iter (view l) pit = None \<and>
             view (snd (pl_iterator P a l)) = (view l)\<lparr>pv_iter := (pv_iter (view l))(pit \<mapsto> (a, xs)),
               pv_refs := (pv_refs (view l))(a := pv_refs (view l) a + 1)\<rparr>))"

definition law_next :: "'l propapi \<Rightarrow> ('l \<Rightarrow> pview) \<Rightarrow> bool" where
  "law_next P view \<longleftrightarrow>
     (\<forall>pit a xs l. pv_iter (view l) pit = Some (a, xs) \<longrightarrow>
        fst (pl_next P pit l) = (case xs of [] \<Rightarrow> None | x # _ \<Rightarrow> Some x) \<and>
        view (snd (pl_next P pit l)) = (view l)\<lparr>pv_iter := (pv_iter (view l))(pit \<mapsto> (a, tl xs))\<rparr> \<and>
        view (pl_iterator_release P pit l) = pv_release a ((view l)\<lparr>pv_iter := (pv_iter (view l))(pit := None)\<rparr>))"

definition proplib_ok :: "'l propapi \<Rightarrow> ('l \<Rightarrow> pview) \<Rightarrow> bool" where
  "proplib_ok P view \<longleftrightarrow> law_create P view \<and> law_add P view \<and> law_set P view \<and> law_release P view \<and> law_write P view \<and>
     law_read P view \<and> law_array P view \<and> law_string P view \<and> law_iterator P view \<and> law_next P view"

lemma proplibD:
  assumes "proplib_ok P view"
  shows "made (view l) (P_array []) (fst (pl_array_create P l)) (view (snd (pl_array_create P l)))"
    "made (view l) (P_dict []) (fst (pl_dict_create P l)) (view (snd (pl_dict_create P l)))"
    "made (view l) (P_string s) (fst (pl_string_create P s l)) (view (snd (pl_string_create P s l)))"
    "0 < pv_refs (view l) a \<Longrightarrow> view (pl_release P a l) = pv_release a (view l)"
    "pl_is_string P (Some a) l = (p_string (pv_obj (view l) a) \<noteq> None)" "pl_cstring P (Some a) l = p_string (pv_obj (view l) a)"
proof -
  have L: "law_create P view" "law_release P view" "law_string P view" using assms by (simp_all add: proplib_ok_def)
  show "made (view l) (P_array []) (fst (pl_array_create P l)) (view (snd (pl_array_create P l)))"
    "made (view l) (P_dict []) (fst (pl_dict_create P l)) (view (snd (pl_dict_create P l)))"
    "made (view l) (P_string s) (fst (pl_string_create P s l)) (view (snd (pl_string_create P s l)))"
    using L(1) by (simp_all add: law_create_def)
  show "0 < pv_refs (view l) a \<Longrightarrow> view (pl_release P a l) = pv_release a (view l)" using L(2) by (simp add: law_release_def)
  show "pl_is_string P (Some a) l = (p_string (pv_obj (view l) a) \<noteq> None)" "pl_cstring P (Some a) l = p_string (pv_obj (view l) a)"
    using L(3) unfolding law_string_def by blast+
qed

lemma add_view:
  assumes "proplib_ok P view" "pv_obj (view l) a = Some (P_array xs)" "pv_obj (view l) b \<noteq> None"
  shows "view (snd (pl_array_add P a b l)) =
    (if fst (pl_array_add P a b l)
     then (view l)\<lparr>pv_obj := (pv_obj (view l))(a \<mapsto> P_array (xs @ [b])),
                   pv_refs := (pv_refs (view l))(b := pv_refs (view l) b + 1)\<rparr>
     else view l)"
  using assms unfolding proplib_ok_def law_add_def by blast

lemma set_view:
  assumes "proplib_ok P view" "pv_obj (view l) a = Some (P_dict kvs)" "pv_obj (view l) b \<noteq> None"
  shows "view (snd (pl_dict_set P a k b l)) =
    (if fst (pl_dict_set P a k b l)
     then fold pv_drop (map snd (filter (\<lambda>(k', _). k' = k) kvs))
       ((view l)\<lparr>pv_obj := (pv_obj (view l))(a \<mapsto> P_dict (filter (\<lambda>(k', _). k' \<noteq> k) kvs @ [(k, b)])),
                 pv_refs := (pv_refs (view l))(b := pv_refs (view l) b + 1)\<rparr>)
     else view l)"
  using assms unfolding proplib_ok_def law_set_def by blast

lemma externalize_view:
  assumes "proplib_ok P view" "pv_contents (view l) (pv_obj (view l) a) = Some c"
  shows "if fst (pl_externalize P a f l)
    then view (snd (pl_externalize P a f l)) = (view l)\<lparr>pv_file := (pv_file (view l))(f \<mapsto> c)\<rparr>
    else \<exists>r. view (snd (pl_externalize P a f l)) = (view l)\<lparr>pv_file := (pv_file (view l))(f := r)\<rparr>"
  using assms unfolding proplib_ok_def law_write_def by blast

lemma internalize_view:
  assumes "proplib_ok P view"
  shows "case fst (pl_internalize P f l) of
      None \<Rightarrow> view (snd (pl_internalize P f l)) = view l
    | Some a \<Rightarrow> \<exists>vals. pv_file (view l) f = Some (F_array vals) \<and> loaded (view l) vals a (view (snd (pl_internalize P f l)))"
  using assms unfolding proplib_ok_def law_read_def by blast

lemma count_view:
  assumes "proplib_ok P view" "pv_obj (view l) a = Some (P_array xs)"
  shows "pl_count P a l = length xs" "i < length xs \<Longrightarrow> pl_get P a i l = Some (xs ! i)"
  using assms unfolding proplib_ok_def law_array_def by blast+

lemma iterator_view:
  assumes "proplib_ok P view" "pv_obj (view l) a = Some (P_array xs)"
  shows "case fst (pl_iterator P a l) of
      None \<Rightarrow> view (snd (pl_iterator P a l)) = view l
    | Some pit \<Rightarrow> pv_iter (view l) pit = None \<and>
        view (snd (pl_iterator P a l)) = (view l)\<lparr>pv_iter := (pv_iter (view l))(pit \<mapsto> (a, xs)),
          pv_refs := (pv_refs (view l))(a := pv_refs (view l) a + 1)\<rparr>"
  using assms unfolding proplib_ok_def law_iterator_def by blast

lemma next_view:
  assumes "proplib_ok P view" "pv_iter (view l) pit = Some (a, xs)"
  shows "fst (pl_next P pit l) = (case xs of [] \<Rightarrow> None | x # _ \<Rightarrow> Some x)"
    "view (snd (pl_next P pit l)) = (view l)\<lparr>pv_iter := (pv_iter (view l))(pit \<mapsto> (a, tl xs))\<rparr>"
    "view (pl_iterator_release P pit l) = pv_release a ((view l)\<lparr>pv_iter := (pv_iter (view l))(pit := None)\<rparr>)"
  using assms unfolding proplib_ok_def law_next_def by blast+

section \<open>Who owns what\<close>

definition bare :: "(string \<rightharpoonup> pfile) \<Rightarrow> pview" where
  \<comment> \<open>No objects and no iterators.\<close>
  "bare f = \<lparr>pv_refs = \<lambda>_. 0, pv_obj = Map.empty, pv_iter = Map.empty, pv_file = f\<rparr>"

definition own :: "pview \<Rightarrow> nat list \<Rightarrow> bool" where
  \<comment> \<open>The objects are \<open>xs\<close>, with one reference each.\<close>
  "own v xs \<longleftrightarrow> distinct xs \<and> pv_refs v = (\<lambda>x. if x \<in> set xs then 1 else 0) \<and> dom (pv_obj v) = set xs \<and> pv_iter v = Map.empty"

lemma own_nil: "own v [] \<Longrightarrow> v = bare (pv_file v)"
  by (simp add: own_def bare_def dom_eq_empty_conv [symmetric] del: dom_eq_empty_conv)

lemma own_perm: "own v xs \<Longrightarrow> set ys = set xs \<Longrightarrow> distinct ys \<Longrightarrow> own v ys"
  by (simp add: own_def)

lemma own_drop: "own v (x # xs) \<Longrightarrow> own (pv_drop x v) xs \<and> pv_file (pv_drop x v) = pv_file v \<and>
    (\<forall>y. y \<noteq> x \<longrightarrow> pv_obj (pv_drop x v) y = pv_obj v y)"
  by (auto simp: own_def pv_drop_def fun_eq_iff)

lemma own_drops: "own v (xs @ ys) \<Longrightarrow> own (fold pv_drop xs v) ys \<and> pv_file (fold pv_drop xs v) = pv_file v \<and>
    (\<forall>y. y \<notin> set xs \<longrightarrow> pv_obj (fold pv_drop xs v) y = pv_obj v y)"
proof (induction xs arbitrary: v)
  case (Cons x xs)
  then have "own v (x # (xs @ ys))" by simp
  note D = own_drop [OF this]
  then have "own (pv_drop x v) (xs @ ys)" by simp
  from Cons.IH [OF this] D show ?case by auto
qed simp

lemma own_release:
  assumes "own v (a # members (pv_obj v a) @ ys)"
  shows "own (pv_release a v) ys" "pv_file (pv_release a v) = pv_file v"
    "y \<notin> set (a # members (pv_obj v a)) \<Longrightarrow> pv_obj (pv_release a v) y = pv_obj v y"
proof -
  have "pv_refs v a = 1" using assms by (simp add: own_def)
  then have e: "pv_release a v = fold pv_drop (a # members (pv_obj v a)) v" by (simp add: pv_release_def)
  have "own v ((a # members (pv_obj v a)) @ ys)" using assms by simp
  from own_drops [OF this] show "own (pv_release a v) ys" "pv_file (pv_release a v) = pv_file v"
    "y \<notin> set (a # members (pv_obj v a)) \<Longrightarrow> pv_obj (pv_release a v) y = pv_obj v y" unfolding e by blast+
qed

lemma own_refs: "own v xs \<Longrightarrow> x \<in> set xs \<Longrightarrow> pv_refs v x = 1"
  by (simp add: own_def)

lemma made_own:
  assumes "own v xs" "made v ob r v'"
  shows "case r of None \<Rightarrow> v' = v | Some a \<Rightarrow> a \<notin> set xs \<and> own v' (a # xs) \<and> pv_file v' = pv_file v \<and>
    pv_obj v' = (pv_obj v)(a \<mapsto> ob)"
proof (cases r)
  case (Some a)
  then have "pv_refs v a = 0" "v' = pv_new a ob v" using assms(2) by (simp_all add: made_def)
  then show ?thesis using assms(1) Some by (auto simp: own_def pv_new_def split: if_splits)
qed (use assms(2) in \<open>simp add: made_def\<close>)

lemma twice_release:
  \<comment> \<open>Giving up the reference of the program to an object that a container has taken.\<close>
  assumes "own v (x # xs)" "pv_obj v x = Some (P_string s)"
  shows "pv_release x (v\<lparr>pv_obj := ob, pv_refs := (pv_refs v)(x := pv_refs v x + 1)\<rparr>) = v\<lparr>pv_obj := ob\<rparr>"
proof -
  have "pv_refs v x = 1" using assms(1) by (simp add: own_def)
  then have "(pv_refs v)(x := Suc 0) = pv_refs v" by (simp add: fun_eq_iff)
  then show ?thesis using \<open>pv_refs v x = 1\<close> by (simp add: pv_release_def pv_drop_def)
qed

section \<open>Writing\<close>

definition arr_inv :: "pview \<Rightarrow> nat \<Rightarrow> nat list \<Rightarrow> string list \<Rightarrow> bool" where
  "arr_inv v a xs ss \<longleftrightarrow> own v (a # xs) \<and> pv_obj v a = Some (P_array xs) \<and> map (pv_obj v) xs = map (Some \<circ> P_string) ss"

lemma own_end: "own v [] \<Longrightarrow> pv_file v = f \<Longrightarrow> v = bare f"
  using own_nil by blast

lemma release_view: "proplib_ok P view \<Longrightarrow> own (view l) xs \<Longrightarrow> a \<in> set xs \<Longrightarrow> view (pl_release P a l) = pv_release a (view l)"
  by (rule proplibD(4)) (simp_all add: own_refs)

lemma release_string:
  assumes "own v (x # xs)" "pv_obj v x = Some (P_string s)"
  shows "own (pv_release x v) xs" "pv_file (pv_release x v) = pv_file v" "y \<noteq> x \<Longrightarrow> pv_obj (pv_release x v) y = pv_obj v y"
  using own_release(1,2) [of v x xs] own_release(3) [of v x xs y] assms by simp_all

lemma arr_release:
  assumes "own v (a # xs @ ys)" "pv_obj v a = Some (P_array xs)"
  shows "own (pv_release a v) ys" "pv_file (pv_release a v) = pv_file v"
    "y \<notin> set (a # xs) \<Longrightarrow> pv_obj (pv_release a v) y = pv_obj v y"
  using own_release(1,2) [of v a ys] own_release(3) [of v a ys y] assms by simp_all

lemma write_items_ok:
  assumes P: "proplib_ok P view"
  shows "arr_inv (view l) a xs ss \<Longrightarrow> write_items P a ts l = (e, l') \<Longrightarrow> pv_file (view l) = f \<Longrightarrow>
    (if e = PE_ok then pv_file (view l') = f \<and> (\<exists>xs'. arr_inv (view l') a xs' (ss @ ts)) else view l' = bare f)"
proof (induction ts arbitrary: l xs ss)
  case Nil
  then show ?case by auto
next
  case (Cons t ts)
  have O: "own (view l) (a # xs)" "pv_obj (view l) a = Some (P_array xs)" "map (pv_obj (view l)) xs = map (Some \<circ> P_string) ss"
    using Cons.prems(1) by (simp_all add: arr_inv_def)
  obtain r l1 where m: "pl_string_create P t l = (r, l1)" by force
  note M = made_own [OF O(1) proplibD(3) [OF P, of l t], unfolded m prod.sel]
  show ?case
  proof (cases r)
    case None
    then have v: "view l1 = view l" using M by simp
    have "view (pl_release P a l1) = pv_release a (view l1)" by (rule release_view [OF P O(1) [folded v]]) simp
    moreover have "pv_release a (view l1) = bare f"
      unfolding v using arr_release [of "view l" a xs "[]"] O Cons.prems(3) by (intro own_end) simp_all
    ultimately show ?thesis using Cons.prems(2) m None by auto
  next
    case (Some x)
    have x: "x \<notin> set (a # xs)" "own (view l1) (x # a # xs)" "pv_file (view l1) = f"
      "pv_obj (view l1) = (pv_obj (view l))(x \<mapsto> P_string t)" using M Some Cons.prems(3) by simp_all
    have oa: "pv_obj (view l1) a = Some (P_array xs)" using x(1,4) O(2) by auto
    have perm: "own (view l1) (a # xs @ [x])" using own_perm [OF x(2)] x by (auto simp: own_def)
    obtain b l2 where ad: "pl_array_add P a x l1 = (b, l2)" by force
    have A: "view l2 = (if b then (view l1)\<lparr>pv_obj := (pv_obj (view l1))(a \<mapsto> P_array (xs @ [x])),
        pv_refs := (pv_refs (view l1))(x := pv_refs (view l1) x + 1)\<rparr> else view l1)"
      using add_view [OF P oa, of x] x(4) ad by simp
    show ?thesis
    proof (cases b)
      case False
      then have v: "view l2 = view l1" using A by simp
      note R = arr_release [OF perm oa]
      have 1: "view (pl_release P a l2) = pv_release a (view l1)"
        using release_view [OF P, of l2 "a # xs @ [x]" a] perm v by simp
      have ox: "pv_obj (pv_release a (view l1)) x = Some (P_string t)" using R(3) [of x] x by simp
      have "view (pl_release P x (pl_release P a l2)) = pv_release x (view (pl_release P a l2))"
        by (rule release_view [OF P, of _ "[x]"]) (use R(1) 1 in simp_all)
      also have "\<dots> = bare f"
        unfolding 1 using release_string [OF R(1) ox] R(2) x(3) by (intro own_end) simp_all
      finally show ?thesis using Cons.prems(2) m Some ad False by auto
    next
      case True
      let ?ob = "(pv_obj (view l1))(a \<mapsto> P_array (xs @ [x]))"
      have v2: "view l2 = (view l1)\<lparr>pv_obj := ?ob, pv_refs := (pv_refs (view l1))(x := pv_refs (view l1) x + 1)\<rparr>" using A True by simp
      have "0 < pv_refs (view l2) x" by (simp add: v2)
      from proplibD(4) [OF P this] have "view (pl_release P x l2) = (view l1)\<lparr>pv_obj := ?ob\<rparr>"
        unfolding v2 using twice_release [OF x(2), of t ?ob] x(4) by simp
      moreover have "arr_inv ((view l1)\<lparr>pv_obj := ?ob\<rparr>) a (xs @ [x]) (ss @ [t])"
      proof -
        have "own ((view l1)\<lparr>pv_obj := ?ob\<rparr>) (a # xs @ [x])" using perm by (auto simp: own_def)
        moreover have "map ?ob (xs @ [x]) = map (Some \<circ> P_string) (ss @ [t])"
        proof -
          have "map ?ob xs = map (pv_obj (view l)) xs" using x(1,4) O(1) by (auto simp: own_def)
          then show ?thesis using O(3) x(1,4) by simp
        qed
        ultimately show ?thesis by (simp add: arr_inv_def)
      qed
      ultimately have "arr_inv (view (pl_release P x l2)) a (xs @ [x]) (ss @ [t])" "pv_file (view (pl_release P x l2)) = f"
        using x(3) by simp_all
      from Cons.IH [OF this(1) _ this(2)] show ?thesis using Cons.prems(2) m Some ad True by (auto split: if_splits)
    qed
  qed
qed

lemma bare_own: "own (bare f) []" "pv_file (bare f) = f"
  by (simp_all add: own_def bare_def)

lemma arr_contents:
  assumes "arr_inv v a xs ss"
  shows "pv_contents v (pv_obj v a) = Some (F_array (map V_string ss))"
proof -
  have "map (\<lambda>x. p_value (pv_obj v x)) xs = map p_value (map (pv_obj v) xs)" by simp
  also have "\<dots> = map V_string ss" using assms by (simp add: arr_inv_def)
  finally show ?thesis using assms by (simp add: arr_inv_def)
qed

lemma prop_write_ok:
  assumes P: "proplib_ok P view" and l: "view l = bare f" and w: "prop_write_main P argv l = (e, l')"
  shows "\<exists>r. view l' = bare (f(argv ! 1 := r)) \<or> e \<noteq> PE_ok \<and> view l' = bare f" and
    "e = PE_ok \<longrightarrow> view l' = bare (f(argv ! 1 \<mapsto> F_array (map V_string argv)))"
proof -
  let ?G = "view l' = bare (f(argv ! 1 \<mapsto> F_array (map V_string argv))) \<or> e \<noteq> PE_ok \<and> (view l' = bare f \<or> (\<exists>r. view l' = bare (f(argv ! 1 := r))))"
  have ?G
  proof (cases "length argv < 2")
    case True
    then show ?thesis using l w by (auto simp: prop_write_main_def)
  next
    case n: False
    obtain r l1 where m: "pl_array_create P l = (r, l1)" by force
    note M = made_own [OF bare_own(1) proplibD(1) [OF P, of l, unfolded l], unfolded m prod.sel bare_own(2)]
    show ?thesis
    proof (cases r)
      case None
      then show ?thesis using M l w m n by (auto simp: prop_write_main_def)
    next
      case (Some a)
      have a: "arr_inv (view l1) a [] []" "pv_file (view l1) = f" using M Some by (simp_all add: arr_inv_def)
      obtain e2 l2 where wi: "write_items P a argv l1 = (e2, l2)" by force
      note W = write_items_ok [OF P a(1) wi a(2)]
      show ?thesis
      proof (cases "e2 = PE_ok")
        case False
        then show ?thesis using W wi w m Some n by (auto simp: prop_write_main_def split: p_end.splits)
      next
        case True
        then obtain xs where x: "arr_inv (view l2) a xs argv" "pv_file (view l2) = f" using W by auto
        obtain b l3 where ex: "pl_externalize P a (argv ! 1) l2 = (b, l3)" by force
        note E = externalize_view [OF P arr_contents [OF x(1)], of "argv ! 1", unfolded ex prod.sel]
        obtain q where q: "view l3 = (view l2)\<lparr>pv_file := (pv_file (view l2))(argv ! 1 := q)\<rparr>"
          "b \<longrightarrow> q = Some (F_array (map V_string argv))"
          using E by (cases b) auto
        have o3: "own (view l3) (a # xs @ [])" "pv_obj (view l3) a = Some (P_array xs)"
          using x(1) q(1) by (simp_all add: arr_inv_def own_def)
        have "view (pl_release P a l3) = pv_release a (view l3)" by (rule release_view [OF P o3(1)]) simp
        also have "\<dots> = bare (f(argv ! 1 := q))"
          using arr_release(1,2) [OF o3] q(1) x(2) by (intro own_end) simp_all
        finally have v: "view (pl_release P a l3) = bare (f(argv ! 1 := q))" .
        have "l' = pl_release P a l3 \<and> (e = PE_ok \<longrightarrow> b)"
          using w m Some wi True ex n by (auto simp: prop_write_main_def split: bool.splits)
        then show ?thesis using v q(2) by auto
      qed
    qed
  qed
  then show "\<exists>r. view l' = bare (f(argv ! 1 := r)) \<or> e \<noteq> PE_ok \<and> view l' = bare f"
    "e = PE_ok \<longrightarrow> view l' = bare (f(argv ! 1 \<mapsto> F_array (map V_string argv)))" by auto
qed

section \<open>Reading\<close>

definition lines :: "string list \<Rightarrow> string" where
  "lines ss = concat (map (\<lambda>s. s @ [CHR 0x0A]) ss)"

lemma loaded_own:
  assumes "loaded (bare f) vals a v"
  shows "\<exists>xs. own v (a # xs) \<and> pv_obj v a = Some (P_array xs) \<and> map (pv_obj v) xs = map (Some \<circ> p_obj_of) vals \<and> pv_file v = f"
proof -
  from assms obtain xs where x: "distinct (a # xs)" "length xs = length vals"
    "v = (bare f)\<lparr>pv_refs := (\<lambda>x. if x \<in> set (a # xs) then 1 else pv_refs (bare f) x),
            pv_obj := (pv_obj (bare f) ++ map_of (zip xs (map p_obj_of vals)))(a \<mapsto> P_array xs)\<rparr>"
    unfolding loaded_def by blast
  have "own v (a # xs)" using x by (auto simp: own_def bare_def)
  moreover have "map (pv_obj v) xs = map (Some \<circ> p_obj_of) vals"
  proof (rule nth_equalityI)
    fix i assume "i < length (map (pv_obj v) xs)"
    then have i: "i < length xs" by simp
    then have "xs ! i \<noteq> a" using x(1) by auto
    then show "map (pv_obj v) xs ! i = map (Some \<circ> p_obj_of) vals ! i"
      using x i by (simp add: bare_def map_of_zip_nth)
  qed (simp add: x(2))
  moreover have "pv_obj v a = Some (P_array xs)" "pv_file v = f" using x(3) by (simp_all add: bare_def)
  ultimately show ?thesis by blast
qed

lemma print_items_ok:
  assumes P: "proplib_ok P view" and g: "\<forall>i\<in>set is. pl_get P a i l = Some (x i)"
  shows "if \<forall>i\<in>set is. p_string (pv_obj (view l) (x i)) \<noteq> None
    then print_items P a is l = Some (True, lines (map (\<lambda>i. the (p_string (pv_obj (view l) (x i)))) is))
    else \<exists>t. print_items P a is l = Some (False, t)"
  using g
proof (induction "is")
  case Nil
  then show ?case by (simp add: lines_def)
next
  case (Cons i "is")
  have i: "pl_get P a i l = Some (x i)" using Cons.prems by simp
  show ?case
  proof (cases "p_string (pv_obj (view l) (x i))")
    case None
    then show ?thesis using i proplibD(5) [OF P, of "x i" l] by simp
  next
    case (Some s)
    then have S: "pl_is_string P (Some (x i)) l" "pl_cstring P (Some (x i)) l = Some s" using proplibD(5,6) [OF P] by simp_all
    show ?thesis using Cons i S Some by (auto simp: lines_def split: if_splits)
  qed
qed

lemma iterate_items_ok:
  assumes P: "proplib_ok P view"
  shows "pv_iter (view l) pit = Some (a, xs) \<Longrightarrow> map (pv_obj (view l)) xs = map (Some \<circ> P_string) ss \<Longrightarrow>
    \<exists>l'. iterate_items P pit l = Some (lines ss, l') \<and> view l' = (view l)\<lparr>pv_iter := (pv_iter (view l))(pit \<mapsto> (a, []))\<rparr>"
proof (induction xs arbitrary: l ss)
  case Nil
  note N = next_view [OF P Nil.prems(1)]
  obtain l1 where n: "pl_next P pit l = (None, l1)" using N(1) by (cases "pl_next P pit l") auto
  then show ?case using N(2) Nil.prems(2) by (subst iterate_items.simps) (simp add: lines_def)
next
  case (Cons x xs)
  note N = next_view [OF P Cons.prems(1)]
  obtain l1 where n: "pl_next P pit l = (Some x, l1)" using N(1) by (cases "pl_next P pit l") auto
  have v: "view l1 = (view l)\<lparr>pv_iter := (pv_iter (view l))(pit \<mapsto> (a, xs))\<rparr>" using N(2) n by simp
  obtain t ts where s: "ss = t # ts" "pv_obj (view l) x = Some (P_string t)" "map (pv_obj (view l)) xs = map (Some \<circ> P_string) ts"
    using Cons.prems(2) by (cases ss) auto
  have "pv_iter (view l1) pit = Some (a, xs)" "map (pv_obj (view l1)) xs = map (Some \<circ> P_string) ts" using v s(3) by simp_all
  from Cons.IH [OF this] obtain l2 where
    2: "iterate_items P pit l1 = Some (lines ts, l2)" "view l2 = (view l1)\<lparr>pv_iter := (pv_iter (view l1))(pit \<mapsto> (a, []))\<rparr>" by blast
  have "pl_cstring P (Some x) l1 = Some t" using proplibD(6) [OF P] v s(2) by simp
  then show ?case using n 2 s(1) v by (subst iterate_items.simps) (simp add: lines_def)
qed

definition read_text :: "string list \<Rightarrow> string" where
  "read_text ss = ''-> Iterate with prop_array_count()'' @ CHR 0x0A # lines ss @
     ''-> Iterate with prop_array_iterator_t'' @ CHR 0x0A # lines ss"

lemma all_strings:
  "\<forall>q\<in>set vals. q \<noteq> V_other \<Longrightarrow> \<exists>ss. vals = map V_string ss"
proof (induction vals)
  case (Cons q vals)
  then obtain ss s where "vals = map V_string ss" "q = V_string s" by (cases q) auto
  then have "q # vals = map V_string (s # ss)" by simp
  then show ?case ..
qed simp

lemma iterator_gone:
  assumes P: "proplib_ok P view" and o1: "own (view l1) (a # xs)" "pv_obj (view l1) a = Some (P_array xs)"
    and v: "view l3 = (view l1)\<lparr>pv_iter := [pit \<mapsto> (a, [])], pv_refs := (pv_refs (view l1))(a := pv_refs (view l1) a + 1)\<rparr>"
  shows "view (pl_iterator_release P pit (pl_release P a l3)) = bare (pv_file (view l1))"
proof -
  have r: "pv_refs (view l1) a = 1" "pv_iter (view l1) = Map.empty" using o1(1) by (simp_all add: own_def)
  have "0 < pv_refs (view l3) a" by (simp add: v)
  from proplibD(4) [OF P this] have "view (pl_release P a l3) = (view l3)\<lparr>pv_refs := (pv_refs (view l3))(a := 1)\<rparr>"
    by (simp add: pv_release_def pv_drop_def v r(1))
  also have "\<dots> = (view l1)\<lparr>pv_iter := [pit \<mapsto> (a, [])]\<rparr>"
  proof -
    have "(pv_refs (view l1))(a := 1) = pv_refs (view l1)" using r(1) by (simp add: fun_eq_iff)
    then show ?thesis by (simp add: v)
  qed
  finally have 4: "view (pl_release P a l3) = (view l1)\<lparr>pv_iter := [pit \<mapsto> (a, [])]\<rparr>" .
  then have it: "pv_iter (view (pl_release P a l3)) pit = Some (a, [])" by simp
  have "(view l1)\<lparr>pv_iter := Map.empty\<rparr> = view l1" using r(2) by simp
  then have "view (pl_iterator_release P pit (pl_release P a l3)) = pv_release a (view l1)"
    using next_view(3) [OF P it] by (simp add: 4)
  then show ?thesis using arr_release(1,2) [of "view l1" a xs "[]"] o1 by (metis append_Nil2 own_end)
qed

lemma prop_read_ok:
  assumes P: "proplib_ok P view" and l: "view l = bare f"
  shows "\<exists>e out l'. prop_read_main P argv l = Some ((e, out), l') \<and> view l' = bare f \<and>
    (e = PE_ok \<longrightarrow> (\<exists>ss. f (argv ! 1) = Some (F_array (map V_string ss)) \<and> out = read_text ss)) \<and>
    (e = PE_err ''invalid string type'' \<longrightarrow> (\<exists>vals. f (argv ! 1) = Some (F_array vals) \<and> V_other \<in> set vals))"
proof (cases "length argv = 2")
  case False
  then show ?thesis using l by (simp add: prop_read_main_def)
next
  case n: True
  obtain r l1 where m: "pl_internalize P (argv ! 1) l = (r, l1)" by force
  note M = internalize_view [OF P, of "argv ! 1" l, unfolded m prod.sel l]
  show ?thesis
  proof (cases r)
    case None
    then show ?thesis using M m n by (simp add: prop_read_main_def)
  next
    case (Some a)
    then obtain vals where vals: "f (argv ! 1) = Some (F_array vals)" "loaded (bare f) vals a (view l1)"
      using M by (auto simp: bare_own(2))
    from loaded_own [OF vals(2)] obtain xs where x: "own (view l1) (a # xs)" "pv_obj (view l1) a = Some (P_array xs)"
      "map (pv_obj (view l1)) xs = map (Some \<circ> p_obj_of) vals" "pv_file (view l1) = f" by blast
    have c: "pl_count P a l1 = length xs" "\<forall>i\<in>set [0..<length xs]. pl_get P a i l1 = Some (xs ! i)"
      using count_view [OF P x(2)] by simp_all
    have len: "length vals = length xs" using map_eq_imp_length_eq [OF x(3)] by simp
    have at: "pv_obj (view l1) (xs ! i) = Some (p_obj_of (vals ! i))" if "i < length xs" for i
      using arg_cong [OF x(3), of "\<lambda>ys. ys ! i"] that len by simp
    note I = print_items_ok [OF P c(2)]
    have gone: "view (pl_release P a l') = bare f" if "view l' = view l1" for l'
      using release_view [OF P, of l' "a # xs" a] arr_release(1,2) [of "view l1" a xs "[]"] x that
      by (metis append_Nil2 list.set_intros(1) own_end)
    show ?thesis
    proof (cases "\<forall>q\<in>set vals. q \<noteq> V_other")
      case False
      then obtain i where i: "i < length xs" "vals ! i = V_other" by (auto simp: in_set_conv_nth len)
      then have "p_string (pv_obj (view l1) (xs ! i)) = None" using at by (simp add: p_obj_of_def)
      with i(1) have no: "\<not> (\<forall>i\<in>set [0..<length xs]. p_string (pv_obj (view l1) (xs ! i)) \<noteq> None)" by auto
      obtain t where "print_items P a [0..<length xs] l1 = Some (False, t)" using I [unfolded if_not_P [OF no]] by blast
      then show ?thesis using m Some n c(1) gone [of l1] vals(1) False by (auto simp: prop_read_main_def)
    next
      case True
      from all_strings [OF this] obtain ss where ss: "vals = map V_string ss" by blast
      have at': "pv_obj (view l1) (xs ! i) = Some (P_string (ss ! i))" if "i < length xs" for i
        using at [OF that] that len by (simp add: ss p_obj_of_def)
      have ssl: "map (\<lambda>i. the (p_string (pv_obj (view l1) (xs ! i)))) [0..<length xs] = ss"
        by (rule nth_equalityI) (use len at' in \<open>auto simp: ss\<close>)
      have pr: "print_items P a [0..<length xs] l1 = Some (True, lines ss)" using I at' by (simp add: ssl)
      have st: "map (pv_obj (view l1)) xs = map (Some \<circ> P_string) ss" using x(3) by (simp add: ss p_obj_of_def comp_def)
      obtain q l2 where it: "pl_iterator P a l1 = (q, l2)" by force
      note T = iterator_view [OF P x(2), unfolded it prod.sel]
      show ?thesis
      proof (cases q)
        case None
        then show ?thesis using T m Some n c(1) pr it gone [of l2] by (simp add: prop_read_main_def Let_def)
      next
        case pit: (Some pit)
        have v2: "view l2 = (view l1)\<lparr>pv_iter := [pit \<mapsto> (a, xs)], pv_refs := (pv_refs (view l1))(a := pv_refs (view l1) a + 1)\<rparr>"
          using T pit x(1) by (simp add: own_def)
        have "pv_iter (view l2) pit = Some (a, xs)" "map (pv_obj (view l2)) xs = map (Some \<circ> P_string) ss" using v2 st by simp_all
        from iterate_items_ok [OF P this] obtain l3 where
          l3: "iterate_items P pit l2 = Some (lines ss, l3)" "view l3 = (view l2)\<lparr>pv_iter := (pv_iter (view l2))(pit \<mapsto> (a, []))\<rparr>" by blast
        have "view l3 = (view l1)\<lparr>pv_iter := [pit \<mapsto> (a, [])], pv_refs := (pv_refs (view l1))(a := pv_refs (view l1) a + 1)\<rparr>"
          using l3(2) v2 by simp
        from iterator_gone [OF P x(1,2) this] x(4) have "view (pl_iterator_release P pit (pl_release P a l3)) = bare f" by simp
        then show ?thesis using m Some n c(1) pr it pit l3(1) vals(1) ss
          by (auto simp: prop_read_main_def Let_def read_text_def)
      qed
    qed
  qed
qed

text \<open>C33: When the array has been written, reading the file prints the command line, twice, and each of the two programs,
  however it ends, has given up every reference to an object that it had.\<close>

theorem prop_array_roundtrip:
  assumes "proplib_ok P view" "view l = bare f"
  shows "\<exists>e l1 f1. prop_write_main P argv l = (e, l1) \<and> view l1 = bare f1 \<and>
    (\<exists>e' out l2. prop_read_main P [prog, argv ! 1] l1 = Some ((e', out), l2) \<and> view l2 = bare f1 \<and>
      (e = PE_ok \<longrightarrow> e' \<noteq> PE_err ''invalid string type'' \<and> (e' = PE_ok \<longrightarrow> out = read_text argv)))"
proof -
  obtain e l1 where w: "prop_write_main P argv l = (e, l1)" by force
  note W = prop_write_ok [OF assms w]
  from W(1) obtain f1 where f1: "view l1 = bare f1" by blast
  from prop_read_ok [OF assms(1) f1, of "[prog, argv ! 1]"] obtain e' out l2 where
    r: "prop_read_main P [prog, argv ! 1] l1 = Some ((e', out), l2)" "view l2 = bare f1"
      "e' = PE_ok \<longrightarrow> (\<exists>ss. f1 (argv ! 1) = Some (F_array (map V_string ss)) \<and> out = read_text ss)"
      "e' = PE_err ''invalid string type'' \<longrightarrow> (\<exists>vals. f1 (argv ! 1) = Some (F_array vals) \<and> V_other \<in> set vals)" by auto
  have "e' \<noteq> PE_err ''invalid string type'' \<and> (e' = PE_ok \<longrightarrow> out = read_text argv)" if "e = PE_ok"
  proof -
    have "pv_file (bare f1) = pv_file (bare (f(argv ! 1 \<mapsto> F_array (map V_string argv))))" using W(2) that f1 by simp
    then have c: "f1 (argv ! 1) = Some (F_array (map V_string argv))" by (simp add: bare_def)
    have "inj V_string" by (simp add: inj_def)
    then have "map V_string ss = map V_string argv \<Longrightarrow> ss = argv" for ss by (simp add: inj_map_eq_map)
    then show ?thesis using r(3,4) c by auto
  qed
  with w f1 r(1,2) show ?thesis by blast
qed

section \<open>Dictionaries\<close>

definition dict_inv :: "pview \<Rightarrow> nat \<Rightarrow> (string \<times> nat) list \<Rightarrow> string set \<Rightarrow> bool" where
  "dict_inv v a kvs ks \<longleftrightarrow> own v (a # map snd kvs) \<and> pv_obj v a = Some (P_dict kvs) \<and> fst ` set kvs = ks \<and> distinct (map fst kvs) \<and>
     (\<forall>(k, x)\<in>set kvs. pv_obj v x = Some (P_string k))"

lemma dict_contents:
  assumes "dict_inv v a kvs ks"
  shows "pv_contents v (pv_obj v a) = Some (F_dict (\<lambda>k. if k \<in> ks then Some k else None))"
proof -
  have "map_of kvs k \<bind> (\<lambda>x. p_string (pv_obj v x)) = (if k \<in> ks then Some k else None)" for k
  proof (cases "map_of kvs k")
    case None
    then have "k \<notin> ks" using assms by (auto simp: dict_inv_def map_of_eq_None_iff)
    with None show ?thesis by simp
  next
    case (Some x)
    then have "(k, x) \<in> set kvs" by (rule map_of_SomeD)
    then have "pv_obj v x = Some (P_string k)" "k \<in> ks" using assms by (force simp: dict_inv_def)+
    with Some show ?thesis by simp
  qed
  then show ?thesis using assms by (simp add: dict_inv_def)
qed

lemma dict_release:
  assumes "own v (a # map snd kvs @ ys)" "pv_obj v a = Some (P_dict kvs)"
  shows "own (pv_release a v) ys" "pv_file (pv_release a v) = pv_file v"
  using own_release(1,2) [of v a ys] assms by simp_all

lemma pv_drop_other:
  "y \<noteq> x \<Longrightarrow> pv_drop y (v\<lparr>pv_refs := (pv_refs v)(x := n)\<rparr>) = (pv_drop y v)\<lparr>pv_refs := (pv_refs (pv_drop y v))(x := n)\<rparr>"
  by (simp add: pv_drop_def fun_upd_twist)

lemma pv_drops_other:
  "x \<notin> set ys \<Longrightarrow> fold pv_drop ys (v\<lparr>pv_refs := (pv_refs v)(x := n)\<rparr>) =
    (fold pv_drop ys v)\<lparr>pv_refs := (pv_refs (fold pv_drop ys v))(x := n)\<rparr>"
  by (induction ys arbitrary: v) (simp_all add: pv_drop_other)

lemma split_keys:
  assumes "distinct (map snd kvs)"
  shows "distinct (map snd (filter (\<lambda>(k', _). k' = t) kvs) @ map snd (filter (\<lambda>(k', _). k' \<noteq> t) kvs))"
    "set (map snd (filter (\<lambda>(k', _). k' = t) kvs) @ map snd (filter (\<lambda>(k', _). k' \<noteq> t) kvs)) = set (map snd kvs)"
proof -
  have "mset (filter (\<lambda>(k', _). k' = t) kvs @ filter (\<lambda>(k', _). k' \<noteq> t) kvs) = mset kvs"
    by (induction kvs) (auto split: prod.splits)
  then have "image_mset snd (mset (filter (\<lambda>(k', _). k' = t) kvs @ filter (\<lambda>(k', _). k' \<noteq> t) kvs)) = image_mset snd (mset kvs)" by simp
  then have m: "mset (map snd (filter (\<lambda>(k', _). k' = t) kvs) @ map snd (filter (\<lambda>(k', _). k' \<noteq> t) kvs)) = mset (map snd kvs)"
    by (simp only: map_append [symmetric] mset_map)
  show "distinct (map snd (filter (\<lambda>(k', _). k' = t) kvs) @ map snd (filter (\<lambda>(k', _). k' \<noteq> t) kvs))"
    using assms mset_eq_imp_distinct_iff [OF m] by blast
  show "set (map snd (filter (\<lambda>(k', _). k' = t) kvs) @ map snd (filter (\<lambda>(k', _). k' \<noteq> t) kvs)) = set (map snd kvs)"
    by (rule mset_eq_setD [OF m])
qed

definition dict_put :: "nat \<Rightarrow> string \<Rightarrow> nat \<Rightarrow> (string \<times> nat) list \<Rightarrow> pview \<Rightarrow> pview" where
  \<comment> \<open>What \<open>prop_dictionary_set\<close> does when it succeeds.\<close>
  "dict_put a t x kvs v =
     fold pv_drop (map snd (filter (\<lambda>(k', _). k' = t) kvs))
       (v\<lparr>pv_obj := (pv_obj v)(a \<mapsto> P_dict (filter (\<lambda>(k', _). k' \<noteq> t) kvs @ [(t, x)])),
          pv_refs := (pv_refs v)(x := pv_refs v x + 1)\<rparr>)"

lemma dict_replace:
  \<comment> \<open>The object that the key \<open>t\<close> had before goes, and the program gives up its reference to the new one.\<close>
  assumes D: "dict_inv v a kvs ks" and x: "x \<notin> set (a # map snd kvs)"
    and o1: "own v1 (x # a # map snd kvs)" and ob1: "pv_obj v1 = (pv_obj v)(x \<mapsto> P_string t)"
  shows "\<exists>kvs'. dict_inv (pv_release x (dict_put a t x kvs v1)) a kvs' (insert t ks)"
    "pv_file (pv_release x (dict_put a t x kvs v1)) = pv_file v1" "0 < pv_refs (dict_put a t x kvs v1) x"
proof -
  let ?olds = "map snd (filter (\<lambda>(k', _). k' = t) kvs)" and ?stay = "map snd (filter (\<lambda>(k', _). k' \<noteq> t) kvs)"
  let ?kvs = "filter (\<lambda>(k', _). k' \<noteq> t) kvs @ [(t, x)]"
  let ?ob = "(pv_obj v1)(a \<mapsto> P_dict ?kvs)"
  let ?w = "v1\<lparr>pv_obj := ?ob\<rparr>"
  let ?v3 = "fold pv_drop ?olds ?w"
  have kvs: "distinct (map snd kvs)" "a \<notin> set (map snd kvs)" using o1 by (simp_all add: own_def)
  note S = split_keys [OF kvs(1), of t]
  have xo: "x \<notin> set ?olds" "a \<notin> set ?olds" "x \<notin> set ?stay" "a \<notin> set ?stay" "x \<noteq> a" using x kvs(2) by auto
  have "own ?w (x # a # map snd kvs)" using o1 by (auto simp: own_def)
  from own_perm [OF this, of "?olds @ (x # a # ?stay)"] S xo have "own ?w (?olds @ (x # a # ?stay))" by auto
  note O = own_drops [OF this]
  then have o3: "own ?v3 (x # a # ?stay)" "pv_file ?v3 = pv_file v1" and ob3: "\<And>y. y \<notin> set ?olds \<Longrightarrow> pv_obj ?v3 y = ?ob y" by auto
  have r: "pv_refs v1 x = 1" "pv_refs ?v3 x = 1" using o1 o3(1) by (simp_all add: own_def)
  have "dict_put a t x kvs v1 = fold pv_drop ?olds (?w\<lparr>pv_refs := (pv_refs ?w)(x := 2)\<rparr>)"
    by (simp add: dict_put_def r(1) numeral_2_eq_2)
  also have "\<dots> = ?v3\<lparr>pv_obj := pv_obj ?v3, pv_refs := (pv_refs ?v3)(x := pv_refs ?v3 x + 1)\<rparr>"
    unfolding pv_drops_other [OF xo(1)] r(2) by (simp add: numeral_2_eq_2)
  finally have p: "dict_put a t x kvs v1 = ?v3\<lparr>pv_obj := pv_obj ?v3, pv_refs := (pv_refs ?v3)(x := pv_refs ?v3 x + 1)\<rparr>" .
  have "pv_obj ?v3 x = Some (P_string t)" using ob3 [OF xo(1)] ob1 xo(5) by simp
  from twice_release [OF o3(1) this, of "pv_obj ?v3"] have rel: "pv_release x (dict_put a t x kvs v1) = ?v3" unfolding p by simp
  show "0 < pv_refs (dict_put a t x kvs v1) x" by (simp add: p)
  show "pv_file (pv_release x (dict_put a t x kvs v1)) = pv_file v1" by (simp add: rel o3(2))
  have "own ?v3 (a # map snd ?kvs)" using own_perm [OF o3(1), of "a # map snd ?kvs"] o3(1) xo by (auto simp: own_def)
  moreover have "pv_obj ?v3 a = Some (P_dict ?kvs)" using ob3 [OF xo(2)] by simp
  moreover have "fst ` set ?kvs = insert t ks" using D by (auto simp: dict_inv_def image_iff split: prod.splits)
  moreover have "distinct (map fst ?kvs)" using D by (auto simp: dict_inv_def distinct_map_filter)
  moreover have "pv_obj ?v3 y = Some (P_string k)" if "(k, y) \<in> set ?kvs" for k y
  proof (cases "(k, y) = (t, x)")
    case True
    then show ?thesis using ob3 [OF xo(1)] ob1 xo(5) by simp
  next
    case False
    then have m: "(k, y) \<in> set kvs" "k \<noteq> t" using that by auto
    then have y: "y \<in> set ?stay" by force
    then have "y \<notin> set ?olds" "y \<noteq> a" "y \<noteq> x" using S(1) xo by auto
    then show ?thesis using ob3 [of y] ob1 D m(1) by (auto simp: dict_inv_def)
  qed
  ultimately have "dict_inv ?v3 a ?kvs (insert t ks)" unfolding dict_inv_def by blast
  then show "\<exists>kvs'. dict_inv (pv_release x (dict_put a t x kvs v1)) a kvs' (insert t ks)" unfolding rel by blast
qed

lemma dict_items_ok:
  assumes P: "proplib_ok P view"
  shows "dict_inv (view l) a kvs ks \<Longrightarrow> dict_items P a ts l = (e, l') \<Longrightarrow> pv_file (view l) = f \<Longrightarrow>
    (if e = PE_ok then pv_file (view l') = f \<and> (\<exists>kvs'. dict_inv (view l') a kvs' (ks \<union> set ts)) else view l' = bare f)"
proof (induction ts arbitrary: l kvs ks)
  case Nil
  then show ?case by auto
next
  case (Cons t ts)
  note D = Cons.prems(1)
  have O: "own (view l) (a # map snd kvs)" "pv_obj (view l) a = Some (P_dict kvs)" using D by (simp_all add: dict_inv_def)
  obtain r l1 where m: "pl_string_create P t l = (r, l1)" by force
  note M = made_own [OF O(1) proplibD(3) [OF P, of l t], unfolded m prod.sel]
  show ?case
  proof (cases r)
    case None
    then have v: "view l1 = view l" using M by simp
    have "view (pl_release P a l1) = pv_release a (view l1)" by (rule release_view [OF P O(1) [folded v]]) simp
    moreover have "pv_release a (view l1) = bare f"
      unfolding v using dict_release [of "view l" a kvs "[]"] O Cons.prems(3) by (intro own_end) simp_all
    ultimately show ?thesis using Cons.prems(2) m None by auto
  next
    case (Some x)
    have x: "x \<notin> set (a # map snd kvs)" "own (view l1) (x # a # map snd kvs)" "pv_file (view l1) = f"
      "pv_obj (view l1) = (pv_obj (view l))(x \<mapsto> P_string t)" using M Some Cons.prems(3) by simp_all
    have oa: "pv_obj (view l1) a = Some (P_dict kvs)" using x(1,4) O(2) by auto
    obtain b l2 where st: "pl_dict_set P a t x l1 = (b, l2)" by force
    have A: "view l2 = (if b then dict_put a t x kvs (view l1) else view l1)"
      using set_view [OF P oa, of x t] x(4) st by (simp add: dict_put_def)
    show ?thesis
    proof (cases b)
      case False
      then have v: "view l2 = view l1" using A by simp
      have ox: "pv_obj (view l1) x = Some (P_string t)" using x(4) by simp
      note R = release_string [OF x(2) ox]
      have 1: "view (pl_release P x l2) = pv_release x (view l1)"
        using release_view [OF P, of l2 "x # a # map snd kvs" x] x(2) v by simp
      have oa': "pv_obj (pv_release x (view l1)) a = Some (P_dict kvs)" using R(3) [of a] oa x(1) by simp
      have "view (pl_release P a (pl_release P x l2)) = pv_release a (view (pl_release P x l2))"
        by (rule release_view [OF P, of _ "a # map snd kvs"]) (use R(1) 1 in simp_all)
      also have "\<dots> = bare f"
        unfolding 1 using dict_release [of _ a kvs "[]"] R(1,2) oa' x(3) by (intro own_end) simp_all
      finally show ?thesis using Cons.prems(2) m Some st False by auto
    next
      case True
      note R = dict_replace [OF D x(1,2,4)]
      have v2: "view l2 = dict_put a t x kvs (view l1)" using A True by simp
      have rel: "view (pl_release P x l2) = pv_release x (dict_put a t x kvs (view l1))"
        using proplibD(4) [OF P, of l2 x] R(3) v2 by simp
      obtain kvs' where d': "dict_inv (view (pl_release P x l2)) a kvs' (insert t ks)" using R(1) rel by auto
      have "pv_file (view (pl_release P x l2)) = f" using R(2) rel x(3) by simp
      from Cons.IH [OF d' _ this] show ?thesis using Cons.prems(2) m Some st True by (auto split: if_splits)
    qed
  qed
qed

text \<open>C34: \<open>prop_dict\<close> writes a dictionary in which each of its arguments stands for itself, arguments given twice
  included; however it ends, it has given up every reference to an object that it had.\<close>

theorem prop_dict_correct:
  assumes P: "proplib_ok P view" and l: "view l = bare f"
  shows "\<exists>e l' r. prop_dict_main P argv l = (e, l') \<and>
    (view l' = bare f \<and> e \<noteq> PE_ok \<or> view l' = bare (f(''./data.xml'' := r))) \<and>
    (e = PE_ok \<longrightarrow> r = Some (F_dict (\<lambda>k. if k \<in> set (tl argv) then Some k else None)))"
proof -
  obtain r l1 where m: "pl_dict_create P l = (r, l1)" by force
  note M = made_own [OF bare_own(1) proplibD(2) [OF P, of l, unfolded l], unfolded m prod.sel bare_own(2)]
  show ?thesis
  proof (cases r)
    case None
    then show ?thesis using M l m by (auto simp: prop_dict_main_def)
  next
    case (Some a)
    have a: "dict_inv (view l1) a [] {}" "pv_file (view l1) = f" using M Some by (simp_all add: dict_inv_def)
    obtain e2 l2 where wi: "dict_items P a (tl argv) l1 = (e2, l2)" by force
    note W = dict_items_ok [OF P a(1) wi a(2)]
    show ?thesis
    proof (cases "e2 = PE_ok")
      case False
      then show ?thesis using W wi m Some by (auto simp: prop_dict_main_def split: p_end.splits)
    next
      case True
      then obtain kvs where x: "dict_inv (view l2) a kvs (set (tl argv))" "pv_file (view l2) = f" using W by auto
      let ?c = "F_dict (\<lambda>k. if k \<in> set (tl argv) then Some k else None)"
      obtain b l3 where ex: "pl_externalize P a ''./data.xml'' l2 = (b, l3)" by force
      note E = externalize_view [OF P dict_contents [OF x(1)], of "''./data.xml''", unfolded ex prod.sel]
      obtain q where q: "view l3 = (view l2)\<lparr>pv_file := (pv_file (view l2))(''./data.xml'' := q)\<rparr>" "b \<longrightarrow> q = Some ?c"
        using E by (cases b) auto
      have o3: "own (view l3) (a # map snd kvs @ [])" "pv_obj (view l3) a = Some (P_dict kvs)"
        using x(1) q(1) by (simp_all add: dict_inv_def own_def)
      have "view (pl_release P a l3) = pv_release a (view l3)" by (rule release_view [OF P o3(1)]) simp
      also have "\<dots> = bare (f(''./data.xml'' := q))"
        using dict_release [OF o3] q(1) x(2) by (intro own_end) simp_all
      finally have v: "view (pl_release P a l3) = bare (f(''./data.xml'' := q))" .
      have "\<exists>e. prop_dict_main P argv l = (e, pl_release P a l3) \<and> (e = PE_ok \<longrightarrow> b)"
        using m Some wi True ex by (cases b) (simp_all add: prop_dict_main_def)
      then show ?thesis using v q(2) by auto
    qed
  qed
qed

section \<open>A library that keeps its promises\<close>

definition fresh_at :: "pview \<Rightarrow> nat \<Rightarrow> nat \<Rightarrow> bool" where
  "fresh_at v n k \<longleftrightarrow> (\<forall>x\<in>set [n..<n + k]. pv_refs v x = 0)"

definition ex_make :: "pobj \<Rightarrow> pview \<times> nat \<Rightarrow> nat option \<times> pview \<times> nat" where
  "ex_make ob = (\<lambda>(v, n). if fresh_at v n 1 then (Some n, pv_new n ob v, n + 1) else (None, v, n))"

definition ex_api :: "(pview \<times> nat) propapi" where
  \<comment> \<open>The view itself, with the number of the next object.\<close>
  "ex_api =
     \<lparr>pl_array_create = ex_make (P_array []), pl_dict_create = ex_make (P_dict []), pl_string_create = (\<lambda>s. ex_make (P_string s)),
      pl_array_add = (\<lambda>a b (v, n). case pv_obj v a of
          Some (P_array xs) \<Rightarrow> (True, v\<lparr>pv_obj := (pv_obj v)(a \<mapsto> P_array (xs @ [b])), pv_refs := (pv_refs v)(b := pv_refs v b + 1)\<rparr>, n)
        | _ \<Rightarrow> (False, v, n)),
      pl_dict_set = (\<lambda>a k b (v, n). case pv_obj v a of
          Some (P_dict kvs) \<Rightarrow> (True, dict_put a k b kvs v, n)
        | _ \<Rightarrow> (False, v, n)),
      pl_release = (\<lambda>a (v, n). (pv_release a v, n)),
      pl_externalize = (\<lambda>a f (v, n). case pv_contents v (pv_obj v a) of
          Some c \<Rightarrow> (True, v\<lparr>pv_file := (pv_file v)(f \<mapsto> c)\<rparr>, n)
        | None \<Rightarrow> (False, v, n)),
      pl_internalize = (\<lambda>f (v, n). case pv_file v f of
          Some (F_array vals) \<Rightarrow>
            (let k = length vals; xs = [n + 1..<n + 1 + k] in
             if fresh_at v n (k + 1)
             then (Some n, v\<lparr>pv_refs := (\<lambda>x. if x \<in> set (n # xs) then 1 else pv_refs v x),
                             pv_obj := (pv_obj v ++ map_of (zip xs (map p_obj_of vals)))(n \<mapsto> P_array xs)\<rparr>, n + 1 + k)
             else (None, v, n))
        | _ \<Rightarrow> (None, v, n)),
      pl_count = (\<lambda>a (v, n). length (members (pv_obj v a))),
      pl_get = (\<lambda>a i (v, n). if i < length (members (pv_obj v a)) then Some (members (pv_obj v a) ! i) else None),
      pl_is_string = (\<lambda>a (v, n). (a \<bind> (\<lambda>a. p_string (pv_obj v a))) \<noteq> None),
      pl_cstring = (\<lambda>a (v, n). a \<bind> (\<lambda>a. p_string (pv_obj v a))),
      pl_iterator = (\<lambda>a (v, n). case pv_iter v n of
          None \<Rightarrow> (Some n, v\<lparr>pv_iter := (pv_iter v)(n \<mapsto> (a, members (pv_obj v a))), pv_refs := (pv_refs v)(a := pv_refs v a + 1)\<rparr>, n + 1)
        | Some _ \<Rightarrow> (None, v, n)),
      pl_next = (\<lambda>pit (v, n). case pv_iter v pit of
          Some (a, xs) \<Rightarrow> (case xs of [] \<Rightarrow> None | x # _ \<Rightarrow> Some x, v\<lparr>pv_iter := (pv_iter v)(pit \<mapsto> (a, tl xs))\<rparr>, n)
        | None \<Rightarrow> (None, v, n)),
      pl_iterator_release = (\<lambda>pit (v, n). case pv_iter v pit of
          Some (a, _) \<Rightarrow> (pv_release a (v\<lparr>pv_iter := (pv_iter v)(pit := None)\<rparr>), n)
        | None \<Rightarrow> (v, n))\<rparr>"

lemma ex_make_made: "made (fst l) ob (fst (ex_make ob l)) (fst (snd (ex_make ob l)))"
  by (cases l) (simp add: ex_make_def made_def fresh_at_def)

lemma ex_api_ok: "proplib_ok ex_api fst"
proof -
  have "law_create ex_api fst" by (simp add: law_create_def ex_api_def ex_make_made)
  moreover have "law_add ex_api fst" "law_set ex_api fst" "law_release ex_api fst"
    by (auto simp: law_add_def law_set_def law_release_def ex_api_def dict_put_def)
  moreover have "law_write ex_api fst" by (auto simp: law_write_def ex_api_def)
  moreover have "law_read ex_api fst"
  proof -
    have "loaded v vals n (v\<lparr>pv_refs := (\<lambda>x. if x \<in> set (n # [n + 1..<n + 1 + length vals]) then 1 else pv_refs v x),
        pv_obj := (pv_obj v ++ map_of (zip [n + 1..<n + 1 + length vals] (map p_obj_of vals)))(n \<mapsto> P_array [n + 1..<n + 1 + length vals])\<rparr>)"
      if "fresh_at v n (length vals + 1)" for v vals n
      unfolding loaded_def
      by (rule exI [of _ "[n + 1..<n + 1 + length vals]"]) (use that in \<open>auto simp: fresh_at_def Suc_le_eq\<close>)
    then show ?thesis by (auto simp: law_read_def ex_api_def Let_def split: option.splits pfile.splits simp del: upt_Suc)
  qed
  moreover have "law_array ex_api fst" "law_string ex_api fst" by (auto simp: law_array_def law_string_def ex_api_def)
  moreover have "law_iterator ex_api fst" "law_next ex_api fst"
    by (auto simp: law_iterator_def law_next_def ex_api_def split: option.splits)
  ultimately show ?thesis by (simp add: proplib_ok_def)
qed

lemma prop_array_roundtrip_witness:
  "\<exists>e l1 f1. prop_write_main ex_api [''w'', ''f'', ''x''] (bare Map.empty, 0) = (e, l1) \<and> fst l1 = bare f1"
  using prop_array_roundtrip [OF ex_api_ok, of "(bare Map.empty, 0)"] by force

lemma prop_dict_correct_witness:
  "\<exists>e l' r. prop_dict_main ex_api [''d'', ''x'', ''y'', ''x''] (bare Map.empty, 0) = (e, l') \<and>
     (e = PE_ok \<longrightarrow> fst l' = bare [''./data.xml'' \<mapsto> F_dict (\<lambda>k. if k \<in> {''x'', ''y''} then Some k else None)])"
proof -
  have l: "fst (bare Map.empty, 0 :: nat) = bare Map.empty" by simp
  from prop_dict_correct [OF ex_api_ok l, of "[''d'', ''x'', ''y'', ''x'']"] obtain e l' r where
    d: "prop_dict_main ex_api [''d'', ''x'', ''y'', ''x''] (bare Map.empty, 0) = (e, l')"
    "fst l' = bare Map.empty \<and> e \<noteq> PE_ok \<or> fst l' = bare (Map.empty(''./data.xml'' := r))"
    "e = PE_ok \<longrightarrow> r = Some (F_dict (\<lambda>k. if k \<in> set (tl [''d'', ''x'', ''y'', ''x'']) then Some k else None))" by blast
  have "set (tl [''d'', ''x'', ''y'', ''x'']) = {''x'', ''y''}" by auto
  with d show ?thesis by (intro exI [of _ e] exI [of _ l'] exI [of _ r]) (simp only:, blast)
qed

end
