(* ===== verification/Spec2Isabelle.thy ===== *)
theory Spec2Isabelle imports Mpool_Props Pool_Sim Pool_Tests Pool_Rows Htable_Props Htable_Trace Fsm_Tables Fsm_Machine Rmcom
  Fsm_Stress Fsm_Threads Fsm_Race Fsm_Debug Barber_Inv Counter Matrix_Props Spawn Queues Hexdump Mydev Listdir Homework Arrays Kqueue
  Syscalls Du Scanf Proplib begin

text \<open>
  A model in HOL of the C programs of this repository, and proofs of what makes them correct.

  \<^bold>\<open>The repository.\<close> It collects small libraries and programs. Three libraries carry its own
  data structures: the buddy allocator (\<open>buddy/mpool.c\<close>, \<open>mpool.h\<close>) with its statistics
  (\<open>mstat.c\<close>), the chained hash table (\<open>genstructs/htable/htable.c\<close>) and the finite state
  machines (\<open>fsm/states.c\<close>, \<open>fsm.c\<close>), which keep their states and events in hash tables and call
  the client's actions. Test programs are their clients. The thread programs
  (\<open>pthreads/sleepbarber.c\<close>, \<open>pthread_mutex.c\<close>, \<open>pthread_semaphore.c\<close>, \<open>matrixmul/matrixmul.c\<close>) share
  memory under semaphores and mutexes. The rest are examples of system interfaces.

  \<^bold>\<open>Conventions.\<close> (\<open>Prelude\<close>) Behaviour that the C standard leaves undefined is a value: a
  function whose text can run into it returns an \<open>option\<close>, and \<open>None\<close> is the undefined run, or, for
  a \<open>partial_function\<close>, the one that does not return; a theorem that something returns states
  \<open>Some\<close>. Addresses are \<open>nat\<close>, NULL is \<open>None\<close> of an \<open>addr option\<close>. \<open>size_t\<close> arithmetic is written
  with its wrap-around, of width \<open>8 * w\<close> for a word size \<open>w\<close> of 4 or 8 bytes in the allocator, and
  on 64-bit words in the hash table and the machines. The heap behind \<open>malloc\<close> and \<open>free\<close> has a
  schedule that says which calls the system refuses, so each failing path is reached; it records
  live blocks and invalid releases. Chains of \<open>sys/queue.h\<close> are lists in the libraries; where the links themselves are the
  point (\<open>Queues\<close>, \<open>Fsm_Race\<close>) each is a pointer in memory.

  \<^bold>\<open>The buddy allocator.\<close> \<open>Mpool\<close> translates \<open>mpool_init\<close>, \<open>mpool_alloc\<close> (the search for a block,
  \<open>mpool_find\<close>, and the loop from \<open>AGAIN\<close>), \<open>mpool_free\<close> in both builds (the loop from
  \<open>CHUNK_FOUND\<close>), \<open>mpool_destroy\<close> and the macros of the header; \<open>Mstat\<close> the statistics.
  \<open>Buddy_Blocks\<close> is the arithmetic of aligned blocks that tile the pool and of their buddies;
  \<open>Mpool_Inv\<close> the invariant (each block on the list of its size, header and flags right, including
  the PARENT bit that remembers what a block merges into); \<open>Mpool_Steps\<close> one split and one merge;
  \<open>Mpool_Ops\<close> the refinement of the operations to sets of blocks (offset, logsize, available);
  \<open>Mpool_Reach\<close> creation, absence of free buddies, and the pools clients can reach;
  \<open>Mpool_Props\<close> the properties. The bound \<open>M < 31\<close> on the logarithm of the size is where \<open>1 << M\<close>
  is defined on an \<open>int\<close>. \<open>Pool_Used\<close> views the pool as a client does (the blocks in use, and when
  an allocation must succeed); \<open>Pool_Sim\<close> is the simulation \<open>buddy/test4.c\<close>, with the result that
  none of its 20000 allocations can fail, \<open>Pool_Tests\<close> are \<open>test1.c\<close>, \<open>test3.c\<close> and \<open>test5.c\<close>,
  and \<open>Pool_Rows\<close> is \<open>test2.c\<close>, where the contents of the blocks are modelled too: an allocation writes no header over a
  block in use (lemma \<open>alloc_frame\<close>), no number is written over another (\<open>t2_cells_apart\<close>), and so the whole matrix is
  in the pool at the end.

  \<^bold>\<open>The hash table.\<close> \<open>Htable\<close> translates all operations with the callbacks as fields of the
  table, as in the code; \<open>Htable_Inv\<close>, \<open>Htable_Ops\<close> and \<open>Htable_Iter\<close> prove, in the locale of what
  the table needs of its callbacks (equal keys have equal hashes, the comparison tells equality),
  that it implements a map, which nodes an iteration visits (all but those behind the first of the
  last bucket), and where each block of memory
  goes; \<open>Htable_Props\<close> states the properties for callbacks that satisfy these laws, with the
  callbacks of \<open>genstructs/htable/test1.c\<close> and of the machines as interpretations, and proves what
  \<open>test1.c\<close> prints, its random strings included. \<open>Htable_Trace\<close> puts the operations together: the replies of a table from \<open>htable_init\<close> to
  \<open>htable_free\<close> are those of a finite map. Bounds: addresses below \<open>2 ^ 47\<close> and tables of up to \<open>2 ^ 43\<close> buckets, so that
  sizes in bytes do not wrap.

  \<^bold>\<open>The machines.\<close> \<open>Fsm\<close> translates \<open>states.c\<close> and \<open>fsm.c\<close> over a world of objects by address;
  an action is a parameter \<open>exec\<close>, the client's code. \<open>Fsm_Inv\<close> is the invariant, one event, and
  the marking of reachable states; \<open>Fsm_Props\<close> the properties of events, queues and marking,
  \<open>Fsm_Tables\<close> those of building the tables. \<open>Fsm_Own\<close> says which blocks of memory a machine owns and
  what each kind of change does to them, \<open>Fsm_Life\<close> and \<open>Fsm_Drive\<close> that every operation keeps them
  live and apart whatever \<open>malloc\<close> refuses, \<open>Fsm_Release\<close> what \<open>fsm_free\<close> gives back, and \<open>Fsm_Machine\<close>
  puts them together for every history from \<open>fsm_init\<close> to \<open>fsm_free\<close>. The client's side of such a
  history is written in the step relation \<open>life_step\<close>; new states of events are states, as in every
  caller of the repository, and actions do not touch the machine. \<open>Fsm_Plenty\<close> shows that building a
  machine succeeds when memory suffices, and \<open>Rmcom\<close> is the client \<open>fsm/test_rmcom.c\<close>, which removes the
  comments of a text: that it does, for lines shorter than its buffer of 256 characters, when its 12000 bytes of memory are there.
  \<open>Fsm_Stress\<close> is \<open>fsm/test_stress.c\<close>: for three million bytes and any random numbers it runs to its end.
  \<open>Fsm_Threads\<close> builds the machine of \<open>fsm/test_thread.c\<close>. \<open>Fsm_Race\<close> is the queue that its threads share: the mutex
  protects the producers from each other, but \<open>fsm_dequeue_event\<close> does not take it. Two runs show what that costs
  (lemma \<open>th_queue_race\<close>); in every run in which no node is removed while another is being linked in, the three threads
  share the queue correctly.
  \<open>Fsm_Debug\<close> is about printing a machine and iterating over small keys, which goes in their order, and has the client
  \<open>fsm/dbg_fsm.c\<close>, with a complete account of what it prints and marks when 20000 bytes are there.

  \<^bold>\<open>The thread programs.\<close> \<open>Threads\<close> has runs of interleaved atomic actions and the locale of a
  program with an invariant and a measure; each program has a step relation or function with one
  action per semaphore call, lock call and access to shared memory: \<open>Barber\<close> and \<open>Barber_Inv\<close>,
  \<open>Counter\<close> (the mutex and the semaphore as two instances of one lock), \<open>Matrix\<close> with
  \<open>Matrix_Inv\<close>, \<open>Matrix_Threads\<close> and \<open>Matrix_Props\<close>. Runs are bounded by a measure (163 actions
  for the barber, 168 for the counters, a bound in the dimensions for the matrices), so deadlock freedom is proved as termination in a final
  state. \<open>Spawn\<close> has \<open>pthread_create.c\<close>, \<open>pthread_join.c\<close> and \<open>ipc/fork_mult.c\<close> in the same way, at most
  sixteen actions for the last. Memory is sequentially consistent, which the code may rely on where accesses are locked.

  \<^bold>\<open>Files and devices.\<close> \<open>Hexdump\<close> is \<open>fileops/hexdump.c\<close> from its options to its last line, with a decoder
  that reads the bytes back; counters are \<open>int\<close>s that may not overflow. \<open>Mydev\<close> is the pseudo-device driver
  \<open>cdev/mydev.c\<close> and its test program \<open>testdev.c\<close> on top of it; the kernel's \<open>uiomove\<close> and the library \<open>proplib\<close>
  are arguments, with their documented behaviour as hypotheses. \<open>Listdir\<close> is \<open>fileops/listdir_recursive.c\<close> over
  a tree of directories, with its heap, its open streams and its static depth. \<open>Homework\<close> is \<open>homework/bitmap.c\<close> and
  \<open>charfreq.c\<close>; \<open>Kqueue\<close> is \<open>kqueue/kqclient.c\<close> and \<open>kqdir.c\<close>, for any list of answers of the kernel.
  \<open>Scanf\<close> is \<open>homework/scanfprob.c\<close>, which may go on for ever. \<open>Arrays\<close> is \<open>homework/qsort2darray.c\<close>, \<open>2darray.c\<close> and \<open>tree.c\<close>; \<open>Syscalls\<close> has
  \<open>fileops/readwd.c\<close>, \<open>termios/echo_off.c\<close>, \<open>ipc/mmap.c\<close> and \<open>ipc/popen_ls.c\<close> for what the kernel answers. \<open>Queues\<close> is
  \<open>genstructs/slinkedlist.c\<close> and \<open>tailq.c\<close>, in which looking at a released node is undefined. \<open>Du\<close> is
  \<open>proplib/prop_parse_du.c\<close>, whose line splitting is proved to undo the output of \<open>du\<close> (its dictionaries have no reference counts); \<open>Proplib\<close> the other three
  programs of that directory: what the manual says of the library's references is a hypothesis on a view of its objects,
  with an instance that satisfies it, and the theorems say that each program gives up every reference it has.

  \<^bold>\<open>Not modelled.\<close> \<open>fileops/listdir.c\<close>, \<open>disklabel.c\<close>, \<open>kqueue/kqtimer.c\<close>, \<open>ipc/fork.c\<close>,
  \<open>fork_execlp.c\<close> and \<open>atf\<close> only show a function of the system.
  Debugging output (\<open>DPRINTF\<close>, \<open>mpool_printblks\<close>) is empty in the build. The text of \<open>%.2f\<close> is kept as numerator and
  denominator. The checks of \<open>argc\<close> and the texts of error messages are left out where nothing depends on them.
\<close>

end
